(* ===== verification/Prelude.thy ===== *)
theory Prelude
  imports Main "HOL-Library.Word"
begin

text \<open>
  The prelude of the development: the names of the machine types the C++ code
  uses, the theorem collections the component theories fill, and the lemmas on
  lists, options and words that several of them share.

  The target is the one the code is built for in practice: 8-bit bytes, an
  LP64 data model (\<open>size_t\<close>, \<open>long\<close> and pointers have 64 bits) and, unless a
  definition takes the byte order as an argument, a little-endian machine.
\<close>

unbundle bit_operations_syntax

type_synonym byte = "8 word"
type_synonym u16 = "16 word"
type_synonym u32 = "32 word"
type_synonym u64 = "64 word"

text \<open>
  \<open>invariant_intros\<close> collects the preservation lemmas of the component
  invariants, \<open>content_simps\<close> what the operations do to the abstract content.
\<close>

named_theorems invariant_intros
named_theorems content_simps

subsection \<open>Bytes and characters\<close>

definition byte_of :: "char \<Rightarrow> byte" where
  "byte_of c = word_of_nat (of_char c)"

definition char_at :: "byte \<Rightarrow> char" where
  "char_at b = char_of (unat b)"

lemma of_char_less_256: "(of_char c :: nat) < 256"
  by simp

lemma char_at_byte_of [simp]: "char_at (byte_of c) = c"
  by (simp add: char_at_def byte_of_def unat_of_nat take_bit_eq_mod)

lemma byte_of_char_at [simp]: "byte_of (char_at b) = b"
proof -
  have "unat b < 256" using unsigned_less [of b] by simp
  then show ?thesis by (simp add: char_at_def byte_of_def of_char_of)
qed

lemma map_char_at_byte_of [simp]: "map char_at (map byte_of s) = s"
  by (induction s) simp_all

lemma map_char_at_comp_byte_of [simp]: "map (char_at \<circ> byte_of) s = s"
  by (induction s) simp_all


subsection \<open>Words from bits\<close>

definition word_of_bits :: "nat \<Rightarrow> (nat \<Rightarrow> bool) \<Rightarrow> 'w::len word" where
  "word_of_bits n f = horner_sum of_bool 2 (map f [0..<n])"

lemma bit_word_of_bits:
  "bit (word_of_bits n f :: 'w::len word) i \<longleftrightarrow> i < LENGTH('w) \<and> i < n \<and> f i"
  by (auto simp: word_of_bits_def bit_horner_sum_bit_iff)


subsection \<open>Runs of fallible operations and their refinement\<close>

text \<open>
  A component is a step function on its state that may fail.  \<open>data_refinement\<close> is
  what a caller of such a component relies on: a relation \<open>R\<close> between its states and
  the values a caller thinks of, kept by every allowed step, none of which fails.
\<close>

fun run_ops :: "('op \<Rightarrow> 's \<Rightarrow> 'e + 's) \<Rightarrow> 'op list \<Rightarrow> 's \<Rightarrow> 'e + 's" where
  "run_ops step [] s = Inr s"
| "run_ops step (x # xs) s = (case step x s of Inl e \<Rightarrow> Inl e | Inr s' \<Rightarrow> run_ops step xs s')"

lemma run_ops_append:
  "run_ops step (xs @ ys) s =
     (case run_ops step xs s of Inl e \<Rightarrow> Inl e | Inr s' \<Rightarrow> run_ops step ys s')"
  by (induction xs arbitrary: s) (auto split: sum.split)

fun allowed_run :: "('op \<Rightarrow> 'v \<Rightarrow> bool) \<Rightarrow> ('op \<Rightarrow> 'v \<Rightarrow> 'v) \<Rightarrow> 'op list \<Rightarrow> 'v \<Rightarrow> bool" where
  "allowed_run allowed spec [] v = True"
| "allowed_run allowed spec (x # xs) v =
     (allowed x v \<and> allowed_run allowed spec xs (spec x v))"

locale data_refinement =
  fixes step :: "'op \<Rightarrow> 's \<Rightarrow> 'e + 's"
    and spec :: "'op \<Rightarrow> 'v \<Rightarrow> 'v"
    and allowed :: "'op \<Rightarrow> 'v \<Rightarrow> bool"
    and R :: "'s \<Rightarrow> 'v \<Rightarrow> bool"
  assumes simulates: "R s v \<Longrightarrow> allowed x v \<Longrightarrow> \<exists>s'. step x s = Inr s' \<and> R s' (spec x v)"
begin

lemma run_simulates:
  "R s v \<Longrightarrow> allowed_run allowed spec xs v \<Longrightarrow>
     \<exists>s'. run_ops step xs s = Inr s' \<and> R s' (fold spec xs v)"
proof (induction xs arbitrary: s v)
  case (Cons x xs)
  then obtain s' where "step x s = Inr s'" "R s' (spec x v)"
    using simulates by fastforce
  with Cons show ?case by simp
qed simp

end

end
