(* ===== verification/Endian.thy ===== *)
theory Endian
  imports Prelude
begin

text \<open>
  \<^verbatim>\<open>include/utils/fixEndian.hpp\<close>: byte order of integers.  \<open>mem\<close> is the object
  representation of an integer on a machine of a given byte order; the functions
  \<open>call16\<close> to \<open>call64\<close> are the specialisations of \<open>FixEndian<true>::call\<close>, which
  read the bytes \<open>s[i]\<close> of their argument, and \<open>call_generic\<close> is the template
  they specialise.  The lemmas say which byte order each of them produces.
\<close>

subsection \<open>Object representation\<close>

datatype host = LittleHost | BigHost

definition le_bytes :: "'a::len word \<Rightarrow> byte list" where
  "le_bytes w = map (\<lambda>i. ucast (drop_bit (8 * i) w)) [0..<LENGTH('a) div 8]"

fun of_le :: "byte list \<Rightarrow> 'a::len word" where
  "of_le [] = 0"
| "of_le (b # bs) = ucast b OR push_bit 8 (of_le bs)"

fun mem :: "host \<Rightarrow> 'a::len word \<Rightarrow> byte list" where
  "mem LittleHost w = le_bytes w"
| "mem BigHost w = rev (le_bytes w)"

fun of_mem :: "host \<Rightarrow> byte list \<Rightarrow> 'a::len word" where
  "of_mem LittleHost bs = of_le bs"
| "of_mem BigHost bs = of_le (rev bs)"

lemma length_le_bytes [simp]: "length (le_bytes (w :: 'a::len word)) = LENGTH('a) div 8"
  by (simp add: le_bytes_def)

lemma length_mem [simp]: "length (mem h (w :: 'a::len word)) = LENGTH('a) div 8"
  by (cases h) simp_all

lemma bit_of_le_Cons:
  "bit (of_le (b # bs) :: 'a::len word) n \<longleftrightarrow>
     n < LENGTH('a) \<and> (if n < 8 then bit b n else bit (of_le bs :: 'a word) (n - 8))"
proof -
  have "bit (of_le (b # bs) :: 'a word) n \<longleftrightarrow>
      n < LENGTH('a) \<and> bit b n \<or> n < LENGTH('a) \<and> 8 \<le> n \<and> bit (of_le bs :: 'a word) (n - 8)"
    by (simp add: bit_or_iff bit_push_bit_iff bit_ucast_iff) blast
  moreover have "8 \<le> n \<Longrightarrow> \<not> bit b n"
    using bit_imp_le_length [of b n] by auto
  ultimately show ?thesis by (cases "n < 8") auto
qed

lemma bit_of_le:
  "bit (of_le bs :: 'a::len word) n \<longleftrightarrow>
     n < LENGTH('a) \<and> n < 8 * length bs \<and> bit (bs ! (n div 8)) (n mod 8)"
proof (induction bs arbitrary: n)
  case Nil
  then show ?case by simp
next
  case (Cons b bs)
  show ?case
  proof (cases "n < 8")
    case True
    then show ?thesis by (simp add: bit_of_le_Cons del: of_le.simps)
  next
    case False
    then obtain m where m: "n = m + 8" using le_Suc_ex [of 8 n] by (auto simp: add.commute)
    then have "n div 8 = Suc (m div 8)" and "n mod 8 = m mod 8" by simp_all
    with m Cons.IH [of m] show ?thesis
      by (simp add: bit_of_le_Cons del: of_le.simps) auto
  qed
qed

lemma of_le_le_bytes:
  assumes "LENGTH('a) mod 8 = 0"
  shows "of_le (le_bytes w) = (w :: 'a::len word)"
proof (rule bit_word_eqI)
  fix n assume n: "n < LENGTH('a)"
  have len: "8 * (LENGTH('a) div 8) = LENGTH('a)"
    using mult_div_mod_eq [of 8 "LENGTH('a)"] assms by simp
  have lt: "n div 8 < LENGTH('a) div 8"
    using n len by (intro less_mult_imp_div_less) (simp only: mult.commute)
  have nth: "le_bytes w ! (n div 8) = ucast (drop_bit (8 * (n div 8)) w)"
    using lt by (simp add: le_bytes_def)
  have "bit (ucast (drop_bit (8 * (n div 8)) w) :: byte) (n mod 8) = bit w (8 * (n div 8) + n mod 8)"
    by (simp add: bit_ucast_iff bit_drop_bit_eq del: mult_div_mod_eq)
  then have "bit (le_bytes w ! (n div 8)) (n mod 8) = bit w n"
    by (simp add: nth)
  then show "bit (of_le (le_bytes w) :: 'a word) n = bit w n"
    using n len by (simp add: bit_of_le)
qed

lemma of_mem_mem:
  "LENGTH('a) mod 8 = 0 \<Longrightarrow> of_mem h (mem h w) = (w :: 'a::len word)"
  by (cases h) (simp_all add: of_le_le_bytes)

lemma le_bytes8: "le_bytes (w :: 8 word) = [w]"
  by (simp add: le_bytes_def)

subsection \<open>\<open>FixEndian<true>::call\<close>\<close>

definition call16 :: "host \<Rightarrow> u16 \<Rightarrow> u16" where
  "call16 h v = (let s = mem h v in
     push_bit 8 (ucast (s ! 0)) OR ucast (s ! 1))"

definition call32 :: "host \<Rightarrow> u32 \<Rightarrow> u32" where
  "call32 h v = (let s = mem h v in
     push_bit 24 (ucast (s ! 0)) OR push_bit 16 (ucast (s ! 1)) OR
     push_bit 8 (ucast (s ! 2)) OR ucast (s ! 3))"

definition call64 :: "host \<Rightarrow> u64 \<Rightarrow> u64" where
  "call64 h v = (let s = mem h v in
     push_bit 56 (ucast (s ! 0)) OR push_bit 48 (ucast (s ! 1)) OR
     push_bit 40 (ucast (s ! 2)) OR push_bit 32 (ucast (s ! 3)) OR
     push_bit 24 (ucast (s ! 4)) OR push_bit 16 (ucast (s ! 5)) OR
     push_bit 8 (ucast (s ! 6)) OR ucast (s ! 7))"

text \<open>
  The generic template swaps \<open>data[i]\<close> and \<open>data[len-i-1]\<close> in place for \<open>i\<close> below
  \<open>len/2\<close> and returns the value the bytes then hold.
\<close>

fun swap_loop :: "nat \<Rightarrow> nat \<Rightarrow> byte list \<Rightarrow> byte list" where
  "swap_loop 0 i data = data"
| "swap_loop (Suc k) i data =
     (let i2 = length data - i - 1; b = data ! i
      in swap_loop k (Suc i) (data[i := data ! i2, i2 := b]))"

definition call_generic :: "host \<Rightarrow> 'a::len word \<Rightarrow> 'a word" where
  "call_generic h v = of_mem h (let data = mem h v in swap_loop (length data div 2) 0 data)"

text \<open>The test of the header converts a value; it never looks at memory.\<close>

definition isLitEndian :: bool where
  "isLitEndian = ((ucast (1 :: u16) :: byte) \<noteq> 0)"

definition isBigEndian :: bool where
  "isBigEndian = (\<not> isLitEndian)"

definition litEndian16 :: "host \<Rightarrow> u16 \<Rightarrow> u16" where
  "litEndian16 h v = (if \<not> isLitEndian then call16 h v else v)"

definition litEndian32 :: "host \<Rightarrow> u32 \<Rightarrow> u32" where
  "litEndian32 h v = (if \<not> isLitEndian then call32 h v else v)"

definition litEndian64 :: "host \<Rightarrow> u64 \<Rightarrow> u64" where
  "litEndian64 h v = (if \<not> isLitEndian then call64 h v else v)"

definition bigEndian16 :: "host \<Rightarrow> u16 \<Rightarrow> u16" where
  "bigEndian16 h v = (if isLitEndian then call16 h v else v)"

definition bigEndian32 :: "host \<Rightarrow> u32 \<Rightarrow> u32" where
  "bigEndian32 h v = (if isLitEndian then call32 h v else v)"

definition bigEndian64 :: "host \<Rightarrow> u64 \<Rightarrow> u64" where
  "bigEndian64 h v = (if isLitEndian then call64 h v else v)"

lemma isLitEndian_True [simp]: "isLitEndian"
  by (simp add: isLitEndian_def)

lemma litEndian_id [simp]:
  "litEndian16 h v = v" "litEndian32 h w = w" "litEndian64 h x = x"
  by (simp_all add: litEndian16_def litEndian32_def litEndian64_def)

lemma le_bytes_upt:
  "le_bytes (v16 :: u16) = [ucast v16, ucast (drop_bit 8 v16)]"
  "le_bytes (v32 :: u32) = [ucast v32, ucast (drop_bit 8 v32), ucast (drop_bit 16 v32),
     ucast (drop_bit 24 v32)]"
  "le_bytes (v64 :: u64) = [ucast v64, ucast (drop_bit 8 v64), ucast (drop_bit 16 v64),
     ucast (drop_bit 24 v64), ucast (drop_bit 32 v64), ucast (drop_bit 40 v64),
     ucast (drop_bit 48 v64), ucast (drop_bit 56 v64)]"
  by (simp_all add: le_bytes_def upt_conv_Cons)

lemma call_of_le:
  "call16 h v16 = of_le (rev (mem h v16))"
  "call32 h v32 = of_le (rev (mem h v32))"
  "call64 h v64 = of_le (rev (mem h v64))"
  by (cases h; simp add: call16_def call32_def call64_def Let_def le_bytes_upt
      push_bit_or push_bit_push_bit or.assoc or.commute or.left_commute)+

lemma length_swap_loop [simp]: "length (swap_loop k i data) = length data"
  by (induction k i data rule: swap_loop.induct) (simp_all add: Let_def)

lemma nth_swap_loop:
  assumes "2 * (i + k) \<le> length data" and "j < length data"
  shows "swap_loop k i data ! j =
    (if i \<le> j \<and> j < i + k \<or> length data - i - k \<le> j \<and> j < length data - i
     then data ! (length data - 1 - j) else data ! j)"
  using assms
proof (induction k arbitrary: i data)
  case 0
  then show ?case by auto
next
  case (Suc k)
  define n where "n = length data"
  define d where "d = data[i := data ! (n - i - 1), n - i - 1 := data ! i]"
  have len: "length d = n" by (simp add: d_def n_def)
  have nth: "d ! m = (if m = i \<or> m = n - i - 1 then data ! (n - 1 - m) else data ! m)"
    if "m < n" for m
    using that Suc.prems by (auto simp: d_def n_def nth_list_update)
  have "swap_loop (Suc k) i data ! j = swap_loop k (Suc i) d ! j"
    by (simp add: d_def n_def Let_def)
  also have "\<dots> = (if Suc i \<le> j \<and> j < Suc i + k \<or> n - Suc i - k \<le> j \<and> j < n - Suc i
      then d ! (n - 1 - j) else d ! j)"
    using Suc.IH [of "Suc i" d] Suc.prems len by (simp add: n_def)
  also have "\<dots> = (if i \<le> j \<and> j < i + Suc k \<or> n - i - Suc k \<le> j \<and> j < n - i
      then data ! (n - 1 - j) else data ! j)"
  proof -
    consider "j = i" | "j = n - i - 1" | "j \<noteq> i" "j \<noteq> n - i - 1" by blast
    then show ?thesis
    proof cases
      case 3
      then have "n - 1 - j \<noteq> i" "n - 1 - j \<noteq> n - i - 1" using Suc.prems by (auto simp: n_def)
      then show ?thesis using 3 nth [of j] nth [of "n - 1 - j"] Suc.prems by (auto simp: n_def)
    qed (use nth [of j] Suc.prems in \<open>auto simp: n_def\<close>)
  qed
  finally show ?case by (simp add: n_def)
qed

lemma swap_loop_rev: "swap_loop (length data div 2) 0 data = rev data"
proof (rule nth_equalityI)
  fix j assume "j < length (swap_loop (length data div 2) 0 data)"
  then have j: "j < length data" by simp
  have half: "2 * (length data div 2) \<le> length data" by simp
  have mid: "\<not> j < length data div 2 \<Longrightarrow> \<not> length data - length data div 2 \<le> j \<Longrightarrow>
      length data - 1 - j = j"
    using j by linarith
  show "swap_loop (length data div 2) 0 data ! j = rev data ! j"
    using nth_swap_loop [of 0 "length data div 2" data j] half j mid by (auto simp: rev_nth)
qed simp

lemma call_generic_rev: "call_generic h v = of_mem h (rev (mem h v))"
  by (simp add: call_generic_def Let_def swap_loop_rev)

lemma le_bytes_of_le:
  assumes "length bs = LENGTH('a) div 8" and "LENGTH('a) mod 8 = 0"
  shows "le_bytes (of_le bs :: 'a::len word) = bs"
proof (rule nth_equalityI)
  fix i assume "i < length (le_bytes (of_le bs :: 'a word))"
  then have i: "i < length bs" using assms by simp
  have len: "LENGTH('a) = 8 * length bs"
    using mult_div_mod_eq [of 8 "LENGTH('a)"] assms by simp
  have "le_bytes (of_le bs :: 'a word) ! i = ucast (drop_bit (8 * i) (of_le bs :: 'a word))"
    using i assms by (simp add: le_bytes_def)
  also have "\<dots> = bs ! i"
  proof (rule bit_word_eqI)
    fix n assume n: "n < LENGTH(8)"
    then have "8 * i + n < 8 * length bs" using i by simp
    then show "bit (ucast (drop_bit (8 * i) (of_le bs :: 'a word)) :: byte) n = bit (bs ! i) n"
      using n by (simp add: bit_ucast_iff bit_drop_bit_eq bit_of_le len)
  qed
  finally show "le_bytes (of_le bs :: 'a word) ! i = bs ! i" .
qed (use assms in simp)

subsection \<open>Properties\<close>

text \<open>
  C37: on a little-endian machine \<open>fixEndian\<close> reverses the bytes of 16, 32 and 64 bit
  integers, agrees there with the generic template, and undoes itself on every machine.
\<close>

theorem fixEndian_swaps:
  "mem LittleHost (call16 LittleHost v16) = rev (mem LittleHost v16) \<and>
   mem LittleHost (call32 LittleHost v32) = rev (mem LittleHost v32) \<and>
   mem LittleHost (call64 LittleHost v64) = rev (mem LittleHost v64) \<and>
   call16 LittleHost v16 = call_generic LittleHost v16 \<and>
   call32 LittleHost v32 = call_generic LittleHost v32 \<and>
   call64 LittleHost v64 = call_generic LittleHost v64 \<and>
   call16 h (call16 h v16) = v16 \<and> call32 h (call32 h v32) = v32 \<and>
   call64 h (call64 h v64) = v64"
  by (cases h) (simp_all add: call_of_le call_generic_rev le_bytes_of_le of_le_le_bytes)

text \<open>
  The byte order test of the header is a value conversion, so it says \<open>little-endian\<close> on
  every machine; \<open>litEndian\<close> therefore leaves the memory image as the machine has it, and
  produces the little-endian image of a value only on a little-endian machine or for a value
  whose image is a palindrome.
\<close>

theorem litEndian_portable_iff:
  "mem h (litEndian32 h v) = le_bytes v \<longleftrightarrow>
     h = LittleHost \<or> rev (le_bytes v) = le_bytes v"
  by (cases h) simp_all

end
