(* ===== verification/Numerals.thy ===== *)
theory Numerals
  imports Prelude "HOL-Library.Signed_Division"
begin

text \<open>
  \<^verbatim>\<open>include/utils/aton.hpp\<close>, \<^verbatim>\<open>xton.hpp\<close> and \<^verbatim>\<open>ntoa.hpp\<close>: numbers
  from text and to text.  A C string is the list of its characters before the
  terminating zero, so the end of the list is where \<open>*a\<close> is zero.  The parsers work
  in the word they fill, as the templates do; the printers take the value of the
  number and write backwards into an array of \<open>maxDecs + 1\<close> characters: the model
  keeps the write position, and a write below index 0 is \<open>None\<close>.
\<close>

subsection \<open>Parsing\<close>

definition is_digit :: "char \<Rightarrow> bool" where
  "is_digit c \<longleftrightarrow> 48 \<le> (of_char c :: nat) \<and> (of_char c :: nat) \<le> 57"

definition digit_val :: "char \<Rightarrow> nat" where
  "digit_val c = of_char c - 48"

text \<open>The loop \<open>while(*a && (*a>='0' && *a<='9'))\<close> both templates share.\<close>

fun aton_loop :: "string \<Rightarrow> 'w::len word \<Rightarrow> 'w word" where
  "aton_loop [] num = num"
| "aton_loop (c # a) num =
     (if is_digit c then aton_loop a (num * 10 + of_nat (digit_val c)) else num)"

definition atoun :: "string \<Rightarrow> 'w::len word" where
  "atoun a = aton_loop a 0"

definition aton :: "string \<Rightarrow> 'w::len word" where
  "aton a = (case a of
     [] \<Rightarrow> aton_loop [] 0
   | c # a' \<Rightarrow> if c = CHR ''-'' then - aton_loop a' 0 else aton_loop a 0)"

definition x2n :: "char \<Rightarrow> int" where
  "x2n c = (let n = of_char c :: int in
     if 48 \<le> n \<and> n \<le> 57 then n - 48
     else if 97 \<le> n \<and> n \<le> 102 then n - 97 + 10
     else if 65 \<le> n \<and> n \<le> 70 then n - 65 + 10
     else -1)"

fun xtoun_loop :: "string \<Rightarrow> 'w::len word \<Rightarrow> 'w word" where
  "xtoun_loop [] num = num"
| "xtoun_loop (c # x) num =
     (if x2n c \<ge> 0 then xtoun_loop x (num * 16 + of_int (x2n c)) else num)"

definition xtoun :: "string \<Rightarrow> 'w::len word" where
  "xtoun x = xtoun_loop x 0"

subsection \<open>Printing\<close>

text \<open>
  \<open>put pos out c\<close> is \<open>res[--pos] = c\<close>, where \<open>out\<close> holds the characters from
  \<open>res[pos]\<close> to the terminator.  C division truncates towards zero, so the digit
  of a negative number is \<open>- (num % 10)\<close>.
\<close>

fun put :: "nat \<times> string \<Rightarrow> char \<Rightarrow> (nat \<times> string) option" where
  "put (pos, out) c = (if pos = 0 then None else Some (pos - 1, c # out))"

definition chr_digit :: "int \<Rightarrow> char" where
  "chr_digit d = char_of (nat (48 + d))"

function ntoa_neg_loop :: "int \<Rightarrow> nat \<times> string \<Rightarrow> (nat \<times> string) option" where
  "ntoa_neg_loop num st =
     (if num < 0 then
        (case put st (chr_digit (- (num smod 10))) of
           None \<Rightarrow> None
         | Some st' \<Rightarrow> ntoa_neg_loop (num sdiv 10) st')
      else Some st)"
  by pat_completeness auto
termination
  by (relation "measure (\<lambda>(num, st). nat (- num))") (auto simp: signed_divide_int_def)

function ntoa_pos_loop :: "int \<Rightarrow> nat \<times> string \<Rightarrow> (nat \<times> string) option" where
  "ntoa_pos_loop num st =
     (if num > 0 then
        (case put st (chr_digit (num smod 10)) of
           None \<Rightarrow> None
         | Some st' \<Rightarrow> ntoa_pos_loop (num sdiv 10) st')
      else Some st)"
  by pat_completeness auto
termination
  by (relation "measure (\<lambda>(num, st). nat num)") (auto simp: signed_divide_int_def)

declare ntoa_neg_loop.simps [simp del] ntoa_pos_loop.simps [simp del]

definition ntoa :: "nat \<Rightarrow> int \<Rightarrow> string option" where
  "ntoa maxDecs num =
     (if num \<noteq> 0 then
        (if num < 0
         then case ntoa_neg_loop num (maxDecs, []) of
                None \<Rightarrow> None
              | Some st \<Rightarrow> map_option snd (put st (CHR ''-''))
         else map_option snd (ntoa_pos_loop num (maxDecs, [])))
      else Some ''0'')"

definition untoa :: "nat \<Rightarrow> int \<Rightarrow> string option" where
  "untoa maxDecs num =
     (if num \<noteq> 0 then map_option snd (ntoa_pos_loop num (maxDecs, [])) else Some ''0'')"

text \<open>The overloads, by the width and sign of their argument on LP64.\<close>

definition ntoa_llong :: "64 word \<Rightarrow> string option" where
  "ntoa_llong num = ntoa 24 (sint num)"
definition ntoa_ullong :: "64 word \<Rightarrow> string option" where
  "ntoa_ullong num = untoa 25 (uint num)"
definition ntoa_long :: "64 word \<Rightarrow> string option" where
  "ntoa_long num = ntoa 12 (sint num)"
definition ntoa_ulong :: "64 word \<Rightarrow> string option" where
  "ntoa_ulong num = untoa 13 (uint num)"
definition ntoa_int :: "32 word \<Rightarrow> string option" where
  "ntoa_int num = ntoa 12 (sint num)"
definition ntoa_uint :: "32 word \<Rightarrow> string option" where
  "ntoa_uint num = untoa 13 (uint num)"
definition ntoa_short :: "16 word \<Rightarrow> string option" where
  "ntoa_short num = ntoa 6 (sint num)"
definition ntoa_ushort :: "16 word \<Rightarrow> string option" where
  "ntoa_ushort num = untoa 7 (uint num)"
definition ntoa_char :: "8 word \<Rightarrow> string option" where
  "ntoa_char num = ntoa 3 (sint num)"
definition ntoa_uchar :: "8 word \<Rightarrow> string option" where
  "ntoa_uchar num = untoa 4 (uint num)"

subsection \<open>Decimal digits of a number\<close>

text \<open>The abstract printer: the decimal digits, most significant first.\<close>

fun decs :: "nat \<Rightarrow> string" where
  "decs n = (if n = 0 then [] else decs (n div 10) @ [char_of (48 + n mod 10)])"

declare decs.simps [simp del]

lemma decs_0 [simp]: "decs 0 = []"
  by (simp add: decs.simps)

lemma decs_pos: "n > 0 \<Longrightarrow> decs n = decs (n div 10) @ [char_of (48 + n mod 10)]"
  by (subst decs.simps) simp

lemma length_decs_le: "length (decs n) \<le> m \<longleftrightarrow> n < 10 ^ m"
proof (induction n arbitrary: m rule: decs.induct)
  case (1 n)
  show ?case
  proof (cases "n = 0")
    case False
    show ?thesis
    proof (cases m)
      case 0
      then show ?thesis using False by (simp add: decs_pos)
    next
      case (Suc k)
      have "length (decs n) \<le> m \<longleftrightarrow> length (decs (n div 10)) \<le> k"
        using False Suc by (simp add: decs_pos)
      also have "\<dots> \<longleftrightarrow> n div 10 < 10 ^ k" using "1.IH" False by simp
      also have "\<dots> \<longleftrightarrow> n < 10 ^ m" using Suc by (simp add: div_less_iff_less_mult mult.commute)
      finally show ?thesis .
    qed
  qed simp
qed

lemma trunc_pos:
  "n \<ge> 0 \<Longrightarrow> n sdiv 10 = n div 10" "n \<ge> 0 \<Longrightarrow> n smod 10 = n mod (10::int)"
  by (simp_all add: signed_divide_int_def signed_modulo_int_def sgn_if minus_mult_div_eq_mod)

lemma trunc_neg:
  "n < 0 \<Longrightarrow> n sdiv 10 = - ((- n) div 10)" "n < 0 \<Longrightarrow> n smod 10 = - ((- n) mod (10::int))"
  by (simp_all add: signed_divide_int_def signed_modulo_int_def sgn_if minus_mult_div_eq_mod [symmetric])

lemma ntoa_pos_loop_step:
  "n > 0 \<Longrightarrow> ntoa_pos_loop n (pos, out) =
     (if pos = 0 then None
      else ntoa_pos_loop (n div 10) (pos - 1, char_of (48 + nat n mod 10) # out))"
  by (subst ntoa_pos_loop.simps)
     (simp add: trunc_pos chr_digit_def nat_add_distrib nat_mod_distrib)

lemma ntoa_pos_loop_0 [simp]: "ntoa_pos_loop 0 st = Some st"
  by (simp add: ntoa_pos_loop.simps)

lemma ntoa_pos_loop_eq:
  "n \<ge> 0 \<Longrightarrow> ntoa_pos_loop n (pos, out) =
     (if length (decs (nat n)) \<le> pos
      then Some (pos - length (decs (nat n)), decs (nat n) @ out) else None)"
proof (induction "nat n" arbitrary: n pos out rule: less_induct)
  case less
  show ?case
  proof (cases "n = 0")
    case False
    with less.prems have pos: "n > 0" by simp
    then have smaller: "nat (n div 10) < nat n" by auto
    have nd: "nat (n div 10) = nat n div 10" using pos by (simp add: nat_div_distrib)
    have IH: "ntoa_pos_loop (n div 10) (p', o') =
        (if length (decs (nat n div 10)) \<le> p'
         then Some (p' - length (decs (nat n div 10)), decs (nat n div 10) @ o') else None)"
      for p' o' using less.hyps [OF smaller, of p' o'] pos by (simp add: nd)
    from pos have "nat n > 0" by simp
    then show ?thesis using pos by (auto simp: ntoa_pos_loop_step IH decs_pos [of "nat n"])
  qed simp
qed

lemma ntoa_neg_loop_eq: "n \<le> 0 \<Longrightarrow> ntoa_neg_loop n st = ntoa_pos_loop (- n) st"
proof (induction n st rule: ntoa_neg_loop.induct)
  case (1 n st)
  show ?case
  proof (cases "n < 0")
    case True
    show ?thesis
    proof (cases "put st (chr_digit ((- n) mod 10))")
      case None
      then show ?thesis using True
        by (subst ntoa_neg_loop.simps, subst ntoa_pos_loop.simps) (simp add: trunc_pos trunc_neg)
    next
      case (Some st')
      then have "put st (chr_digit (- (n smod 10))) = Some st'" using True by (simp add: trunc_neg)
      from "1.IH" [OF True this] True Some show ?thesis
        by (subst ntoa_neg_loop.simps, subst ntoa_pos_loop.simps)
           (simp add: trunc_pos trunc_neg pos_imp_zdiv_nonneg_iff)
    qed
  next
    case False
    then show ?thesis using "1.prems" by (simp add: ntoa_neg_loop.simps)
  qed
qed

text \<open>What the printers return, and exactly when they would leave the array.\<close>

lemma ntoa_eq:
  "ntoa m num =
     (if num = 0 then Some ''0''
      else if num > 0 then (if nat num < 10 ^ m then Some (decs (nat num)) else None)
      else if m > 0 \<and> nat (- num) < 10 ^ (m - 1) then Some (CHR ''-'' # decs (nat (- num)))
      else None)"
proof -
  have "nat (- num) < 10 ^ (m - 1) \<longleftrightarrow> length (decs (nat (- num))) \<le> m - 1"
    by (simp add: length_decs_le)
  moreover have "nat num < 10 ^ m \<longleftrightarrow> length (decs (nat num)) \<le> m"
    by (simp add: length_decs_le)
  ultimately show ?thesis
    by (auto simp: ntoa_def ntoa_neg_loop_eq ntoa_pos_loop_eq decs_pos)
qed

lemma untoa_eq:
  "num \<ge> 0 \<Longrightarrow> untoa m num =
     (if num = 0 then Some ''0'' else if nat num < 10 ^ m then Some (decs (nat num)) else None)"
  by (simp add: untoa_def ntoa_pos_loop_eq length_decs_le)

subsection \<open>Reading what was printed\<close>

lemma is_digit_char_of [simp]: "(d::nat) < 10 \<Longrightarrow> is_digit (char_of (48 + d))"
  by (simp add: is_digit_def take_bit_eq_mod)

lemma digit_val_char_of [simp]: "(d::nat) < 10 \<Longrightarrow> digit_val (char_of (48 + d)) = d"
  by (simp add: digit_val_def take_bit_eq_mod)

lemma aton_loop_decs:
  "aton_loop (decs n @ rest) num = aton_loop rest (num * 10 ^ length (decs n) + of_nat n)"
proof (induction n arbitrary: rest num rule: decs.induct)
  case (1 n)
  show ?case
  proof (cases "n = 0")
    case False
    have "of_nat n = of_nat (n div 10) * 10 + (of_nat (n mod 10) :: 'a word)"
      by (metis div_mult_mod_eq of_nat_add of_nat_mult of_nat_numeral)
    then show ?thesis
      using False "1.IH" [OF False, of "char_of (48 + n mod 10) # rest" num]
      by (simp add: decs_pos algebra_simps)
  qed simp
qed

lemma decs_not_minus: "decs n = c # cs \<Longrightarrow> c \<noteq> CHR ''-''"
proof (induction n arbitrary: c cs rule: decs.induct)
  case (1 n)
  show ?case
  proof (cases "n = 0")
    case False
    have minus: "char_of (48 + n mod 10) \<noteq> CHR ''-''"
    proof
      assume "char_of (48 + n mod 10) = CHR ''-''"
      then have "(of_char (char_of (48 + n mod 10)) :: nat) = of_char CHR ''-''" by simp
      then show False by (simp add: take_bit_eq_mod)
    qed
    show ?thesis
    proof (cases "decs (n div 10)")
      case Nil
      then show ?thesis using False "1.prems" minus by (auto simp: decs_pos)
    next
      case (Cons d ds)
      then show ?thesis using False "1.prems" "1.IH" by (auto simp: decs_pos)
    qed
  qed (use "1.prems" in simp)
qed

lemma decs_Nil_iff [simp]: "decs n = [] \<longleftrightarrow> n = 0"
  using length_decs_le [of n 0] by auto

lemma aton_loop_decs_Nil [simp]: "aton_loop (decs n) num = num * 10 ^ length (decs n) + of_nat n"
  using aton_loop_decs [of n "[]" num] by simp

lemma aton_decs: "n > 0 \<Longrightarrow> aton (decs n) = of_nat n"
  using decs_not_minus [of n] aton_loop_decs_Nil [of n 0]
  by (cases "decs n") (auto simp: aton_def simp del: aton_loop.simps)

lemma aton_minus_decs: "aton (CHR ''-'' # decs n) = - of_nat n"
  by (simp add: aton_def)

lemma aton_zero: "aton ''0'' = 0" "atoun ''0'' = 0"
  by (simp_all add: aton_def atoun_def is_digit_def digit_val_def)

lemma aton_ntoa: "ntoa m num = Some s \<Longrightarrow> aton s = of_int num"
  by (auto simp: ntoa_eq aton_decs aton_minus_decs aton_zero split: if_splits)

lemma atoun_untoa: "num \<ge> 0 \<Longrightarrow> untoa m num = Some s \<Longrightarrow> atoun s = of_int num"
  by (auto simp: untoa_eq aton_zero split: if_splits) (simp add: atoun_def)

lemma ntoa_fits:
  "- (10 ^ (m - 1)) < num \<Longrightarrow> num < 10 ^ m \<Longrightarrow> m > 0 \<Longrightarrow>
     \<exists>s. ntoa m num = Some s \<and> aton s = (of_int num :: 'w::len word)"
proof -
  assume a: "- (10 ^ (m - 1)) < num" "num < 10 ^ m" "m > 0"
  have "num > 0 \<Longrightarrow> nat num < 10 ^ m" using a by (simp add: nat_less_iff)
  moreover have "num < 0 \<Longrightarrow> nat (- num) < 10 ^ (m - 1)" using a by (simp add: nat_less_iff)
  ultimately obtain s where "ntoa m num = Some s" using a by (fastforce simp: ntoa_eq)
  then show ?thesis using aton_ntoa by blast
qed

lemma untoa_fits:
  "0 \<le> num \<Longrightarrow> num < 10 ^ m \<Longrightarrow>
     \<exists>s. untoa m num = Some s \<and> atoun s = (of_int num :: 'w::len word)"
proof -
  assume a: "0 \<le> num" "num < 10 ^ m"
  then have "nat num < 10 ^ m" by (simp add: nat_less_iff)
  then obtain s where "untoa m num = Some s" using a by (fastforce simp: untoa_eq)
  then show ?thesis using a atoun_untoa by blast
qed

lemma sint_fits:
  "- (10 ^ (m - 1)) < - (2 ^ (LENGTH('w) - Suc 0) :: int) \<Longrightarrow> 2 ^ (LENGTH('w) - Suc 0) \<le> (10 ^ m :: int) \<Longrightarrow>
     m > 0 \<Longrightarrow> \<exists>s. ntoa m (sint (w :: 'w::len word)) = Some s \<and> aton s = w"
proof -
  assume a: "- (10 ^ (m - 1)) < - (2 ^ (LENGTH('w) - Suc 0) :: int)"
    "2 ^ (LENGTH('w) - Suc 0) \<le> (10 ^ m :: int)" "m > 0"
  have "- (10 ^ (m - 1)) < sint w" using a(1) sint_greater_eq [of w] by linarith
  moreover have "sint w < 10 ^ m" using a(2) sint_less [of w] by linarith
  ultimately have "\<exists>s. ntoa m (sint w) = Some s \<and> aton s = (of_int (sint w) :: 'w word)"
    using a(3) by (rule ntoa_fits)
  then show ?thesis by simp
qed

lemma uint_fits:
  "2 ^ LENGTH('w) \<le> (10 ^ m :: int) \<Longrightarrow>
     \<exists>s. untoa m (uint (w :: 'w::len word)) = Some s \<and> atoun s = w"
proof -
  assume a: "2 ^ LENGTH('w) \<le> (10 ^ m :: int)"
  have "uint w < 10 ^ m" using a unsigned_less [of w, where 'a = int] by linarith
  then have "\<exists>s. untoa m (uint w) = Some s \<and> atoun s = (of_int (uint w) :: 'w word)"
    by (intro untoa_fits) simp_all
  then show ?thesis by simp
qed

subsection \<open>Properties\<close>

text \<open>
  C36: the decimal printers for \<open>int\<close>, \<open>unsigned int\<close>, \<open>short\<close>, \<open>unsigned short\<close>,
  \<open>unsigned char\<close> and the two \<open>long long\<close> types stay inside their arrays on every
  value, and the parser of the same type reads back the number printed.
\<close>

theorem ntoa_aton_roundtrip:
  "(\<exists>s. ntoa_int i = Some s \<and> aton s = i) \<and>
   (\<exists>s. ntoa_uint i = Some s \<and> atoun s = i) \<and>
   (\<exists>s. ntoa_short h = Some s \<and> aton s = h) \<and>
   (\<exists>s. ntoa_ushort h = Some s \<and> atoun s = h) \<and>
   (\<exists>s. ntoa_uchar c = Some s \<and> atoun s = c) \<and>
   (\<exists>s. ntoa_llong l = Some s \<and> aton s = l) \<and>
   (\<exists>s. ntoa_ullong l = Some s \<and> atoun s = l)"
  unfolding ntoa_int_def ntoa_uint_def ntoa_short_def ntoa_ushort_def ntoa_uchar_def
    ntoa_llong_def ntoa_ullong_def
  by (intro conjI sint_fits uint_fits) simp_all

text \<open>
  The printers for \<open>char\<close>, \<open>long\<close> and \<open>unsigned long\<close> reserve too few
  characters: they write before the start of their array on exactly the values listed.
\<close>

theorem ntoa_underflow_iff:
  "(ntoa_char c = None \<longleftrightarrow> sint c \<le> -100) \<and>
   (ntoa_long l = None \<longleftrightarrow> sint l \<ge> 10 ^ 12 \<or> sint l \<le> - (10 ^ 11)) \<and>
   (ntoa_ulong l = None \<longleftrightarrow> uint l \<ge> 10 ^ 13)"
proof (intro conjI)
  have "sint c < 128" using sint_less [of c] by simp
  then show "ntoa_char c = None \<longleftrightarrow> sint c \<le> -100"
    by (auto simp: ntoa_char_def ntoa_eq nat_less_iff)
  show "ntoa_long l = None \<longleftrightarrow> sint l \<ge> 10 ^ 12 \<or> sint l \<le> - (10 ^ 11)"
    by (auto simp: ntoa_long_def ntoa_eq nat_less_iff)
  show "ntoa_ulong l = None \<longleftrightarrow> uint l \<ge> 10 ^ 13"
    by (auto simp: ntoa_ulong_def untoa_eq nat_less_iff simp del: nat_uint_eq)
qed

end
