(* ===== verification/VariantTypes.thy ===== *)
theory VariantTypes
  imports Prelude
begin

text \<open>
  \<^verbatim>\<open>include/utils/variant.hpp\<close> and \<^verbatim>\<open>src/utils/variant.cpp\<close>: the
  types of values a \<open>utils::Variant\<close> can hold, and the tests on them.

  A variant is a typed NULL or a typed value.  The values are grouped as the
  templates of the code group them: \<open>Scalar\<close> holds the 28 types without inner
  variants, \<open>Seq\<close> the five sequences, \<open>SMap\<close> the maps keyed by strings, \<open>VMap\<close> the
  maps keyed by variants, and \<open>Ptr\<close> a \<open>shared_ptr\<close> to a variant, as an address of a
  store or null.  Maps and sets are lists in iteration order.  A floating point value
  is its IEEE bit pattern, a bitset a word of its width.

  The date and time types come from Boost, which is not part of the repository: a
  value of them is an opaque handle, and what the code calls on them is a field of
  the record \<open>platform\<close>, an argument of the definitions that need it.
\<close>

subsection \<open>Type numbers\<close>

datatype etype =
    etUnknown | etVoid | etString | etFloat | etDouble
  | etInt8 | etInt16 | etInt32 | etInt64 | etUInt8
  | etUInt16 | etUInt32 | etUInt64 | etVectorChar | etDate
  | etDatetime | etVectorVariant | etMapStringVariant | etBool | etTm
  | etBitset8 | etBitset16 | etBitset32 | etBitset64 | etBitset128
  | etBitset256 | etBitset512 | etDateDuration | etTimeDuration | etDateTimeDuration
  | etMapVariantVariant | etMultimapStringVariant | etMultimapVariantVariant | etSetVariant | etMultisetVariant
  | etDequeVariant | etListVariant | etChar | etUuid | etVariantPtr

fun et_num :: "etype \<Rightarrow> int" where
  "et_num etUnknown = 0"
| "et_num etVoid = 1"
| "et_num etString = 2"
| "et_num etFloat = 3"
| "et_num etDouble = 4"
| "et_num etInt8 = 5"
| "et_num etInt16 = 6"
| "et_num etInt32 = 7"
| "et_num etInt64 = 8"
| "et_num etUInt8 = 9"
| "et_num etUInt16 = 10"
| "et_num etUInt32 = 11"
| "et_num etUInt64 = 12"
| "et_num etVectorChar = 13"
| "et_num etDate = 14"
| "et_num etDatetime = 15"
| "et_num etVectorVariant = 16"
| "et_num etMapStringVariant = 17"
| "et_num etBool = 18"
| "et_num etTm = 19"
| "et_num etBitset8 = 20"
| "et_num etBitset16 = 21"
| "et_num etBitset32 = 22"
| "et_num etBitset64 = 23"
| "et_num etBitset128 = 24"
| "et_num etBitset256 = 25"
| "et_num etBitset512 = 26"
| "et_num etDateDuration = 27"
| "et_num etTimeDuration = 28"
| "et_num etDateTimeDuration = 29"
| "et_num etMapVariantVariant = 30"
| "et_num etMultimapStringVariant = 31"
| "et_num etMultimapVariantVariant = 32"
| "et_num etSetVariant = 33"
| "et_num etMultisetVariant = 34"
| "et_num etDequeVariant = 35"
| "et_num etListVariant = 36"
| "et_num etChar = 37"
| "et_num etUuid = 38"
| "et_num etVariantPtr = 39"

definition all_etypes :: "etype list" where
  "all_etypes = [etVoid, etString, etFloat, etDouble, etInt8,
     etInt16, etInt32, etInt64, etUInt8, etUInt16,
     etUInt32, etUInt64, etVectorChar, etDate, etDatetime,
     etVectorVariant, etMapStringVariant, etBool, etTm, etBitset8,
     etBitset16, etBitset32, etBitset64, etBitset128, etBitset256,
     etBitset512, etDateDuration, etTimeDuration, etDateTimeDuration, etMapVariantVariant,
     etMultimapStringVariant, etMultimapVariantVariant, etSetVariant, etMultisetVariant, etDequeVariant,
     etListVariant, etChar, etUuid, etVariantPtr]"

lemma all_etypes_exhaust: "e \<noteq> etUnknown \<Longrightarrow> e \<in> set all_etypes"
  by (cases e) (simp_all add: all_etypes_def)

text \<open>The cast \<open>(EType)n\<close> on the numbers of the enumeration.\<close>

definition et_of :: "int \<Rightarrow> etype option" where
  "et_of n = find (\<lambda>e. et_num e = n) all_etypes"

lemma et_num_pos: "e \<noteq> etUnknown \<Longrightarrow> 1 \<le> et_num e"
  by (cases e) simp_all

lemma et_num_le: "et_num e \<le> 39"
  by (cases e) simp_all

lemma et_num_eq_0 [simp]: "et_num e = 0 \<longleftrightarrow> e = etUnknown"
  by (cases e) simp_all

lemma distinct_et_num: "distinct (map et_num all_etypes)"
  by (simp add: all_etypes_def)

lemma et_of_et_num: "e \<noteq> etUnknown \<Longrightarrow> et_of (et_num e) = Some e"
proof -
  assume e: "e \<noteq> etUnknown"
  then obtain i where i: "i < length all_etypes" "all_etypes ! i = e"
    using all_etypes_exhaust by (auto simp: in_set_conv_nth)
  have "find (\<lambda>x. et_num x = et_num e) all_etypes = Some e"
    unfolding find_Some_iff
  proof (intro exI conjI allI impI)
    show "i < length all_etypes" by (rule i)
    show "et_num (all_etypes ! i) = et_num e" using i by simp
    show "e = all_etypes ! i" using i by simp
    fix j assume "j < i"
    then show "et_num (all_etypes ! j) \<noteq> et_num e"
      using i distinct_et_num nth_eq_iff_index_eq [of "map et_num all_etypes" i j] by auto
  qed
  then show ?thesis by (simp add: et_of_def)
qed

lemma et_num_inj [simp]: "et_num e = et_num f \<longleftrightarrow> e = f"
  by (cases "e = etUnknown"; cases "f = etUnknown")
     (auto dest: arg_cong [where f = et_of] simp: et_of_et_num)

subsection \<open>Values\<close>

record tm =
  tm_sec :: u32
  tm_min :: u32
  tm_hour :: u32
  tm_mday :: u32
  tm_mon :: u32
  tm_year :: u32
  tm_wday :: u32
  tm_yday :: u32
  tm_isdst :: u32

text \<open>Handles of \<open>gregorian::date\<close>, \<open>ptime\<close>, \<open>date_duration\<close> and \<open>time_duration\<close>.\<close>

type_synonym date = int
type_synonym ptime = int
type_synonym dduration = int
type_synonym tduration = int

datatype scalar =
    String (as_String: string)
  | Float (as_Float: u32)
  | Double (as_Double: u64)
  | Int8 (as_Int8: byte)
  | Int16 (as_Int16: u16)
  | Int32 (as_Int32: u32)
  | Int64 (as_Int64: u64)
  | UInt8 (as_UInt8: byte)
  | UInt16 (as_UInt16: u16)
  | UInt32 (as_UInt32: u32)
  | UInt64 (as_UInt64: u64)
  | VectorChar (as_VectorChar: string)
  | Date (as_Date: date)
  | Datetime (as_Datetime: ptime)
  | Bool (as_Bool: bool)
  | Tm (as_Tm: tm)
  | Bitset8 (as_Bitset8: byte)
  | Bitset16 (as_Bitset16: u16)
  | Bitset32 (as_Bitset32: u32)
  | Bitset64 (as_Bitset64: u64)
  | Bitset128 (as_Bitset128: "128 word")
  | Bitset256 (as_Bitset256: "256 word")
  | Bitset512 (as_Bitset512: "512 word")
  | DateDuration (as_DateDuration: dduration)
  | TimeDuration (as_TimeDuration: tduration)
  | DateTimeDuration (as_dd: dduration) (as_td: tduration)
  | Char (as_Char: char)
  | Uuid (as_Uuid: "byte list")


datatype seqkind = VectorK | SetK | MultisetK | DequeK | ListK
datatype mapkind = MapK | MultimapK

datatype variant = VNull etype | VVal payload
and payload =
    Scalar scalar
  | Seq seqkind "variant list"
  | SMap mapkind "(string \<times> variant) list"
  | VMap mapkind "(variant \<times> variant) list"
  | Ptr "nat option"

text \<open>
  What the code takes from outside: Boost's dates and durations, \<open>mktime\<close>, the CRC of
  \<open>boost::crc_16_type\<close>, and the values an object has that is created without being
  initialised (\<open>new Tm\<close>, \<open>new Uuid\<close>), and \<open>alloc_max\<close>, the number of elements from which
  on a container refuses to grow by an exception.  \<open>date_make\<close> is \<open>None\<close> where the constructor throws,
  and \<open>date_ymd\<close> where \<open>year()\<close> does, as for \<open>not_a_date_time\<close>.  The \<open>_nad\<close> tests say which values are
  \<open>not_a_date_time\<close>: those compare as false with everything.
\<close>

record platform =
  date_ymd :: "date \<Rightarrow> (nat \<times> nat \<times> nat) option"
  date_make :: "nat \<Rightarrow> nat \<Rightarrow> nat \<Rightarrow> date option"
  date_less :: "date \<Rightarrow> date \<Rightarrow> bool"
  date_nad :: "date \<Rightarrow> bool"
  date_default :: date
  ptime_date :: "ptime \<Rightarrow> date"
  ptime_tod :: "ptime \<Rightarrow> tduration"
  ptime_make :: "date \<Rightarrow> tduration \<Rightarrow> ptime"
  ptime_less :: "ptime \<Rightarrow> ptime \<Rightarrow> bool"
  ptime_nad :: "ptime \<Rightarrow> bool"
  ptime_default :: ptime
  dd_days :: "dduration \<Rightarrow> int"
  dd_make :: "int \<Rightarrow> dduration"
  dd_less :: "dduration \<Rightarrow> dduration \<Rightarrow> bool"
  dd_nad :: "dduration \<Rightarrow> bool"
  dd_default :: dduration
  td_usecs :: "tduration \<Rightarrow> int"
  td_make :: "int \<Rightarrow> tduration"
  td_less :: "tduration \<Rightarrow> tduration \<Rightarrow> bool"
  td_nad :: "tduration \<Rightarrow> bool"
  td_default :: tduration
  mktime :: "tm \<Rightarrow> int"
  crc16 :: "byte list \<Rightarrow> u16"
  alloc_max :: nat
  tm_garbage :: tm
  uuid_garbage :: "byte list"

text \<open>\<open>Type2Enum\<close>: the number of the type of a value.\<close>

fun scalar_type :: "scalar \<Rightarrow> etype" where
  "scalar_type (String _) = etString"
| "scalar_type (Float _) = etFloat"
| "scalar_type (Double _) = etDouble"
| "scalar_type (Int8 _) = etInt8"
| "scalar_type (Int16 _) = etInt16"
| "scalar_type (Int32 _) = etInt32"
| "scalar_type (Int64 _) = etInt64"
| "scalar_type (UInt8 _) = etUInt8"
| "scalar_type (UInt16 _) = etUInt16"
| "scalar_type (UInt32 _) = etUInt32"
| "scalar_type (UInt64 _) = etUInt64"
| "scalar_type (VectorChar _) = etVectorChar"
| "scalar_type (Date _) = etDate"
| "scalar_type (Datetime _) = etDatetime"
| "scalar_type (Bool _) = etBool"
| "scalar_type (Tm _) = etTm"
| "scalar_type (Bitset8 _) = etBitset8"
| "scalar_type (Bitset16 _) = etBitset16"
| "scalar_type (Bitset32 _) = etBitset32"
| "scalar_type (Bitset64 _) = etBitset64"
| "scalar_type (Bitset128 _) = etBitset128"
| "scalar_type (Bitset256 _) = etBitset256"
| "scalar_type (Bitset512 _) = etBitset512"
| "scalar_type (DateDuration _) = etDateDuration"
| "scalar_type (TimeDuration _) = etTimeDuration"
| "scalar_type (DateTimeDuration _ _) = etDateTimeDuration"
| "scalar_type (Char _) = etChar"
| "scalar_type (Uuid _) = etUuid"

fun seq_type :: "seqkind \<Rightarrow> etype" where
  "seq_type VectorK = etVectorVariant"
| "seq_type SetK = etSetVariant"
| "seq_type MultisetK = etMultisetVariant"
| "seq_type DequeK = etDequeVariant"
| "seq_type ListK = etListVariant"

fun smap_type :: "mapkind \<Rightarrow> etype" where
  "smap_type MapK = etMapStringVariant"
| "smap_type MultimapK = etMultimapStringVariant"

fun vmap_type :: "mapkind \<Rightarrow> etype" where
  "vmap_type MapK = etMapVariantVariant"
| "vmap_type MultimapK = etMultimapVariantVariant"

fun payload_type :: "payload \<Rightarrow> etype" where
  "payload_type (Scalar s) = scalar_type s"
| "payload_type (Seq k xs) = seq_type k"
| "payload_type (SMap k m) = smap_type k"
| "payload_type (VMap k m) = vmap_type k"
| "payload_type (Ptr p) = etVariantPtr"

fun type_of :: "variant \<Rightarrow> etype" where
  "type_of (VNull e) = e"
| "type_of (VVal p) = payload_type p"

fun isNull :: "variant \<Rightarrow> bool" where
  "isNull (VNull e) = True"
| "isNull (VVal p) = False"

lemma scalar_type_neq [simp]:
  "scalar_type s \<noteq> etUnknown"
  "scalar_type s \<noteq> etVoid"
  "scalar_type s \<noteq> etVectorVariant"
  "scalar_type s \<noteq> etMapStringVariant"
  "scalar_type s \<noteq> etMapVariantVariant"
  "scalar_type s \<noteq> etMultimapStringVariant"
  "scalar_type s \<noteq> etMultimapVariantVariant"
  "scalar_type s \<noteq> etSetVariant"
  "scalar_type s \<noteq> etMultisetVariant"
  "scalar_type s \<noteq> etDequeVariant"
  "scalar_type s \<noteq> etListVariant"
  "scalar_type s \<noteq> etVariantPtr"
  by (cases s; simp)+

lemma payload_type_neq [simp]: "payload_type p \<noteq> etVoid" "payload_type p \<noteq> etUnknown"
proof -
  have "payload_type p \<noteq> etVoid \<and> payload_type p \<noteq> etUnknown"
  proof (cases p)
    case (Seq k xs)
    then show ?thesis by (cases k) simp_all
  next
    case (SMap k m)
    then show ?thesis by (cases k) simp_all
  next
    case (VMap k m)
    then show ?thesis by (cases k) simp_all
  qed simp_all
  then show "payload_type p \<noteq> etVoid" "payload_type p \<noteq> etUnknown" by simp_all
qed

lemmas payload_type_neq_sym [simp] = payload_type_neq [symmetric]

subsection \<open>Classification of types\<close>

definition isMap :: "variant \<Rightarrow> bool" where
  "isMap v = (case type_of v of
     etMapStringVariant \<Rightarrow> True | etMapVariantVariant \<Rightarrow> True
   | etMultimapStringVariant \<Rightarrow> True | etMultimapVariantVariant \<Rightarrow> True | _ \<Rightarrow> False)"

definition isArray :: "variant \<Rightarrow> bool" where
  "isArray v = (case type_of v of etVectorVariant \<Rightarrow> True | etDequeVariant \<Rightarrow> True | _ \<Rightarrow> False)"

definition isScalar :: "variant \<Rightarrow> bool" where
  "isScalar v = (case type_of v of
     etString \<Rightarrow> True | etFloat \<Rightarrow> True | etDouble \<Rightarrow> True | etInt8 \<Rightarrow> True
   | etInt16 \<Rightarrow> True | etInt32 \<Rightarrow> True | etInt64 \<Rightarrow> True | etUInt8 \<Rightarrow> True
   | etUInt16 \<Rightarrow> True | etUInt32 \<Rightarrow> True | etUInt64 \<Rightarrow> True | etVectorChar \<Rightarrow> True
   | etDate \<Rightarrow> True | etDatetime \<Rightarrow> True | etBool \<Rightarrow> True | etTm \<Rightarrow> True
   | etBitset8 \<Rightarrow> True | etBitset16 \<Rightarrow> True | etBitset32 \<Rightarrow> True | etBitset64 \<Rightarrow> True
   | etBitset128 \<Rightarrow> True | etBitset256 \<Rightarrow> True | etBitset512 \<Rightarrow> True | etDateDuration \<Rightarrow> True
   | etTimeDuration \<Rightarrow> True | etDateTimeDuration \<Rightarrow> True | etChar \<Rightarrow> True | etUuid \<Rightarrow> True
   | _ \<Rightarrow> False)"

subsection \<open>A platform for concrete runs\<close>

text \<open>
  The parameter instantiated: dates are numbers \<open>yyyymmdd\<close>, a time point is a date and a
  number of microseconds, one number of each type is \<open>not_a_date_time\<close>, which a date and a time point
  are by default, and the checksum is the sum of the bytes.
\<close>

definition sample_platform :: platform where
  "sample_platform = \<lparr>
     date_ymd = (\<lambda>d. if d < 0 then None else Some (nat d div 10000, nat d div 100 mod 100, nat d mod 100)),
     date_make = (\<lambda>y m d. if 0 < d \<and> d < 32 \<and> 0 < m \<and> m < 13
                            then Some (int (y * 10000 + m * 100 + d)) else None),
     date_less = (\<lambda>x y. x \<noteq> -1 \<and> y \<noteq> -1 \<and> x < y), date_nad = (\<lambda>x. x = -1), date_default = -1,
     ptime_date = (\<lambda>p. p div 86400000000), ptime_tod = (\<lambda>p. p mod 86400000000),
     ptime_make = (\<lambda>d t. d * 86400000000 + t),
     ptime_less = (\<lambda>x y. x \<noteq> -1 \<and> y \<noteq> -1 \<and> x < y), ptime_nad = (\<lambda>x. x = -1), ptime_default = -1,
     dd_days = id, dd_make = id, dd_less = (\<lambda>x y. x \<noteq> - (2 ^ 31) \<and> y \<noteq> - (2 ^ 31) \<and> x < y),
     dd_nad = (\<lambda>x. x = - (2 ^ 31)), dd_default = 0,
     td_usecs = id, td_make = id, td_less = (\<lambda>x y. x \<noteq> - (2 ^ 63) \<and> y \<noteq> - (2 ^ 63) \<and> x < y),
     td_nad = (\<lambda>x. x = - (2 ^ 63)), td_default = 0,
     mktime = (\<lambda>t. uint (tm_sec t) + 60 * uint (tm_min t)),
     crc16 = (\<lambda>bs. sum_list (map ucast bs)),
     alloc_max = 2 ^ 20,
     tm_garbage = \<lparr>tm_sec = 0, tm_min = 0, tm_hour = 0, tm_mday = 0, tm_mon = 0, tm_year = 0,
                    tm_wday = 0, tm_yday = 0, tm_isdst = 0\<rparr>,
     uuid_garbage = replicate 16 0\<rparr>"

end
