(* ===== verification/VariantState.thy ===== *)
theory VariantState
  imports VariantTypes
begin

text \<open>
  \<^verbatim>\<open>src/utils/variantImpl.hpp\<close>: the life cycle of the value inside a variant.

  A cell is the memory of one \<open>Variant\<close>: the 16-bit field \<open>_et\<close>, whose absolute
  value is the type and whose sign says whether there is a value, and the object
  that lives in \<open>_data\<close>, if one has been constructed and not destroyed.  Every
  operation returns an error where the code throws or where its behaviour is
  undefined: an object constructed over a living one, an object used or destroyed
  that is not there.  The refinement says that from a well-formed cell no operation
  does any of this, and that what a caller sees is a function on variants.
\<close>

subsection \<open>Cells\<close>

record cell =
  et :: int
  obj :: "payload option"

datatype verror = BadEt | BadCast | Leak | DeadObject | NullPointer

type_synonym 'a vresult = "verror + 'a"

definition cell_ok :: "cell \<Rightarrow> bool" where
  "cell_ok c \<longleftrightarrow> et c \<noteq> 0 \<and> \<bar>et c\<bar> \<le> 39 \<and>
     (case obj c of None \<Rightarrow> et c < 0 | Some p \<Rightarrow> et c = et_num (payload_type p))"

definition cell_isNull :: "cell \<Rightarrow> bool" where
  "cell_isNull c \<longleftrightarrow> et c < 0"

text \<open>\<open>type()\<close> casts the number; \<open>None\<close> is a number outside the enumeration.\<close>

definition cell_type :: "cell \<Rightarrow> etype option" where
  "cell_type c = et_of (if et c < 0 then - et c else et c)"

definition cell_is :: "etype \<Rightarrow> cell \<Rightarrow> bool" where
  "cell_is e c \<longleftrightarrow> cell_type c = Some e"

subsection \<open>Construction and destruction\<close>

text \<open>\<open>T()\<close> for each type; \<open>new Tm\<close> and \<open>new Uuid\<close> leave the object uninitialised.\<close>

fun default_payload :: "platform \<Rightarrow> etype \<Rightarrow> payload option" where
  "default_payload b etUnknown = None"
| "default_payload b etVoid = None"
| "default_payload b etString = Some (Scalar (String []))"
| "default_payload b etFloat = Some (Scalar (Float 0))"
| "default_payload b etDouble = Some (Scalar (Double 0))"
| "default_payload b etInt8 = Some (Scalar (Int8 0))"
| "default_payload b etInt16 = Some (Scalar (Int16 0))"
| "default_payload b etInt32 = Some (Scalar (Int32 0))"
| "default_payload b etInt64 = Some (Scalar (Int64 0))"
| "default_payload b etUInt8 = Some (Scalar (UInt8 0))"
| "default_payload b etUInt16 = Some (Scalar (UInt16 0))"
| "default_payload b etUInt32 = Some (Scalar (UInt32 0))"
| "default_payload b etUInt64 = Some (Scalar (UInt64 0))"
| "default_payload b etVectorChar = Some (Scalar (VectorChar []))"
| "default_payload b etDate = Some (Scalar (Date (date_default b)))"
| "default_payload b etDatetime = Some (Scalar (Datetime (ptime_default b)))"
| "default_payload b etVectorVariant = Some (Seq VectorK [])"
| "default_payload b etMapStringVariant = Some (SMap MapK [])"
| "default_payload b etBool = Some (Scalar (Bool False))"
| "default_payload b etTm = Some (Scalar (Tm (tm_garbage b)))"
| "default_payload b etBitset8 = Some (Scalar (Bitset8 0))"
| "default_payload b etBitset16 = Some (Scalar (Bitset16 0))"
| "default_payload b etBitset32 = Some (Scalar (Bitset32 0))"
| "default_payload b etBitset64 = Some (Scalar (Bitset64 0))"
| "default_payload b etBitset128 = Some (Scalar (Bitset128 0))"
| "default_payload b etBitset256 = Some (Scalar (Bitset256 0))"
| "default_payload b etBitset512 = Some (Scalar (Bitset512 0))"
| "default_payload b etDateDuration = Some (Scalar (DateDuration (dd_default b)))"
| "default_payload b etTimeDuration = Some (Scalar (TimeDuration (td_default b)))"
| "default_payload b etDateTimeDuration =
     Some (Scalar (DateTimeDuration (dd_default b) (td_default b)))"
| "default_payload b etMapVariantVariant = Some (VMap MapK [])"
| "default_payload b etMultimapStringVariant = Some (SMap MultimapK [])"
| "default_payload b etMultimapVariantVariant = Some (VMap MultimapK [])"
| "default_payload b etSetVariant = Some (Seq SetK [])"
| "default_payload b etMultisetVariant = Some (Seq MultisetK [])"
| "default_payload b etDequeVariant = Some (Seq DequeK [])"
| "default_payload b etListVariant = Some (Seq ListK [])"
| "default_payload b etChar = Some (Scalar (Char (char_of (0::nat))))"
| "default_payload b etUuid = Some (Scalar (Uuid (uuid_garbage b)))"
| "default_payload b etVariantPtr = Some (Ptr None)"

definition construct_void :: cell where
  "construct_void = \<lparr>et = - et_num etVoid, obj = None\<rparr>"

text \<open>\<open>construct(const T &v)\<close>: set the type, allocate, build the object in place.\<close>

definition construct_value :: "payload \<Rightarrow> cell \<Rightarrow> cell vresult" where
  "construct_value p c = (case obj c of
     Some _ \<Rightarrow> Inl Leak
   | None \<Rightarrow> Inr \<lparr>et = et_num (payload_type p), obj = Some p\<rparr>)"

definition construct_default :: "platform \<Rightarrow> etype \<Rightarrow> cell \<Rightarrow> cell vresult" where
  "construct_default b e c = (case default_payload b e of
     None \<Rightarrow> Inl BadEt | Some p \<Rightarrow> construct_value p c)"

definition construct_cstr :: "string option \<Rightarrow> cell \<Rightarrow> cell vresult" where
  "construct_cstr v c = (case v of
     Some s \<Rightarrow> construct_value (Scalar (String s)) c
   | None \<Rightarrow> Inr (c\<lparr>et := - et_num etString\<rparr>))"

definition construct_copy :: "cell \<Rightarrow> cell \<Rightarrow> cell vresult" where
  "construct_copy v c =
     (if cell_isNull v then
        (case cell_type v of None \<Rightarrow> Inl BadEt | Some e \<Rightarrow> Inr (c\<lparr>et := - et_num e\<rparr>))
      else (case cell_type v of
          None \<Rightarrow> Inl BadEt
        | Some e \<Rightarrow>
            if e = etVoid then Inr (c\<lparr>et := et_num etVoid\<rparr>)
            else (case obj v of None \<Rightarrow> Inl DeadObject | Some p \<Rightarrow> construct_value p c)))"

definition destruct :: "cell \<Rightarrow> cell vresult" where
  "destruct c = (case cell_type c of
     None \<Rightarrow> Inl BadEt
   | Some e \<Rightarrow>
       if e = etVoid then Inr c
       else if cell_isNull c then Inr c
       else (case obj c of
           None \<Rightarrow> Inl DeadObject
         | Some p \<Rightarrow> Inr \<lparr>et = - et_num e, obj = None\<rparr>))"

subsection \<open>Changing type and NULL state\<close>

definition setNull :: "platform \<Rightarrow> bool \<Rightarrow> cell \<Rightarrow> cell vresult" where
  "setNull b n c =
     (if n then (if \<not> cell_isNull c then destruct c else Inr c)
      else if cell_isNull c then
        (case cell_type c of
           None \<Rightarrow> Inl BadEt
         | Some e \<Rightarrow> if e = etVoid then Inr c else construct_default b e c)
      else Inr c)"

definition setType :: "etype \<Rightarrow> cell \<Rightarrow> cell vresult" where
  "setType e c =
     (if cell_type c = Some e then Inr c
      else (case destruct c of Inl x \<Rightarrow> Inl x | Inr c' \<Rightarrow> Inr (c'\<lparr>et := - et_num e\<rparr>)))"

text \<open>\<open>setNull<T>(n)\<close> and \<open>as<T>(true)\<close> of \<^verbatim>\<open>variant.cpp\<close>.\<close>

definition setNull_typed :: "platform \<Rightarrow> etype \<Rightarrow> bool \<Rightarrow> cell \<Rightarrow> cell vresult" where
  "setNull_typed b e n c =
     (case setType e c of Inl x \<Rightarrow> Inl x | Inr c' \<Rightarrow> setNull b n c')"

definition as_force :: "platform \<Rightarrow> etype \<Rightarrow> cell \<Rightarrow> cell vresult" where
  "as_force b e c = (case setType e c of Inl x \<Rightarrow> Inl x | Inr c' \<Rightarrow> setNull b False c')"

definition as_checked :: "etype \<Rightarrow> cell \<Rightarrow> payload vresult" where
  "as_checked e c =
     (if cell_type c \<noteq> Some e \<or> cell_isNull c then Inl BadCast
      else (case obj c of None \<Rightarrow> Inl DeadObject | Some p \<Rightarrow> Inr p))"

subsection \<open>Assignment\<close>

definition store :: "payload \<Rightarrow> cell \<Rightarrow> cell vresult" where
  "store p c = (case obj c of None \<Rightarrow> Inl DeadObject | Some _ \<Rightarrow> Inr (c\<lparr>obj := Some p\<rparr>))"

definition assign_value :: "platform \<Rightarrow> payload \<Rightarrow> cell \<Rightarrow> cell vresult" where
  "assign_value b p c =
     (if cell_is (payload_type p) c then
        (case setNull b False c of Inl x \<Rightarrow> Inl x | Inr c' \<Rightarrow> store p c')
      else (case destruct c of Inl x \<Rightarrow> Inl x | Inr c' \<Rightarrow> construct_value p c'))"

definition assign_cstr :: "platform \<Rightarrow> string option \<Rightarrow> cell \<Rightarrow> cell vresult" where
  "assign_cstr b v c =
     (if cell_is etString c then
        (case setNull b False c of
           Inl x \<Rightarrow> Inl x
         | Inr c' \<Rightarrow> (case v of None \<Rightarrow> Inl NullPointer | Some s \<Rightarrow> store (Scalar (String s)) c'))
      else (case destruct c of Inl x \<Rightarrow> Inl x | Inr c' \<Rightarrow> construct_cstr v c'))"

text \<open>
  Where the types differ a copy is built and swapped in, and the destructor of the
  temporary ends the old value.
\<close>

definition assign_variant :: "platform \<Rightarrow> cell \<Rightarrow> cell \<Rightarrow> cell vresult" where
  "assign_variant b v c =
     (if cell_type v = cell_type c then
        (if cell_isNull v then setNull b True c
         else (case cell_type c of
             None \<Rightarrow> Inl BadEt
           | Some e \<Rightarrow>
               if e = etVoid then destruct c
               else (case obj v of None \<Rightarrow> Inl DeadObject | Some p \<Rightarrow> assign_value b p c)))
      else (case construct_copy v construct_void of
          Inl x \<Rightarrow> Inl x
        | Inr stub \<Rightarrow> (case destruct c of Inl x \<Rightarrow> Inl x | Inr _ \<Rightarrow> Inr stub)))"

definition swap_cells :: "cell \<times> cell \<Rightarrow> cell \<times> cell" where
  "swap_cells p = (snd p, fst p)"


subsection \<open>Well-formed cells and what a caller sees\<close>

fun cell_of :: "variant \<Rightarrow> cell" where
  "cell_of (VNull e) = \<lparr>et = - et_num e, obj = None\<rparr>"
| "cell_of (VVal p) = \<lparr>et = et_num (payload_type p), obj = Some p\<rparr>"

lemma payload_num_pos [simp]: "0 < et_num (payload_type p)"
  using et_num_pos [of "payload_type p"] by simp

lemma not_payload_num_neg [simp]: "\<not> et_num (payload_type p) < 0"
  using payload_num_pos [of p] by linarith

lemma null_num_neg: "e \<noteq> etUnknown \<Longrightarrow> - et_num e < 0"
  using et_num_pos [of e] by simp

lemma cell_ok_cell_of: "type_of v \<noteq> etUnknown \<Longrightarrow> cell_ok (cell_of v)"
  using et_num_le [of "type_of v"] et_num_pos [of "type_of v"]
  by (cases v) (auto simp: cell_ok_def)

lemma cell_type_of [simp]: "type_of v \<noteq> etUnknown \<Longrightarrow> cell_type (cell_of v) = Some (type_of v)"
  by (cases v) (auto simp: cell_type_def et_of_et_num dest: null_num_neg)

lemma cell_isNull_of [simp]: "type_of v \<noteq> etUnknown \<Longrightarrow> cell_isNull (cell_of v) = isNull v"
  by (cases v) (auto simp: cell_isNull_def dest: null_num_neg)

lemma et_of_Some: "1 \<le> n \<Longrightarrow> n \<le> 39 \<Longrightarrow> \<exists>e. et_num e = n \<and> e \<noteq> etUnknown"
proof -
  assume n: "1 \<le> n" "n \<le> 39"
  have "map et_num all_etypes = [1..39]" by code_simp
  moreover have "n \<in> set [1..39]" using n by simp
  ultimately have "n \<in> et_num ` set all_etypes" by (metis list.set_map)
  then show ?thesis using n by auto
qed

lemma cell_ok_iff: "cell_ok c \<longleftrightarrow> (\<exists>v. c = cell_of v \<and> type_of v \<noteq> etUnknown)"
proof
  assume ok: "cell_ok c"
  show "\<exists>v. c = cell_of v \<and> type_of v \<noteq> etUnknown"
  proof (cases "obj c")
    case None
    with ok obtain e where "et_num e = - et c" "e \<noteq> etUnknown"
      using et_of_Some [of "- et c"] by (auto simp: cell_ok_def)
    with None show ?thesis by (intro exI [of _ "VNull e"]) (simp add: cell.equality)
  next
    case (Some p)
    with ok show ?thesis by (intro exI [of _ "VVal p"]) (simp add: cell_ok_def cell.equality)
  qed
qed (auto simp: cell_ok_cell_of)

lemma default_payload_type: "default_payload b e = Some p \<Longrightarrow> payload_type p = e"
  by (cases e) auto

lemma default_payload_None: "default_payload b e = None \<longleftrightarrow> e = etUnknown \<or> e = etVoid"
  by (cases e) simp_all

subsection \<open>Each operation as a function on variants\<close>

definition spec_setNull :: "platform \<Rightarrow> bool \<Rightarrow> variant \<Rightarrow> variant" where
  "spec_setNull b n v = (case v of
     VNull e \<Rightarrow> if n then v else (case default_payload b e of None \<Rightarrow> v | Some p \<Rightarrow> VVal p)
   | VVal p \<Rightarrow> if n then VNull (payload_type p) else v)"

definition spec_setType :: "etype \<Rightarrow> variant \<Rightarrow> variant" where
  "spec_setType e v = (if type_of v = e then v else VNull e)"

lemma type_spec_setNull [simp]: "type_of (spec_setNull b n v) = type_of v"
  by (auto simp: spec_setNull_def default_payload_type split: variant.split option.split)

lemma type_spec_setType [simp]: "type_of (spec_setType e v) = e"
  by (simp add: spec_setType_def)

lemma destruct_of: "type_of v \<noteq> etUnknown \<Longrightarrow> destruct (cell_of v) = Inr (cell_of (VNull (type_of v)))"
  by (cases v) (simp_all add: destruct_def del: cell_of.simps, simp_all)

lemma construct_value_null: "construct_value p (cell_of (VNull e)) = Inr (cell_of (VVal p))"
  by (simp add: construct_value_def)

lemma setNull_of:
  "type_of v \<noteq> etUnknown \<Longrightarrow> setNull b n (cell_of v) = Inr (cell_of (spec_setNull b n v))"
proof (cases v)
  case (VNull e)
  assume ok: "type_of v \<noteq> etUnknown"
  show ?thesis
  proof (cases "default_payload b e")
    case None
    then have "e = etVoid" using ok VNull by (simp add: default_payload_None)
    then show ?thesis using VNull
      by (simp add: setNull_def spec_setNull_def del: cell_of.simps)
  next
    case (Some p)
    then show ?thesis using ok VNull
      by (auto simp: setNull_def spec_setNull_def construct_default_def construct_value_null
          simp del: cell_of.simps)
  qed
next
  case (VVal p)
  then show ?thesis
    by (simp add: setNull_def spec_setNull_def destruct_of del: cell_of.simps)
qed

lemma setType_of:
  "type_of v \<noteq> etUnknown \<Longrightarrow> setType e (cell_of v) = Inr (cell_of (spec_setType e v))"
  by (auto simp: setType_def spec_setType_def destruct_of simp del: cell_of.simps) simp

lemma setNull_typed_of:
  "type_of v \<noteq> etUnknown \<Longrightarrow> e \<noteq> etUnknown \<Longrightarrow>
     setNull_typed b e n (cell_of v) = Inr (cell_of (spec_setNull b n (spec_setType e v)))"
  by (simp add: setNull_typed_def setType_of setNull_of del: cell_of.simps)

lemma as_force_of:
  "type_of v \<noteq> etUnknown \<Longrightarrow> e \<noteq> etUnknown \<Longrightarrow>
     as_force b e (cell_of v) = Inr (cell_of (spec_setNull b False (spec_setType e v)))"
  by (simp add: as_force_def setType_of setNull_of del: cell_of.simps)

lemma store_of: "store p (cell_of (VVal q)) = Inr \<lparr>et = et_num (payload_type q), obj = Some p\<rparr>"
  by (simp add: store_def)

lemma spec_setNull_VVal:
  "type_of v = payload_type p \<Longrightarrow> \<exists>q. spec_setNull b False v = VVal q \<and> payload_type q = payload_type p"
proof (cases v)
  case (VNull e)
  assume "type_of v = payload_type p"
  with VNull have e: "e = payload_type p" by simp
  then obtain q where "default_payload b e = Some q"
    by (cases "default_payload b e") (auto simp: default_payload_None)
  with e VNull show ?thesis by (auto simp: spec_setNull_def default_payload_type)
qed (simp add: spec_setNull_def)

lemma assign_value_of:
  "type_of v \<noteq> etUnknown \<Longrightarrow> assign_value b p (cell_of v) = Inr (cell_of (VVal p))"
proof (cases "type_of v = payload_type p")
  case True
  assume ok: "type_of v \<noteq> etUnknown"
  from True obtain q where "spec_setNull b False v = VVal q" "payload_type q = payload_type p"
    using spec_setNull_VVal by blast
  with True ok show ?thesis
    by (simp add: assign_value_def cell_is_def setNull_of store_of del: cell_of.simps) simp
next
  case False
  assume "type_of v \<noteq> etUnknown"
  with False show ?thesis
    by (simp add: assign_value_def cell_is_def destruct_of construct_value_null del: cell_of.simps)
qed

lemma assign_cstr_of:
  "type_of v \<noteq> etUnknown \<Longrightarrow>
     assign_cstr b s (cell_of v) =
       (case s of
          Some t \<Rightarrow> Inr (cell_of (VVal (Scalar (String t))))
        | None \<Rightarrow> if type_of v = etString then Inl NullPointer else Inr (cell_of (VNull etString)))"
proof (cases "type_of v = etString")
  case True
  assume ok: "type_of v \<noteq> etUnknown"
  from True obtain q where "spec_setNull b False v = VVal q" "payload_type q = etString"
    using spec_setNull_VVal [of v "Scalar (String [])"] by auto
  with True ok show ?thesis
    by (cases s) (simp_all add: assign_cstr_def cell_is_def setNull_of store_of del: cell_of.simps,
      simp_all)
next
  case False
  assume "type_of v \<noteq> etUnknown"
  with False show ?thesis
    by (cases s) (simp_all add: assign_cstr_def cell_is_def destruct_of construct_cstr_def
        construct_value_null del: cell_of.simps, simp_all)
qed

lemma construct_void_of: "construct_void = cell_of (VNull etVoid)"
  by (simp add: construct_void_def)

lemma construct_copy_of:
  "type_of w \<noteq> etUnknown \<Longrightarrow> construct_copy (cell_of w) (cell_of (VNull e)) = Inr (cell_of w)"
  by (cases w) (simp_all add: construct_copy_def construct_value_null del: cell_of.simps, simp_all add: construct_value_def)

lemma assign_variant_of:
  "type_of v \<noteq> etUnknown \<Longrightarrow> type_of w \<noteq> etUnknown \<Longrightarrow>
     assign_variant b (cell_of w) (cell_of v) = Inr (cell_of w)"
proof (cases "type_of w = type_of v")
  case True
  assume ok: "type_of v \<noteq> etUnknown" "type_of w \<noteq> etUnknown"
  show ?thesis
  proof (cases w)
    case (VNull e)
    with True ok show ?thesis
      by (cases v) (simp_all add: assign_variant_def setNull_of spec_setNull_def del: cell_of.simps)
  next
    case (VVal p)
    then have "obj (cell_of w) = Some p" by simp
    with True ok VVal show ?thesis
      by (simp add: assign_variant_def assign_value_of del: cell_of.simps) auto
  qed
next
  case False
  assume "type_of v \<noteq> etUnknown" "type_of w \<noteq> etUnknown"
  with False show ?thesis
    by (simp add: assign_variant_def construct_void_of construct_copy_of destruct_of del: cell_of.simps)
qed


subsection \<open>Runs of operations\<close>

datatype vop =
    OpSetNull bool
  | OpSetType etype
  | OpSetNullT etype bool
  | OpAsForce etype
  | OpAssign payload
  | OpAssignCstr "string option"
  | OpAssignVariant variant

fun vstep :: "platform \<Rightarrow> vop \<Rightarrow> cell \<Rightarrow> cell vresult" where
  "vstep b (OpSetNull n) c = setNull b n c"
| "vstep b (OpSetType e) c = setType e c"
| "vstep b (OpSetNullT e n) c = setNull_typed b e n c"
| "vstep b (OpAsForce e) c = as_force b e c"
| "vstep b (OpAssign p) c = assign_value b p c"
| "vstep b (OpAssignCstr s) c = assign_cstr b s c"
| "vstep b (OpAssignVariant w) c = assign_variant b (cell_of w) c"

fun vspec :: "platform \<Rightarrow> vop \<Rightarrow> variant \<Rightarrow> variant" where
  "vspec b (OpSetNull n) v = spec_setNull b n v"
| "vspec b (OpSetType e) v = spec_setType e v"
| "vspec b (OpSetNullT e n) v = spec_setNull b n (spec_setType e v)"
| "vspec b (OpAsForce e) v = spec_setNull b False (spec_setType e v)"
| "vspec b (OpAssign p) v = VVal p"
| "vspec b (OpAssignCstr s) v =
     (case s of Some t \<Rightarrow> VVal (Scalar (String t)) | None \<Rightarrow> VNull etString)"
| "vspec b (OpAssignVariant w) v = w"

text \<open>
  The calls the code supports: a type that exists, and no null \<open>char\<close> pointer assigned
  to a variant that has the type String.
\<close>

fun vallowed :: "vop \<Rightarrow> variant \<Rightarrow> bool" where
  "vallowed (OpSetType e) v = (e \<noteq> etUnknown)"
| "vallowed (OpSetNullT e n) v = (e \<noteq> etUnknown)"
| "vallowed (OpAsForce e) v = (e \<noteq> etUnknown)"
| "vallowed (OpAssignCstr s) v = (s = None \<longrightarrow> type_of v \<noteq> etString)"
| "vallowed (OpAssignVariant w) v = (type_of w \<noteq> etUnknown)"
| "vallowed x v = True"

definition cell_refines :: "cell \<Rightarrow> variant \<Rightarrow> bool" where
  "cell_refines c v \<longleftrightarrow> c = cell_of v \<and> type_of v \<noteq> etUnknown"

lemma vstep_simulates:
  "cell_refines c v \<Longrightarrow> vallowed x v \<Longrightarrow>
     \<exists>c'. vstep b x c = Inr c' \<and> cell_refines c' (vspec b x v)"
  by (cases x) (auto simp: cell_refines_def setNull_of setType_of setNull_typed_of as_force_of
      assign_value_of assign_cstr_of assign_variant_of split: option.split simp del: cell_of.simps)

interpretation vcell: data_refinement "vstep b" "vspec b" vallowed cell_refines for b
  by unfold_locales (rule vstep_simulates)

subsection \<open>Properties\<close>

text \<open>
  C4: starting from the default constructor, any sequence of supported operations runs
  without leaking or touching a dead object, ends in a well-formed cell, and gives the
  variant that the operations give as functions on variants.  Among these is \<open>setType\<close>, of
  which variant.hpp says that it replaces a value of another type by a default value of the new
  one; the code, and so the specified function, leaves a NULL of the new type.
\<close>

theorem variant_lifecycle:
  assumes "allowed_run vallowed (vspec b) ops (VNull etVoid)"
  shows "\<exists>c. run_ops (vstep b) ops construct_void = Inr c \<and> cell_ok c \<and>
     c = cell_of (fold (vspec b) ops (VNull etVoid))"
proof -
  have "cell_refines construct_void (VNull etVoid)"
    by (simp add: cell_refines_def construct_void_of)
  from vcell.run_simulates [OF this assms] show ?thesis
    by (auto simp: cell_refines_def cell_ok_cell_of simp del: cell_of.simps)
qed

theorem variant_lifecycle_witness:
  "\<exists>c. run_ops (vstep sample_platform)
      [OpAssign (Scalar (Int32 7)), OpAssignCstr None, OpSetNull False, OpSetType etSetVariant,
       OpAssignVariant (VVal (Ptr None))] construct_void = Inr c \<and> cell_ok c \<and>
     c = cell_of (VVal (Ptr None))"
  using variant_lifecycle [of sample_platform "[OpAssign (Scalar (Int32 7)), OpAssignCstr None, OpSetNull False,
    OpSetType etSetVariant, OpAssignVariant (VVal (Ptr None))]"] by simp

text \<open>
  Assigning a null \<open>char\<close> pointer gives a NULL string, except that on a variant that
  already has the type String, NULL or not, it dereferences the null pointer.
\<close>

theorem assign_null_cstr:
  assumes "cell_ok c"
  shows "assign_cstr b None c =
    (if cell_type c = Some etString then Inl NullPointer
     else Inr \<lparr>et = - et_num etString, obj = None\<rparr>)"
  using assms by (auto simp: cell_ok_iff assign_cstr_of simp del: cell_of.simps) simp_all

theorem assign_null_cstr_witness:
  "assign_cstr sample_platform None \<lparr>et = -2, obj = None\<rparr> = Inl NullPointer \<and>
   assign_cstr sample_platform None construct_void = Inr \<lparr>et = -2, obj = None\<rparr>"
proof -
  have ok: "cell_ok \<lparr>et = -2, obj = None\<rparr>" "cell_ok construct_void"
    by (simp_all add: cell_ok_def construct_void_def)
  have "et_of 2 = Some etString" "et_of 1 = Some etVoid"
    using et_of_et_num [of etString] et_of_et_num [of etVoid] by simp_all
  then show ?thesis
    using assign_null_cstr [OF ok(1), of sample_platform] assign_null_cstr [OF ok(2), of sample_platform]
    by (simp add: cell_type_def construct_void_def)
qed

end
