(* ===== verification/VariantOrder.thy ===== *)
theory VariantOrder
  imports VariantState
begin

text \<open>
  \<open>VariantImpl::less\<close> and \<open>equal\<close> of \<^verbatim>\<open>src/utils/variantImpl.hpp\<close>: the order the
  sets and maps of variants are kept in, and equality.  Where the code compares
  values with \<open>as<T>() < v.as<T>()\<close> the C++ operator of the type is written out:
  lexicographic comparison of the containers, IEEE comparison of floating point
  numbers, signed comparison of \<open>char\<close>.
\<close>

subsection \<open>Comparison of scalars\<close>

definition f32_nan :: "u32 \<Rightarrow> bool" where
  "f32_nan w \<longleftrightarrow> w AND 0x7FFFFFFF > 0x7F800000"

definition f32_key :: "u32 \<Rightarrow> int" where
  "f32_key w = (if bit w 31 then - uint (w AND 0x7FFFFFFF) else uint (w AND 0x7FFFFFFF))"

definition f64_nan :: "u64 \<Rightarrow> bool" where
  "f64_nan w \<longleftrightarrow> w AND 0x7FFFFFFFFFFFFFFF > 0x7FF0000000000000"

definition f64_key :: "u64 \<Rightarrow> int" where
  "f64_key w = (if bit w 63 then - uint (w AND 0x7FFFFFFFFFFFFFFF)
                else uint (w AND 0x7FFFFFFFFFFFFFFF))"

fun lex_less :: "('a \<Rightarrow> 'a \<Rightarrow> bool) \<Rightarrow> 'a list \<Rightarrow> 'a list \<Rightarrow> bool" where
  "lex_less lt xs [] = False"
| "lex_less lt [] (y # ys) = True"
| "lex_less lt (x # xs) (y # ys) = (lt x y \<or> (\<not> lt y x \<and> lex_less lt xs ys))"

definition char_uless :: "char \<Rightarrow> char \<Rightarrow> bool" where
  "char_uless c d \<longleftrightarrow> (of_char c :: nat) < of_char d"

definition char_sless :: "char \<Rightarrow> char \<Rightarrow> bool" where
  "char_sless c d \<longleftrightarrow> sint (byte_of c) < sint (byte_of d)"

abbreviation string_less :: "string \<Rightarrow> string \<Rightarrow> bool" where
  "string_less \<equiv> lex_less char_uless"

text \<open>
  \<open>operator <\<close> on \<open>std::bitset<N>\<close>: for \<open>N\<close> up to \<open>sizeof(unsigned long)\<close>, which is 8,
  the values are compared, otherwise the bits from the highest one on.
\<close>

fun bitset_loop :: "'w::len word \<Rightarrow> 'w word \<Rightarrow> nat \<Rightarrow> bool" where
  "bitset_loop v1 v2 0 = False"
| "bitset_loop v1 v2 (Suc i) =
     (if \<not> bit v1 i \<and> bit v2 i then True
      else if bit v1 i \<and> \<not> bit v2 i then False
      else bitset_loop v1 v2 i)"

definition bitset_less :: "'w::len word \<Rightarrow> 'w word \<Rightarrow> bool" where
  "bitset_less v1 v2 =
     (if LENGTH('w) \<le> 8 then uint v1 < uint v2 else bitset_loop v1 v2 LENGTH('w))"

definition dtd_less :: "platform \<Rightarrow> dduration \<times> tduration \<Rightarrow> dduration \<times> tduration \<Rightarrow> bool" where
  "dtd_less b v w =
     (if dd_less b (fst v) (fst w) then True
      else if dd_less b (fst w) (fst v) then False
      else td_less b (snd v) (snd w))"

definition tm_less :: "platform \<Rightarrow> tm \<Rightarrow> tm \<Rightarrow> bool" where
  "tm_less b v1 v2 \<longleftrightarrow> mktime b v1 < mktime b v2"

fun less_scalar :: "platform \<Rightarrow> scalar \<Rightarrow> scalar \<Rightarrow> bool" where
  "less_scalar b (String x) q = string_less x (as_String q)"
| "less_scalar b (Float x) q = (\<not> f32_nan x \<and> \<not> f32_nan (as_Float q) \<and> f32_key x < f32_key (as_Float q))"
| "less_scalar b (Double x) q = (\<not> f64_nan x \<and> \<not> f64_nan (as_Double q) \<and> f64_key x < f64_key (as_Double q))"
| "less_scalar b (Int8 x) q = (sint x < sint (as_Int8 q))"
| "less_scalar b (Int16 x) q = (sint x < sint (as_Int16 q))"
| "less_scalar b (Int32 x) q = (sint x < sint (as_Int32 q))"
| "less_scalar b (Int64 x) q = (sint x < sint (as_Int64 q))"
| "less_scalar b (UInt8 x) q = (uint x < uint (as_UInt8 q))"
| "less_scalar b (UInt16 x) q = (uint x < uint (as_UInt16 q))"
| "less_scalar b (UInt32 x) q = (uint x < uint (as_UInt32 q))"
| "less_scalar b (UInt64 x) q = (uint x < uint (as_UInt64 q))"
| "less_scalar b (VectorChar x) q = lex_less char_sless x (as_VectorChar q)"
| "less_scalar b (Date x) q = date_less b x (as_Date q)"
| "less_scalar b (Datetime x) q = ptime_less b x (as_Datetime q)"
| "less_scalar b (Bool x) q = (\<not> x \<and> as_Bool q)"
| "less_scalar b (Tm x) q = tm_less b x (as_Tm q)"
| "less_scalar b (Bitset8 x) q = bitset_less x (as_Bitset8 q)"
| "less_scalar b (Bitset16 x) q = bitset_less x (as_Bitset16 q)"
| "less_scalar b (Bitset32 x) q = bitset_less x (as_Bitset32 q)"
| "less_scalar b (Bitset64 x) q = bitset_less x (as_Bitset64 q)"
| "less_scalar b (Bitset128 x) q = bitset_less x (as_Bitset128 q)"
| "less_scalar b (Bitset256 x) q = bitset_less x (as_Bitset256 q)"
| "less_scalar b (Bitset512 x) q = bitset_less x (as_Bitset512 q)"
| "less_scalar b (DateDuration x) q = dd_less b x (as_DateDuration q)"
| "less_scalar b (TimeDuration x) q = td_less b x (as_TimeDuration q)"
| "less_scalar b (DateTimeDuration d t) q = dtd_less b (d, t) (as_dd q, as_td q)"
| "less_scalar b (Char x) q = char_sless x (as_Char q)"
| "less_scalar b (Uuid x) q = lex_less (\<lambda>c d. uint c < uint d) x (as_Uuid q)"

subsection \<open>Comparison of variants\<close>

fun ptr_less :: "nat option \<Rightarrow> nat option \<Rightarrow> bool" where
  "ptr_less p None = False"
| "ptr_less None (Some b) = True"
| "ptr_less (Some a) (Some b) = (a < b)"

text \<open>
  Sequences compare lexicographically; the entries of a map are pairs, which compare
  by the first component and then by the second.
\<close>

function less_v :: "platform \<Rightarrow> variant \<Rightarrow> variant \<Rightarrow> bool"
  and less_seq :: "platform \<Rightarrow> variant list \<Rightarrow> variant list \<Rightarrow> bool"
  and less_smap :: "platform \<Rightarrow> (string \<times> variant) list \<Rightarrow> (string \<times> variant) list \<Rightarrow> bool"
  and less_vmap :: "platform \<Rightarrow> (variant \<times> variant) list \<Rightarrow> (variant \<times> variant) list \<Rightarrow> bool"
where
  "less_v b v w =
     (if et_num (type_of v) < et_num (type_of w) then True
      else if et_num (type_of v) > et_num (type_of w) then False
      else (case v of
          VNull e \<Rightarrow> \<not> isNull w
        | VVal p \<Rightarrow> (case w of
            VNull e \<Rightarrow> False
          | VVal q \<Rightarrow> (case p of
              Scalar x \<Rightarrow> (case q of Scalar y \<Rightarrow> less_scalar b x y | _ \<Rightarrow> False)
            | Seq k xs \<Rightarrow> (case q of Seq k' ys \<Rightarrow> less_seq b xs ys | _ \<Rightarrow> False)
            | SMap k m \<Rightarrow> (case q of SMap k' m' \<Rightarrow> less_smap b m m' | _ \<Rightarrow> False)
            | VMap k m \<Rightarrow> (case q of VMap k' m' \<Rightarrow> less_vmap b m m' | _ \<Rightarrow> False)
            | Ptr r \<Rightarrow> (case q of Ptr r' \<Rightarrow> ptr_less r r' | _ \<Rightarrow> False)))))"
| "less_seq b xs [] = False"
| "less_seq b [] (y # ys) = True"
| "less_seq b (x # xs) (y # ys) = (less_v b x y \<or> (\<not> less_v b y x \<and> less_seq b xs ys))"
| "less_smap b xs [] = False"
| "less_smap b [] (y # ys) = True"
| "less_smap b ((k, x) # xs) ((l, y) # ys) =
     ((string_less k l \<or> (\<not> string_less l k \<and> less_v b x y)) \<or>
      (\<not> (string_less l k \<or> (\<not> string_less k l \<and> less_v b y x)) \<and> less_smap b xs ys))"
| "less_vmap b xs [] = False"
| "less_vmap b [] (y # ys) = True"
| "less_vmap b ((k, x) # xs) ((l, y) # ys) =
     ((less_v b k l \<or> (\<not> less_v b l k \<and> less_v b x y)) \<or>
      (\<not> (less_v b l k \<or> (\<not> less_v b k l \<and> less_v b y x)) \<and> less_vmap b xs ys))"
  by pat_completeness auto
termination
  by (relation "measure (case_sum
        (case_sum (\<lambda>(b, v, w). size v + size w)
                  (\<lambda>(b, xs, ys). size_list size xs + size_list size ys))
        (case_sum (\<lambda>(b, xs, ys). size_list (size_prod (\<lambda>_. 0) size) xs + size_list (size_prod (\<lambda>_. 0) size) ys)
                  (\<lambda>(b, xs, ys). size_list (size_prod size size) xs + size_list (size_prod size size) ys)))")
     simp_all

declare less_v.simps [simp del]


subsection \<open>Strict weak orders\<close>

definition swo_on :: "'a set \<Rightarrow> ('a \<Rightarrow> 'a \<Rightarrow> bool) \<Rightarrow> bool" where
  "swo_on A lt \<longleftrightarrow> (\<forall>x\<in>A. \<forall>y\<in>A. lt x y \<longrightarrow> \<not> lt y x) \<and>
     (\<forall>x\<in>A. \<forall>y\<in>A. \<forall>z\<in>A. lt x z \<longrightarrow> lt x y \<or> lt y z)"

lemma swo_onI:
  assumes "\<And>x y. x \<in> A \<Longrightarrow> y \<in> A \<Longrightarrow> lt x y \<Longrightarrow> \<not> lt y x"
    and "\<And>x y z. x \<in> A \<Longrightarrow> y \<in> A \<Longrightarrow> z \<in> A \<Longrightarrow> lt x z \<Longrightarrow> lt x y \<or> lt y z"
  shows "swo_on A lt"
  using assms unfolding swo_on_def by blast

lemma swo_on_asym: "swo_on A lt \<Longrightarrow> x \<in> A \<Longrightarrow> y \<in> A \<Longrightarrow> lt x y \<Longrightarrow> \<not> lt y x"
  unfolding swo_on_def by blast

lemma swo_on_between:
  "swo_on A lt \<Longrightarrow> x \<in> A \<Longrightarrow> y \<in> A \<Longrightarrow> z \<in> A \<Longrightarrow> lt x z \<Longrightarrow> lt x y \<or> lt y z"
  unfolding swo_on_def by blast

lemma swo_on_subset: "swo_on A lt \<Longrightarrow> B \<subseteq> A \<Longrightarrow> swo_on B lt"
  unfolding swo_on_def by blast

lemma swo_on_image:
  assumes "swo_on B lt0" and "\<And>x. x \<in> A \<Longrightarrow> f x \<in> B"
    and "\<And>x y. x \<in> A \<Longrightarrow> y \<in> A \<Longrightarrow> lt x y = lt0 (f x) (f y)"
  shows "swo_on A lt"
proof (rule swo_onI)
  fix x y assume "x \<in> A" "y \<in> A" "lt x y"
  then show "\<not> lt y x" using assms swo_on_asym [OF assms(1), of "f x" "f y"] by auto
next
  fix x y z assume "x \<in> A" "y \<in> A" "z \<in> A" "lt x z"
  then show "lt x y \<or> lt y z"
    using assms swo_on_between [OF assms(1), of "f x" "f y" "f z"] by auto
qed

lemma swo_on_less [simp]: "swo_on A ((<) :: 'a::linorder \<Rightarrow> 'a \<Rightarrow> bool)"
  by (rule swo_onI) auto

lemma swo_on_key: "swo_on A (\<lambda>x y. (f x :: 'a::linorder) < f y)"
  by (rule swo_on_image [of UNIV "(<)"]) simp_all

lemma swo_on_rank:
  assumes "\<And>r. swo_on {x \<in> A. rank x = r} lt"
  shows "swo_on A (\<lambda>x y. rank x < (rank y :: 'r::linorder) \<or> rank x = rank y \<and> lt x y)"
proof (rule swo_onI)
  fix x y assume "x \<in> A" "y \<in> A" "rank x < rank y \<or> rank x = rank y \<and> lt x y"
  then show "\<not> (rank y < rank x \<or> rank y = rank x \<and> lt y x)"
    using swo_on_asym [OF assms [of "rank x"], of x y] by auto
next
  fix x y z
  assume xyz: "x \<in> A" "y \<in> A" "z \<in> A" "rank x < rank z \<or> rank x = rank z \<and> lt x z"
  consider "rank x < rank y" | "rank y < rank z" | "rank x = rank y" "rank y = rank z"
    using xyz(4) by (metis linorder_less_linear order.strict_trans)
  then show "(rank x < rank y \<or> rank x = rank y \<and> lt x y) \<or> rank y < rank z \<or> rank y = rank z \<and> lt y z"
  proof cases
    case 3
    then show ?thesis using xyz swo_on_between [OF assms [of "rank x"], of x y z] by auto
  qed simp_all
qed

lemma lex_less_asym:
  "swo_on A lt \<Longrightarrow> set xs \<subseteq> A \<Longrightarrow> set ys \<subseteq> A \<Longrightarrow> lex_less lt xs ys \<Longrightarrow> \<not> lex_less lt ys xs"
  by (induction lt xs ys rule: lex_less.induct) (auto dest: swo_on_asym)

lemma lex_less_between:
  "swo_on A lt \<Longrightarrow> set xs \<subseteq> A \<Longrightarrow> set ys \<subseteq> A \<Longrightarrow> set zs \<subseteq> A \<Longrightarrow> lex_less lt xs zs \<Longrightarrow>
     lex_less lt xs ys \<or> lex_less lt ys zs"
proof (induction lt xs zs arbitrary: ys rule: lex_less.induct)
  case (1 lt xs)
  then show ?case by simp
next
  case (2 lt z zs)
  then show ?case by (cases ys) simp_all
next
  case (3 lt x xs z zs)
  show ?case
  proof (cases ys)
    case Nil
    then show ?thesis by simp
  next
    case (Cons y ys')
    have A: "x \<in> A" "y \<in> A" "z \<in> A" using 3 Cons by auto
    have tail: "lex_less lt xs zs \<Longrightarrow> \<not> lt x z \<Longrightarrow> \<not> lt z x \<Longrightarrow> lex_less lt xs ys' \<or> lex_less lt ys' zs"
      using 3 Cons by auto
    note b = swo_on_between [OF "3.prems"(1)]
    show ?thesis
      using "3.prems"(5) Cons tail b [OF A] b [OF A(1,3,2)] b [OF A(2,1,3)] b [OF A(3,2,1)]
        b [OF A(2,3,1)] b [OF A(3,1,2)] swo_on_asym [OF "3.prems"(1) A(1,3)]
      by auto
  qed
qed

lemma swo_on_lex_less: "swo_on A lt \<Longrightarrow> swo_on {xs. set xs \<subseteq> A} (lex_less lt)"
  by (rule swo_onI) (use lex_less_asym lex_less_between in blast)+

definition pair_less :: "('a \<Rightarrow> 'a \<Rightarrow> bool) \<Rightarrow> ('b \<Rightarrow> 'b \<Rightarrow> bool) \<Rightarrow> 'a \<times> 'b \<Rightarrow> 'a \<times> 'b \<Rightarrow> bool" where
  "pair_less lt1 lt2 p q \<longleftrightarrow>
     lt1 (fst p) (fst q) \<or> (\<not> lt1 (fst q) (fst p) \<and> lt2 (snd p) (snd q))"

lemma swo_on_pair_less:
  assumes "swo_on A lt1" and "swo_on B lt2"
  shows "swo_on (A \<times> B) (pair_less lt1 lt2)"
proof (rule swo_onI)
  fix x y assume "x \<in> A \<times> B" "y \<in> A \<times> B" "pair_less lt1 lt2 x y"
  then show "\<not> pair_less lt1 lt2 y x"
    using swo_on_asym [OF assms(1), of "fst x" "fst y"] swo_on_asym [OF assms(2), of "snd x" "snd y"]
    by (auto simp: pair_less_def)
next
  fix x y z assume A: "x \<in> A \<times> B" "y \<in> A \<times> B" "z \<in> A \<times> B" and lt: "pair_less lt1 lt2 x z"
  then have 1: "fst x \<in> A" "fst y \<in> A" "fst z \<in> A" and 2: "snd x \<in> B" "snd y \<in> B" "snd z \<in> B"
    by auto
  note b = swo_on_between [OF assms(1)]
  show "pair_less lt1 lt2 x y \<or> pair_less lt1 lt2 y z"
    using lt swo_on_between [OF assms(2) 2] b [OF 1] b [OF 1(2,1,3)] b [OF 1(3,2,1)] b [OF 1(1,3,2)]
      b [OF 1(3,1,2)] b [OF 1(2,3,1)]
    by (auto simp: pair_less_def)
qed

subsection \<open>The comparisons of the code are strict weak orders\<close>

lemma uint_take_bit_Suc:
  "n < LENGTH('w) \<Longrightarrow>
     uint (take_bit (Suc n) (x :: 'w::len word)) = uint (take_bit n x) + (if bit x n then 2 ^ n else 0)"
  by (simp add: unsigned_take_bit_eq bit_uint_iff take_bit_Suc_from_most add.commute)

lemma uint_take_bit_less: "uint (take_bit n (x :: 'w::len word)) < 2 ^ n"
  by (simp add: unsigned_take_bit_eq)

lemma bitset_loop_iff:
  "n \<le> LENGTH('w) \<Longrightarrow>
     bitset_loop v w n \<longleftrightarrow> uint (take_bit n (v :: 'w::len word)) < uint (take_bit n w)"
proof (induction n)
  case (Suc n)
  then have n: "n < LENGTH('w)" and IH: "bitset_loop v w n \<longleftrightarrow> uint (take_bit n v) < uint (take_bit n w)"
    by simp_all
  show ?case
    unfolding bitset_loop.simps uint_take_bit_Suc [OF n] IH
    using uint_take_bit_less [of n v] uint_take_bit_less [of n w]
      uint_ge_0 [of "take_bit n v"] uint_ge_0 [of "take_bit n w"]
    by (cases "bit v n"; cases "bit w n"; simp only: if_True if_False simp_thms; linarith)
qed simp

lemma bitset_less_iff: "bitset_less v w \<longleftrightarrow> uint v < uint w"
  by (simp add: bitset_less_def bitset_loop_iff)

lemma scalar_shape:
  "scalar_type s = etString \<Longrightarrow> s = String (as_String s)"
  "scalar_type s = etFloat \<Longrightarrow> s = Float (as_Float s)"
  "scalar_type s = etDouble \<Longrightarrow> s = Double (as_Double s)"
  "scalar_type s = etInt8 \<Longrightarrow> s = Int8 (as_Int8 s)"
  "scalar_type s = etInt16 \<Longrightarrow> s = Int16 (as_Int16 s)"
  "scalar_type s = etInt32 \<Longrightarrow> s = Int32 (as_Int32 s)"
  "scalar_type s = etInt64 \<Longrightarrow> s = Int64 (as_Int64 s)"
  "scalar_type s = etUInt8 \<Longrightarrow> s = UInt8 (as_UInt8 s)"
  "scalar_type s = etUInt16 \<Longrightarrow> s = UInt16 (as_UInt16 s)"
  "scalar_type s = etUInt32 \<Longrightarrow> s = UInt32 (as_UInt32 s)"
  "scalar_type s = etUInt64 \<Longrightarrow> s = UInt64 (as_UInt64 s)"
  "scalar_type s = etVectorChar \<Longrightarrow> s = VectorChar (as_VectorChar s)"
  "scalar_type s = etDate \<Longrightarrow> s = Date (as_Date s)"
  "scalar_type s = etDatetime \<Longrightarrow> s = Datetime (as_Datetime s)"
  "scalar_type s = etBool \<Longrightarrow> s = Bool (as_Bool s)"
  "scalar_type s = etTm \<Longrightarrow> s = Tm (as_Tm s)"
  "scalar_type s = etBitset8 \<Longrightarrow> s = Bitset8 (as_Bitset8 s)"
  "scalar_type s = etBitset16 \<Longrightarrow> s = Bitset16 (as_Bitset16 s)"
  "scalar_type s = etBitset32 \<Longrightarrow> s = Bitset32 (as_Bitset32 s)"
  "scalar_type s = etBitset64 \<Longrightarrow> s = Bitset64 (as_Bitset64 s)"
  "scalar_type s = etBitset128 \<Longrightarrow> s = Bitset128 (as_Bitset128 s)"
  "scalar_type s = etBitset256 \<Longrightarrow> s = Bitset256 (as_Bitset256 s)"
  "scalar_type s = etBitset512 \<Longrightarrow> s = Bitset512 (as_Bitset512 s)"
  "scalar_type s = etDateDuration \<Longrightarrow> s = DateDuration (as_DateDuration s)"
  "scalar_type s = etTimeDuration \<Longrightarrow> s = TimeDuration (as_TimeDuration s)"
  "scalar_type s = etDateTimeDuration \<Longrightarrow> s = DateTimeDuration (as_dd s) (as_td s)"
  "scalar_type s = etChar \<Longrightarrow> s = Char (as_Char s)"
  "scalar_type s = etUuid \<Longrightarrow> s = Uuid (as_Uuid s)"
  by (cases s; simp)+

text \<open>Boost's types are ordered, but for \<open>not_a_date_time\<close>, which is less than nothing and more than nothing.\<close>

definition platform_ordered :: "platform \<Rightarrow> bool" where
  "platform_ordered b \<longleftrightarrow> swo_on {x. \<not> date_nad b x} (date_less b) \<and> swo_on {x. \<not> ptime_nad b x} (ptime_less b) \<and>
     swo_on {x. \<not> dd_nad b x} (dd_less b) \<and> swo_on {x. \<not> td_nad b x} (td_less b)"

fun scalar_nan :: "scalar \<Rightarrow> bool" where
  "scalar_nan (Float w) = f32_nan w"
| "scalar_nan (Double w) = f64_nan w"
| "scalar_nan _ = False"

text \<open>The scalars without NaN and \<open>not_a_date_time\<close>.\<close>

fun scalar_proper :: "platform \<Rightarrow> scalar \<Rightarrow> bool" where
  "scalar_proper b (Float w) = (\<not> f32_nan w)"
| "scalar_proper b (Double w) = (\<not> f64_nan w)"
| "scalar_proper b (Date x) = (\<not> date_nad b x)"
| "scalar_proper b (Datetime x) = (\<not> ptime_nad b x)"
| "scalar_proper b (DateDuration x) = (\<not> dd_nad b x)"
| "scalar_proper b (TimeDuration x) = (\<not> td_nad b x)"
| "scalar_proper b (DateTimeDuration x y) = (\<not> dd_nad b x \<and> \<not> td_nad b y)"
| "scalar_proper b _ = True"

lemma scalar_proper_nan: "scalar_proper b s \<Longrightarrow> \<not> scalar_nan s"
  by (cases s) simp_all

lemma swo_dtd_less: "platform_ordered b \<Longrightarrow> swo_on ({x. \<not> dd_nad b x} \<times> {y. \<not> td_nad b y}) (dtd_less b)"
proof -
  assume "platform_ordered b"
  then have "swo_on ({x. \<not> dd_nad b x} \<times> {y. \<not> td_nad b y}) (pair_less (dd_less b) (td_less b))"
    by (intro swo_on_pair_less) (simp_all add: platform_ordered_def)
  moreover have "dtd_less b = pair_less (dd_less b) (td_less b)"
    by (simp add: fun_eq_iff dtd_less_def pair_less_def)
  ultimately show ?thesis by simp
qed

lemma swo_char_uless: "swo_on UNIV char_uless"
  unfolding char_uless_def by (rule swo_on_key)

lemma swo_char_sless: "swo_on UNIV char_sless"
  unfolding char_sless_def by (rule swo_on_key)

lemma swo_string_less: "swo_on UNIV string_less"
  using swo_on_lex_less [OF swo_char_uless] by simp

lemma lex_less_map: "lex_less lt (map f xs) (map f ys) = lex_less (\<lambda>x y. lt (f x) (f y)) xs ys"
  by (induction "\<lambda>x y. lt (f x) (f y)" xs ys rule: lex_less.induct) simp_all

text \<open>
  Values of all types but Boost's are ordered as lists of integers.
\<close>

fun scalar_key :: "platform \<Rightarrow> scalar \<Rightarrow> int list" where
  "scalar_key b (String x) = map (\<lambda>c. int (of_char c)) x"
| "scalar_key b (Float x) = [f32_key x]"
| "scalar_key b (Double x) = [f64_key x]"
| "scalar_key b (Int8 x) = [sint x]"
| "scalar_key b (Int16 x) = [sint x]"
| "scalar_key b (Int32 x) = [sint x]"
| "scalar_key b (Int64 x) = [sint x]"
| "scalar_key b (UInt8 x) = [uint x]"
| "scalar_key b (UInt16 x) = [uint x]"
| "scalar_key b (UInt32 x) = [uint x]"
| "scalar_key b (UInt64 x) = [uint x]"
| "scalar_key b (VectorChar x) = map (\<lambda>c. sint (byte_of c)) x"
| "scalar_key b (Bool x) = [if x then 1 else 0]"
| "scalar_key b (Tm x) = [mktime b x]"
| "scalar_key b (Bitset8 x) = [uint x]"
| "scalar_key b (Bitset16 x) = [uint x]"
| "scalar_key b (Bitset32 x) = [uint x]"
| "scalar_key b (Bitset64 x) = [uint x]"
| "scalar_key b (Bitset128 x) = [uint x]"
| "scalar_key b (Bitset256 x) = [uint x]"
| "scalar_key b (Bitset512 x) = [uint x]"
| "scalar_key b (Char x) = [sint (byte_of x)]"
| "scalar_key b (Uuid x) = map uint x"
| "scalar_key b _ = []"

definition boost_types :: "etype set" where
  "boost_types = {etDate, etDatetime, etDateDuration, etTimeDuration, etDateTimeDuration}"

lemma less_scalar_key:
  assumes "scalar_type s = scalar_type q" and "scalar_type s \<notin> boost_types"
    and "\<not> scalar_nan s" and "\<not> scalar_nan q"
  shows "less_scalar b s q = lex_less (<) (scalar_key b s) (scalar_key b q)"
  using assms unfolding boost_types_def
  by (cases s) (auto elim!: scalar_type.elims [OF sym] simp: lex_less_map char_uless_def [abs_def]
      char_sless_def [abs_def] bitset_less_iff tm_less_def
      split: if_splits)

lemma swo_scalar_sel:
  assumes "swo_on A lt" and "\<And>s. scalar_type s = t \<Longrightarrow> scalar_proper b s \<Longrightarrow> f s \<in> A"
    and "\<And>s q. scalar_type s = t \<Longrightarrow> scalar_type q = t \<Longrightarrow> less_scalar b s q = lt (f s) (f q)"
  shows "swo_on {s. scalar_type s = t \<and> scalar_proper b s} (less_scalar b)"
  by (rule swo_on_image [OF assms(1)]) (use assms(2,3) in auto)

lemma swo_less_scalar_boost:
  assumes "platform_ordered b" and "t \<in> boost_types"
  shows "swo_on {s. scalar_type s = t \<and> scalar_proper b s} (less_scalar b)"
proof -
  note p = assms(1) [unfolded platform_ordered_def]
  note sel = swo_scalar_sel [where b = b and t = t]
  from assms(2) consider "t = etDate" | "t = etDatetime" | "t = etDateDuration" | "t = etTimeDuration" | "t = etDateTimeDuration"
    by (auto simp: boost_types_def)
  then show ?thesis
  proof cases
    case 1 show ?thesis
      by (rule sel [OF p [THEN conjunct1], of as_Date]) (auto simp: 1 elim!: scalar_type.elims)
  next
    case 2 show ?thesis
      by (rule sel [OF p [THEN conjunct2, THEN conjunct1], of as_Datetime]) (auto simp: 2 elim!: scalar_type.elims)
  next
    case 3 show ?thesis
      by (rule sel [OF p [THEN conjunct2, THEN conjunct2, THEN conjunct1], of as_DateDuration])
        (auto simp: 3 elim!: scalar_type.elims)
  next
    case 4 show ?thesis
      by (rule sel [OF p [THEN conjunct2, THEN conjunct2, THEN conjunct2], of as_TimeDuration])
        (auto simp: 4 elim!: scalar_type.elims)
  next
    case 5 show ?thesis
      by (rule sel [OF swo_dtd_less [OF assms(1)], of "\<lambda>s. (as_dd s, as_td s)"])
        (auto simp: 5 elim!: scalar_type.elims)
  qed
qed

lemma swo_less_scalar:
  assumes "platform_ordered b"
  shows "swo_on {s. scalar_type s = t \<and> scalar_proper b s} (less_scalar b)"
proof (cases "t \<in> boost_types")
  case True
  then show ?thesis by (rule swo_less_scalar_boost [OF assms])
next
  case False
  have "swo_on UNIV (lex_less ((<) :: int \<Rightarrow> int \<Rightarrow> bool))"
    using swo_on_lex_less [OF swo_on_less [of UNIV]] by simp
  then show ?thesis
    by (rule swo_on_image [where f = "scalar_key b"]) (use False less_scalar_key scalar_proper_nan in auto)
qed

subsection \<open>The order of variants\<close>

fun no_nan :: "variant \<Rightarrow> bool" where
  "no_nan (VNull e) = True"
| "no_nan (VVal (Scalar s)) = (\<not> scalar_nan s)"
| "no_nan (VVal (Seq k xs)) = (\<forall>x\<in>set xs. no_nan x)"
| "no_nan (VVal (SMap k m)) = (\<forall>e\<in>set m. no_nan (snd e))"
| "no_nan (VVal (VMap k m)) = (\<forall>e\<in>set m. no_nan (fst e) \<and> no_nan (snd e))"
| "no_nan (VVal (Ptr p)) = True"

text \<open>No NaN and no \<open>not_a_date_time\<close> at any depth.\<close>

fun comparable :: "platform \<Rightarrow> variant \<Rightarrow> bool" where
  "comparable b (VNull e) = True"
| "comparable b (VVal (Scalar s)) = scalar_proper b s"
| "comparable b (VVal (Seq k xs)) = (\<forall>x\<in>set xs. comparable b x)"
| "comparable b (VVal (SMap k m)) = (\<forall>e\<in>set m. comparable b (snd e))"
| "comparable b (VVal (VMap k m)) = (\<forall>e\<in>set m. comparable b (fst e) \<and> comparable b (snd e))"
| "comparable b (VVal (Ptr p)) = True"

lemma less_seq_lex: "less_seq b xs ys = lex_less (less_v b) xs ys"
proof (induction xs arbitrary: ys)
  case (Cons x xs)
  then show ?case by (cases ys) simp_all
next
  case Nil
  show ?case by (cases ys) simp_all
qed

lemma less_smap_lex: "less_smap b xs ys = lex_less (pair_less string_less (less_v b)) xs ys"
proof (induction xs arbitrary: ys)
  case Nil
  show ?case by (cases ys) simp_all
next
  case (Cons x xs)
  then show ?case by (cases ys; cases x; cases "hd ys") (auto simp: pair_less_def)
qed

lemma less_vmap_lex: "less_vmap b xs ys = lex_less (pair_less (less_v b) (less_v b)) xs ys"
proof (induction xs arbitrary: ys)
  case Nil
  show ?case by (cases ys) simp_all
next
  case (Cons x xs)
  then show ?case by (cases ys; cases x; cases "hd ys") (auto simp: pair_less_def)
qed

fun payload_less :: "platform \<Rightarrow> payload \<Rightarrow> payload \<Rightarrow> bool" where
  "payload_less b (Scalar x) (Scalar y) = less_scalar b x y"
| "payload_less b (Seq k xs) (Seq k' ys) = less_seq b xs ys"
| "payload_less b (SMap k m) (SMap k' m') = less_smap b m m'"
| "payload_less b (VMap k m) (VMap k' m') = less_vmap b m m'"
| "payload_less b (Ptr r) (Ptr r') = ptr_less r r'"
| "payload_less b p q = False"

definition v_rank :: "variant \<Rightarrow> int" where
  "v_rank v = 2 * et_num (type_of v) + (if isNull v then 0 else 1)"

definition rank_less :: "platform \<Rightarrow> variant \<Rightarrow> variant \<Rightarrow> bool" where
  "rank_less b v w = (case v of VNull _ \<Rightarrow> False | VVal p \<Rightarrow>
     (case w of VNull _ \<Rightarrow> False | VVal q \<Rightarrow> payload_less b p q))"

lemma v_rank_eq: "v_rank v = v_rank w \<longleftrightarrow> type_of v = type_of w \<and> isNull v = isNull w"
proof -
  have "2 * x + (if c then 0 else 1) = 2 * y + (if d then 0 else 1) \<longleftrightarrow> x = y \<and> c = d"
    for x y :: int and c d by (cases c; cases d; simp; presburger)
  then show ?thesis by (simp add: v_rank_def)
qed

lemma less_v_rank: "less_v b v w \<longleftrightarrow> v_rank v < v_rank w \<or> v_rank v = v_rank w \<and> rank_less b v w"
proof (cases "type_of v = type_of w")
  case True
  then show ?thesis
    by (cases v; cases w)
       (auto simp: less_v.simps v_rank_def rank_less_def split: payload.splits)
next
  case False
  then have "et_num (type_of v) \<noteq> et_num (type_of w)" by simp
  then show ?thesis
    by (auto simp: less_v.simps v_rank_def)
qed


fun kids :: "payload \<Rightarrow> variant set" where
  "kids (Seq k xs) = set xs"
| "kids (SMap k m) = snd ` set m"
| "kids (VMap k m) = fst ` set m \<union> snd ` set m"
| "kids _ = {}"

fun shape :: "payload \<Rightarrow> nat" where
  "shape (Scalar s) = 0"
| "shape (Seq k xs) = 1"
| "shape (SMap k m) = 2"
| "shape (VMap k m) = 3"
| "shape (Ptr r) = 4"

lemma shape_iff:
  "shape p = 0 \<longleftrightarrow> (\<exists>s. p = Scalar s)"
  "shape p = 1 \<longleftrightarrow> (\<exists>k xs. p = Seq k xs)"
  "shape p = 2 \<longleftrightarrow> (\<exists>k m. p = SMap k m)"
  "shape p = 3 \<longleftrightarrow> (\<exists>k m. p = VMap k m)"
  "shape p = 4 \<longleftrightarrow> (\<exists>r. p = Ptr r)"
  by (cases p; simp)+

definition type_shape :: "etype \<Rightarrow> nat" where
  "type_shape t =
     (if t \<in> {etVectorVariant, etSetVariant, etMultisetVariant, etDequeVariant, etListVariant} then 1
      else if t \<in> {etMapStringVariant, etMultimapStringVariant} then 2
      else if t \<in> {etMapVariantVariant, etMultimapVariantVariant} then 3
      else if t = etVariantPtr then 4 else 0)"

lemma shape_type_shape: "shape p = type_shape (payload_type p)"
proof (cases p)
  case (Seq k xs) then show ?thesis by (cases k) (simp_all add: type_shape_def)
next
  case (SMap k xs) then show ?thesis by (cases k) (simp_all add: type_shape_def)
next
  case (VMap k xs) then show ?thesis by (cases k) (simp_all add: type_shape_def)
qed (simp_all add: type_shape_def)

lemma shape_type: "payload_type p = payload_type q \<Longrightarrow> shape p = shape q"
  by (simp add: shape_type_shape)

lemma ptr_less_swo: "swo_on UNIV ptr_less"
proof (rule swo_on_image [OF swo_on_key [of UNIV "case_option 0 Suc"], where f = id])
  fix x y :: "nat option"
  show "ptr_less x y = ((case id x of None \<Rightarrow> 0 | Some n \<Rightarrow> Suc n) < (case id y of None \<Rightarrow> 0 | Some n \<Rightarrow> Suc n))"
    by (cases x; cases y) simp_all
qed simp

definition clean_payloads :: "platform \<Rightarrow> etype \<Rightarrow> variant set \<Rightarrow> payload set" where
  "clean_payloads b t B = {p. payload_type p = t \<and> kids p \<subseteq> B \<and> comparable b (VVal p)}"

lemma swo_payload_shape:
  assumes "platform_ordered b" and B: "swo_on B (less_v b)"
  shows "swo_on {p \<in> clean_payloads b t B. shape p = i} (payload_less b)"
proof -
  let ?S = "{p \<in> clean_payloads b t B. shape p = i}"
  consider "i = 0" | "i = 1" | "i = 2" | "i = 3" | "i = 4" | "?S = {}"
  proof (cases "?S = {}")
    case False
    then obtain p where "shape p = i" by auto
    then show ?thesis using that by (cases p) auto
  qed
  then show ?thesis
  proof cases
    case 1
    show ?thesis
      by (rule swo_on_image [OF swo_less_scalar [OF assms(1), of t],
            where f = "\<lambda>p. case p of Scalar s \<Rightarrow> s"])
        (auto simp: 1 clean_payloads_def shape_iff [simplified])
  next
    case 2
    show ?thesis
      by (rule swo_on_image [OF swo_on_lex_less [OF B], where f = "\<lambda>p. case p of Seq k xs \<Rightarrow> xs"])
        (auto simp: 2 clean_payloads_def less_seq_lex shape_iff [simplified])
  next
    case 3
    show ?thesis
      by (rule swo_on_image [OF swo_on_lex_less [OF swo_on_pair_less [OF swo_string_less B]],
            where f = "\<lambda>p. case p of SMap k m \<Rightarrow> m"])
        (fastforce simp: 3 clean_payloads_def less_smap_lex image_subset_iff shape_iff [simplified])+
  next
    case 4
    show ?thesis
      by (rule swo_on_image [OF swo_on_lex_less [OF swo_on_pair_less [OF B B]],
            where f = "\<lambda>p. case p of VMap k m \<Rightarrow> m"])
        (fastforce simp: 4 clean_payloads_def less_vmap_lex image_subset_iff shape_iff [simplified])+
  next
    case 5
    show ?thesis
      by (rule swo_on_image [OF ptr_less_swo, where f = "\<lambda>p. case p of Ptr r \<Rightarrow> r"])
        (auto simp: 5 shape_iff [simplified])
  next
    case 6
    show ?thesis by (simp add: 6 swo_on_def)
  qed
qed

lemma swo_payload:
  assumes "platform_ordered b" and "swo_on B (less_v b)"
  shows "swo_on (clean_payloads b t B) (payload_less b)"
proof (cases "clean_payloads b t B = {}")
  case False
  then obtain p where "p \<in> clean_payloads b t B" by auto
  then have "clean_payloads b t B \<subseteq> {q \<in> clean_payloads b t B. shape q = shape p}"
    by (simp add: subset_iff clean_payloads_def shape_type_shape)
  then show ?thesis by (rule swo_on_subset [OF swo_payload_shape [OF assms]])
qed (simp add: swo_on_def)

lemma kids_smaller:
  assumes "v \<in> kids p"
  shows "size v < size p"
proof (cases p)
  case (Seq k xs)
  then show ?thesis using assms size_list_estimation' [of v xs "size v" size] by simp
next
  case (SMap k m)
  then obtain s where "(s, v) \<in> set m" using assms by auto
  then have "size v \<le> size_list (size_prod (\<lambda>_. 0) size) m"
    using size_list_estimation' [of "(s, v)" m "size v" "size_prod (\<lambda>_. 0) size"] by simp
  then show ?thesis using SMap by simp
next
  case (VMap k m)
  then obtain x y where e: "(x, y) \<in> set m" "v = x \<or> v = y" using assms by auto
  then have "size v \<le> size_prod size size (x, y)" by auto
  then have "size v \<le> size_list (size_prod size size) m"
    by (rule size_list_estimation' [OF e(1)])
  then show ?thesis using VMap by simp
qed (use assms in simp_all)

lemma swo_less_v_bounded:
  assumes "platform_ordered b"
  shows "swo_on {v. size v < n \<and> comparable b v} (less_v b)"
proof (induction n)
  case (Suc n)
  let ?A = "{v. size v < Suc n \<and> comparable b v}" and ?B = "{v. size v < n \<and> comparable b v}"
  have "swo_on {x \<in> ?A. v_rank x = r} (rank_less b)" for r
  proof (cases "\<exists>p. VVal p \<in> ?A \<and> v_rank (VVal p) = r")
    case True
    then obtain p0 where p0: "v_rank (VVal p0) = r" by blast
    have shape: "\<exists>p. x = VVal p \<and> p \<in> clean_payloads b (payload_type p0) ?B"
      if A: "x \<in> ?A" and r: "v_rank x = r" for x
    proof -
      obtain p where p: "x = VVal p" "payload_type p = payload_type p0"
        using r p0 v_rank_eq [of x "VVal p0"] by (cases x) auto
      have "kids p \<subseteq> ?B"
        using A p(1) kids_smaller [of _ p] by (cases p) (fastforce+)
      then show ?thesis using p A by (auto simp: clean_payloads_def)
    qed
    show ?thesis
    proof (rule swo_on_image [OF swo_payload [OF assms Suc.IH, of "payload_type p0"],
          where f = "\<lambda>v. case v of VVal p \<Rightarrow> p"])
      fix x assume "x \<in> {x \<in> ?A. v_rank x = r}"
      then show "(case x of VVal p \<Rightarrow> p) \<in> clean_payloads b (payload_type p0) ?B"
        using shape [of x] by auto
    next
      fix x y assume "x \<in> {x \<in> ?A. v_rank x = r}" "y \<in> {x \<in> ?A. v_rank x = r}"
      then obtain p q where "x = VVal p" "y = VVal q" using shape [of x] shape [of y] by blast
      then show "rank_less b x y =
          payload_less b (case x of VVal p \<Rightarrow> p) (case y of VVal p \<Rightarrow> p)"
        by (simp add: rank_less_def)
    qed
  next
    case False
    then show ?thesis
      by (intro swo_onI) (auto simp: rank_less_def split: variant.splits)
  qed
  then have "swo_on ?A (\<lambda>v w. v_rank v < v_rank w \<or> v_rank v = v_rank w \<and> rank_less b v w)"
    by (rule swo_on_rank)
  then show ?case by (simp add: swo_on_def less_v_rank)
qed (simp add: swo_on_def)

lemma swo_less_v:
  assumes "platform_ordered b"
  shows "swo_on {v. comparable b v} (less_v b)"
proof (rule swo_onI)
  fix x y assume "x \<in> {v. comparable b v}" "y \<in> {v. comparable b v}" "less_v b x y"
  then show "\<not> less_v b y x"
    using swo_on_asym [OF swo_less_v_bounded [OF assms, of "Suc (size x + size y)"], of x y] by simp
next
  fix x y z assume "x \<in> {v. comparable b v}" "y \<in> {v. comparable b v}" "z \<in> {v. comparable b v}" "less_v b x z"
  then show "less_v b x y \<or> less_v b y z"
    using swo_on_between [OF swo_less_v_bounded [OF assms, of "Suc (size x + size y + size z)"], of x y z]
    by simp
qed

text \<open>
  C9: \<open>operator <\<close> on variants is a strict weak order on all variants that hold no NaN and no
  \<open>not_a_date_time\<close> anywhere, whatever their types and nesting: it is asymmetric, and a
  variant that is between two others differs from one of them.  This is what \<open>std::set\<close> and
  \<open>std::map\<close> require of it; the hypothesis is that Boost's own values other than
  \<open>not_a_date_time\<close> are ordered so.
\<close>

theorem less_v_strict_weak_order:
  assumes "platform_ordered b"
  shows "swo_on {v. comparable b v} (less_v b)"
  by (rule swo_less_v [OF assms])

lemma platform_ordered_sample: "platform_ordered sample_platform"
  unfolding platform_ordered_def by (intro conjI swo_onI) (auto simp: sample_platform_def)

theorem less_v_strict_weak_order_witness:
  "swo_on {v. comparable sample_platform v} (less_v sample_platform)"
  by (rule less_v_strict_weak_order [OF platform_ordered_sample])


subsection \<open>Equality\<close>

definition f32_eq :: "u32 \<Rightarrow> u32 \<Rightarrow> bool" where
  "f32_eq v w \<longleftrightarrow> \<not> f32_nan v \<and> \<not> f32_nan w \<and> f32_key v = f32_key w"

definition f64_eq :: "u64 \<Rightarrow> u64 \<Rightarrow> bool" where
  "f64_eq v w \<longleftrightarrow> \<not> f64_nan v \<and> \<not> f64_nan w \<and> f64_key v = f64_key w"

text \<open>
  \<open>operator ==\<close> on the objects: IEEE equality of floating point numbers, \<open>memcmp\<close> on
  \<open>std::tm\<close>, equality of contents for everything else.
\<close>

fun equal_scalar :: "scalar \<Rightarrow> scalar \<Rightarrow> bool" where
  "equal_scalar (Float x) q = f32_eq x (as_Float q)"
| "equal_scalar (Double x) q = f64_eq x (as_Double q)"
| "equal_scalar p q = (p = q)"

function equal_v :: "variant \<Rightarrow> variant \<Rightarrow> bool"
  and equal_seq :: "variant list \<Rightarrow> variant list \<Rightarrow> bool"
  and equal_smap :: "(string \<times> variant) list \<Rightarrow> (string \<times> variant) list \<Rightarrow> bool"
  and equal_vmap :: "(variant \<times> variant) list \<Rightarrow> (variant \<times> variant) list \<Rightarrow> bool"
where
  "equal_v v w =
     (if type_of v \<noteq> type_of w \<or> isNull v \<noteq> isNull w then False
      else (case v of
          VNull e \<Rightarrow> True
        | VVal p \<Rightarrow> (case w of
            VNull e \<Rightarrow> False
          | VVal q \<Rightarrow> (case p of
              Scalar x \<Rightarrow> (case q of Scalar y \<Rightarrow> equal_scalar x y | _ \<Rightarrow> False)
            | Seq k xs \<Rightarrow> (case q of Seq k' ys \<Rightarrow> equal_seq xs ys | _ \<Rightarrow> False)
            | SMap k m \<Rightarrow> (case q of SMap k' m' \<Rightarrow> equal_smap m m' | _ \<Rightarrow> False)
            | VMap k m \<Rightarrow> (case q of VMap k' m' \<Rightarrow> equal_vmap m m' | _ \<Rightarrow> False)
            | Ptr r \<Rightarrow> (case q of Ptr r' \<Rightarrow> r = r' | _ \<Rightarrow> False)))))"
| "equal_seq [] ys = (ys = [])"
| "equal_seq (x # xs) [] = False"
| "equal_seq (x # xs) (y # ys) = (equal_v x y \<and> equal_seq xs ys)"
| "equal_smap [] ys = (ys = [])"
| "equal_smap (p # xs) [] = False"
| "equal_smap ((k, x) # xs) ((l, y) # ys) = (k = l \<and> equal_v x y \<and> equal_smap xs ys)"
| "equal_vmap [] ys = (ys = [])"
| "equal_vmap (p # xs) [] = False"
| "equal_vmap ((k, x) # xs) ((l, y) # ys) = (equal_v k l \<and> equal_v x y \<and> equal_vmap xs ys)"
  by pat_completeness auto
termination
  by (relation "measure (case_sum
        (case_sum (\<lambda>(v, w). size v + size w)
                  (\<lambda>(xs, ys). size_list size xs + size_list size ys))
        (case_sum (\<lambda>(xs, ys). size_list (size_prod (\<lambda>_. 0) size) xs + size_list (size_prod (\<lambda>_. 0) size) ys)
                  (\<lambda>(xs, ys). size_list (size_prod size size) xs + size_list (size_prod size size) ys)))")
     simp_all

declare equal_v.simps [simp del]

lemma equal_v_VVal [simp]:
  "equal_v (VVal (Scalar x)) (VVal (Scalar y)) \<longleftrightarrow> scalar_type x = scalar_type y \<and> equal_scalar x y"
  "equal_v (VVal (Seq k xs)) (VVal (Seq k' ys)) \<longleftrightarrow> seq_type k = seq_type k' \<and> equal_seq xs ys"
  "equal_v (VVal (SMap l m)) (VVal (SMap l' m')) \<longleftrightarrow> smap_type l = smap_type l' \<and> equal_smap m m'"
  "equal_v (VVal (VMap l n)) (VVal (VMap l' n')) \<longleftrightarrow> vmap_type l = vmap_type l' \<and> equal_vmap n n'"
  "equal_v (VVal (Ptr r)) (VVal (Ptr r')) \<longleftrightarrow> r = r'"
  "equal_v (VNull e) w \<longleftrightarrow> w = VNull e"
  "equal_v v (VNull e) \<longleftrightarrow> v = VNull e"
  by (simp_all add: equal_v.simps, (cases w; simp), (cases v; auto))

text \<open>Equal variants are equivalent in the order, also where they hold NaN or pointers.\<close>

definition platform_irrefl :: "platform \<Rightarrow> bool" where
  "platform_irrefl b \<longleftrightarrow> (\<forall>x. \<not> date_less b x x) \<and> (\<forall>x. \<not> ptime_less b x x) \<and>
     (\<forall>x. \<not> dd_less b x x) \<and> (\<forall>x. \<not> td_less b x x)"

lemma lex_less_irrefl: "(\<And>x. x \<in> set xs \<Longrightarrow> \<not> lt x x) \<Longrightarrow> \<not> lex_less lt xs xs"
  by (induction xs) auto

lemma char_less_irrefl [simp]: "\<not> char_uless c c" "\<not> char_sless c c" "\<not> bitset_less w w" "\<not> tm_less b t t"
  by (simp_all add: char_uless_def char_sless_def bitset_less_iff tm_less_def)

lemma ptr_less_irrefl [simp]: "\<not> ptr_less r r"
  by (cases r) simp_all

lemma equal_scalar_not_less:
  "platform_irrefl b \<Longrightarrow> scalar_type x = scalar_type y \<Longrightarrow> equal_scalar x y \<Longrightarrow>
     \<not> less_scalar b x y \<and> \<not> less_scalar b y x"
  by (cases x) (auto simp: f32_eq_def f64_eq_def lex_less_irrefl platform_irrefl_def dtd_less_def
      elim!: scalar_type.elims [OF sym])

lemma equal_not_less_all:
  assumes "platform_irrefl b"
  shows "equal_v v w \<Longrightarrow> \<not> less_v b v w \<and> \<not> less_v b w v"
    and "equal_seq xs ys \<Longrightarrow> \<not> less_seq b xs ys \<and> \<not> less_seq b ys xs"
    and "equal_smap m m' \<Longrightarrow> \<not> less_smap b m m' \<and> \<not> less_smap b m' m"
    and "equal_vmap n n' \<Longrightarrow> \<not> less_vmap b n n' \<and> \<not> less_vmap b n' n"
proof (induction v w and xs ys and m m' and n n' rule: equal_v_equal_seq_equal_smap_equal_vmap.induct)
  case (1 v w)
  show ?case
  proof -
    from "1.prems" have eq: "equal_v v w" .
    then have r: "v_rank v = v_rank w"
      by (auto simp: v_rank_eq equal_v.simps [of v w] split: if_splits)
    have "\<not> rank_less b v w \<and> \<not> rank_less b w v"
    proof (cases v; cases w)
      fix p q assume v: "v = VVal p" and w: "w = VVal q"
      have t: "payload_type p = payload_type q" using r v w by (simp add: v_rank_eq)
      show ?thesis
        using eq t "1.IH" equal_scalar_not_less [OF assms]
        by (cases p; cases q)
          (simp_all add: v w rank_less_def)
    qed (simp_all add: rank_less_def)
    then show "\<not> less_v b v w \<and> \<not> less_v b w v"
      using r by (simp add: less_v_rank)
  qed
qed (auto simp: lex_less_irrefl neq_Nil_conv)

text \<open>
  Equal variants are equivalent in the order, whatever they hold, NaN, pointers and
  nested containers included, so two equal variants are never two elements of a set.
\<close>

theorem equal_not_less:
  assumes "platform_irrefl b" and "equal_v v w"
  shows "\<not> less_v b v w \<and> \<not> less_v b w v"
  by (rule equal_not_less_all(1) [OF assms])

theorem equal_not_less_witness:
  "\<not> less_v sample_platform (VVal (Seq ListK [VVal (Scalar (Double 0))]))
       (VVal (Seq ListK [VVal (Scalar (Double 0x8000000000000000))]))"
proof -
  have "platform_irrefl sample_platform"
    by (simp add: platform_irrefl_def sample_platform_def)
  moreover have "equal_v (VVal (Seq ListK [VVal (Scalar (Double 0))]))
      (VVal (Seq ListK [VVal (Scalar (Double 0x8000000000000000))]))"
    by (simp add: f64_eq_def f64_nan_def f64_key_def)
  ultimately show ?thesis by (rule equal_not_less [THEN conjunct1])
qed

text \<open>Equality is reflexive exactly on the variants without NaN.\<close>

lemma equal_scalar_refl: "equal_scalar x x \<longleftrightarrow> \<not> scalar_nan x"
  by (cases x) (simp_all add: f32_eq_def f64_eq_def)

lemma equal_seq_refl: "equal_seq xs xs \<longleftrightarrow> (\<forall>x\<in>set xs. equal_v x x)"
  by (induction xs) auto

lemma equal_smap_refl: "equal_smap m m \<longleftrightarrow> (\<forall>e\<in>set m. equal_v (snd e) (snd e))"
  by (induction m) auto

lemma equal_vmap_refl: "equal_vmap m m \<longleftrightarrow> (\<forall>e\<in>set m. equal_v (fst e) (fst e) \<and> equal_v (snd e) (snd e))"
  by (induction m) auto

text \<open>
  A variant equals itself exactly if it holds no NaN at any depth.
\<close>

theorem equal_refl_iff: "equal_v v v \<longleftrightarrow> no_nan v"
  by (induction v rule: no_nan.induct)
     (auto simp: equal_scalar_refl equal_seq_refl equal_smap_refl equal_vmap_refl)

end
