(* ===== verification/Containers.thy ===== *)
theory Containers
  imports VariantOrder "HOL-Library.Multiset"
begin

text \<open>
  The ordered containers of the C++ library the code stores variants in.  A container
  is the list of its elements in iteration order; \<open>key\<close> gives the part of an element
  that is compared.  Insertion with a hint goes as close to the hint as the order
  allows, which is what \<open>std::inserter\<close> and \<open>multiset::insert\<close> rest on.
\<close>

definition lower_bound :: "('k \<Rightarrow> 'k \<Rightarrow> bool) \<Rightarrow> ('e \<Rightarrow> 'k) \<Rightarrow> 'k \<Rightarrow> 'e list \<Rightarrow> nat" where
  "lower_bound lt key k xs = length (takeWhile (\<lambda>x. lt (key x) k) xs)"

definition upper_bound :: "('k \<Rightarrow> 'k \<Rightarrow> bool) \<Rightarrow> ('e \<Rightarrow> 'k) \<Rightarrow> 'k \<Rightarrow> 'e list \<Rightarrow> nat" where
  "upper_bound lt key k xs = length (takeWhile (\<lambda>x. \<not> lt k (key x)) xs)"

definition find_key :: "('k \<Rightarrow> 'k \<Rightarrow> bool) \<Rightarrow> ('e \<Rightarrow> 'k) \<Rightarrow> 'k \<Rightarrow> 'e list \<Rightarrow> 'e option" where
  "find_key lt key k xs = (case dropWhile (\<lambda>x. lt (key x) k) xs of
     [] \<Rightarrow> None | x # _ \<Rightarrow> if lt k (key x) then None else Some x)"

definition insert_at :: "nat \<Rightarrow> 'e \<Rightarrow> 'e list \<Rightarrow> 'e list" where
  "insert_at i e xs = take i xs @ e # drop i xs"

text \<open>Both return the position of the element and the container.\<close>

definition insert_unique ::
  "('k \<Rightarrow> 'k \<Rightarrow> bool) \<Rightarrow> ('e \<Rightarrow> 'k) \<Rightarrow> nat \<Rightarrow> 'e \<Rightarrow> 'e list \<Rightarrow> nat \<times> 'e list" where
  "insert_unique lt key h e xs =
     (let i = lower_bound lt key (key e) xs in
      case find_key lt key (key e) xs of Some _ \<Rightarrow> (i, xs) | None \<Rightarrow> (i, insert_at i e xs))"

definition insert_multi ::
  "('k \<Rightarrow> 'k \<Rightarrow> bool) \<Rightarrow> ('e \<Rightarrow> 'k) \<Rightarrow> nat \<Rightarrow> 'e \<Rightarrow> 'e list \<Rightarrow> nat \<times> 'e list" where
  "insert_multi lt key h e xs =
     (let i = max (lower_bound lt key (key e) xs) (min h (upper_bound lt key (key e) xs)) in
      (i, insert_at i e xs))"

text \<open>\<open>std::copy\<close> through \<open>std::inserter(dst, dst.begin())\<close> into a cleared container.\<close>

fun copy_in :: "(nat \<Rightarrow> 'e \<Rightarrow> 'e list \<Rightarrow> nat \<times> 'e list) \<Rightarrow> 'e list \<Rightarrow> nat \<Rightarrow> 'e list \<Rightarrow> 'e list" where
  "copy_in ins [] h xs = xs"
| "copy_in ins (e # src) h xs = (let (i, ys) = ins h e xs in copy_in ins src (Suc i) ys)"

text \<open>A loop of \<open>insert(value)\<close> without a hint.\<close>

fun insert_all :: "(nat \<Rightarrow> 'e \<Rightarrow> 'e list \<Rightarrow> nat \<times> 'e list) \<Rightarrow> 'e list \<Rightarrow> 'e list \<Rightarrow> 'e list" where
  "insert_all ins [] m = m"
| "insert_all ins (e # es) m = insert_all ins es (snd (ins (length m) e m))"

lemma mset_insert_at: "mset (insert_at i e xs) = add_mset e (mset xs)"
proof -
  have "mset (take i xs) + mset (drop i xs) = mset xs"
    by (metis append_take_drop_id mset_append)
  then show ?thesis by (simp add: insert_at_def)
qed

lemma set_insert_at [simp]: "set (insert_at i e xs) = insert e (set xs)"
  using arg_cong [OF mset_insert_at [of i e xs], of set_mset] by simp

definition weakly_sorted :: "('k \<Rightarrow> 'k \<Rightarrow> bool) \<Rightarrow> ('e \<Rightarrow> 'k) \<Rightarrow> 'e list \<Rightarrow> bool" where
  "weakly_sorted lt key xs \<longleftrightarrow> sorted_wrt (\<lambda>x y. \<not> lt (key y) (key x)) xs"

definition strictly_sorted :: "('k \<Rightarrow> 'k \<Rightarrow> bool) \<Rightarrow> ('e \<Rightarrow> 'k) \<Rightarrow> 'e list \<Rightarrow> bool" where
  "strictly_sorted lt key xs \<longleftrightarrow> sorted_wrt (\<lambda>x y. lt (key x) (key y)) xs"

lemma take_bound:
  "set (take (length (takeWhile P xs)) xs) = set (takeWhile P xs)"
  by (simp add: takeWhile_eq_take [symmetric])

locale ordered_keys =
  fixes A :: "'k set" and lt :: "'k \<Rightarrow> 'k \<Rightarrow> bool"
  assumes swo: "swo_on A lt"
begin

lemmas asym = swo_on_asym [OF swo]
lemmas between = swo_on_between [OF swo]

lemma strict_weak:
  "key ` set xs \<subseteq> A \<Longrightarrow> strictly_sorted lt key xs \<Longrightarrow> weakly_sorted lt key xs"
  unfolding strictly_sorted_def weakly_sorted_def
  by (erule sorted_wrt_mono_rel [rotated]) (use asym in \<open>auto simp: image_subset_iff\<close>)

lemma not_below:
  "weakly_sorted lt key xs \<Longrightarrow> key ` set xs \<subseteq> A \<Longrightarrow> k \<in> A \<Longrightarrow>
     x \<in> set (dropWhile (\<lambda>x. lt (key x) k) xs) \<Longrightarrow> \<not> lt (key x) k"
proof (induction xs)
  case (Cons a xs)
  then show ?case
    using between [of "key x" "key a" k] by (auto simp: weakly_sorted_def split: if_splits)
qed simp

lemma above:
  "weakly_sorted lt key xs \<Longrightarrow> key ` set xs \<subseteq> A \<Longrightarrow> k \<in> A \<Longrightarrow>
     x \<in> set (dropWhile (\<lambda>x. \<not> lt k (key x)) xs) \<Longrightarrow> lt k (key x)"
proof (induction xs)
  case (Cons a xs)
  then show ?case
    using between [of k "key x" "key a"] by (auto simp: weakly_sorted_def split: if_splits)
qed simp

lemma bounds_le:
  "key ` set xs \<subseteq> A \<Longrightarrow> k \<in> A \<Longrightarrow> lower_bound lt key k xs \<le> upper_bound lt key k xs"
  unfolding lower_bound_def upper_bound_def
  by (induction xs) (use asym in auto)

lemma weak_insert_at:
  assumes "weakly_sorted lt key xs" and A: "key ` set xs \<subseteq> A" "key e \<in> A"
    and i: "lower_bound lt key (key e) xs \<le> i" "i \<le> upper_bound lt key (key e) xs"
  shows "weakly_sorted lt key (insert_at i e xs)"
proof -
  have 1: "\<not> lt (key e) (key x)" if "x \<in> set (take i xs)" for x
  proof -
    have "x \<in> set (takeWhile (\<lambda>x. \<not> lt (key e) (key x)) xs)"
      using subsetD [OF set_take_subset_set_take [OF i(2)] that] by (simp add: upper_bound_def take_bound)
    then show ?thesis by (rule set_takeWhileD [THEN conjunct2])
  qed
  have 2: "\<not> lt (key x) (key e)" if "x \<in> set (drop i xs)" for x
  proof (rule not_below [OF assms(1) A])
    show "x \<in> set (dropWhile (\<lambda>x. lt (key x) (key e)) xs)"
      using subsetD [OF set_drop_subset_set_drop [OF i(1)] that]
      by (simp only: lower_bound_def dropWhile_eq_drop)
  qed
  have "sorted_wrt (\<lambda>x y. \<not> lt (key y) (key x)) (take i xs @ drop i xs)"
    using assms(1) by (simp add: weakly_sorted_def)
  then show ?thesis
    unfolding weakly_sorted_def insert_at_def sorted_wrt_append using 1 2 by simp
qed

lemma insert_multi_sorted:
  "weakly_sorted lt key xs \<Longrightarrow> key ` set xs \<subseteq> A \<Longrightarrow> key e \<in> A \<Longrightarrow>
     weakly_sorted lt key (snd (insert_multi lt key h e xs))"
  using bounds_le [of key xs "key e"]
  by (auto simp: insert_multi_def Let_def intro!: weak_insert_at)

lemma find_key_None:
  assumes "strictly_sorted lt key xs" and A: "key ` set xs \<subseteq> A" "k \<in> A"
  shows "find_key lt key k xs = None \<longleftrightarrow> (\<forall>x\<in>set xs. lt (key x) k \<or> lt k (key x))"
proof -
  have "find_key lt key k xs = None \<longleftrightarrow> (\<forall>x\<in>set (dropWhile (\<lambda>x. lt (key x) k) xs). lt k (key x))"
  proof (cases "dropWhile (\<lambda>x. lt (key x) k) xs")
    case (Cons y ys)
    have "lt k (key x)" if "lt k (key y)" "x \<in> set ys" for x
    proof -
      have "x \<in> set xs" "y \<in> set xs"
        using Cons that(2) set_dropWhileD [of _ "\<lambda>x. lt (key x) k" xs] by auto
      moreover have "lt (key y) (key x)"
        using assms(1) Cons that(2) unfolding strictly_sorted_def
        by (metis dropWhile_eq_drop sorted_wrt.simps(2) sorted_wrt_drop)
      ultimately show ?thesis
        using between [of "key y" k "key x"] asym [of k "key y"] that(1) A by auto
    qed
    then show ?thesis using Cons by (auto simp: find_key_def)
  next
    case Nil
    show ?thesis unfolding find_key_def Nil by simp
  qed
  also have "\<dots> \<longleftrightarrow> (\<forall>x\<in>set xs. lt (key x) k \<or> lt k (key x))"
    using set_dropWhileD not_below [OF strict_weak [OF A(1) assms(1)] A]
    by (metis (mono_tags, lifting) Un_iff set_append set_takeWhileD takeWhile_dropWhile_id)
  finally show ?thesis .
qed

lemma insert_unique_sorted:
  assumes "strictly_sorted lt key xs" and A: "key ` set xs \<subseteq> A" "key e \<in> A"
  shows "strictly_sorted lt key (snd (insert_unique lt key h e xs))"
proof (cases "find_key lt key (key e) xs")
  case None
  let ?i = "lower_bound lt key (key e) xs"
  note far = find_key_None [OF assms, THEN iffD1, OF None, rule_format]
  have "weakly_sorted lt key (insert_at ?i e xs)"
    using weak_insert_at [OF strict_weak [OF A(1) assms(1)] A order_refl] bounds_le [OF A] by simp
  then have w: "sorted_wrt (\<lambda>x y. \<not> lt (key y) (key x)) (take ?i xs @ e # drop ?i xs)"
    by (simp add: weakly_sorted_def insert_at_def)
  have s: "sorted_wrt (\<lambda>x y. lt (key x) (key y)) (take ?i xs @ drop ?i xs)"
    using assms(1) by (simp add: strictly_sorted_def)
  have "lt (key x) (key e)" if "x \<in> set (take ?i xs)" for x
    using that w far [OF in_set_takeD [OF that]] by (auto simp: sorted_wrt_append)
  moreover have "lt (key e) (key x)" if "x \<in> set (drop ?i xs)" for x
    using that w far [OF in_set_dropD [OF that]] by (auto simp: sorted_wrt_append)
  ultimately have "sorted_wrt (\<lambda>x y. lt (key x) (key y)) (take ?i xs @ e # drop ?i xs)"
    using s by (simp only: sorted_wrt_append sorted_wrt.simps) (auto intro: between)
  then show ?thesis using None
    by (simp add: insert_unique_def Let_def strictly_sorted_def insert_at_def)
qed (use assms in \<open>simp add: insert_unique_def Let_def\<close>)

lemma copy_in_unique_sorted:
  "strictly_sorted lt key xs \<Longrightarrow> key ` set xs \<subseteq> A \<Longrightarrow> key ` set src \<subseteq> A \<Longrightarrow>
     strictly_sorted lt key (copy_in (insert_unique lt key) src h xs)"
proof (induction src arbitrary: h xs)
  case (Cons e src)
  let ?ys = "snd (insert_unique lt key h e xs)"
  have "set ?ys \<subseteq> insert e (set xs)"
    by (auto simp: insert_unique_def Let_def split: option.splits)
  then have "key ` set ?ys \<subseteq> A" using Cons.prems(2,3) by (auto simp: image_subset_iff)
  moreover have "strictly_sorted lt key ?ys"
    using Cons.prems by (intro insert_unique_sorted) auto
  ultimately show ?case
    using Cons.IH [of ?ys] Cons.prems(3) by (cases "insert_unique lt key h e xs") simp
qed simp

lemma strictly_sorted_cases:
  "strictly_sorted lt key xs \<Longrightarrow> x \<in> set xs \<Longrightarrow> y \<in> set xs \<Longrightarrow>
     x = y \<or> lt (key x) (key y) \<or> lt (key y) (key x)"
  unfolding strictly_sorted_def by (induction xs) auto

lemma find_key_Some:
  assumes "strictly_sorted lt key xs" and A: "key ` set xs \<subseteq> A" "k \<in> A"
  shows "find_key lt key k xs = Some x \<longleftrightarrow> x \<in> set xs \<and> \<not> lt (key x) k \<and> \<not> lt k (key x)"
proof -
  have found: "y \<in> set xs \<and> \<not> lt (key y) k \<and> \<not> lt k (key y)" if "find_key lt key k xs = Some y" for y
  proof -
    from that obtain ys where ys: "dropWhile (\<lambda>x. lt (key x) k) xs = y # ys" "\<not> lt k (key y)"
      by (auto simp: find_key_def split: list.splits if_splits)
    then have "y \<in> set (dropWhile (\<lambda>x. lt (key x) k) xs)" by simp
    moreover have "\<not> lt (key y) k"
      using hd_dropWhile [of "\<lambda>x. lt (key x) k" xs] ys(1) by simp
    ultimately show ?thesis using ys(2) set_dropWhileD by fast
  qed
  show ?thesis
  proof
    assume x: "x \<in> set xs \<and> \<not> lt (key x) k \<and> \<not> lt k (key x)"
    then obtain y where y: "find_key lt key k xs = Some y"
      using find_key_None [OF assms] by (cases "find_key lt key k xs") auto
    have "key x \<in> A" "key y \<in> A" using x found [OF y] A by auto
    then have "\<not> lt (key x) (key y)" "\<not> lt (key y) (key x)"
      using between [of "key x" k "key y"] between [of "key y" k "key x"] x found [OF y] A(2) by auto
    then show "find_key lt key k xs = Some x"
      using strictly_sorted_cases [OF assms(1), of x y] x found [OF y] y by auto
  qed (rule found)
qed

lemma find_insert_unique:
  assumes "strictly_sorted lt key xs" and A: "key ` set xs \<subseteq> A" "key e \<in> A" "k \<in> A"
  shows "find_key lt key k (snd (insert_unique lt key h e xs)) =
    (if \<not> lt k (key e) \<and> \<not> lt (key e) k \<and> find_key lt key (key e) xs = None then Some e
     else find_key lt key k xs)"
proof (cases "find_key lt key (key e) xs")
  case None
  let ?ys = "snd (insert_unique lt key h e xs)"
  have set: "set ?ys = insert e (set xs)"
    using None by (simp add: insert_unique_def Let_def)
  have srt: "strictly_sorted lt key ?ys" by (rule insert_unique_sorted [OF assms(1) A(1,2)])
  have A': "key ` set ?ys \<subseteq> A" using set A by simp
  note at = find_key_Some [OF srt A' A(3)] and old = find_key_Some [OF assms(1) A(1,3)]
  show ?thesis
  proof (cases "\<not> lt k (key e) \<and> \<not> lt (key e) k")
    case True
    then show ?thesis using None set at [of e] by simp
  next
    case False
    then have "find_key lt key k ?ys = Some x \<longleftrightarrow> find_key lt key k xs = Some x" for x
      using at [of x] old [of x] set by auto
    then have "find_key lt key k ?ys = find_key lt key k xs"
      by (metis not_Some_eq)
    then show ?thesis using False by auto
  qed
qed (simp add: insert_unique_def Let_def)

end

definition clean_variants :: "platform \<Rightarrow> variant set" where
  "clean_variants b = {v. platform_ordered b \<and> comparable b v}"

interpretation vkeys: ordered_keys "clean_variants b" "less_v b" for b
proof
  show "swo_on (clean_variants b) (less_v b)"
  proof (cases "platform_ordered b")
    case True
    show ?thesis
      by (rule swo_on_subset [OF swo_less_v [OF True]]) (auto simp: clean_variants_def)
  qed (simp add: clean_variants_def swo_on_def)
qed

interpretation skeys: ordered_keys UNIV string_less
  by unfold_locales (rule swo_string_less)

text \<open>Elements with fresh keys are all inserted.\<close>

context ordered_keys
begin

lemma insert_all_fresh:
  assumes "strictly_sorted lt key m" and "key ` set m \<subseteq> A" and "key ` set es \<subseteq> A"
    and "\<forall>e\<in>set es. \<forall>x\<in>set m. lt (key x) (key e) \<or> lt (key e) (key x)"
    and "sorted_wrt (\<lambda>x y. lt (key x) (key y) \<or> lt (key y) (key x)) es"
  shows "strictly_sorted lt key (insert_all (insert_unique lt key) es m) \<and>
    mset (insert_all (insert_unique lt key) es m) = mset m + mset es"
  using assms
proof (induction es arbitrary: m)
  case (Cons e es)
  let ?m = "snd (insert_unique lt key (length m) e m)"
  have none: "find_key lt key (key e) m = None"
    using find_key_None [of key m "key e"] Cons.prems by auto
  then have mset: "mset ?m = add_mset e (mset m)"
    by (simp add: insert_unique_def Let_def mset_insert_at)
  then have set: "set ?m = insert e (set m)" by (metis set_mset_add_mset_insert set_mset_mset)
  have "strictly_sorted lt key ?m"
    using Cons.prems by (intro insert_unique_sorted) auto
  moreover have "key ` set ?m \<subseteq> A" "key ` set es \<subseteq> A"
    using set Cons.prems(2,3) by auto
  moreover have "\<forall>d\<in>set es. \<forall>x\<in>set ?m. lt (key x) (key d) \<or> lt (key d) (key x)"
    using set Cons.prems(4,5) by auto
  moreover have "sorted_wrt (\<lambda>x y. lt (key x) (key y) \<or> lt (key y) (key x)) es"
    using Cons.prems(5) by simp
  ultimately have "strictly_sorted lt key (insert_all (insert_unique lt key) es ?m) \<and>
      mset (insert_all (insert_unique lt key) es ?m) = mset ?m + mset es"
    by (rule Cons.IH)
  then show ?case using mset by simp
qed simp

end

lemma string_less_total: "s \<noteq> t \<Longrightarrow> string_less s t \<or> string_less t s"
proof (induction s arbitrary: t)
  case Nil
  then show ?case by (cases t) simp_all
next
  case (Cons c s)
  show ?case
  proof (cases t)
    case (Cons d t')
    have "char_uless c d \<or> char_uless d c" if "c \<noteq> d"
      using that of_char_eq_iff [of c d, where 'a = nat] by (auto simp: char_uless_def simp del: of_char_eq_iff)
    then show ?thesis using Cons Cons.IH [of t'] Cons.prems by auto
  qed simp
qed

end
