(* ===== verification/VariantUuid.thy ===== *)
theory VariantUuid
  imports VariantTypes Numerals Endian
begin

text \<open>
  The text form of a UUID in \<^verbatim>\<open>src/utils/variantConvertMatrix.hpp\<close>: the two overloads of
  \<open>exec\<close> between \<open>String\<close> and \<open>Uuid\<close>.  The first three fields are numbers in memory,
  so their bytes are printed in the order of the machine.
\<close>

subsection \<open>Printing and parsing\<close>

text \<open>\<open>sprintf("%N.Nx")\<close> of a number below \<open>16 ^ N\<close>.\<close>

definition hex_char :: "nat \<Rightarrow> char" where
  "hex_char d = char_of (if d < 10 then 48 + d else 87 + d)"

definition hex_pad :: "nat \<Rightarrow> nat \<Rightarrow> string" where
  "hex_pad n v = map (\<lambda>i. hex_char (v div 16 ^ i mod 16)) (rev [0..<n])"

definition uuid_print :: "host \<Rightarrow> byte list \<Rightarrow> string" where
  "uuid_print h u =
     hex_pad 8 (unat (litEndian32 h (of_mem h (take 4 u)))) @ ''-'' @
     hex_pad 4 (unat (litEndian16 h (of_mem h (take 2 (drop 4 u))))) @ ''-'' @
     hex_pad 4 (unat (litEndian16 h (of_mem h (take 2 (drop 6 u))))) @ ''-'' @
     hex_pad 2 (unat (u ! 8)) @ hex_pad 2 (unat (u ! 9)) @ ''-'' @
     concat (map (\<lambda>i. hex_pad 2 (unat (u ! (10 + i)))) [0..<6])"

function uuid36_loop :: "string \<Rightarrow> nat \<Rightarrow> nat \<Rightarrow> byte list \<Rightarrow> byte list option" where
  "uuid36_loop s i si u =
     (if 16 \<le> i then Some u
      else (let si = (if i \<in> {4, 6, 8, 10} then si + 1 else si);
                d1 = x2n (s ! si); d2 = x2n (s ! (si + 1))
            in if d1 < 0 \<or> d2 < 0 then None
               else uuid36_loop s (i + 1) (si + 2) (u[i := word_of_int (d1 * 16 + d2)])))"
  by pat_completeness auto
termination by (relation "measure (\<lambda>(s, i, si, u). 16 - i)") auto

function uuid32_loop :: "string \<Rightarrow> nat \<Rightarrow> byte list \<Rightarrow> byte list option" where
  "uuid32_loop s i u =
     (if 16 \<le> i then Some u
      else (let d1 = x2n (s ! (i * 2)); d2 = x2n (s ! (i * 2 + 1))
            in if d1 < 0 \<or> d2 < 0 then None
               else uuid32_loop s (i + 1) (u[i := word_of_int (d1 * 16 + d2)])))"
  by pat_completeness auto
termination by (relation "measure (\<lambda>(s, i, u). 16 - i)") auto

declare uuid36_loop.simps [simp del] uuid32_loop.simps [simp del]

definition fix_fields :: "host \<Rightarrow> byte list \<Rightarrow> byte list" where
  "fix_fields h u =
     mem h (call32 h (of_mem h (take 4 u))) @
     mem h (call16 h (of_mem h (take 2 (drop 4 u)))) @
     mem h (call16 h (of_mem h (take 2 (drop 6 u)))) @ drop 8 u"

text \<open>A text of any other size leaves the local \<open>u\<close> as it was created: uninitialised.\<close>

definition uuid_parse :: "platform \<Rightarrow> host \<Rightarrow> string \<Rightarrow> byte list option" where
  "uuid_parse b h s =
     (case (if length s = 36 then uuid36_loop s 0 0 (uuid_garbage b)
            else if length s = 32 then uuid32_loop s 0 (uuid_garbage b)
            else Some (uuid_garbage b)) of
        None \<Rightarrow> None | Some u \<Rightarrow> Some (fix_fields h u))"

lemma x2n_hex_char: "d < 16 \<Longrightarrow> x2n (hex_char d) = int d"
proof -
  assume "d < 16"
  then have "d \<in> set [0..<16]" by simp
  moreover have "\<forall>d\<in>set [0..<16]. x2n (hex_char d) = int d" by code_simp
  ultimately show ?thesis by blast
qed

definition hex_byte :: "byte \<Rightarrow> string" where
  "hex_byte c = [hex_char (unat c div 16), hex_char (unat c mod 16)]"

lemma unat_byte: "unat (c :: byte) < 256"
  using unsigned_less [of c] by simp

lemma hex_pad_2: "hex_pad 2 (unat c) = hex_byte (c :: byte)"
proof -
  have "unat c div 16 mod 16 = unat c div 16"
    using unat_byte [of c] by (intro mod_less) simp
  then show ?thesis
    by (simp add: hex_pad_def hex_byte_def numeral_2_eq_2)
qed

lemma hex_pad_append:
  assumes "hi < 16 ^ m" "lo < 16 ^ n"
  shows "hex_pad (m + n) (hi * 16 ^ n + lo) = hex_pad m hi @ hex_pad n lo"
proof -
  have low: "(hi * 16 ^ n + lo) div 16 ^ i mod 16 = lo div 16 ^ i mod 16" if "i < n" for i
  proof -
    from that obtain k where n: "n = Suc (i + k)" using less_iff_Suc_add by auto
    have "hi * 16 ^ n + lo = lo + 16 ^ i * (hi * 16 ^ k * 16)"
      by (simp add: n power_add)
    moreover have "(lo + 16 ^ i * (hi * 16 ^ k * 16)) div 16 ^ i = hi * 16 ^ k * 16 + lo div 16 ^ i"
      by (rule div_mult_self2) simp
    ultimately show ?thesis by (simp only:) simp
  qed
  have high: "(hi * 16 ^ n + lo) div 16 ^ (n + i) mod 16 = hi div 16 ^ i mod 16" for i
    using assms by (simp add: power_add div_mult2_eq)
  have "rev [0..<m + n] = map (\<lambda>i. n + i) (rev [0..<m]) @ rev [0..<n]"
    using upt_add_eq_append [of 0 n m] map_add_upt [of n m]
    by (simp add: add.commute rev_map [symmetric])
  then show ?thesis by (simp add: hex_pad_def low high)
qed
fun nat_of_le :: "byte list \<Rightarrow> nat" where
  "nat_of_le [] = 0"
| "nat_of_le (c # bs) = unat c + 256 * nat_of_le bs"

lemma nat_of_le_less: "nat_of_le bs < 256 ^ length bs"
proof (induction bs)
  case (Cons c bs)
  then show ?case using unat_byte [of c] by simp
qed simp

lemma bit_byte_split: "bit (m :: nat) i \<longleftrightarrow> (if i < 8 then bit (m mod 256) i else bit (m div 256) (i - 8))"
proof -
  have "m mod 256 = take_bit 8 m" "m div 256 = drop_bit 8 m"
    by (simp_all add: take_bit_eq_mod drop_bit_eq_div)
  then show ?thesis by (simp add: bit_take_bit_iff bit_drop_bit_eq)
qed

lemma bit_nat_of_le:
  "bit (nat_of_le bs) i \<longleftrightarrow> i < 8 * length bs \<and> bit (bs ! (i div 8)) (i mod 8)"
proof (induction bs arbitrary: i)
  case (Cons c bs)
  have m: "nat_of_le (c # bs) mod 256 = unat c" "nat_of_le (c # bs) div 256 = nat_of_le bs"
    using unat_byte [of c] by simp_all
  show ?case
  proof (cases "i < 8")
    case True
    then show ?thesis
      using bit_byte_split [of "nat_of_le (c # bs)" i] by (simp only: m) (simp add: bit_unsigned_iff)
  next
    case False
    then have "i div 8 = Suc ((i - 8) div 8)" "i mod 8 = (i - 8) mod 8"
      by (simp_all add: le_div_geq le_mod_geq)
    then show ?thesis
      using False bit_byte_split [of "nat_of_le (c # bs)" i] Cons.IH [of "i - 8"]
      by (simp only: m) auto
  qed
qed simp

lemma unat_of_le:
  assumes "8 * length bs \<le> LENGTH('a)"
  shows "unat (of_le bs :: 'a::len word) = nat_of_le bs"
  by (rule bit_eqI) (use assms in \<open>auto simp: bit_unsigned_iff bit_of_le bit_nat_of_le\<close>)

lemma hex_pad_bytes: "hex_pad (2 * length bs) (nat_of_le bs) = concat (map hex_byte (rev bs))"
proof (induction bs)
  case Nil
  show ?case by (simp add: hex_pad_def)
next
  case (Cons c bs)
  have "hex_pad (2 * length bs + 2) (nat_of_le bs * 16 ^ 2 + unat c) =
      hex_pad (2 * length bs) (nat_of_le bs) @ hex_pad 2 (unat c)"
    by (rule hex_pad_append) (use nat_of_le_less [of bs] unat_byte [of c] in \<open>simp_all add: power_mult\<close>)
  moreover have "2 * length (c # bs) = 2 * length bs + 2"
    "nat_of_le (c # bs) = nat_of_le bs * 16 ^ 2 + unat c" by simp_all
  ultimately show ?case by (simp only: Cons.IH hex_pad_2) simp
qed

lemma hex_pad_of_le:
  assumes "8 * length bs = LENGTH('a)"
  shows "hex_pad (2 * length bs) (unat (of_le bs :: 'a::len word)) = concat (map hex_byte (rev bs))"
  using assms by (simp add: unat_of_le hex_pad_bytes)

lemma list16:
  assumes "length u = 16"
  obtains a0 a1 a2 a3 a4 a5 a6 a7 a8 a9 a10 a11 a12 a13 a14 a15
  where "u = [a0, a1, a2, a3, a4, a5, a6, a7, a8, a9, a10, a11, a12, a13, a14, a15]"
  using assms by (auto simp: numeral_eq_Suc length_Suc_conv)

text \<open>The order in which the bytes of a UUID are printed.\<close>

definition print_order :: "host \<Rightarrow> byte list \<Rightarrow> byte list" where
  "print_order h u =
     (if h = LittleHost
      then rev (take 4 u) @ rev (take 2 (drop 4 u)) @ rev (take 2 (drop 6 u)) @ drop 8 u else u)"

definition dashed :: "byte list \<Rightarrow> string" where
  "dashed u = concat (map hex_byte (take 4 u)) @ ''-'' @ concat (map hex_byte (take 2 (drop 4 u)))
     @ ''-'' @ concat (map hex_byte (take 2 (drop 6 u))) @ ''-'' @
     concat (map hex_byte (take 2 (drop 8 u))) @ ''-'' @ concat (map hex_byte (drop 10 u))"

lemma uuid_print_dashed:
  assumes "length u = 16"
  shows "uuid_print h u = dashed (print_order h u)"
proof -
  from assms obtain a0 a1 a2 a3 a4 a5 a6 a7 a8 a9 a10 a11 a12 a13 a14 a15
    where u: "u = [a0, a1, a2, a3, a4, a5, a6, a7, a8, a9, a10, a11, a12, a13, a14, a15]"
    by (rule list16)
  have 4: "hex_pad 8 (unat (of_le [a, b, c, d] :: u32)) = concat (map hex_byte [d, c, b, a])" for a b c d
    using hex_pad_of_le [of "[a, b, c, d]", where 'a = 32] by simp
  have 2: "hex_pad 4 (unat (of_le [a, b] :: u16)) = concat (map hex_byte [b, a])" for a b
    using hex_pad_of_le [of "[a, b]", where 'a = 16] by simp
  show ?thesis
    by (cases h) (simp_all add: u uuid_print_def dashed_def print_order_def 4 2 hex_pad_2
        upt_conv_Cons del: of_le.simps)
qed
lemma x2n_hex_byte:
  "x2n (hex_char (unat (c :: byte) div 16)) = int (unat c div 16)"
  "x2n (hex_char (unat c mod 16)) = int (unat c mod 16)"
  by (rule x2n_hex_char; use unat_byte [of c] in simp)+

lemma byte_of_nibbles: "word_of_nat (unat (c :: byte) div 16) * 16 + word_of_nat (unat c mod 16) = c"
proof -
  have "word_of_nat (unat c div 16 * 16 + unat c mod 16) = c" by simp
  then show ?thesis by (simp only: of_nat_add of_nat_mult of_nat_numeral)
qed

lemma uuid36_dashed:
  assumes "length u = 16" "length g = 16"
  shows "uuid36_loop (dashed u) 0 0 g = Some u"
proof -
  from assms(1) obtain a0 a1 a2 a3 a4 a5 a6 a7 a8 a9 a10 a11 a12 a13 a14 a15
    where u: "u = [a0, a1, a2, a3, a4, a5, a6, a7, a8, a9, a10, a11, a12, a13, a14, a15]"
    by (rule list16)
  from assms(2) obtain b0 b1 b2 b3 b4 b5 b6 b7 b8 b9 b10 b11 b12 b13 b14 b15
    where g: "g = [b0, b1, b2, b3, b4, b5, b6, b7, b8, b9, b10, b11, b12, b13, b14, b15]"
    by (rule list16)
  show ?thesis
    unfolding u g dashed_def
    by (simp add: uuid36_loop.simps hex_byte_def x2n_hex_byte byte_of_nibbles)
qed
lemma fix_fields_print_order:
  assumes "length u = 16"
  shows "fix_fields h (print_order h u) = u"
proof -
  from assms obtain a0 a1 a2 a3 a4 a5 a6 a7 a8 a9 a10 a11 a12 a13 a14 a15
    where u: "u = [a0, a1, a2, a3, a4, a5, a6, a7, a8, a9, a10, a11, a12, a13, a14, a15]"
    by (rule list16)
  show ?thesis
    by (cases h) (simp_all add: u fix_fields_def print_order_def call_of_le le_bytes_of_le
        del: of_le.simps)
qed

subsection \<open>Properties\<close>

text \<open>
  A UUID converted to a string and back is the same, on machines of either byte order.
\<close>

theorem uuid_roundtrip:
  assumes "length u = 16" and "length (uuid_garbage b) = 16"
  shows "uuid_parse b h (uuid_print h u) = Some u"
proof -
  have len: "length (print_order h u) = 16" using assms(1) by (simp add: print_order_def)
  have "length (dashed v) = 36" if "length v = 16" for v
    using that by (rule list16) (simp add: dashed_def hex_byte_def)
  then show ?thesis
    using uuid36_dashed [OF len assms(2)] len
    by (simp add: uuid_parse_def uuid_print_dashed [OF assms(1)] fix_fields_print_order [OF assms(1)])
qed

theorem uuid_roundtrip_witness:
  "uuid_parse sample_platform BigHost (uuid_print BigHost (replicate 16 0xA5)) =
     Some (replicate 16 0xA5)"
  by (rule uuid_roundtrip) (simp_all add: sample_platform_def)

end
