(* ===== verification/VariantConvert.thy ===== *)
theory VariantConvert
  imports VariantUuid Containers "HOL-Library.Log_Nat"
begin

text \<open>
  \<^verbatim>\<open>src/utils/variantConvertMatrix.hpp\<close>: the conversions between the types of a
  variant, and the functions of \<^verbatim>\<open>src/utils/variant.cpp\<close> that use them.  An overload
  \<open>exec(Dst &dst, const Src &src)\<close> is a row of the function \<open>exec\<close>: it takes the type
  wanted, the old value of the destination and the value to convert, and returns the
  code's boolean and the new value of the destination.  What \<open>boost::lexical_cast\<close>,
  Boost's calendar and the stream operators compute is a parameter.
\<close>

subsection \<open>Floating point numbers as bit patterns\<close>

text \<open>
  \<open>mb\<close> and \<open>eb\<close> are the widths of mantissa and exponent.  A finite number is its sign,
  a natural number and a power of two to divide it by.
\<close>

definition fp_exp :: "nat \<Rightarrow> nat \<Rightarrow> nat \<Rightarrow> nat" where
  "fp_exp mb eb w = w div 2 ^ mb mod 2 ^ eb"

definition fp_man :: "nat \<Rightarrow> nat \<Rightarrow> nat" where
  "fp_man mb w = w mod 2 ^ mb"

definition fp_sign :: "nat \<Rightarrow> nat \<Rightarrow> nat \<Rightarrow> bool" where
  "fp_sign mb eb w \<longleftrightarrow> odd (w div 2 ^ (mb + eb))"

definition fp_special :: "nat \<Rightarrow> nat \<Rightarrow> nat \<Rightarrow> bool" where
  "fp_special mb eb w \<longleftrightarrow> fp_exp mb eb w = 2 ^ eb - 1"

definition fp_num :: "nat \<Rightarrow> nat \<Rightarrow> nat \<Rightarrow> nat" where
  "fp_num mb eb w =
     (if fp_exp mb eb w = 0 then 2 * fp_man mb w
      else (2 ^ mb + fp_man mb w) * 2 ^ fp_exp mb eb w)"

definition fp_scale :: "nat \<Rightarrow> nat \<Rightarrow> nat" where
  "fp_scale mb eb = 2 ^ (eb - 1) - 1 + mb"

text \<open>Conversion to an integer drops the fraction; NaN and infinities have no integer.\<close>

definition fp_trunc :: "nat \<Rightarrow> nat \<Rightarrow> nat \<Rightarrow> int option" where
  "fp_trunc mb eb w =
     (if fp_special mb eb w then None
      else Some ((if fp_sign mb eb w then - 1 else 1) *
                 int (fp_num mb eb w div 2 ^ fp_scale mb eb)))"

definition round_even :: "nat \<Rightarrow> nat \<Rightarrow> nat" where
  "round_even n d =
     (if 2 * (n mod d) > d \<or> (2 * (n mod d) = d \<and> odd (n div d)) then n div d + 1 else n div d)"

text \<open>The number \<open>n / 2 ^ sc\<close> rounded to nearest, ties to even.\<close>

definition fp_encode :: "nat \<Rightarrow> nat \<Rightarrow> bool \<Rightarrow> nat \<Rightarrow> nat \<Rightarrow> nat" where
  "fp_encode mb eb s n sc =
     (let sign = if s then 2 ^ (mb + eb) else 0;
          emin = 2 - 2 ^ (eb - 1) :: int;
          ex = max (int (floorlog 2 n) - 1 - int sc) emin;
          q = ex - int mb + int sc;
          r = if q \<le> 0 then n * 2 ^ nat (- q) else round_even n (2 ^ nat q);
          bits = nat (ex - emin) * 2 ^ mb + r;
          inf = (2 ^ eb - 1) * 2 ^ mb
      in if n = 0 then sign else sign + min bits inf)"

definition fp_of_int :: "nat \<Rightarrow> nat \<Rightarrow> int \<Rightarrow> nat" where
  "fp_of_int mb eb i = fp_encode mb eb (i < 0) (nat \<bar>i\<bar>) 0"

text \<open>Between the formats: a NaN is made quiet and keeps the high bits of its mantissa.\<close>

definition f32_to_f64 :: "u32 \<Rightarrow> u64" where
  "f32_to_f64 w =
     (let u = unat w; sign = if fp_sign 23 8 u then 2 ^ 63 else 0 in
      if fp_special 23 8 u then
        (if fp_man 23 u = 0 then word_of_nat (sign + 0x7FF * 2 ^ 52)
         else word_of_nat (sign + 0x7FF * 2 ^ 52) OR word_of_nat (fp_man 23 u * 2 ^ 29) OR 2 ^ 51)
      else word_of_nat (fp_encode 52 11 (fp_sign 23 8 u) (fp_num 23 8 u) (fp_scale 23 8)))"

definition f64_to_f32 :: "u64 \<Rightarrow> u32" where
  "f64_to_f32 w =
     (let u = unat w; sign = if fp_sign 52 11 u then 2 ^ 31 else 0 in
      if fp_special 52 11 u then
        (if fp_man 52 u = 0 then word_of_nat (sign + 0xFF * 2 ^ 23)
         else word_of_nat (sign + 0xFF * 2 ^ 23) OR word_of_nat (fp_man 52 u div 2 ^ 29) OR 2 ^ 22)
      else word_of_nat (fp_encode 23 8 (fp_sign 52 11 u) (fp_num 52 11 u) (fp_scale 52 11)))"

subsection \<open>Numbers\<close>

datatype cerror = UndefinedCast | Thrown verror | OutOfFuel | Unmodelled | ArrayUnderflow

type_synonym 'a cresult = "cerror + 'a"

datatype num = NInt int | NF u32 | ND u64

fun num_of :: "scalar \<Rightarrow> num option" where
  "num_of (Bool x) = Some (NInt (if x then 1 else 0))"
| "num_of (Char x) = Some (NInt (sint (byte_of x)))"
| "num_of (Int8 x) = Some (NInt (sint x))"
| "num_of (Int16 x) = Some (NInt (sint x))"
| "num_of (Int32 x) = Some (NInt (sint x))"
| "num_of (Int64 x) = Some (NInt (sint x))"
| "num_of (UInt8 x) = Some (NInt (uint x))"
| "num_of (UInt16 x) = Some (NInt (uint x))"
| "num_of (UInt32 x) = Some (NInt (uint x))"
| "num_of (UInt64 x) = Some (NInt (uint x))"
| "num_of (Float x) = Some (NF x)"
| "num_of (Double x) = Some (ND x)"
| "num_of _ = None"

text \<open>
  The integer a number is converted to: an integer as it is, to be reduced by the target
  type; a floating point number must fit the target after truncation.
\<close>

fun int_in :: "int \<Rightarrow> int \<Rightarrow> num \<Rightarrow> int cresult" where
  "int_in lo hi (NInt i) = Inr i"
| "int_in lo hi (NF w) = (case fp_trunc 23 8 (unat w) of
     None \<Rightarrow> Inl UndefinedCast | Some i \<Rightarrow> if lo \<le> i \<and> i \<le> hi then Inr i else Inl UndefinedCast)"
| "int_in lo hi (ND w) = (case fp_trunc 52 11 (unat w) of
     None \<Rightarrow> Inl UndefinedCast | Some i \<Rightarrow> if lo \<le> i \<and> i \<le> hi then Inr i else Inl UndefinedCast)"

fun num_true :: "num \<Rightarrow> bool" where
  "num_true (NInt i) \<longleftrightarrow> i \<noteq> 0"
| "num_true (NF w) \<longleftrightarrow> w AND 0x7FFFFFFF \<noteq> 0"
| "num_true (ND w) \<longleftrightarrow> w AND 0x7FFFFFFFFFFFFFFF \<noteq> 0"

fun num_f32 :: "num \<Rightarrow> u32" where
  "num_f32 (NInt i) = word_of_nat (fp_of_int 23 8 i)"
| "num_f32 (NF w) = w"
| "num_f32 (ND w) = f64_to_f32 w"

fun num_f64 :: "num \<Rightarrow> u64" where
  "num_f64 (NInt i) = word_of_nat (fp_of_int 52 11 i)"
| "num_f64 (NF w) = f32_to_f64 w"
| "num_f64 (ND w) = w"

definition map_result :: "('a \<Rightarrow> 'b) \<Rightarrow> 'a cresult \<Rightarrow> 'b cresult" where
  "map_result f r = (case r of Inl e \<Rightarrow> Inl e | Inr x \<Rightarrow> Inr (f x))"

fun number_type :: "etype \<Rightarrow> bool" where
  "number_type e \<longleftrightarrow> e \<in> {etBool, etChar, etInt8, etInt16, etInt32, etInt64, etUInt8, etUInt16,
     etUInt32, etUInt64, etFloat, etDouble}"

fun cast_num :: "etype \<Rightarrow> num \<Rightarrow> scalar cresult" where
  "cast_num etBool n = Inr (Bool (num_true n))"
| "cast_num etChar n = map_result (\<lambda>i. Char (char_at (word_of_int i))) (int_in (- (2 ^ 7)) (2 ^ 7 - 1) n)"
| "cast_num etInt8 n = map_result (\<lambda>i. Int8 (word_of_int i)) (int_in (- (2 ^ 7)) (2 ^ 7 - 1) n)"
| "cast_num etInt16 n = map_result (\<lambda>i. Int16 (word_of_int i)) (int_in (- (2 ^ 15)) (2 ^ 15 - 1) n)"
| "cast_num etInt32 n = map_result (\<lambda>i. Int32 (word_of_int i)) (int_in (- (2 ^ 31)) (2 ^ 31 - 1) n)"
| "cast_num etInt64 n = map_result (\<lambda>i. Int64 (word_of_int i)) (int_in (- (2 ^ 63)) (2 ^ 63 - 1) n)"
| "cast_num etUInt8 n = map_result (\<lambda>i. UInt8 (word_of_int i)) (int_in 0 (2 ^ 8 - 1) n)"
| "cast_num etUInt16 n = map_result (\<lambda>i. UInt16 (word_of_int i)) (int_in 0 (2 ^ 16 - 1) n)"
| "cast_num etUInt32 n = map_result (\<lambda>i. UInt32 (word_of_int i)) (int_in 0 (2 ^ 32 - 1) n)"
| "cast_num etUInt64 n = map_result (\<lambda>i. UInt64 (word_of_int i)) (int_in 0 (2 ^ 64 - 1) n)"
| "cast_num etFloat n = Inr (Float (num_f32 n))"
| "cast_num etDouble n = Inr (Double (num_f64 n))"
| "cast_num _ n = Inl Unmodelled"

subsection \<open>Bitsets\<close>

text \<open>A bitset is its size and its \<open>test\<close> function; \<open>put_bits\<close> builds one of a type.\<close>

fun bits_of :: "scalar \<Rightarrow> (nat \<times> (nat \<Rightarrow> bool)) option" where
  "bits_of (Bitset8 w) = Some (8, bit w)"
| "bits_of (Bitset16 w) = Some (16, bit w)"
| "bits_of (Bitset32 w) = Some (32, bit w)"
| "bits_of (Bitset64 w) = Some (64, bit w)"
| "bits_of (Bitset128 w) = Some (128, bit w)"
| "bits_of (Bitset256 w) = Some (256, bit w)"
| "bits_of (Bitset512 w) = Some (512, bit w)"
| "bits_of _ = None"

fun put_bits :: "etype \<Rightarrow> nat \<Rightarrow> (nat \<Rightarrow> bool) \<Rightarrow> scalar option" where
  "put_bits etBitset8 n f = Some (Bitset8 (word_of_bits (min 8 n) f))"
| "put_bits etBitset16 n f = Some (Bitset16 (word_of_bits (min 16 n) f))"
| "put_bits etBitset32 n f = Some (Bitset32 (word_of_bits (min 32 n) f))"
| "put_bits etBitset64 n f = Some (Bitset64 (word_of_bits (min 64 n) f))"
| "put_bits etBitset128 n f = Some (Bitset128 (word_of_bits (min 128 n) f))"
| "put_bits etBitset256 n f = Some (Bitset256 (word_of_bits (min 256 n) f))"
| "put_bits etBitset512 n f = Some (Bitset512 (word_of_bits (min 512 n) f))"
| "put_bits _ n f = None"

text \<open>\<open>sizeof(Int)\<close>, which the code uses as the number of bits of the integer.\<close>

fun int_size :: "etype \<Rightarrow> nat option" where
  "int_size etChar = Some 1"
| "int_size etInt8 = Some 1"
| "int_size etInt16 = Some 2"
| "int_size etInt32 = Some 4"
| "int_size etInt64 = Some 8"
| "int_size etUInt8 = Some 1"
| "int_size etUInt16 = Some 2"
| "int_size etUInt32 = Some 4"
| "int_size etUInt64 = Some 8"
| "int_size _ = None"

text \<open>\<open>bs2int\<close>: the bits of the source are or-ed into a zero of the target type.\<close>

definition bs2int :: "etype \<Rightarrow> nat \<times> (nat \<Rightarrow> bool) \<Rightarrow> scalar cresult" where
  "bs2int e s =
     (if e = etBool then Inr (Bool (snd s 0))
      else (case int_size e of
          None \<Rightarrow> Inl Unmodelled
        | Some k \<Rightarrow> cast_num e (NInt (horner_sum of_bool 2 (map (snd s) [0..<min k (fst s)])))))"

text \<open>\<open>int2bs\<close>: bit \<open>i\<close> is \<open>src & (Int(1) << i)\<close>; of a boolean only bit 0 is set.\<close>

definition int2bs :: "etype \<Rightarrow> scalar \<Rightarrow> scalar option" where
  "int2bs e s = (case num_of s of
     Some (NInt i) \<Rightarrow>
       (case s of
          Bool x \<Rightarrow> put_bits e 1 (\<lambda>j. x)
        | _ \<Rightarrow> (case int_size (scalar_type s) of
             None \<Rightarrow> None
           | Some k \<Rightarrow> put_bits e k (bit i)))
   | _ \<Rightarrow> None)"

subsection \<open>The conversion matrix\<close>

text \<open>
  What the code calls: the texts of \<open>boost::lexical_cast\<close> (\<open>None\<close> where it throws), the
  stream operators of durations, Boost's conversions from and to \<open>std::tm\<close> (\<open>None\<close> where
  they throw \<open>std::out_of_range\<close>), and what an uninitialised local variable of a type holds.
\<close>

record convlib =
  lex_print :: "scalar \<Rightarrow> string option"
  lex_parse :: "etype \<Rightarrow> string \<Rightarrow> scalar option"
  dtd_print :: "dduration \<Rightarrow> tduration \<Rightarrow> string"
  dtd_parse :: "string \<Rightarrow> dduration \<times> tduration \<Rightarrow> dduration \<times> tduration"
  date_of_tm :: "tm \<Rightarrow> date option"
  ptime_of_tm :: "tm \<Rightarrow> ptime option"
  tm_of_date :: "date \<Rightarrow> tm option"
  tm_of_ptime :: "ptime \<Rightarrow> tm option"
  stack_value :: "etype \<Rightarrow> scalar option"

definition tm_zero :: tm where
  "tm_zero = \<lparr>tm_sec = 0, tm_min = 0, tm_hour = 0, tm_mday = 0, tm_mon = 0, tm_year = 0,
     tm_wday = 0, tm_yday = 0, tm_isdst = 0\<rparr>"

text \<open>One instance of the library, for the witnesses: truth values are text, the rest fails.\<close>

definition sample_lib :: convlib where
  "sample_lib = \<lparr>
     lex_print = (\<lambda>s. case s of Bool x \<Rightarrow> Some (if x then ''1'' else ''0'') | _ \<Rightarrow> None),
     lex_parse = (\<lambda>e t. if e = etBool then map_option (\<lambda>x. Bool (x = ''1''))
                          (if t \<in> {''0'', ''1''} then Some t else None) else None),
     dtd_print = (\<lambda>d t. []), dtd_parse = (\<lambda>s x. x),
     date_of_tm = (\<lambda>t. None), ptime_of_tm = (\<lambda>t. None),
     tm_of_date = (\<lambda>d. Some tm_zero), tm_of_ptime = (\<lambda>p. Some tm_zero),
     stack_value = (\<lambda>e. None)\<rparr>"

text \<open>\<open>T()\<close> as an expression, and \<open>T x;\<close> as a declaration.\<close>

definition value_init :: "platform \<Rightarrow> etype \<Rightarrow> payload cresult" where
  "value_init b e =
     (if e = etTm then Inr (Scalar (Tm tm_zero))
      else if e = etUuid then Inr (Scalar (Uuid (replicate 16 0)))
      else (case default_payload b e of None \<Rightarrow> Inl (Thrown BadCast) | Some p \<Rightarrow> Inr p))"

definition declared :: "convlib \<Rightarrow> platform \<Rightarrow> etype \<Rightarrow> payload cresult" where
  "declared L b e =
     (if number_type e \<or> e = etTm \<or> e = etUuid then
        (case stack_value L e of
           Some s \<Rightarrow> if scalar_type s = e then Inr (Scalar s) else value_init b e
         | None \<Rightarrow> value_init b e)
      else value_init b e)"

definition bind_result :: "'a cresult \<Rightarrow> ('a \<Rightarrow> 'b cresult) \<Rightarrow> 'b cresult" where
  "bind_result r f = (case r of Inl e \<Rightarrow> Inl e | Inr x \<Rightarrow> f x)"

fun map_results :: "('a \<Rightarrow> 'b cresult) \<Rightarrow> 'a list \<Rightarrow> 'b list cresult" where
  "map_results f [] = Inr []"
| "map_results f (x # xs) =
     bind_result (f x) (\<lambda>y. bind_result (map_results f xs) (\<lambda>ys. Inr (y # ys)))"

definition converted :: "scalar \<Rightarrow> (bool \<times> payload) cresult" where
  "converted s = Inr (True, Scalar s)"

text \<open>\<open>SOME2STRING\<close>, both ways.\<close>

definition print_scalar :: "convlib \<Rightarrow> scalar \<Rightarrow> (bool \<times> payload) cresult" where
  "print_scalar L s = (case lex_print L s of
     Some t \<Rightarrow> converted (String t) | None \<Rightarrow> converted (String []))"

definition parse_scalar :: "convlib \<Rightarrow> platform \<Rightarrow> etype \<Rightarrow> string \<Rightarrow> (bool \<times> payload) cresult" where
  "parse_scalar L b e t =
     (if t = [] then map_result (Pair True) (value_init b e)
      else (case lex_parse L e t of
          Some s \<Rightarrow> converted s | None \<Rightarrow> map_result (Pair True) (value_init b e)))"

definition lexical_types :: "etype list" where
  "lexical_types = [etChar, etInt8, etInt16, etInt32, etInt64, etUInt8, etUInt16, etUInt32, etUInt64,
     etFloat, etDouble, etDate, etDatetime, etBool, etBitset8, etBitset16, etBitset32, etBitset64,
     etBitset128, etBitset256, etBitset512, etDateDuration, etTimeDuration]"

text \<open>The calendar conversions: out of range gives the default value.\<close>

definition date_from_tm :: "convlib \<Rightarrow> platform \<Rightarrow> tm \<Rightarrow> date" where
  "date_from_tm L b t = (case date_of_tm L t of Some d \<Rightarrow> d | None \<Rightarrow> date_default b)"

definition ptime_from_tm :: "convlib \<Rightarrow> platform \<Rightarrow> tm \<Rightarrow> ptime" where
  "ptime_from_tm L b t = (case ptime_of_tm L t of Some d \<Rightarrow> d | None \<Rightarrow> ptime_default b)"

definition tm_from :: "tm option \<Rightarrow> tm" where
  "tm_from r = (case r of Some t \<Rightarrow> t | None \<Rightarrow> tm_zero)"

text \<open>The second steps of the two overloads that convert a string by way of another type.\<close>

fun tm_of_payload :: "convlib \<Rightarrow> payload \<Rightarrow> payload \<Rightarrow> (bool \<times> payload) cresult" where
  "tm_of_payload L d0 (Scalar (Datetime p)) = converted (Tm (tm_from (tm_of_ptime L p)))"
| "tm_of_payload L d0 _ = Inr (False, d0)"

fun dtd_of_payload :: "convlib \<Rightarrow> string \<Rightarrow> payload \<Rightarrow> (bool \<times> payload) cresult" where
  "dtd_of_payload L t (Scalar (DateTimeDuration dd td)) =
     (case dtd_parse L t (dd, td) of (dd', td') \<Rightarrow> converted (DateTimeDuration dd' td'))"
| "dtd_of_payload L t d0 = Inr (False, d0)"

definition exec_string ::
  "convlib \<Rightarrow> platform \<Rightarrow> host \<Rightarrow> etype \<Rightarrow> payload \<Rightarrow> string \<Rightarrow> (bool \<times> payload) cresult" where
  "exec_string L b h e d0 t =
     (if e = etString then converted (String t)
      else if e = etVectorChar then converted (VectorChar t)
      else if e \<in> set lexical_types then parse_scalar L b e t
      else if e = etTm then
        bind_result (parse_scalar L b etDatetime t) (\<lambda>r. tm_of_payload L d0 (snd r))
      else if e = etDateTimeDuration then dtd_of_payload L t d0
      else if e = etUuid then
        (case uuid_parse b h t of None \<Rightarrow> Inr (False, d0) | Some u \<Rightarrow> converted (Uuid u))
      else Inr (False, d0))"

fun exec_other ::
  "convlib \<Rightarrow> platform \<Rightarrow> host \<Rightarrow> etype \<Rightarrow> payload \<Rightarrow> scalar \<Rightarrow> (bool \<times> payload) cresult" where
  "exec_other L b h e d0 (String t) = exec_string L b h e d0 t"
| "exec_other L b h e d0 (VectorChar t) =
     (if number_type e then
        map_result (\<lambda>x. (True, Scalar x)) (cast_num e (NInt (int (length t) mod 2 ^ 64)))
      else if e = etString then converted (String t)
      else if e = etVectorChar then converted (VectorChar t) else Inr (False, d0))"
| "exec_other L b h e d0 (Date d) =
     (if e = etDate then converted (Date d)
      else if e = etDatetime then converted (Datetime (ptime_make b d (td_make b 0)))
      else if e = etTm then converted (Tm (tm_from (tm_of_date L d)))
      else if e = etString then print_scalar L (Date d) else Inr (False, d0))"
| "exec_other L b h e d0 (Datetime p) =
     (if e = etDatetime then converted (Datetime p)
      else if e = etDate then converted (Date (ptime_date b p))
      else if e = etTm then converted (Tm (tm_from (tm_of_ptime L p)))
      else if e = etString then print_scalar L (Datetime p) else Inr (False, d0))"
| "exec_other L b h e d0 (Tm t) =
     (if e = etTm then converted (Tm t)
      else if e = etDate then converted (Date (date_from_tm L b t))
      else if e = etDatetime then converted (Datetime (ptime_from_tm L b t))
      else if e = etString then print_scalar L (Datetime (ptime_from_tm L b t))
      else Inr (False, d0))"
| "exec_other L b h e d0 (DateDuration d) =
     (if e = etDateDuration then converted (DateDuration d)
      else if e = etDateTimeDuration then converted (DateTimeDuration d (td_default b))
      else if e = etString then print_scalar L (DateDuration d) else Inr (False, d0))"
| "exec_other L b h e d0 (TimeDuration t) =
     (if e = etTimeDuration then converted (TimeDuration t)
      else if e = etDateTimeDuration then converted (DateTimeDuration (dd_default b) t)
      else if e = etString then print_scalar L (TimeDuration t) else Inr (False, d0))"
| "exec_other L b h e d0 (DateTimeDuration d t) =
     (if e = etDateTimeDuration then converted (DateTimeDuration d t)
      else if e = etDateDuration then converted (DateDuration d)
      else if e = etTimeDuration then converted (TimeDuration t)
      else if e = etString then converted (String (dtd_print L d t)) else Inr (False, d0))"
| "exec_other L b h e d0 (Uuid u) =
     (if e = etUuid then converted (Uuid u)
      else if e = etString then converted (String (uuid_print h u)) else Inr (False, d0))"
| "exec_other L b h e d0 s = Inr (False, d0)"

definition exec_scalar ::
  "convlib \<Rightarrow> platform \<Rightarrow> host \<Rightarrow> etype \<Rightarrow> payload \<Rightarrow> scalar \<Rightarrow> (bool \<times> payload) cresult" where
  "exec_scalar L b h e d0 s =
     (case num_of s of
        Some n \<Rightarrow>
          (if number_type e then map_result (\<lambda>x. (True, Scalar x)) (cast_num e n)
           else if e = etString then print_scalar L s
           else (case int2bs e s of Some x \<Rightarrow> converted x | None \<Rightarrow> Inr (False, d0)))
      | None \<Rightarrow> (case bits_of s of
          Some w \<Rightarrow> (case put_bits e (fst w) (snd w) of
              Some x \<Rightarrow> converted x
            | None \<Rightarrow>
                (if e = etString then print_scalar L s
                 else if e = etBool \<or> int_size e \<noteq> None
                   then map_result (\<lambda>x. (True, Scalar x)) (bs2int e w)
                 else Inr (False, d0)))
        | None \<Rightarrow> exec_other L b h e d0 s))"

subsection \<open>Containers\<close>

fun seq_kind :: "etype \<Rightarrow> seqkind option" where
  "seq_kind etVectorVariant = Some VectorK"
| "seq_kind etSetVariant = Some SetK"
| "seq_kind etMultisetVariant = Some MultisetK"
| "seq_kind etDequeVariant = Some DequeK"
| "seq_kind etListVariant = Some ListK"
| "seq_kind _ = None"

fun smap_kind :: "etype \<Rightarrow> mapkind option" where
  "smap_kind etMapStringVariant = Some MapK"
| "smap_kind etMultimapStringVariant = Some MultimapK"
| "smap_kind _ = None"

fun vmap_kind :: "etype \<Rightarrow> mapkind option" where
  "vmap_kind etMapVariantVariant = Some MapK"
| "vmap_kind etMultimapVariantVariant = Some MultimapK"
| "vmap_kind _ = None"

text \<open>
  Elements copied into a cleared sequence: appended, or inserted into a set.  In a
  vector, deque or list \<open>std::inserter\<close> appends, too.
\<close>

fun fill_seq :: "platform \<Rightarrow> seqkind \<Rightarrow> variant list \<Rightarrow> variant list" where
  "fill_seq b SetK xs = copy_in (insert_unique (less_v b) id) xs 0 []"
| "fill_seq b MultisetK xs = copy_in (insert_multi (less_v b) id) xs 0 []"
| "fill_seq b _ xs = xs"

fun fill_smap :: "mapkind \<Rightarrow> (string \<times> variant) list \<Rightarrow> (string \<times> variant) list" where
  "fill_smap MapK m = copy_in (insert_unique string_less fst) m 0 []"
| "fill_smap MultimapK m = copy_in (insert_multi string_less fst) m 0 []"

fun fill_vmap :: "platform \<Rightarrow> mapkind \<Rightarrow> (variant \<times> variant) list \<Rightarrow> (variant \<times> variant) list" where
  "fill_vmap b MapK m = copy_in (insert_unique (less_v b) fst) m 0 []"
| "fill_vmap b MultimapK m = copy_in (insert_multi (less_v b) fst) m 0 []"

text \<open>
  \<open>Assoc2SeqHelper::bwd\<close>: element \<open>i\<close> goes under the decimal text of \<open>i\<close>, which the printer
  for \<open>unsigned long\<close> writes.  \<open>insert\<close> without a hint puts an element after its equals.
\<close>

fun numbered :: "nat \<Rightarrow> variant list \<Rightarrow> (string \<times> variant) list cresult" where
  "numbered i [] = Inr []"
| "numbered i (x # xs) = (case ntoa_ulong (word_of_nat i) of
     None \<Rightarrow> Inl ArrayUnderflow
   | Some k \<Rightarrow> bind_result (numbered (Suc i) xs) (\<lambda>m. Inr ((k, x) # m)))"

definition string_key :: "string \<times> variant \<Rightarrow> variant \<times> variant" where
  "string_key p = (VVal (Scalar (String (fst p))), snd p)"

definition exec_seq ::
  "platform \<Rightarrow> etype \<Rightarrow> payload \<Rightarrow> seqkind \<Rightarrow> variant list \<Rightarrow> (bool \<times> payload) cresult" where
  "exec_seq b e d0 k xs =
     (if number_type e then
        map_result (\<lambda>x. (True, Scalar x)) (cast_num e (NInt (int (length xs) mod 2 ^ 64)))
      else (case seq_kind e of
          Some k' \<Rightarrow> Inr (True, Seq k' (if k' = k then xs else fill_seq b k' xs))
        | None \<Rightarrow> (case smap_kind e of
            Some MapK \<Rightarrow> map_result
              (\<lambda>m. (True, SMap MapK (insert_all (insert_unique string_less fst) m []))) (numbered 0 xs)
          | Some MultimapK \<Rightarrow> map_result
              (\<lambda>m. (True, SMap MultimapK (insert_all (insert_multi string_less fst) m []))) (numbered 0 xs)
          | None \<Rightarrow> (case vmap_kind e of
              Some MapK \<Rightarrow> map_result
                (\<lambda>m. (True, VMap MapK (insert_all (insert_unique (less_v b) fst) (map string_key m) [])))
                (numbered 0 xs)
            | Some MultimapK \<Rightarrow> map_result
                (\<lambda>m. (True, VMap MultimapK (insert_all (insert_multi (less_v b) fst) (map string_key m) [])))
                (numbered 0 xs)
            | None \<Rightarrow> Inr (False, d0)))))"

definition exec_smap ::
  "platform \<Rightarrow> etype \<Rightarrow> payload \<Rightarrow> mapkind \<Rightarrow> (string \<times> variant) list \<Rightarrow> (bool \<times> payload) cresult" where
  "exec_smap b e d0 k m =
     (if number_type e then
        map_result (\<lambda>x. (True, Scalar x)) (cast_num e (NInt (int (length m) mod 2 ^ 64)))
      else (case seq_kind e of
          Some k' \<Rightarrow> Inr (True, Seq k' (fill_seq b k' (map snd m)))
        | None \<Rightarrow> (case smap_kind e of
            Some k' \<Rightarrow> Inr (True, SMap k' (if k' = k then m else fill_smap k' m))
          | None \<Rightarrow> (case vmap_kind e of
              Some k' \<Rightarrow> Inr (True, VMap k' (fill_vmap b k' (map string_key m)))
            | None \<Rightarrow> Inr (False, d0)))))"

fun string_entry :: "variant \<Rightarrow> payload \<Rightarrow> (string \<times> variant) cresult" where
  "string_entry v (Scalar (String t)) = Inr (t, v)"
| "string_entry v _ = Inl UndefinedCast"

text \<open>
  The conversion of a value.  It recurs where a key of a map of variants becomes a string
  (the conversion operator of the key), and through a pointer, whose target is converted
  by its operator.  A cycle of pointers does not end, hence the fuel.
\<close>

fun exec ::
  "nat \<Rightarrow> convlib \<Rightarrow> platform \<Rightarrow> host \<Rightarrow> (nat \<Rightarrow> variant option) \<Rightarrow> etype \<Rightarrow> payload \<Rightarrow> payload \<Rightarrow>
     (bool \<times> payload) cresult"
  and conv_operator ::
  "nat \<Rightarrow> convlib \<Rightarrow> platform \<Rightarrow> host \<Rightarrow> (nat \<Rightarrow> variant option) \<Rightarrow> etype \<Rightarrow> variant \<Rightarrow> payload cresult"
where
  "exec 0 L b h H e d0 p = Inl OutOfFuel"
| "exec (Suc n) L b h H e d0 p =
     (if e = etVariantPtr then Inl Unmodelled
      else (case p of
          Scalar s \<Rightarrow> exec_scalar L b h e d0 s
        | Seq k xs \<Rightarrow> exec_seq b e d0 k xs
        | SMap k m \<Rightarrow> exec_smap b e d0 k m
        | VMap k m \<Rightarrow>
            (if number_type e then
               map_result (\<lambda>x. (True, Scalar x)) (cast_num e (NInt (int (length m) mod 2 ^ 64)))
             else (case seq_kind e of
                 Some k' \<Rightarrow> Inr (True, Seq k' (fill_seq b k' (map snd m)))
               | None \<Rightarrow> (case vmap_kind e of
                   Some k' \<Rightarrow> Inr (True, VMap k' (if k' = k then m else fill_vmap b k' m))
                 | None \<Rightarrow> (case smap_kind e of
                     Some k' \<Rightarrow>
                       bind_result (map_results (\<lambda>q. bind_result
                           (conv_operator n L b h H etString (fst q)) (string_entry (snd q))) m)
                         (\<lambda>m'. Inr (True, SMap k' (fill_smap k' m')))
                   | None \<Rightarrow> Inr (False, d0)))))
        | Ptr None \<Rightarrow> Inr (False, d0)
        | Ptr (Some a) \<Rightarrow> (case H a of
              None \<Rightarrow> Inl (Thrown DeadObject)
            | Some v \<Rightarrow> map_result (Pair True) (conv_operator n L b h H e v))))"
| "conv_operator 0 L b h H e v = Inl OutOfFuel"
| "conv_operator (Suc n) L b h H e v =
     (if e = etUnknown \<or> e = etVoid then Inl (Thrown BadCast)
      else if type_of v = e then
        (case v of VVal p \<Rightarrow> Inr p | VNull _ \<Rightarrow> Inl (Thrown BadCast))
      else bind_result (declared L b e) (\<lambda>res.
        case v of VNull _ \<Rightarrow> Inr res | VVal p \<Rightarrow> map_result snd (exec n L b h H e res p)))"

subsection \<open>The conversions of a variant\<close>

text \<open>\<open>VariantImpl::convert\<close>.\<close>

definition convert_impl ::
  "nat \<Rightarrow> convlib \<Rightarrow> platform \<Rightarrow> host \<Rightarrow> (nat \<Rightarrow> variant option) \<Rightarrow> etype \<Rightarrow> payload \<Rightarrow> variant \<Rightarrow>
     (bool \<times> payload) cresult" where
  "convert_impl n L b h H e d0 v = (case v of
     VNull _ \<Rightarrow> Inr (False, d0) | VVal p \<Rightarrow> exec n L b h H e d0 p)"

definition to_value ::
  "nat \<Rightarrow> convlib \<Rightarrow> platform \<Rightarrow> host \<Rightarrow> (nat \<Rightarrow> variant option) \<Rightarrow> etype \<Rightarrow> variant \<Rightarrow> payload cresult" where
  "to_value n L b h H e v =
     bind_result (declared L b e) (\<lambda>res. map_result snd (convert_impl n L b h H e res v))"

definition to_ref ::
  "nat \<Rightarrow> convlib \<Rightarrow> platform \<Rightarrow> host \<Rightarrow> (nat \<Rightarrow> variant option) \<Rightarrow> etype \<Rightarrow> payload \<Rightarrow> variant \<Rightarrow>
     payload cresult" where
  "to_ref n L b h H e dst v =
     bind_result (convert_impl n L b h H e dst v)
       (\<lambda>(ok, d). if ok then Inr d else value_init b e)"

definition convert_T ::
  "nat \<Rightarrow> convlib \<Rightarrow> platform \<Rightarrow> host \<Rightarrow> (nat \<Rightarrow> variant option) \<Rightarrow> etype \<Rightarrow> variant \<Rightarrow> variant cresult" where
  "convert_T n L b h H e v =
     (if type_of v = e then Inr v
      else bind_result (declared L b e) (\<lambda>dst.
        map_result (\<lambda>(ok, d). VVal d) (convert_impl n L b h H e dst v)))"

text \<open>\<open>convert(EType)\<close>: the case of \<open>etVoid\<close> has no \<open>break\<close> and runs on into that of \<open>etString\<close>.\<close>

definition convert_et ::
  "nat \<Rightarrow> convlib \<Rightarrow> platform \<Rightarrow> host \<Rightarrow> (nat \<Rightarrow> variant option) \<Rightarrow> etype \<Rightarrow> variant \<Rightarrow> variant cresult" where
  "convert_et n L b h H e v =
     (if e = etUnknown then Inl (Thrown BadEt)
      else if e = etVoid then convert_T n L b h H etString (spec_setType etVoid v)
      else convert_T n L b h H e v)"

subsection \<open>Integers\<close>

text \<open>The values of the integer types.\<close>

fun int_range :: "etype \<Rightarrow> (int \<times> int) option" where
  "int_range etChar = Some (- (2 ^ 7), 2 ^ 7 - 1)"
| "int_range etInt8 = Some (- (2 ^ 7), 2 ^ 7 - 1)"
| "int_range etInt16 = Some (- (2 ^ 15), 2 ^ 15 - 1)"
| "int_range etInt32 = Some (- (2 ^ 31), 2 ^ 31 - 1)"
| "int_range etInt64 = Some (- (2 ^ 63), 2 ^ 63 - 1)"
| "int_range etUInt8 = Some (0, 2 ^ 8 - 1)"
| "int_range etUInt16 = Some (0, 2 ^ 16 - 1)"
| "int_range etUInt32 = Some (0, 2 ^ 32 - 1)"
| "int_range etUInt64 = Some (0, 2 ^ 64 - 1)"
| "int_range _ = None"

lemma sint_word_of_int:
  assumes "LENGTH('a) = Suc n"
  shows "\<exists>j. sint (word_of_int i :: 'a::len word) = j \<and> - (2 ^ n) \<le> j \<and> j < 2 ^ n \<and> 2 ^ Suc n dvd j - i"
proof -
  have "sint (word_of_int i :: 'a word) = signed_take_bit n i"
    by (simp add: signed_of_int assms)
  moreover have "take_bit (Suc n) (signed_take_bit n i) = take_bit (Suc n) i"
    by (simp add: take_bit_signed_take_bit)
  then have "2 ^ Suc n dvd signed_take_bit n i - i"
    by (simp add: take_bit_eq_mod mod_eq_dvd_iff del: power_Suc)
  ultimately show ?thesis
    using signed_take_bit_int_greater_eq_minus_exp [of n i] signed_take_bit_int_less_exp [of n i] by simp
qed

lemma uint_word_of_int_range:
  "\<exists>j. uint (word_of_int i :: 'a::len word) = j \<and> 0 \<le> j \<and> j < 2 ^ LENGTH('a) \<and> 2 ^ LENGTH('a) dvd j - i"
  by (simp add: unsigned_of_int take_bit_eq_mod mod_eq_dvd_iff [symmetric])

lemma cast_int:
  assumes "int_range e = Some (lo, hi)"
  shows "\<exists>x j. cast_num e (NInt i) = Inr x \<and> scalar_type x = e \<and> num_of x = Some (NInt j) \<and>
    lo \<le> j \<and> j \<le> hi \<and> hi - lo + 1 dvd j - i"
  using assms sint_word_of_int [where 'a = 8, of 7 i] sint_word_of_int [where 'a = 16, of 15 i]
    sint_word_of_int [where 'a = 32, of 31 i] sint_word_of_int [where 'a = 64, of 63 i]
    uint_word_of_int_range [of i, where 'a = 8] uint_word_of_int_range [of i, where 'a = 16]
    uint_word_of_int_range [of i, where 'a = 32] uint_word_of_int_range [of i, where 'a = 64]
  by (cases e) (auto simp: map_result_def)

text \<open>
  Between integer types (booleans and characters as sources included) a conversion never
  fails and gives the value of the target type that is congruent to the source modulo the
  number of values of the target type.
\<close>

theorem integer_conversion:
  assumes "num_of s = Some (NInt i)" and "int_range e = Some (lo, hi)"
  shows "\<exists>x j. exec (Suc n) L b h H e d0 (Scalar s) = Inr (True, Scalar x) \<and>
    scalar_type x = e \<and> num_of x = Some (NInt j) \<and> lo \<le> j \<and> j \<le> hi \<and> hi - lo + 1 dvd j - i"
proof -
  have "number_type e" "e \<noteq> etVariantPtr" using assms(2) by (cases e; simp)+
  then show ?thesis
    using cast_int [OF assms(2), of i] by (auto simp: exec_scalar_def assms(1) map_result_def)
qed

theorem integer_conversion_witness:
  "\<exists>x j. exec 1 sample_lib sample_platform LittleHost Map.empty etInt8 (Scalar (Int8 0)) (Scalar (UInt16 200)) = Inr (True, Scalar x) \<and>
    scalar_type x = etInt8 \<and> num_of x = Some (NInt j) \<and> -128 \<le> j \<and> j \<le> 127 \<and> 256 dvd j - 200"
  using integer_conversion [of "UInt16 200" 200 etInt8 "-128" 127 0 sample_lib sample_platform LittleHost
    Map.empty "Scalar (Int8 0)"] by simp

subsection \<open>Bitsets and integers\<close>

lemma word_of_bits_bit: "word_of_bits n (bit (w :: 'w::len word)) = (take_bit n w :: 'w word)"
  by (rule bit_word_eqI) (auto simp: bit_word_of_bits bit_take_bit_iff)

text \<open>
  The code takes \<open>sizeof\<close>, the number of bytes, for the number of bits of an integer:
  of a 32-bit integer the low four bits reach a bitset, and of a bitset the low four bits
  reach a 32-bit integer, so the round trip keeps exactly the values below 16.
\<close>

theorem bitset_int_bits:
  "exec (Suc n) L b h H etBitset32 d0 (Scalar (UInt32 w)) = Inr (True, Scalar (Bitset32 (take_bit 4 w))) \<and>
   exec (Suc n) L b h H etUInt32 d0 (Scalar (Bitset32 w)) = Inr (True, Scalar (UInt32 (take_bit 4 w))) \<and>
   (take_bit 4 w = w \<longleftrightarrow> w < 16)"
proof -
  have 1: "word_of_bits 4 (bit (uint w)) = (take_bit 4 w :: u32)"
    by (rule bit_word_eqI) (auto simp: bit_word_of_bits bit_take_bit_iff bit_uint_iff)
  have 2: "word_of_int (horner_sum of_bool 2 (map (bit w) [0..<4])) = take_bit 4 w"
    by (rule bit_word_eqI) (auto simp: bit_take_bit_iff bit_horner_sum_bit_iff bit_word_of_int_iff)
  have 3: "take_bit 4 w = w \<longleftrightarrow> w < 16"
  proof -
    have "take_bit 4 w = w \<longleftrightarrow> uint w mod 16 = uint w"
      by (simp add: word_uint_eq_iff take_bit_eq_mod uint_mod)
    also have "\<dots> \<longleftrightarrow> uint w < 16"
      using uint_ge_0 [of w] by (metis mod_pos_pos_trivial pos_mod_bound zero_less_numeral)
    finally show ?thesis by (simp add: word_less_def)
  qed
  show ?thesis
    using 1 2 3 by (simp add: exec_scalar_def int2bs_def bs2int_def converted_def map_result_def)
qed
subsection \<open>Conversion to Void and of NULL\<close>

text \<open>
  \<open>convert(etVoid)\<close> makes any variant the empty string instead of a void variant, and
  converting a NULL to another type gives a variant that is not NULL and holds what the
  declared but possibly uninitialised local variable held.
\<close>

theorem convert_void_null:
  "convert_et n L b h H etVoid v = Inr (VVal (Scalar (String []))) \<and>
   (e \<noteq> etVoid \<longrightarrow> e \<noteq> etUnknown \<longrightarrow> e \<noteq> e' \<longrightarrow>
     convert_et n L b h H e (VNull e') = map_result VVal (declared L b e))"
  by (simp add: convert_et_def convert_T_def spec_setType_def declared_def value_init_def
      bind_result_def convert_impl_def map_result_def split: variant.split sum.split)

theorem convert_void_null_witness:
  "convert_et 3 sample_lib sample_platform LittleHost Map.empty etVoid (VVal (Scalar (Bool True))) = Inr (VVal (Scalar (String []))) \<and>
   convert_et 3 sample_lib sample_platform LittleHost Map.empty etString (VNull etInt8) =
     Inr (VVal (Scalar (String [])))"
  using convert_void_null [of 3 sample_lib sample_platform LittleHost Map.empty
    "VVal (Scalar (Bool True))" etString etInt8]
  by (simp add: declared_def value_init_def map_result_def)

subsection \<open>Sequences and maps\<close>

lemma decs_inj: "decs m = decs n \<Longrightarrow> m = n"
proof (induction m arbitrary: n rule: decs.induct)
  case (1 m)
  show ?case
  proof (cases "m = 0 \<or> n = 0")
    case True
    then show ?thesis using "1.prems" decs_pos [of m] decs_pos [of n] by (cases "m = 0"; cases "n = 0") auto
  next
    case False
    then have d: "decs (m div 10) = decs (n div 10)"
      and c: "char_of (48 + m mod 10) = (char_of (48 + n mod 10) :: char)"
      using "1.prems" decs_pos [of m] decs_pos [of n] by auto
    have "(of_char (char_of (48 + m mod 10)) :: nat) = 48 + m mod 10"
      "(of_char (char_of (48 + n mod 10)) :: nat) = 48 + n mod 10"
      by (simp_all add: take_bit_eq_mod)
    with c have "m mod 10 = n mod 10" by simp
    moreover have "m div 10 = n div 10" using "1.IH" d False by blast
    ultimately show ?thesis by (metis div_mult_mod_eq)
  qed
qed

definition index_text :: "nat \<Rightarrow> string" where
  "index_text i = (if i = 0 then ''0'' else decs i)"

lemma index_text_inj: "index_text i = index_text j \<Longrightarrow> i = j"
proof -
  have "decs n \<noteq> ''0''" if "n > 0" for n
  proof
    assume "decs n = ''0''"
    then have "decs (n div 10) = []" "char_of (48 + n mod 10) = CHR ''0''"
      using decs_pos [OF that] by (auto simp: append_eq_Cons_conv)
    moreover from this have "n div 10 = 0" using decs_pos [of "n div 10"] by (cases "n div 10 = 0") auto
    moreover have "(of_char (char_of (48 + n mod 10)) :: nat) = 48 + n mod 10"
      by (simp add: take_bit_eq_mod)
    ultimately have "n div 10 = 0" "n mod 10 = 0" by simp_all
    then show False using that by (metis div_mult_mod_eq mult_0 add_0 less_not_refl)
  qed
  then show "index_text i = index_text j \<Longrightarrow> i = j"
    by (auto simp: index_text_def split: if_splits dest: decs_inj sym)
qed

lemma ntoa_ulong_index:
  "i < 10 ^ 13 \<Longrightarrow> ntoa_ulong (word_of_nat i) = Some (index_text i)"
proof -
  assume i: "i < 10 ^ 13"
  then have "uint (word_of_nat i :: 64 word) = int i"
    by (simp add: unsigned_of_nat take_bit_nat_eq_self_iff)
  then show ?thesis
    using i by (auto simp: ntoa_ulong_def untoa_eq index_text_def)
qed

lemma numbered_eq:
  "i + length xs \<le> 10 ^ 13 \<Longrightarrow>
     numbered i xs = Inr (zip (map index_text [i..<i + length xs]) xs)"
proof (induction xs arbitrary: i)
  case (Cons x xs)
  then show ?case
    using ntoa_ulong_index [of i] Cons.IH [of "Suc i"]
    by (simp add: bind_result_def upt_conv_Cons del: upt_Suc)
qed simp
lemma numbered_fresh:
  "sorted_wrt (\<lambda>x y. string_less (fst x) (fst y) \<or> string_less (fst y) (fst x))
     (zip (map index_text [i..<i + length xs]) xs)"
proof (rule sorted_wrt_iff_nth_less [THEN iffD2], intro allI impI)
  fix j k assume jk: "j < k" "k < length (zip (map index_text [i..<i + length xs]) xs)"
  then have "index_text (i + j) \<noteq> index_text (i + k)" by (auto dest: index_text_inj)
  then show "string_less (fst (zip (map index_text [i..<i + length xs]) xs ! j))
        (fst (zip (map index_text [i..<i + length xs]) xs ! k)) \<or>
      string_less (fst (zip (map index_text [i..<i + length xs]) xs ! k))
        (fst (zip (map index_text [i..<i + length xs]) xs ! j))"
    using jk string_less_total by simp
qed

text \<open>
  A sequence of fewer than \<open>10 ^ 13\<close> elements converts to a string map that is sorted and
  holds element \<open>i\<close> under the decimal text of \<open>i\<close> and nothing else; converted back to a
  vector it is a permutation of the sequence, in the order of the texts.
\<close>

theorem sequence_map_conversion:
  assumes "length xs \<le> 10 ^ 13"
  shows "\<exists>m. exec (Suc n) L b h H etMapStringVariant d0 (Seq k xs) = Inr (True, SMap MapK m) \<and>
    strictly_sorted string_less fst m \<and>
    mset m = mset (zip (map index_text [0..<length xs]) xs) \<and>
    exec (Suc n) L b h H etVectorVariant d1 (SMap MapK m) = Inr (True, Seq VectorK (map snd m)) \<and>
    mset (map snd m) = mset xs"
proof -
  let ?z = "zip (map index_text [0..<length xs]) xs"
  let ?m = "insert_all (insert_unique string_less fst) ?z []"
  have m: "strictly_sorted string_less fst ?m \<and> mset ?m = mset ?z"
    using skeys.insert_all_fresh [of fst "[]" ?z] numbered_fresh [of 0 xs]
    by (simp add: strictly_sorted_def)
  then have "mset (map snd ?m) = mset (map snd ?z)" by (simp only: mset_map)
  then have "mset (map snd ?m) = mset xs" by simp
  with m show ?thesis
    using numbered_eq [of 0 xs] assms
    by (intro exI [of _ ?m]) (simp add: exec_seq_def exec_smap_def map_result_def)
qed

theorem sequence_map_conversion_witness:
  "\<exists>m. exec 1 sample_lib sample_platform LittleHost Map.empty etMapStringVariant (SMap MapK []) (Seq ListK [VNull etVoid, VNull etInt8]) = Inr (True, SMap MapK m) \<and>
    strictly_sorted string_less fst m \<and>
    mset m = mset (zip (map index_text [0..<length [VNull etVoid, VNull etInt8]]) [VNull etVoid, VNull etInt8]) \<and>
    exec 1 sample_lib sample_platform LittleHost Map.empty etVectorVariant (Seq VectorK []) (SMap MapK m) =
      Inr (True, Seq VectorK (map snd m)) \<and>
    mset (map snd m) = mset [VNull etVoid, VNull etInt8]"
  using sequence_map_conversion [of "[VNull etVoid, VNull etInt8]" 0 sample_lib sample_platform LittleHost
    Map.empty "SMap MapK []" _ "Seq VectorK []"] by simp

end
