(* ===== verification/VariantAccess.thy ===== *)
theory VariantAccess
  imports VariantConvert
begin

text \<open>
  \<open>containerDereference\<close> of \<^verbatim>\<open>src/utils/variantImpl.hpp\<close>, which is \<open>operator []\<close> on a
  variant: a copy of the element found, or a void NULL.  Also how far conversions recur.
\<close>

subsection \<open>Element access\<close>

definition found :: "('k \<times> variant) option \<Rightarrow> variant" where
  "found r = (case r of Some (k, v) \<Rightarrow> v | None \<Rightarrow> VNull etVoid)"

definition nth_or_void :: "variant list \<Rightarrow> nat \<Rightarrow> variant" where
  "nth_or_void xs i = (if i < length xs then xs ! i else VNull etVoid)"

definition index_string :: "platform \<Rightarrow> variant \<Rightarrow> string \<Rightarrow> variant" where
  "index_string b v key = (case v of
     VNull _ \<Rightarrow> VNull etVoid
   | VVal p \<Rightarrow> (case p of
       SMap _ m \<Rightarrow> found (find_key string_less fst key m)
     | VMap _ m \<Rightarrow> found (find_key (less_v b) fst (VVal (Scalar (String key))) m)
     | _ \<Rightarrow> VNull etVoid))"

text \<open>A key that is a variant becomes a string or an index by its conversion operator.\<close>

definition index_variant ::
  "nat \<Rightarrow> convlib \<Rightarrow> platform \<Rightarrow> host \<Rightarrow> (nat \<Rightarrow> variant option) \<Rightarrow> variant \<Rightarrow> variant \<Rightarrow> variant cresult" where
  "index_variant n L b h H v key = (case v of
     VNull _ \<Rightarrow> Inr (VNull etVoid)
   | VVal p \<Rightarrow> (case p of
       SMap _ m \<Rightarrow> bind_result (conv_operator n L b h H etString key) (\<lambda>s.
         case s of Scalar (String t) \<Rightarrow> Inr (found (find_key string_less fst t m))
         | _ \<Rightarrow> Inl UndefinedCast)
     | VMap _ m \<Rightarrow> Inr (found (find_key (less_v b) fst key m))
     | Seq k xs \<Rightarrow>
         (if k = VectorK \<or> k = DequeK then
            bind_result (conv_operator n L b h H etUInt64 key) (\<lambda>s.
              case s of Scalar (UInt64 i) \<Rightarrow> Inr (nth_or_void xs (unat i))
              | _ \<Rightarrow> Inl UndefinedCast)
          else Inr (VNull etVoid))
     | _ \<Rightarrow> Inr (VNull etVoid)))"

definition index_size :: "variant \<Rightarrow> nat \<Rightarrow> variant" where
  "index_size v i = (case v of
     VVal (Seq VectorK xs) \<Rightarrow> nth_or_void xs i
   | VVal (Seq DequeK xs) \<Rightarrow> nth_or_void xs i
   | _ \<Rightarrow> VNull etVoid)"

lemma string_less_irrefl [simp]: "\<not> string_less s s"
  using swo_on_asym [OF swo_string_less, of s s] by auto

lemma find_string_map_of:
  assumes "strictly_sorted string_less fst m"
  shows "find_key string_less fst k m = map_option (Pair k) (map_of m k)"
proof -
  have dist: "distinct (map fst m)"
    using assms unfolding strictly_sorted_def
    by (induction m) auto
  have "find_key string_less fst k m = Some (k', v) \<longleftrightarrow> k' = k \<and> map_of m k = Some v" for k' v
    using skeys.find_key_Some [OF assms, of k "(k', v)"] string_less_total [of k k'] dist
    by auto
  then show ?thesis by (cases "map_of m k"; cases "find_key string_less fst k m") auto
qed

text \<open>
  On a map with string keys \<open>operator []\<close> gives the value of the key, on a vector or
  deque the element at the index, and a void NULL where there is none; a key that is a
  number converted to a variant reaches the same element.
\<close>

theorem index_gives_element:
  assumes "strictly_sorted string_less fst m"
  shows "index_string b (VVal (SMap MapK m)) k =
      (case map_of m k of Some v \<Rightarrow> v | None \<Rightarrow> VNull etVoid) \<and>
    index_variant (Suc n) L b h H (VVal (SMap MapK m)) (VVal (Scalar (String k))) =
      Inr (index_string b (VVal (SMap MapK m)) k) \<and>
    index_variant (Suc (Suc n)) L b h H (VVal (Seq VectorK xs)) (VVal (Scalar (UInt16 i))) =
      Inr (if unat i < length xs then xs ! unat i else VNull etVoid)"
proof -
  have "unat (word_of_int (uint i) :: u64) = unat i"
  proof -
    have "uint i < 2 ^ 16" using uint_bounded [of i] by simp
    then have "uint (word_of_int (uint i) :: u64) = uint i"
      by (simp add: unsigned_ucast_eq take_bit_int_eq_self_iff)
    then show ?thesis by (simp only: unat_eq_nat_uint)
  qed
  then have 3: "conv_operator (Suc (Suc n)) L b h H etUInt64 (VVal (Scalar (UInt16 i))) =
      Inr (Scalar (UInt64 (word_of_int (uint i))))"
    by (simp add: declared_def value_init_def bind_result_def exec_scalar_def map_result_def
        split: option.split)
  have 1: "index_string b (VVal (SMap MapK m)) k =
      (case map_of m k of Some v \<Rightarrow> v | None \<Rightarrow> VNull etVoid)"
    by (simp add: index_string_def find_string_map_of [OF assms] found_def split: option.split)
  have 2: "conv_operator (Suc n) L b h H etString (VVal (Scalar (String k))) = Inr (Scalar (String k))"
    by simp
  show ?thesis
    unfolding 1 index_variant_def variant.case payload.case 2 3 bind_result_def
    using \<open>unat (word_of_int (uint i) :: u64) = unat i\<close>
    by (simp add: index_variant_def find_string_map_of [OF assms] found_def nth_or_void_def split: option.split)
qed

theorem index_gives_element_witness:
  "index_string sample_platform (VVal (SMap MapK [(''a'', VNull etBool)])) ''a'' = VNull etBool \<and>
   index_variant 2 sample_lib sample_platform LittleHost Map.empty
     (VVal (Seq VectorK [VNull etTm])) (VVal (Scalar (UInt16 0))) = Inr (VNull etTm)"
  using index_gives_element [of "[(''a'', VNull etBool)]" sample_platform "''a''" 0 sample_lib
    LittleHost Map.empty "[VNull etTm]" 0]
  by (simp add: strictly_sorted_def numeral_2_eq_2)

subsection \<open>Recursion of conversions\<close>

text \<open>The errors of a conversion that does not recur.\<close>

lemma int_in_fuel [simp]: "int_in lo hi n \<noteq> Inl OutOfFuel"
  by (cases n) (simp_all split: option.split)

lemma map_result_fuel [simp]: "map_result f r = Inl OutOfFuel \<longleftrightarrow> r = Inl OutOfFuel"
  by (simp add: map_result_def split: sum.split)

lemma bind_result_fuel [simp]:
  "bind_result r f = Inl OutOfFuel \<longleftrightarrow> r = Inl OutOfFuel \<or> (\<exists>x. r = Inr x \<and> f x = Inl OutOfFuel)"
  by (simp add: bind_result_def split: sum.split)

lemma cast_num_fuel [simp]: "cast_num e n \<noteq> Inl OutOfFuel"
  by (cases e) simp_all

lemma value_init_fuel [simp]: "value_init b e \<noteq> Inl OutOfFuel"
  by (simp add: value_init_def split: option.split)

lemma declared_fuel [simp]: "declared L b e \<noteq> Inl OutOfFuel"
  unfolding declared_def
  by (cases "stack_value L e") (simp_all del: number_type.simps)

lemma value_init_Inr: "e \<noteq> etUnknown \<Longrightarrow> e \<noteq> etVoid \<Longrightarrow> \<exists>d. value_init b e = Inr d"
  using default_payload_None [of b e] by (auto simp: value_init_def split: option.split)

lemma declared_Inr: "e \<noteq> etUnknown \<Longrightarrow> e \<noteq> etVoid \<Longrightarrow> \<exists>d. declared L b e = Inr d"
  unfolding declared_def
  by (cases "stack_value L e") (simp_all add: value_init_Inr del: number_type.simps)

lemma converted_fuel [simp]: "converted s \<noteq> Inl OutOfFuel" "print_scalar L s \<noteq> Inl OutOfFuel"
  by (simp_all add: converted_def print_scalar_def split: option.split)

lemma parse_scalar_fuel [simp]: "parse_scalar L b e t \<noteq> Inl OutOfFuel"
  by (simp add: parse_scalar_def split: option.split)

lemma tm_of_payload_fuel [simp]: "tm_of_payload L d0 p \<noteq> Inl OutOfFuel"
  by (cases "(L, d0, p)" rule: tm_of_payload.cases) simp_all

lemma dtd_of_payload_fuel [simp]: "dtd_of_payload L t p \<noteq> Inl OutOfFuel"
  by (cases "(L, t, p)" rule: dtd_of_payload.cases) (simp_all split: prod.split)

lemma exec_string_fuel [simp]: "exec_string L b h e d0 t \<noteq> Inl OutOfFuel"
  by (simp add: exec_string_def split: option.split)

lemma exec_other_fuel [simp]: "exec_other L b h e d0 s \<noteq> Inl OutOfFuel"
  by (cases s) simp_all

lemma exec_scalar_fuel [simp]: "exec_scalar L b h e d0 s \<noteq> Inl OutOfFuel"
  by (simp add: exec_scalar_def bs2int_def split: option.split)

lemma numbered_fuel [simp]: "numbered i xs \<noteq> Inl OutOfFuel"
  by (induction xs arbitrary: i) (auto simp: bind_result_def split: option.split sum.split)

lemma exec_seq_fuel [simp]: "exec_seq b e d0 k xs \<noteq> Inl OutOfFuel"
  by (auto simp: exec_seq_def split: option.split mapkind.split)

lemma exec_smap_fuel [simp]: "exec_smap b e d0 k m \<noteq> Inl OutOfFuel"
  by (auto simp: exec_smap_def split: option.split mapkind.split)

fun is_pointer :: "variant \<Rightarrow> bool" where
  "is_pointer (VVal (Ptr (Some a))) = True"
| "is_pointer _ = False"

lemma map_results_fuel:
  "(\<And>x. x \<in> set xs \<Longrightarrow> f x \<noteq> Inl OutOfFuel) \<Longrightarrow> map_results f xs \<noteq> Inl OutOfFuel"
proof (induction xs)
  case (Cons x xs)
  then show ?case by (auto simp: bind_result_def split: sum.split)
qed simp

text \<open>Keys that become strings.\<close>

lemma key_operator_fuel:
  "\<not> is_pointer v \<Longrightarrow> conv_operator (Suc (Suc n)) L b h H etString v \<noteq> Inl OutOfFuel"
proof -
  assume v: "\<not> is_pointer v"
  have "exec (Suc n) L b h H etString d p \<noteq> Inl OutOfFuel" if "v = VVal p" for d p
    using v that by (cases p) (auto split: option.split)
  then show ?thesis by (cases v) (simp_all del: exec.simps)
qed

lemma string_entry_fuel [simp]: "string_entry v s \<noteq> Inl OutOfFuel"
  by (cases "(v, s)" rule: string_entry.cases) simp_all

definition keys_plain :: "payload \<Rightarrow> bool" where
  "keys_plain p = (case p of
     VMap k m \<Rightarrow> (\<forall>q\<in>set m. \<not> is_pointer (fst q)) | Ptr r \<Rightarrow> r = None | _ \<Rightarrow> True)"

text \<open>
  A conversion ends, at depth three at most, unless the value or a key of the converted
  map is a pointer; and the conversion of a pointer in a cycle of pointers never ends.
\<close>

theorem conversion_depth:
  "(keys_plain p \<longrightarrow> exec (Suc (Suc (Suc n))) L b h H e d0 p \<noteq> Inl OutOfFuel) \<and>
   (H a = Some (VVal (Ptr (Some a))) \<longrightarrow> number_type e \<longrightarrow>
     exec m L b h H e d0 (Ptr (Some a)) = Inl OutOfFuel)"
proof (intro conjI impI)
  assume plain: "keys_plain p"
  show "exec (Suc (Suc (Suc n))) L b h H e d0 p \<noteq> Inl OutOfFuel"
  proof (cases p)
    case (VMap k es)
    have "map_results (\<lambda>q. bind_result (conv_operator (Suc (Suc n)) L b h H etString (fst q))
        (string_entry (snd q))) es \<noteq> Inl OutOfFuel"
      using plain VMap key_operator_fuel
      by (intro map_results_fuel) (simp add: keys_plain_def del: conv_operator.simps)
    then show ?thesis
      using VMap by (auto simp del: conv_operator.simps number_type.simps split: option.split)
  qed (use plain in \<open>auto simp: keys_plain_def\<close>)
next
  assume cyc: "H a = Some (VVal (Ptr (Some a)))" and e: "number_type e"
  from e have e': "e \<noteq> etVariantPtr" "e \<noteq> etUnknown" "e \<noteq> etVoid" by auto
  obtain d where d: "declared L b e = Inr d"
    using declared_Inr [OF e'(2,3)] by blast
  show "exec m L b h H e d0 (Ptr (Some a)) = Inl OutOfFuel"
  proof (induction m arbitrary: d0 rule: less_induct)
    case (less m)
    show ?case
    proof (cases "m < 2")
      case True
      then show ?thesis using cyc e' by (auto simp: less_2_cases_iff map_result_def)
    next
      case False
      then obtain k where m: "m = Suc (Suc k)"
        by (metis add_2_eq_Suc le_add_diff_inverse not_less)
      have "exec k L b h H e d (Ptr (Some a)) = Inl OutOfFuel" by (rule less.IH) (simp add: m)
      then show ?thesis using cyc e' d by (simp add: m map_result_def bind_result_def)
    qed
  qed
qed

theorem conversion_depth_witness:
  "exec 3 sample_lib sample_platform LittleHost Map.empty etString (Scalar (String [])) (VMap MapK [(VNull etVoid, VNull etVoid)]) \<noteq> Inl OutOfFuel \<and>
   exec 100 sample_lib sample_platform LittleHost (\<lambda>a. Some (VVal (Ptr (Some a)))) etInt32
     (Scalar (Int32 0)) (Ptr (Some 5)) = Inl OutOfFuel"
  using conversion_depth [of "VMap MapK [(VNull etVoid, VNull etVoid)]" 0 sample_lib
      sample_platform LittleHost Map.empty etString "Scalar (String [])" 0 0]
    conversion_depth [of "Ptr None" 0 sample_lib sample_platform LittleHost
      "\<lambda>a. Some (VVal (Ptr (Some a)))" etInt32 "Scalar (Int32 0)" 5 100]
  by (simp add: keys_plain_def numeral_3_eq_3)

end
