(* ===== verification/VariantSerial.thy ===== *)
theory VariantSerial
  imports VariantState Endian
begin

text \<open>
  The writing half of \<^verbatim>\<open>src/utils/variantSerialization.cpp\<close>: \<open>calcSize\<close>, the \<open>write\<close>
  functions and \<open>serialize\<close>.  \<open>H\<close> is the memory the pointers inside a variant refer to;
  the two passes number the pointers they meet, so a pointer is followed once, and the
  fuel \<open>n\<close> bounds how many pointers deep they go.  \<open>h\<close> is the byte order of the machine.
\<close>

datatype serror = DanglingPtr | PtrFuel | BufOverflow | DateThrown

type_synonym 'a sresult = "serror + 'a"

subsection \<open>Scalars\<close>

text \<open>What \<open>calcSize\<close> adds for a scalar beyond the two bytes of the type.\<close>

fun scalar_size :: "scalar \<Rightarrow> nat" where
  "scalar_size (String x) = 8 + length x"
| "scalar_size (Float x) = 4"
| "scalar_size (Double x) = 8"
| "scalar_size (Int8 x) = 1"
| "scalar_size (Int16 x) = 2"
| "scalar_size (Int32 x) = 4"
| "scalar_size (Int64 x) = 8"
| "scalar_size (UInt8 x) = 1"
| "scalar_size (UInt16 x) = 2"
| "scalar_size (UInt32 x) = 4"
| "scalar_size (UInt64 x) = 8"
| "scalar_size (VectorChar x) = 8 + length x"
| "scalar_size (Date x) = 4"
| "scalar_size (Datetime x) = 12"
| "scalar_size (Bool x) = 1"
| "scalar_size (Tm x) = 9 * 4"
| "scalar_size (Bitset8 x) = 1"
| "scalar_size (Bitset16 x) = 2"
| "scalar_size (Bitset32 x) = 4"
| "scalar_size (Bitset64 x) = 8"
| "scalar_size (Bitset128 x) = 16"
| "scalar_size (Bitset256 x) = 32"
| "scalar_size (Bitset512 x) = 64"
| "scalar_size (DateDuration x) = 4"
| "scalar_size (TimeDuration x) = 8"
| "scalar_size (DateTimeDuration x y) = 12"
| "scalar_size (Char x) = 1"
| "scalar_size (Uuid x) = 16"

text \<open>\<open>writeIntegral\<close>: the memory image of \<open>litEndian(value)\<close>.\<close>

definition w8 :: "byte \<Rightarrow> byte list" where
  "w8 w = [w]"

definition w16 :: "host \<Rightarrow> u16 \<Rightarrow> byte list" where
  "w16 h w = mem h (litEndian16 h w)"

definition w32 :: "host \<Rightarrow> u32 \<Rightarrow> byte list" where
  "w32 h w = mem h (litEndian32 h w)"

definition w64 :: "host \<Rightarrow> u64 \<Rightarrow> byte list" where
  "w64 h w = mem h (litEndian64 h w)"

definition write_string :: "host \<Rightarrow> string \<Rightarrow> byte list" where
  "write_string h s = w64 h (word_of_nat (length s)) @ map byte_of s"

text \<open>\<open>writeBitset\<close>: bit \<open>i\<close> goes to bit \<open>i % 8\<close> of byte \<open>i / 8\<close>.\<close>

definition write_bitset :: "'w::len word \<Rightarrow> byte list" where
  "write_bitset w =
     map (\<lambda>k. word_of_bits 8 (\<lambda>j. bit w (8 * k + j))) [0..<LENGTH('w) div 8]"

text \<open>The number of a date; \<open>year()\<close> throws on a date that has none, as the default one, which is
  \<open>not_a_date_time\<close>, and nobody catches it.\<close>

definition date_number :: "platform \<Rightarrow> date \<Rightarrow> u32 option" where
  "date_number b x = (case date_ymd b x of None \<Rightarrow> None
     | Some (y, m, d) \<Rightarrow> Some (word_of_nat (y * 10000 + m * 100 + d)))"

fun write_scalar :: "platform \<Rightarrow> host \<Rightarrow> scalar \<Rightarrow> byte list option" where
  "write_scalar b h (String x) = Some (write_string h x)"
| "write_scalar b h (Float x) = Some (w32 h x)"
| "write_scalar b h (Double x) = Some (w64 h x)"
| "write_scalar b h (Int8 x) = Some (w8 x)"
| "write_scalar b h (Int16 x) = Some (w16 h x)"
| "write_scalar b h (Int32 x) = Some (w32 h x)"
| "write_scalar b h (Int64 x) = Some (w64 h x)"
| "write_scalar b h (UInt8 x) = Some (w8 x)"
| "write_scalar b h (UInt16 x) = Some (w16 h x)"
| "write_scalar b h (UInt32 x) = Some (w32 h x)"
| "write_scalar b h (UInt64 x) = Some (w64 h x)"
| "write_scalar b h (VectorChar x) = Some (write_string h x)"
| "write_scalar b h (Date x) = map_option (w32 h) (date_number b x)"
| "write_scalar b h (Datetime x) = 
     map_option (\<lambda>n. w32 h n @ w64 h (word_of_int (td_usecs b (ptime_tod b x)))) (date_number b (ptime_date b x))"
| "write_scalar b h (Bool x) = Some (w8 (if x then 1 else 0))"
| "write_scalar b h (Tm x) = Some (w32 h (tm_sec x) @ w32 h (tm_min x) @ w32 h (tm_hour x) @ w32 h (tm_mday x) @
     w32 h (tm_mon x) @ w32 h (tm_year x) @ w32 h (tm_wday x) @ w32 h (tm_yday x) @ w32 h (tm_isdst x))"
| "write_scalar b h (Bitset8 x) = Some (write_bitset x)"
| "write_scalar b h (Bitset16 x) = Some (write_bitset x)"
| "write_scalar b h (Bitset32 x) = Some (write_bitset x)"
| "write_scalar b h (Bitset64 x) = Some (write_bitset x)"
| "write_scalar b h (Bitset128 x) = Some (write_bitset x)"
| "write_scalar b h (Bitset256 x) = Some (write_bitset x)"
| "write_scalar b h (Bitset512 x) = Some (write_bitset x)"
| "write_scalar b h (DateDuration x) = Some (w32 h (word_of_int (dd_days b x)))"
| "write_scalar b h (TimeDuration x) = Some (w64 h (word_of_int (td_usecs b x)))"
| "write_scalar b h (DateTimeDuration x y) = Some (w32 h (word_of_int (dd_days b x)) @ w64 h (word_of_int (td_usecs b y)))"
| "write_scalar b h (Char x) = Some (w8 (byte_of x))"
| "write_scalar b h (Uuid x) = Some (x)"

subsection \<open>The first pass\<close>

text \<open>
  The keys are the addresses seen so far; an address that stands at position \<open>i\<close> has the
  key \<open>i + 1\<close>.  A key is counted with four bytes.
\<close>

function calc_v :: "(nat \<Rightarrow> variant option) \<Rightarrow> nat \<Rightarrow> variant \<Rightarrow> nat list \<Rightarrow> (nat \<times> nat list) sresult"
  and calc_seq :: "(nat \<Rightarrow> variant option) \<Rightarrow> nat \<Rightarrow> variant list \<Rightarrow> nat list \<Rightarrow> (nat \<times> nat list) sresult"
  and calc_smap :: "(nat \<Rightarrow> variant option) \<Rightarrow> nat \<Rightarrow> (string \<times> variant) list \<Rightarrow> nat list \<Rightarrow> (nat \<times> nat list) sresult"
  and calc_vmap :: "(nat \<Rightarrow> variant option) \<Rightarrow> nat \<Rightarrow> (variant \<times> variant) list \<Rightarrow> nat list \<Rightarrow> (nat \<times> nat list) sresult"
where
  "calc_v H n (VNull e) ks = Inr (2, ks)"
| "calc_v H n (VVal (Scalar s)) ks = Inr (2 + scalar_size s, ks)"
| "calc_v H n (VVal (Seq k xs)) ks = (case calc_seq H n xs ks of
     Inl e \<Rightarrow> Inl e | Inr (s, ks') \<Rightarrow> Inr (2 + 8 + s, ks'))"
| "calc_v H n (VVal (SMap k m)) ks = (case calc_smap H n m ks of
     Inl e \<Rightarrow> Inl e | Inr (s, ks') \<Rightarrow> Inr (2 + 8 + s, ks'))"
| "calc_v H n (VVal (VMap k m)) ks = (case calc_vmap H n m ks of
     Inl e \<Rightarrow> Inl e | Inr (s, ks') \<Rightarrow> Inr (2 + 8 + s, ks'))"
| "calc_v H n (VVal (Ptr None)) ks = Inr (2 + 4, ks)"
| "calc_v H 0 (VVal (Ptr (Some a))) ks = Inl PtrFuel"
| "calc_v H (Suc n) (VVal (Ptr (Some a))) ks =
     (if a \<in> set ks then Inr (2 + 4, ks)
      else (case H a of
          None \<Rightarrow> Inl DanglingPtr
        | Some v \<Rightarrow> (case calc_v H n v (ks @ [a]) of
            Inl e \<Rightarrow> Inl e | Inr (s, ks') \<Rightarrow> Inr (2 + 4 + s, ks'))))"
| "calc_seq H n [] ks = Inr (0, ks)"
| "calc_seq H n (x # xs) ks = (case calc_v H n x ks of
     Inl e \<Rightarrow> Inl e
   | Inr (s, ks1) \<Rightarrow> (case calc_seq H n xs ks1 of
       Inl e \<Rightarrow> Inl e | Inr (t, ks2) \<Rightarrow> Inr (s + t, ks2)))"
| "calc_smap H n [] ks = Inr (0, ks)"
| "calc_smap H n ((k, x) # m) ks = (case calc_v H n x ks of
     Inl e \<Rightarrow> Inl e
   | Inr (s, ks1) \<Rightarrow> (case calc_smap H n m ks1 of
       Inl e \<Rightarrow> Inl e | Inr (t, ks2) \<Rightarrow> Inr (8 + length k + s + t, ks2)))"
| "calc_vmap H n [] ks = Inr (0, ks)"
| "calc_vmap H n ((k, x) # m) ks = (case calc_v H n k ks of
     Inl e \<Rightarrow> Inl e
   | Inr (r, ks0) \<Rightarrow> (case calc_v H n x ks0 of
       Inl e \<Rightarrow> Inl e
     | Inr (s, ks1) \<Rightarrow> (case calc_vmap H n m ks1 of
         Inl e \<Rightarrow> Inl e | Inr (t, ks2) \<Rightarrow> Inr (r + s + t, ks2))))"
  by pat_completeness auto
termination
  by (relation "measures [case_sum
        (case_sum (\<lambda>(H, n, v, ks). n) (\<lambda>(H, n, xs, ks). n))
        (case_sum (\<lambda>(H, n, m, ks). n) (\<lambda>(H, n, m, ks). n)),
       case_sum
        (case_sum (\<lambda>(H, n, v, ks). size v) (\<lambda>(H, n, xs, ks). size_list size xs))
        (case_sum (\<lambda>(H, n, m, ks). size_list (size_prod (\<lambda>_. 0) size) m)
                  (\<lambda>(H, n, m, ks). size_list (size_prod size size) m))]")
     auto

subsection \<open>The second pass\<close>

text \<open>
  The bytes written, before the end of the buffer is taken into account.  A key is
  written with eight bytes.
\<close>

definition ptr_key :: "nat list \<Rightarrow> nat \<Rightarrow> u64" where
  "ptr_key ks a = word_of_nat (length (takeWhile (\<lambda>x. x \<noteq> a) ks) + 1)"

definition write_et :: "host \<Rightarrow> variant \<Rightarrow> byte list" where
  "write_et h v =
     w16 h (word_of_int (if isNull v then - et_num (type_of v) else et_num (type_of v)))"

function write_v :: "platform \<Rightarrow> host \<Rightarrow> (nat \<Rightarrow> variant option) \<Rightarrow> nat \<Rightarrow> variant \<Rightarrow> nat list \<Rightarrow> (byte list \<times> nat list) sresult"
  and write_seq :: "platform \<Rightarrow> host \<Rightarrow> (nat \<Rightarrow> variant option) \<Rightarrow> nat \<Rightarrow> variant list \<Rightarrow> nat list \<Rightarrow> (byte list \<times> nat list) sresult"
  and write_smap :: "platform \<Rightarrow> host \<Rightarrow> (nat \<Rightarrow> variant option) \<Rightarrow> nat \<Rightarrow> (string \<times> variant) list \<Rightarrow> nat list \<Rightarrow> (byte list \<times> nat list) sresult"
  and write_vmap :: "platform \<Rightarrow> host \<Rightarrow> (nat \<Rightarrow> variant option) \<Rightarrow> nat \<Rightarrow> (variant \<times> variant) list \<Rightarrow> nat list \<Rightarrow> (byte list \<times> nat list) sresult"
where
  "write_v b h H n (VNull e) ks = Inr (write_et h (VNull e), ks)"
| "write_v b h H n (VVal (Scalar s)) ks =
     (case write_scalar b h s of None \<Rightarrow> Inl DateThrown
      | Some bs \<Rightarrow> Inr (write_et h (VVal (Scalar s)) @ bs, ks))"
| "write_v b h H n (VVal (Seq k xs)) ks = (case write_seq b h H n xs ks of
     Inl e \<Rightarrow> Inl e
   | Inr (bs, ks') \<Rightarrow> Inr (write_et h (VVal (Seq k xs)) @ w64 h (word_of_nat (length xs)) @ bs, ks'))"
| "write_v b h H n (VVal (SMap k m)) ks = (case write_smap b h H n m ks of
     Inl e \<Rightarrow> Inl e
   | Inr (bs, ks') \<Rightarrow> Inr (write_et h (VVal (SMap k m)) @ w64 h (word_of_nat (length m)) @ bs, ks'))"
| "write_v b h H n (VVal (VMap k m)) ks = (case write_vmap b h H n m ks of
     Inl e \<Rightarrow> Inl e
   | Inr (bs, ks') \<Rightarrow> Inr (write_et h (VVal (VMap k m)) @ w64 h (word_of_nat (length m)) @ bs, ks'))"
| "write_v b h H n (VVal (Ptr None)) ks = Inr (write_et h (VVal (Ptr None)) @ w64 h 0, ks)"
| "write_v b h H 0 (VVal (Ptr (Some a))) ks = Inl PtrFuel"
| "write_v b h H (Suc n) (VVal (Ptr (Some a))) ks =
     (if a \<in> set ks
      then Inr (write_et h (VVal (Ptr (Some a))) @ w64 h (ptr_key ks a), ks)
      else (case H a of
          None \<Rightarrow> Inl DanglingPtr
        | Some v \<Rightarrow> (case write_v b h H n v (ks @ [a]) of
            Inl e \<Rightarrow> Inl e
          | Inr (bs, ks') \<Rightarrow>
              Inr (write_et h (VVal (Ptr (Some a))) @ w64 h (word_of_nat (length ks + 1)) @ bs, ks'))))"
| "write_seq b h H n [] ks = Inr ([], ks)"
| "write_seq b h H n (x # xs) ks = (case write_v b h H n x ks of
     Inl e \<Rightarrow> Inl e
   | Inr (s, ks1) \<Rightarrow> (case write_seq b h H n xs ks1 of
       Inl e \<Rightarrow> Inl e | Inr (t, ks2) \<Rightarrow> Inr (s @ t, ks2)))"
| "write_smap b h H n [] ks = Inr ([], ks)"
| "write_smap b h H n ((k, x) # m) ks = (case write_v b h H n x ks of
     Inl e \<Rightarrow> Inl e
   | Inr (s, ks1) \<Rightarrow> (case write_smap b h H n m ks1 of
       Inl e \<Rightarrow> Inl e | Inr (t, ks2) \<Rightarrow> Inr (write_string h k @ s @ t, ks2)))"
| "write_vmap b h H n [] ks = Inr ([], ks)"
| "write_vmap b h H n ((k, x) # m) ks = (case write_v b h H n k ks of
     Inl e \<Rightarrow> Inl e
   | Inr (r, ks0) \<Rightarrow> (case write_v b h H n x ks0 of
       Inl e \<Rightarrow> Inl e
     | Inr (s, ks1) \<Rightarrow> (case write_vmap b h H n m ks1 of
         Inl e \<Rightarrow> Inl e | Inr (t, ks2) \<Rightarrow> Inr (r @ s @ t, ks2))))"
  by pat_completeness auto
termination
  by (relation "measures [case_sum
        (case_sum (\<lambda>(b, h, H, n, v, ks). n) (\<lambda>(b, h, H, n, xs, ks). n))
        (case_sum (\<lambda>(b, h, H, n, m, ks). n) (\<lambda>(b, h, H, n, m, ks). n)),
       case_sum
        (case_sum (\<lambda>(b, h, H, n, v, ks). size v) (\<lambda>(b, h, H, n, xs, ks). size_list size xs))
        (case_sum (\<lambda>(b, h, H, n, m, ks). size_list (size_prod (\<lambda>_. 0) size) m)
                  (\<lambda>(b, h, H, n, m, ks). size_list (size_prod size size) m))]")
     auto

subsection \<open>The frame\<close>

definition signature :: u16 where
  "signature = 0x472e"

definition header :: "host \<Rightarrow> u16 \<Rightarrow> nat \<Rightarrow> byte list" where
  "header h crc vsize = w16 h signature @ w16 h crc @ w64 h (word_of_nat vsize)"

text \<open>The checksum is taken over \<open>vsize + 4\<close> bytes from offset 4, whatever stands before.\<close>

definition crc_of :: "platform \<Rightarrow> nat \<Rightarrow> byte list \<Rightarrow> u16" where
  "crc_of b vsize data = crc16 b (take (vsize + 4) (drop 4 data))"

text \<open>
  \<open>serialize\<close>: the second pass writes behind the header into \<open>vsize\<close> bytes.  Bytes the
  pass does not reach would keep what \<open>new char[]\<close> left there; there are none.
\<close>

definition serialize ::
  "platform \<Rightarrow> host \<Rightarrow> (nat \<Rightarrow> variant option) \<Rightarrow> nat \<Rightarrow> variant \<Rightarrow> byte list sresult" where
  "serialize b h H n v = (case calc_v H n v [] of
     Inl e \<Rightarrow> Inl e
   | Inr (vsize, _) \<Rightarrow> (case write_v b h H n v [] of
       Inl e \<Rightarrow> Inl e
     | Inr (bs, _) \<Rightarrow>
         (if vsize < length bs then Inl BufOverflow
          else let body = bs @ replicate (vsize - length bs) 0
               in Inr (header h (crc_of b vsize (header h 0 vsize @ body)) vsize @ body))))"

subsection \<open>The two passes agree\<close>

fun ptr_free :: "variant \<Rightarrow> bool" where
  "ptr_free (VNull e) = True"
| "ptr_free (VVal (Scalar s)) = True"
| "ptr_free (VVal (Seq k xs)) = (\<forall>x\<in>set xs. ptr_free x)"
| "ptr_free (VVal (SMap k m)) = (\<forall>e\<in>set m. ptr_free (snd e))"
| "ptr_free (VVal (VMap k m)) = (\<forall>e\<in>set m. ptr_free (fst e) \<and> ptr_free (snd e))"
| "ptr_free (VVal (Ptr r)) = False"

text \<open>A UUID has 16 bytes; nothing else is asked of a value here.\<close>

fun scalar_sized :: "scalar \<Rightarrow> bool" where
  "scalar_sized (Uuid u) = (length u = 16)"
| "scalar_sized _ = True"

fun sized :: "variant \<Rightarrow> bool" where
  "sized (VNull e) = True"
| "sized (VVal (Scalar s)) = scalar_sized s"
| "sized (VVal (Seq k xs)) = (\<forall>x\<in>set xs. sized x)"
| "sized (VVal (SMap k m)) = (\<forall>e\<in>set m. sized (snd e))"
| "sized (VVal (VMap k m)) = (\<forall>e\<in>set m. sized (fst e) \<and> sized (snd e))"
| "sized (VVal (Ptr r)) = True"

text \<open>Every date has a year, a month and a day.\<close>

fun scalar_dated :: "platform \<Rightarrow> scalar \<Rightarrow> bool" where
  "scalar_dated b (Date x) = (date_ymd b x \<noteq> None)"
| "scalar_dated b (Datetime x) = (date_ymd b (ptime_date b x) \<noteq> None)"
| "scalar_dated b _ = True"

fun proper_dates :: "platform \<Rightarrow> variant \<Rightarrow> bool" where
  "proper_dates b (VNull e) = True"
| "proper_dates b (VVal (Scalar s)) = scalar_dated b s"
| "proper_dates b (VVal (Seq k xs)) = (\<forall>x\<in>set xs. proper_dates b x)"
| "proper_dates b (VVal (SMap k m)) = (\<forall>e\<in>set m. proper_dates b (snd e))"
| "proper_dates b (VVal (VMap k m)) = (\<forall>e\<in>set m. proper_dates b (fst e) \<and> proper_dates b (snd e))"
| "proper_dates b (VVal (Ptr r)) = True"

lemma length_w [simp]:
  "length (w8 x) = 1" "length (w16 h y) = 2" "length (w32 h z) = 4" "length (w64 h w) = 8"
  by (simp_all add: w8_def w16_def w32_def w64_def)

lemma length_write_bitset [simp]: "length (write_bitset (w :: 'w::len word)) = LENGTH('w) div 8"
  by (simp add: write_bitset_def)

lemma length_write_string [simp]: "length (write_string h s) = 8 + length s"
  by (simp add: write_string_def)

lemma length_write_et [simp]: "length (write_et h v) = 2"
  by (simp add: write_et_def)

lemma length_write_scalar: "scalar_sized s \<Longrightarrow> write_scalar b h s = Some bs \<Longrightarrow> length bs = scalar_size s"
  by (cases s) auto

lemma write_scalar_None: "write_scalar b h s = None \<longleftrightarrow> \<not> scalar_dated b s"
  by (cases s) (auto simp: date_number_def split: option.splits)

text \<open>
  The second pass meets the errors of the first, and dates that throw; where it succeeds so does the
  first, with the same keys; it writes as many bytes as were counted if there is no pointer, and more
  if there is one.
\<close>

definition passes_agree :: "(nat \<times> nat list) sresult \<Rightarrow> (byte list \<times> nat list) sresult \<Rightarrow> bool \<Rightarrow> bool" where
  "passes_agree c w free \<longleftrightarrow> (case w of
     Inl e \<Rightarrow> c = Inl e \<or> e = DateThrown
   | Inr (bs, ks) \<Rightarrow> (\<exists>s. c = Inr (s, ks) \<and> s \<le> length bs \<and> (length bs = s \<longleftrightarrow> free)))"

definition heap_sized :: "(nat \<Rightarrow> variant option) \<Rightarrow> bool" where
  "heap_sized H \<longleftrightarrow> (\<forall>a v. H a = Some v \<longrightarrow> sized v)"

lemma passes_agree_Inl [simp]: "passes_agree c (Inl e) free \<longleftrightarrow> c = Inl e \<or> e = DateThrown"
  by (simp add: passes_agree_def)

lemma passes_agree_Inr [simp]:
  "passes_agree c (Inr (bs, ks)) free \<longleftrightarrow>
     (\<exists>s. c = Inr (s, ks) \<and> s \<le> length bs \<and> (length bs = s \<longleftrightarrow> free))"
  by (simp add: passes_agree_def)

lemma passes_agreeE:
  assumes "passes_agree c w free"
  obtains e where "w = Inl e" "c = Inl e \<or> e = DateThrown"
  | s ks bs where "c = Inr (s, ks)" "w = Inr (bs, ks)" "s \<le> length bs" "length bs = s \<longleftrightarrow> free"
proof (cases w)
  case (Inl e)
  then show thesis using assms that(1) by simp
next
  case (Inr r)
  then show thesis using assms that(2) by (cases r) auto
qed

lemma calc_write_agree:
  shows "heap_sized H \<Longrightarrow> sized v \<Longrightarrow> passes_agree (calc_v H n v ks) (write_v b h H n v ks) (ptr_free v)"
    and "heap_sized H \<Longrightarrow> (\<forall>x\<in>set xs. sized x) \<Longrightarrow>
      passes_agree (calc_seq H n xs ks) (write_seq b h H n xs ks) (\<forall>x\<in>set xs. ptr_free x)"
    and "heap_sized H \<Longrightarrow> (\<forall>e\<in>set m. sized (snd e)) \<Longrightarrow>
      passes_agree (calc_smap H n m ks) (write_smap b h H n m ks) (\<forall>e\<in>set m. ptr_free (snd e))"
    and "heap_sized H \<Longrightarrow> (\<forall>e\<in>set m'. sized (fst e) \<and> sized (snd e)) \<Longrightarrow>
      passes_agree (calc_vmap H n m' ks) (write_vmap b h H n m' ks)
        (\<forall>e\<in>set m'. ptr_free (fst e) \<and> ptr_free (snd e))"
proof (induction H n v ks and H n xs ks and H n m ks and H n m' ks
    rule: calc_v_calc_seq_calc_smap_calc_vmap.induct)
  case (8 H n a ks)
  show ?case
  proof (cases "a \<in> set ks \<or> H a = None")
    case False
    then obtain v where v: "H a = Some v" "a \<notin> set ks" by auto
    then have "sized v" using "8.prems"(1) by (auto simp: heap_sized_def)
    then show ?thesis
      by (rule passes_agreeE [OF "8.IH" [OF v(2,1) "8.prems"(1)]]) (auto simp: v)
  qed auto
next
  case (10 H n x xs ks)
  have x: "passes_agree (calc_v H n x ks) (write_v b h H n x ks) (ptr_free x)"
    using "10.IH"(1) "10.prems" by simp
  show ?case
  proof (rule passes_agreeE [OF x])
    fix s ks1 bs assume 1: "calc_v H n x ks = Inr (s, ks1)" "write_v b h H n x ks = Inr (bs, ks1)"
      "s \<le> length bs" "length bs = s \<longleftrightarrow> ptr_free x"
    show ?thesis
      by (rule passes_agreeE [OF "10.IH"(2) [OF 1(1) refl "10.prems"(1)]])
        (use "10.prems" 1 in auto)
  qed (auto split: sum.split)
next
  case (12 H n k x m ks)
  have x: "passes_agree (calc_v H n x ks) (write_v b h H n x ks) (ptr_free x)"
    using "12.IH"(1) "12.prems" by simp
  show ?case
  proof (rule passes_agreeE [OF x])
    fix s ks1 bs assume 1: "calc_v H n x ks = Inr (s, ks1)" "write_v b h H n x ks = Inr (bs, ks1)"
      "s \<le> length bs" "length bs = s \<longleftrightarrow> ptr_free x"
    show ?thesis
      by (rule passes_agreeE [OF "12.IH"(2) [OF 1(1) refl "12.prems"(1)]])
        (use "12.prems" 1 in auto)
  qed (auto split: sum.split)
next
  case (14 H n k x m ks)
  have k: "passes_agree (calc_v H n k ks) (write_v b h H n k ks) (ptr_free k)"
    using "14.IH"(1) "14.prems" by simp
  show ?case
  proof (rule passes_agreeE [OF k])
    fix r ks0 bs0 assume 0: "calc_v H n k ks = Inr (r, ks0)" "write_v b h H n k ks = Inr (bs0, ks0)"
      "r \<le> length bs0" "length bs0 = r \<longleftrightarrow> ptr_free k"
    have x: "passes_agree (calc_v H n x ks0) (write_v b h H n x ks0) (ptr_free x)"
      using "14.IH"(2) [OF 0(1) refl] "14.prems" by simp
    show ?thesis
    proof (rule passes_agreeE [OF x])
      fix s ks1 bs assume 1: "calc_v H n x ks0 = Inr (s, ks1)" "write_v b h H n x ks0 = Inr (bs, ks1)"
        "s \<le> length bs" "length bs = s \<longleftrightarrow> ptr_free x"
      show ?thesis
        by (rule passes_agreeE [OF "14.IH"(3) [OF 0(1) refl 1(1) refl "14.prems"(1)]])
          (use "14.prems" 0 1 in auto)
    qed (use 0 in \<open>auto split: sum.split\<close>)
  qed (auto split: sum.split)
next
  case (3 H n k xs ks)
  show ?case by (rule passes_agreeE [OF "3.IH" [OF "3.prems"(1)]]) (use "3.prems" in auto)
next
  case (4 H n k m ks)
  show ?case by (rule passes_agreeE [OF "4.IH" [OF "4.prems"(1)]]) (use "4.prems" in auto)
next
  case (5 H n k m ks)
  show ?case by (rule passes_agreeE [OF "5.IH" [OF "5.prems"(1)]]) (use "5.prems" in auto)
next
  case (2 H n s ks)
  then show ?case by (auto split: option.split dest: length_write_scalar)
qed simp_all

lemma calc_ptr_free:
  shows "ptr_free v \<Longrightarrow> \<exists>s. calc_v H n v ks = Inr (s, ks)"
    and "(\<forall>x\<in>set xs. ptr_free x) \<Longrightarrow> \<exists>s. calc_seq H n xs ks = Inr (s, ks)"
    and "(\<forall>e\<in>set m. ptr_free (snd e)) \<Longrightarrow> \<exists>s. calc_smap H n m ks = Inr (s, ks)"
    and "(\<forall>e\<in>set m'. ptr_free (fst e) \<and> ptr_free (snd e)) \<Longrightarrow> \<exists>s. calc_vmap H n m' ks = Inr (s, ks)"
proof (induction H n v ks and H n xs ks and H n m ks and H n m' ks
    rule: calc_v_calc_seq_calc_smap_calc_vmap.induct)
qed (auto, fastforce+)
text \<open>The bytes of a value without pointers.\<close>

fun wire :: "platform \<Rightarrow> host \<Rightarrow> variant \<Rightarrow> byte list" where
  "wire b h (VNull e) = write_et h (VNull e)"
| "wire b h (VVal (Scalar s)) = write_et h (VVal (Scalar s)) @ (case write_scalar b h s of None \<Rightarrow> [] | Some bs \<Rightarrow> bs)"
| "wire b h (VVal (Seq k xs)) =
     write_et h (VVal (Seq k xs)) @ w64 h (word_of_nat (length xs)) @ concat (map (wire b h) xs)"
| "wire b h (VVal (SMap k m)) =
     write_et h (VVal (SMap k m)) @ w64 h (word_of_nat (length m)) @
     concat (map (\<lambda>e. write_string h (fst e) @ wire b h (snd e)) m)"
| "wire b h (VVal (VMap k m)) =
     write_et h (VVal (VMap k m)) @ w64 h (word_of_nat (length m)) @
     concat (map (\<lambda>e. wire b h (fst e) @ wire b h (snd e)) m)"
| "wire b h (VVal (Ptr r)) = []"

lemma write_ptr_free:
  shows "ptr_free v \<Longrightarrow> write_v b h H n v ks = (if proper_dates b v then Inr (wire b h v, ks) else Inl DateThrown)"
    and "(\<forall>x\<in>set xs. ptr_free x) \<Longrightarrow> write_seq b h H n xs ks =
      (if \<forall>x\<in>set xs. proper_dates b x then Inr (concat (map (wire b h) xs), ks) else Inl DateThrown)"
    and "(\<forall>e\<in>set m. ptr_free (snd e)) \<Longrightarrow> write_smap b h H n m ks =
      (if \<forall>e\<in>set m. proper_dates b (snd e)
       then Inr (concat (map (\<lambda>e. write_string h (fst e) @ wire b h (snd e)) m), ks) else Inl DateThrown)"
    and "(\<forall>e\<in>set m'. ptr_free (fst e) \<and> ptr_free (snd e)) \<Longrightarrow> write_vmap b h H n m' ks =
      (if \<forall>e\<in>set m'. proper_dates b (fst e) \<and> proper_dates b (snd e)
       then Inr (concat (map (\<lambda>e. wire b h (fst e) @ wire b h (snd e)) m'), ks) else Inl DateThrown)"
proof (induction b h H n v ks and b h H n xs ks and b h H n m ks and b h H n m' ks
    rule: write_v_write_seq_write_smap_write_vmap.induct)
  case (2 b h H n s ks)
  show ?case using write_scalar_None [of b h s] by (auto split: option.split)
qed simp_all

text \<open>A value without pointers, in its frame.\<close>

definition framed :: "platform \<Rightarrow> host \<Rightarrow> byte list \<Rightarrow> byte list" where
  "framed b h body =
     header h (crc_of b (length body) (header h 0 (length body) @ body)) (length body) @ body"

lemma calc_wire:
  shows "ptr_free v \<Longrightarrow> sized v \<Longrightarrow> proper_dates b v \<Longrightarrow> calc_v H n v ks = Inr (length (wire b h v), ks)"
    and "(\<forall>x\<in>set xs. ptr_free x \<and> sized x \<and> proper_dates b x) \<Longrightarrow>
      calc_seq H n xs ks = Inr (length (concat (map (wire b h) xs)), ks)"
    and "(\<forall>e\<in>set m. ptr_free (snd e) \<and> sized (snd e) \<and> proper_dates b (snd e)) \<Longrightarrow> calc_smap H n m ks =
      Inr (length (concat (map (\<lambda>e. write_string h (fst e) @ wire b h (snd e)) m)), ks)"
    and "(\<forall>e\<in>set m'. ptr_free (fst e) \<and> ptr_free (snd e) \<and> sized (fst e) \<and> sized (snd e) \<and>
        proper_dates b (fst e) \<and> proper_dates b (snd e)) \<Longrightarrow>
      calc_vmap H n m' ks =
      Inr (length (concat (map (\<lambda>e. wire b h (fst e) @ wire b h (snd e)) m')), ks)"
proof (induction H n v ks and H n xs ks and H n m ks and H n m' ks
    rule: calc_v_calc_seq_calc_smap_calc_vmap.induct)
  case (2 H n s ks)
  then show ?case
    using write_scalar_None [of b h s] by (auto split: option.split dest: length_write_scalar)
qed simp_all

lemma serialize_ptr_free:
  assumes "ptr_free v" and "sized v" and "proper_dates b v"
  shows "serialize b h H n v = Inr (framed b h (wire b h v))"
  unfolding serialize_def
  by (simp add: calc_wire(1) [OF assms, where h = h] write_ptr_free(1) [OF assms(1)] assms(3)
      framed_def Let_def)

lemma serialize_special_date:
  assumes "ptr_free v" and "\<not> proper_dates b v"
  shows "serialize b h H n v = Inl DateThrown"
proof -
  obtain s where "calc_v H n v [] = Inr (s, [])" using calc_ptr_free(1) [OF assms(1)] by blast
  then show ?thesis by (simp add: serialize_def write_ptr_free(1) [OF assms(1)] assms(2))
qed

lemma serialize_ptr:
  assumes "heap_sized H" and "sized v" and "\<not> ptr_free v"
  shows "\<exists>e. serialize b h H n v = Inl e"
  using calc_write_agree(1) [OF assms(1,2), of n "[]" b h] assms(3)
  by (auto simp: serialize_def elim!: passes_agreeE split: sum.split)

subsection \<open>Properties\<close>

text \<open>
  C19: the two passes agree on every value without a pointer whose dates have a year, a month and a
  day: the buffer is filled exactly and the frame comes out.  A special date, such as the default
  one, throws.  A value that holds a pointer at any depth, be it null, is never
  serialized: its key is counted with four bytes and written with eight, so that the
  second pass runs over the end of the buffer if it gets so far.
\<close>

theorem serialize_ok_iff:
  assumes "heap_sized H" and "sized v"
  shows "((\<exists>data. serialize b h H n v = Inr data) \<longleftrightarrow> ptr_free v \<and> proper_dates b v) \<and>
    ((\<exists>data. serialize b h H n v = Inr data) \<longleftrightarrow>
       serialize b h H n v = Inr (framed b h (wire b h v))) \<and>
    (ptr_free v \<and> \<not> proper_dates b v \<longrightarrow> serialize b h H n v = Inl DateThrown) \<and>
    serialize b h H n (VVal (Ptr None)) = Inl BufOverflow"
proof -
  have null: "serialize b h H n (VVal (Ptr None)) = Inl BufOverflow"
    by (simp add: serialize_def)
  consider "ptr_free v" "proper_dates b v" | "ptr_free v" "\<not> proper_dates b v" | "\<not> ptr_free v" by blast
  then show ?thesis
  proof cases
    case 1
    then show ?thesis using serialize_ptr_free [OF 1(1) assms(2) 1(2)] null by simp
  next
    case 2
    then show ?thesis using serialize_special_date [OF 2] null by simp
  next
    case 3
    then obtain e where "serialize b h H n v = Inl e" using serialize_ptr [OF assms] by blast
    then show ?thesis using 3 null by simp
  qed
qed

theorem serialize_ok_iff_witness:
  "\<not> (\<exists>data. serialize sample_platform LittleHost Map.empty 9 (VVal (Seq VectorK [VVal (Ptr None)])) = Inr data) \<and>
   (\<exists>data. serialize sample_platform LittleHost Map.empty 9 (VVal (Scalar (Uuid (replicate 16 7)))) = Inr data) \<and>
   serialize sample_platform LittleHost Map.empty 9 (VVal (Scalar (Date (date_default sample_platform)))) = Inl DateThrown"
  using serialize_ok_iff [of Map.empty "VVal (Seq VectorK [VVal (Ptr None)])" sample_platform LittleHost 9]
    serialize_ok_iff [of Map.empty "VVal (Scalar (Uuid (replicate 16 7)))" sample_platform LittleHost 9]
    serialize_ok_iff [of Map.empty "VVal (Scalar (Date (date_default sample_platform)))" sample_platform LittleHost 9]
  by (simp add: heap_sized_def sample_platform_def)

end
