(* ===== verification/VariantRead.thy ===== *)
theory VariantRead
  imports VariantSerial Containers
begin

text \<open>
  The reading half of \<^verbatim>\<open>src/utils/variantSerialization.cpp\<close>.  A reader is the rest of the
  buffer and the table of the pointers met.  \<open>read\<close> returns a boolean and leaves what it
  has built so far in the variant, and its caller \<open>deserialize\<close> does not look at the
  boolean, so the functions here return boolean, value and reader; an exception or an
  access outside the buffer is an error.  Every variant that is read into is fresh.
\<close>

record reader =
  buf :: "byte list"
  rkeys :: "u64 \<Rightarrow> nat option"
  rheap :: "nat \<Rightarrow> variant option"
  rnext :: nat

datatype rerror = BadAlloc | OverRead | ReadFuel

type_synonym 'a rresult = "rerror + bool \<times> 'a \<times> reader"

subsection \<open>Bytes and integers\<close>

text \<open>
  \<open>readBinary\<close> compares what is left with \<open>(int)size\<close>, the low 32 bits as a signed number,
  and then copies \<open>size\<close> bytes.
\<close>

definition readBinary :: "nat \<Rightarrow> reader \<Rightarrow> byte list rresult" where
  "readBinary n st =
     (if int (length (buf st)) < sint (word_of_nat n :: u32) then Inr (False, [], st)
      else if length (buf st) < n then Inl OverRead
      else Inr (True, take n (buf st), st\<lparr>buf := drop n (buf st)\<rparr>))"

definition read8 :: "reader \<Rightarrow> (byte \<times> reader) option" where
  "read8 st = (case buf st of [] \<Rightarrow> None | c # bs \<Rightarrow> Some (c, st\<lparr>buf := bs\<rparr>))"

definition read16 :: "host \<Rightarrow> reader \<Rightarrow> (u16 \<times> reader) option" where
  "read16 h st = (if length (buf st) < 2 then None
     else Some (litEndian16 h (of_mem h (take 2 (buf st))), st\<lparr>buf := drop 2 (buf st)\<rparr>))"

definition read32 :: "host \<Rightarrow> reader \<Rightarrow> (u32 \<times> reader) option" where
  "read32 h st = (if length (buf st) < 4 then None
     else Some (litEndian32 h (of_mem h (take 4 (buf st))), st\<lparr>buf := drop 4 (buf st)\<rparr>))"

definition read64 :: "host \<Rightarrow> reader \<Rightarrow> (u64 \<times> reader) option" where
  "read64 h st = (if length (buf st) < 8 then None
     else Some (litEndian64 h (of_mem h (take 8 (buf st))), st\<lparr>buf := drop 8 (buf st)\<rparr>))"

definition read_string :: "platform \<Rightarrow> host \<Rightarrow> reader \<Rightarrow> string rresult" where
  "read_string b h st = (case read64 h st of
     None \<Rightarrow> Inr (False, [], st)
   | Some (n, st1) \<Rightarrow>
       (if n = 0 then Inr (True, [], st1)
        else if alloc_max b < unat n then Inl BadAlloc
        else (case readBinary (unat n) st1 of
            Inl e \<Rightarrow> Inl e
          | Inr (ok, bs, st2) \<Rightarrow>
              Inr (ok, if ok then map char_at bs else replicate (unat n) (char_at 0), st2))))"

text \<open>\<open>readBitset\<close>: the bits of the bytes read.\<close>

definition bitset_of :: "byte list \<Rightarrow> 'w::len word" where
  "bitset_of bs = word_of_bits LENGTH('w) (\<lambda>i. bit (bs ! (i div 8)) (i mod 8))"

definition readBitset :: "('w::len word \<Rightarrow> scalar) \<Rightarrow> reader \<Rightarrow> variant rresult" where
  "readBitset f st = (case readBinary (LENGTH('w) div 8) st of
     Inl e \<Rightarrow> Inl e
   | Inr (ok, bs, st1) \<Rightarrow> Inr (ok, VVal (Scalar (f (if ok then bitset_of bs else 0))), st1))"

definition date_of_number :: "platform \<Rightarrow> u32 \<Rightarrow> date option" where
  "date_of_number b w =
     (let n = unat w in date_make b (n div 10000 mod 2 ^ 16) (n mod 10000 div 100) (n mod 10000 mod 100))"

subsection \<open>Scalars\<close>

definition void_v :: variant where
  "void_v = VNull etVoid"

text \<open>Into a value built before the read, and into one assigned after it.\<close>

definition into :: "scalar \<Rightarrow> ('w \<Rightarrow> scalar) \<Rightarrow> ('w \<times> reader) option \<Rightarrow> reader \<Rightarrow> variant rresult" where
  "into d f r st = (case r of
     None \<Rightarrow> Inr (False, VVal (Scalar d), st)
   | Some (w, st1) \<Rightarrow> Inr (True, VVal (Scalar (f w)), st1))"

definition after :: "('w \<Rightarrow> scalar option) \<Rightarrow> ('w \<times> reader) option \<Rightarrow> reader \<Rightarrow> variant rresult" where
  "after f r st = (case r of
     None \<Rightarrow> Inr (False, void_v, st)
   | Some (w, st1) \<Rightarrow> (case f w of
       None \<Rightarrow> Inr (False, void_v, st1) | Some s \<Rightarrow> Inr (True, VVal (Scalar s), st1)))"

text \<open>Two integers one after the other: the first stays read when the second is missing.\<close>

definition read32_64 :: "host \<Rightarrow> reader \<Rightarrow> bool \<times> (u32 \<times> u64) \<times> reader" where
  "read32_64 h st = (case read32 h st of
     None \<Rightarrow> (False, (0, 0), st)
   | Some (x, st1) \<Rightarrow> (case read64 h st1 of
       None \<Rightarrow> (False, (x, 0), st1) | Some (y, st2) \<Rightarrow> (True, (x, y), st2)))"

fun read32s :: "host \<Rightarrow> nat \<Rightarrow> reader \<Rightarrow> bool \<times> u32 list \<times> reader" where
  "read32s h 0 st = (True, [], st)"
| "read32s h (Suc n) st = (case read32 h st of
     None \<Rightarrow> (False, [], st)
   | Some (x, st1) \<Rightarrow> (case read32s h n st1 of (ok, xs, st2) \<Rightarrow> (ok, x # xs, st2)))"

definition tm_of_list :: "u32 list \<Rightarrow> tm" where
  "tm_of_list d = \<lparr>tm_sec = d ! 0, tm_min = d ! 1, tm_hour = d ! 2, tm_mday = d ! 3, tm_mon = d ! 4,
     tm_year = d ! 5, tm_wday = d ! 6, tm_yday = d ! 7, tm_isdst = d ! 8\<rparr>"

fun read_scalar :: "platform \<Rightarrow> host \<Rightarrow> etype \<Rightarrow> reader \<Rightarrow> variant rresult" where
  "read_scalar b h etString st = (case read_string b h st of
     Inl e \<Rightarrow> Inl e | Inr (ok, s, st1) \<Rightarrow> Inr (ok, VVal (Scalar (String s)), st1))"
| "read_scalar b h etFloat st = into (Float 0) Float (read32 h st) st"
| "read_scalar b h etDouble st = into (Double 0) Double (read64 h st) st"
| "read_scalar b h etInt8 st = into (Int8 0) Int8 (read8 st) st"
| "read_scalar b h etInt16 st = into (Int16 0) Int16 (read16 h st) st"
| "read_scalar b h etInt32 st = into (Int32 0) Int32 (read32 h st) st"
| "read_scalar b h etInt64 st = into (Int64 0) Int64 (read64 h st) st"
| "read_scalar b h etUInt8 st = into (UInt8 0) UInt8 (read8 st) st"
| "read_scalar b h etUInt16 st = into (UInt16 0) UInt16 (read16 h st) st"
| "read_scalar b h etUInt32 st = into (UInt32 0) UInt32 (read32 h st) st"
| "read_scalar b h etUInt64 st = into (UInt64 0) UInt64 (read64 h st) st"
| "read_scalar b h etVectorChar st = (case read64 h st of
     None \<Rightarrow> Inr (False, void_v, st)
   | Some _ \<Rightarrow> (case read_string b h st of
       Inl e \<Rightarrow> Inl e | Inr (ok, s, st1) \<Rightarrow> Inr (ok, VVal (Scalar (VectorChar s)), st1)))"
| "read_scalar b h etDate st = after (\<lambda>w. map_option Date (date_of_number b w)) (read32 h st) st"
| "read_scalar b h etDatetime st = (case read32_64 h st of (ok, (x, y), st1) \<Rightarrow>
     (if ok then (case date_of_number b x of
          None \<Rightarrow> Inr (False, void_v, st1)
        | Some d \<Rightarrow> Inr (True, VVal (Scalar (Datetime (ptime_make b d (td_make b (sint y))))), st1))
      else Inr (False, void_v, st1)))"
| "read_scalar b h etBool st = after (\<lambda>c. Some (Bool (c \<noteq> 0))) (read8 st) st"
| "read_scalar b h etTm st = (case read32s h 9 st of (ok, d, st1) \<Rightarrow>
     (if ok then Inr (True, VVal (Scalar (Tm (tm_of_list d))), st1) else Inr (False, void_v, st1)))"
| "read_scalar b h etBitset8 st = readBitset Bitset8 st"
| "read_scalar b h etBitset16 st = readBitset Bitset16 st"
| "read_scalar b h etBitset32 st = readBitset Bitset32 st"
| "read_scalar b h etBitset64 st = readBitset Bitset64 st"
| "read_scalar b h etBitset128 st = readBitset Bitset128 st"
| "read_scalar b h etBitset256 st = readBitset Bitset256 st"
| "read_scalar b h etBitset512 st = readBitset Bitset512 st"
| "read_scalar b h etDateDuration st = after (\<lambda>w. Some (DateDuration (dd_make b (sint w)))) (read32 h st) st"
| "read_scalar b h etTimeDuration st = after (\<lambda>w. Some (TimeDuration (td_make b (sint w)))) (read64 h st) st"
| "read_scalar b h etDateTimeDuration st = (case read32_64 h st of (ok, (x, y), st1) \<Rightarrow>
     (if ok then Inr (True, VVal (Scalar (DateTimeDuration (dd_make b (sint x)) (td_make b (sint y)))), st1)
      else Inr (False, void_v, st1)))"
| "read_scalar b h etChar st = into (Char (char_at 0)) (\<lambda>c. Char (char_at c)) (read8 st) st"
| "read_scalar b h etUuid st = (case readBinary 16 st of
     Inl e \<Rightarrow> Inl e
   | Inr (ok, bs, st1) \<Rightarrow> Inr (ok, VVal (Scalar (Uuid (if ok then bs else uuid_garbage b))), st1))"
| "read_scalar b h _ st = Inr (False, void_v, st)"

subsection \<open>Variants\<close>

text \<open>
  \<open>readSeq_insertable\<close> inserts a void variant with the end as the hint, and reads into
  the element where it stands.
\<close>

fun insert_void :: "platform \<Rightarrow> seqkind \<Rightarrow> variant list \<Rightarrow> nat \<times> variant list" where
  "insert_void b SetK xs = insert_unique (less_v b) id (length xs) void_v xs"
| "insert_void b MultisetK xs = insert_multi (less_v b) id (length xs) void_v xs"
| "insert_void b _ xs = (length xs, xs @ [void_v])"

fun insert_string_entry :: "mapkind \<Rightarrow> string \<times> variant \<Rightarrow> (string \<times> variant) list \<Rightarrow> (string \<times> variant) list" where
  "insert_string_entry MapK e m = snd (insert_unique string_less fst (length m) e m)"
| "insert_string_entry MultimapK e m = snd (insert_multi string_less fst (length m) e m)"

fun insert_variant_entry ::
  "platform \<Rightarrow> mapkind \<Rightarrow> variant \<times> variant \<Rightarrow> (variant \<times> variant) list \<Rightarrow> (variant \<times> variant) list" where
  "insert_variant_entry b MapK e m = snd (insert_unique (less_v b) fst (length m) e m)"
| "insert_variant_entry b MultimapK e m = snd (insert_multi (less_v b) fst (length m) e m)"

text \<open>The kind of container a positive type number stands for.\<close>

datatype wire_shape = ScalarS | SeqS seqkind | SMapS mapkind | VMapS mapkind | PtrS

fun shape_of :: "etype \<Rightarrow> wire_shape" where
  "shape_of etVectorVariant = SeqS VectorK"
| "shape_of etSetVariant = SeqS SetK"
| "shape_of etMultisetVariant = SeqS MultisetK"
| "shape_of etDequeVariant = SeqS DequeK"
| "shape_of etListVariant = SeqS ListK"
| "shape_of etMapStringVariant = SMapS MapK"
| "shape_of etMultimapStringVariant = SMapS MultimapK"
| "shape_of etMapVariantVariant = VMapS MapK"
| "shape_of etMultimapVariantVariant = VMapS MultimapK"
| "shape_of etVariantPtr = PtrS"
| "shape_of _ = ScalarS"

text \<open>
  The loops, over a reader \<open>rd\<close> of one variant: \<open>read_vec\<close> fills the \<open>n\<close> elements that are
  left of a vector, void until they are reached; the others insert \<open>n\<close> elements.
\<close>

primrec read_vec :: "(reader \<Rightarrow> variant rresult) \<Rightarrow> nat \<Rightarrow> variant list \<Rightarrow> reader \<Rightarrow> variant list rresult" where
  "read_vec rd 0 acc st = Inr (True, acc, st)"
| "read_vec rd (Suc n) acc st = (case rd st of
     Inl e \<Rightarrow> Inl e
   | Inr (ok, v, st1) \<Rightarrow>
       (if ok then read_vec rd n (acc @ [v]) st1
        else Inr (False, acc @ v # replicate n void_v, st1)))"

primrec read_ins ::
  "platform \<Rightarrow> (reader \<Rightarrow> variant rresult) \<Rightarrow> seqkind \<Rightarrow> nat \<Rightarrow> variant list \<Rightarrow> reader \<Rightarrow> variant list rresult" where
  "read_ins b rd k 0 xs st = Inr (True, xs, st)"
| "read_ins b rd k (Suc n) xs st = (case insert_void b k xs of (i, ys) \<Rightarrow>
     (case rd st of
        Inl e \<Rightarrow> Inl e
      | Inr (ok, v, st1) \<Rightarrow>
          (if ok then read_ins b rd k n (ys[i := v]) st1 else Inr (False, ys[i := v], st1))))"

primrec read_smap ::
  "platform \<Rightarrow> host \<Rightarrow> (reader \<Rightarrow> variant rresult) \<Rightarrow> mapkind \<Rightarrow> nat \<Rightarrow> (string \<times> variant) list \<Rightarrow> reader \<Rightarrow>
     (string \<times> variant) list rresult" where
  "read_smap b h rd k 0 m st = Inr (True, m, st)"
| "read_smap b h rd k (Suc n) m st = (case read_string b h st of
     Inl e \<Rightarrow> Inl e
   | Inr (ok, s, st1) \<Rightarrow>
       (if ok then (case rd st1 of
            Inl e \<Rightarrow> Inl e
          | Inr (ok', v, st2) \<Rightarrow>
              (if ok' then read_smap b h rd k n (insert_string_entry k (s, v) m) st2
               else Inr (False, m, st2)))
        else Inr (False, m, st1)))"

primrec read_vmap ::
  "platform \<Rightarrow> (reader \<Rightarrow> variant rresult) \<Rightarrow> mapkind \<Rightarrow> nat \<Rightarrow> (variant \<times> variant) list \<Rightarrow> reader \<Rightarrow>
     (variant \<times> variant) list rresult" where
  "read_vmap b rd k 0 m st = Inr (True, m, st)"
| "read_vmap b rd k (Suc n) m st = (case rd st of
     Inl e \<Rightarrow> Inl e
   | Inr (ok, x, st1) \<Rightarrow>
       (if ok then (case rd st1 of
            Inl e \<Rightarrow> Inl e
          | Inr (ok', v, st2) \<Rightarrow>
              (if ok' then read_vmap b rd k n (insert_variant_entry b k (x, v) m) st2
               else Inr (False, m, st2)))
        else Inr (False, m, st1)))"

text \<open>The value a container read so far is wrapped into.\<close>

definition wrap :: "('a \<Rightarrow> payload) \<Rightarrow> 'a rresult \<Rightarrow> variant rresult" where
  "wrap f r = (case r of Inl e \<Rightarrow> Inl e | Inr (ok, x, st) \<Rightarrow> Inr (ok, VVal (f x), st))"

definition read_seq_v ::
  "platform \<Rightarrow> host \<Rightarrow> (reader \<Rightarrow> variant rresult) \<Rightarrow> seqkind \<Rightarrow> reader \<Rightarrow> variant rresult" where
  "read_seq_v b h rd k st = (case read64 h st of
     None \<Rightarrow> Inr (False, VVal (Seq k []), st)
   | Some (n, st1) \<Rightarrow>
       (if k = VectorK \<or> k = DequeK then
          (if alloc_max b < unat n then Inl BadAlloc else wrap (Seq k) (read_vec rd (unat n) [] st1))
        else wrap (Seq k) (read_ins b rd k (unat n) [] st1)))"

definition read_smap_v ::
  "platform \<Rightarrow> host \<Rightarrow> (reader \<Rightarrow> variant rresult) \<Rightarrow> mapkind \<Rightarrow> reader \<Rightarrow> variant rresult" where
  "read_smap_v b h rd k st = (case read64 h st of
     None \<Rightarrow> Inr (False, VVal (SMap k []), st)
   | Some (n, st1) \<Rightarrow> wrap (SMap k) (read_smap b h rd k (unat n) [] st1))"

definition read_vmap_v ::
  "platform \<Rightarrow> host \<Rightarrow> (reader \<Rightarrow> variant rresult) \<Rightarrow> mapkind \<Rightarrow> reader \<Rightarrow> variant rresult" where
  "read_vmap_v b h rd k st = (case read64 h st of
     None \<Rightarrow> Inr (False, VVal (VMap k []), st)
   | Some (n, st1) \<Rightarrow> wrap (VMap k) (read_vmap b rd k (unat n) [] st1))"

definition read_ptr_v :: "host \<Rightarrow> (reader \<Rightarrow> variant rresult) \<Rightarrow> reader \<Rightarrow> variant rresult" where
  "read_ptr_v h rd st = (case read64 h st of
     None \<Rightarrow> Inr (False, void_v, st)
   | Some (key, st1) \<Rightarrow>
       (if key = 0 then Inr (True, VVal (Ptr None), st1)
        else (case rkeys st1 key of
            Some a \<Rightarrow> Inr (True, VVal (Ptr (Some a)), st1)
          | None \<Rightarrow>
              (let a = rnext st1;
                   st2 = st1\<lparr>rkeys := (rkeys st1)(key \<mapsto> a), rnext := Suc a,
                              rheap := (rheap st1)(a \<mapsto> void_v)\<rparr>
               in case rd st2 of
                    Inl e \<Rightarrow> Inl e
                  | Inr (ok, v, st3) \<Rightarrow>
                      Inr (ok, VVal (Ptr (Some a)), st3\<lparr>rheap := (rheap st3)(a \<mapsto> v)\<rparr>)))))"

text \<open>\<open>read(Variant &)\<close>; the fuel bounds how deep values nest.\<close>

primrec read_v :: "nat \<Rightarrow> platform \<Rightarrow> host \<Rightarrow> reader \<Rightarrow> variant rresult" where
  "read_v 0 b h st = Inl ReadFuel"
| "read_v (Suc f) b h st = (case read16 h st of
     None \<Rightarrow> Inr (False, void_v, st)
   | Some (w, st0) \<Rightarrow>
       (if sint w < 0 then
          (case et_of (- sint w) of
             None \<Rightarrow> Inr (False, void_v, st0) | Some e \<Rightarrow> Inr (True, VNull e, st0))
        else (case et_of (sint w) of
            None \<Rightarrow> Inr (False, void_v, st0)
          | Some e \<Rightarrow> (case shape_of e of
              ScalarS \<Rightarrow> read_scalar b h e st0
            | SeqS k \<Rightarrow> read_seq_v b h (read_v f b h) k st0
            | SMapS k \<Rightarrow> read_smap_v b h (read_v f b h) k st0
            | VMapS k \<Rightarrow> read_vmap_v b h (read_v f b h) k st0
            | PtrS \<Rightarrow> read_ptr_v h (read_v f b h) st0))))"

subsection \<open>The frame\<close>

definition start :: "byte list \<Rightarrow> reader" where
  "start body = \<lparr>buf = body, rkeys = Map.empty, rheap = Map.empty, rnext = 0\<rparr>"

text \<open>
  \<open>deserialize\<close>, of a buffer of exactly the size given.  The result of \<open>read\<close> is dropped;
  only what is left in the buffer counts.
\<close>

definition deserialize :: "platform \<Rightarrow> host \<Rightarrow> byte list \<Rightarrow> variant rresult" where
  "deserialize b h data =
     (let no = Inr (False, void_v, start []); size = length data in
      if size < 12 + 2 then no
      else if litEndian16 h (of_mem h (take 2 data)) \<noteq> signature then no
      else let vsize = litEndian64 h (of_mem h (take 8 (drop 4 data))) in
        if vsize \<noteq> word_of_nat (size - 12) then no
        else if litEndian16 h (of_mem h (take 2 (drop 2 data))) \<noteq> crc_of b (size - 12) data then no
        else (case read_v (size - 12 + 2) b h (start (drop 12 data)) of
            Inl e \<Rightarrow> Inl e
          | Inr (_, v, st) \<Rightarrow> if buf st \<noteq> [] then Inr (False, void_v, st) else Inr (True, v, st)))"

text \<open>\<open>Variant::deserialize\<close>: into a temporary that is swapped in on success only.\<close>

definition deserialize_into ::
  "platform \<Rightarrow> host \<Rightarrow> byte list option \<Rightarrow> variant \<Rightarrow> rerror + bool \<times> variant" where
  "deserialize_into b h data v = (case data of
     None \<Rightarrow> Inr (False, v)
   | Some d \<Rightarrow> (case deserialize b h d of
       Inl e \<Rightarrow> Inl e | Inr (ok, tmp, _) \<Rightarrow> Inr (ok, if ok then tmp else v)))"

subsection \<open>Reading consumes, and the fuel is enough\<close>

text \<open>
  \<open>consumes d st r\<close>: the reading \<open>r\<close> from \<open>st\<close> does not run out of fuel, never gives bytes
  back, and has consumed \<open>d\<close> bytes if it succeeded.
\<close>

definition consumes :: "nat \<Rightarrow> reader \<Rightarrow> 'a rresult \<Rightarrow> bool" where
  "consumes d st r \<longleftrightarrow> (case r of
     Inl e \<Rightarrow> e \<noteq> ReadFuel
   | Inr (ok, x, st') \<Rightarrow> length (buf st') \<le> length (buf st) \<and>
       (ok \<longrightarrow> length (buf st') + d \<le> length (buf st)))"

lemma consumes_Inl [simp]: "consumes d st (Inl e) \<longleftrightarrow> e \<noteq> ReadFuel"
  by (simp add: consumes_def)

lemma consumes_Inr [simp]:
  "consumes d st (Inr (ok, x, st')) \<longleftrightarrow> length (buf st') \<le> length (buf st) \<and>
     (ok \<longrightarrow> length (buf st') + d \<le> length (buf st))"
  by (simp add: consumes_def)

lemma consumes_case:
  assumes "consumes d0 st r" and "\<And>e. e \<noteq> ReadFuel \<Longrightarrow> consumes d st (f (Inl e))"
    and "\<And>ok x st'. length (buf st') \<le> length (buf st) \<Longrightarrow>
      (ok \<Longrightarrow> length (buf st') + d0 \<le> length (buf st)) \<Longrightarrow> consumes d st (f (Inr (ok, x, st')))"
  shows "consumes d st (f r)"
  using assms by (cases r) auto

lemma read8_Some: "read8 st = Some (w, st') \<Longrightarrow> length (buf st') + 1 = length (buf st)"
  by (auto simp: read8_def split: list.splits)

lemma read16_Some: "read16 h st = Some (w, st') \<Longrightarrow> length (buf st') + 2 = length (buf st)"
  by (auto simp: read16_def split: if_splits)

lemma read32_Some: "read32 h st = Some (w, st') \<Longrightarrow> length (buf st') + 4 = length (buf st)"
  by (auto simp: read32_def split: if_splits)

lemma read64_Some: "read64 h st = Some (w, st') \<Longrightarrow> length (buf st') + 8 = length (buf st)"
  by (auto simp: read64_def split: if_splits)

lemmas read_Some = read8_Some read16_Some read32_Some read64_Some

lemma consumes_readBinary: "consumes 0 st (readBinary n st)"
  by (simp add: readBinary_def)

lemma consumes_read_string: "consumes 8 st (read_string b h st)"
proof (cases "read64 h st")
  case (Some r)
  obtain n st1 where r: "read64 h st = Some (n, st1)" using Some by (cases r) auto
  note len = read64_Some [OF r]
  show ?thesis
    using consumes_readBinary [of st1 "unat n"] len
    by (cases "readBinary (unat n) st1") (auto simp: read_string_def r)
qed (simp add: read_string_def)

lemma consumes_into: "(\<And>w st'. r = Some (w, st') \<Longrightarrow> length (buf st') \<le> length (buf st)) \<Longrightarrow>
    consumes 0 st (into d f r st)"
  by (auto simp: into_def split: option.split prod.split)

lemma consumes_after: "(\<And>w st'. r = Some (w, st') \<Longrightarrow> length (buf st') \<le> length (buf st)) \<Longrightarrow>
    consumes 0 st (after f r st)"
  by (auto simp: after_def split: option.split prod.split)

lemma consumes_readBitset: "consumes 0 st (readBitset f st)"
  unfolding readBitset_def
  by (rule consumes_case [OF consumes_readBinary, where f = "\<lambda>r. case r of Inl e \<Rightarrow> Inl e | Inr (ok, bs, st1) \<Rightarrow> Inr (ok, _ ok bs, st1)"]) simp_all

lemma read32_64_le: "read32_64 h st = (ok, p, st') \<Longrightarrow> length (buf st') \<le> length (buf st)"
  by (auto simp: read32_64_def split: option.splits dest!: read32_Some read64_Some)

lemma read32s_le: "read32s h n st = (ok, d, st') \<Longrightarrow> length (buf st') \<le> length (buf st)"
proof (induction n arbitrary: st ok d st')
  case (Suc n)
  then show ?case by (fastforce split: option.splits prod.splits dest!: read32_Some)
qed simp

lemma consumes_read_scalar: "consumes 0 st (read_scalar b h e st)"
proof -
  have into: "consumes 0 st (into d f (read8 st) st)" "consumes 0 st (into d f16 (read16 h st) st)"
    "consumes 0 st (into d f32 (read32 h st) st)" "consumes 0 st (into d f64 (read64 h st) st)"
    "consumes 0 st (after g (read8 st) st)" "consumes 0 st (after g32 (read32 h st) st)"
    "consumes 0 st (after g64 (read64 h st) st)" for d f f16 f32 f64 g g32 g64
    by (rule consumes_into consumes_after, drule read_Some, simp)+
  show ?thesis
    using consumes_read_string [of st b h] consumes_readBinary [of st 16]
    by (cases e) (auto simp: into consumes_readBitset split: sum.split option.split prod.split
        dest: read32_64_le read32s_le simp del: read32s.simps)
qed

text \<open>A reader of variants that is good for up to \<open>L\<close> bytes, in the loops.\<close>

definition good_reader :: "nat \<Rightarrow> (reader \<Rightarrow> variant rresult) \<Rightarrow> bool" where
  "good_reader L rd \<longleftrightarrow> (\<forall>st. length (buf st) < L \<longrightarrow> consumes 2 st (rd st))"

lemma good_readerD: "good_reader L rd \<Longrightarrow> length (buf st) < L \<Longrightarrow> consumes 2 st (rd st)"
  by (simp add: good_reader_def)

lemma consumes_trans:
  "consumes 0 st1 r \<Longrightarrow> length (buf st1) \<le> length (buf st) \<Longrightarrow> consumes 0 st r"
  by (cases r) auto

lemma consumes_read_vec:
  "good_reader L rd \<Longrightarrow> length (buf st) < L \<Longrightarrow> consumes 0 st (read_vec rd n acc st)"
proof (induction n arbitrary: acc st)
  case (Suc n)
  note rd = good_readerD [OF Suc.prems]
  show ?case
  proof (cases "rd st")
    case (Inr r)
    obtain ok v st1 where r: "rd st = Inr (ok, v, st1)" using Inr by (cases r) auto
    have "length (buf st1) \<le> length (buf st)" using rd r by simp
    then show ?thesis
      using Suc.IH [OF Suc.prems(1), of st1 "acc @ [v]"] Suc.prems(2) r
      by (auto intro: consumes_trans)
  qed (use rd in simp)
qed simp

lemma consumes_read_ins:
  "good_reader L rd \<Longrightarrow> length (buf st) < L \<Longrightarrow> consumes 0 st (read_ins b rd k n xs st)"
proof (induction n arbitrary: xs st)
  case (Suc n)
  note rd = good_readerD [OF Suc.prems]
  obtain i ys where ins: "insert_void b k xs = (i, ys)" by (cases "insert_void b k xs")
  show ?case
  proof (cases "rd st")
    case (Inr r)
    obtain ok v st1 where r: "rd st = Inr (ok, v, st1)" using Inr by (cases r) auto
    have "length (buf st1) \<le> length (buf st)" using rd r by simp
    then show ?thesis
      using Suc.IH [OF Suc.prems(1), of st1 "ys[i := v]"] Suc.prems(2) r ins
      by (auto intro: consumes_trans)
  qed (use rd ins in simp)
qed simp

lemma consumes_read_smap:
  "good_reader L rd \<Longrightarrow> length (buf st) < L \<Longrightarrow> consumes 0 st (read_smap b h rd k n m st)"
proof (induction n arbitrary: m st)
  case (Suc n)
  note str = consumes_read_string [of st b h]
  show ?case
  proof (cases "read_string b h st")
    case (Inr r)
    obtain ok s st1 where r: "read_string b h st = Inr (ok, s, st1)" using Inr by (cases r) auto
    have le1: "length (buf st1) \<le> length (buf st)" using str r by simp
    note rd = good_readerD [OF Suc.prems(1), of st1]
    show ?thesis
    proof (cases "rd st1")
      case (Inl e)
      then show ?thesis using r le1 rd Suc.prems(2) by simp
    next
      case (Inr r')
      obtain ok' v st2 where r': "rd st1 = Inr (ok', v, st2)" using Inr by (cases r') auto
      have "length (buf st2) \<le> length (buf st)" using rd r' le1 Suc.prems(2) by simp
      then show ?thesis
        using Suc.IH [OF Suc.prems(1), of st2] Suc.prems(2) r r' le1
        by (auto intro: consumes_trans)
    qed
  qed (use str in simp)
qed simp

lemma consumes_read_vmap:
  "good_reader L rd \<Longrightarrow> length (buf st) < L \<Longrightarrow> consumes 0 st (read_vmap b rd k n m st)"
proof (induction n arbitrary: m st)
  case (Suc n)
  note key = good_readerD [OF Suc.prems]
  show ?case
  proof (cases "rd st")
    case (Inr r)
    obtain ok x st1 where r: "rd st = Inr (ok, x, st1)" using Inr by (cases r) auto
    have le1: "length (buf st1) \<le> length (buf st)" using key r by simp
    note rd = good_readerD [OF Suc.prems(1), of st1]
    show ?thesis
    proof (cases "rd st1")
      case (Inl e)
      then show ?thesis using r le1 rd Suc.prems(2) by simp
    next
      case (Inr r')
      obtain ok' v st2 where r': "rd st1 = Inr (ok', v, st2)" using Inr by (cases r') auto
      have "length (buf st2) \<le> length (buf st)" using rd r' le1 Suc.prems(2) by simp
      then show ?thesis
        using Suc.IH [OF Suc.prems(1), of st2] Suc.prems(2) r r' le1
        by (auto intro: consumes_trans)
    qed
  qed (use key in simp)
qed simp

lemma consumes_wrap: "consumes d st (wrap f r) \<longleftrightarrow> consumes d st r"
  by (cases r) (auto simp: wrap_def)

lemma consumes_containers:
  assumes "good_reader L rd" and "length (buf st) < L"
  shows "consumes 0 st (read_seq_v b h rd k st)" "consumes 0 st (read_smap_v b h rd k' st)"
    "consumes 0 st (read_vmap_v b h rd k' st)" "consumes 0 st (read_ptr_v h rd st)"
proof -
  have le: "length (buf st1) \<le> length (buf st)" "length (buf st1) < L"
    if "read64 h st = Some (n, st1)" for n st1
    using read64_Some [OF that] assms(2) by simp_all
  show "consumes 0 st (read_seq_v b h rd k st)"
    using le by (auto simp: read_seq_v_def consumes_wrap split: option.split
        intro!: consumes_trans [OF consumes_read_vec [OF assms(1)]]
          consumes_trans [OF consumes_read_ins [OF assms(1)]])
  show "consumes 0 st (read_smap_v b h rd k' st)"
    using le by (auto simp: read_smap_v_def consumes_wrap split: option.split
        intro!: consumes_trans [OF consumes_read_smap [OF assms(1)]])
  show "consumes 0 st (read_vmap_v b h rd k' st)"
    using le by (auto simp: read_vmap_v_def consumes_wrap split: option.split
        intro!: consumes_trans [OF consumes_read_vmap [OF assms(1)]])
  show "consumes 0 st (read_ptr_v h rd st)"
  proof (cases "read64 h st")
    case (Some r)
    obtain key st1 where r: "read64 h st = Some (key, st1)" using Some by (cases r) auto
    let ?st2 = "st1\<lparr>rkeys := (rkeys st1)(key \<mapsto> rnext st1), rnext := Suc (rnext st1),
      rheap := (rheap st1)(rnext st1 \<mapsto> void_v)\<rparr>"
    have "consumes 2 ?st2 (rd ?st2)" using good_readerD [OF assms(1), of ?st2] le(2) [OF r] by simp
    then show ?thesis
      using le(1) [OF r]
      by (cases "rd ?st2") (auto simp: read_ptr_v_def r Let_def split: option.split)
  qed (simp add: read_ptr_v_def)
qed

lemma good_read_v: "good_reader f (read_v f b h)"
proof (induction f)
  case (Suc f)
  show ?case
    unfolding good_reader_def
  proof (intro allI impI)
    fix st :: reader assume len: "length (buf st) < Suc f"
    show "consumes 2 st (read_v (Suc f) b h st)"
    proof (cases "read16 h st")
      case (Some r)
      obtain w st0 where r: "read16 h st = Some (w, st0)" using Some by (cases r) auto
      note le = read16_Some [OF r]
      have len0: "length (buf st0) < f" using le len by simp
      have two: "consumes 2 st x" if "consumes 0 st0 x" for x :: "variant rresult"
        using that le by (cases x) auto
      have body: "consumes 0 st0 (case shape_of e of
            ScalarS \<Rightarrow> read_scalar b h e st0
          | SeqS k \<Rightarrow> read_seq_v b h (read_v f b h) k st0
          | SMapS k \<Rightarrow> read_smap_v b h (read_v f b h) k st0
          | VMapS k \<Rightarrow> read_vmap_v b h (read_v f b h) k st0
          | PtrS \<Rightarrow> read_ptr_v h (read_v f b h) st0)" for e
        using consumes_containers [OF Suc len0] consumes_read_scalar by (cases "shape_of e") simp_all
      show ?thesis
        using two [OF body] le by (auto simp: r split: option.split)
    qed simp
  qed
qed (simp add: good_reader_def)

subsection \<open>Properties\<close>

text \<open>
  Reading ends on every input: the nesting of the values read is bounded by the bytes of
  the buffer, so the fuel \<open>deserialize\<close> gives is enough, whatever the data.
\<close>

theorem deserialize_terminates: "deserialize b h data \<noteq> Inl ReadFuel"
proof -
  let ?st = "start (drop 12 data)"
  have "consumes 2 ?st (read_v (length data - 12 + 2) b h ?st)"
    by (rule good_readerD [OF good_read_v]) (simp add: start_def)
  then have "read_v (length data - 12 + 2) b h ?st \<noteq> Inl ReadFuel"
    by (cases "read_v (length data - 12 + 2) b h ?st") auto
  then show ?thesis
    by (auto simp: deserialize_def Let_def split: sum.split prod.split)
qed
end
