(* ===== verification/VariantRoundtrip.thy ===== *)
theory VariantRoundtrip
  imports VariantRead
begin

text \<open>
  What \<open>deserialize\<close> makes of what \<open>serialize\<close> wrote: the round trip, the sets that come
  back in the wrong order, and the damaged buffers that are accepted.
\<close>

subsection \<open>Fixed-width integers\<close>

locale int_codec =
  fixes put :: "'w \<Rightarrow> byte list" and get :: "reader \<Rightarrow> ('w \<times> reader) option"
  assumes get_put: "buf st = put w @ rest \<Longrightarrow> get st = Some (w, st\<lparr>buf := rest\<rparr>)"
begin

lemma into_put:
  "buf st = put w @ rest \<Longrightarrow> into d f (get st) st = Inr (True, VVal (Scalar (f w)), st\<lparr>buf := rest\<rparr>)"
  by (simp add: into_def get_put)

lemma after_put:
  "buf st = put w @ rest \<Longrightarrow> f w = Some s \<Longrightarrow>
     after f (get st) st = Inr (True, VVal (Scalar s), st\<lparr>buf := rest\<rparr>)"
  by (simp add: after_def get_put)

end

interpretation c8: int_codec w8 read8
  by unfold_locales (simp add: w8_def read8_def)

interpretation c16: int_codec "w16 h" "read16 h" for h
  by unfold_locales (simp add: w16_def read16_def of_mem_mem)

interpretation c32: int_codec "w32 h" "read32 h" for h
  by unfold_locales (simp add: w32_def read32_def of_mem_mem)

interpretation c64: int_codec "w64 h" "read64 h" for h
  by unfold_locales (simp add: w64_def read64_def of_mem_mem)

lemmas into_puts = c8.into_put c16.into_put c32.into_put c64.into_put
lemmas after_puts = c8.after_put c16.after_put c32.after_put c64.after_put
lemmas get_puts = c8.get_put c16.get_put c32.get_put c64.get_put

subsection \<open>Scalars\<close>

text \<open>
  The values that survive: lengths that are positive as an \<open>int\<close>, dates with the numbers
  that Boost's calendar gives and takes back, durations that fit the integers written.
\<close>

definition date_ok :: "platform \<Rightarrow> date \<Rightarrow> bool" where
  "date_ok b x \<longleftrightarrow> (case date_ymd b x of None \<Rightarrow> False | Some (y, m, d) \<Rightarrow>
     y < 2 ^ 16 \<and> m < 100 \<and> d < 100 \<and> date_make b y m d = Some x)"

definition string_ok :: "platform \<Rightarrow> string \<Rightarrow> bool" where
  "string_ok b s \<longleftrightarrow> length s < 2 ^ 31 \<and> length s \<le> alloc_max b"

definition dd_ok :: "platform \<Rightarrow> dduration \<Rightarrow> bool" where
  "dd_ok b d \<longleftrightarrow> - (2 ^ 31) \<le> dd_days b d \<and> dd_days b d < 2 ^ 31 \<and> dd_make b (dd_days b d) = d"

definition td_ok :: "platform \<Rightarrow> tduration \<Rightarrow> bool" where
  "td_ok b t \<longleftrightarrow> - (2 ^ 63) \<le> td_usecs b t \<and> td_usecs b t < 2 ^ 63 \<and> td_make b (td_usecs b t) = t"

fun scalar_rt :: "platform \<Rightarrow> scalar \<Rightarrow> bool" where
  "scalar_rt b (String x) = string_ok b x"
| "scalar_rt b (VectorChar x) = string_ok b x"
| "scalar_rt b (Date x) = date_ok b x"
| "scalar_rt b (Datetime x) = (date_ok b (ptime_date b x) \<and> td_ok b (ptime_tod b x) \<and>
     ptime_make b (ptime_date b x) (ptime_tod b x) = x)"
| "scalar_rt b (DateDuration d) = dd_ok b d"
| "scalar_rt b (TimeDuration t) = td_ok b t"
| "scalar_rt b (DateTimeDuration d t) = (dd_ok b d \<and> td_ok b t)"
| "scalar_rt b (Uuid u) = (length u = 16)"
| "scalar_rt b s = True"

lemma date_number_ok:
  assumes "date_ok b x"
  shows "\<exists>n. date_number b x = Some n \<and> date_of_number b n = Some x"
proof -
  obtain y m d where ymd: "date_ymd b x = Some (y, m, d)" and
    lt: "y < 2 ^ 16" "m < 100" "d < 100" and mk: "date_make b y m d = Some x"
    using assms by (auto simp: date_ok_def split: option.splits)
  let ?n = "word_of_nat (y * 10000 + m * 100 + d) :: u32"
  have lt32: "y * 10000 + m * 100 + d < 2 ^ 32" using lt by simp
  have of_nat: "unat (word_of_nat k :: u32) = k" if "k < 2 ^ 32" for k
    using that by (simp add: unsigned_of_nat take_bit_nat_eq_self_iff)
  have n: "unat ?n = y * 10000 + m * 100 + d" by (rule of_nat [OF lt32])
  have r: "(y * 10000 + m * 100 + d) mod 10000 = m * 100 + d"
    using lt by (simp add: add.assoc)
  have "(y * 10000 + m * 100 + d) div 10000 = y" "(m * 100 + d) div 100 = m" "(m * 100 + d) mod 100 = d"
    using lt by simp_all
  then have "date_of_number b ?n = Some x"
    using lt mk unfolding date_of_number_def Let_def n by (simp add: r)
  then show ?thesis by (simp add: date_number_def ymd)
qed

lemma sint_of_int32: "- (2 ^ 31) \<le> i \<Longrightarrow> i < 2 ^ 31 \<Longrightarrow> sint (word_of_int i :: u32) = i"
  by (simp add: signed_of_int signed_take_bit_int_eq_self)

lemma sint_of_int64: "- (2 ^ 63) \<le> i \<Longrightarrow> i < 2 ^ 63 \<Longrightarrow> sint (word_of_int i :: u64) = i"
  by (simp add: signed_of_int signed_take_bit_int_eq_self)

lemma readBinary_append:
  assumes "buf st = bs @ rest" and "length bs < 2 ^ 31"
  shows "readBinary (length bs) st = Inr (True, bs, st\<lparr>buf := rest\<rparr>)"
proof -
  have "sint (word_of_nat (length bs) :: u32) = int (length bs)"
    using sint_of_int32 [of "int (length bs)"] assms(2) by simp
  then show ?thesis using assms(1) by (simp add: readBinary_def)
qed

lemma read_string_write:
  assumes "buf st = write_string h s @ rest" and "string_ok b s"
  shows "read_string b h st = Inr (True, s, st\<lparr>buf := rest\<rparr>)"
proof -
  let ?st1 = "st\<lparr>buf := map byte_of s @ rest\<rparr>"
  have n: "unat (word_of_nat (length s) :: u64) = length s"
    using assms(2) by (simp add: string_ok_def unsigned_of_nat take_bit_nat_eq_self_iff)
  have z: "(word_of_nat (length s) :: u64) = 0 \<longleftrightarrow> s = []"
    using n unsigned_eq_0_iff [of "word_of_nat (length s) :: u64", where 'a = nat] by simp
  have "read64 h st = Some (word_of_nat (length s), ?st1)"
    using assms(1) by (intro c64.get_put) (simp add: write_string_def)
  moreover have "readBinary (length s) ?st1 = Inr (True, map byte_of s, ?st1\<lparr>buf := rest\<rparr>)"
    using readBinary_append [of ?st1 "map byte_of s" rest] assms(2) by (simp add: string_ok_def)
  ultimately show ?thesis
    using assms(2) n z by (simp add: read_string_def string_ok_def)
qed

lemma bitset_of_write:
  assumes "LENGTH('w) mod 8 = 0"
  shows "bitset_of (write_bitset w) = (w :: 'w::len word)"
proof (rule bit_word_eqI)
  fix i assume i: "i < LENGTH('w)"
  then have "i div 8 < LENGTH('w) div 8"
    using assms by (metis div_less_iff_less_mult mult.commute mult_div_mod_eq add_0_right zero_less_numeral)
  then show "bit (bitset_of (write_bitset w) :: 'w word) i = bit w i"
    using i by (simp add: bitset_of_def write_bitset_def bit_word_of_bits)
qed

lemma readBitset_write:
  assumes "buf st = write_bitset w @ rest" and "LENGTH('w) mod 8 = 0" and "LENGTH('w) div 8 < 2 ^ 31"
  shows "readBitset f st = Inr (True, VVal (Scalar (f (w :: 'w::len word))), st\<lparr>buf := rest\<rparr>)"
  using readBinary_append [OF assms(1)] assms(2,3) by (simp add: readBitset_def bitset_of_write)

lemma read32s_write:
  "buf st = concat (map (w32 h) xs) @ rest \<Longrightarrow> read32s h (length xs) st = (True, xs, st\<lparr>buf := rest\<rparr>)"
proof (induction xs arbitrary: st)
  case (Cons x xs)
  let ?st1 = "st\<lparr>buf := concat (map (w32 h) xs) @ rest\<rparr>"
  have "read32 h st = Some (x, ?st1)" using Cons.prems by (intro c32.get_put) simp
  then show ?case using Cons.IH [of ?st1] by simp
qed simp

lemma numeral_9_eq: "Suc (Suc (Suc (Suc (Suc (Suc (Suc (Suc (Suc 0)))))))) = 9"
  by simp

lemma read32_64_write:
  assumes "buf st = w32 h x @ w64 h y @ rest"
  shows "read32_64 h st = (True, (x, y), st\<lparr>buf := rest\<rparr>)"
  using c32.get_put [of st h x "w64 h y @ rest"] c64.get_put [of "st\<lparr>buf := w64 h y @ rest\<rparr>" h y rest] assms
  by (simp add: read32_64_def)

lemma read_scalar_write:
  assumes "write_scalar b h s = Some bs" and "buf st = bs @ rest" and "scalar_rt b s"
  shows "read_scalar b h (scalar_type s) st = Inr (True, VVal (Scalar s), st\<lparr>buf := rest\<rparr>)"
proof (cases s)
  case (Tm t)
  then have "buf st = concat (map (w32 h) [tm_sec t, tm_min t, tm_hour t, tm_mday t, tm_mon t,
      tm_year t, tm_wday t, tm_yday t, tm_isdst t]) @ rest"
    using assms(1,2) by auto
  from read32s_write [OF this]
  have "read32s h 9 st = (True, [tm_sec t, tm_min t, tm_hour t, tm_mday t, tm_mon t,
      tm_year t, tm_wday t, tm_yday t, tm_isdst t], st\<lparr>buf := rest\<rparr>)"
    by (simp only: list.size add_Suc_right add_0 add_0_right numeral_9_eq)
  then show ?thesis using Tm by (simp add: tm_of_list_def)
next
  case (VectorChar x)
  then have "buf st = w64 h (word_of_nat (length x)) @ map byte_of x @ rest"
    using assms(1,2) by (auto simp: write_string_def)
  then have "\<exists>r. read64 h st = Some r" using c64.get_put by blast
  then show ?thesis
    using VectorChar assms read_string_write [of st h x rest b] by auto
next
  case (Uuid u)
  then show ?thesis using readBinary_append [of st u rest] assms by simp
next
  case (Date x)
  then obtain n where n: "date_number b x = Some n" "date_of_number b n = Some x"
    using date_number_ok assms(3) by auto
  then show ?thesis using Date assms by (auto simp: after_puts)
next
  case (Datetime x)
  then obtain n where n: "date_number b (ptime_date b x) = Some n" "date_of_number b n = Some (ptime_date b x)"
    using date_number_ok assms(3) by auto
  then show ?thesis using Datetime assms by (auto simp: read32_64_write td_ok_def sint_of_int64)
qed (use assms in \<open>auto simp: into_puts after_puts read_string_write readBitset_write
      read32_64_write dd_ok_def td_ok_def sint_of_int32 sint_of_int64 readBinary_append\<close>)

subsection \<open>Variants\<close>

text \<open>
  The values that come back as they were: no pointers, containers of feasible size, maps
  in their order; a set of more than one element is not among them.
\<close>

fun rt_ok :: "platform \<Rightarrow> variant \<Rightarrow> bool" where
  "rt_ok b (VNull e) \<longleftrightarrow> e \<noteq> etUnknown"
| "rt_ok b (VVal (Scalar s)) \<longleftrightarrow> scalar_rt b s"
| "rt_ok b (VVal (Seq k xs)) \<longleftrightarrow>
     length xs \<le> alloc_max b \<and> length xs < 2 ^ 64 \<and>
     (k = SetK \<or> k = MultisetK \<longrightarrow> length xs \<le> 1) \<and> (\<forall>x\<in>set xs. rt_ok b x)"
| "rt_ok b (VVal (SMap k m)) \<longleftrightarrow>
     length m < 2 ^ 64 \<and>
     (if k = MapK then strictly_sorted string_less fst m else weakly_sorted string_less fst m) \<and>
     (\<forall>e\<in>set m. string_ok b (fst e) \<and> rt_ok b (snd e))"
| "rt_ok b (VVal (VMap k m)) \<longleftrightarrow>
     length m < 2 ^ 64 \<and>
     (if k = MapK then strictly_sorted (less_v b) fst m else weakly_sorted (less_v b) fst m) \<and>
     (\<forall>e\<in>set m. rt_ok b (fst e) \<and> rt_ok b (snd e))"
| "rt_ok b (VVal (Ptr r)) \<longleftrightarrow> False"

text \<open>\<open>reads rd b h v\<close>: the reader \<open>rd\<close> gives \<open>v\<close> from its bytes, whatever follows.\<close>

definition reads :: "(reader \<Rightarrow> variant rresult) \<Rightarrow> platform \<Rightarrow> host \<Rightarrow> variant \<Rightarrow> bool" where
  "reads rd b h v \<longleftrightarrow> (\<forall>st rest. buf st = wire b h v @ rest \<longrightarrow> rd st = Inr (True, v, st\<lparr>buf := rest\<rparr>))"

lemma readsD: "reads rd b h v \<Longrightarrow> buf st = wire b h v @ rest \<Longrightarrow> rd st = Inr (True, v, st\<lparr>buf := rest\<rparr>)"
  by (simp add: reads_def)

lemma read_vec_wire:
  "\<forall>x\<in>set xs. reads rd b h x \<Longrightarrow> buf st = concat (map (wire b h) xs) @ rest \<Longrightarrow>
     read_vec rd (length xs) acc st = Inr (True, acc @ xs, st\<lparr>buf := rest\<rparr>)"
proof (induction xs arbitrary: acc st)
  case (Cons x xs)
  let ?st1 = "st\<lparr>buf := concat (map (wire b h) xs) @ rest\<rparr>"
  have "rd st = Inr (True, x, ?st1)"
    using Cons.prems by (intro readsD [of rd b h]) simp_all
  then show ?case using Cons.IH [of ?st1 "acc @ [x]"] Cons.prems(1) by simp
qed simp

lemma read_ins_list_wire:
  "\<forall>x\<in>set xs. reads rd b h x \<Longrightarrow> buf st = concat (map (wire b h) xs) @ rest \<Longrightarrow>
     read_ins b rd ListK (length xs) acc st = Inr (True, acc @ xs, st\<lparr>buf := rest\<rparr>)"
proof (induction xs arbitrary: acc st)
  case (Cons x xs)
  let ?st1 = "st\<lparr>buf := concat (map (wire b h) xs) @ rest\<rparr>"
  have "rd st = Inr (True, x, ?st1)"
    using Cons.prems by (intro readsD [of rd b h]) simp_all
  then show ?case using Cons.IH [of ?st1 "acc @ [x]"] Cons.prems(1) by simp
qed simp

lemma insert_unique_end:
  assumes "strictly_sorted lt key (m @ [e])"
  shows "snd (insert_unique lt key i e m) = m @ [e]"
proof -
  have lt: "\<forall>x\<in>set m. lt (key x) (key e)"
    using assms by (simp add: strictly_sorted_def sorted_wrt_append)
  then have tw: "takeWhile (\<lambda>x. lt (key x) (key e)) m = m" and dw: "dropWhile (\<lambda>x. lt (key x) (key e)) m = []"
    by (simp_all add: takeWhile_eq_all_conv)
  show ?thesis
    unfolding insert_unique_def find_key_def lower_bound_def insert_at_def Let_def tw dw by simp
qed

lemma insert_multi_end:
  assumes "weakly_sorted lt key (m @ [e])"
  shows "snd (insert_multi lt key (length m) e m) = m @ [e]"
proof -
  have lt: "\<forall>x\<in>set m. \<not> lt (key e) (key x)"
    using assms by (simp add: weakly_sorted_def sorted_wrt_append)
  then have tw: "takeWhile (\<lambda>x. \<not> lt (key e) (key x)) m = m" by (simp add: takeWhile_eq_all_conv)
  have "lower_bound lt key (key e) m \<le> length m"
    by (simp add: lower_bound_def length_takeWhile_le)
  then show ?thesis unfolding insert_multi_def upper_bound_def insert_at_def Let_def tw by simp
qed

lemma sorted_prefix:
  "strictly_sorted lt key (xs @ ys) \<Longrightarrow> strictly_sorted lt key xs"
  "weakly_sorted lt key (xs @ ys) \<Longrightarrow> weakly_sorted lt key xs"
  by (simp_all add: strictly_sorted_def weakly_sorted_def sorted_wrt_append)

lemma read_smap_wire:
  "\<forall>e\<in>set m. string_ok b (fst e) \<and> reads rd b h (snd e) \<Longrightarrow>
   (if k = MapK then strictly_sorted string_less fst (acc @ m) else weakly_sorted string_less fst (acc @ m)) \<Longrightarrow>
   buf st = concat (map (\<lambda>e. write_string h (fst e) @ wire b h (snd e)) m) @ rest \<Longrightarrow>
     read_smap b h rd k (length m) acc st = Inr (True, acc @ m, st\<lparr>buf := rest\<rparr>)"
proof (induction m arbitrary: acc st)
  case (Cons e m)
  let ?r = "concat (map (\<lambda>e. write_string h (fst e) @ wire b h (snd e)) m) @ rest"
  let ?st1 = "st\<lparr>buf := wire b h (snd e) @ ?r\<rparr>" and ?st2 = "st\<lparr>buf := ?r\<rparr>"
  have 1: "read_string b h st = Inr (True, fst e, ?st1)"
    using Cons.prems by (intro read_string_write) simp_all
  have 2: "rd ?st1 = Inr (True, snd e, ?st1\<lparr>buf := ?r\<rparr>)"
    using Cons.prems(1) by (intro readsD [of rd b h]) simp_all
  have srt: "if k = MapK then strictly_sorted string_less fst ((acc @ [e]) @ m)
      else weakly_sorted string_less fst ((acc @ [e]) @ m)"
    using Cons.prems(2) by simp
  have 3: "insert_string_entry k e acc = acc @ [e]"
    using srt by (cases k) (auto intro!: insert_unique_end insert_multi_end dest: sorted_prefix simp del: append_assoc)
  show ?case
    using 1 2 3 Cons.IH [OF _ srt, of ?st2] Cons.prems(1) by simp
qed simp

lemma read_vmap_wire:
  "\<forall>e\<in>set m. reads rd b h (fst e) \<and> reads rd b h (snd e) \<Longrightarrow>
   (if k = MapK then strictly_sorted (less_v b) fst (acc @ m) else weakly_sorted (less_v b) fst (acc @ m)) \<Longrightarrow>
   buf st = concat (map (\<lambda>e. wire b h (fst e) @ wire b h (snd e)) m) @ rest \<Longrightarrow>
     read_vmap b rd k (length m) acc st = Inr (True, acc @ m, st\<lparr>buf := rest\<rparr>)"
proof (induction m arbitrary: acc st)
  case (Cons e m)
  let ?r = "concat (map (\<lambda>e. wire b h (fst e) @ wire b h (snd e)) m) @ rest"
  let ?st1 = "st\<lparr>buf := wire b h (snd e) @ ?r\<rparr>" and ?st2 = "st\<lparr>buf := ?r\<rparr>"
  have 1: "rd st = Inr (True, fst e, ?st1)"
    using Cons.prems by (intro readsD [of rd b h]) simp_all
  have 2: "rd ?st1 = Inr (True, snd e, ?st1\<lparr>buf := ?r\<rparr>)"
    using Cons.prems(1) by (intro readsD [of rd b h]) simp_all
  have srt: "if k = MapK then strictly_sorted (less_v b) fst ((acc @ [e]) @ m)
      else weakly_sorted (less_v b) fst ((acc @ [e]) @ m)"
    using Cons.prems(2) by simp
  have 3: "insert_variant_entry b k e acc = acc @ [e]"
    using srt by (cases k) (auto intro!: insert_unique_end insert_multi_end dest: sorted_prefix simp del: append_assoc)
  show ?case
    using 1 2 3 Cons.IH [OF _ srt, of ?st2] Cons.prems(1) by simp
qed simp
lemma read16_et:
  assumes "buf st = write_et h v @ rest"
  shows "\<exists>w. read16 h st = Some (w, st\<lparr>buf := rest\<rparr>) \<and>
    sint w = (if isNull v then - et_num (type_of v) else et_num (type_of v))"
proof -
  let ?n = "if isNull v then - et_num (type_of v) else et_num (type_of v)"
  have n: "- (2 ^ 15) \<le> ?n" "?n < 2 ^ 15"
    using et_num_le [of "type_of v"] et_num_pos [of "type_of v"] by (cases "type_of v = etUnknown"; simp)+
  have "sint (word_of_int ?n :: u16) = ?n"
    using n by (simp add: signed_of_int signed_take_bit_int_eq_self)
  then show ?thesis
    using assms by (auto simp: write_et_def intro!: c16.get_put)
qed

lemma scalar_rt_written: "scalar_rt b s \<Longrightarrow> \<exists>bs. write_scalar b h s = Some bs"
  by (cases s) (auto dest: date_number_ok)

lemma sized_rt_ok: "rt_ok b v \<Longrightarrow> sized v \<and> ptr_free v \<and> proper_dates b v"
proof (induction v rule: sized.induct)
  case (2 s)
  then show ?case by (cases s) (auto simp: date_ok_def split: option.splits)
qed auto

lemma shape_of_payload [simp]:
  "shape_of (scalar_type s) = ScalarS" "shape_of (seq_type k) = SeqS k"
  "shape_of (smap_type l) = SMapS l" "shape_of (vmap_type l) = VMapS l"
proof -
  show "shape_of (scalar_type s) = ScalarS" by (cases s) simp_all
  show "shape_of (seq_type k) = SeqS k" by (cases k) simp_all
  show "shape_of (smap_type l) = SMapS l" "shape_of (vmap_type l) = VMapS l" by (cases l; simp)+
qed

lemma rt_ok_type: "rt_ok b v \<Longrightarrow> type_of v \<noteq> etUnknown"
  by (cases v) auto

lemma read64_length:
  assumes "buf st = w64 h (word_of_nat n) @ rest" and "n < 2 ^ 64"
  shows "\<exists>w. read64 h st = Some (w, st\<lparr>buf := rest\<rparr>) \<and> unat w = n"
  using c64.get_put [OF assms(1)] assms(2)
  by (simp add: unsigned_of_nat take_bit_nat_eq_self_iff)

lemma length_wire_ge: "ptr_free v \<Longrightarrow> 2 \<le> length (wire b h v)"
  by (cases v rule: sized.cases) simp_all

lemma wire_child:
  "x \<in> set xs \<Longrightarrow> length (wire b h x) + 10 \<le> length (wire b h (VVal (Seq k xs)))"
  "e \<in> set m \<Longrightarrow> length (wire b h (snd e)) + 10 \<le> length (wire b h (VVal (SMap l m)))"
  "d \<in> set n \<Longrightarrow> length (wire b h (fst d)) + 10 \<le> length (wire b h (VVal (VMap l' n)))"
  "d \<in> set n \<Longrightarrow> length (wire b h (snd d)) + 10 \<le> length (wire b h (VVal (VMap l' n)))"
  by (auto dest!: split_list)

lemma read_seq_v_wire:
  assumes st: "buf st = w64 h (word_of_nat (length xs)) @ concat (map (wire b h) xs) @ rest"
    and size: "length xs \<le> alloc_max b" "length xs < 2 ^ 64" "k = SetK \<or> k = MultisetK \<longrightarrow> length xs \<le> 1"
    and kids: "\<forall>x\<in>set xs. reads rd b h x"
  shows "read_seq_v b h rd k st = Inr (True, VVal (Seq k xs), st\<lparr>buf := rest\<rparr>)"
proof -
  let ?st1 = "st\<lparr>buf := concat (map (wire b h) xs) @ rest\<rparr>"
  from read64_length [OF st size(2)]
  obtain n where n: "read64 h st = Some (n, ?st1)" "unat n = length xs" by auto
  show ?thesis
  proof (cases "k = SetK \<or> k = MultisetK")
    case False
    then have "k = VectorK \<or> k = DequeK \<or> k = ListK" by (cases k) simp_all
    then show ?thesis
      using n size(1) read_vec_wire [OF kids, of ?st1 rest "[]"] read_ins_list_wire [OF kids, of ?st1 rest "[]"]
      by (auto simp: read_seq_v_def wrap_def)
  next
    case True
    then consider "xs = []" | x where "xs = [x]"
      using size(3) by (cases xs) auto
    then show ?thesis
    proof cases
      case 1
      then show ?thesis using n True by (auto simp: read_seq_v_def wrap_def)
    next
      case (2 x)
      have "rd ?st1 = Inr (True, x, ?st1\<lparr>buf := rest\<rparr>)"
        using kids 2 by (intro readsD [of _ b h]) simp_all
      then show ?thesis using n True 2
        by (auto simp: read_seq_v_def wrap_def insert_unique_def insert_multi_def find_key_def
            lower_bound_def upper_bound_def insert_at_def)
    qed
  qed
qed

lemma read_smap_v_wire:
  assumes st: "buf st = w64 h (word_of_nat (length m)) @
      concat (map (\<lambda>e. write_string h (fst e) @ wire b h (snd e)) m) @ rest"
    and ok: "length m < 2 ^ 64"
      "if k = MapK then strictly_sorted string_less fst m else weakly_sorted string_less fst m"
    and kids: "\<forall>e\<in>set m. string_ok b (fst e) \<and> reads rd b h (snd e)"
  shows "read_smap_v b h rd k st = Inr (True, VVal (SMap k m), st\<lparr>buf := rest\<rparr>)"
proof -
  let ?st1 = "st\<lparr>buf := concat (map (\<lambda>e. write_string h (fst e) @ wire b h (snd e)) m) @ rest\<rparr>"
  from read64_length [OF st ok(1)]
  obtain n where n: "read64 h st = Some (n, ?st1)" "unat n = length m" by auto
  show ?thesis
    using n read_smap_wire [OF kids, of k "[]" ?st1 rest] ok(2)
    by (simp add: read_smap_v_def wrap_def)
qed

lemma read_vmap_v_wire:
  assumes st: "buf st = w64 h (word_of_nat (length m)) @
      concat (map (\<lambda>e. wire b h (fst e) @ wire b h (snd e)) m) @ rest"
    and ok: "length m < 2 ^ 64"
      "if k = MapK then strictly_sorted (less_v b) fst m else weakly_sorted (less_v b) fst m"
    and kids: "\<forall>e\<in>set m. reads rd b h (fst e) \<and> reads rd b h (snd e)"
  shows "read_vmap_v b h rd k st = Inr (True, VVal (VMap k m), st\<lparr>buf := rest\<rparr>)"
proof -
  let ?st1 = "st\<lparr>buf := concat (map (\<lambda>e. wire b h (fst e) @ wire b h (snd e)) m) @ rest\<rparr>"
  from read64_length [OF st ok(1)]
  obtain n where n: "read64 h st = Some (n, ?st1)" "unat n = length m" by auto
  show ?thesis
    using n read_vmap_wire [OF kids, of k "[]" ?st1 rest] ok(2)
    by (simp add: read_vmap_v_def wrap_def)
qed

text \<open>Behind the type number, \<open>read\<close> is the reader of the shape.\<close>

lemma read_v_tail:
  assumes "buf st = write_et h (VVal p) @ tail"
  shows "read_v (Suc f) b h st = (case shape_of (payload_type p) of
      ScalarS \<Rightarrow> read_scalar b h (payload_type p) (st\<lparr>buf := tail\<rparr>)
    | SeqS k \<Rightarrow> read_seq_v b h (read_v f b h) k (st\<lparr>buf := tail\<rparr>)
    | SMapS k \<Rightarrow> read_smap_v b h (read_v f b h) k (st\<lparr>buf := tail\<rparr>)
    | VMapS k \<Rightarrow> read_vmap_v b h (read_v f b h) k (st\<lparr>buf := tail\<rparr>)
    | PtrS \<Rightarrow> read_ptr_v h (read_v f b h) (st\<lparr>buf := tail\<rparr>))"
proof -
  obtain w where "read16 h st = Some (w, st\<lparr>buf := tail\<rparr>)" "sint w = et_num (payload_type p)"
    using read16_et [OF assms] by auto
  moreover have "0 < et_num (payload_type p)" "et_of (et_num (payload_type p)) = Some (payload_type p)"
    by (simp_all add: et_of_et_num)
  ultimately show ?thesis by simp
qed

lemma read_v_null:
  assumes "buf st = write_et h (VNull e) @ rest" and "e \<noteq> etUnknown"
  shows "read_v (Suc f) b h st = Inr (True, VNull e, st\<lparr>buf := rest\<rparr>)"
proof -
  obtain w where "read16 h st = Some (w, st\<lparr>buf := rest\<rparr>)" "sint w = - et_num e"
    using read16_et [OF assms(1)] by auto
  then show ?thesis using et_num_pos [OF assms(2)] et_of_et_num [OF assms(2)] by simp
qed

lemma read_v_wire: "rt_ok b v \<Longrightarrow> length (wire b h v) < f \<Longrightarrow> reads (read_v f b h) b h v"
proof (induction f arbitrary: v)
  case (Suc f)
  have child: "reads (read_v f b h) b h x"
    if "rt_ok b x" "length (wire b h x) + 10 \<le> length (wire b h v)" for x
    using Suc.IH [OF that(1)] that(2) Suc.prems(2) by simp
  show ?case
    unfolding reads_def
  proof (intro allI impI)
    fix st :: reader and rest assume st: "buf st = wire b h v @ rest"
    show "read_v (Suc f) b h st = Inr (True, v, st\<lparr>buf := rest\<rparr>)"
    proof (cases v rule: sized.cases)
      case (1 e)
      then show ?thesis using read_v_null st Suc.prems(1) by simp
    next
      case (2 s)
      obtain bs where bs: "write_scalar b h s = Some bs" using scalar_rt_written [of b s h] Suc.prems(1) 2 by auto
      then have "read_v (Suc f) b h st = read_scalar b h (scalar_type s) (st\<lparr>buf := bs @ rest\<rparr>)"
        using read_v_tail [of st h "Scalar s" "bs @ rest" f b] st 2 by simp
      then show ?thesis
        using read_scalar_write [OF bs, of "st\<lparr>buf := bs @ rest\<rparr>" rest] Suc.prems(1) 2
        by simp
    next
      case (3 k xs)
      have "\<forall>x\<in>set xs. reads (read_v f b h) b h x"
        using child wire_child(1) [of _ xs b h k] Suc.prems(1) 3 by simp
      then show ?thesis
        using read_v_tail [of st h "Seq k xs" "w64 h (word_of_nat (length xs)) @ concat (map (wire b h) xs) @ rest" f b]
          read_seq_v_wire [OF _ _ _ _ \<open>\<forall>x\<in>set xs. reads (read_v f b h) b h x\<close>, of _ rest k] st Suc.prems(1) 3
        by simp
    next
      case (4 k m)
      have "\<forall>e\<in>set m. string_ok b (fst e) \<and> reads (read_v f b h) b h (snd e)"
        using child wire_child(2) [of _ m b h k] Suc.prems(1) 4 by simp
      then show ?thesis
        using read_v_tail [of st h "SMap k m" "w64 h (word_of_nat (length m)) @
            concat (map (\<lambda>e. write_string h (fst e) @ wire b h (snd e)) m) @ rest" f b]
          read_smap_v_wire [of _ h m b rest k] st Suc.prems(1) 4
        by simp
    next
      case (5 k m)
      have "\<forall>e\<in>set m. reads (read_v f b h) b h (fst e) \<and> reads (read_v f b h) b h (snd e)"
        using child wire_child(3,4) [of _ m b h k] Suc.prems(1) 5 by simp
      then show ?thesis
        using read_v_tail [of st h "VMap k m" "w64 h (word_of_nat (length m)) @
            concat (map (\<lambda>e. wire b h (fst e) @ wire b h (snd e)) m) @ rest" f b]
          read_vmap_v_wire [of _ h m b rest k] st Suc.prems(1) 5
        by simp
    next
      case (6 r)
      then show ?thesis using Suc.prems(1) by simp
    qed
  qed
qed simp
subsection \<open>The frame\<close>

lemma length_header [simp]: "length (header h crc n) = 12"
  by (simp add: header_def)

lemma header_fields:
  "of_mem h (take 2 (header h crc n @ body)) = signature"
  "of_mem h (take 2 (drop 2 (header h crc n @ body))) = crc"
  "of_mem h (take 8 (drop 4 (header h crc n @ body))) = (word_of_nat n :: u64)"
  "drop 12 (header h crc n @ body) = body"
  "drop 4 (header h crc n @ body) = drop 4 (header h crc' n @ body)"
  by (simp_all add: header_def w16_def w64_def of_mem_mem)

text \<open>Whatever stands in the frame, \<open>deserialize\<close> gives what \<open>read\<close> leaves.\<close>

lemma deserialize_header:
  assumes "2 \<le> length body" and "crc = crc_of b (length body) (header h 0 (length body) @ body)"
  shows "deserialize b h (header h crc (length body) @ body) =
    (case read_v (length body + 2) b h (start body) of
       Inl e \<Rightarrow> Inl e
     | Inr (_, v, st) \<Rightarrow> if buf st \<noteq> [] then Inr (False, void_v, st) else Inr (True, v, st))"
proof -
  have crc: "crc_of b (length body) (header h crc (length body) @ body) = crc"
    using header_fields(5) [of h crc "length body" body 0] assms(2) by (simp add: crc_of_def)
  show ?thesis
    using assms(1)
    by (simp add: deserialize_def Let_def header_fields [where n = "length body"] crc
        del: take_append drop_append)
qed

lemma deserialize_framed:
  assumes "2 \<le> length body"
  shows "deserialize b h (framed b h body) =
    (case read_v (length body + 2) b h (start body) of
       Inl e \<Rightarrow> Inl e
     | Inr (_, v, st) \<Rightarrow> if buf st \<noteq> [] then Inr (False, void_v, st) else Inr (True, v, st))"
  unfolding framed_def by (rule deserialize_header [OF assms refl])

subsection \<open>Properties\<close>


text \<open>A set is read by inserting a void variant in front and reading into it.\<close>

lemma v_rank_void: "type_of x \<noteq> etUnknown \<Longrightarrow> x \<noteq> void_v \<Longrightarrow> less_v b void_v x \<and> \<not> less_v b x void_v"
proof -
  assume x: "type_of x \<noteq> etUnknown" "x \<noteq> void_v"
  have "v_rank void_v < v_rank x"
  proof (cases x)
    case (VNull e)
    then have "et_num e \<noteq> 1" "1 \<le> et_num e"
      using x et_num_inj [of e etVoid] et_num_pos [of e] by (auto simp: void_v_def simp del: et_num_inj)
    then show ?thesis using VNull by (simp add: v_rank_def void_v_def)
  next
    case (VVal p)
    then show ?thesis using et_num_pos [of "payload_type p"] by (simp add: v_rank_def void_v_def)
  qed
  then show ?thesis by (auto simp: less_v_rank)
qed

lemma insert_void_front:
  assumes "k = SetK \<or> k = MultisetK" and "\<forall>x\<in>set xs. type_of x \<noteq> etUnknown \<and> x \<noteq> void_v"
  shows "insert_void b k xs = (0, void_v # xs)"
proof (cases xs)
  case Nil
  then show ?thesis
    using assms(1) by (auto simp: insert_unique_def insert_multi_def find_key_def lower_bound_def
        upper_bound_def insert_at_def)
next
  case (Cons x ys)
  then have "less_v b void_v x" "\<not> less_v b x void_v" using assms(2) v_rank_void [of x b] by auto
  then show ?thesis
    using assms(1) Cons by (auto simp: insert_unique_def insert_multi_def find_key_def lower_bound_def
        upper_bound_def insert_at_def)
qed

lemma read_ins_set_wire:
  assumes "k = SetK \<or> k = MultisetK"
  shows "\<forall>x\<in>set xs. reads rd b h x \<and> type_of x \<noteq> etUnknown \<and> x \<noteq> void_v \<Longrightarrow>
    \<forall>x\<in>set acc. type_of x \<noteq> etUnknown \<and> x \<noteq> void_v \<Longrightarrow>
    buf st = concat (map (wire b h) xs) @ rest \<Longrightarrow>
    read_ins b rd k (length xs) acc st = Inr (True, rev xs @ acc, st\<lparr>buf := rest\<rparr>)"
proof (induction xs arbitrary: acc st)
  case (Cons x xs)
  let ?st1 = "st\<lparr>buf := concat (map (wire b h) xs) @ rest\<rparr>"
  have "rd st = Inr (True, x, ?st1)"
    using Cons.prems by (intro readsD [of rd b h]) simp_all
  then show ?case
    using Cons.IH [of "x # acc" ?st1] Cons.prems insert_void_front [OF assms Cons.prems(2)] by simp
qed simp

lemma rev_not_sorted:
  assumes "swo_on A lt" and "set xs \<subseteq> A" and "strictly_sorted lt id xs" and "2 \<le> length xs"
  shows "\<not> strictly_sorted lt id (rev xs)"
proof
  assume s: "strictly_sorted lt id (rev xs)"
  obtain x y ys where xs: "xs = x # y # ys"
    using assms(4) by (cases xs; cases "tl xs") auto
  then have "lt x y" "lt y x" using s assms(3) by (auto simp: strictly_sorted_def sorted_wrt_append)
  then show False using swo_on_asym [OF assms(1), of x y] assms(2) xs by auto
qed

text \<open>
  A set of two or more elements, none of them a void NULL, is accepted by \<open>deserialize\<close>
  and comes back with its elements in reverse: the elements are read in place into void
  variants that were inserted in front, and the set is no longer in its order.
\<close>

theorem set_comes_back_reversed:
  assumes "platform_ordered b" and "strictly_sorted (less_v b) id xs" and "2 \<le> length xs" and "length xs < 2 ^ 64"
    and "\<forall>x\<in>set xs. rt_ok b x \<and> comparable b x \<and> x \<noteq> void_v"
  shows "(\<exists>data st. serialize b h H n (VVal (Seq SetK xs)) = Inr data \<and>
      deserialize b h data = Inr (True, VVal (Seq SetK (rev xs)), st)) \<and>
    \<not> strictly_sorted (less_v b) id (rev xs)"
proof
  show "\<not> strictly_sorted (less_v b) id (rev xs)"
    using rev_not_sorted [OF swo_less_v [OF assms(1)] _ assms(2,3)] assms(5) by auto
  let ?v = "VVal (Seq SetK xs)" and ?kids = "concat (map (wire b h) xs)"
  let ?body = "wire b h ?v" and ?f = "length (wire b h ?v) + 1"
  have v: "sized ?v" "ptr_free ?v" "proper_dates b ?v" using sized_rt_ok assms(5) by auto
  have kids: "\<forall>x\<in>set xs. reads (read_v ?f b h) b h x \<and> type_of x \<noteq> etUnknown \<and> x \<noteq> void_v"
    using assms(5) read_v_wire [of b _ h ?f] rt_ok_type wire_child(1) [of _ xs b h SetK] by fastforce
  have len: "unat (word_of_nat (length xs) :: u64) = length xs"
    using assms(4) by (simp add: unsigned_of_nat take_bit_nat_eq_self_iff)
  let ?st1 = "start (w64 h (word_of_nat (length xs)) @ ?kids)" and ?st2 = "start ?kids"
  have "read64 h ?st1 = Some (word_of_nat (length xs), ?st2)"
    using c64.get_put [of ?st1 h "word_of_nat (length xs)" ?kids] by (simp add: start_def)
  moreover have "read_ins b (read_v ?f b h) SetK (length xs) [] ?st2 = Inr (True, rev xs @ [], ?st2\<lparr>buf := []\<rparr>)"
    by (rule read_ins_set_wire) (use kids in \<open>simp_all add: start_def\<close>)
  ultimately have "read_seq_v b h (read_v ?f b h) SetK ?st1 = Inr (True, VVal (Seq SetK (rev xs)), ?st2\<lparr>buf := []\<rparr>)"
    using len by (simp add: read_seq_v_def wrap_def)
  then have "read_v (Suc ?f) b h (start ?body) = Inr (True, VVal (Seq SetK (rev xs)), ?st2\<lparr>buf := []\<rparr>)"
    using read_v_tail [of "start ?body" h "Seq SetK xs" "w64 h (word_of_nat (length xs)) @ ?kids" ?f b]
    by (simp add: start_def)
  then show "\<exists>data st. serialize b h H n ?v = Inr data \<and>
      deserialize b h data = Inr (True, VVal (Seq SetK (rev xs)), st)"
    using deserialize_framed [OF length_wire_ge [OF v(2)], of b h] serialize_ptr_free [OF v(2,1,3), of h H n]
    by (simp add: start_def)
qed

theorem set_comes_back_reversed_witness:
  "\<exists>data st. serialize sample_platform LittleHost Map.empty 0
      (VVal (Seq SetK [VVal (Scalar (Bool False)), VVal (Scalar (Bool True))])) = Inr data \<and>
    deserialize sample_platform LittleHost data =
      Inr (True, VVal (Seq SetK [VVal (Scalar (Bool True)), VVal (Scalar (Bool False))]), st)"
  using set_comes_back_reversed [OF platform_ordered_sample,
      of "[VVal (Scalar (Bool False)), VVal (Scalar (Bool True))]" LittleHost Map.empty 0]
  by (simp add: strictly_sorted_def less_v.simps void_v_def)

text \<open>
  The checksum does not cover the last four bytes: the serialization of one 32-bit
  integer with its last four bytes replaced by those of another is accepted, and gives
  the other integer.
\<close>

theorem crc_misses_last_bytes:
  "\<exists>data st. serialize b h H n (VVal (Scalar (Int32 x))) = Inr data \<and>
     deserialize b h (take (length data - 4) data @ w32 h y) = Inr (True, VVal (Scalar (Int32 y)), st)"
proof -
  let ?bx = "wire b h (VVal (Scalar (Int32 x)))" and ?by = "wire b h (VVal (Scalar (Int32 y)))"
  let ?hd = "header h (crc_of b 6 (header h 0 6 @ ?bx)) 6"
  have len: "length ?bx = 6" "length ?by = 6" by simp_all
  have data: "serialize b h H n (VVal (Scalar (Int32 x))) = Inr (?hd @ ?bx)"
    using serialize_ptr_free [of "VVal (Scalar (Int32 x))" b h H n] len by (simp add: framed_def)
  have et: "write_et h (VVal (Scalar (Int32 x))) = write_et h (VVal (Scalar (Int32 y)))"
    by (simp add: write_et_def)
  have cut: "take (length (?hd @ ?bx) - 4) (?hd @ ?bx) @ w32 h y = ?hd @ ?by"
    by (simp add: et)
  have "take 10 (drop 4 (header h 0 6 @ ?bx)) = take 10 (drop 4 (header h 0 6 @ ?by))"
    by (simp add: et)
  then have crc: "crc_of b 6 (header h 0 6 @ ?bx) = crc_of b 6 (header h 0 6 @ ?by)"
    by (simp add: crc_of_def)
  have "reads (read_v 8 b h) b h (VVal (Scalar (Int32 y)))"
    by (rule read_v_wire) simp_all
  then have "read_v 8 b h (start ?by) = Inr (True, VVal (Scalar (Int32 y)), (start ?by)\<lparr>buf := []\<rparr>)"
    by (rule readsD) (simp add: start_def)
  then have "deserialize b h (?hd @ ?by) = Inr (True, VVal (Scalar (Int32 y)), (start ?by)\<lparr>buf := []\<rparr>)"
    using deserialize_header [of ?by "crc_of b 6 (header h 0 6 @ ?bx)" b h] len crc by simp
  with data cut show ?thesis by (metis (no_types))
qed
text \<open>
  A buffer whose checksum is right but which ends in the middle of a value is accepted:
  \<open>read\<close> reports the failure and \<open>deserialize\<close> does not look, so the type number of a
  string, an integer or a list alone gives an empty or zero value and success.
\<close>

theorem truncated_accepted:
  "(\<exists>st. read_v 4 b h (start (w16 h 2)) = Inr (False, VVal (Scalar (String [])), st)) \<and>
   (\<exists>st. deserialize b h (framed b h (w16 h 2)) = Inr (True, VVal (Scalar (String [])), st)) \<and>
   (\<exists>st. deserialize b h (framed b h (w16 h 8)) = Inr (True, VVal (Scalar (Int64 0)), st))"
proof -
  have s: "w16 h 2 = write_et h (VVal (Scalar (String [])))"
    and i: "w16 h 8 = write_et h (VVal (Scalar (Int64 0)))"
    by (simp_all add: write_et_def)
  have none: "read64 h (start []) = None" by (simp add: read64_def start_def)
  have "read_v 4 b h (start (write_et h (VVal (Scalar (String []))))) =
      Inr (False, VVal (Scalar (String [])), start [])"
    using read_v_tail [of "start (write_et h (VVal (Scalar (String []))))" h "Scalar (String [])" "[]" 3 b] none
    by (simp add: start_def read_string_def eval_nat_numeral del: read_v.simps)
  moreover have "read_v 4 b h (start (write_et h (VVal (Scalar (Int64 0))))) =
      Inr (False, VVal (Scalar (Int64 0)), start [])"
    using read_v_tail [of "start (write_et h (VVal (Scalar (Int64 0))))" h "Scalar (Int64 0)" "[]" 3 b] none
    by (simp add: start_def into_def eval_nat_numeral del: read_v.simps)
  ultimately show ?thesis
    unfolding s i
    using deserialize_framed [of "write_et h (VVal (Scalar (String [])))" b h]
      deserialize_framed [of "write_et h (VVal (Scalar (Int64 0)))" b h]
    by (simp add: start_def del: read_v.simps)
qed

text \<open>
  A string length from \<open>2 ^ 31\<close> up to \<open>2 ^ 32\<close> passes the check of \<open>readBinary\<close>, where it is
  negative, so that a short buffer is read far beyond its end.
\<close>

theorem length_check_bypassed:
  assumes "2 ^ 31 \<le> n" and "n < 2 ^ 32" and "n \<le> alloc_max b"
  shows "deserialize b h (framed b h (w16 h 2 @ w64 h (word_of_nat n))) = Inl OverRead"
proof -
  let ?st1 = "start (w64 h (word_of_nat n))" and ?st2 = "(start [])"
  have et: "w16 h 2 = write_et h (VVal (Scalar (String [])))"
    by (simp add: write_et_def)
  have n: "unat (word_of_nat n :: u64) = n"
    using assms(2) by (simp add: unsigned_of_nat take_bit_nat_eq_self_iff)
  have "sint (word_of_nat n :: u32) = int n - 2 ^ 32"
  proof -
    have "(int n + 2 ^ 31) mod 2 ^ 32 = (int n + 2 ^ 31 - 2 ^ 32) mod 2 ^ 32"
      by (rule minus_mod_self2 [symmetric])
    also have "\<dots> = int n + 2 ^ 31 - 2 ^ 32" using assms(1,2) by (intro mod_pos_pos_trivial) simp_all
    finally have "signed_take_bit 31 (int n) = int n - 2 ^ 32"
      by (simp add: signed_take_bit_eq_take_bit_shift take_bit_eq_mod)
    then show ?thesis by (simp add: signed_of_nat)
  qed
  then have "readBinary n ?st2 = Inl OverRead"
    using assms(1,2) by (simp add: readBinary_def start_def)
  moreover have "read64 h ?st1 = Some (word_of_nat n, ?st2)"
    using c64.get_put [of ?st1 h "word_of_nat n" "[]"] by (simp add: start_def)
  ultimately have "read_string b h ?st1 = Inl OverRead"
    using n assms(1,3) by (auto simp: read_string_def)
  then have "read_v 12 b h (start (write_et h (VVal (Scalar (String []))) @ w64 h (word_of_nat n))) = Inl OverRead"
    using read_v_tail [of "start (write_et h (VVal (Scalar (String []))) @ w64 h (word_of_nat n))" h
        "Scalar (String [])" "w64 h (word_of_nat n)" 11 b]
    by (simp add: start_def eval_nat_numeral del: read_v.simps)
  then show ?thesis
    unfolding et by (subst deserialize_framed) (simp_all del: read_v.simps)
qed

theorem length_check_bypassed_witness:
  "deserialize (sample_platform\<lparr>alloc_max := 2 ^ 40\<rparr>) LittleHost
     (framed (sample_platform\<lparr>alloc_max := 2 ^ 40\<rparr>) LittleHost
       (w16 LittleHost 2 @ w64 LittleHost (word_of_nat (2 ^ 31)))) = Inl OverRead"
  by (rule length_check_bypassed) simp_all

end
