(* ===== verification/HttpBuffer.thy ===== *)
theory HttpBuffer
  imports Prelude
begin

text \<open>
  The buffers of an HTTP input message: \<open>net::Packet\<close> (include/net/packet.hpp),
  \<open>InputMessageBuffer\<close> (http/impl/inputMessageBuffer.cpp), the random access iterator over
  a chain of buffers (http/inputMessage.cpp) and the accumulator that owns the chain
  (http/impl/contentDecoderAccumuler.cpp).

  A buffer is owned by the \<open>_next\<close> of its predecessor, or by \<open>_first\<close>, and \<open>_prev\<close> always
  is the predecessor, so the chain is a list of buffers with their addresses; \<open>_last\<close> and
  the iterators hold raw addresses, and reading one that is no longer in the chain is the
  error \<open>Dangling\<close>.  A position is an index into the buffer's array.  The assertions of the
  code are checked: a failing one is \<open>AssertFailed\<close>.  \<open>NoReturn\<close> is a loop that has used up the
  rounds it was given.  Sizes are sums of sizes of live arrays
  and do not wrap.
\<close>

subsection \<open>Packets, buffers, iterators\<close>

datatype hfault = AssertFailed | NullDeref | Dangling | BadIterator | NoReturn

type_synonym 'a hresult = "hfault + 'a"

definition hbind :: "'a hresult \<Rightarrow> ('a \<Rightarrow> 'b hresult) \<Rightarrow> 'b hresult" where
  "hbind r f = (case r of Inl e \<Rightarrow> Inl e | Inr x \<Rightarrow> f x)"

lemma hbind_simps [simp]: "hbind (Inl e) f = Inl e" "hbind (Inr x) f = f x"
  by (simp_all add: hbind_def)

datatype ecode = NoError | UnexpectedError | NotImplemented | NeedMoreData | BadValue | BadMessage
  | BadUrl | BadZlibStream | EndOfFile | NetError nat

record packet =
  p_data :: string
  p_size :: nat

record buffer =
  addr :: nat
  arr :: string
  b_begin :: nat
  b_end :: nat
  b_offset :: nat

definition b_size :: "buffer \<Rightarrow> nat" where
  "b_size b = b_end b - b_begin b"

definition asPacket :: "buffer \<Rightarrow> packet \<times> nat" where
  "asPacket b = (\<lparr>p_data = arr b, p_size = b_end b\<rparr>, b_begin b)"

definition payload_of :: "packet \<Rightarrow> nat \<Rightarrow> string" where
  "payload_of p off = drop off (take (p_size p) (p_data p))"

definition packet_ok :: "packet \<Rightarrow> nat \<Rightarrow> bool" where
  "packet_ok p off \<longleftrightarrow> off < p_size p \<and> p_size p \<le> length (p_data p)"

record iter =
  it_buf :: "nat option"
  it_pos :: nat

definition null_iter :: iter where
  "null_iter = \<lparr>it_buf = None, it_pos = 0\<rparr>"

record accumuler =
  chain :: "buffer list"
  last_ptr :: "nat option"
  acc_size :: nat
  fresh :: nat

definition empty_acc :: accumuler where
  "empty_acc = \<lparr>chain = [], last_ptr = None, acc_size = 0, fresh = 0\<rparr>"

definition preds :: "nat \<Rightarrow> buffer list \<Rightarrow> buffer list" where
  "preds a bs = takeWhile (\<lambda>b. addr b \<noteq> a) bs"

definition from_buf :: "nat \<Rightarrow> buffer list \<Rightarrow> buffer list" where
  "from_buf a bs = dropWhile (\<lambda>b. addr b \<noteq> a) bs"

text \<open>The buffer an iterator is in, with its predecessors and successors, and the assertions
  every operation on iterators starts with.\<close>

definition locate :: "accumuler \<Rightarrow> iter \<Rightarrow> (buffer list \<times> buffer \<times> buffer list) hresult" where
  "locate c i = (case it_buf i of None \<Rightarrow> Inl NullDeref
     | Some a \<Rightarrow> (case from_buf a (chain c) of [] \<Rightarrow> Inl Dangling
        | b # bs \<Rightarrow> if b_begin b \<le> it_pos i \<and> it_pos i \<le> b_end b
                   then Inr (preds a (chain c), b, bs) else Inl AssertFailed))"

text \<open>The position at the begin of the next buffer, which the code asserts to be not empty.\<close>

definition enter :: "buffer \<Rightarrow> iter hresult" where
  "enter b = (if b_begin b < b_end b then Inr \<lparr>it_buf = Some (addr b), it_pos = b_begin b\<rparr>
     else Inl AssertFailed)"

definition enter_last :: "buffer \<Rightarrow> iter hresult" where
  "enter_last b = (if b_begin b < b_end b
     then Inr \<lparr>it_buf = Some (addr b), it_pos = b_end b - 1\<rparr> else Inl AssertFailed)"

definition absolutePosition :: "accumuler \<Rightarrow> iter \<Rightarrow> nat hresult" where
  "absolutePosition c i = hbind (locate c i) (\<lambda>(_, b, _). Inr (b_offset b + (it_pos i - b_begin b)))"

definition normalize :: "accumuler \<Rightarrow> iter \<Rightarrow> iter hresult" where
  "normalize c i = (if it_buf i = None then Inr i
     else hbind (locate c i) (\<lambda>(_, b, bs).
       if b_end b = it_pos i then (case bs of [] \<Rightarrow> Inr i | n # _ \<Rightarrow> enter n) else Inr i))"

definition dereference :: "accumuler \<Rightarrow> iter \<Rightarrow> char hresult" where
  "dereference c i = hbind (locate c i) (\<lambda>(_, b, _).
     if it_pos i < b_end b then Inr (arr b ! it_pos i) else Inl AssertFailed)"

definition increment :: "accumuler \<Rightarrow> iter \<Rightarrow> iter hresult" where
  "increment c i = hbind (locate c i) (\<lambda>(_, b, bs).
     if it_pos i < b_end b
     then (let j = i\<lparr>it_pos := it_pos i + 1\<rparr> in
       if b_end b = it_pos j then (case bs of [] \<Rightarrow> Inr j | n # _ \<Rightarrow> enter n) else Inr j)
     else Inl AssertFailed)"

definition decrement :: "accumuler \<Rightarrow> iter \<Rightarrow> iter hresult" where
  "decrement c i = hbind (locate c i) (\<lambda>(as, b, _).
     if b_begin b = it_pos i then (if as = [] then Inl AssertFailed else enter_last (last as))
     else Inr (i\<lparr>it_pos := it_pos i - 1\<rparr>))"

text \<open>The two loops of \<open>advance\<close>: along the chain, and back along the reversed chain.\<close>

fun advance_fwd :: "buffer list \<Rightarrow> nat \<Rightarrow> nat \<Rightarrow> iter hresult" where
  "advance_fwd [] pos n = Inl NullDeref"
| "advance_fwd (b # bs) pos n =
     (if n = 0 then Inr \<lparr>it_buf = Some (addr b), it_pos = pos\<rparr>
      else if n < b_end b - pos then Inr \<lparr>it_buf = Some (addr b), it_pos = pos + n\<rparr>
      else (case bs of
         [] \<Rightarrow> if n = b_end b - pos then Inr \<lparr>it_buf = Some (addr b), it_pos = b_end b\<rparr>
               else Inl AssertFailed
       | m # _ \<Rightarrow> if b_begin m < b_end m then advance_fwd bs (b_begin m) (n - (b_end b - pos))
               else Inl AssertFailed))"

fun advance_bwd :: "buffer list \<Rightarrow> nat \<Rightarrow> nat \<Rightarrow> iter hresult" where
  "advance_bwd [] pos n = Inl AssertFailed"
| "advance_bwd (b # bs) pos n =
     (if n = 0 then Inr \<lparr>it_buf = Some (addr b), it_pos = pos\<rparr>
      else if n \<le> pos - b_begin b then Inr \<lparr>it_buf = Some (addr b), it_pos = pos - n\<rparr>
      else (case bs of
         [] \<Rightarrow> Inl AssertFailed
       | m # _ \<Rightarrow> if b_begin m < b_end m then advance_bwd bs (b_end m - 1) (n - (pos - b_begin b))
               else Inl AssertFailed))"

definition advance :: "accumuler \<Rightarrow> iter \<Rightarrow> int \<Rightarrow> iter hresult" where
  "advance c i n = hbind (locate c i) (\<lambda>(as, b, bs).
     if 0 < n then advance_fwd (b # bs) (it_pos i) (nat n)
     else advance_bwd (b # rev as) (it_pos i) (nat (- n)))"

definition distance_to :: "accumuler \<Rightarrow> iter \<Rightarrow> iter \<Rightarrow> int hresult" where
  "distance_to c i j = hbind (absolutePosition c j) (\<lambda>q. hbind (absolutePosition c i) (\<lambda>p.
     Inr (int q - int p)))"

subsection \<open>The accumulator\<close>

definition acc_push :: "accumuler \<Rightarrow> packet \<Rightarrow> nat \<Rightarrow> (ecode \<times> accumuler) hresult" where
  "acc_push c p off =
     (if p_size p = 0 \<or> p_size p \<le> off then Inl AssertFailed
      else (let b = \<lparr>addr = fresh c, arr = p_data p, b_begin = off, b_end = p_size p, b_offset = acc_size c\<rparr>;
                c' = c\<lparr>last_ptr := Some (addr b), acc_size := acc_size c + (p_size p - off),
                       fresh := Suc (fresh c)\<rparr> in
        case last_ptr c of
          None \<Rightarrow> if chain c \<noteq> [] then Inl AssertFailed else Inr (NoError, c'\<lparr>chain := [b]\<rparr>)
        | Some a \<Rightarrow> if chain c = [] then Inl AssertFailed
            else (case from_buf a (chain c) of [] \<Rightarrow> Inl Dangling
                    | l # _ \<Rightarrow> Inr (NoError, c'\<lparr>chain := preds a (chain c) @ [l, b]\<rparr>))))"

definition acc_flush :: "accumuler \<Rightarrow> (ecode \<times> accumuler) hresult" where
  "acc_flush c = Inr (NoError, c)"

definition firstBuffer :: "accumuler \<Rightarrow> buffer option" where
  "firstBuffer c = (case chain c of [] \<Rightarrow> None | b # _ \<Rightarrow> Some b)"

definition acc_begin :: "accumuler \<Rightarrow> iter" where
  "acc_begin c = (case firstBuffer c of None \<Rightarrow> null_iter
     | Some b \<Rightarrow> \<lparr>it_buf = Some (addr b), it_pos = b_begin b\<rparr>)"

definition acc_end :: "accumuler \<Rightarrow> iter hresult" where
  "acc_end c = (case last_ptr c of None \<Rightarrow> Inl NullDeref
     | Some a \<Rightarrow> (case from_buf a (chain c) of [] \<Rightarrow> Inl Dangling
                  | b # _ \<Rightarrow> Inr \<lparr>it_buf = Some a, it_pos = b_end b\<rparr>))"

fun reoffset :: "nat \<Rightarrow> buffer list \<Rightarrow> buffer list" where
  "reoffset q [] = []"
| "reoffset q (b # bs) = b\<lparr>b_offset := q\<rparr> # reoffset (q + b_size b) bs"

text \<open>One round of removing the first buffer.\<close>

definition pop_front :: "accumuler \<Rightarrow> accumuler" where
  "pop_front c = (case chain c of [] \<Rightarrow> c
     | b # bs \<Rightarrow> c\<lparr>acc_size := acc_size c - b_size b, chain := bs,
                   last_ptr := (if bs = [] then None else last_ptr c)\<rparr>)"

fun pop_until :: "nat \<Rightarrow> buffer list \<Rightarrow> accumuler \<Rightarrow> accumuler hresult" where
  "pop_until a [] c = Inl AssertFailed"
| "pop_until a (b # bs) c = (if addr b = a then Inr c else pop_until a bs (pop_front c))"

definition drop_in_first :: "nat \<Rightarrow> accumuler \<Rightarrow> accumuler hresult" where
  "drop_in_first pos c = (case chain c of [] \<Rightarrow> Inl AssertFailed
     | b # bs \<Rightarrow>
         if b_begin b \<le> pos \<and> pos \<le> b_end b
         then Inr (if b_end b = pos then pop_front c
                   else c\<lparr>acc_size := acc_size c - (pos - b_begin b), chain := b\<lparr>b_begin := pos\<rparr> # bs\<rparr>)
         else Inl AssertFailed)"

definition set_offsets :: "accumuler \<Rightarrow> accumuler hresult" where
  "set_offsets c =
     (if sum_list (map b_size (chain c)) = acc_size c then Inr (c\<lparr>chain := reoffset 0 (chain c)\<rparr>)
      else Inl AssertFailed)"

definition dropFront :: "accumuler \<Rightarrow> iter \<Rightarrow> accumuler hresult" where
  "dropFront c i =
     (if chain c = [] then Inl AssertFailed
      else (case it_buf i of None \<Rightarrow> Inl AssertFailed
        | Some a \<Rightarrow> hbind (pop_until a (chain c) c) (\<lambda>c1.
            hbind (drop_in_first (it_pos i) c1) set_offsets)))"

text \<open>\<open>dropTail\<close> frees the buffers behind the given one, and the given one where nothing of
  it is left, and does not touch \<open>_last\<close> unless it frees everything.\<close>

definition dropTail :: "accumuler \<Rightarrow> iter \<Rightarrow> accumuler hresult" where
  "dropTail c i =
     (if chain c = [] then Inl AssertFailed
      else (case it_buf i of None \<Rightarrow> Inl AssertFailed
        | Some a \<Rightarrow> (case from_buf a (chain c) of [] \<Rightarrow> Inl Dangling
            | b # _ \<Rightarrow>
                if it_pos i < b_begin b \<or> length (arr b) < it_pos i then Inl BadIterator
                else (let b' = b\<lparr>b_end := it_pos i\<rparr>; as = preds a (chain c);
                          c1 = c\<lparr>acc_size := b_offset b' + b_size b'\<rparr> in
                  if b_size b' \<noteq> 0 then Inr (c1\<lparr>chain := as @ [b']\<rparr>)
                  else if as \<noteq> [] then Inr (c1\<lparr>chain := as\<rparr>)
                  else Inr (c1\<lparr>chain := [], last_ptr := None\<rparr>)))))"

text \<open>The destructor walks from \<open>_last\<close> to the front and cuts the chain behind each buffer.\<close>

definition destroy :: "accumuler \<Rightarrow> buffer list hresult" where
  "destroy c = (case last_ptr c of None \<Rightarrow> Inr (chain c)
     | Some a \<Rightarrow> (case from_buf a (chain c) of [] \<Rightarrow> Inl Dangling
                  | b # _ \<Rightarrow> Inr (take 1 (chain c))))"

subsection \<open>Well-formed chains and their content\<close>

definition buf_bytes :: "buffer \<Rightarrow> string" where
  "buf_bytes b = drop (b_begin b) (take (b_end b) (arr b))"

definition buf_ok :: "buffer \<Rightarrow> bool" where
  "buf_ok b \<longleftrightarrow> b_begin b < b_end b \<and> b_end b \<le> length (arr b)"

definition bytes_of :: "buffer list \<Rightarrow> string" where
  "bytes_of bs = concat (map buf_bytes bs)"

definition acc_content :: "accumuler \<Rightarrow> string" where
  "acc_content c = bytes_of (chain c)"

definition acc_ok :: "accumuler \<Rightarrow> bool" where
  "acc_ok c \<longleftrightarrow> distinct (map addr (chain c)) \<and>
     (\<forall>b\<in>set (chain c). addr b < fresh c \<and> buf_ok b) \<and>
     reoffset 0 (chain c) = chain c \<and>
     acc_size c = sum_list (map b_size (chain c)) \<and>
     last_ptr c = (if chain c = [] then None else Some (addr (last (chain c))))"

lemma bytes_of_simps [simp]:
  "bytes_of [] = []" "bytes_of (b # bs) = buf_bytes b @ bytes_of bs"
  "bytes_of (xs @ ys) = bytes_of xs @ bytes_of ys"
  by (simp_all add: bytes_of_def)

lemma length_buf_bytes: "buf_ok b \<Longrightarrow> length (buf_bytes b) = b_size b"
  by (simp add: buf_bytes_def buf_ok_def b_size_def)

lemma length_bytes_of:
  "\<forall>b\<in>set bs. buf_ok b \<Longrightarrow> length (bytes_of bs) = sum_list (map b_size bs)"
  by (induction bs) (simp_all add: length_buf_bytes)

lemma acc_size_content: "acc_ok c \<Longrightarrow> acc_size c = length (acc_content c)"
  by (simp add: acc_ok_def acc_content_def length_bytes_of)

lemma b_size_pos: "buf_ok b \<Longrightarrow> 0 < b_size b"
  by (simp add: buf_ok_def b_size_def)

lemma acc_content_Nil_iff: "acc_ok c \<Longrightarrow> acc_content c = [] \<longleftrightarrow> chain c = []"
  by (cases "chain c") (auto simp: acc_ok_def acc_content_def buf_ok_def buf_bytes_def)

lemma acc_ok_empty [invariant_intros]: "acc_ok empty_acc"
  by (simp add: acc_ok_def empty_acc_def)

lemma acc_content_empty [content_simps]: "acc_content empty_acc = []"
  by (simp add: acc_content_def empty_acc_def)

lemma preds_split [simp]:
  "a \<notin> addr ` set xs \<Longrightarrow> addr b = a \<Longrightarrow> preds a (xs @ b # ys) = xs"
  by (induction xs) (auto simp: preds_def)

lemma from_buf_split [simp]:
  "a \<notin> addr ` set xs \<Longrightarrow> addr b = a \<Longrightarrow> from_buf a (xs @ b # ys) = b # ys"
  by (induction xs) (auto simp: from_buf_def)

lemma locate_split:
  assumes "distinct (map addr (chain c))" "chain c = xs @ b # ys" "b_begin b \<le> p" "p \<le> b_end b"
  shows "locate c \<lparr>it_buf = Some (addr b), it_pos = p\<rparr> = Inr (xs, b, ys)"
proof -
  have "addr b \<notin> addr ` set xs" using assms(1,2) by auto
  then show ?thesis using assms by (simp add: locate_def)
qed

lemma reoffset_append:
  "reoffset q (xs @ ys) = reoffset q xs @ reoffset (q + sum_list (map b_size xs)) ys"
  by (induction xs arbitrary: q) (simp_all add: add.assoc)

lemma reoffset_same [simp]:
  "length (reoffset q bs) = length bs" "map addr (reoffset q bs) = map addr bs"
  "map b_size (reoffset q bs) = map b_size bs" "bytes_of (reoffset q bs) = bytes_of bs"
  "reoffset q bs = [] \<longleftrightarrow> bs = []"
  by (induction bs arbitrary: q) (simp_all add: b_size_def buf_bytes_def)

lemma reoffset_reoffset [simp]: "reoffset q (reoffset r bs) = reoffset q bs"
  by (induction bs arbitrary: q r) (simp_all add: b_size_def)

lemma reoffset_all:
  assumes "m \<in> set (reoffset q bs)" "\<And>n. n \<in> set bs \<Longrightarrow> addr n < a \<and> buf_ok n"
  shows "addr m < a \<and> buf_ok m"
  using assms by (induction bs arbitrary: q) (auto simp: buf_ok_def)

lemma offset_split:
  assumes "reoffset 0 (xs @ b # ys) = xs @ b # ys"
  shows "b_offset b = sum_list (map b_size xs)"
proof -
  have "b\<lparr>b_offset := sum_list (map b_size xs)\<rparr> = b"
    using assms by (simp add: reoffset_append append_eq_append_conv)
  then have "b_offset (b\<lparr>b_offset := sum_list (map b_size xs)\<rparr>) = b_offset b" by simp
  then show ?thesis by simp
qed

subsection \<open>Positions\<close>

text \<open>The iterator that stands before the byte \<open>q\<close> of the content, at its place in the chain.\<close>

fun seek :: "buffer list \<Rightarrow> nat \<Rightarrow> iter" where
  "seek [] q = null_iter"
| "seek (b # bs) q =
     (if q < b_size b \<or> bs = [] then \<lparr>it_buf = Some (addr b), it_pos = b_begin b + q\<rparr>
      else seek bs (q - b_size b))"

lemma seek_split:
  assumes "bs \<noteq> []" "q \<le> sum_list (map b_size bs)"
  obtains xs b ys k where "bs = xs @ b # ys" "q = sum_list (map b_size xs) + k"
    "k < b_size b \<or> ys = [] \<and> k \<le> b_size b"
    "seek bs q = \<lparr>it_buf = Some (addr b), it_pos = b_begin b + k\<rparr>"
  using assms
proof (induction bs arbitrary: q thesis)
  case (Cons b bs)
  show ?case
  proof (cases "q < b_size b \<or> bs = []")
    case True
    then show ?thesis using Cons.prems(1) [of "[]" b bs q] Cons.prems(3) by auto
  next
    case False
    then have ne: "bs \<noteq> []" and le: "q - b_size b \<le> sum_list (map b_size bs)"
      using Cons.prems(3) by auto
    obtain xs d ys k where *: "bs = xs @ d # ys" "q - b_size b = sum_list (map b_size xs) + k"
      "k < b_size d \<or> ys = [] \<and> k \<le> b_size d"
      "seek bs (q - b_size b) = \<lparr>it_buf = Some (addr d), it_pos = b_begin d + k\<rparr>"
      by (rule Cons.IH [OF _ ne le])
    show ?thesis
      by (rule Cons.prems(1) [of "b # xs" d ys k]) (use * False in auto)
  qed
qed simp

lemma seek_at:
  "k < b_size b \<or> ys = [] \<Longrightarrow> seek (xs @ b # ys) (sum_list (map b_size xs) + k) =
     \<lparr>it_buf = Some (addr b), it_pos = b_begin b + k\<rparr>"
  by (induction xs) auto

lemma seek_next:
  "buf_ok m \<Longrightarrow> seek (xs @ b # m # ys) (sum_list (map b_size xs) + b_size b) =
     \<lparr>it_buf = Some (addr m), it_pos = b_begin m\<rparr>"
  using seek_at [of 0 m ys "xs @ [b]"] by (simp add: b_size_pos)

text \<open>A way to hold a position of a well-formed chain.\<close>

lemma positionE:
  assumes "acc_ok c" "chain c \<noteq> []" "q \<le> length (acc_content c)"
  obtains xs b ys k where "chain c = xs @ b # ys" "q = sum_list (map b_size xs) + k"
    "k < b_size b \<or> ys = [] \<and> k \<le> b_size b" "buf_ok b" "\<And>m. m \<in> set ys \<Longrightarrow> buf_ok m"
    "b_offset b = sum_list (map b_size xs)"
    "seek (chain c) q = \<lparr>it_buf = Some (addr b), it_pos = b_begin b + k\<rparr>"
    "locate c (seek (chain c) q) = Inr (xs, b, ys)"
proof -
  have "q \<le> sum_list (map b_size (chain c))"
    using assms by (simp add: acc_size_content [symmetric] acc_ok_def)
  then obtain xs b ys k where *: "chain c = xs @ b # ys" "q = sum_list (map b_size xs) + k"
    "k < b_size b \<or> ys = [] \<and> k \<le> b_size b"
    "seek (chain c) q = \<lparr>it_buf = Some (addr b), it_pos = b_begin b + k\<rparr>"
    using seek_split assms(2) by metis
  have ok: "buf_ok b" "\<And>m. m \<in> set ys \<Longrightarrow> buf_ok m" using assms(1) *(1) by (auto simp: acc_ok_def)
  have "locate c (seek (chain c) q) = Inr (xs, b, ys)"
    unfolding *(4) by (rule locate_split) (use assms(1) * ok in \<open>auto simp: acc_ok_def b_size_def buf_ok_def\<close>)
  moreover have "b_offset b = sum_list (map b_size xs)"
    using offset_split assms(1) *(1) by (auto simp: acc_ok_def)
  ultimately show ?thesis using that * ok by blast
qed

lemma absolutePosition_seek:
  assumes "acc_ok c" "chain c \<noteq> []" "q \<le> length (acc_content c)"
  shows "absolutePosition c (seek (chain c) q) = Inr q"
proof -
  obtain xs b ys k where *: "q = sum_list (map b_size xs) + k" "b_offset b = sum_list (map b_size xs)"
    "seek (chain c) q = \<lparr>it_buf = Some (addr b), it_pos = b_begin b + k\<rparr>"
    "locate c (seek (chain c) q) = Inr (xs, b, ys)"
    using positionE [OF assms] by metis
  have "it_pos (seek (chain c) q) = b_begin b + k" using *(3) by simp
  then show ?thesis using * by (simp add: absolutePosition_def)
qed

lemma content_split:
  assumes "acc_ok c" "chain c = xs @ b # ys" "k < b_size b"
  shows "acc_content c ! (sum_list (map b_size xs) + k) = arr b ! (b_begin b + k)"
proof -
  have "\<forall>b\<in>set xs. buf_ok b" "buf_ok b" using assms by (auto simp: acc_ok_def)
  then show ?thesis using assms(3)
    by (simp add: acc_content_def assms(2) nth_append length_bytes_of length_buf_bytes)
       (simp add: buf_bytes_def b_size_def buf_ok_def)
qed

lemma dereference_seek:
  assumes "acc_ok c" "q < length (acc_content c)"
  shows "dereference c (seek (chain c) q) = Inr (acc_content c ! q)"
proof -
  have ne: "chain c \<noteq> []" using assms by (auto simp: acc_content_def)
  obtain xs b ys k where *: "chain c = xs @ b # ys" "q = sum_list (map b_size xs) + k"
    "k < b_size b \<or> ys = [] \<and> k \<le> b_size b"
    "seek (chain c) q = \<lparr>it_buf = Some (addr b), it_pos = b_begin b + k\<rparr>"
    "locate c (seek (chain c) q) = Inr (xs, b, ys)"
    using positionE [OF assms(1) ne less_imp_le [OF assms(2)]] by metis
  have "length (acc_content c) = sum_list (map b_size xs) + b_size b" if "ys = []"
    using acc_size_content [OF assms(1)] assms(1) *(1) that by (simp add: acc_ok_def)
  then have k: "k < b_size b" using *(2,3) assms(2) by auto
  then show ?thesis
    unfolding dereference_def *(5)
    using content_split [OF assms(1) *(1) k] *(2,4) by (simp add: b_size_def)
qed

lemma increment_seek:
  assumes "acc_ok c" "q < length (acc_content c)"
  shows "increment c (seek (chain c) q) = Inr (seek (chain c) (Suc q))"
proof -
  have ne: "chain c \<noteq> []" using assms by (auto simp: acc_content_def)
  obtain xs b ys k where *: "chain c = xs @ b # ys" "q = sum_list (map b_size xs) + k"
    "k < b_size b \<or> ys = [] \<and> k \<le> b_size b" "buf_ok b" "\<And>m. m \<in> set ys \<Longrightarrow> buf_ok m"
    "seek (chain c) q = \<lparr>it_buf = Some (addr b), it_pos = b_begin b + k\<rparr>"
    "locate c (seek (chain c) q) = Inr (xs, b, ys)"
    using positionE [OF assms(1) ne less_imp_le [OF assms(2)]] by metis
  have "length (acc_content c) = sum_list (map b_size xs) + b_size b" if "ys = []"
    using acc_size_content [OF assms(1)] assms(1) *(1) that by (simp add: acc_ok_def)
  then have k: "k < b_size b" using *(2,3) assms(2) by auto
  show ?thesis
  proof (cases "Suc k < b_size b \<or> ys = []")
    case True
    then have "seek (chain c) (Suc q) = \<lparr>it_buf = Some (addr b), it_pos = b_begin b + Suc k\<rparr>"
      using seek_at [of "Suc k" b ys xs] *(1,2) by simp
    then show ?thesis using True k *(6) unfolding increment_def *(7)
      by (auto simp: Let_def b_size_def)
  next
    case False
    then obtain m zs where ys: "ys = m # zs" "b_size b = Suc k" using k by (cases ys) auto
    then have "buf_ok m" using *(5) by simp
    moreover have "seek (chain c) (Suc q) = \<lparr>it_buf = Some (addr m), it_pos = b_begin m\<rparr>"
      using seek_next [OF \<open>buf_ok m\<close>, of xs b zs] *(1,2) ys by simp
    ultimately show ?thesis using ys *(4,6) unfolding increment_def *(7)
      by (auto simp: Let_def b_size_def enter_def buf_ok_def)
  qed
qed

lemma decrement_seek:
  assumes "acc_ok c" "q < length (acc_content c)"
  shows "decrement c (seek (chain c) (Suc q)) = Inr (seek (chain c) q)"
proof -
  have ne: "chain c \<noteq> []" using assms by (auto simp: acc_content_def)
  obtain xs b ys k where *: "chain c = xs @ b # ys" "Suc q = sum_list (map b_size xs) + k"
    "k < b_size b \<or> ys = [] \<and> k \<le> b_size b"
    "seek (chain c) (Suc q) = \<lparr>it_buf = Some (addr b), it_pos = b_begin b + k\<rparr>"
    "locate c (seek (chain c) (Suc q)) = Inr (xs, b, ys)"
    using positionE [OF assms(1) ne Suc_leI [OF assms(2)]] by metis
  show ?thesis
  proof (cases k)
    case (Suc j)
    then have "seek (chain c) q = \<lparr>it_buf = Some (addr b), it_pos = b_begin b + j\<rparr>"
      using seek_at [of j b ys xs] *(1-3) by auto
    then show ?thesis unfolding decrement_def *(5) using *(4) Suc by simp
  next
    case 0
    then have "xs \<noteq> []" using *(2) by auto
    then obtain ws m where xs: "xs = ws @ [m]" by (metis rev_exhaust)
    have m: "buf_ok m" using assms(1) *(1) xs by (auto simp: acc_ok_def)
    have "q = sum_list (map b_size ws) + (b_size m - 1)" using *(2) xs 0 b_size_pos [OF m] by simp
    then have "seek (chain c) q = \<lparr>it_buf = Some (addr m), it_pos = b_begin m + (b_size m - 1)\<rparr>"
      using seek_at [of "b_size m - 1" m "b # ys" ws] *(1) xs b_size_pos [OF m]
      by (simp only: append_assoc append_Cons append_Nil) simp
    then show ?thesis unfolding decrement_def *(5) using *(4) 0 xs m
      by (simp add: enter_last_def buf_ok_def b_size_def)
  qed
qed

lemma seek_append: "bs \<noteq> [] \<Longrightarrow> seek (xs @ bs) (sum_list (map b_size xs) + j) = seek bs j"
  by (induction xs) (auto simp: add.assoc)

lemma advance_fwd_seek:
  "(\<And>m. m \<in> set (b # ys) \<Longrightarrow> buf_ok m) \<Longrightarrow> k \<le> b_size b \<Longrightarrow> k < b_size b \<or> ys = [] \<Longrightarrow>
     k + n \<le> sum_list (map b_size (b # ys)) \<Longrightarrow>
     advance_fwd (b # ys) (b_begin b + k) n = Inr (seek (b # ys) (k + n))"
proof (induction ys arbitrary: b k n)
  case Nil
  have "buf_ok b" using Nil.prems(1) by simp
  then show ?case using Nil.prems by (auto simp: b_size_def buf_ok_def)
next
  case (Cons m ys)
  have ok: "buf_ok b" "buf_ok m" using Cons.prems(1) by simp_all
  show ?case
  proof (cases "n < b_size b - k")
    case True
    then show ?thesis using ok by (auto simp: b_size_def buf_ok_def)
  next
    case False
    have d: "b_end b - (b_begin b + k) = b_size b - k" using ok by (simp add: b_size_def)
    have "advance_fwd (m # ys) (b_begin m + 0) (n - (b_size b - k)) =
        Inr (seek (m # ys) (0 + (n - (b_size b - k))))"
      by (rule Cons.IH) (use Cons.prems False ok b_size_pos in auto)
    moreover have "n \<noteq> 0" using False Cons.prems(3) by auto
    then have "advance_fwd (b # m # ys) (b_begin b + k) n =
        advance_fwd (m # ys) (b_begin m) (n - (b_size b - k))"
      by (subst advance_fwd.simps(2)) (use False ok in \<open>simp add: d buf_ok_def del: advance_fwd.simps\<close>)
    moreover have "seek (b # m # ys) (k + n) = seek (m # ys) (n - (b_size b - k))"
    proof -
      have "\<not> k + n < b_size b" "k + n - b_size b = n - (b_size b - k)" using False Cons.prems(2) by auto
      then show ?thesis by (simp only: seek.simps(2) [of b] list.distinct simp_thms if_False)
    qed
    ultimately show ?thesis by (simp only: add_0_right add_0_left)
  qed
qed

lemma advance_seek:
  assumes "acc_ok c" "chain c \<noteq> []" "q + n \<le> length (acc_content c)"
  shows "advance c (seek (chain c) q) (int n) = Inr (seek (chain c) (q + n))"
proof -
  have "q \<le> length (acc_content c)" using assms(3) by simp
  then obtain xs b ys k where *: "chain c = xs @ b # ys" "q = sum_list (map b_size xs) + k"
    "k < b_size b \<or> ys = [] \<and> k \<le> b_size b" "buf_ok b" "\<And>m. m \<in> set ys \<Longrightarrow> buf_ok m"
    "seek (chain c) q = \<lparr>it_buf = Some (addr b), it_pos = b_begin b + k\<rparr>"
    "locate c (seek (chain c) q) = Inr (xs, b, ys)"
    using positionE [OF assms(1,2)] by metis
  have "k + n \<le> sum_list (map b_size (b # ys))"
    using assms(1,3) *(1,2) acc_size_content [OF assms(1)] by (simp add: acc_ok_def)
  then have "advance_fwd (b # ys) (b_begin b + k) n = Inr (seek (b # ys) (k + n))"
    by (intro advance_fwd_seek) (use * in auto)
  moreover have "seek (chain c) (q + n) = seek (b # ys) (k + n)"
    using seek_append [of "b # ys" xs "k + n"] *(1,2) by (simp only: add.assoc list.distinct simp_thms)
  ultimately show ?thesis
    unfolding advance_def *(7) using *(6) by (cases "n = 0") auto
qed

text \<open>Going back over the begin of a buffer, the step to its predecessor is not counted.\<close>

lemma advance_bwd_seek:
  "(\<And>m. m \<in> set (xs @ [b]) \<Longrightarrow> buf_ok m) \<Longrightarrow> k < b_size b \<or> ys = [] \<Longrightarrow>
     advance_bwd (b # rev xs) (b_begin b + k) n = Inr j \<Longrightarrow>
     \<exists>p. j = seek (xs @ b # ys) p \<and> p + n \<le> sum_list (map b_size xs) + k \<and>
         (k < n \<longrightarrow> p + n < sum_list (map b_size xs) + k)"
proof (induction xs arbitrary: b k n ys rule: rev_induct)
  case Nil
  then have "n \<le> k" "j = \<lparr>it_buf = Some (addr b), it_pos = b_begin b + (k - n)\<rparr>"
    by (auto split: if_splits)
  then show ?case using Nil.prems(2) by (intro exI [of _ "k - n"]) auto
next
  case (snoc m xs)
  have m: "buf_ok m" using snoc.prems(1) by simp
  show ?case
  proof (cases "n \<le> k")
    case True
    then have "j = \<lparr>it_buf = Some (addr b), it_pos = b_begin b + (k - n)\<rparr>"
      using snoc.prems(3) by (auto split: if_splits)
    moreover have "k - n < b_size b \<or> ys = []" using snoc.prems(2) by auto
    ultimately show ?thesis
      using True seek_at [of "k - n" b ys "xs @ [m]"]
      by (intro exI [of _ "sum_list (map b_size (xs @ [m])) + (k - n)"]) auto
  next
    case False
    then have "advance_bwd (m # rev xs) (b_begin m + (b_size m - 1)) (n - k) = Inr j"
      using snoc.prems(3) m by (auto simp: b_size_def buf_ok_def split: if_splits)
    moreover have "b_size m - 1 < b_size m \<or> b # ys = []" using b_size_pos [OF m] by simp
    moreover have "buf_ok d" if "d \<in> set (xs @ [m])" for d using snoc.prems(1) [of d] that by auto
    ultimately obtain p where "j = seek (xs @ m # b # ys) p"
      "p + (n - k) \<le> sum_list (map b_size xs) + (b_size m - 1)"
      using snoc.IH [of m "b_size m - 1" "b # ys" "n - k"] by blast
    then show ?thesis using False b_size_pos [OF m] by (intro exI [of _ p]) auto
  qed
qed

lemma seek_inj:
  assumes "acc_ok c" "p \<le> length (acc_content c)" "q \<le> length (acc_content c)" "chain c \<noteq> []"
    "seek (chain c) p = seek (chain c) q"
  shows "p = q"
  using absolutePosition_seek [OF assms(1,4,2)] absolutePosition_seek [OF assms(1,4,3)]
  unfolding assms(5) by simp

lemma acc_begin_seek: "acc_ok c \<Longrightarrow> acc_begin c = seek (chain c) 0"
  by (cases "chain c") (auto simp: acc_begin_def firstBuffer_def acc_ok_def b_size_pos)

lemma acc_end_seek:
  assumes "acc_ok c" "chain c \<noteq> []"
  shows "acc_end c = Inr (seek (chain c) (length (acc_content c)))"
proof -
  obtain xs b where c: "chain c = xs @ [b]" using assms(2) by (metis rev_exhaust)
  have d: "addr b \<notin> addr ` set xs" "buf_ok b" "last_ptr c = Some (addr b)"
    using assms(1) c by (auto simp: acc_ok_def)
  have "length (acc_content c) = sum_list (map b_size xs) + b_size b"
    using acc_size_content [OF assms(1)] assms(1) c by (simp add: acc_ok_def)
  then have "seek (chain c) (length (acc_content c)) = \<lparr>it_buf = Some (addr b), it_pos = b_begin b + b_size b\<rparr>"
    using seek_at [of "b_size b" b "[]" xs] c by simp
  then show ?thesis using d c by (simp add: acc_end_def b_size_def buf_ok_def)
qed

subsection \<open>What the operations of the accumulator do to its content\<close>

lemma acc_ok_last: "acc_ok c \<Longrightarrow> chain c = xs @ [l] \<Longrightarrow> last_ptr c = Some (addr l) \<and> addr l \<notin> addr ` set xs"
  by (auto simp: acc_ok_def)

lemma acc_push_ok:
  assumes "acc_ok c" "packet_ok p off"
  shows "\<exists>c'. acc_push c p off = Inr (NoError, c') \<and> acc_ok c' \<and>
     acc_content c' = acc_content c @ payload_of p off"
proof -
  define b where "b = \<lparr>addr = fresh c, arr = p_data p, b_begin = off, b_end = p_size p, b_offset = acc_size c\<rparr>"
  define c' where "c' = c\<lparr>last_ptr := Some (addr b), acc_size := acc_size c + (p_size p - off),
      fresh := Suc (fresh c), chain := chain c @ [b]\<rparr>"
  have "acc_push c p off = Inr (NoError, c')"
  proof (cases "chain c" rule: rev_cases)
    case Nil
    then show ?thesis using assms
      by (simp add: acc_push_def packet_ok_def acc_ok_def c'_def b_def Let_def)
  next
    case (snoc xs l)
    then show ?thesis using assms acc_ok_last [OF assms(1) snoc]
      by (simp add: acc_push_def packet_ok_def c'_def b_def Let_def)
  qed
  moreover have "acc_ok c'"
    unfolding acc_ok_def
  proof (intro conjI)
    show "distinct (map addr (chain c'))" using assms(1)
      by (auto simp: acc_ok_def c'_def b_def)
    show "\<forall>b\<in>set (chain c'). addr b < fresh c' \<and> buf_ok b" using assms
      by (auto simp: acc_ok_def c'_def b_def buf_ok_def packet_ok_def)
    show "reoffset 0 (chain c') = chain c'" using assms(1)
      by (simp add: acc_ok_def c'_def b_def reoffset_append)
  qed (use assms in \<open>simp_all add: acc_ok_def c'_def b_def b_size_def\<close>)
  moreover have "acc_content c' = acc_content c @ payload_of p off"
    by (simp add: acc_content_def c'_def b_def buf_bytes_def payload_of_def)
  ultimately show ?thesis by blast
qed

lemma pop_until_split:
  "chain c = xs @ b # ys \<Longrightarrow> addr b \<notin> addr ` set xs \<Longrightarrow>
     pop_until (addr b) (chain c) c =
       Inr (c\<lparr>chain := b # ys, acc_size := acc_size c - sum_list (map b_size xs)\<rparr>)"
proof (induction xs arbitrary: c)
  case (Cons x xs)
  have "pop_until (addr b) (chain (pop_front c)) (pop_front c) =
      Inr ((pop_front c)\<lparr>chain := b # ys, acc_size := acc_size (pop_front c) - sum_list (map b_size xs)\<rparr>)"
    by (rule Cons.IH) (use Cons.prems in \<open>simp_all add: pop_front_def\<close>)
  then show ?case using Cons.prems by (simp add: pop_front_def)
qed simp

lemma dropFront_ok:
  assumes "acc_ok c" "chain c \<noteq> []" "q \<le> length (acc_content c)"
  shows "\<exists>c'. dropFront c (seek (chain c) q) = Inr c' \<and> acc_ok c' \<and>
     acc_content c' = drop q (acc_content c)"
proof -
  obtain xs b ys k where *: "chain c = xs @ b # ys" "q = sum_list (map b_size xs) + k"
    "k < b_size b \<or> ys = [] \<and> k \<le> b_size b" "buf_ok b" "\<And>m. m \<in> set ys \<Longrightarrow> buf_ok m"
    "seek (chain c) q = \<lparr>it_buf = Some (addr b), it_pos = b_begin b + k\<rparr>"
    using positionE [OF assms] by metis
  define c1 where "c1 = c\<lparr>chain := b # ys, acc_size := acc_size c - sum_list (map b_size xs)\<rparr>"
  have xs: "addr b \<notin> addr ` set xs" "\<forall>m\<in>set xs. buf_ok m" using assms(1) *(1) by (auto simp: acc_ok_def)
  have size: "acc_size c1 = b_size b + sum_list (map b_size ys)"
    using assms(1) *(1) by (simp add: acc_ok_def c1_def)
  have drop: "drop q (acc_content c) = drop k (buf_bytes b) @ bytes_of ys"
    using *(1-5) xs by (simp add: acc_content_def length_bytes_of length_buf_bytes)
       (auto simp: length_buf_bytes)
  have pop: "pop_until (addr b) (chain c) c = Inr c1"
    unfolding c1_def by (rule pop_until_split) (use *(1) xs in auto)
  have last: "last_ptr c = Some (addr (last (b # ys)))" using assms(1) *(1) by (auto simp: acc_ok_def)
  have dist: "distinct (map addr (b # ys))" "\<forall>m\<in>set (b # ys). addr m < fresh c \<and> buf_ok m"
    using assms(1) *(1) by (auto simp: acc_ok_def)
  have step: "dropFront c (seek (chain c) q) = hbind (drop_in_first (b_begin b + k) c1) set_offsets"
    using assms(2) by (simp add: dropFront_def *(6) pop del: pop_until.simps)
  show ?thesis
  proof (cases "k = b_size b")
    case True
    then have ys: "ys = []" using *(3) by auto
    have "drop_in_first (b_begin b + k) c1 = Inr (pop_front c1)"
      using True *(4) by (simp add: drop_in_first_def c1_def b_size_def buf_ok_def)
    moreover have "set_offsets (pop_front c1) = Inr (pop_front c1)"
      using size ys by (simp add: set_offsets_def pop_front_def c1_def)
    moreover have "acc_ok (pop_front c1)"
      using size ys by (simp add: acc_ok_def pop_front_def c1_def)
    moreover have "acc_content (pop_front c1) = drop q (acc_content c)"
      unfolding drop using True *(4) ys by (simp add: acc_content_def pop_front_def c1_def length_buf_bytes)
    ultimately show ?thesis using step by simp
  next
    case False
    define d where "d = b\<lparr>b_begin := b_begin b + k\<rparr>"
    define c2 where "c2 = c1\<lparr>acc_size := acc_size c1 - k, chain := d # ys\<rparr>"
    have k: "k < b_size b" using False *(3) by auto
    have d: "b_size d = b_size b - k" "buf_bytes d = drop k (buf_bytes b)" "addr d = addr b" "buf_ok d"
      using k *(4) by (simp_all add: d_def b_size_def buf_bytes_def buf_ok_def add.commute)
    have "b_end b \<noteq> b_begin b + k" "b_begin b + k \<le> b_end b"
      using k *(4) by (simp_all add: b_size_def buf_ok_def)
    then have "drop_in_first (b_begin b + k) c1 = Inr c2"
      by (simp add: drop_in_first_def c1_def c2_def d_def)
    moreover have "set_offsets c2 = Inr (c2\<lparr>chain := reoffset 0 (d # ys)\<rparr>)"
      using k size d by (simp add: set_offsets_def c2_def)
    moreover have "acc_ok (c2\<lparr>chain := reoffset 0 (d # ys)\<rparr>)"
      unfolding acc_ok_def
    proof (intro conjI)
      show "distinct (map addr (chain (c2\<lparr>chain := reoffset 0 (d # ys)\<rparr>)))"
        using dist d by simp
      have "addr m < fresh c \<and> buf_ok m" if "m \<in> set (reoffset 0 (d # ys))" for m
        by (rule reoffset_all [OF that]) (use dist d in auto)
      then show "\<forall>b\<in>set (chain (c2\<lparr>chain := reoffset 0 (d # ys)\<rparr>)).
          addr b < fresh (c2\<lparr>chain := reoffset 0 (d # ys)\<rparr>) \<and> buf_ok b"
        by (simp add: c2_def c1_def del: reoffset.simps)
      show "last_ptr (c2\<lparr>chain := reoffset 0 (d # ys)\<rparr>) =
         (if chain (c2\<lparr>chain := reoffset 0 (d # ys)\<rparr>) = [] then None
          else Some (addr (last (chain (c2\<lparr>chain := reoffset 0 (d # ys)\<rparr>)))))"
      proof -
        have "map addr (reoffset 0 (d # ys)) = map addr (b # ys)" using d(3) by simp
        moreover have "reoffset 0 (d # ys) \<noteq> []" by simp
        ultimately have "addr (last (reoffset 0 (d # ys))) = addr (last (b # ys))"
          using last_map [of "reoffset 0 (d # ys)" addr] last_map [of "b # ys" addr]
          by (simp only: list.distinct simp_thms)
        then show ?thesis using last by (simp add: c2_def c1_def del: reoffset.simps)
      qed
    qed (use k size d in \<open>simp_all add: c2_def del: reoffset.simps\<close>)
    moreover have "acc_content (c2\<lparr>chain := reoffset 0 (d # ys)\<rparr>) = drop q (acc_content c)"
      unfolding drop using d by (simp add: acc_content_def del: reoffset.simps)
    ultimately show ?thesis using step by simp
  qed
qed

text \<open>\<open>dropTail\<close> keeps the right content; \<open>_last\<close> stays valid only where the last buffer does.\<close>

lemma dropTail_content:
  assumes "acc_ok c" "chain c \<noteq> []" "q \<le> length (acc_content c)"
  shows "\<exists>c'. dropTail c (seek (chain c) q) = Inr c' \<and>
     acc_content c' = take q (acc_content c) \<and> acc_size c' = q \<and>
     (if q = 0 \<or> it_buf (seek (chain c) (q - 1)) = last_ptr c then acc_ok c'
      else chain c' \<noteq> [] \<and> last_ptr c' = last_ptr c \<and> last_ptr c \<notin> Some ` addr ` set (chain c'))"
proof -
  obtain xs b ys k where *: "chain c = xs @ b # ys" "q = sum_list (map b_size xs) + k"
    "k < b_size b \<or> ys = [] \<and> k \<le> b_size b" "buf_ok b" "b_offset b = sum_list (map b_size xs)"
    "seek (chain c) q = \<lparr>it_buf = Some (addr b), it_pos = b_begin b + k\<rparr>"
    using positionE [OF assms] by metis
  define d where "d = b\<lparr>b_end := b_begin b + k\<rparr>"
  define c1 where "c1 = c\<lparr>acc_size := q\<rparr>"
  have xs: "addr b \<notin> addr ` set xs" "\<forall>m\<in>set xs. buf_ok m \<and> addr m < fresh c"
    "distinct (map addr xs)" "reoffset 0 xs = xs" "addr b < fresh c"
    using assms(1) *(1) by (auto simp: acc_ok_def reoffset_append append_eq_append_conv)
  have ys: "addr (last (b # ys)) \<notin> addr ` set xs" "ys \<noteq> [] \<Longrightarrow> addr (last ys) \<noteq> addr b"
    "last_ptr c = Some (addr (last (b # ys)))"
    using assms(1) *(1) by (cases ys rule: rev_cases; auto simp: acc_ok_def)+
  have take: "take q (acc_content c) = bytes_of xs @ take k (buf_bytes b)"
    using *(1-4) xs by (auto simp: acc_content_def length_bytes_of length_buf_bytes)
  have step: "dropTail c (seek (chain c) q) =
      (if k \<noteq> 0 then Inr (c1\<lparr>chain := xs @ [d]\<rparr>) else if xs \<noteq> [] then Inr (c1\<lparr>chain := xs\<rparr>)
       else Inr (c1\<lparr>chain := [], last_ptr := None\<rparr>))"
  proof -
    have "from_buf (addr b) (chain c) = b # ys" "preds (addr b) (chain c) = xs"
      using xs(1) *(1) by simp_all
    moreover have "b_begin b + k \<le> length (arr b)" "b_size d = k" "b_offset d = sum_list (map b_size xs)"
      using *(3,4,5) by (auto simp: b_size_def buf_ok_def d_def)
    ultimately show ?thesis
      unfolding dropTail_def *(6) by (simp add: assms(2) Let_def d_def [symmetric] c1_def *(2))
  qed
  show ?thesis
  proof (cases k)
    case (Suc j)
    then have "q - 1 = sum_list (map b_size xs) + j" "j < b_size b" using *(2,3) by auto
    then have prev: "it_buf (seek (chain c) (q - 1)) = Some (addr b)"
      using seek_at [of j b ys xs] *(1) by simp
    have d: "addr d = addr b" "buf_ok d" "b_size d = k" "buf_bytes d = take k (buf_bytes b)"
        "b_offset d = sum_list (map b_size xs)"
      using Suc *(3,4,5) by (auto simp: d_def buf_ok_def b_size_def buf_bytes_def take_drop add.commute min_def)
    have "acc_ok (c1\<lparr>chain := xs @ [d]\<rparr>)" if "last_ptr c = Some (addr b)"
      using xs d that *(2) by (auto simp: acc_ok_def c1_def reoffset_append)
    moreover have "ys = []" if "last_ptr c = Some (addr b)" using ys that by (cases ys) auto
    moreover have "last_ptr c \<notin> Some ` addr ` set (xs @ [d])" if "last_ptr c \<noteq> Some (addr b)"
      using that ys d by auto
    moreover have "q \<noteq> 0" using Suc *(2) by simp
    ultimately show ?thesis using step Suc prev d take
      by (auto simp: acc_content_def c1_def)
  next
    case 0
    show ?thesis
    proof (cases "xs = []")
      case True
      then show ?thesis using 0 *(2) step by (simp add: c1_def acc_ok_def acc_content_def)
    next
      case False
      then obtain ws m where ws: "xs = ws @ [m]" by (metis rev_exhaust)
      have m: "buf_ok m" using xs ws by simp
      have "q - 1 = sum_list (map b_size ws) + (b_size m - 1)" "q \<noteq> 0"
        using *(2) 0 ws b_size_pos [OF m] by simp_all
      then have "it_buf (seek (chain c) (q - 1)) = Some (addr m)"
        using seek_at [of "b_size m - 1" m "b # ys" ws] *(1) ws b_size_pos [OF m]
        by (simp only: append_assoc append_Cons append_Nil) simp
      then have "it_buf (seek (chain c) (q - 1)) \<noteq> last_ptr c" using ys ws by auto
      moreover have "last_ptr c \<notin> Some ` addr ` set xs" using ys by auto
      ultimately show ?thesis using step 0 False \<open>q \<noteq> 0\<close> take
        by (simp add: c1_def acc_content_def)
    qed
  qed
qed

lemma acc_push_dangling:
  assumes "chain c \<noteq> []" "last_ptr c = Some a" "a \<notin> addr ` set (chain c)" "packet_ok p off"
  shows "acc_push c p off = Inl Dangling"
proof -
  have "from_buf a (chain c) = []" using assms(3) by (auto simp: from_buf_def)
  then show ?thesis using assms by (simp add: acc_push_def packet_ok_def Let_def)
qed

lemma advance_back:
  assumes "acc_ok c" "chain c \<noteq> []" "0 < m" "m \<le> q" "q \<le> length (acc_content c)"
  shows "advance c (seek (chain c) q) (- int m) = Inr (seek (chain c) (q - m)) \<longleftrightarrow>
     it_buf (seek (chain c) (q - m)) = it_buf (seek (chain c) q)"
proof -
  obtain xs b ys k where *: "chain c = xs @ b # ys" "q = sum_list (map b_size xs) + k"
    "k < b_size b \<or> ys = [] \<and> k \<le> b_size b"
    "seek (chain c) q = \<lparr>it_buf = Some (addr b), it_pos = b_begin b + k\<rparr>"
    "locate c (seek (chain c) q) = Inr (xs, b, ys)"
    using positionE [OF assms(1,2,5)] by metis
  have adv: "advance c (seek (chain c) q) (- int m) = advance_bwd (b # rev xs) (b_begin b + k) m"
    using assms(3) *(4) unfolding advance_def *(5) by simp
  show ?thesis
  proof (cases "m \<le> k")
    case True
    moreover have "k - m < b_size b \<or> ys = []" using *(3) by auto
    ultimately have "seek (chain c) (q - m) = \<lparr>it_buf = Some (addr b), it_pos = b_begin b + (k - m)\<rparr>"
      using seek_at [of "k - m" b ys xs] *(1,2) by simp
    then show ?thesis using True *(4) assms(3) unfolding adv by simp
  next
    case False
    have k: "k < b_size b \<or> ys = []" using *(3) by auto
    have ok: "\<And>d. d \<in> set (xs @ [b]) \<Longrightarrow> buf_ok d" using assms(1) *(1) by (auto simp: acc_ok_def)
    have "advance_bwd (b # rev xs) (b_begin b + k) m \<noteq> Inr (seek (chain c) (q - m))"
    proof
      assume "advance_bwd (b # rev xs) (b_begin b + k) m = Inr (seek (chain c) (q - m))"
      from advance_bwd_seek [OF ok k this] obtain p where
        p: "seek (chain c) (q - m) = seek (chain c) p" "p + m < q"
        using False *(1,2) by auto
      have "q - m = p"
        by (rule seek_inj [OF assms(1) _ _ assms(2) p(1)]) (use p assms(4,5) in auto)
      with p show False by simp
    qed
    moreover have "it_buf (seek (chain c) (q - m)) \<noteq> Some (addr b)"
    proof -
      have len: "q - m < sum_list (map b_size xs)" "q - m \<le> sum_list (map b_size xs)"
        using False *(2) assms(4) by auto
      then have "xs \<noteq> []" by auto
      from seek_split [OF this len(2)] obtain ws d zs j where
        d: "xs = ws @ d # zs" "q - m = sum_list (map b_size ws) + j" "j < b_size d \<or> zs = [] \<and> j \<le> b_size d"
        by metis
      then have "j < b_size d" using len(1) by auto
      then have "seek (chain c) (q - m) = \<lparr>it_buf = Some (addr d), it_pos = b_begin d + j\<rparr>"
        using seek_at [of j d "zs @ b # ys" ws] d(1,2) *(1) by simp
      moreover have "addr d \<noteq> addr b" using assms(1) *(1) d(1) by (auto simp: acc_ok_def)
      ultimately show ?thesis by simp
    qed
    ultimately show ?thesis unfolding adv using *(4) by simp
  qed
qed

subsection \<open>The accumulator as a string\<close>

datatype acc_op = PushPacket packet nat | DropFirst nat | FlushOp

text \<open>The operations as the body extractors use them: positions are counted from the begin.\<close>

fun acc_step :: "acc_op \<Rightarrow> accumuler \<Rightarrow> accumuler hresult" where
  "acc_step (PushPacket p off) c = hbind (acc_push c p off) (\<lambda>r. Inr (snd r))"
| "acc_step (DropFirst q) c = hbind (advance c (acc_begin c) (int q)) (dropFront c)"
| "acc_step FlushOp c = hbind (acc_flush c) (\<lambda>r. Inr (snd r))"

fun acc_spec :: "acc_op \<Rightarrow> string \<Rightarrow> string" where
  "acc_spec (PushPacket p off) s = s @ payload_of p off"
| "acc_spec (DropFirst q) s = drop q s"
| "acc_spec FlushOp s = s"

fun acc_allowed :: "acc_op \<Rightarrow> string \<Rightarrow> bool" where
  "acc_allowed (PushPacket p off) s = packet_ok p off"
| "acc_allowed (DropFirst q) s = (s \<noteq> [] \<and> q \<le> length s)"
| "acc_allowed FlushOp s = True"

definition acc_refines :: "accumuler \<Rightarrow> string \<Rightarrow> bool" where
  "acc_refines c s \<longleftrightarrow> acc_ok c \<and> acc_content c = s"

lemma drop_first_ok:
  assumes "acc_ok c" "acc_content c \<noteq> []" "q \<le> length (acc_content c)"
  shows "\<exists>c'. hbind (advance c (acc_begin c) (int q)) (dropFront c) = Inr c' \<and> acc_ok c' \<and>
     acc_content c' = drop q (acc_content c)"
proof -
  have ne: "chain c \<noteq> []" using assms(2) by (auto simp: acc_content_def)
  have "advance c (acc_begin c) (int q) = Inr (seek (chain c) q)"
    using advance_seek [OF assms(1) ne, of 0 q] assms by (simp add: acc_begin_seek)
  then show ?thesis using dropFront_ok [OF assms(1) ne assms(3)] by simp
qed

interpretation accref: data_refinement acc_step acc_spec acc_allowed acc_refines
proof
  fix c s x assume "acc_refines c s" "acc_allowed x s"
  then show "\<exists>c'. acc_step x c = Inr c' \<and> acc_refines c' (acc_spec x s)"
    using acc_push_ok [of c] drop_first_ok [of c]
    by (cases x) (fastforce simp: acc_refines_def acc_flush_def)+
qed

subsection \<open>Properties\<close>

text \<open>
  C21: the accumulator is a string.  Any sequence of pushes of packets, flushes and drops of a
  front part runs without a failed assertion or a dangling pointer, keeps the chain, the
  offsets, the size and \<open>_last\<close> consistent, and holds exactly the bytes pushed and not dropped.
\<close>

theorem accumulator_refines:
  assumes "allowed_run acc_allowed acc_spec ops []"
  shows "\<exists>c. run_ops acc_step ops empty_acc = Inr c \<and> acc_ok c \<and>
     acc_content c = fold acc_spec ops [] \<and> acc_size c = length (fold acc_spec ops [])"
proof -
  have "acc_refines empty_acc []" by (simp add: acc_refines_def acc_ok_empty acc_content_empty)
  from accref.run_simulates [OF this assms] show ?thesis
    by (auto simp: acc_refines_def acc_size_content)
qed

theorem accumulator_refines_witness:
  "\<exists>c. run_ops acc_step [PushPacket \<lparr>p_data = ''abcd'', p_size = 3\<rparr> 1, PushPacket \<lparr>p_data = ''ef'', p_size = 2\<rparr> 0,
       DropFirst 3] empty_acc = Inr c \<and> acc_ok c \<and> acc_content c = ''f'' \<and> acc_size c = 1"
  using accumulator_refines [of "[PushPacket \<lparr>p_data = ''abcd'', p_size = 3\<rparr> 1,
      PushPacket \<lparr>p_data = ''ef'', p_size = 2\<rparr> 0, DropFirst 3]"]
  by (simp add: packet_ok_def payload_of_def numeral_3_eq_3)

text \<open>
  The iterator over the chain is a random access iterator forwards: at the byte \<open>q\<close> of the
  content it reads that byte, steps to the next and from there back, knows its position, and
  \<open>advance\<close> by \<open>n\<close> is the position \<open>q + n\<close>, over any number of buffers.
\<close>

theorem iterator_forward:
  assumes "acc_ok c" "chain c \<noteq> []" "q \<le> length (acc_content c)"
  shows "absolutePosition c (seek (chain c) q) = Inr q \<and>
    (q < length (acc_content c) \<longrightarrow>
       dereference c (seek (chain c) q) = Inr (acc_content c ! q) \<and>
       increment c (seek (chain c) q) = Inr (seek (chain c) (Suc q)) \<and>
       decrement c (seek (chain c) (Suc q)) = Inr (seek (chain c) q)) \<and>
    (\<forall>n \<le> length (acc_content c) - q.
       advance c (seek (chain c) q) (int n) = Inr (seek (chain c) (q + n)) \<and>
       distance_to c (seek (chain c) q) (seek (chain c) (q + n)) = Inr (int n))"
  using assms
  by (auto simp: absolutePosition_seek dereference_seek increment_seek decrement_seek advance_seek
      distance_to_def)

definition sample_chain :: accumuler where
  "sample_chain = \<lparr>chain =
     [\<lparr>addr = 0, arr = ''xab'', b_begin = 1, b_end = 3, b_offset = 0\<rparr>,
      \<lparr>addr = 1, arr = ''c'', b_begin = 0, b_end = 1, b_offset = 2\<rparr>],
     last_ptr = Some 1, acc_size = 3, fresh = 2\<rparr>"

lemma sample_chain_ok: "acc_ok sample_chain" "chain sample_chain \<noteq> []" "acc_content sample_chain = ''abc''"
  by (simp_all add: acc_ok_def sample_chain_def buf_ok_def b_size_def acc_content_def buf_bytes_def
      numeral_3_eq_3 numeral_2_eq_2)

theorem iterator_forward_witness:
  "advance sample_chain \<lparr>it_buf = Some 0, it_pos = 1\<rparr> 2 = Inr \<lparr>it_buf = Some 1, it_pos = 0\<rparr>"
proof -
  have "seek (chain sample_chain) 0 = \<lparr>it_buf = Some 0, it_pos = 1\<rparr>"
    "seek (chain sample_chain) 2 = \<lparr>it_buf = Some 1, it_pos = 0\<rparr>"
    by (simp_all add: sample_chain_def b_size_def)
  then show ?thesis
    using iterator_forward [OF sample_chain_ok(1,2), of 0, THEN conjunct2, THEN conjunct2, rule_format, of 2]
    by (simp add: sample_chain_ok(3) numeral_2_eq_2)
qed

text \<open>
  \<open>advance\<close> by a negative distance is right exactly if it stays in its buffer; over the begin
  of a buffer it goes too far or off the chain, since the step to the end of the previous
  buffer is not counted.
\<close>

theorem advance_back_iff:
  assumes "acc_ok c" "chain c \<noteq> []" "0 < m" "m \<le> q" "q \<le> length (acc_content c)"
  shows "advance c (seek (chain c) q) (- int m) = Inr (seek (chain c) (q - m)) \<longleftrightarrow>
     it_buf (seek (chain c) (q - m)) = it_buf (seek (chain c) q)"
  using assms by (rule advance_back)

theorem advance_back_iff_witness:
  "advance sample_chain \<lparr>it_buf = Some 1, it_pos = 0\<rparr> (-1) \<noteq> Inr \<lparr>it_buf = Some 0, it_pos = 2\<rparr>"
proof -
  have "seek (chain sample_chain) 1 = \<lparr>it_buf = Some 0, it_pos = 2\<rparr>"
    "seek (chain sample_chain) 2 = \<lparr>it_buf = Some 1, it_pos = 0\<rparr>"
    by (simp_all add: sample_chain_def b_size_def)
  then show ?thesis
    using advance_back_iff [OF sample_chain_ok(1,2), of 1 2] by (simp add: sample_chain_ok(3))
qed

text \<open>
  Cutting off the tail keeps exactly the bytes before the position, but leaves \<open>_last\<close> at a
  freed buffer unless everything is dropped or the byte before the position is in the last
  buffer; the next \<open>push\<close> then writes through the dangling pointer.
\<close>

theorem dropTail_last:
  assumes "acc_ok c" "chain c \<noteq> []" "q \<le> length (acc_content c)" "packet_ok p off"
  shows "\<exists>c'. dropTail c (seek (chain c) q) = Inr c' \<and> acc_content c' = take q (acc_content c) \<and>
     (if q = 0 \<or> it_buf (seek (chain c) (q - 1)) = last_ptr c then acc_ok c'
      else acc_push c' p off = Inl Dangling)"
proof -
  obtain c' where c': "dropTail c (seek (chain c) q) = Inr c'" "acc_content c' = take q (acc_content c)"
    "if q = 0 \<or> it_buf (seek (chain c) (q - 1)) = last_ptr c then acc_ok c'
      else chain c' \<noteq> [] \<and> last_ptr c' = last_ptr c \<and> last_ptr c \<notin> Some ` addr ` set (chain c')"
    using dropTail_content [OF assms(1-3)] by blast
  obtain a where "last_ptr c = Some a" using assms(1,2) by (auto simp: acc_ok_def)
  moreover have "a \<notin> addr ` set (chain c')" if "last_ptr c \<notin> Some ` addr ` set (chain c')" "last_ptr c = Some a"
    using that by blast
  ultimately show ?thesis using c' acc_push_dangling [OF _ _ _ assms(4), of c' a] by auto
qed

theorem dropTail_last_witness:
  "\<exists>c'. dropTail sample_chain \<lparr>it_buf = Some 0, it_pos = 2\<rparr> = Inr c' \<and> acc_content c' = ''a'' \<and>
     acc_push c' \<lparr>p_data = ''z'', p_size = 1\<rparr> 0 = Inl Dangling"
proof -
  have "seek (chain sample_chain) 1 = \<lparr>it_buf = Some 0, it_pos = 2\<rparr>"
    "it_buf (seek (chain sample_chain) 0) \<noteq> last_ptr sample_chain"
    by (simp_all add: sample_chain_def b_size_def)
  then show ?thesis
    using dropTail_last [OF sample_chain_ok(1,2), of 1 "\<lparr>p_data = ''z'', p_size = 1\<rparr>" 0]
    by (simp add: sample_chain_ok(3) packet_ok_def)
qed

end
