(* ===== verification/HttpExtract.thy ===== *)
theory HttpExtract
  imports HttpBuffer
begin

text \<open>
  The body extractors of an HTTP input message (http/impl/bodyExtractor*.cpp): they take the
  bytes received after the headers from a stream accumulator and push the body into one
  content decoder and what follows it into another.  A content decoder is a record of its two
  virtual operations; the class hierarchy of extractors is the datatype \<open>body_kind\<close> with
  the members of each class.  Boost.Spirit's hexadecimal number parser and generator
  are a parameter; the grammars the code builds from parsers are written out.
\<close>

subsection \<open>Content decoders\<close>

record 's decoder =
  d_push :: "'s \<Rightarrow> packet \<Rightarrow> nat \<Rightarrow> (ecode \<times> 's) hresult"
  d_flush :: "'s \<Rightarrow> (ecode \<times> 's) hresult"

text \<open>\<open>ContentDecoder\<close> itself, whose operations must be overridden, and the accumulator.\<close>

definition base_decoder :: "'s decoder" where
  "base_decoder = \<lparr>d_push = (\<lambda>s p off. Inl AssertFailed), d_flush = (\<lambda>s. Inl AssertFailed)\<rparr>"

definition acc_decoder :: "accumuler decoder" where
  "acc_decoder = \<lparr>d_push = acc_push, d_flush = acc_flush\<rparr>"

subsection \<open>Extractors\<close>

datatype estate = EsCaption | EsBody | EsTrailerHeader | EsDone | EsError

datatype body_kind = SizedBody nat | ChunkedBody estate nat | UntilClose

record ('b, 't) extractor =
  kind :: body_kind
  strm :: accumuler
  bodyd :: 'b
  taild :: 't

record spirit =
  hex_uint :: "string \<Rightarrow> (nat \<times> string) option"
  hex_gen :: "nat \<Rightarrow> string"

text \<open>An error code ends a function early, as \<open>if((ec = ...)) return ec;\<close>.\<close>

definition if_ok :: "(ecode \<times> 's) hresult \<Rightarrow> (ecode \<Rightarrow> 's \<Rightarrow> 'r hresult) \<Rightarrow> ('s \<Rightarrow> 'r hresult) \<Rightarrow> 'r hresult" where
  "if_ok r bad good = hbind r (\<lambda>(ec, s). if ec = NoError then good s else bad ec s)"

lemma if_ok_simps [simp]:
  "if_ok (Inl f) bad good = Inl f" "if_ok (Inr (NoError, s)) bad good = good s"
  "ec \<noteq> NoError \<Longrightarrow> if_ok (Inr (ec, s)) bad good = bad ec s"
  by (simp_all add: if_ok_def)

definition drop_front :: "accumuler \<Rightarrow> nat \<Rightarrow> accumuler hresult" where
  "drop_front c n = hbind (advance c (acc_begin c) (int n)) (dropFront c)"

definition processBody :: "'b decoder \<Rightarrow> ('b, 't) extractor \<Rightarrow> nat \<Rightarrow> (ecode \<times> ('b, 't) extractor \<times> nat) hresult" where
  "processBody DB e n =
     (if acc_size (strm e) = 0 then Inl AssertFailed
      else (case firstBuffer (strm e) of None \<Rightarrow> Inl NullDeref
        | Some buf \<Rightarrow> (case asPacket buf of (packet, offset) \<Rightarrow>
            let sz = p_size packet - offset in
            if sz \<le> n
            then if_ok (d_push DB (bodyd e) packet offset) (\<lambda>ec b. Inr (ec, e\<lparr>bodyd := b\<rparr>, n))
              (\<lambda>b. hbind (drop_front (strm e) sz)
                 (\<lambda>s. Inr (NoError, e\<lparr>bodyd := b, strm := s\<rparr>, n - sz)))
            else (let p2 = packet\<lparr>p_size := p_size packet - (sz - n)\<rparr> in
              if p_size p2 \<le> offset then Inl AssertFailed
              else if_ok (d_push DB (bodyd e) p2 offset) (\<lambda>ec b. Inr (ec, e\<lparr>bodyd := b\<rparr>, n))
                (\<lambda>b. hbind (drop_front (strm e) n)
                   (\<lambda>s. Inr (NoError, e\<lparr>bodyd := b, strm := s\<rparr>, 0)))))))"

definition processTail :: "'t decoder \<Rightarrow> ('b, 't) extractor \<Rightarrow> (ecode \<times> ('b, 't) extractor) hresult" where
  "processTail DT e =
     (case firstBuffer (strm e) of None \<Rightarrow> Inl NullDeref
        | Some buf \<Rightarrow> (case asPacket buf of (packet, offset) \<Rightarrow>
            if_ok (d_push DT (taild e) packet offset) (\<lambda>ec t. Inr (ec, e\<lparr>taild := t\<rparr>))
              (\<lambda>t. hbind (drop_front (strm e) (p_size packet - offset))
                 (\<lambda>s. Inr (NoError, e\<lparr>taild := t, strm := s\<rparr>)))))"

subsection \<open>The chunked body\<close>

definition crlf :: string where
  "crlf = [CHR 0x0D, CHR 0x0A]"

definition after_crlf :: "string \<Rightarrow> string option" where
  "after_crlf s = (if take 2 s = crlf then Some (drop 2 s) else None)"

text \<open>The grammar of a chunk's first line: whether the error action ran, the value of the size
  action if it ran, and the rest of the input where the whole parser matched.\<close>

definition caption_parse :: "spirit \<Rightarrow> string \<Rightarrow> bool \<times> nat option \<times> string option" where
  "caption_parse H s =
     (let s1 = (case after_crlf s of Some r \<Rightarrow> r | None \<Rightarrow> s) in
      case hex_uint H s1 of
        Some (n, s2) \<Rightarrow> (False, Some n, after_crlf (dropWhile (\<lambda>c. c \<noteq> CHR 0x0D) s2))
      | None \<Rightarrow> if s1 = [] then (False, None, after_crlf []) else (True, None, None))"

definition trailer_parse :: "string \<Rightarrow> bool \<times> string option" where
  "trailer_parse s = (takeWhile (\<lambda>c. c \<noteq> CHR 0x0D) s \<noteq> [],
     after_crlf (dropWhile (\<lambda>c. c \<noteq> CHR 0x0D) s))"

text \<open>The parsers walk an iterator from \<open>data.begin()\<close>; the input they see is the content of the
  accumulator, and after a match the iterator stands before the rest.\<close>

fun walk :: "accumuler \<Rightarrow> nat \<Rightarrow> iter \<Rightarrow> iter hresult" where
  "walk c 0 i = Inr i"
| "walk c (Suc n) i = hbind (increment c i) (walk c n)"

definition drop_parsed :: "accumuler \<Rightarrow> string \<Rightarrow> accumuler hresult" where
  "drop_parsed c rest =
     hbind (walk c (length (acc_content c) - length rest) (acc_begin c)) (dropFront c)"

definition processCaption :: "spirit \<Rightarrow> nat \<Rightarrow> ('b, 't) extractor \<Rightarrow> (ecode \<times> ('b, 't) extractor) hresult" where
  "processCaption H n e = hbind (acc_end (strm e)) (\<lambda>_.
     case caption_parse H (acc_content (strm e)) of (err, sz, res) \<Rightarrow>
       let m = (case sz of Some k \<Rightarrow> k | None \<Rightarrow> n) in
       case res of
         None \<Rightarrow> if err \<or> acc_size (strm e) > 1024
                 then Inr (BadMessage, e\<lparr>kind := ChunkedBody EsError m\<rparr>)
                 else Inr (NeedMoreData, e\<lparr>kind := ChunkedBody EsCaption m\<rparr>)
       | Some rest \<Rightarrow> hbind (drop_parsed (strm e) rest)
           (\<lambda>s. Inr (NoError, e\<lparr>strm := s,
              kind := ChunkedBody (if m = 0 then EsTrailerHeader else EsBody) m\<rparr>)))"

definition processTrailerHeader :: "nat \<Rightarrow> ('b, 't) extractor \<Rightarrow> (ecode \<times> ('b, 't) extractor) hresult" where
  "processTrailerHeader n e = hbind (acc_end (strm e)) (\<lambda>_.
     case trailer_parse (acc_content (strm e)) of (present, res) \<Rightarrow>
       case res of
         None \<Rightarrow> if acc_size (strm e) > 1024
                 then Inr (BadMessage, e\<lparr>kind := ChunkedBody EsError n\<rparr>)
                 else Inr (NeedMoreData, e)
       | Some rest \<Rightarrow> hbind (drop_parsed (strm e) rest)
           (\<lambda>s. Inr (NoError, e\<lparr>strm := s,
              kind := ChunkedBody (if present then EsTrailerHeader else EsDone) n\<rparr>)))"

subsection \<open>The virtual operations\<close>

definition isDone :: "body_kind \<Rightarrow> bool" where
  "isDone k = (case k of SizedBody n \<Rightarrow> n = 0 | ChunkedBody es n \<Rightarrow> es = EsDone | UntilClose \<Rightarrow> False)"

definition process_sized :: "'b decoder \<Rightarrow> 't decoder \<Rightarrow> nat \<Rightarrow> ('b, 't) extractor \<Rightarrow> (ecode \<times> ('b, 't) extractor) hresult" where
  "process_sized DB DT n e =
     (if n \<noteq> 0 then hbind (processBody DB e n) (\<lambda>(ec, e', m). Inr (ec, e'\<lparr>kind := SizedBody m\<rparr>))
      else processTail DT e)"

definition process_until_close :: "'b decoder \<Rightarrow> ('b, 't) extractor \<Rightarrow> (ecode \<times> ('b, 't) extractor) hresult" where
  "process_until_close DB e = hbind (processBody DB e (2 ^ 64 - 1)) (\<lambda>(ec, e', m). Inr (ec, e'))"

definition process_chunked ::
  "spirit \<Rightarrow> 'b decoder \<Rightarrow> 't decoder \<Rightarrow> estate \<Rightarrow> nat \<Rightarrow> ('b, 't) extractor \<Rightarrow> (ecode \<times> ('b, 't) extractor) hresult" where
  "process_chunked H DB DT es n e = (case es of
       EsCaption \<Rightarrow> processCaption H n e
     | EsBody \<Rightarrow> hbind (processBody DB e n) (\<lambda>(ec, e', m). Inr (ec,
          e'\<lparr>kind := ChunkedBody (if ec = NoError \<and> m = 0 then EsCaption else EsBody) m\<rparr>))
     | EsTrailerHeader \<Rightarrow> processTrailerHeader n e
     | EsDone \<Rightarrow> processTail DT e
     | EsError \<Rightarrow> Inr (UnexpectedError, e))"

definition process_one :: "spirit \<Rightarrow> 'b decoder \<Rightarrow> 't decoder \<Rightarrow> ('b, 't) extractor \<Rightarrow> (ecode \<times> ('b, 't) extractor) hresult" where
  "process_one H DB DT e = (case kind e of
       SizedBody n \<Rightarrow> process_sized DB DT n e
     | ChunkedBody es n \<Rightarrow> process_chunked H DB DT es n e
     | UntilClose \<Rightarrow> process_until_close DB e)"

text \<open>The loop over the stream; the code asserts that every round takes something off it.\<close>

function process_all :: "spirit \<Rightarrow> 'b decoder \<Rightarrow> 't decoder \<Rightarrow> ('b, 't) extractor \<Rightarrow> (ecode \<times> ('b, 't) extractor) hresult" where
  "process_all H DB DT e =
     (if acc_size (strm e) = 0 then Inr (NoError, e)
      else (case process_one H DB DT e of
         Inl f \<Rightarrow> Inl f
       | Inr (ec, e') \<Rightarrow>
           if ec = NeedMoreData then Inr (NoError, e')
           else if ec \<noteq> NoError then Inr (ec, e')
           else if acc_size (strm e') < acc_size (strm e) then process_all H DB DT e'
           else Inl AssertFailed))"
  by auto
termination by (relation "measure (\<lambda>(H, DB, DT, e). acc_size (strm e))") auto

declare process_all.simps [simp del]

subsection \<open>Reading\<close>

fun push_all :: "accumuler \<Rightarrow> (packet \<times> nat) list \<Rightarrow> (ecode \<times> accumuler) hresult" where
  "push_all c [] = Inr (NoError, c)"
| "push_all c ((p, off) # ps) =
     if_ok (acc_push c p off) (\<lambda>ec c'. Inr (ec, c')) (\<lambda>c'. push_all c' ps)"

text \<open>\<open>read(from, begin)\<close>, where \<open>from\<close> is the tail decoder, as it always is in the program.\<close>

definition rest_packets :: "iter \<Rightarrow> buffer \<Rightarrow> buffer list \<Rightarrow> (packet \<times> nat) list" where
  "rest_packets i b bs = (if it_pos i = b_end b then [] else [(fst (asPacket b), it_pos i)]) @ map asPacket bs"

definition read_from :: "spirit \<Rightarrow> 'b decoder \<Rightarrow> iter \<Rightarrow> ('b, accumuler) extractor \<Rightarrow> (ecode \<times> ('b, accumuler) extractor) hresult" where
  "read_from H DB i e = hbind (locate (taild e) i) (\<lambda>(_, b, bs).
     if_ok (push_all (strm e) (rest_packets i b bs)) (\<lambda>ec s. Inr (ec, e\<lparr>strm := s\<rparr>))
       (\<lambda>s. hbind (dropTail (taild e) i)
          (\<lambda>t. process_all H DB acc_decoder (e\<lparr>strm := s, taild := t\<rparr>))))"

definition ext_flush :: "'b decoder \<Rightarrow> 't decoder \<Rightarrow> ('b, 't) extractor \<Rightarrow> (ecode \<times> ('b, 't) extractor) hresult" where
  "ext_flush DB DT e = if_ok (d_flush DB (bodyd e)) (\<lambda>ec b. Inr (ec, e\<lparr>bodyd := b\<rparr>))
     (\<lambda>b. if_ok (d_flush DT (taild e)) (\<lambda>ec t. Inr (ec, e\<lparr>bodyd := b, taild := t\<rparr>))
       (\<lambda>t. Inr (NoError, e\<lparr>bodyd := b, taild := t\<rparr>)))"

text \<open>The channel is the packets it delivers and the error code of the receive after them; the
  packets not received are part of the result.\<close>

definition finish_read :: "'b decoder \<Rightarrow> 't decoder \<Rightarrow> packet list \<Rightarrow> ('b, 't) extractor \<Rightarrow> (ecode \<times> ('b, 't) extractor \<times> packet list) hresult" where
  "finish_read DB DT ps e = (if acc_size (strm e) \<noteq> 0 then Inl AssertFailed
     else hbind (ext_flush DB DT e) (\<lambda>(ec, e'). Inr (ec, e', ps)))"

fun read_base :: "spirit \<Rightarrow> 'b decoder \<Rightarrow> 't decoder \<Rightarrow> ecode \<Rightarrow> packet list \<Rightarrow> ('b, 't) extractor \<Rightarrow>
    (ecode \<times> ('b, 't) extractor \<times> packet list) hresult" where
  "read_base H DB DT fin [] e = (if isDone (kind e) then finish_read DB DT [] e else Inr (fin, e, []))"
| "read_base H DB DT fin (p # ps) e =
     (if isDone (kind e) then finish_read DB DT (p # ps) e
      else if_ok (acc_push (strm e) p 0) (\<lambda>ec s. Inr (ec, e\<lparr>strm := s\<rparr>, ps))
        (\<lambda>s. if_ok (process_all H DB DT (e\<lparr>strm := s\<rparr>)) (\<lambda>ec e'. Inr (ec, e', ps))
           (\<lambda>e'. read_base H DB DT fin ps e')))"

definition read_until_close :: "spirit \<Rightarrow> 'b decoder \<Rightarrow> 't decoder \<Rightarrow> ecode \<Rightarrow> packet list \<Rightarrow> ('b, 't) extractor \<Rightarrow>
    (ecode \<times> ('b, 't) extractor \<times> packet list) hresult" where
  "read_until_close H DB DT fin ps e = hbind (read_base H DB DT fin ps e) (\<lambda>(ec, e', rest).
     if ec = EndOfFile then hbind (ext_flush DB DT e') (\<lambda>(ec', e''). Inr (ec', e'', rest))
     else Inr (ec, e', rest))"

definition read_channel :: "spirit \<Rightarrow> 'b decoder \<Rightarrow> 't decoder \<Rightarrow> ecode \<Rightarrow> packet list \<Rightarrow> ('b, 't) extractor \<Rightarrow>
    (ecode \<times> ('b, 't) extractor \<times> packet list) hresult" where
  "read_channel H DB DT fin ps e =
     (if kind e = UntilClose then read_until_close H DB DT fin ps e else read_base H DB DT fin ps e)"


subsection \<open>What an extractor asks of a content decoder\<close>

text \<open>
  A sink keeps an invariant, accepts every packet and appends its bytes to the content it
  stands for, and a flush leaves the content.
\<close>

locale content_sink =
  fixes D :: "'s decoder"
    and inv :: "'s \<Rightarrow> bool"
    and content :: "'s \<Rightarrow> string"
  assumes push_sink: "inv s \<Longrightarrow> packet_ok p off \<Longrightarrow>
      \<exists>s'. d_push D s p off = Inr (NoError, s') \<and> inv s' \<and> content s' = content s @ payload_of p off"
    and flush_sink: "inv s \<Longrightarrow>
      \<exists>s'. d_flush D s = Inr (NoError, s') \<and> inv s' \<and> content s' = content s"

interpretation acc_sink: content_sink acc_decoder acc_ok acc_content
  by unfold_locales (auto simp: acc_decoder_def acc_flush_def dest: acc_push_ok)

text \<open>The first buffer of a stream that is not empty, and dropping a front part of it.\<close>

lemma acc_size_0_iff: "acc_ok c \<Longrightarrow> acc_size c = 0 \<longleftrightarrow> acc_content c = []"
  by (simp add: acc_size_content)

lemma first_bufferE:
  assumes "acc_ok c" "acc_content c \<noteq> []"
  obtains b where "firstBuffer c = Some b" "buf_ok b" "packet_ok (fst (asPacket b)) (snd (asPacket b))"
    "asPacket b = (\<lparr>p_data = arr b, p_size = b_end b\<rparr>, b_begin b)"
    "b_begin b < b_end b" "b_end b \<le> length (arr b)"
    "b_end b - b_begin b \<le> length (acc_content c)"
    "take (b_end b - b_begin b) (acc_content c) = buf_bytes b"
proof -
  obtain b bs where c: "chain c = b # bs" using assms by (cases "chain c") (auto simp: acc_content_def)
  then have b: "buf_ok b" using assms(1) by (simp add: acc_ok_def)
  show ?thesis
    by (rule that [of b]) (use c b length_buf_bytes [OF b] in
      \<open>simp_all add: firstBuffer_def packet_ok_def asPacket_def buf_ok_def acc_content_def b_size_def\<close>)
qed

lemma drop_front_ok:
  assumes "acc_ok c" "acc_content c \<noteq> []" "n \<le> length (acc_content c)"
  obtains c' where "drop_front c n = Inr c'" "acc_ok c'" "acc_content c' = drop n (acc_content c)"
  using drop_first_ok [OF assms] unfolding drop_front_def by blast

lemma walk_seek:
  "acc_ok c \<Longrightarrow> q + n \<le> length (acc_content c) \<Longrightarrow> walk c n (seek (chain c) q) = Inr (seek (chain c) (q + n))"
  by (induction n arbitrary: q) (simp_all add: increment_seek)

lemma drop_parsed_ok:
  assumes "acc_ok c" "acc_content c = used @ rest" "acc_content c \<noteq> []"
  obtains c' where "drop_parsed c rest = Inr c'" "acc_ok c'" "acc_content c' = rest"
proof -
  have ne: "chain c \<noteq> []" using assms(3) by (auto simp: acc_content_def)
  have len: "0 + (length (acc_content c) - length rest) \<le> length (acc_content c)" by simp
  obtain c' where "dropFront c (seek (chain c) (length (acc_content c) - length rest)) = Inr c'"
    "acc_ok c'" "acc_content c' = drop (length (acc_content c) - length rest) (acc_content c)"
    using dropFront_ok [OF assms(1) ne, of "length (acc_content c) - length rest"] by auto
  then show ?thesis
    using that walk_seek [OF assms(1) len] assms(2)
    by (simp add: drop_parsed_def acc_begin_seek [OF assms(1)])
qed

lemma acc_end_ok: "acc_ok c \<Longrightarrow> acc_content c \<noteq> [] \<Longrightarrow> \<exists>i. acc_end c = Inr i"
  using acc_end_seek [of c] by (cases "chain c") (auto simp: acc_content_def)

text \<open>Two sinks: one for the body, one for the tail.\<close>

locale extraction =
  b: content_sink DB invb contb + t: content_sink DT invt contt
  for DB :: "'b decoder" and invb contb and DT :: "'t decoder" and invt contt
begin

definition ext_ok :: "('b, 't) extractor \<Rightarrow> bool" where
  "ext_ok e \<longleftrightarrow> acc_ok (strm e) \<and> invb (bodyd e) \<and> invt (taild e)"

lemma processBody_ok:
  assumes "ext_ok e" "acc_content (strm e) \<noteq> []" "0 < n"
  obtains e' k where "processBody DB e n = Inr (NoError, e', n - k)" "ext_ok e'" "0 < k" "k \<le> n"
    "k \<le> length (acc_content (strm e))" "acc_content (strm e') = drop k (acc_content (strm e))"
    "contb (bodyd e') = contb (bodyd e) @ take k (acc_content (strm e))"
    "contt (taild e') = contt (taild e)" "kind e' = kind e"
proof -
  let ?s = "acc_content (strm e)"
  have ok: "acc_ok (strm e)" using assms(1) by (simp add: ext_ok_def)
  obtain b where b: "firstBuffer (strm e) = Some b" "packet_ok (fst (asPacket b)) (snd (asPacket b))"
    "asPacket b = (\<lparr>p_data = arr b, p_size = b_end b\<rparr>, b_begin b)"
    "b_begin b < b_end b" "b_end b \<le> length (arr b)" "b_end b - b_begin b \<le> length ?s"
    "take (b_end b - b_begin b) ?s = buf_bytes b"
    using first_bufferE [OF ok assms(2)] by metis
  have size: "acc_size (strm e) \<noteq> 0" using acc_size_0_iff [OF ok] assms(2) by simp
  define k where "k = min n (b_end b - b_begin b)"
  define p where "p = \<lparr>p_data = arr b, p_size = b_begin b + k\<rparr>"
  have k: "0 < k" "k \<le> n" "k \<le> length ?s" "k \<le> b_end b - b_begin b"
    using b(4,6) assms(3) by (auto simp: k_def)
  have "packet_ok p (b_begin b)" using b(4,5) k by (simp add: packet_ok_def p_def)
  then obtain s' where s': "d_push DB (bodyd e) p (b_begin b) = Inr (NoError, s')" "invb s'"
    "contb s' = contb (bodyd e) @ payload_of p (b_begin b)"
    using b.push_sink assms(1) by (fastforce simp: ext_ok_def)
  obtain c' where c': "drop_front (strm e) k = Inr c'" "acc_ok c'" "acc_content c' = drop k ?s"
    using drop_front_ok [OF ok assms(2) k(3)] .
  have "take k ?s = take k (buf_bytes b)" using k(4) by (simp add: b(7) [symmetric] min_absorb1)
  also have "\<dots> = payload_of p (b_begin b)"
    using k(4) b(4) by (simp add: payload_of_def p_def buf_bytes_def take_drop min_def add.commute)
  finally have pay: "payload_of p (b_begin b) = take k ?s" by simp
  have "processBody DB e n = Inr (NoError, e\<lparr>bodyd := s', strm := c'\<rparr>, n - k)"
  proof (cases "b_end b - b_begin b \<le> n")
    case True
    then have "k = b_end b - b_begin b" by (simp add: k_def)
    then show ?thesis using True b(4) s'(1) c'(1) size
      by (simp add: processBody_def b(1) b(3) p_def)
  next
    case False
    then have kn: "k = n" by (simp add: k_def)
    have "b_end b - (b_end b - b_begin b - n) = b_begin b + n" using False by simp
    then show ?thesis using False s'(1) c'(1) size assms(3) unfolding kn p_def
      by (simp add: processBody_def b(1) b(3) Let_def)
  qed
  then show ?thesis
    by (rule that [of "e\<lparr>bodyd := s', strm := c'\<rparr>" k])
       (use assms(1) s' c' k pay in \<open>simp_all add: ext_ok_def\<close>)
qed

lemma processTail_ok:
  assumes "ext_ok e" "acc_content (strm e) \<noteq> []"
  obtains e' k where "processTail DT e = Inr (NoError, e')" "ext_ok e'" "0 < k"
    "k \<le> length (acc_content (strm e))" "acc_content (strm e') = drop k (acc_content (strm e))"
    "contt (taild e') = contt (taild e) @ take k (acc_content (strm e))"
    "contb (bodyd e') = contb (bodyd e)" "kind e' = kind e"
proof -
  let ?s = "acc_content (strm e)"
  have ok: "acc_ok (strm e)" using assms(1) by (simp add: ext_ok_def)
  obtain b where b: "firstBuffer (strm e) = Some b" "packet_ok (fst (asPacket b)) (snd (asPacket b))"
    "asPacket b = (\<lparr>p_data = arr b, p_size = b_end b\<rparr>, b_begin b)"
    "b_begin b < b_end b" "b_end b - b_begin b \<le> length ?s"
    "take (b_end b - b_begin b) ?s = buf_bytes b"
    using first_bufferE [OF ok assms(2)] by metis
  obtain s' where s': "d_push DT (taild e) (fst (asPacket b)) (snd (asPacket b)) = Inr (NoError, s')" "invt s'"
    "contt s' = contt (taild e) @ payload_of (fst (asPacket b)) (snd (asPacket b))"
    using t.push_sink [OF _ b(2)] assms(1) by (fastforce simp: ext_ok_def)
  obtain c' where c': "drop_front (strm e) (b_end b - b_begin b) = Inr c'" "acc_ok c'"
    "acc_content c' = drop (b_end b - b_begin b) ?s"
    using drop_front_ok [OF ok assms(2) b(5)] .
  have "payload_of (fst (asPacket b)) (snd (asPacket b)) = take (b_end b - b_begin b) ?s"
    by (simp add: b(6) b(3) payload_of_def buf_bytes_def)
  moreover have "processTail DT e = Inr (NoError, e\<lparr>taild := s', strm := c'\<rparr>)"
    using s'(1) c'(1) by (simp add: processTail_def b(1) b(3))
  ultimately show ?thesis
    by (intro that [of "e\<lparr>taild := s', strm := c'\<rparr>" "b_end b - b_begin b"])
       (use assms(1) s' c' b in \<open>simp_all add: ext_ok_def\<close>)
qed

lemma ext_flush_ok:
  assumes "ext_ok e"
  obtains e' where "ext_flush DB DT e = Inr (NoError, e')" "ext_ok e'" "strm e' = strm e"
    "contb (bodyd e') = contb (bodyd e)" "contt (taild e') = contt (taild e)" "kind e' = kind e"
proof -
  obtain b' where "d_flush DB (bodyd e) = Inr (NoError, b')" "invb b'" "contb b' = contb (bodyd e)"
    using b.flush_sink assms by (fastforce simp: ext_ok_def)
  moreover obtain t' where "d_flush DT (taild e) = Inr (NoError, t')" "invt t'" "contt t' = contt (taild e)"
    using t.flush_sink assms by (fastforce simp: ext_ok_def)
  ultimately show ?thesis
    by (intro that [of "e\<lparr>bodyd := b', taild := t'\<rparr>"]) (use assms in \<open>simp_all add: ext_ok_def ext_flush_def\<close>)
qed

lemma process_all_step:
  assumes "ext_ok e" "acc_content (strm e) \<noteq> []" "process_one H DB DT e = Inr (NoError, e')"
    "ext_ok e'" "acc_content (strm e') = drop k (acc_content (strm e))" "0 < k"
  shows "process_all H DB DT e = process_all H DB DT e'"
proof -
  have "acc_size (strm e) \<noteq> 0" "acc_size (strm e') < acc_size (strm e)"
    using assms by (auto simp: ext_ok_def acc_size_content)
  then show ?thesis using assms(3) by (subst process_all.simps) simp
qed

lemma process_all_empty:
  "ext_ok e \<Longrightarrow> acc_content (strm e) = [] \<Longrightarrow> process_all H DB DT e = Inr (NoError, e)"
  by (subst process_all.simps) (simp add: ext_ok_def acc_size_content)

lemma process_all_sized:
  assumes "ext_ok e" "kind e = SizedBody n"
  obtains e' where "process_all H DB DT e = Inr (NoError, e')" "ext_ok e'" "acc_content (strm e') = []"
    "kind e' = SizedBody (n - length (acc_content (strm e)))"
    "contb (bodyd e') = contb (bodyd e) @ take n (acc_content (strm e))"
    "contt (taild e') = contt (taild e) @ drop n (acc_content (strm e))"
  using assms
proof (induction "length (acc_content (strm e))" arbitrary: e n thesis rule: less_induct)
  case less
  let ?s = "acc_content (strm e)"
  show ?case
  proof (cases "?s = []")
    case True
    show ?thesis by (rule less.prems(1)) (use less.prems True process_all_empty in auto)
  next
    case False
    show ?thesis
    proof (cases "n = 0")
      case True
      obtain e1 k where e1: "processTail DT e = Inr (NoError, e1)" "ext_ok e1" "0 < k" "k \<le> length ?s"
        "acc_content (strm e1) = drop k ?s" "contt (taild e1) = contt (taild e) @ take k ?s"
        "contb (bodyd e1) = contb (bodyd e)" "kind e1 = kind e"
        using processTail_ok [OF less.prems(2) False] .
      have "process_one H DB DT e = Inr (NoError, e1)"
        using e1(1) less.prems(3) True by (simp add: process_one_def process_sized_def)
      from process_all_step [OF less.prems(2) False this e1(2,5,3)]
      have step: "process_all H DB DT e = process_all H DB DT e1" .
      have "length (acc_content (strm e1)) < length ?s" using e1(3-5) by simp
      from less.hyps [OF this _ e1(2)] obtain e' where e': "process_all H DB DT e1 = Inr (NoError, e')"
        "ext_ok e'" "acc_content (strm e') = []" "kind e' = SizedBody 0" "contb (bodyd e') = contb (bodyd e1)"
        "contt (taild e') = contt (taild e1) @ acc_content (strm e1)"
        using e1(8) less.prems(3) True by (metis diff_0_eq_0 drop0 append_Nil2 take0)
      show ?thesis
        by (rule less.prems(1) [of e']) (use step e' e1 True in \<open>simp_all\<close>)
    next
      case n: False
      then have "0 < n" by simp
      from processBody_ok [OF less.prems(2) False this]
      obtain e0 k where e0: "processBody DB e n = Inr (NoError, e0, n - k)" "ext_ok e0" "0 < k" "k \<le> n"
        "k \<le> length ?s" "acc_content (strm e0) = drop k ?s"
        "contb (bodyd e0) = contb (bodyd e) @ take k ?s" "contt (taild e0) = contt (taild e)"
        by metis
      define e1 where "e1 = e0\<lparr>kind := SizedBody (n - k)\<rparr>"
      have e1: "ext_ok e1" "acc_content (strm e1) = drop k ?s" using e0 by (simp_all add: e1_def ext_ok_def)
      have "process_one H DB DT e = Inr (NoError, e1)"
        using e0(1) less.prems(3) n by (simp add: process_one_def process_sized_def e1_def)
      from process_all_step [OF less.prems(2) False this e1 e0(3)]
      have step: "process_all H DB DT e = process_all H DB DT e1" .
      have "length (acc_content (strm e1)) < length ?s" using e1(2) e0(3,5) by simp
      from less.hyps [OF this _ e1(1), of "n - k"] obtain e' where e': "process_all H DB DT e1 = Inr (NoError, e')"
        "ext_ok e'" "acc_content (strm e') = []" "kind e' = SizedBody (n - k - length (acc_content (strm e1)))"
        "contb (bodyd e') = contb (bodyd e1) @ take (n - k) (acc_content (strm e1))"
        "contt (taild e') = contt (taild e1) @ drop (n - k) (acc_content (strm e1))"
        by (auto simp: e1_def)
      have "take k ?s @ take (n - k) (drop k ?s) = take n ?s" "drop (n - k) (drop k ?s) = drop n ?s"
        using e0(4) by (simp_all flip: take_add)
      then show ?thesis
        by (intro less.prems(1) [of e'])
           (use step e' e1 e0 in \<open>simp_all add: e1_def\<close>)
    qed
  qed
qed

lemma process_all_until_close:
  assumes "ext_ok e" "kind e = UntilClose"
  obtains e' where "process_all H DB DT e = Inr (NoError, e')" "ext_ok e'" "acc_content (strm e') = []"
    "kind e' = UntilClose" "contb (bodyd e') = contb (bodyd e) @ acc_content (strm e)"
    "contt (taild e') = contt (taild e)"
  using assms
proof (induction "length (acc_content (strm e))" arbitrary: e thesis rule: less_induct)
  case less
  let ?s = "acc_content (strm e)"
  show ?case
  proof (cases "?s = []")
    case True
    show ?thesis by (rule less.prems(1)) (use less.prems True process_all_empty in auto)
  next
    case False
    have "0 < (2::nat) ^ 64 - 1" by simp
    from processBody_ok [OF less.prems(2) False this]
    obtain e1 k where e1: "processBody DB e (2 ^ 64 - 1) = Inr (NoError, e1, 2 ^ 64 - 1 - k)" "ext_ok e1" "0 < k"
      "k \<le> length ?s" "acc_content (strm e1) = drop k ?s"
      "contb (bodyd e1) = contb (bodyd e) @ take k ?s" "contt (taild e1) = contt (taild e)" "kind e1 = kind e"
      by metis
    have "process_one H DB DT e = Inr (NoError, e1)"
      using e1(1) less.prems(3) by (simp add: process_one_def process_until_close_def)
    from process_all_step [OF less.prems(2) False this e1(2,5,3)]
    have step: "process_all H DB DT e = process_all H DB DT e1" .
    have "length (acc_content (strm e1)) < length ?s" using e1(3-5) by simp
    from less.hyps [OF this _ e1(2)] obtain e' where e': "process_all H DB DT e1 = Inr (NoError, e')"
      "ext_ok e'" "acc_content (strm e') = []" "kind e' = UntilClose" "contt (taild e') = contt (taild e1)"
      "contb (bodyd e') = contb (bodyd e1) @ acc_content (strm e1)"
      using e1(8) less.prems(3) by metis
    show ?thesis
      by (rule less.prems(1) [of e']) (use step e' e1 in \<open>simp_all\<close>)
  qed
qed

lemma push_then:
  assumes "ext_ok e" "acc_content (strm e) = []" "packet_ok p 0"
  obtains s where "acc_push (strm e) p 0 = Inr (NoError, s)" "ext_ok (e\<lparr>strm := s\<rparr>)"
    "acc_content s = payload_of p 0"
  using acc_push_ok [OF _ assms(3), of "strm e"] assms(1,2) by (fastforce simp: ext_ok_def)

text \<open>The sized body takes \<open>n\<close> bytes and receives no packet more than it needs.\<close>

lemma read_sized:
  assumes "ext_ok e" "acc_content (strm e) = []" "kind e = SizedBody n"
    "\<And>p. p \<in> set ps \<Longrightarrow> packet_ok p 0"
  shows "if n \<le> length (concat (map (\<lambda>p. payload_of p 0) ps))
    then \<exists>used rest e'. ps = used @ rest \<and> read_base H DB DT fin ps e = Inr (NoError, e', rest) \<and> ext_ok e' \<and>
      contb (bodyd e') = contb (bodyd e) @ take n (concat (map (\<lambda>p. payload_of p 0) ps)) \<and>
      contt (taild e') = contt (taild e) @ drop n (concat (map (\<lambda>p. payload_of p 0) used)) \<and>
      n \<le> length (concat (map (\<lambda>p. payload_of p 0) used)) \<and>
      (used \<noteq> [] \<longrightarrow> length (concat (map (\<lambda>p. payload_of p 0) (butlast used))) < n)
    else \<exists>e'. read_base H DB DT fin ps e = Inr (fin, e', []) \<and>
      contb (bodyd e') = contb (bodyd e) @ concat (map (\<lambda>p. payload_of p 0) ps) \<and>
      contt (taild e') = contt (taild e)"
  using assms
proof (induction ps arbitrary: e n)
  case Nil
  then obtain e' where e': "ext_flush DB DT e = Inr (NoError, e')" "contb (bodyd e') = contb (bodyd e)"
    "contt (taild e') = contt (taild e)" "ext_ok e'"
    using ext_flush_ok by metis
  show ?case
    using Nil.prems e' by (auto simp: isDone_def finish_read_def ext_ok_def acc_size_content)
next
  case (Cons p ps)
  show ?case
  proof (cases "n = 0")
    case True
    then obtain e' where e': "ext_flush DB DT e = Inr (NoError, e')" "contb (bodyd e') = contb (bodyd e)"
      "contt (taild e') = contt (taild e)" "ext_ok e'"
      using ext_flush_ok Cons.prems(1) by metis
    have "read_base H DB DT fin (p # ps) e = Inr (NoError, e', p # ps)"
      using Cons.prems e' True by (simp add: isDone_def finish_read_def ext_ok_def acc_size_content)
    then show ?thesis using True e'(2-4) by (fastforce intro!: exI [of _ "[]"] simp: Cons.prems)
  next
    case False
    obtain s where s: "acc_push (strm e) p 0 = Inr (NoError, s)" "ext_ok (e\<lparr>strm := s\<rparr>)"
      "acc_content s = payload_of p 0"
      using push_then [OF Cons.prems(1,2)] Cons.prems(4) by (metis list.set_intros(1))
    let ?b = "payload_of p 0"
    have k: "kind (e\<lparr>strm := s\<rparr>) = SizedBody n" using Cons.prems(3) by simp
    from process_all_sized [OF s(2) k, of H] obtain e1 where e1:
      "process_all H DB DT (e\<lparr>strm := s\<rparr>) = Inr (NoError, e1)" "ext_ok e1" "acc_content (strm e1) = []"
      "kind e1 = SizedBody (n - length ?b)" "contb (bodyd e1) = contb (bodyd e) @ take n ?b"
      "contt (taild e1) = contt (taild e) @ drop n ?b"
      using s(3) by auto
    have step: "read_base H DB DT fin (p # ps) e = read_base H DB DT fin ps e1"
      using Cons.prems(3) False s(1) e1(1) by (simp add: isDone_def)
    let ?B = "\<lambda>qs. concat (map (\<lambda>p. payload_of p 0) qs)"
    have IH: "if n - length ?b \<le> length (?B ps)
      then \<exists>used rest e'. ps = used @ rest \<and> read_base H DB DT fin ps e1 = Inr (NoError, e', rest) \<and> ext_ok e' \<and>
        contb (bodyd e') = contb (bodyd e1) @ take (n - length ?b) (?B ps) \<and>
        contt (taild e') = contt (taild e1) @ drop (n - length ?b) (?B used) \<and>
        n - length ?b \<le> length (?B used) \<and>
        (used \<noteq> [] \<longrightarrow> length (?B (butlast used)) < n - length ?b)
      else \<exists>e'. read_base H DB DT fin ps e1 = Inr (fin, e', []) \<and>
        contb (bodyd e') = contb (bodyd e1) @ ?B ps \<and> contt (taild e') = contt (taild e1)"
      by (rule Cons.IH [OF e1(2-4)]) (simp add: Cons.prems(4))
    show ?thesis
    proof (cases "n - length ?b \<le> length (?B ps)")
      case True
      obtain used rest e' where u: "ps = used @ rest" "read_base H DB DT fin ps e1 = Inr (NoError, e', rest)" "ext_ok e'"
        "contb (bodyd e') = contb (bodyd e1) @ take (n - length ?b) (?B ps)"
        "contt (taild e') = contt (taild e1) @ drop (n - length ?b) (?B used)"
        "used \<noteq> [] \<longrightarrow> length (?B (butlast used)) < n - length ?b" "n - length ?b \<le> length (?B used)"
        using IH [unfolded if_P [OF True]] by blast
      have "p # ps = (p # used) @ rest" "contb (bodyd e') = contb (bodyd e) @ take n (?B (p # ps))"
        "contt (taild e') = contt (taild e) @ drop n (?B (p # used))"
        "length (?B (butlast (p # used))) < n"
        using u(1,4,5,6) e1(5,6) False by (auto split: if_splits)
      moreover have "n \<le> length (?B (p # ps))" "n \<le> length (?B (p # used))" using True u(7) by simp_all
      ultimately show ?thesis using step u(2,3) by auto
    next
      case F: False
      with IH e1(5,6) step show ?thesis by auto
    qed
  qed
qed

lemma read_close:
  assumes "ext_ok e" "acc_content (strm e) = []" "kind e = UntilClose"
    "\<And>p. p \<in> set ps \<Longrightarrow> packet_ok p 0"
  shows "\<exists>e'. read_base H DB DT fin ps e = Inr (fin, e', []) \<and> ext_ok e' \<and>
      contb (bodyd e') = contb (bodyd e) @ concat (map (\<lambda>p. payload_of p 0) ps) \<and>
      contt (taild e') = contt (taild e)"
  using assms
proof (induction ps arbitrary: e)
  case (Cons p ps)
  obtain s where s: "acc_push (strm e) p 0 = Inr (NoError, s)" "ext_ok (e\<lparr>strm := s\<rparr>)"
    "acc_content s = payload_of p 0"
    using push_then [OF Cons.prems(1,2)] Cons.prems(4) by (metis list.set_intros(1))
  have "kind (e\<lparr>strm := s\<rparr>) = UntilClose" using Cons.prems(3) by simp
  from process_all_until_close [OF s(2) this, of H] obtain e1 where e1:
    "process_all H DB DT (e\<lparr>strm := s\<rparr>) = Inr (NoError, e1)" "ext_ok e1" "acc_content (strm e1) = []"
    "kind e1 = UntilClose" "contb (bodyd e1) = contb (bodyd e) @ payload_of p 0"
    "contt (taild e1) = contt (taild e)"
    using s(3) by auto
  have "read_base H DB DT fin (p # ps) e = read_base H DB DT fin ps e1"
    using Cons.prems(3) s(1) e1(1) by (simp add: isDone_def)
  moreover obtain e' where "read_base H DB DT fin ps e1 = Inr (fin, e', [])" "ext_ok e'"
    "contb (bodyd e') = contb (bodyd e1) @ concat (map (\<lambda>p. payload_of p 0) ps)"
    "contt (taild e') = contt (taild e1)"
    using Cons.IH [OF e1(2-4)] Cons.prems(4) by auto
  ultimately show ?case using e1(5,6) by auto
qed (auto simp: isDone_def)

end

interpretation msg: extraction acc_decoder acc_ok acc_content acc_decoder acc_ok acc_content
  by unfold_locales

subsection \<open>Properties\<close>

text \<open>
  The extractor the message reader makes: an empty stream, an empty body accumulator and the
  message's accumulator as the tail.
\<close>

definition fresh_extractor :: "body_kind \<Rightarrow> accumuler \<Rightarrow> (accumuler, accumuler) extractor" where
  "fresh_extractor k old = \<lparr>kind = k, strm = empty_acc, bodyd = empty_acc, taild = old\<rparr>"

definition all_bytes :: "packet list \<Rightarrow> string" where
  "all_bytes ps = concat (map (\<lambda>p. payload_of p 0) ps)"

lemma fresh_extractor_ok [simp]:
  "acc_ok old \<Longrightarrow> msg.ext_ok (fresh_extractor k old)" "acc_content (strm (fresh_extractor k old)) = []"
  "kind (fresh_extractor k old) = k" "acc_content (bodyd (fresh_extractor k old)) = []"
  "taild (fresh_extractor k old) = old"
  by (simp_all add: msg.ext_ok_def fresh_extractor_def acc_ok_empty acc_content_empty)

text \<open>
  C23: however the network cuts the bytes into packets, a body of known length is exactly the
  first \<open>n\<close> bytes, the bytes behind it in the packets received go back to the message, and no
  packet is received that is not needed; where the channel ends before, its error is
  returned.
\<close>

theorem sized_body:
  assumes "acc_ok old" "\<forall>p\<in>set ps. packet_ok p 0"
  shows "if n \<le> length (all_bytes ps)
    then \<exists>used rest e. ps = used @ rest \<and>
      read_channel H acc_decoder acc_decoder fin ps (fresh_extractor (SizedBody n) old) = Inr (NoError, e, rest) \<and>
      acc_content (bodyd e) = take n (all_bytes ps) \<and>
      acc_content (taild e) = acc_content old @ drop n (all_bytes used) \<and>
      (used \<noteq> [] \<longrightarrow> length (all_bytes (butlast used)) < n)
    else \<exists>e. read_channel H acc_decoder acc_decoder fin ps (fresh_extractor (SizedBody n) old) = Inr (fin, e, [])"
  using msg.read_sized [of "fresh_extractor (SizedBody n) old" n ps H fin] assms
  by (auto simp: read_channel_def all_bytes_def split: if_splits)

definition no_spirit :: spirit where
  "no_spirit = \<lparr>hex_uint = (\<lambda>s. None), hex_gen = (\<lambda>n. [])\<rparr>"

theorem sized_body_witness:
  "\<exists>used rest e. [\<lparr>p_data = ''abc'', p_size = 3\<rparr>, \<lparr>p_data = ''defg'', p_size = 3\<rparr>] = used @ rest \<and>
     read_channel no_spirit acc_decoder acc_decoder EndOfFile
       [\<lparr>p_data = ''abc'', p_size = 3\<rparr>, \<lparr>p_data = ''defg'', p_size = 3\<rparr>]
       (fresh_extractor (SizedBody 4) empty_acc) = Inr (NoError, e, rest) \<and>
     acc_content (bodyd e) = ''abcd''"
  using sized_body [OF acc_ok_empty, of "[\<lparr>p_data = ''abc'', p_size = 3\<rparr>, \<lparr>p_data = ''defg'', p_size = 3\<rparr>]"
      4 no_spirit EndOfFile]
  by (force simp: packet_ok_def all_bytes_def payload_of_def numeral_eq_Suc)

text \<open>
  Without a length the body is everything up to the end of the connection; any other
  error of the channel is returned and the tail is never touched.
\<close>

theorem close_body:
  assumes "acc_ok old" "\<forall>p\<in>set ps. packet_ok p 0"
  shows "\<exists>e. read_channel H acc_decoder acc_decoder fin ps (fresh_extractor UntilClose old) =
      Inr (if fin = EndOfFile then NoError else fin, e, []) \<and>
    acc_content (bodyd e) = all_bytes ps \<and> acc_content (taild e) = acc_content old"
proof -
  obtain e where e: "read_base H acc_decoder acc_decoder fin ps (fresh_extractor UntilClose old) = Inr (fin, e, [])"
    "msg.ext_ok e" "acc_content (bodyd e) = all_bytes ps" "acc_content (taild e) = acc_content old"
    using msg.read_close [of "fresh_extractor UntilClose old" ps H fin] assms by (auto simp: all_bytes_def)
  obtain e' where e': "ext_flush acc_decoder acc_decoder e = Inr (NoError, e')"
    "acc_content (bodyd e') = acc_content (bodyd e)" "acc_content (taild e') = acc_content (taild e)"
    using msg.ext_flush_ok [OF e(2)] by metis
  show ?thesis
    using e(1,3,4) e' by (cases "fin = EndOfFile") (simp_all add: read_channel_def read_until_close_def)
qed

theorem close_body_witness:
  "\<exists>e. read_channel no_spirit acc_decoder acc_decoder EndOfFile [\<lparr>p_data = ''ab'', p_size = 1\<rparr>]
      (fresh_extractor UntilClose empty_acc) = Inr (NoError, e, []) \<and> acc_content (bodyd e) = ''a''"
  using close_body [OF acc_ok_empty, of "[\<lparr>p_data = ''ab'', p_size = 1\<rparr>]" no_spirit EndOfFile]
  by (force simp: packet_ok_def all_bytes_def payload_of_def)

text \<open>Handing over what the message's accumulator holds behind a position.\<close>

lemma push_all_ok:
  assumes "acc_ok c" "\<And>p off. (p, off) \<in> set ps \<Longrightarrow> packet_ok p off"
  obtains c' where "push_all c ps = Inr (NoError, c')" "acc_ok c'"
    "acc_content c' = acc_content c @ concat (map (\<lambda>(p, off). payload_of p off) ps)"
  using assms
proof (induction ps arbitrary: c thesis)
  case (Cons x ps)
  obtain p off where x: "x = (p, off)" by (cases x)
  have "packet_ok p off" using Cons.prems(3) x by simp
  from acc_push_ok [OF Cons.prems(2) this] obtain c1 where c1: "acc_push c p off = Inr (NoError, c1)"
    "acc_ok c1" "acc_content c1 = acc_content c @ payload_of p off" by blast
  obtain c' where "push_all c1 ps = Inr (NoError, c')" "acc_ok c'"
    "acc_content c' = acc_content c1 @ concat (map (\<lambda>(p, off). payload_of p off) ps)"
    by (rule Cons.IH [OF _ c1(2)]) (use Cons.prems(3) in auto)
  then show ?case using Cons.prems(1) c1 x by simp
qed simp

lemma rest_packets_ok:
  assumes "acc_ok c" "chain c \<noteq> []" "q \<le> length (acc_content c)"
  obtains xs b ys where "locate c (seek (chain c) q) = Inr (xs, b, ys)"
    "\<And>p off. (p, off) \<in> set (rest_packets (seek (chain c) q) b ys) \<Longrightarrow> packet_ok p off"
    "concat (map (\<lambda>(p, off). payload_of p off) (rest_packets (seek (chain c) q) b ys)) = drop q (acc_content c)"
proof -
  obtain xs b ys k where *: "chain c = xs @ b # ys" "q = sum_list (map b_size xs) + k"
    "k < b_size b \<or> ys = [] \<and> k \<le> b_size b" "buf_ok b" "\<And>m. m \<in> set ys \<Longrightarrow> buf_ok m"
    "seek (chain c) q = \<lparr>it_buf = Some (addr b), it_pos = b_begin b + k\<rparr>"
    "locate c (seek (chain c) q) = Inr (xs, b, ys)"
    using positionE [OF assms] by metis
  have xs: "\<forall>m\<in>set xs. buf_ok m" using assms(1) *(1) by (auto simp: acc_ok_def)
  have as: "concat (map (\<lambda>(p, off). payload_of p off) (map asPacket zs)) = bytes_of zs" for zs
    by (induction zs) (simp_all add: asPacket_def payload_of_def buf_bytes_def)
  have drop: "drop q (acc_content c) = drop k (buf_bytes b) @ bytes_of ys"
    using *(1,2,3) xs length_buf_bytes [OF *(4)] by (auto simp: acc_content_def length_bytes_of)
  show ?thesis
  proof (rule that [OF *(7)])
    show "packet_ok p off" if "(p, off) \<in> set (rest_packets (seek (chain c) q) b ys)" for p off
      using that *(3,4,5) unfolding *(6)
      by (fastforce simp: rest_packets_def asPacket_def packet_ok_def buf_ok_def b_size_def split: if_splits)
    have "drop (b_begin b + k) (take (b_end b) (arr b)) = drop k (buf_bytes b)"
      by (simp add: buf_bytes_def add.commute)
    moreover have "drop k (buf_bytes b) = []" if "b_begin b + k = b_end b"
      using that length_buf_bytes [OF *(4)] by (auto simp: b_size_def)
    ultimately show "concat (map (\<lambda>(p, off). payload_of p off) (rest_packets (seek (chain c) q) b ys)) =
        drop q (acc_content c)"
      unfolding drop *(6) by (simp add: rest_packets_def as [symmetric] del: map_map)
        (simp add: asPacket_def payload_of_def)
  qed
qed

lemma read_from_starts:
  assumes "acc_ok old" "chain old \<noteq> []" "q \<le> length (acc_content old)"
    "q = 0 \<or> it_buf (seek (chain old) (q - 1)) = last_ptr old"
  obtains s t where "acc_ok s" "acc_content s = drop q (acc_content old)"
    "acc_ok t" "acc_content t = take q (acc_content old)"
    "read_from H acc_decoder (seek (chain old) q) (fresh_extractor k old) =
       process_all H acc_decoder acc_decoder ((fresh_extractor k old)\<lparr>strm := s, taild := t\<rparr>)"
    "dropTail old (seek (chain old) q) = Inr t"
proof -
  obtain xs b ys where r: "locate old (seek (chain old) q) = Inr (xs, b, ys)"
    "\<And>p off. (p, off) \<in> set (rest_packets (seek (chain old) q) b ys) \<Longrightarrow> packet_ok p off"
    "concat (map (\<lambda>(p, off). payload_of p off) (rest_packets (seek (chain old) q) b ys)) = drop q (acc_content old)"
    by (rule rest_packets_ok [OF assms(1-3)]) (rule that)
  obtain s where s: "push_all empty_acc (rest_packets (seek (chain old) q) b ys) = Inr (NoError, s)"
    "acc_ok s" "acc_content s = drop q (acc_content old)"
  proof (rule push_all_ok [OF acc_ok_empty r(2)])
    fix c assume "push_all empty_acc (rest_packets (seek (chain old) q) b ys) = Inr (NoError, c)" "acc_ok c"
      "acc_content c = acc_content empty_acc @
         concat (map (\<lambda>(p, off). payload_of p off) (rest_packets (seek (chain old) q) b ys))"
    then show thesis using that r(3) by (simp add: acc_content_empty)
  qed
  obtain t where t: "dropTail old (seek (chain old) q) = Inr t" "acc_content t = take q (acc_content old)" "acc_ok t"
    using dropTail_content [OF assms(1-3)] assms(4) by auto
  show ?thesis
    by (rule that [OF s(2,3) t(3,2) _ t(1)]) (simp add: read_from_def r(1) s(1) t(1) fresh_extractor_def)
qed

text \<open>
  What the message holds behind the headers is handed to the extractor: of the bytes behind
  the position the body gets the first \<open>n\<close>, and the message keeps those before it and gets back
  those behind the body; the extractor still waits for the rest.
\<close>

theorem handover_sized:
  assumes "acc_ok old" "chain old \<noteq> []" "q \<le> length (acc_content old)"
    "q = 0 \<or> it_buf (seek (chain old) (q - 1)) = last_ptr old"
  shows "\<exists>e. read_from H acc_decoder (seek (chain old) q) (fresh_extractor (SizedBody n) old) = Inr (NoError, e) \<and>
    acc_content (bodyd e) = take n (drop q (acc_content old)) \<and>
    acc_content (taild e) = take q (acc_content old) @ drop n (drop q (acc_content old)) \<and>
    kind e = SizedBody (n - (length (acc_content old) - q)) \<and> acc_content (strm e) = []"
proof -
  obtain s t where st: "acc_ok s" "acc_content s = drop q (acc_content old)"
    "acc_ok t" "acc_content t = take q (acc_content old)"
    "read_from H acc_decoder (seek (chain old) q) (fresh_extractor (SizedBody n) old) =
       process_all H acc_decoder acc_decoder ((fresh_extractor (SizedBody n) old)\<lparr>strm := s, taild := t\<rparr>)"
    using read_from_starts [OF assms] .
  have "msg.ext_ok ((fresh_extractor (SizedBody n) old)\<lparr>strm := s, taild := t\<rparr>)"
    using st by (simp add: msg.ext_ok_def fresh_extractor_def acc_ok_empty)
  from msg.process_all_sized [OF this, of n H] show ?thesis
    using st by (auto simp: fresh_extractor_def acc_content_empty)
qed

theorem handover_sized_witness:
  "\<exists>e. read_from no_spirit acc_decoder (seek (chain sample_chain) 3) (fresh_extractor (SizedBody 2) sample_chain) =
      Inr (NoError, e) \<and> acc_content (bodyd e) = [] \<and> kind e = SizedBody 2"
  using handover_sized [OF sample_chain_ok(1,2), of 3 no_spirit 2]
  by (simp add: sample_chain_ok(3)) (force simp: sample_chain_def b_size_def)

end
