(* ===== verification/HttpChunked.thy ===== *)
theory HttpChunked
  imports HttpExtract
begin

text \<open>
  The chunked transfer coding: the encoder (http/impl/contentEncoderChunked.cpp), the writer
  it ends in (http/impl/contentEncoderWriter.cpp), and the proof that the chunked extractor
  of \<open>HttpExtract\<close> decodes what the encoder writes, however the network cuts it into packets.
\<close>

subsection \<open>Hexadecimal numbers\<close>

definition hex_val :: "char \<Rightarrow> nat option" where
  "hex_val c = (let n = of_char c :: nat in
     if 48 \<le> n \<and> n \<le> 57 then Some (n - 48)
     else if 65 \<le> n \<and> n \<le> 70 then Some (n - 55)
     else if 97 \<le> n \<and> n \<le> 102 then Some (n - 87) else None)"

definition is_hex :: "char \<Rightarrow> bool" where
  "is_hex c \<longleftrightarrow> hex_val c \<noteq> None"

definition hex_value :: "string \<Rightarrow> nat" where
  "hex_value s = foldl (\<lambda>n c. 16 * n + the (hex_val c)) 0 s"

text \<open>What the documentation of \<open>uint_parser<size_t, 16>\<close> and \<open>uint_generator<size_t, 16>\<close> says:
  the parser takes all digits and fails without one and on overflow, the generator writes
  the digits of the number.\<close>

definition spirit_hex :: "spirit \<Rightarrow> bool" where
  "spirit_hex H \<longleftrightarrow>
     (\<forall>s. hex_uint H s = (let ds = takeWhile is_hex s in
        if ds = [] \<or> 2 ^ 64 \<le> hex_value ds then None else Some (hex_value ds, dropWhile is_hex s))) \<and>
     (\<forall>n < 2 ^ 64. hex_gen H n \<noteq> [] \<and> length (hex_gen H n) \<le> 16 \<and> list_all is_hex (hex_gen H n) \<and>
        hex_value (hex_gen H n) = n)"

lemma hex_value_append_le: "hex_value xs \<le> hex_value (xs @ ys)"
proof -
  have "n \<le> foldl (\<lambda>n c. 16 * n + the (hex_val c)) n ys" for n
  proof (induction ys arbitrary: n)
    case (Cons c ys)
    have "n \<le> 16 * n + the (hex_val c)" by simp
    also have "\<dots> \<le> foldl (\<lambda>n c. 16 * n + the (hex_val c)) (16 * n + the (hex_val c)) ys" by (rule Cons)
    finally show ?case by simp
  qed simp
  then show ?thesis by (simp add: hex_value_def)
qed

lemma not_hex_cr [simp]: "\<not> is_hex (CHR 0x0D)" "\<not> is_hex (CHR 0x0A)"
  by (simp_all add: is_hex_def hex_val_def)

subsection \<open>The wire format\<close>

text \<open>A chunk's first line: digits, then anything without a carriage return.\<close>

definition no_cr :: "string \<Rightarrow> bool" where
  "no_cr s \<longleftrightarrow> CHR 0x0D \<notin> set s"

definition cap_ok :: "string \<Rightarrow> nat \<Rightarrow> bool" where
  "cap_ok s n \<longleftrightarrow> s \<noteq> [] \<and> is_hex (hd s) \<and> no_cr s \<and> hex_value (takeWhile is_hex s) = n \<and>
     n < 2 ^ 64 \<and> length s \<le> 1020"

text \<open>\<open>trailers F T\<close>: \<open>F\<close> is trailer lines, the empty line and \<open>T\<close>; \<open>chunks F B T\<close>: \<open>F\<close> is a
  chunked body of the bytes \<open>B\<close>, followed by \<open>T\<close>.\<close>

inductive trailers :: "string \<Rightarrow> string \<Rightarrow> bool" where
  trailers_end: "trailers (crlf @ T) T"
| trailers_line: "l \<noteq> [] \<Longrightarrow> no_cr l \<Longrightarrow> length l \<le> 1020 \<Longrightarrow> trailers F T \<Longrightarrow> trailers (l @ crlf @ F) T"

inductive chunks :: "string \<Rightarrow> string \<Rightarrow> string \<Rightarrow> bool" where
  chunks_last: "cap_ok cap 0 \<Longrightarrow> trailers F T \<Longrightarrow> chunks (cap @ crlf @ F) [] T"
| chunks_more: "cap_ok cap (length c) \<Longrightarrow> c \<noteq> [] \<Longrightarrow> chunks F B T \<Longrightarrow>
     chunks (cap @ crlf @ c @ crlf @ F) (c @ B) T"

text \<open>What is still to come in each state of the extractor.\<close>

definition expects :: "estate \<Rightarrow> nat \<Rightarrow> string \<Rightarrow> string \<Rightarrow> string \<Rightarrow> bool" where
  "expects es n F B T = (case es of
       EsCaption \<Rightarrow> (\<exists>pre G. (pre = [] \<or> pre = crlf) \<and> F = pre @ G \<and> chunks G B T)
     | EsBody \<Rightarrow> (\<exists>c G B'. F = c @ crlf @ G \<and> length c = n \<and> 0 < n \<and> B = c @ B' \<and> chunks G B' T)
     | EsTrailerHeader \<Rightarrow> B = [] \<and> trailers F T
     | EsDone \<Rightarrow> B = [] \<and> F = T
     | EsError \<Rightarrow> False)"

subsection \<open>The two parsers on complete and incomplete lines\<close>

lemma after_crlf_simps [simp]:
  "after_crlf (crlf @ s) = Some s" "after_crlf [] = None" "after_crlf (CHR 0x0D # CHR 0x0A # s) = Some s"
  by (simp_all add: after_crlf_def crlf_def)

lemma after_crlf_not: "s \<noteq> [] \<Longrightarrow> hd s \<noteq> CHR 0x0D \<Longrightarrow> after_crlf s = None"
  by (cases s) (auto simp: after_crlf_def crlf_def)

lemma cr_line: "no_cr l \<Longrightarrow> dropWhile (\<lambda>c. c \<noteq> CHR 0x0D) (l @ crlf @ r) = crlf @ r"
  "no_cr l \<Longrightarrow> takeWhile (\<lambda>c. c \<noteq> CHR 0x0D) (l @ crlf @ r) = l"
  by (induction l) (auto simp: no_cr_def crlf_def)

lemma cr_none: "no_cr l \<Longrightarrow> dropWhile (\<lambda>c. c \<noteq> CHR 0x0D) l = []"
  by (auto simp: no_cr_def)

lemma hex_split:
  assumes "cap_ok cap n"
  shows "takeWhile is_hex (cap @ crlf @ r) = takeWhile is_hex cap"
    "dropWhile is_hex (cap @ crlf @ r) = dropWhile is_hex cap @ crlf @ r"
  by (induction cap) (auto simp: crlf_def)

lemma caption_complete:
  assumes "spirit_hex H" "cap_ok cap n" "pre = [] \<or> pre = crlf"
  shows "caption_parse H (pre @ cap @ crlf @ r) = (False, Some n, Some r)"
proof -
  have hd: "cap @ crlf @ r \<noteq> []" "hd (cap @ crlf @ r) \<noteq> CHR 0x0D"
    using assms(2) by (auto simp: cap_ok_def)
  have s1: "(case after_crlf (pre @ cap @ crlf @ r) of Some s \<Rightarrow> s | None \<Rightarrow> pre @ cap @ crlf @ r) = cap @ crlf @ r"
    using assms(3) after_crlf_not [OF hd] by auto
  have "takeWhile is_hex cap \<noteq> []" using assms(2) by (cases cap) (auto simp: cap_ok_def)
  moreover have "hex_value (takeWhile is_hex cap) = n" "n < 2 ^ 64" using assms(2) by (simp_all add: cap_ok_def)
  ultimately have "hex_uint H (cap @ crlf @ r) = Some (n, dropWhile is_hex cap @ crlf @ r)"
    using assms(1) by (simp add: spirit_hex_def hex_split [OF assms(2)])
  moreover have "no_cr (dropWhile is_hex cap)"
    using assms(2) by (auto simp: cap_ok_def no_cr_def dest: set_dropWhileD)
  ultimately show ?thesis
    by (simp only: caption_parse_def Let_def s1 option.case prod.case cr_line after_crlf_simps)
qed

lemma takeWhile_part: "\<exists>zs. takeWhile P (v @ us) = takeWhile P v @ zs"
  by (induction v) auto

lemma caption_incomplete:
  assumes "spirit_hex H" "cap_ok cap n" "v @ us = cap" "pre = [] \<or> pre = crlf" "pre @ v \<noteq> []"
  shows "\<exists>m. caption_parse H (pre @ v) = (False, m, None)"
proof (cases "v = []")
  case True
  then have "pre = crlf" using assms(4,5) by auto
  moreover have "hex_uint H [] = None" using assms(1) by (simp add: spirit_hex_def)
  ultimately show ?thesis using True by (simp add: caption_parse_def crlf_def)
next
  case False
  have v: "is_hex (hd v)" "no_cr v" using assms(2,3) False by (auto simp: cap_ok_def no_cr_def)
  then have "hd v \<noteq> CHR 0x0D" by auto
  then have s1: "(case after_crlf (pre @ v) of Some s \<Rightarrow> s | None \<Rightarrow> pre @ v) = v"
    using assms(4) after_crlf_not [OF False] by auto
  obtain zs where "takeWhile is_hex (v @ us) = takeWhile is_hex v @ zs"
    using takeWhile_part by blast
  then have "hex_value (takeWhile is_hex v) \<le> hex_value (takeWhile is_hex (v @ us))"
    using hex_value_append_le by simp
  also have "\<dots> < 2 ^ 64" using assms(2,3) by (simp add: cap_ok_def)
  finally have "hex_value (takeWhile is_hex v) < 2 ^ 64" .
  moreover have "takeWhile is_hex v \<noteq> []" using v(1) False by (cases v) auto
  ultimately have "hex_uint H v = Some (hex_value (takeWhile is_hex v), dropWhile is_hex v)"
    using assms(1) by (simp add: spirit_hex_def)
  moreover have "no_cr (dropWhile is_hex v)" using v(2) by (auto simp: no_cr_def dest: set_dropWhileD)
  ultimately show ?thesis
    by (simp only: caption_parse_def Let_def s1 option.case prod.case cr_none after_crlf_simps) blast
qed

lemma trailer_complete: "no_cr l \<Longrightarrow> trailer_parse (l @ crlf @ r) = (l \<noteq> [], Some r)"
  by (simp add: trailer_parse_def cr_line)

lemma trailer_incomplete: "no_cr l \<Longrightarrow> \<exists>b. trailer_parse l = (b, None)"
  by (simp add: trailer_parse_def cr_none)

text \<open>A part of a line and its end that does not stop at the carriage return.\<close>

lemma line_cut:
  assumes "w @ f = l @ crlf @ F" "w \<noteq> []" "last w \<noteq> CHR 0x0D"
  shows "(\<exists>us. w = l @ crlf @ us \<and> us @ f = F) \<or> (\<exists>us. w @ us = l \<and> f \<noteq> [])"
proof -
  from assms(1) consider us where "w = l @ us" "us @ f = crlf @ F" | us where "w @ us = l" "f = us @ crlf @ F"
    by (auto simp: append_eq_append_conv2)
  then show ?thesis
  proof cases
    case 1
    then consider "us = []" | "us = [CHR 0x0D]" | vs where "us = crlf @ vs" "vs @ f = F"
      by (cases us; cases "List.tl us") (auto simp: crlf_def)
    then show ?thesis
    proof cases
      case 1
      then show ?thesis using \<open>w = l @ us\<close> \<open>us @ f = crlf @ F\<close> by (auto simp: crlf_def)
    next
      case 2
      then show ?thesis using \<open>w = l @ us\<close> assms(3) by simp
    next
      case 3
      then show ?thesis using \<open>w = l @ us\<close> by auto
    qed
  next
    case 2
    then show ?thesis by (auto simp: crlf_def)
  qed
qed


subsection \<open>The extractor follows the wire format\<close>

text \<open>A first line and what comes after it.\<close>

lemma expects_line:
  assumes "expects EsCaption n F B T"
  obtains pre cap m R where "pre = [] \<or> pre = crlf" "cap_ok cap m" "F = pre @ cap @ crlf @ R"
    "expects (if m = 0 then EsTrailerHeader else EsBody) m R B T"
proof -
  obtain pre G where G: "pre = [] \<or> pre = crlf" "F = pre @ G" "chunks G B T"
    using assms by (auto simp: expects_def)
  from G(3) show ?thesis
  proof cases
    case (chunks_last cap R)
    then show ?thesis using that [of pre cap 0 R] G by (simp add: expects_def)
  next
    case (chunks_more cap c R B')
    then show ?thesis using that [of pre cap "length c" "c @ crlf @ R"] G by (auto simp: expects_def)
  qed
qed

lemma expects_body:
  "length c = n \<Longrightarrow> 0 < n \<Longrightarrow> chunks G B T \<Longrightarrow> expects EsBody n (c @ crlf @ G) (c @ B) T"
  by (auto simp: expects_def)

context extraction
begin

lemma process_caption:
  assumes H: "spirit_hex H" and e: "ext_ok e" "acc_content (strm e) \<noteq> []"
    and F: "expects EsCaption n (acc_content (strm e) @ f) B T" "last (acc_content (strm e)) \<noteq> CHR 0x0D"
  shows "(\<exists>m. processCaption H n e = Inr (NeedMoreData, e\<lparr>kind := ChunkedBody EsCaption m\<rparr>) \<and> f \<noteq> []) \<or>
    (\<exists>s es m w. processCaption H n e = Inr (NoError, e\<lparr>strm := s, kind := ChunkedBody es m\<rparr>) \<and> acc_ok s \<and>
       acc_content s = w \<and> expects es m (w @ f) B T \<and>
       (\<exists>used. used \<noteq> [] \<and> acc_content (strm e) = used @ w))"
proof -
  let ?w = "acc_content (strm e)"
  have ok: "acc_ok (strm e)" using e(1) by (simp add: ext_ok_def)
  obtain i where i: "acc_end (strm e) = Inr i" using acc_end_ok [OF ok e(2)] by blast
  obtain pre cap m R where l: "pre = [] \<or> pre = crlf" "cap_ok cap m" "?w @ f = pre @ cap @ crlf @ R"
    "expects (if m = 0 then EsTrailerHeader else EsBody) m R B T"
    using expects_line [OF F(1)] .
  have "(\<exists>us. ?w = pre @ cap @ crlf @ us \<and> us @ f = R) \<or> (\<exists>v us. ?w = pre @ v \<and> v @ us = cap \<and> f \<noteq> [])"
  proof -
    have "?w @ f = (pre @ cap) @ crlf @ R" using l(3) by simp
    from line_cut [OF this e(2) F(2)] show ?thesis
    proof (elim disjE exE conjE)
      fix us assume *: "?w @ us = pre @ cap" "f \<noteq> []"
      show ?thesis
      proof (cases "\<exists>v. ?w = pre @ v")
        case True
        then show ?thesis using * by auto
      next
        case False
        then have "pre = crlf" using l(1) by auto
        with * e(2) have "?w = [CHR 0x0D] \<or> (\<exists>v. ?w = pre @ v)"
          by (cases ?w; cases "List.tl ?w") (auto simp: crlf_def)
        with False F(2) show ?thesis by auto
      qed
    qed auto
  qed
  then show ?thesis
  proof (elim disjE exE conjE)
    fix us assume us: "?w = pre @ cap @ crlf @ us" "us @ f = R"
    then have w: "?w = (pre @ cap @ crlf) @ us" by simp
    obtain s where s: "drop_parsed (strm e) us = Inr s" "acc_ok s" "acc_content s = us"
      using drop_parsed_ok [OF ok w e(2)] .
    have "caption_parse H ?w = (False, Some m, Some us)"
      unfolding us(1) by (rule caption_complete [OF H l(2,1)])
    then have "processCaption H n e = Inr (NoError, e\<lparr>strm := s,
        kind := ChunkedBody (if m = 0 then EsTrailerHeader else EsBody) m\<rparr>)"
      using i s(1) by (simp add: processCaption_def)
    then show ?thesis using s us(2) l(4) w
      by (intro disjI2 exI [of _ s] exI [of _ "if m = 0 then EsTrailerHeader else EsBody"] exI [of _ m] exI [of _ us])
         (auto simp: crlf_def)
  next
    fix v us assume v: "?w = pre @ v" "v @ us = cap" "f \<noteq> []"
    obtain k where "caption_parse H ?w = (False, k, None)"
      using caption_incomplete [OF H l(2) v(2) l(1)] v(1) e(2) by auto
    moreover have "\<not> acc_size (strm e) > 1024"
      using v(1,2) l(1,2) by (auto simp: acc_size_content [OF ok] cap_ok_def crlf_def)
    ultimately have "processCaption H n e =
        Inr (NeedMoreData, e\<lparr>kind := ChunkedBody EsCaption (case k of Some m \<Rightarrow> m | None \<Rightarrow> n)\<rparr>)"
      using i by (simp add: processCaption_def)
    then show ?thesis using v(3) by blast
  qed
qed

lemma process_trailer:
  assumes e: "ext_ok e" "acc_content (strm e) \<noteq> []"
    and F: "trailers (acc_content (strm e) @ f) T" "last (acc_content (strm e)) \<noteq> CHR 0x0D"
  shows "(processTrailerHeader n e = Inr (NeedMoreData, e) \<and> f \<noteq> []) \<or>
    (\<exists>s es w. processTrailerHeader n e = Inr (NoError, e\<lparr>strm := s, kind := ChunkedBody es n\<rparr>) \<and> acc_ok s \<and>
       acc_content s = w \<and> expects es n (w @ f) [] T \<and>
       (\<exists>used. used \<noteq> [] \<and> acc_content (strm e) = used @ w))"
proof -
  let ?w = "acc_content (strm e)"
  have ok: "acc_ok (strm e)" using e(1) by (simp add: ext_ok_def)
  obtain i where i: "acc_end (strm e) = Inr i" using acc_end_ok [OF ok e(2)] by blast
  obtain l R where l: "no_cr l" "length l \<le> 1020" "?w @ f = l @ crlf @ R"
    "expects (if l = [] then EsDone else EsTrailerHeader) n R [] T"
    using F(1)
  proof cases
    case trailers_end
    then show ?thesis using that [of "[]" T] by (simp add: expects_def no_cr_def)
  next
    case (trailers_line l R)
    then show ?thesis using that [of l R] by (simp add: expects_def)
  qed
  from line_cut [OF l(3) e(2) F(2)] show ?thesis
  proof (elim disjE exE conjE)
    fix us assume us: "?w = l @ crlf @ us" "us @ f = R"
    then have w: "?w = (l @ crlf) @ us" by simp
    obtain s where s: "drop_parsed (strm e) us = Inr s" "acc_ok s" "acc_content s = us"
      using drop_parsed_ok [OF ok w e(2)] .
    have "trailer_parse ?w = (l \<noteq> [], Some us)" unfolding us(1) by (rule trailer_complete [OF l(1)])
    then have "processTrailerHeader n e = Inr (NoError, e\<lparr>strm := s,
        kind := ChunkedBody (if l = [] then EsDone else EsTrailerHeader) n\<rparr>)"
      using i s(1) by (simp add: processTrailerHeader_def)
    then show ?thesis using s us(2) l(4) w
      by (intro disjI2 exI [of _ s] exI [of _ "if l = [] then EsDone else EsTrailerHeader"] exI [of _ us])
         (auto simp: crlf_def)
  next
    fix us assume v: "?w @ us = l" "f \<noteq> []"
    then have "no_cr ?w" using l(1) by (auto simp: no_cr_def)
    then obtain b where "trailer_parse ?w = (b, None)" using trailer_incomplete by blast
    moreover have "\<not> acc_size (strm e) > 1024" using v(1) l(2) by (auto simp: acc_size_content [OF ok])
    ultimately show ?thesis using i v(2) by (simp add: processTrailerHeader_def)
  qed
qed

text \<open>One round of the chunked extractor: it needs more, or it gets on.\<close>

lemma process_chunked_step:
  assumes H: "spirit_hex H" and e: "ext_ok e" "acc_content (strm e) \<noteq> []" "kind e = ChunkedBody es n"
    and F: "expects es n (acc_content (strm e) @ f) B T" "last (acc_content (strm e)) \<noteq> CHR 0x0D"
  obtains (more) m where "process_one H DB DT e = Inr (NeedMoreData, e\<lparr>kind := ChunkedBody es m\<rparr>)" "f \<noteq> []"
      "expects es m (acc_content (strm e) @ f) B T" "es \<noteq> EsDone"
  | (on) e' es' n' used B1 B2 T1 T2 where "process_one H DB DT e = Inr (NoError, e')" "ext_ok e'"
      "kind e' = ChunkedBody es' n'" "used \<noteq> []" "acc_content (strm e) = used @ acc_content (strm e')"
      "expects es' n' (acc_content (strm e') @ f) B2 T2" "B = B1 @ B2" "T = T1 @ T2"
      "contb (bodyd e') = contb (bodyd e) @ B1" "contt (taild e') = contt (taild e) @ T1"
proof -
  let ?w = "acc_content (strm e)"
  have one: "process_one H DB DT e = process_chunked H DB DT es n e" using e(3) by (simp add: process_one_def)
  show ?thesis
  proof (cases es)
    case EsCaption
    then have one: "process_one H DB DT e = processCaption H n e" using one by (simp add: process_chunked_def)
    from process_caption [OF H e(1,2) F(1)[unfolded EsCaption] F(2)] show ?thesis
    proof (elim disjE exE conjE)
      fix m assume "processCaption H n e = Inr (NeedMoreData, e\<lparr>kind := ChunkedBody EsCaption m\<rparr>)" "f \<noteq> []"
      then show ?thesis using more [of m] one EsCaption F(1) by (simp add: expects_def)
    next
      fix s es' m w used
      assume *: "processCaption H n e = Inr (NoError, e\<lparr>strm := s, kind := ChunkedBody es' m\<rparr>)" "acc_ok s"
        "acc_content s = w" "expects es' m (w @ f) B T" "used \<noteq> []" "?w = used @ w"
      show ?thesis
        by (rule on [of "e\<lparr>strm := s, kind := ChunkedBody es' m\<rparr>" es' m used B T "[]" "[]"])
           (use one * e(1) in \<open>simp_all add: ext_ok_def\<close>)
    qed
  next
    case EsTrailerHeader
    then have one: "process_one H DB DT e = processTrailerHeader n e" using one by (simp add: process_chunked_def)
    have B: "B = []" "trailers (?w @ f) T" using F(1) EsTrailerHeader by (simp_all add: expects_def)
    from process_trailer [OF e(1,2) B(2) F(2), of n] show ?thesis
    proof (elim disjE exE conjE)
      assume "processTrailerHeader n e = Inr (NeedMoreData, e)" "f \<noteq> []"
      moreover have "e\<lparr>kind := ChunkedBody es n\<rparr> = e" using e(3) by simp
      ultimately show ?thesis using more [of n] one F(1) EsTrailerHeader by simp
    next
      fix s es' w used
      assume *: "processTrailerHeader n e = Inr (NoError, e\<lparr>strm := s, kind := ChunkedBody es' n\<rparr>)" "acc_ok s"
        "acc_content s = w" "expects es' n (w @ f) [] T" "used \<noteq> []" "?w = used @ w"
      show ?thesis
        by (rule on [of "e\<lparr>strm := s, kind := ChunkedBody es' n\<rparr>" es' n used B T "[]" "[]"])
           (use one * e(1) B in \<open>simp_all add: ext_ok_def\<close>)
    qed
  next
    case EsDone
    obtain e1 k where e1: "processTail DT e = Inr (NoError, e1)" "ext_ok e1" "0 < k" "k \<le> length ?w"
      "acc_content (strm e1) = drop k ?w" "contt (taild e1) = contt (taild e) @ take k ?w"
      "contb (bodyd e1) = contb (bodyd e)" "kind e1 = kind e"
      using processTail_ok [OF e(1,2)] .
    show ?thesis
      by (rule on [of e1 es n "take k ?w" B "drop k ?w @ f" "[]" "take k ?w"])
         (use one e1 e(2,3) EsDone F(1) in \<open>auto simp: process_chunked_def expects_def\<close>)
  next
    case EsBody
    then obtain c G B' where c: "?w @ f = c @ crlf @ G" "length c = n" "0 < n" "B = c @ B'" "chunks G B' T"
      using F(1) by (auto simp: expects_def)
    obtain e1 k where e1: "processBody DB e n = Inr (NoError, e1, n - k)" "ext_ok e1" "0 < k" "k \<le> n"
      "k \<le> length ?w" "acc_content (strm e1) = drop k ?w" "contb (bodyd e1) = contb (bodyd e) @ take k ?w"
      "contt (taild e1) = contt (taild e)"
      using processBody_ok [OF e(1,2) c(3)] by metis
    let ?es = "if n - k = 0 then EsCaption else EsBody"
    have tk: "take k ?w = take k c"
    proof -
      have "take k (?w @ f) = take k (c @ crlf @ G)" using c(1) by simp
      then show ?thesis using e1(4,5) c(2) by simp
    qed
    have dk: "drop k ?w @ f = drop k c @ crlf @ G"
    proof -
      have "drop k (?w @ f) = drop k (c @ crlf @ G)" using c(1) by simp
      then show ?thesis using e1(4,5) c(2) by simp
    qed
    have "expects ?es (n - k) (drop k ?w @ f) (drop k c @ B') T"
    proof (cases "n - k = 0")
      case True
      then show ?thesis using dk c(2,5) by (auto simp: expects_def)
    next
      case False
      then have "expects EsBody (n - k) (drop k c @ crlf @ G) (drop k c @ B') T"
        by (intro expects_body) (use c(2,5) in auto)
      then show ?thesis unfolding dk using False by simp
    qed
    moreover have "c \<noteq> []" using c(2,3) by auto
    moreover have "?w = take k c @ drop k ?w" using append_take_drop_id [of k ?w] unfolding tk by simp
    ultimately show ?thesis
      by (intro on [of "e1\<lparr>kind := ChunkedBody ?es (n - k)\<rparr>" ?es "n - k" "take k ?w" "drop k c @ B'" T "take k c" "[]"])
         (use one e1 e(2) EsBody tk c(4) in \<open>simp_all add: process_chunked_def ext_ok_def\<close>)
  next
    case EsError
    then show ?thesis using F(1) by (simp add: expects_def)
  qed
qed

lemma process_all_chunked:
  assumes "spirit_hex H" "ext_ok e" "kind e = ChunkedBody es n"
    "expects es n (acc_content (strm e) @ f) B T"
    "acc_content (strm e) = [] \<or> last (acc_content (strm e)) \<noteq> CHR 0x0D"
  shows "\<exists>e' es' n' B1 B2 T1 T2. process_all H DB DT e = Inr (NoError, e') \<and> ext_ok e' \<and>
      kind e' = ChunkedBody es' n' \<and> expects es' n' (acc_content (strm e') @ f) B2 T2 \<and>
      B = B1 @ B2 \<and> T = T1 @ T2 \<and> contb (bodyd e') = contb (bodyd e) @ B1 \<and>
      contt (taild e') = contt (taild e) @ T1 \<and>
      (es' = EsDone \<longrightarrow> acc_content (strm e') = []) \<and> (f = [] \<longrightarrow> es' = EsDone)"
  using assms(2-)
proof (induction "length (acc_content (strm e))" arbitrary: e es n B T rule: less_induct)
  case less
  let ?w = "acc_content (strm e)"
  show ?case
  proof (cases "?w = []")
    case True
    have "es = EsDone" if "f = []"
      using less.prems(3) True that by (cases es) (auto simp: expects_def crlf_def elim: chunks.cases trailers.cases)
    then show ?thesis
      using less.prems True process_all_empty [OF less.prems(1) True, of H]
      by (intro exI [of _ e] exI [of _ es] exI [of _ n] exI [of _ "[]"] exI [of _ B] exI [of _ T]) simp
  next
    case False
    then have last: "last ?w \<noteq> CHR 0x0D" using less.prems(4) by simp
    show ?thesis
    proof (cases rule: process_chunked_step [OF assms(1) less.prems(1) False less.prems(2,3) last, consumes 0])
      case (1 m)
      have "acc_size (strm e) \<noteq> 0" using less.prems(1) False by (simp add: ext_ok_def acc_size_content)
      then have "process_all H DB DT e = Inr (NoError, e\<lparr>kind := ChunkedBody es m\<rparr>)"
        using 1(1) by (subst process_all.simps) simp
      then show ?thesis using 1 less.prems(1)
        by (intro exI [of _ "e\<lparr>kind := ChunkedBody es m\<rparr>"] exI [of _ es] exI [of _ m] exI [of _ "[]"]
              exI [of _ B] exI [of _ T]) (simp add: ext_ok_def)
    next
      case (2 e1 es1 n1 used B1 B2 T1 T2)
      have "acc_content (strm e1) = drop (length used) ?w" "0 < length used" using 2(4,5) by simp_all
      from process_all_step [OF less.prems(1) False 2(1,2) this]
      have step: "process_all H DB DT e = process_all H DB DT e1" .
      have "length (acc_content (strm e1)) < length ?w" using 2(4,5) by simp
      moreover have "acc_content (strm e1) = [] \<or> last (acc_content (strm e1)) \<noteq> CHR 0x0D"
        using last 2(5) by (metis last_appendR)
      ultimately obtain e' es' n' C1 C2 U1 U2 where "process_all H DB DT e1 = Inr (NoError, e')" "ext_ok e'"
        "kind e' = ChunkedBody es' n'" "expects es' n' (acc_content (strm e') @ f) C2 U2"
        "B2 = C1 @ C2" "T2 = U1 @ U2" "contb (bodyd e') = contb (bodyd e1) @ C1"
        "contt (taild e') = contt (taild e1) @ U1" "es' = EsDone \<longrightarrow> acc_content (strm e') = []"
        "f = [] \<longrightarrow> es' = EsDone"
        using less.hyps [OF _ 2(2,3,6)] by blast
      then show ?thesis using step 2(7-10)
        by (intro exI [of _ e'] exI [of _ es'] exI [of _ n'] exI [of _ "B1 @ C1"] exI [of _ C2]
              exI [of _ "T1 @ U1"] exI [of _ U2]) simp
    qed
  qed
qed

lemma read_chunked:
  assumes "spirit_hex H" "ext_ok e" "kind e = ChunkedBody es n"
    "expects es n (acc_content (strm e) @ all_bytes ps) B T"
    "\<And>p. p \<in> set ps \<Longrightarrow> packet_ok p 0 \<and> last (payload_of p 0) \<noteq> CHR 0x0D"
    "es = EsDone \<Longrightarrow> acc_content (strm e) = []" "ps = [] \<Longrightarrow> es = EsDone"
  shows "\<exists>e' used rest T1. ps = used @ rest \<and> read_base H DB DT fin ps e = Inr (NoError, e', rest) \<and> ext_ok e' \<and>
     contb (bodyd e') = contb (bodyd e) @ B \<and> contt (taild e') = contt (taild e) @ T1 \<and>
     T = T1 @ all_bytes rest"
  using assms(2-)
proof (induction ps arbitrary: e es n B T)
  case Nil
  then have es: "es = EsDone" "B = []" "acc_content (strm e) = []" "T = []"
    by (simp_all add: expects_def all_bytes_def)
  obtain e' where e': "ext_flush DB DT e = Inr (NoError, e')" "contb (bodyd e') = contb (bodyd e)"
    "contt (taild e') = contt (taild e)" "ext_ok e'" using ext_flush_ok Nil.prems(1) by metis
  have "read_base H DB DT fin [] e = Inr (NoError, e', [])"
    using es e' Nil.prems(1,2) by (simp add: isDone_def finish_read_def ext_ok_def acc_size_content)
  then show ?case using es e' by (simp add: all_bytes_def)
next
  case (Cons p ps)
  show ?case
  proof (cases "es = EsDone")
    case True
    then have es: "B = []" "acc_content (strm e) = []" "T = all_bytes (p # ps)"
      using Cons.prems by (simp_all add: expects_def)
    obtain e' where e': "ext_flush DB DT e = Inr (NoError, e')" "contb (bodyd e') = contb (bodyd e)"
      "contt (taild e') = contt (taild e)" "ext_ok e'" using ext_flush_ok Cons.prems(1) by metis
    have "read_base H DB DT fin (p # ps) e = Inr (NoError, e', p # ps)"
      using True es e' Cons.prems(1,2) by (simp add: isDone_def finish_read_def ext_ok_def acc_size_content)
    then show ?thesis using es e' by (intro exI [of _ e'] exI [of _ "[]"] exI [of _ "p # ps"]) simp
  next
    case False
    have p: "packet_ok p 0" "last (payload_of p 0) \<noteq> CHR 0x0D" using Cons.prems(4) by auto
    then have ne: "payload_of p 0 \<noteq> []" by (auto simp: packet_ok_def payload_of_def)
    obtain s where s: "acc_push (strm e) p 0 = Inr (NoError, s)" "acc_ok s"
      "acc_content s = acc_content (strm e) @ payload_of p 0"
      using acc_push_ok [OF _ p(1)] Cons.prems(1) by (fastforce simp: ext_ok_def)
    have "ext_ok (e\<lparr>strm := s\<rparr>)" "kind (e\<lparr>strm := s\<rparr>) = ChunkedBody es n"
      "expects es n (acc_content (strm (e\<lparr>strm := s\<rparr>)) @ all_bytes ps) B T"
      "acc_content (strm (e\<lparr>strm := s\<rparr>)) = [] \<or> last (acc_content (strm (e\<lparr>strm := s\<rparr>))) \<noteq> CHR 0x0D"
      using s Cons.prems(1-3) p ne by (simp_all add: ext_ok_def all_bytes_def)
    from process_all_chunked [OF assms(1) this]
    obtain e1 es1 n1 B1 B2 T1 T2 where e1:
      "process_all H DB DT (e\<lparr>strm := s\<rparr>) = Inr (NoError, e1)" "ext_ok e1"
      "kind e1 = ChunkedBody es1 n1" "expects es1 n1 (acc_content (strm e1) @ all_bytes ps) B2 T2"
      "B = B1 @ B2" "T = T1 @ T2" "contb (bodyd e1) = contb (bodyd e) @ B1"
      "contt (taild e1) = contt (taild e) @ T1" "es1 = EsDone \<longrightarrow> acc_content (strm e1) = []"
      "all_bytes ps = [] \<longrightarrow> es1 = EsDone"
      by auto
    have step: "read_base H DB DT fin (p # ps) e = read_base H DB DT fin ps e1"
      using Cons.prems(2) False s(1) e1(1) by (simp add: isDone_def)
    obtain e' used rest U where "ps = used @ rest" "read_base H DB DT fin ps e1 = Inr (NoError, e', rest)" "ext_ok e'"
      "contb (bodyd e') = contb (bodyd e1) @ B2" "contt (taild e') = contt (taild e1) @ U"
      "T2 = U @ all_bytes rest"
      using Cons.IH [OF e1(2-4)] Cons.prems(4) e1(9,10) by (auto simp: all_bytes_def)
    then show ?thesis using step e1(5-8)
      by (intro exI [of _ e'] exI [of _ "p # used"] exI [of _ rest] exI [of _ "T1 @ U"]) simp
  qed
qed

end

subsection \<open>The encoder\<close>

text \<open>\<open>ContentEncoder\<close> has the two operations of a content decoder.\<close>

type_synonym 's encoder = "'s decoder"

definition base_encoder :: "'s encoder" where
  "base_encoder = \<lparr>d_push = (\<lambda>s p off. Inl AssertFailed), d_flush = (\<lambda>s. Inl AssertFailed)\<rparr>"

record 's chunk_encoder =
  ce_up :: 's
  ce_chunks :: "(packet \<times> nat) list"
  ce_size :: nat

definition initPacket :: "string \<Rightarrow> packet" where
  "initPacket s = \<lparr>p_data = s, p_size = length s\<rparr>"

definition lastChunkPacket :: packet where
  "lastChunkPacket = initPacket (CHR ''0'' # crlf @ crlf)"

definition crlfPacket :: packet where
  "crlfPacket = initPacket crlf"

text \<open>The header is generated into an array of 34 characters.\<close>

definition header_packet :: "spirit \<Rightarrow> nat \<Rightarrow> packet hresult" where
  "header_packet H n = (let t = hex_gen H n @ crlf in
     if length t \<le> 34 then Inr \<lparr>p_data = t @ replicate (34 - length t) (CHR 0x00), p_size = length t\<rparr>
     else Inl BadIterator)"

fun push_chunks :: "'s encoder \<Rightarrow> 's \<Rightarrow> (packet \<times> nat) list \<Rightarrow> (ecode \<times> 's) hresult" where
  "push_chunks U u [] = Inr (NoError, u)"
| "push_chunks U u ((p, off) # cs) =
     if_ok (d_push U u p off) (\<lambda>ec u'. Inr (ec, u')) (\<lambda>u'. push_chunks U u' cs)"

definition push_last :: "'s encoder \<Rightarrow> bool \<Rightarrow> 's chunk_encoder \<Rightarrow> (ecode \<times> 's chunk_encoder) hresult" where
  "push_last U finish c = (if finish
     then hbind (d_push U (ce_up c) lastChunkPacket 0) (\<lambda>(ec, u). Inr (ec, c\<lparr>ce_up := u\<rparr>))
     else Inr (NoError, c))"

definition push2Upstream :: "spirit \<Rightarrow> 's encoder \<Rightarrow> bool \<Rightarrow> 's chunk_encoder \<Rightarrow> (ecode \<times> 's chunk_encoder) hresult" where
  "push2Upstream H U finish c =
     (if ce_size c = 0 then push_last U finish c
      else hbind (header_packet H (ce_size c)) (\<lambda>h.
        if_ok (d_push U (ce_up c) h 0) (\<lambda>ec u. Inr (ec, c\<lparr>ce_up := u\<rparr>))
        (\<lambda>u. if_ok (push_chunks U u (ce_chunks c)) (\<lambda>ec u. Inr (ec, c\<lparr>ce_up := u\<rparr>))
        (\<lambda>u. let c' = c\<lparr>ce_up := u, ce_chunks := [], ce_size := 0\<rparr> in
           if_ok (d_push U u crlfPacket 0) (\<lambda>ec u. Inr (ec, c'\<lparr>ce_up := u\<rparr>))
           (\<lambda>u. push_last U finish (c'\<lparr>ce_up := u\<rparr>))))))"

definition ce_push :: "spirit \<Rightarrow> 's encoder \<Rightarrow> nat \<Rightarrow> 's chunk_encoder \<Rightarrow> packet \<Rightarrow> nat \<Rightarrow> (ecode \<times> 's chunk_encoder) hresult" where
  "ce_push H U granula c p off =
     (if p_size p \<le> off then Inl AssertFailed
      else (let c' = c\<lparr>ce_chunks := ce_chunks c @ [(p, off)], ce_size := ce_size c + (p_size p - off)\<rparr> in
        if granula \<le> ce_size c' then push2Upstream H U False c' else Inr (NoError, c')))"

definition ce_flush :: "spirit \<Rightarrow> 's encoder \<Rightarrow> 's chunk_encoder \<Rightarrow> (ecode \<times> 's chunk_encoder) hresult" where
  "ce_flush H U c = if_ok (push2Upstream H U True c) (\<lambda>ec c'. Inr (ec, c'))
     (\<lambda>c'. hbind (d_flush U (ce_up c')) (\<lambda>(ec, u). Inr (ec, c'\<lparr>ce_up := u\<rparr>)))"

fun ce_push_all :: "spirit \<Rightarrow> 's encoder \<Rightarrow> nat \<Rightarrow> 's chunk_encoder \<Rightarrow> packet list \<Rightarrow> (ecode \<times> 's chunk_encoder) hresult" where
  "ce_push_all H U g c [] = Inr (NoError, c)"
| "ce_push_all H U g c (p # ps) = if_ok (ce_push H U g c p 0) (\<lambda>ec c'. Inr (ec, c')) (\<lambda>c'. ce_push_all H U g c' ps)"

subsection \<open>The writer\<close>

text \<open>The channel is a parameter: \<open>send\<close> takes the buffers and gives an error code.\<close>

record 'ch writer =
  w_channel :: 'ch
  w_buffers :: "string list"
  w_packets :: "packet list"
  w_size :: nat

definition w_flush :: "('ch \<Rightarrow> string list \<Rightarrow> packet list \<Rightarrow> ecode \<times> 'ch) \<Rightarrow> 'ch writer \<Rightarrow> (ecode \<times> 'ch writer) hresult" where
  "w_flush send w = (if w_size w \<noteq> 0
     then (case send (w_channel w) (w_buffers w) (w_packets w) of (ec, ch) \<Rightarrow>
       Inr (ec, \<lparr>w_channel = ch, w_buffers = [], w_packets = [], w_size = 0\<rparr>))
     else Inr (NoError, w))"

definition w_push :: "('ch \<Rightarrow> string list \<Rightarrow> packet list \<Rightarrow> ecode \<times> 'ch) \<Rightarrow> nat \<Rightarrow> 'ch writer \<Rightarrow> packet \<Rightarrow> nat \<Rightarrow> (ecode \<times> 'ch writer) hresult" where
  "w_push send granula w p off =
     (if p_size p \<le> off then Inl AssertFailed
      else (let w' = w\<lparr>w_buffers := w_buffers w @ [payload_of p off], w_size := w_size w + (p_size p - off),
                       w_packets := w_packets w @ [p]\<rparr> in
        if granula \<le> w_size w' then w_flush send w' else Inr (NoError, w')))"

definition writer_encoder :: "('ch \<Rightarrow> string list \<Rightarrow> packet list \<Rightarrow> ecode \<times> 'ch) \<Rightarrow> nat \<Rightarrow> 'ch writer encoder" where
  "writer_encoder send granula = \<lparr>d_push = w_push send granula, d_flush = w_flush send\<rparr>"

text \<open>A channel that is open: what is sent arrives in order.\<close>

definition open_send :: "string \<Rightarrow> string list \<Rightarrow> packet list \<Rightarrow> ecode \<times> string" where
  "open_send sent bufs ps = (NoError, sent @ concat bufs)"

definition writer_ok :: "string writer \<Rightarrow> bool" where
  "writer_ok w \<longleftrightarrow> w_size w = length (concat (w_buffers w))"

definition written :: "string writer \<Rightarrow> string" where
  "written w = w_channel w @ concat (w_buffers w)"

lemma w_flush_ok:
  "writer_ok w \<Longrightarrow> \<exists>w'. w_flush open_send w = Inr (NoError, w') \<and> writer_ok w' \<and> written w' = written w"
  by (auto simp: w_flush_def open_send_def writer_ok_def written_def)

lemma length_payload_of: "packet_ok p off \<Longrightarrow> length (payload_of p off) = p_size p - off"
  by (simp add: packet_ok_def payload_of_def)

lemma w_push_ok:
  assumes "writer_ok w" "packet_ok p off"
  shows "\<exists>w'. w_push open_send g w p off = Inr (NoError, w') \<and> writer_ok w' \<and> written w' = written w @ payload_of p off"
proof -
  define w1 where "w1 = w\<lparr>w_buffers := w_buffers w @ [payload_of p off], w_size := w_size w + (p_size p - off),
      w_packets := w_packets w @ [p]\<rparr>"
  have "writer_ok w1" "written w1 = written w @ payload_of p off"
    using assms length_payload_of [OF assms(2)] by (simp_all add: w1_def writer_ok_def written_def)
  moreover have "w_push open_send g w p off = (if g \<le> w_size w1 then w_flush open_send w1 else Inr (NoError, w1))"
    using assms(2) by (simp add: w_push_def w1_def packet_ok_def Let_def)
  ultimately show ?thesis using w_flush_ok [of w1] by auto
qed

interpretation writer_sink: content_sink "writer_encoder open_send g" writer_ok written for g
  by unfold_locales (simp_all add: writer_encoder_def w_flush_ok w_push_ok)

subsection \<open>What the encoder writes\<close>

definition chunk_of :: "spirit \<Rightarrow> string \<Rightarrow> string" where
  "chunk_of H c = hex_gen H (length c) @ crlf @ c @ crlf"

definition pending :: "'s chunk_encoder \<Rightarrow> string" where
  "pending c = concat (map (\<lambda>(p, off). payload_of p off) (ce_chunks c))"

definition ce_ok :: "'s chunk_encoder \<Rightarrow> bool" where
  "ce_ok c \<longleftrightarrow> ce_size c = length (pending c) \<and> (\<forall>(p, off)\<in>set (ce_chunks c). packet_ok p off)"

lemma header_packet_ok:
  assumes "spirit_hex H" "n < 2 ^ 64"
  obtains h where "header_packet H n = Inr h" "packet_ok h 0" "payload_of h 0 = hex_gen H n @ crlf"
proof -
  have "length (hex_gen H n) \<le> 16" using assms by (auto simp: spirit_hex_def)
  then show ?thesis
    by (intro that [of "\<lparr>p_data = (hex_gen H n @ crlf) @ replicate (34 - length (hex_gen H n @ crlf)) (CHR 0x00),
        p_size = length (hex_gen H n @ crlf)\<rparr>"])
       (simp_all add: header_packet_def packet_ok_def payload_of_def crlf_def)
qed

lemma static_packets_ok:
  "packet_ok crlfPacket 0" "payload_of crlfPacket 0 = crlf"
  "packet_ok lastChunkPacket 0" "payload_of lastChunkPacket 0 = CHR ''0'' # crlf @ crlf"
  by (simp_all add: crlfPacket_def lastChunkPacket_def initPacket_def packet_ok_def payload_of_def crlf_def)

context content_sink
begin

lemma push_chunks_ok:
  assumes "inv u" "\<forall>(p, off)\<in>set cs. packet_ok p off"
  shows "\<exists>u'. push_chunks D u cs = Inr (NoError, u') \<and> inv u' \<and>
     content u' = content u @ concat (map (\<lambda>(p, off). payload_of p off) cs)"
  using assms
proof (induction cs arbitrary: u)
  case (Cons x cs)
  obtain p off where x: "x = (p, off)" by (cases x)
  obtain u1 where "d_push D u p off = Inr (NoError, u1)" "inv u1" "content u1 = content u @ payload_of p off"
    using push_sink [of u p off] Cons.prems x by auto
  then show ?case using Cons.IH [of u1] Cons.prems(2) x by auto
qed simp

lemma push2Upstream_ok:
  assumes "spirit_hex H" "inv (ce_up c)" "ce_ok c" "length (pending c) < 2 ^ 64"
  shows "\<exists>c'. push2Upstream H D fin c = Inr (NoError, c') \<and> inv (ce_up c') \<and> ce_ok c' \<and> pending c' = [] \<and>
     content (ce_up c') = content (ce_up c) @ (if pending c = [] then [] else chunk_of H (pending c)) @
       (if fin then CHR ''0'' # crlf @ crlf else [])"
proof -
  have last: "\<exists>c'. push_last D fin d = Inr (NoError, c') \<and> inv (ce_up c') \<and> ce_ok c' \<and> pending c' = [] \<and>
     content (ce_up c') = content (ce_up d) @ (if fin then CHR ''0'' # crlf @ crlf else [])"
    if "inv (ce_up d)" "ce_ok d" "pending d = []" for d
    using push_sink [OF that(1) static_packets_ok(3)] that
    by (cases fin) (auto simp: push_last_def static_packets_ok ce_ok_def pending_def)
  show ?thesis
  proof (cases "ce_size c = 0")
    case True
    then have "pending c = []" using assms(3) by (simp add: ce_ok_def)
    then show ?thesis using last [OF assms(2,3)] True by (simp add: push2Upstream_def)
  next
    case False
    have n: "ce_size c = length (pending c)" "pending c \<noteq> []" "\<forall>(p, off)\<in>set (ce_chunks c). packet_ok p off"
      using assms(3) False by (auto simp: ce_ok_def)
    obtain h where h: "header_packet H (ce_size c) = Inr h" "packet_ok h 0" "payload_of h 0 = hex_gen H (ce_size c) @ crlf"
      using header_packet_ok [OF assms(1)] assms(4) n(1) by metis
    obtain u1 where u1: "d_push D (ce_up c) h 0 = Inr (NoError, u1)" "inv u1" "content u1 = content (ce_up c) @ payload_of h 0"
      using push_sink [OF assms(2) h(2)] by blast
    obtain u2 where u2: "push_chunks D u1 (ce_chunks c) = Inr (NoError, u2)" "inv u2" "content u2 = content u1 @ pending c"
      using push_chunks_ok [OF u1(2) n(3)] by (auto simp: pending_def)
    obtain u3 where u3: "d_push D u2 crlfPacket 0 = Inr (NoError, u3)" "inv u3" "content u3 = content u2 @ crlf"
      using push_sink [OF u2(2) static_packets_ok(1)] by (auto simp: static_packets_ok)
    let ?c = "c\<lparr>ce_chunks := [], ce_size := 0, ce_up := u3\<rparr>"
    have "push2Upstream H D fin c = push_last D fin ?c"
      using False h(1) u1(1) u2(1) u3(1) by (simp add: push2Upstream_def)
    moreover have "inv (ce_up ?c)" "ce_ok ?c" "pending ?c = []" using u3(2) by (simp_all add: ce_ok_def pending_def)
    ultimately show ?thesis using last [of ?c] u1(3) u2(3) u3(3) h(3) n(1,2) by (simp add: chunk_of_def)
  qed
qed

lemma ce_push_ok:
  assumes "spirit_hex H" "inv (ce_up c)" "ce_ok c" "packet_ok p off" "length (pending c @ payload_of p off) < 2 ^ 64"
  shows "\<exists>c'. ce_push H D g c p off = Inr (NoError, c') \<and> inv (ce_up c') \<and> ce_ok c' \<and>
     (content (ce_up c') = content (ce_up c) \<and> pending c' = pending c @ payload_of p off \<and> length (pending c') < g \<or>
      content (ce_up c') = content (ce_up c) @ chunk_of H (pending c @ payload_of p off) \<and> pending c' = [])"
proof -
  define d where "d = c\<lparr>ce_chunks := ce_chunks c @ [(p, off)], ce_size := ce_size c + (p_size p - off)\<rparr>"
  have d: "ce_ok d" "pending d = pending c @ payload_of p off" "ce_up d = ce_up c"
    using assms(3,4) length_payload_of [OF assms(4)] by (auto simp: d_def ce_ok_def pending_def)
  then have size: "ce_size d = length (pending c @ payload_of p off)" by (simp add: ce_ok_def)
  have ne: "payload_of p off \<noteq> []" using assms(4) by (auto simp: packet_ok_def payload_of_def)
  have push: "ce_push H D g c p off = (if g \<le> ce_size d then push2Upstream H D False d else Inr (NoError, d))"
    using assms(4) by (simp add: ce_push_def d_def packet_ok_def Let_def)
  show ?thesis
  proof (cases "g \<le> ce_size d")
    case True
    then show ?thesis using push2Upstream_ok [of H d False] assms(1,2,5) d ne push by auto
  next
    case False
    then show ?thesis using assms(2) d push size by auto
  qed
qed

text \<open>The whole encoder: some division of the body into chunks that are not empty.\<close>

lemma encoder_writes:
  assumes "spirit_hex H" "inv (ce_up c)" "ce_ok c" "\<forall>p\<in>set ps. packet_ok p 0"
    "length (pending c @ all_bytes ps) < 2 ^ 64"
  shows "\<exists>c1 c2 gs. ce_push_all H D g c ps = Inr (NoError, c1) \<and> ce_flush H D c1 = Inr (NoError, c2) \<and>
     inv (ce_up c2) \<and> (\<forall>x\<in>set gs. x \<noteq> []) \<and> concat gs = pending c @ all_bytes ps \<and>
     content (ce_up c2) = content (ce_up c) @ concat (map (chunk_of H) gs) @ CHR ''0'' # crlf @ crlf"
  using assms(2-)
proof (induction ps arbitrary: c)
  case Nil
  obtain c1 where c1: "push2Upstream H D True c = Inr (NoError, c1)" "inv (ce_up c1)"
    "content (ce_up c1) = content (ce_up c) @ (if pending c = [] then [] else chunk_of H (pending c)) @ CHR ''0'' # crlf @ crlf"
    using push2Upstream_ok [OF assms(1) Nil.prems(1,2), of True] Nil.prems(4) by auto
  obtain u where "d_flush D (ce_up c1) = Inr (NoError, u)" "inv u" "content u = content (ce_up c1)"
    using flush_sink [OF c1(2)] by blast
  then show ?case using c1
    by (intro exI [of _ c] exI [of _ "c1\<lparr>ce_up := u\<rparr>"] exI [of _ "if pending c = [] then [] else [pending c]"])
       (simp add: ce_flush_def all_bytes_def)
next
  case (Cons p ps)
  obtain c1 where c1: "ce_push H D g c p 0 = Inr (NoError, c1)" "inv (ce_up c1)" "ce_ok c1"
    "content (ce_up c1) = content (ce_up c) \<and> pending c1 = pending c @ payload_of p 0 \<or>
      content (ce_up c1) = content (ce_up c) @ chunk_of H (pending c @ payload_of p 0) \<and> pending c1 = []"
    using ce_push_ok [OF assms(1) Cons.prems(1,2), of p 0 g] Cons.prems(3,4) by (auto simp: all_bytes_def)
  have "length (pending c1 @ all_bytes ps) < 2 ^ 64" using c1(4) Cons.prems(4) by (auto simp: all_bytes_def)
  then obtain c2 c3 gs where *: "ce_push_all H D g c1 ps = Inr (NoError, c2)" "ce_flush H D c2 = Inr (NoError, c3)"
    "inv (ce_up c3)" "\<forall>x\<in>set gs. x \<noteq> []" "concat gs = pending c1 @ all_bytes ps"
    "content (ce_up c3) = content (ce_up c1) @ concat (map (chunk_of H) gs) @ CHR ''0'' # crlf @ crlf"
    using Cons.IH [OF c1(2,3)] Cons.prems(3) by auto
  have ne: "payload_of p 0 \<noteq> []" using Cons.prems(3) by (auto simp: packet_ok_def payload_of_def)
  show ?case
    using c1(4)
  proof
    assume "content (ce_up c1) = content (ce_up c) \<and> pending c1 = pending c @ payload_of p 0"
    then show ?thesis using * c1(1)
      by (intro exI [of _ c2] exI [of _ c3] exI [of _ gs]) (simp add: all_bytes_def)
  next
    assume "content (ce_up c1) = content (ce_up c) @ chunk_of H (pending c @ payload_of p 0) \<and> pending c1 = []"
    then show ?thesis using * c1(1) ne
      by (intro exI [of _ c2] exI [of _ c3] exI [of _ "(pending c @ payload_of p 0) # gs"]) (simp add: all_bytes_def)
  qed
qed

end

lemma chunks_wire:
  assumes "spirit_hex H" "\<forall>x\<in>set gs. x \<noteq> []" "length (concat gs) < 2 ^ 64"
  shows "chunks (concat (map (chunk_of H) gs) @ CHR ''0'' # crlf @ crlf @ T) (concat gs) T"
  using assms(2,3)
proof (induction gs)
  case Nil
  have "cap_ok ''0'' 0" by (simp add: cap_ok_def is_hex_def hex_val_def no_cr_def hex_value_def)
  from chunks_last [OF this trailers_end [of T]] show ?case by simp
next
  case (Cons x gs)
  have n: "length x < 2 ^ 64" using Cons.prems(2) by simp
  then have h: "hex_gen H (length x) \<noteq> []" "length (hex_gen H (length x)) \<le> 16"
    "\<forall>c\<in>set (hex_gen H (length x)). is_hex c" "hex_value (hex_gen H (length x)) = length x"
    using assms(1) by (auto simp: spirit_hex_def list_all_iff)
  then have "cap_ok (hex_gen H (length x)) (length x)"
    using n by (auto simp: cap_ok_def no_cr_def takeWhile_eq_all_conv [THEN iffD2])
  from chunks_more [OF this _ Cons.IH] show ?case using Cons.prems by (simp add: chunk_of_def)
qed

subsection \<open>A carriage return alone\<close>

lemma caption_lone_cr: "spirit_hex H \<Longrightarrow> caption_parse H [CHR 0x0D] = (True, None, None)"
  by (simp add: caption_parse_def after_crlf_def crlf_def spirit_hex_def)

context extraction
begin

lemma lone_cr_after_body:
  assumes "spirit_hex H" "ext_ok e" "kind e = ChunkedBody EsBody (length c)" "c \<noteq> []"
    "acc_content (strm e) = c @ [CHR 0x0D]"
  shows "\<exists>e'. process_all H DB DT e = Inr (BadMessage, e')"
  using assms(2-)
proof (induction "length c" arbitrary: c e rule: less_induct)
  case less
  have n: "0 < length c" and ne: "acc_content (strm e) \<noteq> []" using less.prems(3,4) by simp_all
  from processBody_ok [OF less.prems(1) ne n]
  obtain e1 k where e1: "processBody DB e (length c) = Inr (NoError, e1, length c - k)" "ext_ok e1" "0 < k" "k \<le> length c"
    "acc_content (strm e1) = drop k c @ [CHR 0x0D]"
    using less.prems(4) by (metis diff_is_0_eq drop_0 drop_append)
  define es where "es = (if length c - k = 0 then EsCaption else EsBody)"
  define e2 where "e2 = e1\<lparr>kind := ChunkedBody es (length c - k)\<rparr>"
  have e2: "ext_ok e2" "acc_content (strm e2) = drop k c @ [CHR 0x0D]" using e1(2,5) by (simp_all add: e2_def ext_ok_def)
  have one: "process_one H DB DT e = Inr (NoError, e2)"
    using e1(1) less.prems(2) by (simp add: process_one_def process_chunked_def e2_def es_def)
  have "acc_content (strm e2) = drop k (acc_content (strm e))" using e2(2) less.prems(4) e1(4) by simp
  from process_all_step [OF less.prems(1) ne one e2(1) this e1(3)]
  have step: "process_all H DB DT e = process_all H DB DT e2" .
  show ?case
  proof (cases "k = length c")
    case True
    have ok: "acc_ok (strm e2)" "acc_content (strm e2) = [CHR 0x0D]" using e2 True by (simp_all add: ext_ok_def)
    then obtain i where "acc_end (strm e2) = Inr i" using acc_end_ok [OF ok(1)] by auto
    then have "process_one H DB DT e2 = Inr (BadMessage, e2\<lparr>kind := ChunkedBody EsError (length c - k)\<rparr>)"
      using True ok(2) caption_lone_cr [OF assms(1)]
      by (simp add: process_one_def process_chunked_def e2_def es_def processCaption_def)
    then show ?thesis using step ok acc_size_content [OF ok(1)] by (subst (asm) (2) process_all.simps) simp
  next
    case False
    then have "drop k c \<noteq> []" "length (drop k c) < length c" using e1(3,4) n by auto
    moreover have "kind e2 = ChunkedBody EsBody (length (drop k c))"
      using False e1(4) by (simp add: e2_def es_def)
    ultimately show ?thesis using less.hyps [OF _ e2(1) _ _ e2(2)] step by auto
  qed
qed

lemma chunk_then_lone_cr:
  assumes "spirit_hex H" "ext_ok e" "kind e = ChunkedBody EsCaption n" "acc_content (strm e) = []"
    "cap_ok cap (length c)" "c \<noteq> []" "packet_ok p 0" "payload_of p 0 = cap @ crlf @ c @ [CHR 0x0D]"
  shows "\<exists>e'. read_base H DB DT fin (p # ps) e = Inr (BadMessage, e', ps)"
proof -
  obtain s where s: "acc_push (strm e) p 0 = Inr (NoError, s)" "ext_ok (e\<lparr>strm := s\<rparr>)"
    "acc_content s = payload_of p 0"
    using push_then [OF assms(2,4,7)] .
  let ?e = "e\<lparr>strm := s\<rparr>"
  have ok: "acc_ok s" "acc_content s = ([] @ cap @ crlf) @ (c @ [CHR 0x0D])" "acc_content s \<noteq> []"
    using s assms(8) by (simp_all add: ext_ok_def)
  obtain t where t: "drop_parsed s (c @ [CHR 0x0D]) = Inr t" "acc_ok t" "acc_content t = c @ [CHR 0x0D]"
    using drop_parsed_ok [OF ok] .
  obtain i where "acc_end s = Inr i" using acc_end_ok [OF ok(1,3)] by blast
  moreover have "caption_parse H (acc_content s) = (False, Some (length c), Some (c @ [CHR 0x0D]))"
    using caption_complete [OF assms(1,5), of "[]"] ok(2) by simp
  ultimately have one: "process_one H DB DT ?e = Inr (NoError, ?e\<lparr>strm := t, kind := ChunkedBody EsBody (length c)\<rparr>)"
    using assms(3,6) t(1) by (simp add: process_one_def process_chunked_def processCaption_def)
  have ok1: "ext_ok (?e\<lparr>strm := t, kind := ChunkedBody EsBody (length c)\<rparr>)"
    using s(2) t(2) by (simp add: ext_ok_def)
  have "acc_content (strm (?e\<lparr>strm := t, kind := ChunkedBody EsBody (length c)\<rparr>)) =
      drop (length cap + 2) (acc_content (strm ?e))"
    using t(3) ok(2) by (simp add: crlf_def)
  from process_all_step [OF s(2) _ one ok1 this] ok(3)
  have "process_all H DB DT ?e = process_all H DB DT (?e\<lparr>strm := t, kind := ChunkedBody EsBody (length c)\<rparr>)"
    by simp
  with lone_cr_after_body [OF assms(1) ok1 _ assms(6)] t(3)
  obtain e' where "process_all H DB DT ?e = Inr (BadMessage, e')" by auto
  then show ?thesis using assms(3) s(1) by (simp add: isDone_def)
qed

end

subsection \<open>An instance of the number library\<close>

definition hex_digit :: "nat \<Rightarrow> char" where
  "hex_digit d = char_of (if d < 10 then 48 + d else 87 + d)"

fun hex_text :: "nat \<Rightarrow> string" where
  "hex_text n = (if n < 16 then [hex_digit n] else hex_text (n div 16) @ [hex_digit (n mod 16)])"

declare hex_text.simps [simp del]

definition sample_spirit :: spirit where
  "sample_spirit = \<lparr>hex_uint = (\<lambda>s. let ds = takeWhile is_hex s in
     if ds = [] \<or> 2 ^ 64 \<le> hex_value ds then None else Some (hex_value ds, dropWhile is_hex s)),
     hex_gen = hex_text\<rparr>"

lemma hex_val_digit: "d < 16 \<Longrightarrow> hex_val (hex_digit d) = Some d"
  by (auto simp: hex_val_def hex_digit_def Let_def)

lemma is_hex_digit: "d < 16 \<Longrightarrow> is_hex (hex_digit d)"
  by (simp add: is_hex_def hex_val_digit)

lemma hex_value_text: "hex_value (hex_text n) = n"
proof (induction n rule: hex_text.induct)
  case (1 n)
  then show ?case
    by (subst hex_text.simps) (auto simp: hex_value_def hex_val_digit)
qed

lemma hex_text_is_hex: "list_all is_hex (hex_text n)"
proof (induction n rule: hex_text.induct)
  case (1 n)
  then show ?case by (subst hex_text.simps) (auto simp: is_hex_digit)
qed

lemma hex_text_length: "n < 16 ^ Suc k \<Longrightarrow> hex_text n \<noteq> [] \<and> length (hex_text n) \<le> Suc k"
proof (induction k arbitrary: n)
  case 0
  then show ?case by (simp add: hex_text.simps)
next
  case (Suc k)
  have "n div 16 < 16 ^ Suc k" using Suc.prems by (simp add: less_mult_imp_div_less)
  then show ?case using Suc.IH by (subst (1 2) hex_text.simps) auto
qed

lemma sample_spirit_hex: "spirit_hex sample_spirit"
proof -
  have "hex_text n \<noteq> [] \<and> length (hex_text n) \<le> 16" if "n < 2 ^ 64" for n
    using hex_text_length [of n 15] that by simp
  then show ?thesis
    by (simp add: spirit_hex_def sample_spirit_def hex_value_text hex_text_is_hex)
qed

subsection \<open>Properties\<close>

text \<open>
  C22: the chunked body decoder.  Whatever valid chunked body arrives, with extensions and trailer
  lines, cut into packets in any way that does not end a packet with a carriage return, the
  extractor ends without an error, the decoder gets exactly the bytes of the chunks, and what
  follows the body is in the message and in the packets not received.
\<close>

theorem chunked_body:
  assumes "spirit_hex H" "acc_ok old" "chunks (all_bytes ps) B T"
    "\<forall>p\<in>set ps. packet_ok p 0 \<and> last (payload_of p 0) \<noteq> CHR 0x0D"
  shows "\<exists>e used rest T1. ps = used @ rest \<and> T = T1 @ all_bytes rest \<and>
    read_channel H acc_decoder acc_decoder fin ps (fresh_extractor (ChunkedBody EsCaption 0) old) = Inr (NoError, e, rest) \<and>
    acc_content (bodyd e) = B \<and> acc_content (taild e) = acc_content old @ T1"
proof -
  let ?e = "fresh_extractor (ChunkedBody EsCaption 0) old"
  have "expects EsCaption 0 (acc_content (strm ?e) @ all_bytes ps) B T"
    using assms(3) by (auto simp: expects_def)
  moreover have "ps \<noteq> []" using assms(3) by (auto simp: all_bytes_def crlf_def elim: chunks.cases)
  ultimately show ?thesis
    using msg.read_chunked [OF assms(1), of ?e EsCaption 0 ps B T fin] assms(2,4)
    by (fastforce simp: read_channel_def)
qed

theorem chunked_body_witness:
  "\<exists>e used rest T1. [initPacket (''3;x'' @ crlf @ ''a''), initPacket (''bc'' @ crlf @ ''0'' @ crlf @ crlf)] = used @ rest \<and>
     [] = T1 @ all_bytes rest \<and>
     read_channel sample_spirit acc_decoder acc_decoder EndOfFile
       [initPacket (''3;x'' @ crlf @ ''a''), initPacket (''bc'' @ crlf @ ''0'' @ crlf @ crlf)]
       (fresh_extractor (ChunkedBody EsCaption 0) empty_acc) = Inr (NoError, e, rest) \<and>
     acc_content (bodyd e) = ''abc'' \<and> acc_content (taild e) = acc_content empty_acc @ T1"
proof (rule chunked_body [OF sample_spirit_hex acc_ok_empty])
  have "cap_ok ''3;x'' (length ''abc'')" "cap_ok ''0'' 0"
    by (simp_all add: cap_ok_def is_hex_def hex_val_def no_cr_def hex_value_def)
  from chunks_more [OF this(1) _ chunks_last [OF this(2) trailers_end [of "[]"]]]
  show "chunks (all_bytes [initPacket (''3;x'' @ crlf @ ''a''), initPacket (''bc'' @ crlf @ ''0'' @ crlf @ crlf)])
      ''abc'' []"
    by (simp add: all_bytes_def initPacket_def payload_of_def)
qed (simp add: initPacket_def packet_ok_def payload_of_def crlf_def)

text \<open>
  Encoding and decoding.  What the chunking encoder hands to the writer for any packets,
  with any granularity of both, arrives as a chunked body of exactly the bytes of the packets;
  the extractor returns them however the channel cuts it, a packet ending with a carriage
  return excepted.
\<close>

theorem chunk_roundtrip:
  assumes "spirit_hex H" "\<forall>p\<in>set ps. packet_ok p 0" "length (all_bytes ps) < 2 ^ 64"
  shows "\<exists>c1 c2. ce_push_all H (writer_encoder open_send gw) g
        \<lparr>ce_up = \<lparr>w_channel = [], w_buffers = [], w_packets = [], w_size = 0\<rparr>, ce_chunks = [], ce_size = 0\<rparr> ps =
        Inr (NoError, c1) \<and>
      ce_flush H (writer_encoder open_send gw) c1 = Inr (NoError, c2) \<and>
      (\<forall>qs. all_bytes qs = written (ce_up c2) \<longrightarrow>
         (\<forall>q\<in>set qs. packet_ok q 0 \<and> last (payload_of q 0) \<noteq> CHR 0x0D) \<longrightarrow>
         (\<exists>e rest. read_channel H acc_decoder acc_decoder EndOfFile qs (fresh_extractor (ChunkedBody EsCaption 0) empty_acc) =
            Inr (NoError, e, rest) \<and> acc_content (bodyd e) = all_bytes ps \<and> acc_content (taild e) = []))"
proof -
  let ?u = "\<lparr>w_channel = [], w_buffers = [], w_packets = [], w_size = 0\<rparr> :: string writer"
  let ?c = "\<lparr>ce_up = ?u, ce_chunks = [], ce_size = 0\<rparr>"
  obtain c1 c2 gs where c: "ce_push_all H (writer_encoder open_send gw) g ?c ps = Inr (NoError, c1)"
    "ce_flush H (writer_encoder open_send gw) c1 = Inr (NoError, c2)" "\<forall>x\<in>set gs. x \<noteq> []"
    "concat gs = all_bytes ps" "written (ce_up c2) = concat (map (chunk_of H) gs) @ CHR ''0'' # crlf @ crlf"
    using writer_sink.encoder_writes [OF assms(1), of ?c ps gw g] assms(2,3)
    by (auto simp: writer_ok_def ce_ok_def pending_def written_def)
  have wire: "chunks (written (ce_up c2)) (all_bytes ps) []"
    using chunks_wire [OF assms(1) c(3), of "[]"] assms(3) c(4,5) by simp
  have "\<exists>e rest. read_channel H acc_decoder acc_decoder EndOfFile qs (fresh_extractor (ChunkedBody EsCaption 0) empty_acc) =
      Inr (NoError, e, rest) \<and> acc_content (bodyd e) = all_bytes ps \<and> acc_content (taild e) = []"
    if "all_bytes qs = written (ce_up c2)" "\<forall>q\<in>set qs. packet_ok q 0 \<and> last (payload_of q 0) \<noteq> CHR 0x0D" for qs
    using chunked_body [OF assms(1) acc_ok_empty, of qs "all_bytes ps" "[]" EndOfFile] that wire
    by (auto simp: acc_content_empty)
  with c show ?thesis by blast
qed

theorem chunk_roundtrip_witness:
  "\<exists>c1 c2. ce_push_all sample_spirit (writer_encoder open_send 100) 2
        \<lparr>ce_up = \<lparr>w_channel = [], w_buffers = [], w_packets = [], w_size = 0\<rparr>, ce_chunks = [], ce_size = 0\<rparr>
        [initPacket ''a'', initPacket ''bc''] = Inr (NoError, c1) \<and>
      ce_flush sample_spirit (writer_encoder open_send 100) c1 = Inr (NoError, c2) \<and>
      (\<forall>qs. all_bytes qs = written (ce_up c2) \<longrightarrow>
         (\<forall>q\<in>set qs. packet_ok q 0 \<and> last (payload_of q 0) \<noteq> CHR 0x0D) \<longrightarrow>
         (\<exists>e rest. read_channel sample_spirit acc_decoder acc_decoder EndOfFile qs
              (fresh_extractor (ChunkedBody EsCaption 0) empty_acc) = Inr (NoError, e, rest) \<and>
            acc_content (bodyd e) = ''abc'' \<and> acc_content (taild e) = []))"
  using chunk_roundtrip [OF sample_spirit_hex, of "[initPacket ''a'', initPacket ''bc'']" 100 2]
  by (simp add: initPacket_def packet_ok_def all_bytes_def payload_of_def)

text \<open>
  C40: a packet that ends between the carriage return and the line feed behind a chunk is
  answered with \<open>bad_message\<close>, whatever follows: the optional line end does not match, the size
  is not a number, and the end of input is not reached.
\<close>

theorem chunk_cr_split:
  assumes "spirit_hex H" "acc_ok old" "cap_ok cap (length c)" "c \<noteq> []" "packet_ok p 0"
    "payload_of p 0 = cap @ crlf @ c @ [CHR 0x0D]"
  shows "\<exists>e. read_channel H acc_decoder acc_decoder fin (p # ps) (fresh_extractor (ChunkedBody EsCaption 0) old) =
    Inr (BadMessage, e, ps)"
  using msg.chunk_then_lone_cr [OF assms(1) _ _ _ assms(3-6), of "fresh_extractor (ChunkedBody EsCaption 0) old" 0 fin ps]
    assms(2) by (simp add: read_channel_def)

theorem chunk_cr_split_witness:
  "\<exists>e. read_channel sample_spirit acc_decoder acc_decoder EndOfFile
     (initPacket (''1'' @ crlf @ ''a'' @ [CHR 0x0D]) # [initPacket (CHR 0x0A # ''0'' @ crlf @ crlf)])
     (fresh_extractor (ChunkedBody EsCaption 0) empty_acc) =
     Inr (BadMessage, e, [initPacket (CHR 0x0A # ''0'' @ crlf @ crlf)])"
  by (rule chunk_cr_split [OF sample_spirit_hex acc_ok_empty, of "''1''" "''a''"])
     (simp_all add: cap_ok_def is_hex_def hex_val_def no_cr_def hex_value_def initPacket_def packet_ok_def payload_of_def crlf_def)

end
