(* ===== verification/HttpHeaders.thy ===== *)
theory HttpHeaders
  imports Prelude
begin

text \<open>
  Header names and values: the case-insensitive hash that is the key of a header
  (http/headerName.hpp, http/impl/headerName.hpp) and the parsers of the header values that
  decide how a body is framed (http/headerValue_parsers.cpp).  Boost's \<open>hash_combine\<close> and
  Spirit's number parsers are parameters.
\<close>

subsection \<open>The key of a header name\<close>

definition is_upper :: "char \<Rightarrow> bool" where
  "is_upper c \<longleftrightarrow> (let n = of_char c :: nat in 65 \<le> n \<and> n \<le> 90)"

definition to_lower :: "char \<Rightarrow> char" where
  "to_lower c = (if is_upper c then char_of ((of_char c :: nat) + 32) else c)"

text \<open>\<open>char\<close> is signed; converted to \<open>size_t\<close> it is extended with its sign.\<close>

definition char_size_t :: "char \<Rightarrow> u64" where
  "char_size_t c = scast (byte_of c)"

definition hash_combine :: "u64 \<Rightarrow> u64 \<Rightarrow> u64" where
  "hash_combine seed v = seed XOR (v + 0x9e3779b9 + push_bit 6 seed + drop_bit 2 seed)"

text \<open>The run time hash over any characters, with Boost's \<open>hash_combine\<close> for a \<open>char\<close>, and the
  compile time hash of a declared name, which is folded over its lower-case letters.\<close>

fun hn_key_loop :: "(u64 \<Rightarrow> char \<Rightarrow> u64) \<Rightarrow> u64 \<Rightarrow> string \<Rightarrow> u64" where
  "hn_key_loop hc seed [] = seed"
| "hn_key_loop hc seed (c # cs) = hn_key_loop hc (hc seed (to_lower c)) cs"

definition hn_key :: "(u64 \<Rightarrow> char \<Rightarrow> u64) \<Rightarrow> string \<Rightarrow> u64" where
  "hn_key hc s = hn_key_loop hc 0 s"

definition mpl_lower :: "char \<Rightarrow> char" where
  "mpl_lower c = (if is_upper c then char_of ((of_char c :: nat) + 32) else c)"

definition hash_string :: "string \<Rightarrow> u64" where
  "hash_string s = foldl (\<lambda>seed c. hash_combine seed (char_size_t c)) 0 s"

definition instance_key :: "string \<Rightarrow> u64" where
  "instance_key s = hash_string (map mpl_lower s)"

definition boost_hash :: "(u64 \<Rightarrow> char \<Rightarrow> u64) \<Rightarrow> bool" where
  "boost_hash hc \<longleftrightarrow> (\<forall>seed c. hc seed c = hash_combine seed (char_size_t c))"

lemma hn_key_hash: "boost_hash hc \<Longrightarrow> hn_key hc s = hash_string (map to_lower s)"
proof -
  assume hc: "boost_hash hc"
  have "hn_key_loop hc seed s = foldl (\<lambda>seed c. hash_combine seed (char_size_t c)) seed (map to_lower s)" for seed
    using hc by (induction s arbitrary: seed) (simp_all add: boost_hash_def)
  then show ?thesis by (simp add: hn_key_def hash_string_def)
qed

subsection \<open>The values\<close>

type_synonym flags = "32 word"

definition ece_identity :: flags where "ece_identity = 2"
definition ece_gzip :: flags where "ece_gzip = 4"
definition ece_compress :: flags where "ece_compress = 8"
definition ece_deflate :: flags where "ece_deflate = 16"
definition ece_any :: flags where "ece_any = ece_identity OR ece_gzip OR ece_compress OR ece_deflate"

definition ete_identity :: flags where "ete_identity = 2"
definition ete_chunked :: flags where "ete_chunked = 4"
definition ete_gzip :: flags where "ete_gzip = 8"
definition ete_compress :: flags where "ete_compress = 16"
definition ete_deflate :: flags where "ete_deflate = 32"
definition ete_any :: flags where "ete_any = ete_deflate OR ete_compress OR ete_gzip OR ete_chunked"

datatype econnection = EcUnknown | EcKeepAlive | EcClose

text \<open>The number parsers: a decimal \<open>size_t\<close>, and a \<open>double\<close>, of which the grammar only asks
  whether it is positive.  Each gives the rest of the input.\<close>

record hvlib =
  dec_uint :: "string \<Rightarrow> (nat \<times> string) option"
  dec_positive :: "string \<Rightarrow> (bool \<times> string) option"

definition parse_unsigned :: "hvlib \<Rightarrow> string \<Rightarrow> nat option" where
  "parse_unsigned V s = map_option fst (dec_uint V s)"

definition starts :: "string \<Rightarrow> string \<Rightarrow> bool" where
  "starts p s \<longleftrightarrow> take (length p) s = p"

definition parse_connection :: "string \<Rightarrow> econnection option" where
  "parse_connection s =
     (if starts ''close'' (map to_lower s) then Some EcClose
      else if starts ''keep-alive'' (map to_lower s) then Some EcKeepAlive else None)"

definition skip :: "string \<Rightarrow> string \<Rightarrow> string" where
  "skip cs s = dropWhile (\<lambda>c. c \<in> set cs) s"

text \<open>\<open>;q=<double>\<close> with blanks anywhere but in front of the number.\<close>

definition expect :: "char \<Rightarrow> string \<Rightarrow> string option" where
  "expect c s = (case s of [] \<Rightarrow> None | d # r \<Rightarrow> if d = c then Some r else None)"

definition item_weight :: "hvlib \<Rightarrow> string \<Rightarrow> (bool \<times> string) option" where
  "item_weight V s = Option.bind (expect (CHR '';'') (skip '' '' s)) (\<lambda>s1.
     Option.bind (expect (CHR ''q'') (skip '' '' s1)) (\<lambda>s2.
     Option.bind (expect (CHR ''='') (skip '' '' s2)) (\<lambda>s3. dec_positive V (skip '' '' s3))))"

text \<open>The alternatives of a coding are tried in order; the first that is a prefix is taken.\<close>

fun coding :: "(string \<times> flags) list \<Rightarrow> string \<Rightarrow> (flags \<times> string) option" where
  "coding [] s = None"
| "coding ((name, e) # tab) s =
     (if starts name s then Some (e, drop (length name) s) else coding tab s)"

definition coding_item :: "hvlib \<Rightarrow> (string \<times> flags) list \<Rightarrow> flags \<Rightarrow> string \<Rightarrow> (flags \<times> string) option" where
  "coding_item V tab v s = (case coding tab s of None \<Rightarrow> None
     | Some (e, s1) \<Rightarrow>
         let s2 = skip '' '' s1;
             (pos, s3) = (case item_weight V s2 of Some r \<Rightarrow> r | None \<Rightarrow> (True, s2)) in
         Some (if pos then v OR e else v AND NOT e, skip '' ,'' s3))"

text \<open>One or more items; a round that does not get on ends the loop.\<close>

function coding_items :: "hvlib \<Rightarrow> (string \<times> flags) list \<Rightarrow> flags \<Rightarrow> string \<Rightarrow> flags" where
  "coding_items V tab v s = (case coding_item V tab v s of None \<Rightarrow> v
     | Some (v', s') \<Rightarrow> if length s' < length s then coding_items V tab v' s' else v')"
  by auto
termination by (relation "measure (\<lambda>(V, tab, v, s). length s)") auto

declare coding_items.simps [simp del]

definition parse_coding :: "hvlib \<Rightarrow> (string \<times> flags) list \<Rightarrow> string \<Rightarrow> flags option" where
  "parse_coding V tab s =
     (if coding_item V tab 0 s = None then None else Some (coding_items V tab 0 s))"

definition te_table :: "(string \<times> flags) list" where
  "te_table = [(''deflate'', ete_deflate), (''gzip'', ete_gzip), (''compress'', ete_compress),
     (''chunked'', ete_chunked), (''identity'', ete_identity), (''*'', ete_any)]"

definition ce_table :: "(string \<times> flags) list" where
  "ce_table = [(''deflate'', ece_deflate), (''gzip'', ece_gzip), (''compress'', ece_compress),
     (''identity'', ece_identity), (''*'', ece_any)]"

definition parse_te :: "hvlib \<Rightarrow> string \<Rightarrow> flags option" where
  "parse_te V s = parse_coding V te_table s"

definition parse_ce :: "hvlib \<Rightarrow> string \<Rightarrow> flags option" where
  "parse_ce V s = parse_coding V ce_table s"

subsection \<open>Properties\<close>

text \<open>
  A header is found by its declared name whatever the case of its letters in the message:
  the run time key of the name is the compile time key of the declaration.
\<close>

theorem header_key_case:
  assumes "boost_hash hc" "map to_lower s = map to_lower name"
  shows "hn_key hc s = instance_key name"
proof -
  have "mpl_lower = to_lower" by (rule ext) (simp add: mpl_lower_def to_lower_def)
  then show ?thesis using hn_key_hash [OF assms(1)] assms(2) by (simp add: instance_key_def)
qed

theorem header_key_case_witness:
  "hn_key (\<lambda>seed c. hash_combine seed (char_size_t c)) ''cONTENT-lENGTH'' = instance_key ''Content-Length''"
  by (rule header_key_case, simp add: boost_hash_def, code_simp)

end
