(* ===== verification/HttpMessage.thy ===== *)
theory HttpMessage
  imports HttpChunked HttpHeaders
begin

text \<open>
  Reading an HTTP message (http/impl/inputMessage.cpp): the first line, the headers and the
  body are read in that order from the packets of a channel, lines are looked for by a
  finder that keeps its position between buffers, and the body goes through the extractor
  that the headers ask for.

  The channel is the packets still to be received and the error code after them.  Two
  iterators are equal if they stand at the same place of the same buffer.
\<close>

subsection \<open>The state of a message\<close>

type_synonym segment = "iter \<times> iter"

definition no_segment :: segment where
  "no_segment = (null_iter, null_iter)"

definition seg_empty :: "segment \<Rightarrow> bool" where
  "seg_empty s \<longleftrightarrow> fst s = snd s"

datatype emode = EmFirstLine | EmHeaders | EmBody | EmDone

fun em_num :: "emode \<Rightarrow> nat" where
  "em_num EmFirstLine = 1" | "em_num EmHeaders = 2" | "em_num EmBody = 3" | "em_num EmDone = 4"

record sheader =
  h_header :: segment
  h_name :: segment
  h_value :: segment

record message =
  m_mode :: emode
  m_acc :: accumuler
  m_body_acc :: "accumuler option"
  m_pos :: iter
  m_first :: segment
  m_headers :: segment
  m_body :: segment
  m_map :: "(u64 \<times> sheader) list"
  m_version :: "u16 \<times> u16"
  m_in :: "packet list"

definition new_message :: "packet list \<Rightarrow> message" where
  "new_message ps = \<lparr>m_mode = EmFirstLine, m_acc = empty_acc, m_body_acc = None, m_pos = null_iter,
     m_first = no_segment, m_headers = no_segment, m_body = no_segment, m_map = [], m_version = (0, 0),
     m_in = ps\<rparr>"

subsection \<open>Receiving a buffer\<close>

definition readBuffer :: "ecode \<Rightarrow> message \<Rightarrow> (ecode \<times> segment \<times> message) hresult" where
  "readBuffer fin m = (case m_in m of
       [] \<Rightarrow> Inr (fin, no_segment, m)
     | p # ps \<Rightarrow>
         hbind (acc_push (m_acc m) p 0) (\<lambda>(ec, c).
           let m' = m\<lparr>m_acc := c, m_in := ps\<rparr> in
           if ec \<noteq> NoError then Inr (ec, no_segment, m')
           else hbind (acc_end c) (\<lambda>e. case last_ptr (m_acc m) of
               Some a \<Rightarrow> (case from_buf a (chain c) of
                   [] \<Rightarrow> Inl Dangling
                 | [l] \<Rightarrow> Inl AssertFailed
                 | l # n # _ \<Rightarrow> Inr (NoError, (\<lparr>it_buf = Some (addr n), it_pos = b_begin n\<rparr>, e), m'))
             | None \<Rightarrow> Inr (NoError, (acc_begin c, e), m'))))"

subsection \<open>Looking for a token\<close>

text \<open>The finder is its position in the token and the place where the token began.  The loop
  over the segment takes a step of the iterator in each round; \<open>n\<close> bounds the rounds.\<close>

fun tok_loop :: "accumuler \<Rightarrow> string \<Rightarrow> nat \<Rightarrow> nat \<Rightarrow> iter \<Rightarrow> iter \<Rightarrow> iter \<Rightarrow> (bool \<times> segment \<times> nat \<times> iter) hresult" where
  "tok_loop c tok 0 tp bg i j = Inl AssertFailed"
| "tok_loop c tok (Suc n) tp bg i j =
     (if i = j then Inr (False, (j, j), tp, bg)
      else hbind (dereference c i) (\<lambda>ch.
        if tok ! tp = ch
        then (let bg' = (if tp = 0 then i else bg) in
          if Suc tp = length tok then hbind (increment c i) (\<lambda>i'. Inr (True, (bg', i'), Suc tp, bg'))
          else hbind (increment c i) (\<lambda>i'. tok_loop c tok n (Suc tp) bg' i' j))
        else hbind (increment c i) (\<lambda>i'. tok_loop c tok n 0 bg i' j)))"

definition tok_find :: "accumuler \<Rightarrow> string \<Rightarrow> nat \<Rightarrow> iter \<Rightarrow> segment \<Rightarrow> (bool \<times> segment \<times> nat \<times> iter) hresult" where
  "tok_find c tok tp bg s = tok_loop c tok (Suc (length (acc_content c))) tp bg (fst s) (snd s)"

fun read_more :: "ecode \<Rightarrow> string \<Rightarrow> packet list \<Rightarrow> nat \<Rightarrow> iter \<Rightarrow> segment \<Rightarrow> message \<Rightarrow> (ecode \<times> segment \<times> message) hresult" where
  "read_more fin tok [] tp bg seg m = Inr (fin, seg, m)"
| "read_more fin tok (p # ps) tp bg seg m =
     hbind (readBuffer fin m) (\<lambda>(ec, lseg, m').
       if ec \<noteq> NoError then Inr (ec, seg, m')
       else (let seg' = (if seg_empty seg then lseg else seg) in
         hbind (tok_find (m_acc m') tok tp bg lseg) (\<lambda>(found, l, tp', bg').
           if found then hbind (normalize (m_acc m') (fst seg')) (\<lambda>b. Inr (NoError, (b, fst l), m'))
           else read_more fin tok ps tp' bg' seg' m')))"

definition readUntil :: "ecode \<Rightarrow> string \<Rightarrow> segment \<Rightarrow> message \<Rightarrow> (ecode \<times> segment \<times> message) hresult" where
  "readUntil fin tok seg m =
     (if seg_empty seg then read_more fin tok (m_in m) 0 null_iter seg m
      else hbind (tok_find (m_acc m) tok 0 null_iter seg) (\<lambda>(found, l, tp, bg).
        if found then hbind (normalize (m_acc m) (fst seg)) (\<lambda>b. Inr (NoError, (b, fst l), m))
        else read_more fin tok (m_in m) tp bg seg m))"

subsection \<open>First line and headers\<close>

definition readFirstLine :: "ecode \<Rightarrow> message \<Rightarrow> (ecode \<times> message) hresult" where
  "readFirstLine fin m =
     (if m_mode m = EmFirstLine
      then hbind (readUntil fin crlf (m_first m) m) (\<lambda>(ec, seg, m').
        let m1 = m'\<lparr>m_first := seg\<rparr> in
        if ec \<noteq> NoError then Inr (ec, m1)
        else hbind (advance (m_acc m1) (snd seg) 2) (\<lambda>p. Inr (NoError, m1\<lparr>m_pos := p, m_mode := EmHeaders\<rparr>)))
      else Inr (NoError, m))"

text \<open>The text of a segment, as the parsers that walk over it see it.\<close>

fun seg_loop :: "accumuler \<Rightarrow> nat \<Rightarrow> iter \<Rightarrow> iter \<Rightarrow> string hresult" where
  "seg_loop c 0 i j = Inl AssertFailed"
| "seg_loop c (Suc n) i j =
     (if i = j then Inr []
      else hbind (dereference c i) (\<lambda>ch. hbind (increment c i) (\<lambda>i'. hbind (seg_loop c n i' j) (\<lambda>s. Inr (ch # s)))))"

definition seg_text :: "accumuler \<Rightarrow> segment \<Rightarrow> string hresult" where
  "seg_text c s = seg_loop c (Suc (length (acc_content c))) (fst s) (snd s)"

definition is_space :: "char \<Rightarrow> bool" where
  "is_space c \<longleftrightarrow> (let n = of_char c :: nat in n = 32 \<or> (9 \<le> n \<and> n \<le> 13))"

text \<open>The header grammar: the length of the name and the number of characters before the value,
  if there is a colon.\<close>

definition header_parse :: "string \<Rightarrow> (nat \<times> nat) option" where
  "header_parse s =
     (let n = length (takeWhile (\<lambda>c. c \<noteq> CHR '':'') s) in
      if n = length s then None
      else Some (n, n + 1 + length (takeWhile is_space (drop (n + 1) s))))"

text \<open>\<open>std::map::insert\<close> keeps the first entry of a key.\<close>

definition map_insert :: "u64 \<Rightarrow> sheader \<Rightarrow> (u64 \<times> sheader) list \<Rightarrow> (u64 \<times> sheader) list" where
  "map_insert k h m = (if map_of m k = None then (k, h) # m else m)"

text \<open>One header line; the loop ends with an empty line.  \<open>n\<close> bounds the lines.\<close>

fun header_loop :: "(u64 \<Rightarrow> char \<Rightarrow> u64) \<Rightarrow> ecode \<Rightarrow> nat \<Rightarrow> message \<Rightarrow> (ecode \<times> message) hresult" where
  "header_loop hc fin 0 m = Inl AssertFailed"
| "header_loop hc fin (Suc n) m = hbind (acc_end (m_acc m)) (\<lambda>e.
     hbind (readUntil fin crlf (m_pos m, e) m) (\<lambda>(ec, seg, m').
       if ec \<noteq> NoError then Inr (ec, m')
       else hbind (advance (m_acc m') (snd seg) 2) (\<lambda>p.
         let m1 = m'\<lparr>m_pos := p\<rparr>; c = m_acc m1 in
         if seg_empty seg then Inr (NoError, m1)
         else hbind (seg_text c seg) (\<lambda>s. case header_parse s of
             None \<Rightarrow> Inr (BadMessage, m1)
           | Some (nl, vl) \<Rightarrow> hbind (walk c nl (fst seg)) (\<lambda>ne. hbind (walk c vl (fst seg)) (\<lambda>vb.
               let h = \<lparr>h_header = seg, h_name = (fst seg, ne), h_value = (vb, snd seg)\<rparr> in
               header_loop hc fin n (m1\<lparr>m_map := map_insert (hn_key hc (take nl s)) h (m_map m1)\<rparr>)))))))"

definition line_bound :: "message \<Rightarrow> nat" where
  "line_bound m = Suc (length (acc_content (m_acc m)) + length (all_bytes (m_in m)))"

definition readHeaders :: "(u64 \<Rightarrow> char \<Rightarrow> u64) \<Rightarrow> ecode \<Rightarrow> message \<Rightarrow> (ecode \<times> message) hresult" where
  "readHeaders hc fin m =
     hbind (if em_num (m_mode m) < em_num EmHeaders then readFirstLine fin m else Inr (NoError, m)) (\<lambda>(ec, m1).
       if ec \<noteq> NoError then Inr (ec, m1)
       else if m_mode m1 \<noteq> EmHeaders then Inr (NoError, m1)
       else hbind (header_loop hc fin (line_bound m1) m1) (\<lambda>(ec, m2).
         if ec \<noteq> NoError then Inr (ec, m2)
         else hbind (decrement (m_acc m2) (m_pos m1)) (\<lambda>b1.
           hbind (increment (m_acc m2) b1) (\<lambda>b.
           hbind (advance (m_acc m2) (m_pos m2) (- 2)) (\<lambda>e.
             Inr (NoError, m2\<lparr>m_headers := (b, e), m_mode := EmBody\<rparr>))))))"

definition header_of :: "message \<Rightarrow> u64 \<Rightarrow> segment option" where
  "header_of m k = map_option h_value (map_of (m_map m) k)"

definition header_named :: "(u64 \<Rightarrow> char \<Rightarrow> u64) \<Rightarrow> message \<Rightarrow> string \<Rightarrow> segment option" where
  "header_named hc m name = header_of m (hn_key hc name)"

definition reinit :: "message \<Rightarrow> message hresult" where
  "reinit m = hbind (dropFront (m_acc m) (m_pos m)) (\<lambda>c.
     Inr (m\<lparr>m_version := (0, 0), m_mode := EmFirstLine, m_acc := c, m_body_acc := None, m_pos := null_iter,
       m_first := no_segment, m_headers := no_segment, m_body := no_segment, m_map := []\<rparr>))"

subsection \<open>Framing and the body\<close>

definition version_pod :: "u16 \<times> u16 \<Rightarrow> u64" where
  "version_pod v = push_bit 8 (ucast (fst v)) OR ucast (snd v)"

definition version_less :: "u16 \<times> u16 \<Rightarrow> u16 \<times> u16 \<Rightarrow> bool" where
  "version_less v w \<longleftrightarrow> version_pod v < version_pod w"

datatype body_coding = PlainBody | DeflateBody | GzipBody

text \<open>The values a header value object holds after its construction from a segment or a null
  pointer: the constructor that does not parse leaves \<open>_value\<close> as it was in memory (\<open>junk\<close>).\<close>

definition connection_value :: "econnection \<Rightarrow> string option \<Rightarrow> bool \<times> econnection" where
  "connection_value junk s = (case s of None \<Rightarrow> (False, junk)
     | Some t \<Rightarrow> (case parse_connection t of None \<Rightarrow> (False, junk) | Some v \<Rightarrow> (True, v)))"

definition content_coding :: "flags option \<Rightarrow> body_coding option" where
  "content_coding v = (case v of None \<Rightarrow> Some PlainBody
     | Some e \<Rightarrow>
         if e AND ece_deflate \<noteq> 0 then Some DeflateBody
         else if e AND ece_gzip \<noteq> 0 then Some GzipBody
         else if e = ece_identity then Some PlainBody else None)"

text \<open>\<open>prepareBodyExtractor\<close> on the texts of the four headers.\<close>

definition framing :: "hvlib \<Rightarrow> econnection \<Rightarrow> u16 \<times> u16 \<Rightarrow> string option \<Rightarrow> string option \<Rightarrow> string option \<Rightarrow>
    string option \<Rightarrow> (body_coding \<times> body_kind) option" where
  "framing V junk ver ce cl te co = (case content_coding (Option.bind ce (parse_ce V)) of None \<Rightarrow> None
     | Some bc \<Rightarrow> (case Option.bind cl (parse_unsigned V) of Some n \<Rightarrow> Some (bc, SizedBody n)
       | None \<Rightarrow>
           if (case Option.bind te (parse_te V) of None \<Rightarrow> False | Some e \<Rightarrow> e AND ete_chunked \<noteq> 0)
           then Some (bc, ChunkedBody EsCaption 0)
           else (case connection_value junk co of (ok, v) \<Rightarrow>
             if (ok \<and> v = EcClose) \<or> (\<not> ok \<and> version_less ver (1, 1))
             then (if v = EcClose then Some (bc, UntilClose) else None) else None)))"

definition header_text :: "message \<Rightarrow> string \<Rightarrow> string option hresult" where
  "header_text m name = (case header_of m (instance_key name) of None \<Rightarrow> Inr None
     | Some seg \<Rightarrow> hbind (seg_text (m_acc m) seg) (\<lambda>s. Inr (Some s)))"

definition prepareBodyExtractor :: "hvlib \<Rightarrow> econnection \<Rightarrow> message \<Rightarrow> (body_coding \<times> body_kind) option hresult" where
  "prepareBodyExtractor V junk m =
     hbind (header_text m ''Content-Encoding'') (\<lambda>ce. hbind (header_text m ''Content-Length'') (\<lambda>cl.
     hbind (header_text m ''Transfer-Encoding'') (\<lambda>te. hbind (header_text m ''Connection'') (\<lambda>co.
       Inr (framing V junk (m_version m) ce cl te co)))))"

text \<open>The decoder of the body: the accumulator itself, or the decoder of zlib in front of it.\<close>

record 'z body_decoder =
  bd_ops :: "'z decoder"
  bd_new :: "body_coding \<Rightarrow> accumuler \<Rightarrow> 'z"
  bd_acc :: "'z \<Rightarrow> accumuler"

definition readBody :: "'z body_decoder \<Rightarrow> spirit \<Rightarrow> hvlib \<Rightarrow> econnection \<Rightarrow> (u64 \<Rightarrow> char \<Rightarrow> u64) \<Rightarrow> ecode \<Rightarrow> message \<Rightarrow>
    (ecode \<times> message) hresult" where
  "readBody Z H V junk hc fin m =
     hbind (if em_num (m_mode m) < em_num EmBody then readHeaders hc fin m else Inr (NoError, m)) (\<lambda>(ec, m1).
       if ec \<noteq> NoError then Inr (ec, m1)
       else if m_mode m1 \<noteq> EmBody then Inr (NoError, m1)
       else hbind (prepareBodyExtractor V junk m1) (\<lambda>r. case r of
         None \<Rightarrow> Inr (BadMessage, m1\<lparr>m_body_acc := Some empty_acc\<rparr>)
       | Some (bc, k) \<Rightarrow>
           let e = \<lparr>kind = k, strm = empty_acc, bodyd = bd_new Z bc empty_acc, taild = m_acc m1\<rparr>;
               put = (\<lambda>e ps. m1\<lparr>m_acc := taild e, m_body_acc := Some (bd_acc Z (bodyd e)), m_in := ps\<rparr>) in
           hbind (read_from H (bd_ops Z) (m_pos m1) e) (\<lambda>(ec, e1).
             if ec \<noteq> NoError then Inr (ec, put e1 (m_in m1))
             else hbind (read_channel H (bd_ops Z) acc_decoder fin (m_in m1) e1) (\<lambda>(ec, e2, ps).
               if ec \<noteq> NoError then Inr (ec, put e2 ps)
               else hbind (ext_flush (bd_ops Z) acc_decoder e2) (\<lambda>(ec, e3).
                 let m2 = put e3 ps; b = bd_acc Z (bodyd e3) in
                 if ec \<noteq> NoError then Inr (ec, m2)
                 else hbind (normalize (m_acc m2) (m_pos m2)) (\<lambda>p.
                   if acc_size b = 0 then Inr (NoError, m2\<lparr>m_pos := p, m_body := no_segment, m_mode := EmDone\<rparr>)
                   else hbind (acc_end b) (\<lambda>be.
                     Inr (NoError, m2\<lparr>m_pos := p, m_body := (acc_begin b, be), m_mode := EmDone\<rparr>))))))))"

subsection \<open>What the finder finds\<close>

text \<open>The finder for the line end, as an automaton on the bytes: how many bytes it reads up to
  the end of the token, or whether it is inside the token at the end of the input.\<close>

fun crlf_at :: "bool \<Rightarrow> string \<Rightarrow> bool + nat" where
  "crlf_at st [] = Inl st"
| "crlf_at st (x # xs) =
     (if st \<and> x = CHR 0x0A then Inr 1
      else map_sum id Suc (crlf_at (\<not> st \<and> x = CHR 0x0D) xs))"

lemma crlf_at_append:
  "crlf_at st (xs @ ys) = (case crlf_at st xs of Inr k \<Rightarrow> Inr k
     | Inl st' \<Rightarrow> map_sum id ((+) (length xs)) (crlf_at st' ys))"
proof (induction xs arbitrary: st)
  case Nil
  have "(+) (0::nat) = id" by auto
  then show ?case by (simp add: sum.map_id0)
next
  case (Cons x xs)
  have "(+) (Suc (length xs)) = (\<lambda>j. Suc (length xs + j))" by auto
  then show ?case
    by (auto simp: Cons.IH sum.map_comp o_def id_def split: sum.split)
qed

lemma crlf_at_bounds: "crlf_at st s = Inr k \<Longrightarrow> 1 \<le> k \<and> k \<le> length s \<and> (\<not> st \<longrightarrow> 2 \<le> k)"
proof (induction s arbitrary: st k)
  case (Cons x s)
  show ?case
  proof (cases "st \<and> x = CHR 0x0A")
    case True
    then show ?thesis using Cons.prems by simp
  next
    case False
    then obtain j where "crlf_at (\<not> st \<and> x = CHR 0x0D) s = Inr j" "k = Suc j"
      using Cons.prems by (cases "crlf_at (\<not> st \<and> x = CHR 0x0D) s") (simp_all split: if_splits)
    then show ?thesis using Cons.IH by fastforce
  qed
qed simp

lemma crlf_at_line: "no_cr l \<Longrightarrow> crlf_at False (l @ crlf @ r) = Inr (length l + 2)"
proof (induction l)
  case Nil
  show ?case by (simp add: crlf_def)
next
  case (Cons x l)
  then have "x \<noteq> CHR 0x0D" "no_cr l" by (auto simp: no_cr_def)
  then show ?case using Cons.IH by simp
qed

lemma tok_loop_crlf:
  assumes "acc_ok c"
  shows "q \<le> length (acc_content c) \<Longrightarrow> (st \<Longrightarrow> 0 < q \<and> bg = seek (chain c) (q - 1)) \<Longrightarrow>
     length (acc_content c) - q < n \<Longrightarrow> chain c \<noteq> [] \<Longrightarrow>
     (case crlf_at st (drop q (acc_content c)) of
        Inl st' \<Rightarrow> \<exists>bg'. tok_loop c crlf n (of_bool st) bg (seek (chain c) q) (seek (chain c) (length (acc_content c))) =
          Inr (False, (seek (chain c) (length (acc_content c)), seek (chain c) (length (acc_content c))), of_bool st', bg') \<and>
          (st' \<longrightarrow> 0 < length (acc_content c) \<and> bg' = seek (chain c) (length (acc_content c) - 1))
      | Inr k \<Rightarrow> tok_loop c crlf n (of_bool st) bg (seek (chain c) q) (seek (chain c) (length (acc_content c))) =
          Inr (True, (seek (chain c) (q + k - 2), seek (chain c) (q + k)), 2, seek (chain c) (q + k - 2)))"
proof (induction n arbitrary: q st bg)
  case (Suc n)
  let ?s = "acc_content c"
  show ?case
  proof (cases "q = length ?s")
    case True
    then show ?thesis using Suc.prems(2) by (cases st) auto
  next
    case False
    then have q: "q < length ?s" using Suc.prems(1) by simp
    then have ne: "seek (chain c) q \<noteq> seek (chain c) (length ?s)"
      using seek_inj [OF assms Suc.prems(1) order_refl Suc.prems(4)] by auto
    have d: "dereference c (seek (chain c) q) = Inr (?s ! q)" by (rule dereference_seek [OF assms q])
    have i: "increment c (seek (chain c) q) = Inr (seek (chain c) (Suc q))" by (rule increment_seek [OF assms q])
    have drop: "drop q ?s = ?s ! q # drop (Suc q) ?s" by (rule Cons_nth_drop_Suc [OF q, symmetric])
    have toks: "crlf ! 0 = CHR 0x0D" "crlf ! Suc 0 = CHR 0x0A" "length crlf = 2" by (simp_all add: crlf_def)
    show ?thesis
    proof (cases "st \<and> ?s ! q = CHR 0x0A")
      case True
      then have "0 < q" "bg = seek (chain c) (q - 1)" using Suc.prems(2) by auto
      then show ?thesis using True ne d i by (simp add: drop toks Let_def numeral_2_eq_2)
    next
      case F: False
      let ?st = "\<not> st \<and> ?s ! q = CHR 0x0D"
      let ?bg = "if ?st then seek (chain c) q else bg"
      have step: "tok_loop c crlf (Suc n) (of_bool st) bg (seek (chain c) q) (seek (chain c) (length ?s)) =
          tok_loop c crlf n (of_bool ?st) ?bg (seek (chain c) (Suc q)) (seek (chain c) (length ?s))"
        using F ne d i by (cases st) (simp_all add: toks)
      have IH: "case crlf_at ?st (drop (Suc q) ?s) of
          Inl st' \<Rightarrow> \<exists>bg'. tok_loop c crlf n (of_bool ?st) ?bg (seek (chain c) (Suc q)) (seek (chain c) (length ?s)) =
            Inr (False, (seek (chain c) (length ?s), seek (chain c) (length ?s)), of_bool st', bg') \<and>
            (st' \<longrightarrow> 0 < length ?s \<and> bg' = seek (chain c) (length ?s - 1))
        | Inr k \<Rightarrow> tok_loop c crlf n (of_bool ?st) ?bg (seek (chain c) (Suc q)) (seek (chain c) (length ?s)) =
            Inr (True, (seek (chain c) (Suc q + k - 2), seek (chain c) (Suc q + k)), 2, seek (chain c) (Suc q + k - 2))"
        by (rule Suc.IH) (use q Suc.prems(3,4) in auto)
      have "crlf_at st (drop q ?s) = map_sum id Suc (crlf_at ?st (drop (Suc q) ?s))"
        using F by (auto simp: drop)
      then show ?thesis using IH unfolding step
        by (cases "crlf_at ?st (drop (Suc q) ?s)") simp_all
    qed
  qed
qed simp

lemma tok_find_crlf:
  assumes "acc_ok c" "chain c \<noteq> []" "q \<le> length (acc_content c)" "st \<Longrightarrow> 0 < q \<and> bg = seek (chain c) (q - 1)"
  shows "case crlf_at st (drop q (acc_content c)) of
        Inl st' \<Rightarrow> \<exists>bg' l. tok_find c crlf (of_bool st) bg (seek (chain c) q, seek (chain c) (length (acc_content c))) =
          Inr (False, l, of_bool st', bg') \<and>
          (st' \<longrightarrow> 0 < length (acc_content c) \<and> bg' = seek (chain c) (length (acc_content c) - 1))
      | Inr k \<Rightarrow> \<exists>bg' e. tok_find c crlf (of_bool st) bg (seek (chain c) q, seek (chain c) (length (acc_content c))) =
          Inr (True, (seek (chain c) (q + k - 2), e), 2, bg')"
proof -
  have n: "length (acc_content c) - q < Suc (length (acc_content c))" by simp
  show ?thesis
    using tok_loop_crlf [OF assms(1), of q st bg, OF assms(3,4) n assms(2)]
    by (cases "crlf_at st (drop q (acc_content c))") (auto simp: tok_find_def simp del: tok_loop.simps)
qed

subsection \<open>Positions stay when buffers are added\<close>

definition extends :: "accumuler \<Rightarrow> accumuler \<Rightarrow> bool" where
  "extends c c' \<longleftrightarrow> (\<exists>bs. chain c' = chain c @ bs)"

lemma extends_refl [simp]: "extends c c"
  by (simp add: extends_def)

lemma extends_trans: "extends c c' \<Longrightarrow> extends c' c'' \<Longrightarrow> extends c c''"
  by (auto simp: extends_def)

lemma seek_snoc: "q < sum_list (map b_size bs) \<Longrightarrow> seek (bs @ cs) q = seek bs q"
  by (induction bs arbitrary: q) auto

lemma seek_extends:
  "acc_ok c \<Longrightarrow> extends c c' \<Longrightarrow> q < length (acc_content c) \<Longrightarrow> seek (chain c') q = seek (chain c) q"
  by (auto simp: extends_def acc_ok_def acc_size_content [symmetric] seek_snoc)

lemma acc_push_extends:
  assumes "acc_ok c" "packet_ok p off"
  obtains c' b where "acc_push c p off = Inr (NoError, c')" "acc_ok c'"
    "acc_content c' = acc_content c @ payload_of p off" "chain c' = chain c @ [b]"
    "seek (chain c') (length (acc_content c)) = \<lparr>it_buf = Some (addr b), it_pos = b_begin b\<rparr>"
proof -
  obtain c' where c': "acc_push c p off = Inr (NoError, c')" "acc_ok c'"
    "acc_content c' = acc_content c @ payload_of p off"
    using acc_push_ok [OF assms] by blast
  have "\<exists>b. chain c' = chain c @ [b]"
  proof (cases "chain c" rule: rev_cases)
    case Nil
    then show ?thesis using assms c'(1)
      by (auto simp: acc_push_def packet_ok_def acc_ok_def Let_def)
  next
    case (snoc xs l)
    then show ?thesis using assms c'(1) acc_ok_last [OF assms(1) snoc]
      by (auto simp: acc_push_def packet_ok_def Let_def)
  qed
  then obtain b where b: "chain c' = chain c @ [b]" by blast
  have "length (acc_content c) = sum_list (map b_size (chain c))"
    using assms(1) acc_size_content [OF assms(1)] by (simp add: acc_ok_def)
  then have "seek (chain c') (length (acc_content c)) = \<lparr>it_buf = Some (addr b), it_pos = b_begin b\<rparr>"
    using seek_at [of 0 b "[]" "chain c"] b by simp
  then show ?thesis using that c' b by blast
qed

lemma normalize_seek:
  assumes "acc_ok c" "chain c \<noteq> []" "q \<le> length (acc_content c)"
  shows "normalize c (seek (chain c) q) = Inr (seek (chain c) q)"
proof -
  obtain xs b ys k where *: "k < b_size b \<or> ys = [] \<and> k \<le> b_size b" "buf_ok b"
    "seek (chain c) q = \<lparr>it_buf = Some (addr b), it_pos = b_begin b + k\<rparr>"
    "locate c (seek (chain c) q) = Inr (xs, b, ys)"
    using positionE [OF assms] by metis
  then show ?thesis unfolding normalize_def *(4) unfolding *(3)
    by (auto simp: b_size_def)
qed

lemma readBuffer_ok:
  assumes "acc_ok (m_acc m)" "m_in m = p # ps" "packet_ok p 0"
  obtains c' where "readBuffer fin m = Inr (NoError, (seek (chain c') (length (acc_content (m_acc m))),
      seek (chain c') (length (acc_content c'))), m\<lparr>m_acc := c', m_in := ps\<rparr>)"
    "acc_ok c'" "acc_content c' = acc_content (m_acc m) @ payload_of p 0" "extends (m_acc m) c'" "chain c' \<noteq> []"
    "map buf_bytes (chain c') = map buf_bytes (chain (m_acc m)) @ [payload_of p 0]"
proof -
  obtain c' b where c': "acc_push (m_acc m) p 0 = Inr (NoError, c')" "acc_ok c'"
    "acc_content c' = acc_content (m_acc m) @ payload_of p 0" "chain c' = chain (m_acc m) @ [b]"
    "seek (chain c') (length (acc_content (m_acc m))) = \<lparr>it_buf = Some (addr b), it_pos = b_begin b\<rparr>"
    using acc_push_extends [OF assms(1,3)] .
  have ne: "chain c' \<noteq> []" using c'(4) by simp
  have e: "acc_end c' = Inr (seek (chain c') (length (acc_content c')))" by (rule acc_end_seek [OF c'(2) ne])
  have "readBuffer fin m = Inr (NoError, (seek (chain c') (length (acc_content (m_acc m))),
      seek (chain c') (length (acc_content c'))), m\<lparr>m_acc := c', m_in := ps\<rparr>)"
  proof (cases "chain (m_acc m)" rule: rev_cases)
    case Nil
    then have "last_ptr (m_acc m) = None" using assms(1) by (simp add: acc_ok_def)
    moreover have "acc_begin c' = \<lparr>it_buf = Some (addr b), it_pos = b_begin b\<rparr>"
      using c'(4) Nil by (simp add: acc_begin_def firstBuffer_def)
    ultimately show ?thesis using assms(2) c'(1,5) e by (simp add: readBuffer_def)
  next
    case (snoc xs l)
    then have l: "last_ptr (m_acc m) = Some (addr l)" "addr l \<notin> addr ` set xs"
      using acc_ok_last [OF assms(1) snoc] by simp_all
    then have "from_buf (addr l) (chain c') = [l, b]" using c'(4) snoc by simp
    then show ?thesis using assms(2) c'(1,5) e l(1) by (simp add: readBuffer_def)
  qed
  moreover have "extends (m_acc m) c'" using c'(4) by (auto simp: extends_def)
  moreover have "map buf_bytes (chain c') = map buf_bytes (chain (m_acc m)) @ [payload_of p 0]"
    using c'(3,4) by (simp add: acc_content_def)
  ultimately show ?thesis using that c'(2,3) ne by blast
qed

subsection \<open>Reading up to a line end\<close>

lemma all_bytes_simps [simp]: "all_bytes [] = []" "all_bytes (p # ps) = payload_of p 0 @ all_bytes ps"
  "all_bytes (ps @ qs) = all_bytes ps @ all_bytes qs"
  by (simp_all add: all_bytes_def)

lemma payload_ne: "packet_ok p 0 \<Longrightarrow> payload_of p 0 \<noteq> []"
  by (auto simp: packet_ok_def payload_of_def)

text \<open>The packets \<open>used\<close> have been received, each is a buffer.\<close>

definition received :: "message \<Rightarrow> packet list \<Rightarrow> packet list \<Rightarrow> accumuler \<Rightarrow> bool" where
  "received m used rest c' \<longleftrightarrow> m_in m = used @ rest \<and> acc_ok c' \<and> extends (m_acc m) c' \<and> chain c' \<noteq> [] \<and>
     map buf_bytes (chain c') = map buf_bytes (chain (m_acc m)) @ map (\<lambda>p. payload_of p 0) used"

lemma received_content: "received m used rest c' \<Longrightarrow> acc_content c' = acc_content (m_acc m) @ all_bytes used"
  by (simp add: received_def acc_content_def bytes_of_def all_bytes_def)

lemma received_none: "acc_ok (m_acc m) \<Longrightarrow> chain (m_acc m) \<noteq> [] \<Longrightarrow> received m [] (m_in m) (m_acc m)"
  by (simp add: received_def)

lemma received_trans:
  "received m u1 r1 c1 \<Longrightarrow> received m1 u2 r2 c2 \<Longrightarrow> m_acc m1 = c1 \<Longrightarrow> m_in m1 = r1 \<Longrightarrow> received m (u1 @ u2) r2 c2"
  by (auto simp: received_def intro: extends_trans)

lemma read_more_ok:
  assumes "acc_ok (m_acc m)" "m_in m = ps" "\<forall>p\<in>set ps. packet_ok p 0"
    "st \<Longrightarrow> acc_content (m_acc m) \<noteq> [] \<and> bg = seek (chain (m_acc m)) (length (acc_content (m_acc m)) - 1)"
    "seg_empty seg \<and> a = length (acc_content (m_acc m)) \<or>
     \<not> seg_empty seg \<and> fst seg = seek (chain (m_acc m)) a \<and> a < length (acc_content (m_acc m))"
  shows "case crlf_at st (all_bytes ps) of
      Inl st' \<Rightarrow> \<exists>seg' m'. read_more fin crlf ps (of_bool st) bg seg m = Inr (fin, seg', m')
    | Inr k \<Rightarrow> \<exists>used rest c'. received m used rest c' \<and> used \<noteq> [] \<and> k \<le> length (all_bytes used) \<and>
        length (all_bytes (butlast used)) < k \<and>
        read_more fin crlf ps (of_bool st) bg seg m =
          Inr (NoError, (seek (chain c') a, seek (chain c') (length (acc_content (m_acc m)) + k - 2)),
            m\<lparr>m_acc := c', m_in := rest\<rparr>)"
  using assms
proof (induction ps arbitrary: m st bg seg)
  case (Cons p ps)
  let ?c = "m_acc m" and ?b = "payload_of p 0"
  let ?s = "acc_content ?c"
  have p: "packet_ok p 0" using Cons.prems(3) by simp
  obtain c1 where c1: "readBuffer fin m = Inr (NoError, (seek (chain c1) (length ?s),
      seek (chain c1) (length (acc_content c1))), m\<lparr>m_acc := c1, m_in := ps\<rparr>)"
    "acc_ok c1" "acc_content c1 = ?s @ ?b" "extends ?c c1" "chain c1 \<noteq> []"
    "map buf_bytes (chain c1) = map buf_bytes (chain ?c) @ [?b]"
    using readBuffer_ok [OF Cons.prems(1,2) p] .
  have rec1: "received m [p] ps c1" using c1 Cons.prems(2) by (simp add: received_def)
  let ?m = "m\<lparr>m_acc := c1, m_in := ps\<rparr>"
  let ?l = "(seek (chain c1) (length ?s), seek (chain c1) (length (acc_content c1)))"
  have lt: "length ?s < length (acc_content c1)" using c1(3) payload_ne [OF p] by simp
  have lne: "\<not> seg_empty ?l"
    using seek_inj [OF c1(2) _ order_refl c1(5), of "length ?s"] lt by (auto simp: seg_empty_def)
  define seg1 where "seg1 = (if seg_empty seg then ?l else seg)"
  have seg1: "\<not> seg_empty seg1" "fst seg1 = seek (chain c1) a" "a < length (acc_content c1)"
    using Cons.prems(5) lne lt seek_extends [OF Cons.prems(1) c1(4), of a] by (auto simp: seg1_def)
  have norm: "normalize c1 (fst seg1) = Inr (seek (chain c1) a)"
    unfolding seg1(2) by (rule normalize_seek [OF c1(2,5) less_imp_le [OF seg1(3)]])
  have st: "0 < length ?s \<and> bg = seek (chain c1) (length ?s - 1)" if st
    using Cons.prems(4) [OF that] seek_extends [OF Cons.prems(1) c1(4), of "length ?s - 1"] by auto
  have unf: "read_more fin crlf (p # ps) (of_bool st) bg seg m =
      hbind (tok_find c1 crlf (of_bool st) bg ?l) (\<lambda>(found, l, tp', bg').
        if found then hbind (normalize c1 (fst seg1)) (\<lambda>b. Inr (NoError, (b, fst l), ?m))
        else read_more fin crlf ps tp' bg' seg1 ?m)"
    using c1(1) by (simp add: seg1_def Let_def case_prod_unfold cong: if_cong)
  have drop: "drop (length ?s) (acc_content c1) = ?b" using c1(3) by simp
  note find = tok_find_crlf [OF c1(2,5) less_imp_le [OF lt], of st bg, OF st, unfolded drop]
  show ?case
  proof (cases "crlf_at st ?b")
    case (Inr k)
    then obtain bg' e where "tok_find c1 crlf (of_bool st) bg ?l =
        Inr (True, (seek (chain c1) (length ?s + k - 2), e), 2, bg')"
      using find by auto
    then have "read_more fin crlf (p # ps) (of_bool st) bg seg m =
        Inr (NoError, (seek (chain c1) a, seek (chain c1) (length ?s + k - 2)), ?m)"
      using unf norm by simp
    moreover have "k \<le> length ?b" "0 < k" using crlf_at_bounds [OF Inr] by simp_all
    ultimately show ?thesis using Inr rec1
      by (simp add: crlf_at_append del: read_more.simps) (intro exI [of _ "[p]"] exI [of _ ps] exI [of _ c1], simp del: read_more.simps)
  next
    case (Inl st1)
    then obtain bg1 l where t: "tok_find c1 crlf (of_bool st) bg ?l = Inr (False, l, of_bool st1, bg1)"
      "st1 \<longrightarrow> 0 < length (acc_content c1) \<and> bg1 = seek (chain c1) (length (acc_content c1) - 1)"
      using find by auto
    have step: "read_more fin crlf (p # ps) (of_bool st) bg seg m = read_more fin crlf ps (of_bool st1) bg1 seg1 ?m"
      using unf t(1) by simp
    have IH: "case crlf_at st1 (all_bytes ps) of
        Inl st' \<Rightarrow> \<exists>seg' m'. read_more fin crlf ps (of_bool st1) bg1 seg1 ?m = Inr (fin, seg', m')
      | Inr k \<Rightarrow> \<exists>used rest c'. received ?m used rest c' \<and> used \<noteq> [] \<and> k \<le> length (all_bytes used) \<and>
        length (all_bytes (butlast used)) < k \<and>
        read_more fin crlf ps (of_bool st1) bg1 seg1 ?m =
          Inr (NoError, (seek (chain c') a, seek (chain c') (length (acc_content (m_acc ?m)) + k - 2)),
            ?m\<lparr>m_acc := c', m_in := rest\<rparr>)"
      by (rule Cons.IH) (use c1 Cons.prems(3) t(2) seg1 in auto)
    show ?thesis
    proof (cases "crlf_at st1 (all_bytes ps)")
      case (Inl st2)
      then show ?thesis using IH step \<open>crlf_at st ?b = Inl st1\<close> by (simp add: crlf_at_append)
    next
      case (Inr k)
      then obtain used rest c' where u: "received ?m used rest c'" "used \<noteq> []" "k \<le> length (all_bytes used)"
        "length (all_bytes (butlast used)) < k"
        "read_more fin crlf ps (of_bool st1) bg1 seg1 ?m =
          Inr (NoError, (seek (chain c') a, seek (chain c') (length (acc_content c1) + k - 2)), m\<lparr>m_acc := c', m_in := rest\<rparr>)"
        using IH by auto
      have at: "crlf_at st (all_bytes (p # ps)) = Inr (length ?b + k)"
        using Inr \<open>crlf_at st ?b = Inl st1\<close> by (simp add: crlf_at_append)
      have res: "read_more fin crlf (p # ps) (of_bool st) bg seg m =
          Inr (NoError, (seek (chain c') a, seek (chain c') (length ?s + (length ?b + k) - 2)), m\<lparr>m_acc := c', m_in := rest\<rparr>)"
        unfolding step u(5) c1(3) by (simp only: length_append add.assoc)
      show ?thesis
        unfolding at sum.case res
        by (intro exI [of _ "p # used"] exI [of _ rest] exI [of _ c'] conjI refl)
           (use u(2-4) received_trans [OF rec1 u(1)] in simp_all)
    qed
  qed
qed simp

text \<open>A line from any position on.\<close>

lemma read_line:
  assumes "acc_ok (m_acc m)" "chain (m_acc m) \<noteq> []" "q \<le> length (acc_content (m_acc m))"
    "\<forall>p\<in>set (m_in m). packet_ok p 0" "no_cr l"
    "drop q (acc_content (m_acc m)) @ all_bytes (m_in m) = l @ crlf @ R"
  obtains used rest c' where "received m used rest c'" "q + length l + 2 \<le> length (acc_content c')"
    "used \<noteq> [] \<Longrightarrow> length (acc_content (m_acc m)) + length (all_bytes (butlast used)) < q + length l + 2"
    "readUntil fin crlf (seek (chain (m_acc m)) q, seek (chain (m_acc m)) (length (acc_content (m_acc m)))) m =
       Inr (NoError, (seek (chain c') q, seek (chain c') (q + length l)), m\<lparr>m_acc := c', m_in := rest\<rparr>)"
proof -
  note result = that
  let ?c = "m_acc m"
  let ?s = "acc_content ?c" and ?ps = "m_in m"
  let ?seg = "(seek (chain ?c) q, seek (chain ?c) (length ?s))"
  have at: "crlf_at False (drop q ?s @ all_bytes ?ps) = Inr (length l + 2)"
    unfolding assms(6) by (rule crlf_at_line [OF assms(5)])
  have empty: "seg_empty ?seg \<longleftrightarrow> q = length ?s"
    using seek_inj [OF assms(1,3) order_refl assms(2)] by (auto simp: seg_empty_def)
  have more: ?thesis
    if st: "st \<Longrightarrow> ?s \<noteq> [] \<and> bg = seek (chain ?c) (length ?s - 1)"
      and r: "crlf_at st (all_bytes ?ps) = Inr k" "length ?s + k = q + (length l + 2)"
      and u: "readUntil fin crlf ?seg m = read_more fin crlf ?ps (of_bool st) bg ?seg m" for st bg k
  proof -
    have "seg_empty ?seg \<and> q = length ?s \<or> \<not> seg_empty ?seg \<and> fst ?seg = seek (chain ?c) q \<and> q < length ?s"
      using empty assms(3) by auto
    from read_more_ok [OF assms(1) refl assms(4), of st bg ?seg q, OF st this, of fin]
    obtain used rest c' where w: "received m used rest c'" "used \<noteq> []" "k \<le> length (all_bytes used)"
      "length (all_bytes (butlast used)) < k"
      "read_more fin crlf ?ps (of_bool st) bg ?seg m =
         Inr (NoError, (seek (chain c') q, seek (chain c') (length ?s + k - 2)), m\<lparr>m_acc := c', m_in := rest\<rparr>)"
      by (auto simp: r(1))
    have "length ?s + k - 2 = q + length l" using r(2) by simp
    then show ?thesis using w r(2) received_content [OF w(1)] u
      by (intro result [OF w(1)]) (simp_all del: read_more.simps)
  qed
  show ?thesis
  proof (cases "q = length ?s")
    case True
    then show ?thesis using empty at by (intro more [of False null_iter "length l + 2"]) (simp_all add: readUntil_def)
  next
    case False
    note find = tok_find_crlf [OF assms(1,2,3), of False null_iter, simplified]
    show ?thesis
    proof (cases "crlf_at False (drop q ?s)")
      case (Inr k)
      then have k: "k = length l + 2" using at by (simp add: crlf_at_append)
      have le: "q + length l + 2 \<le> length ?s" using crlf_at_bounds [OF Inr] k assms(3) by simp
      obtain bg' e where "tok_find ?c crlf 0 null_iter ?seg = Inr (True, (seek (chain ?c) (q + k - 2), e), 2, bg')"
        using find by (auto simp: Inr)
      then have "readUntil fin crlf ?seg m = Inr (NoError, (seek (chain ?c) q, seek (chain ?c) (q + length l)), m\<lparr>m_acc := ?c, m_in := ?ps\<rparr>)"
        using False empty k normalize_seek [OF assms(1-3)] by (simp add: readUntil_def)
      then show ?thesis using received_none [OF assms(1,2)] le by (intro result [of "[]" ?ps ?c]) simp_all
    next
      case (Inl st)
      then obtain bg' e where t: "tok_find ?c crlf 0 null_iter ?seg = Inr (False, e, of_bool st, bg')"
        "st \<longrightarrow> ?s \<noteq> [] \<and> bg' = seek (chain ?c) (length ?s - 1)"
        using find by auto
      obtain k where k: "crlf_at st (all_bytes ?ps) = Inr k" "length (drop q ?s) + k = length l + 2"
        using at Inl by (cases "crlf_at st (all_bytes ?ps)") (auto simp: crlf_at_append)
      show ?thesis
        by (rule more [of st bg' k]) (use t k False empty assms(3) in \<open>auto simp: readUntil_def\<close>)
    qed
  qed
qed

end
