(* ===== verification/HttpMessageRead.thy ===== *)
theory HttpMessageRead
  imports HttpMessage
begin

text \<open>
  What reading the first line and the headers of a message gives, for every way the bytes are
  cut into packets: the lemmas on the loop over the header lines and the properties of
  \<open>readFirstLine\<close>, \<open>readHeaders\<close>, \<open>reinit\<close> and \<open>prepareBodyExtractor\<close>.
\<close>

subsection \<open>The text between two positions\<close>

lemma seg_loop_seek:
  assumes "acc_ok c" "chain c \<noteq> []"
  shows "i \<le> j \<Longrightarrow> j \<le> length (acc_content c) \<Longrightarrow> j - i < n \<Longrightarrow>
     seg_loop c n (seek (chain c) i) (seek (chain c) j) = Inr (take (j - i) (drop i (acc_content c)))"
proof (induction n arbitrary: i)
  case (Suc n)
  show ?case
  proof (cases "i = j")
    case False
    then have i: "i < j" "i < length (acc_content c)" using Suc.prems by simp_all
    have "seek (chain c) i \<noteq> seek (chain c) j"
      using seek_inj [OF assms(1) less_imp_le [OF i(2)] Suc.prems(2) assms(2)] False by blast
    moreover have "seg_loop c n (seek (chain c) (Suc i)) (seek (chain c) j) =
        Inr (take (j - Suc i) (drop (Suc i) (acc_content c)))"
      by (rule Suc.IH) (use i Suc.prems in auto)
    moreover have "take (j - i) (drop i (acc_content c)) =
        acc_content c ! i # take (j - Suc i) (drop (Suc i) (acc_content c))"
      using i by (simp add: Cons_nth_drop_Suc [OF i(2), symmetric] take_Cons' del: drop_Suc)
    ultimately show ?thesis
      by (simp add: dereference_seek [OF assms(1) i(2)] increment_seek [OF assms(1) i(2)])
  qed simp
qed simp

lemma seg_text_seek:
  assumes "acc_ok c" "chain c \<noteq> []" "i \<le> j" "j \<le> length (acc_content c)"
  shows "seg_text c (seek (chain c) i, seek (chain c) j) = Inr (take (j - i) (drop i (acc_content c)))"
  unfolding seg_text_def fst_conv snd_conv
  by (rule seg_loop_seek [OF assms]) (use assms(4) in simp)

subsection \<open>Received up to a position\<close>

text \<open>No more packets have been received than are needed to reach position \<open>q\<close>.\<close>

definition received_to :: "message \<Rightarrow> packet list \<Rightarrow> packet list \<Rightarrow> accumuler \<Rightarrow> nat \<Rightarrow> bool" where
  "received_to m used rest c q \<longleftrightarrow> received m used rest c \<and> q \<le> length (acc_content c) \<and>
     (used \<noteq> [] \<longrightarrow> length (acc_content (m_acc m)) + length (all_bytes (butlast used)) < q)"

lemma received_to_trans:
  assumes "received_to m u1 r1 c1 p" "received_to m1 u2 r2 c2 q" "m_acc m1 = c1" "m_in m1 = r1" "p \<le> q"
  shows "received_to m (u1 @ u2) r2 c2 q"
proof -
  have "acc_content c1 = acc_content (m_acc m) @ all_bytes u1"
    using assms(1) received_content by (auto simp: received_to_def)
  then show ?thesis
    using assms received_trans [of m u1 r1 c1 m1 u2 r2 c2]
    by (cases "u2 = []") (auto simp: received_to_def butlast_append)
qed

lemma received_to_text:
  assumes "received_to m used rest c q"
  shows "acc_content c @ all_bytes rest = acc_content (m_acc m) @ all_bytes (m_in m)"
  using assms received_content [of m used rest c] by (auto simp: received_to_def received_def)

lemma first_line_received:
  assumes "acc_ok (m_acc m)" "m_mode m = EmFirstLine" "m_first m = no_segment"
    "\<forall>p\<in>set (m_in m). packet_ok p 0" "no_cr l" "all_bytes (m_in m) = l @ crlf @ R"
    "a = length (acc_content (m_acc m))"
  obtains used rest c' where "received_to m used rest c' (a + length l + 2)"
    "readFirstLine fin m = Inr (NoError, m\<lparr>m_acc := c', m_in := rest,
       m_first := (seek (chain c') a, seek (chain c') (a + length l)),
       m_pos := seek (chain c') (a + length l + 2), m_mode := EmHeaders\<rparr>)"
proof -
  have emp: "seg_empty no_segment" by (simp add: seg_empty_def no_segment_def)
  have at: "crlf_at False (all_bytes (m_in m)) = Inr (length l + 2)"
    unfolding assms(6) by (rule crlf_at_line [OF assms(5)])
  obtain used rest c' where w: "received m used rest c'" "used \<noteq> []" "length l + 2 \<le> length (all_bytes used)"
    "length (all_bytes (butlast used)) < length l + 2"
    "read_more fin crlf (m_in m) 0 null_iter no_segment m =
       Inr (NoError, (seek (chain c') a, seek (chain c') (a + length l)), m\<lparr>m_acc := c', m_in := rest\<rparr>)"
    using read_more_ok [OF assms(1) refl assms(4), of False null_iter no_segment a fin] emp assms(7)
    by (auto simp: at)
  have to: "received_to m used rest c' (a + length l + 2)"
    using w received_content [OF w(1)] assms(7) by (simp add: received_to_def)
  have "advance c' (seek (chain c') (a + length l)) (int 2) = Inr (seek (chain c') (a + length l + 2))"
    by (rule advance_seek) (use w(1) to in \<open>auto simp: received_def received_to_def\<close>)
  then have "readFirstLine fin m = Inr (NoError, m\<lparr>m_acc := c', m_in := rest,
       m_first := (seek (chain c') a, seek (chain c') (a + length l)),
       m_pos := seek (chain c') (a + length l + 2), m_mode := EmHeaders\<rparr>)"
    using assms(2,3) emp w(5) by (simp add: readFirstLine_def readUntil_def del: read_more.simps)
  then show ?thesis using that to by blast
qed

subsection \<open>The loop over the header lines\<close>

definition line_name :: "string \<Rightarrow> string" where
  "line_name l = takeWhile (\<lambda>c. c \<noteq> CHR '':'') l"

definition line_value :: "string \<Rightarrow> string" where
  "line_value l = dropWhile is_space (drop (length (line_name l) + 1) l)"

definition header_line :: "string \<Rightarrow> bool" where
  "header_line l \<longleftrightarrow> no_cr l \<and> CHR '':'' \<in> set l"

definition lines_text :: "string list \<Rightarrow> string" where
  "lines_text ls = concat (map (\<lambda>l. l @ crlf) ls)"

lemma lines_text_simps [simp]: "lines_text [] = []" "lines_text (l # ls) = l @ crlf @ lines_text ls"
  by (simp_all add: lines_text_def)

lemma length_crlf [simp]: "length crlf = 2"
  by (simp add: crlf_def)

lemma length_lines_text: "length ls \<le> length (lines_text ls)"
  by (induction ls) simp_all

lemma header_line_parse:
  assumes "header_line l"
  shows "header_parse l = Some (length (line_name l), length l - length (line_value l))"
    "length (line_name l) \<le> length l" "take (length (line_name l)) l = line_name l"
    "drop (length l - length (line_value l)) l = line_value l" "length (line_value l) \<le> length l" "l \<noteq> []"
proof -
  obtain ys zs where "l = ys @ CHR '':'' # zs" "CHR '':'' \<notin> set ys"
    using assms split_list_first [of "CHR '':''" l] by (auto simp: header_line_def)
  then have "line_name l = ys" by (auto simp: line_name_def takeWhile_tail takeWhile_eq_all_conv [THEN iffD2])
  then have lt: "length (line_name l) < length l" using \<open>l = ys @ _ # zs\<close> by simp
  have "takeWhile is_space r @ dropWhile is_space r = r" for r by simp
  then have sp: "length (takeWhile is_space (drop (length (line_name l) + 1) l)) + length (line_value l) =
      length l - (length (line_name l) + 1)"
    by (metis length_append length_drop line_value_def)
  with lt have n: "length (line_name l) + 1 + length (takeWhile is_space (drop (length (line_name l) + 1) l)) =
      length l - length (line_value l)" by linarith
  show "header_parse l = Some (length (line_name l), length l - length (line_value l))"
    using lt n by (simp add: header_parse_def line_name_def [symmetric] Let_def)
  show "length (line_name l) \<le> length l" "length (line_value l) \<le> length l" "l \<noteq> []" using lt sp by auto
  show "take (length (line_name l)) l = line_name l" by (simp add: line_name_def takeWhile_eq_take [symmetric])
  show "drop (length l - length (line_value l)) l = line_value l"
    unfolding n [symmetric] by (simp add: line_value_def dropWhile_eq_drop add.commute)
qed

definition hdr_at :: "buffer list \<Rightarrow> nat \<Rightarrow> string \<Rightarrow> sheader" where
  "hdr_at ch q l = \<lparr>h_header = (seek ch q, seek ch (q + length l)),
     h_name = (seek ch q, seek ch (q + length (line_name l))),
     h_value = (seek ch (q + (length l - length (line_value l))), seek ch (q + length l))\<rparr>"

fun hdr_map :: "(string \<Rightarrow> u64) \<Rightarrow> buffer list \<Rightarrow> nat \<Rightarrow> string list \<Rightarrow> (u64 \<times> sheader) list \<Rightarrow> (u64 \<times> sheader) list" where
  "hdr_map key ch q [] M = M"
| "hdr_map key ch q (l # ls) M =
     hdr_map key ch (q + length l + 2) ls (map_insert (key (line_name l)) (hdr_at ch q l) M)"

lemma hdr_at_extends:
  assumes "acc_ok c" "extends c c'" "q + length l + 2 \<le> length (acc_content c)"
  shows "hdr_at (chain c') q l = hdr_at (chain c) q l"
proof -
  have "seek (chain c') p = seek (chain c) p" if "p \<le> q + length l" for p
    by (rule seek_extends [OF assms(1,2)]) (use that assms(3) in simp)
  moreover have "length (line_name l) \<le> length l" by (simp add: line_name_def length_takeWhile_le)
  ultimately show ?thesis by (simp add: hdr_at_def)
qed

lemma no_cr_Nil: "no_cr []"
  by (simp add: no_cr_def)

text \<open>A position of the message from which the rest of the text is known.\<close>

definition at_text :: "message \<Rightarrow> nat \<Rightarrow> string \<Rightarrow> bool" where
  "at_text m q s \<longleftrightarrow> acc_ok (m_acc m) \<and> chain (m_acc m) \<noteq> [] \<and> m_pos m = seek (chain (m_acc m)) q \<and>
     q \<le> length (acc_content (m_acc m)) \<and> (\<forall>p\<in>set (m_in m). packet_ok p 0) \<and>
     drop q (acc_content (m_acc m)) @ all_bytes (m_in m) = s"

lemma take_line:
  assumes "at_text m q (l @ crlf @ s)" "no_cr l"
  obtains used rest c e where "acc_end (m_acc m) = Inr e" "received_to m used rest c (q + length l + 2)"
    "readUntil fin crlf (m_pos m, e) m =
       Inr (NoError, (seek (chain c) q, seek (chain c) (q + length l)), m\<lparr>m_acc := c, m_in := rest\<rparr>)"
    "advance c (seek (chain c) (q + length l)) 2 = Inr (seek (chain c) (q + length l + 2))"
    "at_text (m\<lparr>m_acc := c, m_in := rest, m_pos := seek (chain c) (q + length l + 2)\<rparr>) (q + length l + 2) s"
    "take (length l) (drop q (acc_content c)) = l"
proof -
  note result = that
  let ?c = "m_acc m"
  have m: "acc_ok ?c" "chain ?c \<noteq> []" "m_pos m = seek (chain ?c) q" "q \<le> length (acc_content ?c)"
    "\<forall>p\<in>set (m_in m). packet_ok p 0" "drop q (acc_content ?c) @ all_bytes (m_in m) = l @ crlf @ s"
    using assms(1) by (simp_all add: at_text_def)
  have e: "acc_end ?c = Inr (seek (chain ?c) (length (acc_content ?c)))" by (rule acc_end_seek [OF m(1,2)])
  obtain used rest c where r: "received m used rest c" "q + length l + 2 \<le> length (acc_content c)"
    "used \<noteq> [] \<Longrightarrow> length (acc_content ?c) + length (all_bytes (butlast used)) < q + length l + 2"
    "readUntil fin crlf (seek (chain ?c) q, seek (chain ?c) (length (acc_content ?c))) m =
       Inr (NoError, (seek (chain c) q, seek (chain c) (q + length l)), m\<lparr>m_acc := c, m_in := rest\<rparr>)"
    using read_line [OF m(1,2,4,5) assms(2) m(6), where fin = fin] by metis
  have c: "acc_ok c" "chain c \<noteq> []" "m_in m = used @ rest" using r(1) by (auto simp: received_def)
  have to: "received_to m used rest c (q + length l + 2)" using r(1-3) by (auto simp: received_to_def)
  have rem: "drop q (acc_content c) @ all_bytes rest = l @ crlf @ s"
    using m(4,6) received_content [OF r(1)] c(3) by simp
  have "advance c (seek (chain c) (q + length l)) (int 2) = Inr (seek (chain c) (q + length l + 2))"
    by (rule advance_seek [OF c(1,2) r(2)])
  moreover have "take (length l) (drop q (acc_content c) @ all_bytes rest) = l" by (simp add: rem)
  then have "take (length l) (drop q (acc_content c)) = l" using r(2) by simp
  moreover have "drop 2 (drop (length l) (drop q (acc_content c) @ all_bytes rest)) = s"
    unfolding rem by (simp add: crlf_def)
  then have "drop (q + length l + 2) (acc_content c) @ all_bytes rest = s"
    using r(2) by (simp add: add.commute add.left_commute)
  then have "at_text (m\<lparr>m_acc := c, m_in := rest, m_pos := seek (chain c) (q + length l + 2)\<rparr>) (q + length l + 2) s"
    using c m(5) r(2) by (simp add: at_text_def)
  ultimately show ?thesis using result [OF e to] r(4) m(3) by simp
qed

lemma header_loop_end:
  assumes "at_text m q (crlf @ s)"
  shows "\<exists>used rest c. received_to m used rest c (q + 2) \<and>
    header_loop hc fin (Suc k) m = Inr (NoError, m\<lparr>m_acc := c, m_in := rest, m_pos := seek (chain c) (q + 2)\<rparr>)"
proof -
  have "at_text m q ([] @ crlf @ s)" using assms by simp
  then obtain used rest c e where r: "acc_end (m_acc m) = Inr e" "received_to m used rest c (q + length ([]::string) + 2)"
    "readUntil fin crlf (m_pos m, e) m =
       Inr (NoError, (seek (chain c) q, seek (chain c) (q + length ([]::string))), m\<lparr>m_acc := c, m_in := rest\<rparr>)"
    "advance c (seek (chain c) (q + length ([]::string))) 2 = Inr (seek (chain c) (q + length ([]::string) + 2))"
    using no_cr_Nil by (rule take_line [where fin = fin])
  then have "received_to m used rest c (q + 2)" by simp
  moreover have "header_loop hc fin (Suc k) m =
      Inr (NoError, m\<lparr>m_acc := c, m_in := rest, m_pos := seek (chain c) (q + 2)\<rparr>)"
    using r(1,3,4) by (simp add: seg_empty_def)
  ultimately show ?thesis by blast
qed

lemma header_loop_line:
  assumes "at_text m q (l @ crlf @ s)" "header_line l"
  obtains used rest c where "received_to m used rest c (q + length l + 2)"
    "header_loop hc fin (Suc k) m = header_loop hc fin k (m\<lparr>m_acc := c, m_in := rest,
       m_pos := seek (chain c) (q + length l + 2),
       m_map := map_insert (hn_key hc (line_name l)) (hdr_at (chain c) q l) (m_map m)\<rparr>)"
    "at_text (m\<lparr>m_acc := c, m_in := rest, m_pos := seek (chain c) (q + length l + 2)\<rparr>) (q + length l + 2) s"
proof -
  note result = that
  have "no_cr l" using assms(2) by (simp add: header_line_def)
  then obtain used rest c e where r: "acc_end (m_acc m) = Inr e" "received_to m used rest c (q + length l + 2)"
    "readUntil fin crlf (m_pos m, e) m =
       Inr (NoError, (seek (chain c) q, seek (chain c) (q + length l)), m\<lparr>m_acc := c, m_in := rest\<rparr>)"
    "advance c (seek (chain c) (q + length l)) 2 = Inr (seek (chain c) (q + length l + 2))"
    "at_text (m\<lparr>m_acc := c, m_in := rest, m_pos := seek (chain c) (q + length l + 2)\<rparr>) (q + length l + 2) s"
    "take (length l) (drop q (acc_content c)) = l"
    by (rule take_line [OF assms(1), where fin = fin])
  have c: "acc_ok c" "chain c \<noteq> []" "q + length l + 2 \<le> length (acc_content c)"
    using r(2) by (auto simp: received_to_def received_def)
  note parse = header_line_parse [OF assms(2)]
  have "\<not> seg_empty (seek (chain c) q, seek (chain c) (q + length l))"
    using seek_inj [OF c(1), of q "q + length l"] c(2,3) parse(6) by (auto simp: seg_empty_def)
  moreover have "seg_text c (seek (chain c) q, seek (chain c) (q + length l)) = Inr l"
    using seg_text_seek [OF c(1,2), of q "q + length l"] c(3) r(6) by simp
  moreover have "walk c i (seek (chain c) q) = Inr (seek (chain c) (q + i))" if "i \<le> length l" for i
    by (rule walk_seek [OF c(1)]) (use that c(3) in simp)
  ultimately have "header_loop hc fin (Suc k) m = header_loop hc fin k (m\<lparr>m_acc := c, m_in := rest,
       m_pos := seek (chain c) (q + length l + 2),
       m_map := map_insert (hn_key hc (line_name l)) (hdr_at (chain c) q l) (m_map m)\<rparr>)"
    using r(1,3,4) parse(1,2,3) by (simp add: hdr_at_def)
  then show ?thesis using result r(2,5) by blast
qed

lemma header_loop_ok:
  assumes "at_text m q (lines_text ls @ crlf @ s)" "list_all header_line ls" "length ls < n"
    "Q = q + length (lines_text ls) + 2"
  shows "\<exists>used rest c. received_to m used rest c Q \<and>
    header_loop hc fin n m = Inr (NoError, m\<lparr>m_acc := c, m_in := rest, m_pos := seek (chain c) Q,
      m_map := hdr_map (hn_key hc) (chain c) q ls (m_map m)\<rparr>)"
  using assms
proof (induction ls arbitrary: m q n)
  case Nil
  then obtain k where "n = Suc k" by (cases n) auto
  then show ?case using header_loop_end [of m q s] Nil.prems by simp
next
  case (Cons l ls)
  then obtain k where n: "n = Suc k" by (cases n) auto
  have l: "at_text m q (l @ crlf @ (lines_text ls @ crlf @ s))" "header_line l" using Cons.prems by simp_all
  obtain used rest c where r: "received_to m used rest c (q + length l + 2)"
    "header_loop hc fin (Suc k) m = header_loop hc fin k (m\<lparr>m_acc := c, m_in := rest,
       m_pos := seek (chain c) (q + length l + 2),
       m_map := map_insert (hn_key hc (line_name l)) (hdr_at (chain c) q l) (m_map m)\<rparr>)"
    "at_text (m\<lparr>m_acc := c, m_in := rest, m_pos := seek (chain c) (q + length l + 2)\<rparr>) (q + length l + 2)
       (lines_text ls @ crlf @ s)"
    by (rule header_loop_line [OF l, where fin = fin and k = k and hc = hc])
  define m1 where "m1 = m\<lparr>m_acc := c, m_in := rest, m_pos := seek (chain c) (q + length l + 2),
    m_map := map_insert (hn_key hc (line_name l)) (hdr_at (chain c) q l) (m_map m)\<rparr>"
  have at: "at_text m1 (q + length l + 2) (lines_text ls @ crlf @ s)" using r(3) by (simp add: at_text_def m1_def)
  have "list_all header_line ls" "length ls < k" "Q = q + length l + 2 + length (lines_text ls) + 2"
    using Cons.prems(2-4) n by simp_all
  from Cons.IH [OF at this] obtain used2 rest2 c2 where i: "received_to m1 used2 rest2 c2 Q"
    "header_loop hc fin k m1 = Inr (NoError, m1\<lparr>m_acc := c2, m_in := rest2, m_pos := seek (chain c2) Q,
      m_map := hdr_map (hn_key hc) (chain c2) (q + length l + 2) ls (m_map m1)\<rparr>)"
    by blast
  have c: "acc_ok c" "q + length l + 2 \<le> length (acc_content c)" using r(1) by (auto simp: received_to_def received_def)
  have "extends c c2" using i(1) by (simp add: m1_def received_to_def received_def)
  then have "hdr_at (chain c) q l = hdr_at (chain c2) q l"
    by (rule hdr_at_extends [OF c(1) _ c(2), symmetric])
  then have "header_loop hc fin n m = Inr (NoError, m\<lparr>m_acc := c2, m_in := rest2, m_pos := seek (chain c2) Q,
      m_map := hdr_map (hn_key hc) (chain c2) q (l # ls) (m_map m)\<rparr>)"
    unfolding n r(2) m1_def [symmetric] i(2) by (simp add: m1_def)
  moreover have "received_to m (used @ used2) rest2 c2 Q"
    by (rule received_to_trans [OF r(1) i(1)]) (use Cons.prems(4) in \<open>simp_all add: m1_def\<close>)
  ultimately show ?case by blast
qed

lemma hdr_map_lookup:
  assumes "drop q T = lines_text ls @ X"
  shows "case map_of M k of Some h \<Rightarrow> map_of (hdr_map key ch q ls M) k = Some h
    | None \<Rightarrow> (case find (\<lambda>l. key (line_name l) = k) ls of
        None \<Rightarrow> map_of (hdr_map key ch q ls M) k = None
      | Some l \<Rightarrow> \<exists>p. map_of (hdr_map key ch q ls M) k = Some (hdr_at ch p l) \<and>
          p + length l \<le> q + length (lines_text ls) \<and> take (length l) (drop p T) = l)"
  using assms
proof (induction ls arbitrary: q M)
  case Nil
  then show ?case by (simp split: option.split)
next
  case (Cons l ls)
  have "drop 2 (drop (length l) (drop q T)) = lines_text ls @ X" unfolding Cons.prems by (simp add: crlf_def)
  then have "drop (q + length l + 2) T = lines_text ls @ X" by (simp add: add.commute add.left_commute)
  note IH = Cons.IH [OF this, of "map_insert (key (line_name l)) (hdr_at ch q l) M"]
  show ?case
  proof (cases "map_of M k")
    case (Some h)
    then show ?thesis using IH by (auto simp: map_insert_def split: if_splits)
  next
    case None
    show ?thesis
    proof (cases "key (line_name l) = k")
      case True
      then have "map_of (hdr_map key ch q (l # ls) M) k = Some (hdr_at ch q l)"
        using IH None by (simp add: map_insert_def)
      then show ?thesis using None True Cons.prems by auto
    next
      case False
      then have "map_of (map_insert (key (line_name l)) (hdr_at ch q l) M) k = None"
        using None by (simp add: map_insert_def)
      then show ?thesis using None False IH by (auto split: option.splits)
    qed
  qed
qed

subsection \<open>The head of a message\<close>

lemma decrement_extends:
  assumes "acc_ok c" "acc_ok c'" "extends c c'" "chain c \<noteq> []" "Suc q \<le> length (acc_content c)"
  shows "decrement c' (seek (chain c) (Suc q)) = Inr (seek (chain c') q)"
proof (cases "Suc q < length (acc_content c)")
  case True
  have "length (acc_content c) \<le> length (acc_content c')" using assms(3) by (auto simp: extends_def acc_content_def)
  then have "decrement c' (seek (chain c') (Suc q)) = Inr (seek (chain c') q)"
    using True by (intro decrement_seek [OF assms(2)]) simp
  then show ?thesis using seek_extends [OF assms(1,3) True] by simp
next
  case False
  then have q: "Suc q = length (acc_content c)" using assms(5) by simp
  obtain xs b where b: "chain c = xs @ [b]" using assms(4) by (metis rev_exhaust)
  then obtain ys where c': "chain c' = xs @ b # ys" using assms(3) by (auto simp: extends_def)
  have ok: "buf_ok b" using assms(1) b by (simp add: acc_ok_def)
  have len: "Suc q = sum_list (map b_size xs) + b_size b"
    using q b assms(1) acc_size_content [OF assms(1)] by (simp add: acc_ok_def)
  have "seek (chain c) (Suc q) = \<lparr>it_buf = Some (addr b), it_pos = b_begin b + b_size b\<rparr>"
    using seek_at [of "b_size b" b "[]" xs] b len by simp
  moreover have "locate c' \<lparr>it_buf = Some (addr b), it_pos = b_begin b + b_size b\<rparr> = Inr (xs, b, ys)"
    by (rule locate_split) (use assms(2) c' ok in \<open>auto simp: acc_ok_def b_size_def buf_ok_def\<close>)
  moreover have "seek (chain c') q = \<lparr>it_buf = Some (addr b), it_pos = b_begin b + (b_size b - 1)\<rparr>"
  proof -
    have "q = sum_list (map b_size xs) + (b_size b - 1)" using len b_size_pos [OF ok] by simp
    then show ?thesis using seek_at [of "b_size b - 1" b ys xs] c' b_size_pos [OF ok] by simp
  qed
  ultimately show ?thesis using b_size_pos [OF ok] by (simp add: decrement_def)
qed

definition head_message :: "(u64 \<Rightarrow> char \<Rightarrow> u64) \<Rightarrow> packet list \<Rightarrow> accumuler \<Rightarrow> packet list \<Rightarrow> string \<Rightarrow> string list \<Rightarrow> iter \<Rightarrow> message" where
  "head_message hc ps c rest fl ls e = (new_message ps)\<lparr>m_mode := EmBody, m_acc := c, m_in := rest,
     m_first := (seek (chain c) 0, seek (chain c) (length fl)),
     m_headers := (seek (chain c) (length fl + 2), e),
     m_pos := seek (chain c) (length fl + 2 + length (lines_text ls) + 2),
     m_map := hdr_map (hn_key hc) (chain c) (length fl + 2) ls []\<rparr>"

lemma head_message_simps [simp]:
  "m_acc (head_message hc ps c rest fl ls e) = c" "m_mode (head_message hc ps c rest fl ls e) = EmBody"
  "m_in (head_message hc ps c rest fl ls e) = rest"
  by (simp_all add: head_message_def)

lemma read_head_loop:
  assumes "\<forall>p\<in>set ps. packet_ok p 0" "no_cr fl" "list_all header_line ls"
    "all_bytes ps = fl @ crlf @ lines_text ls @ crlf @ R" "Q = length fl + 2 + length (lines_text ls) + 2"
  obtains used rest c where "received_to (new_message ps) used rest c Q"
    "readHeaders hc fin (new_message ps) = hbind (advance c (seek (chain c) Q) (- 2))
       (\<lambda>e. Inr (NoError, head_message hc ps c rest fl ls e))"
proof -
  let ?m = "new_message ps" and ?q = "length fl + 2"
  have m: "acc_ok (m_acc ?m)" "m_mode ?m = EmFirstLine" "m_first ?m = no_segment" "\<forall>p\<in>set (m_in ?m). packet_ok p 0"
    "all_bytes (m_in ?m) = fl @ crlf @ lines_text ls @ crlf @ R" "0 = length (acc_content (m_acc ?m))"
    using assms by (simp_all add: new_message_def acc_ok_empty acc_content_empty)
  obtain u1 r1 c1 where f: "received_to ?m u1 r1 c1 (0 + length fl + 2)"
    "readFirstLine fin ?m = Inr (NoError, ?m\<lparr>m_acc := c1, m_in := r1,
       m_first := (seek (chain c1) 0, seek (chain c1) (0 + length fl)),
       m_pos := seek (chain c1) (0 + length fl + 2), m_mode := EmHeaders\<rparr>)"
    by (rule first_line_received [OF m(1-4) assms(2) m(5,6), where fin = fin])
  define m1 where "m1 = ?m\<lparr>m_acc := c1, m_in := r1, m_first := (seek (chain c1) 0, seek (chain c1) (length fl)),
    m_pos := seek (chain c1) ?q, m_mode := EmHeaders\<rparr>"
  have c1: "acc_ok c1" "chain c1 \<noteq> []" "?q \<le> length (acc_content c1)" "\<forall>p\<in>set r1. packet_ok p 0"
    using f(1) m(4) by (auto simp: received_to_def received_def)
  have "acc_content c1 @ all_bytes r1 = fl @ crlf @ lines_text ls @ crlf @ R"
    using received_to_text [OF f(1)] m(5,6) by simp
  then have "drop ?q (acc_content c1 @ all_bytes r1) = lines_text ls @ crlf @ R" by (simp add: crlf_def)
  then have eq: "drop ?q (acc_content c1) @ all_bytes r1 = lines_text ls @ crlf @ R" using c1(3) by simp
  then have at: "at_text m1 ?q (lines_text ls @ crlf @ R)" using c1 by (simp add: at_text_def m1_def)
  have "length (drop ?q (acc_content c1) @ all_bytes r1) = length (lines_text ls @ crlf @ R)" by (simp only: eq)
  then have "length (lines_text ls) \<le> length (acc_content c1) + length (all_bytes r1)" by simp
  then have "length ls < line_bound m1" using length_lines_text [of ls] by (simp add: line_bound_def m1_def)
  from header_loop_ok [OF at assms(3) this assms(5), where fin = fin and hc = hc] obtain u2 rest c where l:
    "received_to m1 u2 rest c Q" "header_loop hc fin (line_bound m1) m1 = Inr (NoError, m1\<lparr>m_acc := c, m_in := rest,
       m_pos := seek (chain c) Q, m_map := hdr_map (hn_key hc) (chain c) ?q ls (m_map m1)\<rparr>)" by blast
  have c: "acc_ok c" "extends c1 c" "chain c \<noteq> []" "Q \<le> length (acc_content c)"
    using l(1) by (auto simp: received_to_def received_def m1_def)
  have "decrement c (seek (chain c1) (Suc (length fl + 1))) = Inr (seek (chain c) (length fl + 1))"
    by (rule decrement_extends [OF c1(1) c(1,2) c1(2)]) (use c1(3) in simp)
  moreover have "increment c (seek (chain c) (length fl + 1)) = Inr (seek (chain c) (Suc (length fl + 1)))"
    by (rule increment_seek [OF c(1)]) (use c(4) assms(5) in simp)
  moreover have "seek (chain c1) 0 = seek (chain c) 0" "seek (chain c1) (length fl) = seek (chain c) (length fl)"
    by (rule seek_extends [OF c1(1) c(2), symmetric], use c1(3) in linarith)+
  ultimately have "readHeaders hc fin ?m = hbind (advance c (seek (chain c) Q) (- 2))
       (\<lambda>e. Inr (NoError, head_message hc ps c rest fl ls e))"
    using f(2) l(2) assms(5) by (simp add: readHeaders_def m1_def head_message_def new_message_def del: header_loop.simps)
  moreover have "received_to ?m (u1 @ u2) rest c Q"
    by (rule received_to_trans [OF f(1) l(1)]) (use assms(5) in \<open>simp_all add: m1_def\<close>)
  ultimately show ?thesis using that by blast
qed

lemma chain_empty_acc: "chain empty_acc = []"
  by (simp add: empty_acc_def)

lemma head_in_packet:
  assumes "received_to (new_message ps) used rest c Q" "ps = ps1 @ p # ps2"
    "length (all_bytes ps1) + 2 \<le> Q" "Q \<le> length (all_bytes (ps1 @ [p]))"
  shows "used = ps1 @ [p] \<and> rest = ps2 \<and> it_buf (seek (chain c) (Q - 2)) = it_buf (seek (chain c) Q) \<and>
    it_buf (seek (chain c) (Q - 1)) = last_ptr c \<and> it_buf (seek (chain c) Q) = last_ptr c"
proof -
  have u: "ps = used @ rest" "acc_content c = all_bytes used" "acc_ok c"
    "map buf_bytes (chain c) = map (\<lambda>p. payload_of p 0) used" "Q \<le> length (all_bytes used)"
    "used \<noteq> [] \<Longrightarrow> length (all_bytes (butlast used)) < Q"
    using assms(1) received_content [of "new_message ps" used rest c]
    by (auto simp: received_to_def received_def new_message_def acc_content_empty chain_empty_acc)
  have "\<not> length used \<le> length ps1"
  proof
    assume "length used \<le> length ps1"
    then obtain us where "ps1 = used @ us"
      using u(1) assms(2) by (auto simp: append_eq_append_conv2)
    then show False using u(5) assms(3) by simp
  qed
  moreover have "\<not> length ps1 + 1 < length used"
  proof
    assume l: "length ps1 + 1 < length used"
    then obtain vs where vs: "used = ps1 @ vs" "p # ps2 = vs @ rest"
      using u(1) assms(2) by (auto simp: append_eq_append_conv2)
    then obtain us where us: "used = (ps1 @ [p]) @ us" using l by (cases vs) auto
    then have "us \<noteq> []" using l by auto
    then show False using u(6) us assms(4) by (simp add: butlast_append)
  qed
  ultimately have "length used = length (ps1 @ [p])" by simp
  moreover have "used @ rest = (ps1 @ [p]) @ ps2" using u(1) assms(2) by simp
  ultimately have used: "used = ps1 @ [p]" "rest = ps2"
    using append_eq_append_conv [of used "ps1 @ [p]" rest ps2] by blast+
  obtain xs b where ch: "chain c = xs @ [b]" "map buf_bytes xs = map (\<lambda>p. payload_of p 0) ps1" "buf_bytes b = payload_of p 0"
    using u(4) used(1) by (auto simp: map_eq_append_conv)
  have ok: "\<forall>m\<in>set (chain c). buf_ok m" using u(3) by (simp add: acc_ok_def)
  have "length (bytes_of xs) = length (all_bytes ps1)" using ch(2) by (simp add: bytes_of_def all_bytes_def)
  then have sum: "sum_list (map b_size xs) = length (all_bytes ps1)"
    using length_bytes_of [of xs] ok ch(1) by simp
  have "seek (chain c) (length (all_bytes ps1) + k) = \<lparr>it_buf = Some (addr b), it_pos = b_begin b + k\<rparr>" for k
    using seek_at [of k b "[]" xs] ch(1) sum by simp
  from this [of "Q - 2 - length (all_bytes ps1)"] this [of "Q - 1 - length (all_bytes ps1)"]
    this [of "Q - length (all_bytes ps1)"]
  show ?thesis using used assms(3) acc_ok_last [OF u(3) ch(1)] by simp
qed

lemma back_off_small:
  "\<forall>m\<in>set (b # bs). b_size m = 1 \<Longrightarrow> 0 < n \<Longrightarrow> advance_bwd (b # bs) (b_end b - 1) n = Inl AssertFailed"
proof (induction bs arbitrary: b)
  case (Cons m bs)
  then have "b_begin b = b_end b - 1" "b_begin m < b_end m" by (auto simp: b_size_def)
  then show ?case using Cons.IH [of m] Cons.prems by simp
qed (auto simp: b_size_def)

lemma advance_back_small:
  assumes "acc_ok c" "\<forall>b\<in>set (chain c). b_size b = 1" "q \<le> length (acc_content c)" "chain c \<noteq> []" "0 < q"
  shows "advance c (seek (chain c) q) (- 2) = Inl AssertFailed"
proof -
  obtain xs b ys k where *: "chain c = xs @ b # ys" "q = sum_list (map b_size xs) + k"
    "k < b_size b \<or> ys = [] \<and> k \<le> b_size b"
    "seek (chain c) q = \<lparr>it_buf = Some (addr b), it_pos = b_begin b + k\<rparr>"
    "locate c (seek (chain c) q) = Inr (xs, b, ys)"
    using positionE [OF assms(1,4,3)] by metis
  have k: "k \<le> 1" "\<forall>m\<in>set xs. b_size m = 1" using *(1,3) assms(2) by auto
  have "advance_bwd (b # rev xs) (b_begin b + k) 2 = Inl AssertFailed"
  proof (cases xs rule: rev_cases)
    case (snoc zs m)
    have ms: "\<forall>d\<in>set (m # rev zs). b_size d = 1" using k(2) snoc by auto
    have "b_begin m < b_end m" using ms by (auto simp: b_size_def)
    then have "advance_bwd (b # rev xs) (b_begin b + k) 2 = advance_bwd (m # rev zs) (b_end m - 1) (2 - k)"
      using snoc k(1) by simp
    then show ?thesis using back_off_small [OF ms, of "2 - k"] k(1) by simp
  qed (use k(1) in simp)
  then show ?thesis unfolding advance_def *(5) using *(4) by simp
qed

text \<open>What a message read up to its body holds: the position behind the head, the first line, the
  header block and, for every name, the value of its first line.\<close>

definition head_read :: "(u64 \<Rightarrow> char \<Rightarrow> u64) \<Rightarrow> message \<Rightarrow> string \<Rightarrow> string list \<Rightarrow> bool" where
  "head_read hc m fl ls \<longleftrightarrow> m_mode m = EmBody \<and>
     seg_text (m_acc m) (m_first m) = Inr fl \<and> seg_text (m_acc m) (m_headers m) = Inr (lines_text ls) \<and>
     (\<forall>k. case find (\<lambda>l. hn_key hc (line_name l) = k) ls of
        None \<Rightarrow> header_of m k = None
      | Some l \<Rightarrow> (\<exists>s. header_of m k = Some s \<and> seg_text (m_acc m) s = Inr (line_value l)))"

lemma head_message_read:
  assumes "received_to (new_message ps) used rest c Q" "list_all header_line ls"
    "all_bytes ps = fl @ crlf @ lines_text ls @ crlf @ R" "Q = length fl + 2 + length (lines_text ls) + 2"
    "\<forall>p\<in>set ps. packet_ok p 0"
  shows "head_read hc (head_message hc ps c rest fl ls (seek (chain c) (Q - 2))) fl ls \<and>
    at_text (head_message hc ps c rest fl ls e) Q R"
proof -
  let ?T = "acc_content c" and ?q = "length fl + 2"
  let ?m = "head_message hc ps c rest fl ls (seek (chain c) (Q - 2))"
  have c: "acc_ok c" "chain c \<noteq> []" "Q \<le> length ?T" "ps = used @ rest"
    using assms(1) by (auto simp: received_to_def received_def new_message_def)
  have "?T @ all_bytes rest = all_bytes ps"
    using received_to_text [OF assms(1)] by (simp add: new_message_def acc_content_empty)
  then have T: "?T @ all_bytes rest = fl @ crlf @ lines_text ls @ crlf @ R" by (simp add: assms(3))
  have "take Q (?T @ all_bytes rest) = fl @ crlf @ lines_text ls @ crlf" unfolding T by (simp add: assms(4))
  then have tQ: "take Q ?T = fl @ crlf @ lines_text ls @ crlf" using c(3) by simp
  have "drop Q (?T @ all_bytes rest) = R" unfolding T by (simp add: assms(4))
  then have dQ: "drop Q ?T @ all_bytes rest = R" using c(3) by simp
  obtain Z where Z: "?T = fl @ crlf @ lines_text ls @ crlf @ Z"
    using append_take_drop_id [of Q ?T] unfolding tQ by (metis append_assoc)
  then have d: "drop ?q ?T = lines_text ls @ crlf @ Z" by simp
  have seg: "seg_text c (seek (chain c) i, seek (chain c) j) = Inr (take (j - i) (drop i ?T))"
    if "i \<le> j" "j \<le> Q" for i j
    by (rule seg_text_seek [OF c(1,2) that(1)]) (use that(2) c(3) in simp)
  have "seg_text c (m_first ?m) = Inr fl" using seg [of 0 "length fl"] Z assms(4) by (simp add: head_message_def)
  moreover have "seg_text c (m_headers ?m) = Inr (lines_text ls)"
    using seg [of ?q "Q - 2"] d assms(4) by (simp add: head_message_def)
  moreover have "case find (\<lambda>l. hn_key hc (line_name l) = k) ls of None \<Rightarrow> header_of ?m k = None
      | Some l \<Rightarrow> (\<exists>s. header_of ?m k = Some s \<and> seg_text c s = Inr (line_value l))" for k
  proof (cases "find (\<lambda>l. hn_key hc (line_name l) = k) ls")
    case None
    then show ?thesis using hdr_map_lookup [OF d, where M = "[]" and k = k and key = "hn_key hc" and ch = "chain c"]
      by (simp add: head_message_def header_of_def)
  next
    case (Some l)
    then obtain p where p: "map_of (hdr_map (hn_key hc) (chain c) ?q ls []) k = Some (hdr_at (chain c) p l)"
      "p + length l \<le> ?q + length (lines_text ls)" "take (length l) (drop p ?T) = l"
      using hdr_map_lookup [OF d, where M = "[]" and k = k and key = "hn_key hc" and ch = "chain c"] by auto
    have "l \<in> set ls" using Some by (auto simp: find_Some_iff)
    then have l: "header_line l" using assms(2) by (simp add: list_all_iff)
    note parse = header_line_parse [OF l]
    let ?i = "length l - length (line_value l)"
    have "take (length (line_value l)) (drop (p + ?i) ?T) = drop ?i (take (length l) (drop p ?T))"
      using parse(5) by (simp add: drop_take add.commute)
    then have "take (length (line_value l)) (drop (p + ?i) ?T) = line_value l" using p(3) parse(4) by simp
    then have "seg_text c (h_value (hdr_at (chain c) p l)) = Inr (line_value l)"
      using seg [of "p + ?i" "p + length l"] p(2) parse(5) assms(4) by (simp add: hdr_at_def)
    then show ?thesis using Some p(1) by (simp add: head_message_def header_of_def)
  qed
  ultimately have "head_read hc ?m fl ls" unfolding head_read_def head_message_simps by blast
  moreover have "at_text (head_message hc ps c rest fl ls e) Q R"
    using c dQ assms(4,5) by (simp add: at_text_def head_message_def)
  ultimately show ?thesis by blast
qed

lemma read_head_ok:
  assumes "\<forall>p\<in>set ps. packet_ok p 0" "no_cr fl" "list_all header_line ls" "ps = ps1 @ p # ps2"
    "all_bytes ps = fl @ crlf @ lines_text ls @ crlf @ R" "Q = length fl + 2 + length (lines_text ls) + 2"
    "length (all_bytes ps1) + 2 \<le> Q" "Q \<le> length (all_bytes (ps1 @ [p]))"
  obtains c where "readHeaders hc fin (new_message ps) = Inr (NoError, head_message hc ps c ps2 fl ls (seek (chain c) (Q - 2)))"
    "received_to (new_message ps) (ps1 @ [p]) ps2 c Q" "it_buf (seek (chain c) (Q - 1)) = last_ptr c"
    "it_buf (seek (chain c) Q) = last_ptr c"
proof -
  obtain used rest c where r: "received_to (new_message ps) used rest c Q"
    "readHeaders hc fin (new_message ps) = hbind (advance c (seek (chain c) Q) (- 2))
       (\<lambda>e. Inr (NoError, head_message hc ps c rest fl ls e))"
    by (rule read_head_loop [OF assms(1-3,5,6), where hc = hc and fin = fin])
  have u: "used = ps1 @ [p]" "rest = ps2" "it_buf (seek (chain c) (Q - 2)) = it_buf (seek (chain c) Q)"
    "it_buf (seek (chain c) (Q - 1)) = last_ptr c" "it_buf (seek (chain c) Q) = last_ptr c"
    using head_in_packet [OF r(1) assms(4,7,8)] by simp_all
  have "advance c (seek (chain c) Q) (- int 2) = Inr (seek (chain c) (Q - 2)) \<longleftrightarrow>
      it_buf (seek (chain c) (Q - 2)) = it_buf (seek (chain c) Q)"
    by (rule advance_back) (use r(1) assms(6) in \<open>auto simp: received_to_def received_def\<close>)
  then show ?thesis using that r u by simp
qed

subsection \<open>Properties\<close>

text \<open>
  C20: a message with one packet that holds the whole empty line that ends the head is read as it
  was sent, however else its bytes are cut into packets: the first line, the header block and for every name
  the value of its first header line, whatever the case of the name's letters; no packet
  behind the head is received, and the position stands before the rest.
\<close>

theorem head_is_read:
  assumes "\<forall>p\<in>set ps. packet_ok p 0" "no_cr fl" "list_all header_line ls" "ps = ps1 @ p # ps2"
    "all_bytes ps = fl @ crlf @ lines_text ls @ crlf @ R"
    "length (all_bytes ps1) \<le> length (fl @ crlf @ lines_text ls)"
    "length (fl @ crlf @ lines_text ls @ crlf) \<le> length (all_bytes (ps1 @ [p]))"
  shows "\<exists>m. readHeaders hc fin (new_message ps) = Inr (NoError, m) \<and> head_read hc m fl ls \<and>
    m_in m = ps2 \<and> at_text m (length (fl @ crlf @ lines_text ls @ crlf)) R"
proof -
  define Q where "Q = length fl + 2 + length (lines_text ls) + 2"
  obtain c where c: "readHeaders hc fin (new_message ps) =
      Inr (NoError, head_message hc ps c ps2 fl ls (seek (chain c) (Q - 2)))"
    "received_to (new_message ps) (ps1 @ [p]) ps2 c Q"
    by (rule read_head_ok [OF assms(1-5) Q_def, where hc = hc and fin = fin]) (use assms(6,7) in \<open>simp_all add: Q_def\<close>)
  have "length (fl @ crlf @ lines_text ls @ crlf) = Q" by (simp add: Q_def)
  then show ?thesis
    using c(1) head_message_read [OF c(2) assms(3,5) Q_def assms(1)] by auto
qed

text \<open>
  C38: a message that arrives one byte at a time crashes the reader at the end of its headers:
  going back from behind the empty line runs off the front of the chain of buffers.
\<close>

theorem bytewise_head_crashes:
  assumes "\<forall>p\<in>set ps. packet_ok p 0 \<and> length (payload_of p 0) = 1" "no_cr fl" "list_all header_line ls"
    "all_bytes ps = fl @ crlf @ lines_text ls @ crlf @ R"
  shows "readHeaders hc fin (new_message ps) = Inl AssertFailed"
proof -
  define Q where "Q = length fl + 2 + length (lines_text ls) + 2"
  have ok: "\<forall>p\<in>set ps. packet_ok p 0" using assms(1) by simp
  obtain used rest c where r: "received_to (new_message ps) used rest c Q"
    "readHeaders hc fin (new_message ps) = hbind (advance c (seek (chain c) Q) (- 2))
       (\<lambda>e. Inr (NoError, head_message hc ps c rest fl ls e))"
    by (rule read_head_loop [OF ok assms(2-4) Q_def, where hc = hc and fin = fin])
  have c: "acc_ok c" "chain c \<noteq> []" "Q \<le> length (acc_content c)" "ps = used @ rest"
    "map buf_bytes (chain c) = map (\<lambda>p. payload_of p 0) used"
    using r(1) by (auto simp: received_to_def received_def new_message_def chain_empty_acc)
  have "\<forall>b\<in>set (map buf_bytes (chain c)). length b = 1" unfolding c(5) using assms(1) c(4) by auto
  then have "\<forall>b\<in>set (chain c). b_size b = 1"
    using c(1) by (auto simp: acc_ok_def length_buf_bytes [symmetric])
  then have "advance c (seek (chain c) Q) (- 2) = Inl AssertFailed"
    by (intro advance_back_small c) (simp_all add: Q_def)
  then show ?thesis using r(2) by simp
qed

definition packet_of :: "string \<Rightarrow> packet" where
  "packet_of s = \<lparr>p_data = s, p_size = length s\<rparr>"

lemma packet_of_simps [simp]: "payload_of (packet_of s) 0 = s" "packet_ok (packet_of s) 0 \<longleftrightarrow> s \<noteq> []"
  by (simp_all add: packet_of_def payload_of_def packet_ok_def)

lemma sample_header: "header_line ''H: v''" "line_name ''H: v'' = ''H''" "line_value ''H: v'' = ''v''" "no_cr ''GET /''"
  by (simp_all add: header_line_def no_cr_def line_name_def line_value_def is_space_def)

theorem head_is_read_witness:
  "\<exists>m. readHeaders (\<lambda>seed c. seed) EndOfFile (new_message [packet_of ''GET'', packet_of ('' /'' @ [CHR 0x0D]),
       packet_of ([CHR 0x0A] @ ''H: v'' @ crlf @ crlf), packet_of ''X'']) = Inr (NoError, m) \<and>
     head_read (\<lambda>seed c. seed) m ''GET /'' [''H: v''] \<and> m_in m = [packet_of ''X'']"
proof -
  let ?ps = "[packet_of ''GET'', packet_of ('' /'' @ [CHR 0x0D]),
       packet_of ([CHR 0x0A] @ ''H: v'' @ crlf @ crlf), packet_of ''X'']"
  have 1: "\<forall>p\<in>set ?ps. packet_ok p 0" by simp
  have 2: "list_all header_line [''H: v'']" using sample_header by simp
  have 3: "?ps = [packet_of ''GET'', packet_of ('' /'' @ [CHR 0x0D])] @
      packet_of ([CHR 0x0A] @ ''H: v'' @ crlf @ crlf) # [packet_of ''X'']" by simp
  have 4: "all_bytes ?ps = ''GET /'' @ crlf @ lines_text [''H: v''] @ crlf @ ''X''" by (simp add: crlf_def)
  show ?thesis
    using head_is_read [OF 1 sample_header(4) 2 3 4, where hc = "\<lambda>seed c. seed" and fin = EndOfFile] by auto
qed

theorem bytewise_head_crashes_witness:
  "readHeaders (\<lambda>seed c. seed) EndOfFile (new_message (map (\<lambda>c. packet_of [c]) (''GET /'' @ crlf @ ''H: v'' @ crlf @ crlf))) =
     Inl AssertFailed"
  by (rule bytewise_head_crashes [of _ "''GET /''" "[''H: v'']" "[]"])
     (auto simp: sample_header crlf_def)

text \<open>
  What a client has sent behind a message is lost: \<open>reinit\<close> keeps it in the accumulator, but
  the next message is looked for only in packets received from then on.
\<close>

theorem pipelined_message_ignored:
  assumes "acc_ok (m_acc m)" "chain (m_acc m) \<noteq> []" "q \<le> length (acc_content (m_acc m))"
    "m_pos m = seek (chain (m_acc m)) q" "\<forall>p\<in>set (m_in m). packet_ok p 0" "no_cr l"
    "all_bytes (m_in m) = l @ crlf @ R"
  shows "\<exists>m1 m2. reinit m = Inr m1 \<and> acc_content (m_acc m1) = drop q (acc_content (m_acc m)) \<and>
    readFirstLine fin m1 = Inr (NoError, m2) \<and> seg_text (m_acc m2) (m_first m2) = Inr l"
proof -
  obtain c where c: "dropFront (m_acc m) (m_pos m) = Inr c" "acc_ok c" "acc_content c = drop q (acc_content (m_acc m))"
    using dropFront_ok [OF assms(1-3)] assms(4) by auto
  then obtain m1 where m1: "reinit m = Inr m1" "m_acc m1 = c" "m_mode m1 = EmFirstLine" "m_first m1 = no_segment"
    "m_in m1 = m_in m"
    by (simp add: reinit_def)
  have ok: "acc_ok (m_acc m1)" using m1(2) c(2) by simp
  have pk: "\<forall>p\<in>set (m_in m1). packet_ok p 0" "all_bytes (m_in m1) = l @ crlf @ R" using m1(5) assms(5,7) by simp_all
  let ?a = "length (acc_content (m_acc m1))"
  obtain used rest c' where r: "received_to m1 used rest c' (?a + length l + 2)"
    "readFirstLine fin m1 = Inr (NoError, m1\<lparr>m_acc := c', m_in := rest,
       m_first := (seek (chain c') ?a, seek (chain c') (?a + length l)),
       m_pos := seek (chain c') (?a + length l + 2), m_mode := EmHeaders\<rparr>)"
    by (rule first_line_received [OF ok m1(3,4) pk(1) assms(6) pk(2) refl, where fin = fin])
  have c': "acc_ok c'" "chain c' \<noteq> []" "?a + length l + 2 \<le> length (acc_content c')"
    using r(1) by (auto simp: received_to_def received_def)
  have "acc_content c' @ all_bytes rest = acc_content (m_acc m1) @ l @ crlf @ R"
    using received_to_text [OF r(1)] pk(2) by simp
  then have "take (length l) (drop ?a (acc_content c' @ all_bytes rest)) = l" by simp
  then have "take (length l) (drop ?a (acc_content c')) = l" using c'(3) by simp
  then have "seg_text c' (seek (chain c') ?a, seek (chain c') (?a + length l)) = Inr l"
    using seg_text_seek [OF c'(1,2), of ?a "?a + length l"] c'(3) by simp
  then show ?thesis using m1 c(3) r(2) by auto
qed

theorem pipelined_message_ignored_witness:
  "\<exists>m1 m2. reinit ((new_message [packet_of (''second'' @ crlf)])\<lparr>m_acc := sample_chain,
       m_pos := seek (chain sample_chain) 1\<rparr>) = Inr m1 \<and> acc_content (m_acc m1) = ''bc'' \<and>
     readFirstLine EndOfFile m1 = Inr (NoError, m2) \<and> seg_text (m_acc m2) (m_first m2) = Inr ''second''"
  using pipelined_message_ignored [of "(new_message [packet_of (''second'' @ crlf)])\<lparr>m_acc := sample_chain,
       m_pos := seek (chain sample_chain) 1\<rparr>" 1 "''second''" "[]" EndOfFile]
  by (simp add: sample_chain_ok new_message_def no_cr_def)

text \<open>
  Exactly when a message has neither a length nor the chunked coding nor a readable
  \<open>Connection\<close> header and its version is before 1.1, its framing depends on uninitialised
  memory, the value that was never parsed.
\<close>

theorem framing_uninitialised_iff:
  "(\<exists>j k. framing V j ver ce cl te co \<noteq> framing V k ver ce cl te co) \<longleftrightarrow>
     content_coding (Option.bind ce (parse_ce V)) \<noteq> None \<and> Option.bind cl (parse_unsigned V) = None \<and>
     (case Option.bind te (parse_te V) of None \<Rightarrow> True | Some e \<Rightarrow> e AND ete_chunked = 0) \<and>
     Option.bind co parse_connection = None \<and> version_less ver (1, 1)"
    (is "?L \<longleftrightarrow> ?R")
proof
  show ?R if ?L
    using that unfolding framing_def connection_value_def
    by (auto split: option.splits if_splits)
  assume r: ?R
  then obtain bc where bc: "content_coding (Option.bind ce (parse_ce V)) = Some bc" by blast
  have "connection_value j co = (False, j)" for j
    using r by (auto simp: connection_value_def split: option.splits)
  then have "framing V EcClose ver ce cl te co = Some (bc, UntilClose)" "framing V EcUnknown ver ce cl te co = None"
    using r bc by (auto simp: framing_def split: option.splits)
  then show ?L by (metis option.distinct(1))
qed

end
