(* ===== verification/HttpMessageBody.thy ===== *)
theory HttpMessageBody
  imports HttpMessageRead
begin

text \<open>
  Reading a whole message: the head, the framing its headers ask for, and the body through the
  extractor, with what has been received behind the head handed over and what is behind the
  body given back.
\<close>

subsection \<open>The bodies on the wire\<close>

text \<open>The bytes \<open>s\<close> at hand and the packets to come hold the body \<open>B\<close> and behind it \<open>T\<close>.\<close>

fun body_text :: "spirit \<Rightarrow> ecode \<Rightarrow> body_kind \<Rightarrow> string \<Rightarrow> packet list \<Rightarrow> string \<Rightarrow> string \<Rightarrow> bool" where
  "body_text H fin (SizedBody n) s ps B T \<longleftrightarrow> s @ all_bytes ps = B @ T \<and> length B = n"
| "body_text H fin (ChunkedBody es n) s ps B T \<longleftrightarrow> spirit_hex H \<and> expects es n (s @ all_bytes ps) B T \<and>
     (s = [] \<or> last s \<noteq> CHR 0x0D) \<and> (\<forall>p\<in>set ps. last (payload_of p 0) \<noteq> CHR 0x0D)"
| "body_text H fin UntilClose s ps B T \<longleftrightarrow> fin = EndOfFile \<and> s @ all_bytes ps = B \<and> T = []"

context extraction
begin

lemma extract_body:
  assumes "ext_ok e" "body_text H fin (kind e) (acc_content (strm e)) ps B T" "\<forall>p\<in>set ps. packet_ok p 0"
  shows "\<exists>e1 e2 rest T1. process_all H DB DT e = Inr (NoError, e1) \<and>
     read_channel H DB DT fin ps e1 = Inr (NoError, e2, rest) \<and> ext_ok e2 \<and>
     contb (bodyd e2) = contb (bodyd e) @ B \<and> contt (taild e2) = contt (taild e) @ T1 \<and> T = T1 @ all_bytes rest"
proof (cases "kind e")
  case (SizedBody n)
  let ?s = "acc_content (strm e)"
  have BT: "?s @ all_bytes ps = B @ T" "length B = n" using assms(2) SizedBody by simp_all
  obtain e1 where e1: "process_all H DB DT e = Inr (NoError, e1)" "ext_ok e1" "acc_content (strm e1) = []"
    "kind e1 = SizedBody (n - length ?s)" "contb (bodyd e1) = contb (bodyd e) @ take n ?s"
    "contt (taild e1) = contt (taild e) @ drop n ?s"
    by (rule process_all_sized [OF assms(1) SizedBody, where H = H])
  have len: "length ?s + length (all_bytes ps) = n + length T"
    using arg_cong [OF BT(1), of length] BT(2) by simp
  then have "n - length ?s \<le> length (concat (map (\<lambda>p. payload_of p 0) ps))" by (simp add: all_bytes_def)
  from read_sized [OF e1(2-4), of ps H fin, unfolded if_P [OF this]] assms(3)
  have "\<exists>used rest e2. ps = used @ rest \<and> read_base H DB DT fin ps e1 = Inr (NoError, e2, rest) \<and> ext_ok e2 \<and>
      contb (bodyd e2) = contb (bodyd e1) @ take (n - length ?s) (all_bytes ps) \<and>
      contt (taild e2) = contt (taild e1) @ drop (n - length ?s) (all_bytes used) \<and>
      n - length ?s \<le> length (all_bytes used)"
    unfolding all_bytes_def by blast
  then obtain used rest e2 where r: "ps = used @ rest" "read_base H DB DT fin ps e1 = Inr (NoError, e2, rest)" "ext_ok e2"
    "contb (bodyd e2) = contb (bodyd e1) @ take (n - length ?s) (all_bytes ps)"
    "contt (taild e2) = contt (taild e1) @ drop (n - length ?s) (all_bytes used)"
    "n - length ?s \<le> length (all_bytes used)"
    by blast
  have "take n (?s @ all_bytes ps) = B" "drop n (?s @ all_bytes ps) = T" unfolding BT(1) using BT(2) by simp_all
  then have "take n ?s @ take (n - length ?s) (all_bytes ps) = B" "T = drop n ?s @ drop (n - length ?s) (all_bytes ps)"
    by simp_all
  moreover have "drop (n - length ?s) (all_bytes ps) = drop (n - length ?s) (all_bytes used) @ all_bytes rest"
    unfolding r(1) using r(6) by simp
  moreover have "read_channel H DB DT fin ps e1 = Inr (NoError, e2, rest)"
    using r(2) e1(4) by (simp add: read_channel_def)
  ultimately show ?thesis using e1 r
    by (intro exI [of _ e1] exI [of _ e2] exI [of _ rest] exI [of _ "drop n ?s @ drop (n - length ?s) (all_bytes used)"]) simp
next
  case (ChunkedBody es n)
  let ?s = "acc_content (strm e)"
  have H: "spirit_hex H" "expects es n (?s @ all_bytes ps) B T" "?s = [] \<or> last ?s \<noteq> CHR 0x0D"
    and ps: "\<And>p. p \<in> set ps \<Longrightarrow> packet_ok p 0 \<and> last (payload_of p 0) \<noteq> CHR 0x0D"
    using assms(2,3) ChunkedBody by simp_all
  from process_all_chunked [OF H(1) assms(1) ChunkedBody H(2,3)]
  obtain e1 es1 n1 B1 B2 T1 T2 where e1: "process_all H DB DT e = Inr (NoError, e1)" "ext_ok e1"
    "kind e1 = ChunkedBody es1 n1" "expects es1 n1 (acc_content (strm e1) @ all_bytes ps) B2 T2"
    "B = B1 @ B2" "T = T1 @ T2" "contb (bodyd e1) = contb (bodyd e) @ B1" "contt (taild e1) = contt (taild e) @ T1"
    "es1 = EsDone \<longrightarrow> acc_content (strm e1) = []" "all_bytes ps = [] \<longrightarrow> es1 = EsDone"
    by blast
  have "es1 = EsDone \<Longrightarrow> acc_content (strm e1) = []" "ps = [] \<Longrightarrow> es1 = EsDone"
    using e1(9,10) by (simp_all add: all_bytes_def)
  from read_chunked [OF H(1) e1(2-4) ps this, of fin]
  obtain e2 used rest U where "ps = used @ rest" "read_base H DB DT fin ps e1 = Inr (NoError, e2, rest)" "ext_ok e2"
    "contb (bodyd e2) = contb (bodyd e1) @ B2" "contt (taild e2) = contt (taild e1) @ U" "T2 = U @ all_bytes rest"
    by blast
  then show ?thesis using e1 by (intro exI [of _ e1] exI [of _ e2] exI [of _ rest] exI [of _ "T1 @ U"]) (simp add: read_channel_def)
next
  case UntilClose
  let ?s = "acc_content (strm e)"
  have B: "fin = EndOfFile" "?s @ all_bytes ps = B" "T = []" using assms(2) UntilClose by simp_all
  obtain e1 where e1: "process_all H DB DT e = Inr (NoError, e1)" "ext_ok e1" "acc_content (strm e1) = []"
    "kind e1 = UntilClose" "contb (bodyd e1) = contb (bodyd e) @ ?s" "contt (taild e1) = contt (taild e)"
    by (rule process_all_until_close [OF assms(1) UntilClose, where H = H])
  obtain e2 where e2: "read_base H DB DT fin ps e1 = Inr (fin, e2, [])" "ext_ok e2"
    "contb (bodyd e2) = contb (bodyd e1) @ all_bytes ps" "contt (taild e2) = contt (taild e1)"
    using read_close [OF e1(2-4), of ps H fin] assms(3) by (auto simp: all_bytes_def)
  obtain e3 where "ext_flush DB DT e2 = Inr (NoError, e3)" "ext_ok e3" "contb (bodyd e3) = contb (bodyd e2)"
    "contt (taild e3) = contt (taild e2)"
    by (rule ext_flush_ok [OF e2(2)])
  then show ?thesis using e1 e2 B
    by (intro exI [of _ e1] exI [of _ e3] exI [of _ "[]"] exI [of _ "[]"])
       (simp add: read_channel_def read_until_close_def)
qed

end

text \<open>The message's accumulator as the tail: buffers are added to it and none is changed.\<close>

interpretation tail: extraction acc_decoder acc_ok acc_content acc_decoder "\<lambda>c. acc_ok c \<and> extends t c" acc_content for t
proof (unfold_locales)
  show "\<exists>s'. d_push acc_decoder s p off = Inr (NoError, s') \<and> (acc_ok s' \<and> extends t s') \<and>
      acc_content s' = acc_content s @ payload_of p off"
    if "acc_ok s \<and> extends t s" "packet_ok p off" for s p off
  proof -
    note h = that
    obtain s' b where "acc_push s p off = Inr (NoError, s')" "acc_ok s'"
      "acc_content s' = acc_content s @ payload_of p off" "chain s' = chain s @ [b]"
      by (rule acc_push_extends [OF conjunct1 [OF h(1)] h(2)])
    then show ?thesis using h(1) by (auto simp: acc_decoder_def extends_def)
  qed
qed (simp add: acc_decoder_def acc_flush_def)

subsection \<open>The position behind the head\<close>

lemma seek_in: "bs \<noteq> [] \<Longrightarrow> it_buf (seek bs q) \<in> Some ` addr ` set bs"
  by (induction bs arbitrary: q) auto

lemma dropTail_chain:
  assumes "acc_ok c" "chain c \<noteq> []" "q \<le> length (acc_content c)" "0 < q"
    "it_buf (seek (chain c) q) = last_ptr c" "it_buf (seek (chain c) (q - 1)) = last_ptr c"
  obtains xs b t where "dropTail c (seek (chain c) q) = Inr t" "chain t = xs @ [b]"
    "seek (chain c) q = \<lparr>it_buf = Some (addr b), it_pos = b_end b\<rparr>" "sum_list (map b_size xs) + b_size b = q"
proof -
  obtain xs d ys k where *: "chain c = xs @ d # ys" "q = sum_list (map b_size xs) + k"
    "k < b_size d \<or> ys = [] \<and> k \<le> b_size d" "buf_ok d"
    "seek (chain c) q = \<lparr>it_buf = Some (addr d), it_pos = b_begin d + k\<rparr>"
    using positionE [OF assms(1-3)] by metis
  have "distinct (map addr (xs @ d # ys))" "last_ptr c = Some (addr (last (d # ys)))"
    using assms(1) *(1) by (auto simp: acc_ok_def)
  moreover have "last_ptr c = Some (addr d)" using assms(5) *(5) by simp
  ultimately have d: "addr d \<notin> addr ` set xs" "ys = []" "last_ptr c = Some (addr d)"
    by (auto split: if_splits)
  have k: "0 < k"
  proof (rule ccontr)
    assume "\<not> 0 < k"
    then have q: "q = sum_list (map b_size xs)" using *(2) by simp
    then have "xs \<noteq> []" using assms(4) by auto
    moreover have "seek (chain c) (q - 1) = seek xs (q - 1)"
      unfolding *(1) by (rule seek_snoc) (use q assms(4) in simp)
    ultimately show False using seek_in [of xs "q - 1"] assms(6) d(1,3) by auto
  qed
  define b where "b = d\<lparr>b_end := b_begin d + k\<rparr>"
  have b: "b_size b = k" "addr b = addr d" "b_end b = b_begin d + k" by (simp_all add: b_def b_size_def)
  have "b_begin d + k \<le> b_end d" "b_end d \<le> length (arr d)"
    using *(3,4) by (auto simp: b_size_def buf_ok_def)
  moreover have "from_buf (addr d) (chain c) = [d]" "preds (addr d) (chain c) = xs"
    using d(1,2) by (simp_all add: *(1))
  moreover have "chain c \<noteq> []" using assms(2) .
  ultimately have "dropTail c (seek (chain c) q) = Inr (c\<lparr>acc_size := b_offset b + b_size b, chain := xs @ [b]\<rparr>)"
    using k unfolding *(5) dropTail_def by (simp add: b_def b_size_def)
  moreover have "sum_list (map b_size xs) + b_size b = q" "seek (chain c) q = \<lparr>it_buf = Some (addr b), it_pos = b_end b\<rparr>"
    unfolding b *(5) by (simp_all add: *(2))
  ultimately show ?thesis using that by simp
qed

lemma normalize_moved:
  assumes "acc_ok c" "extends t c" "chain t = xs @ [b]"
  shows "normalize c \<lparr>it_buf = Some (addr b), it_pos = b_end b\<rparr> =
    Inr (seek (chain c) (sum_list (map b_size xs) + b_size b))"
proof -
  obtain zs where c: "chain c = xs @ b # zs" using assms(2,3) by (auto simp: extends_def)
  have ok: "buf_ok b" "\<forall>z\<in>set zs. buf_ok z" using assms(1) c by (auto simp: acc_ok_def)
  have loc: "locate c \<lparr>it_buf = Some (addr b), it_pos = b_end b\<rparr> = Inr (xs, b, zs)"
    by (rule locate_split) (use assms(1) c ok in \<open>auto simp: acc_ok_def buf_ok_def\<close>)
  have e: "b_begin b + b_size b = b_end b" using ok(1) by (simp add: b_size_def buf_ok_def)
  show ?thesis
  proof (cases zs)
    case Nil
    then have "seek (chain c) (sum_list (map b_size xs) + b_size b) = \<lparr>it_buf = Some (addr b), it_pos = b_end b\<rparr>"
      using seek_at [of "b_size b" b "[]" xs] c e by simp
    then show ?thesis by (simp add: normalize_def loc Nil)
  next
    case (Cons n ns)
    then have "buf_ok n" using ok(2) by simp
    then have "seek (chain c) (sum_list (map b_size xs) + b_size b) = \<lparr>it_buf = Some (addr n), it_pos = b_begin n\<rparr>"
      using seek_next [of n xs b ns] c Cons by simp
    then show ?thesis using \<open>buf_ok n\<close> by (simp add: normalize_def loc Cons enter_def buf_ok_def)
  qed
qed

subsection \<open>Reading the body\<close>

text \<open>Without a content coding the decoder of the body is the accumulator.\<close>

definition plain_decoder :: "accumuler body_decoder" where
  "plain_decoder = \<lparr>bd_ops = acc_decoder, bd_new = (\<lambda>bc a. a), bd_acc = (\<lambda>a. a)\<rparr>"

definition field :: "(u64 \<Rightarrow> char \<Rightarrow> u64) \<Rightarrow> string list \<Rightarrow> string \<Rightarrow> string option" where
  "field hc ls name = map_option line_value (find (\<lambda>l. hn_key hc (line_name l) = instance_key name) ls)"

lemma header_text_head:
  assumes "head_read hc m fl ls"
  shows "header_text m name = Inr (field hc ls name)"
proof -
  have "case find (\<lambda>l. hn_key hc (line_name l) = instance_key name) ls of None \<Rightarrow> header_of m (instance_key name) = None
      | Some l \<Rightarrow> (\<exists>s. header_of m (instance_key name) = Some s \<and> seg_text (m_acc m) s = Inr (line_value l))"
    using assms unfolding head_read_def by blast
  then show ?thesis by (auto simp: header_text_def field_def split: option.splits)
qed

lemma prepare_head:
  assumes "head_read hc m fl ls"
  shows "prepareBodyExtractor V junk m = Inr (framing V junk (m_version m) (field hc ls ''Content-Encoding'')
     (field hc ls ''Content-Length'') (field hc ls ''Transfer-Encoding'') (field hc ls ''Connection''))"
  using header_text_head [OF assms] by (simp add: prepareBodyExtractor_def)

lemma body_segment:
  assumes "acc_ok b"
  obtains e where "acc_size b = 0 \<Longrightarrow> seg_text b no_segment = Inr (acc_content b)"
    "acc_size b \<noteq> 0 \<Longrightarrow> acc_end b = Inr e \<and> seg_text b (acc_begin b, e) = Inr (acc_content b)"
proof (cases "acc_size b = 0")
  case True
  then have "acc_content b = []" using acc_size_content [OF assms] by simp
  then show ?thesis using that True by (simp add: seg_text_def no_segment_def)
next
  case False
  then have ne: "chain b \<noteq> []" using acc_size_content [OF assms] by (auto simp: acc_content_def)
  have "seg_text b (acc_begin b, seek (chain b) (length (acc_content b))) = Inr (acc_content b)"
    using seg_text_seek [OF assms ne, of 0 "length (acc_content b)"] by (simp add: acc_begin_seek [OF assms])
  then show ?thesis using that [of "seek (chain b) (length (acc_content b))"] acc_end_seek [OF assms ne] False by simp
qed

lemma readBody_ok:
  assumes "m_mode m = EmBody" "at_text m q R" "0 < q" "prepareBodyExtractor V junk m = Inr (Some (PlainBody, k))"
    "it_buf (seek (chain (m_acc m)) q) = last_ptr (m_acc m)" "it_buf (seek (chain (m_acc m)) (q - 1)) = last_ptr (m_acc m)"
    "body_text H fin k (drop q (acc_content (m_acc m))) (m_in m) B T"
  obtains m1 m2 b where "readBody plain_decoder H V junk hc fin m = Inr (NoError, m1)" "m_mode m1 = EmDone"
    "m_body_acc m1 = Some b" "seg_text b (m_body m1) = Inr B"
    "reinit m1 = Inr m2" "acc_content (m_acc m2) @ all_bytes (m_in m2) = T"
proof -
  let ?c = "m_acc m"
  have m: "acc_ok ?c" "chain ?c \<noteq> []" "m_pos m = seek (chain ?c) q" "q \<le> length (acc_content ?c)"
    "\<forall>p\<in>set (m_in m). packet_ok p 0"
    using assms(2) by (simp_all add: at_text_def)
  obtain s t where st: "acc_ok s" "acc_content s = drop q (acc_content ?c)" "acc_ok t" "acc_content t = take q (acc_content ?c)"
    "read_from H acc_decoder (seek (chain ?c) q) (fresh_extractor k ?c) =
       process_all H acc_decoder acc_decoder ((fresh_extractor k ?c)\<lparr>strm := s, taild := t\<rparr>)"
    "dropTail ?c (seek (chain ?c) q) = Inr t"
    by (rule read_from_starts [OF m(1,2,4), where H = H and k = k]) (use assms(6) in blast)+
  obtain xs d t' where d: "dropTail ?c (seek (chain ?c) q) = Inr t'" "chain t' = xs @ [d]"
    "seek (chain ?c) q = \<lparr>it_buf = Some (addr d), it_pos = b_end d\<rparr>" "sum_list (map b_size xs) + b_size d = q"
    by (rule dropTail_chain [OF m(1,2,4) assms(3,5,6)])
  have t: "t' = t" using st(6) d(1) by simp
  define e where "e = (fresh_extractor k ?c)\<lparr>strm := s, taild := t\<rparr>"
  have e: "tail.ext_ok t e" "body_text H fin (kind e) (acc_content (strm e)) (m_in m) B T"
    using st assms(7) by (simp_all add: e_def tail.ext_ok_def fresh_extractor_def acc_ok_empty)
  from tail.extract_body [OF e m(5)] obtain e1 e2 rest T1 where x:
    "process_all H acc_decoder acc_decoder e = Inr (NoError, e1)"
    "read_channel H acc_decoder acc_decoder fin (m_in m) e1 = Inr (NoError, e2, rest)" "tail.ext_ok t e2"
    "acc_content (bodyd e2) = acc_content (bodyd e) @ B" "acc_content (taild e2) = acc_content (taild e) @ T1"
    "T = T1 @ all_bytes rest" by blast
  have cont: "acc_content (bodyd e2) = B" "acc_content (taild e2) = take q (acc_content ?c) @ T1"
    using x(4,5) st(4) by (simp_all add: e_def fresh_extractor_def acc_content_empty)
  have ok: "acc_ok (bodyd e2)" "acc_ok (taild e2)" "extends t (taild e2)" using x(3) by (simp_all add: tail.ext_ok_def)
  have fl: "ext_flush acc_decoder acc_decoder e2 = Inr (NoError, e2)"
    by (simp add: ext_flush_def acc_decoder_def acc_flush_def)
  have norm: "normalize (taild e2) (m_pos m) = Inr (seek (chain (taild e2)) q)"
    using normalize_moved [OF ok(2,3) d(2) [unfolded t]] d(3,4) m(3) by simp
  obtain be where be: "acc_size (bodyd e2) = 0 \<Longrightarrow> seg_text (bodyd e2) no_segment = Inr B"
    "acc_size (bodyd e2) \<noteq> 0 \<Longrightarrow> acc_end (bodyd e2) = Inr be \<and> seg_text (bodyd e2) (acc_begin (bodyd e2), be) = Inr B"
    using body_segment [OF ok(1)] unfolding cont(1) by metis
  define m1 where "m1 = m\<lparr>m_acc := taild e2, m_body_acc := Some (bodyd e2), m_in := rest, m_pos := seek (chain (taild e2)) q,
    m_body := (if acc_size (bodyd e2) = 0 then no_segment else (acc_begin (bodyd e2), be)), m_mode := EmDone\<rparr>"
  have "readBody plain_decoder H V junk hc fin m = Inr (NoError, m1)"
  proof -
    have "read_from H acc_decoder (m_pos m) \<lparr>kind = k, strm = empty_acc, bodyd = empty_acc, taild = ?c\<rparr> = Inr (NoError, e1)"
      using st(5) x(1) m(3) by (simp add: fresh_extractor_def e_def)
    then show ?thesis using assms(1,4) x(2) fl norm be
      by (simp add: readBody_def plain_decoder_def m1_def Let_def)
  qed
  moreover have "q \<le> length (acc_content (taild e2))" "chain (taild e2) \<noteq> []"
    using cont(2) m(4) ok(3) d(2) t by (auto simp: extends_def)
  with dropFront_ok [OF ok(2)] obtain c' where "dropFront (taild e2) (seek (chain (taild e2)) q) = Inr c'"
    "acc_content c' = drop q (acc_content (taild e2))" by blast
  then obtain m2 where "reinit m1 = Inr m2" "acc_content (m_acc m2) = T1" "m_in m2 = rest"
    using cont(2) m(4) by (simp add: reinit_def m1_def)
  ultimately show ?thesis
    using that [of m1 "bodyd e2" m2] be x(6) by (cases "acc_size (bodyd e2) = 0") (simp_all add: m1_def)
qed

lemma whole_message:
  assumes "\<forall>p\<in>set ps. packet_ok p 0" "no_cr fl" "list_all header_line ls" "ps = ps1 @ p # ps2"
    "all_bytes ps = fl @ crlf @ lines_text ls @ crlf @ R"
    "length (all_bytes ps1) \<le> length (fl @ crlf @ lines_text ls)"
    "length (fl @ crlf @ lines_text ls @ crlf) \<le> length (all_bytes (ps1 @ [p]))"
    "framing V junk (0, 0) (field hc ls ''Content-Encoding'') (field hc ls ''Content-Length'')
       (field hc ls ''Transfer-Encoding'') (field hc ls ''Connection'') = Some (PlainBody, k)"
    "body_text H fin k (drop (length (fl @ crlf @ lines_text ls @ crlf)) (all_bytes (ps1 @ [p]))) ps2 B T"
  shows "\<exists>m m' b. readBody plain_decoder H V junk hc fin (new_message ps) = Inr (NoError, m) \<and>
    m_body_acc m = Some b \<and> seg_text b (m_body m) = Inr B \<and>
    reinit m = Inr m' \<and> acc_content (m_acc m') @ all_bytes (m_in m') = T"
proof -
  define Q where "Q = length fl + 2 + length (lines_text ls) + 2"
  have Q: "length (fl @ crlf @ lines_text ls @ crlf) = Q" by (simp add: Q_def)
  obtain c where c: "readHeaders hc fin (new_message ps) =
      Inr (NoError, head_message hc ps c ps2 fl ls (seek (chain c) (Q - 2)))"
    "received_to (new_message ps) (ps1 @ [p]) ps2 c Q" "it_buf (seek (chain c) (Q - 1)) = last_ptr c"
    "it_buf (seek (chain c) Q) = last_ptr c"
    by (rule read_head_ok [OF assms(1-5) Q_def, where hc = hc and fin = fin]) (use assms(6,7) in \<open>simp_all add: Q_def\<close>)
  let ?m = "head_message hc ps c ps2 fl ls (seek (chain c) (Q - 2))"
  have head: "head_read hc ?m fl ls" "at_text ?m Q R"
    using head_message_read [OF c(2) assms(3,5) Q_def assms(1)] by blast+
  have "acc_content c = all_bytes (ps1 @ [p])"
    using c(2) received_content [of "new_message ps" "ps1 @ [p]" ps2 c]
    by (simp add: received_to_def new_message_def acc_content_empty)
  then have body: "body_text H fin k (drop Q (acc_content (m_acc ?m))) (m_in ?m) B T" using assms(9) Q by simp
  have "m_version ?m = (0, 0)" by (simp add: head_message_def new_message_def)
  then have prep: "prepareBodyExtractor V junk ?m = Inr (Some (PlainBody, k))"
    using prepare_head [OF head(1)] assms(8) by simp
  obtain m1 m2 b where r: "readBody plain_decoder H V junk hc fin ?m = Inr (NoError, m1)" "m_mode m1 = EmDone"
    "m_body_acc m1 = Some b" "seg_text b (m_body m1) = Inr B"
    "reinit m1 = Inr m2" "acc_content (m_acc m2) @ all_bytes (m_in m2) = T"
    by (rule readBody_ok [OF _ head(2) _ prep _ _ body, where hc = hc]) (use c(3,4) in \<open>simp_all add: Q_def\<close>)
  have "m_mode (new_message ps) = EmFirstLine" by (simp add: new_message_def)
  then have "readBody plain_decoder H V junk hc fin (new_message ps) = readBody plain_decoder H V junk hc fin ?m"
    using c(1) by (simp add: readBody_def [of _ _ _ _ _ _ "new_message ps"] readBody_def [of _ _ _ _ _ _ ?m])
  then show ?thesis using r by auto
qed

subsection \<open>Properties\<close>


definition sample_hash :: "u64 \<Rightarrow> char \<Rightarrow> u64" where
  "sample_hash seed c = hash_combine seed (char_size_t c)"

definition sample_numbers :: hvlib where
  "sample_numbers = \<lparr>dec_uint = (\<lambda>s. if s = ''3'' then Some (3, []) else None), dec_positive = (\<lambda>s. None)\<rparr>"

lemma sample_fields:
  "field sample_hash [''content-length: 3''] ''Content-Encoding'' = None"
  "field sample_hash [''content-length: 3''] ''Content-Length'' = Some ''3''"
  "field sample_hash [''content-length: 3''] ''Transfer-Encoding'' = None"
  "field sample_hash [''content-length: 3''] ''Connection'' = None"
  by code_simp+


end
