(* ===== verification/AsyncEvent.thy ===== *)
theory AsyncEvent
  imports Prelude
begin

text \<open>
  Events of the fiber scheduler (async/impl/event.cpp): a fiber waits for one event or for any
  of several, another fiber sets it.  Fibers, events and notifiers are numbers, the addresses
  of the objects; the queue of ready fibers is the pool's.  Every operation on an event holds the
  event's mutex, so it is one step; a fiber that registers for several events holds the mutex
  of its notifier from the first to the last of them, and takes one step per event.
\<close>

subsection \<open>Events and notifiers\<close>

datatype efault = EvAssert | EvBadIterator

type_synonym 'a eresult = "efault + 'a"

text \<open>The key of a notifier: null, the place of an event in the array given to \<open>waitAny\<close>, or the
  address of the implementation of an event that was set from the start.\<close>

datatype rkey = NoKey | KeyPlace nat | KeyImpl nat

record notifier =
  mn_initiator :: nat
  mn_key :: rkey

record event =
  is_set :: bool
  auto_reset :: bool
  ev_waiters :: "nat list"
  mn_waiters :: "(nat \<times> rkey) list"

record world =
  events :: "nat \<Rightarrow> event"
  notifiers :: "nat \<Rightarrow> notifier"
  ready :: "nat list"

definition new_event :: "bool \<Rightarrow> event" where
  "new_event auto = \<lparr>is_set = False, auto_reset = auto, ev_waiters = [], mn_waiters = []\<rparr>"

abbreviation put_event :: "nat \<Rightarrow> event \<Rightarrow> world \<Rightarrow> world" where
  "put_event i e w \<equiv> w\<lparr>events := (events w)(i := e)\<rparr>"

definition fiberReady :: "nat \<Rightarrow> world \<Rightarrow> world" where
  "fiberReady f w = w\<lparr>ready := ready w @ [f]\<rparr>"

definition notifyReady :: "nat \<Rightarrow> rkey \<Rightarrow> world \<Rightarrow> bool \<times> world" where
  "notifyReady n k w = (let m = notifiers w n in
     if mn_key m \<noteq> NoKey then (False, w)
     else (True, fiberReady (mn_initiator m) (w\<lparr>notifiers := (notifiers w)(n := m\<lparr>mn_key := k\<rparr>)\<rparr>)))"

text \<open>The loops of \<open>set\<close>: notify every multiple waiter; notify until one accepts, giving those
  behind it; make every waiter ready.\<close>

fun notify_all :: "(nat \<times> rkey) list \<Rightarrow> world \<Rightarrow> world" where
  "notify_all [] w = w"
| "notify_all ((n, k) # ms) w = notify_all ms (snd (notifyReady n k w))"

fun notify_first :: "(nat \<times> rkey) list \<Rightarrow> world \<Rightarrow> (nat \<times> rkey) list option \<times> world" where
  "notify_first [] w = (None, w)"
| "notify_first ((n, k) # ms) w =
     (case notifyReady n k w of (b, w') \<Rightarrow> if b then (Some ms, w') else notify_first ms w')"

fun wake_all :: "nat list \<Rightarrow> world \<Rightarrow> world" where
  "wake_all [] w = w"
| "wake_all (f # fs) w = wake_all fs (fiberReady f w)"

text \<open>\<open>set(all)\<close> by the fiber \<open>cur\<close>.  With \<open>all\<close>, an automatic event goes on with an iterator that
  the erasure has invalidated.\<close>

definition set_manual :: "nat \<Rightarrow> nat \<Rightarrow> world \<Rightarrow> world eresult" where
  "set_manual cur i w = (let e = events w i; w1 = notify_all (mn_waiters e) w in
     if cur \<in> set (ev_waiters e) then Inl EvAssert
     else Inr (put_event i (e\<lparr>is_set := True, mn_waiters := [], ev_waiters := []\<rparr>) (wake_all (ev_waiters e) w1)))"

definition set_auto :: "nat \<Rightarrow> bool \<Rightarrow> world \<Rightarrow> world eresult" where
  "set_auto i all w = (let e = events w i in
     case notify_first (mn_waiters e) w of
       (Some rest, w1) \<Rightarrow> if all then Inl EvBadIterator else Inr (put_event i (e\<lparr>mn_waiters := rest\<rparr>) w1)
     | (None, w1) \<Rightarrow> (case ev_waiters e of
           [] \<Rightarrow> Inr (put_event i (e\<lparr>is_set := True, mn_waiters := []\<rparr>) w1)
         | f # fs \<Rightarrow>
             if all then Inr (put_event i (e\<lparr>mn_waiters := [], ev_waiters := []\<rparr>) (wake_all (f # fs) w1))
             else Inr (put_event i (e\<lparr>mn_waiters := [], ev_waiters := fs\<rparr>) (fiberReady f w1))))"

definition set_event :: "nat \<Rightarrow> nat \<Rightarrow> bool \<Rightarrow> world \<Rightarrow> world eresult" where
  "set_event cur i all w =
     (if is_set (events w i) then Inr w
      else if \<not> auto_reset (events w i) then set_manual cur i w else set_auto i all w)"

definition reset_event :: "nat \<Rightarrow> world \<Rightarrow> world eresult" where
  "reset_event i w = (let e = events w i in
     if is_set e
     then (if ev_waiters e \<noteq> [] then Inl EvAssert else Inr (put_event i (e\<lparr>is_set := False\<rparr>) w))
     else Inr w)"

text \<open>The part of \<open>wait\<close> under the mutex: whether the fiber has to yield.\<close>

definition wait_event :: "nat \<Rightarrow> nat \<Rightarrow> world \<Rightarrow> (bool \<times> world) eresult" where
  "wait_event f i w = (let e = events w i in
     if \<not> length (ev_waiters e) < 200 then Inl EvAssert
     else if is_set e
       then Inr (False, if auto_reset e then put_event i (e\<lparr>is_set := False\<rparr>) w else w)
     else Inr (True, put_event i (e\<lparr>ev_waiters := ev_waiters e @ [f]\<rparr>) w))"

definition mnWait :: "nat \<Rightarrow> nat \<Rightarrow> rkey \<Rightarrow> world \<Rightarrow> bool \<times> world" where
  "mnWait i n k w = (let e = events w i in
     if is_set e
     then (False, if auto_reset e then put_event i (e\<lparr>is_set := False\<rparr>) w else w)
     else (True, put_event i (e\<lparr>mn_waiters := mn_waiters e @ [(n, k)]\<rparr>) w))"

fun remove_notifier :: "nat \<Rightarrow> (nat \<times> rkey) list \<Rightarrow> (nat \<times> rkey) list" where
  "remove_notifier n [] = []"
| "remove_notifier n ((m, k) # ms) = (if m = n then ms else (m, k) # remove_notifier n ms)"

definition mnCancel :: "nat \<Rightarrow> nat \<Rightarrow> world \<Rightarrow> world" where
  "mnCancel i n w = (let e = events w i in put_event i (e\<lparr>mn_waiters := remove_notifier n (mn_waiters e)\<rparr>) w)"

definition destroy_event :: "event \<Rightarrow> nat list eresult" where
  "destroy_event e = (if ev_waiters e \<noteq> [] then Inl EvAssert else Inr [])"

subsection \<open>Fibers that use events\<close>

text \<open>Where a fiber is: in its own code; in \<open>wait\<close> behind the mutex; in \<open>waitAny\<close>, registering,
  with the events done and to do; blocked there; or cancelling the registrations left, with the
  place of the event to return.\<close>

datatype pc = Running | Waiting nat | Registering nat "nat list" "nat list" | AnyBlocked nat "nat list"
  | Cancelling nat "nat list" nat

record system =
  wld :: world
  pcs :: "nat \<Rightarrow> pc"
  nlock :: "nat set"
  fresh_n :: nat

abbreviation goto :: "nat \<Rightarrow> pc \<Rightarrow> system \<Rightarrow> system" where
  "goto f p s \<equiv> s\<lparr>pcs := (pcs s)(f := p)\<rparr>"

abbreviation evt :: "system \<Rightarrow> nat \<Rightarrow> event" where
  "evt s i \<equiv> events (wld s) i"

text \<open>The parts of \<open>waitAny\<close> between two operations on events.\<close>

definition any_start :: "nat \<Rightarrow> nat list \<Rightarrow> system \<Rightarrow> system" where
  "any_start f evs s = (let n = fresh_n s; w = wld s in
     goto f (Registering n [] evs) (s\<lparr>wld := w\<lparr>notifiers := (notifiers w)(n := \<lparr>mn_initiator = f, mn_key = NoKey\<rparr>)\<rparr>,
       nlock := insert n (nlock s), fresh_n := Suc n\<rparr>))"

definition any_found :: "nat \<Rightarrow> nat \<Rightarrow> nat list \<Rightarrow> nat \<Rightarrow> system \<Rightarrow> system" where
  "any_found f n ds i s = (let w = wld s in
     goto f (Cancelling n ds (length ds))
       (s\<lparr>wld := w\<lparr>notifiers := (notifiers w)(n := (notifiers w n)\<lparr>mn_key := KeyImpl i\<rparr>)\<rparr>, nlock := nlock s - {n}\<rparr>))"

definition any_block :: "nat \<Rightarrow> nat \<Rightarrow> nat list \<Rightarrow> system \<Rightarrow> system" where
  "any_block f n ds s = goto f (AnyBlocked n ds) (s\<lparr>nlock := nlock s - {n}\<rparr>)"

text \<open>A ready fiber is activated; where another worker still holds it, it goes to the end.\<close>

inductive step :: "system \<Rightarrow> system \<Rightarrow> bool" where
  step_set: "pcs s f = Running \<Longrightarrow> \<not> is_set (evt s i) \<Longrightarrow> \<forall>(n, k)\<in>set (mn_waiters (evt s i)). n \<notin> nlock s \<Longrightarrow>
     set_event f i all (wld s) = Inr w \<Longrightarrow> step s (s\<lparr>wld := w\<rparr>)"
| step_reset: "pcs s f = Running \<Longrightarrow> reset_event i (wld s) = Inr w \<Longrightarrow> step s (s\<lparr>wld := w\<rparr>)"
| step_wait: "pcs s f = Running \<Longrightarrow> wait_event f i (wld s) = Inr (b, w) \<Longrightarrow>
     step s (goto f (if b then Waiting i else Running) (s\<lparr>wld := w\<rparr>))"
| step_any: "pcs s f = Running \<Longrightarrow> step s (any_start f evs s)"
| step_register: "pcs s f = Registering n ds (i # is) \<Longrightarrow> mnWait i n (KeyPlace (length ds)) (wld s) = (True, w) \<Longrightarrow>
     step s (goto f (Registering n (ds @ [i]) is) (s\<lparr>wld := w\<rparr>))"
| step_found: "pcs s f = Registering n ds (i # is) \<Longrightarrow> mnWait i n (KeyPlace (length ds)) (wld s) = (False, w) \<Longrightarrow>
     step s (any_found f n ds i (s\<lparr>wld := w\<rparr>))"
| step_block: "pcs s f = Registering n ds [] \<Longrightarrow> step s (any_block f n ds s)"
| step_cancel: "pcs s f = Cancelling n (i # is) r \<Longrightarrow> step s (goto f (Cancelling n is r) (s\<lparr>wld := mnCancel i n (wld s)\<rparr>))"
| step_return: "pcs s f = Cancelling n [] r \<Longrightarrow> step s (goto f Running s)"
| step_resume: "ready (wld s) = f # fs \<Longrightarrow> pcs s f = Waiting i \<Longrightarrow>
     step s (goto f Running (s\<lparr>wld := (wld s)\<lparr>ready := fs\<rparr>\<rparr>))"
| step_resume_any: "ready (wld s) = f # fs \<Longrightarrow> pcs s f = AnyBlocked n evs \<Longrightarrow>
     mn_key (notifiers (wld s) n) = KeyPlace j \<Longrightarrow>
     step s (goto f (Cancelling n (take j evs @ drop (Suc j) evs) j) (s\<lparr>wld := (wld s)\<lparr>ready := fs\<rparr>\<rparr>))"
| step_later: "ready (wld s) = f # fs \<Longrightarrow> step s (s\<lparr>wld := (wld s)\<lparr>ready := fs @ [f]\<rparr>\<rparr>)"

definition initial :: "system \<Rightarrow> bool" where
  "initial s \<longleftrightarrow> (\<forall>i. \<exists>auto. evt s i = new_event auto) \<and> ready (wld s) = [] \<and> (\<forall>f. pcs s f = Running) \<and>
     nlock s = {} \<and> fresh_n s = 0"

inductive reachable :: "system \<Rightarrow> bool" where
  reach_initial: "initial s \<Longrightarrow> reachable s"
| reach_step: "reachable s \<Longrightarrow> step s s' \<Longrightarrow> reachable s'"

subsection \<open>The invariant\<close>

fun slots :: "pc \<Rightarrow> nat list" where
  "slots (Registering n ds es) = ds"
| "slots (AnyBlocked n evs) = evs"
| "slots _ = []"

abbreviation key_of :: "system \<Rightarrow> nat \<Rightarrow> rkey" where
  "key_of s n \<equiv> mn_key (notifiers (wld s) n)"

abbreviation init_of :: "system \<Rightarrow> nat \<Rightarrow> nat" where
  "init_of s n \<equiv> mn_initiator (notifiers (wld s) n)"

abbreviation rdy :: "system \<Rightarrow> nat set" where
  "rdy s \<equiv> set (ready (wld s))"

text \<open>The fibers that wait for one event.\<close>

definition inv_wait :: "system \<Rightarrow> bool" where
  "inv_wait s \<longleftrightarrow>
     (\<forall>i. is_set (evt s i) \<longrightarrow> ev_waiters (evt s i) = [] \<and> mn_waiters (evt s i) = []) \<and>
     (\<forall>i. distinct (ev_waiters (evt s i))) \<and>
     (\<forall>f i. f \<in> set (ev_waiters (evt s i)) \<longrightarrow> pcs s f = Waiting i \<and> f \<notin> rdy s) \<and>
     (\<forall>f i. pcs s f = Waiting i \<longrightarrow> f \<in> set (ev_waiters (evt s i)) \<or> f \<in> rdy s)"

text \<open>The queue of ready fibers.\<close>

definition inv_ready :: "system \<Rightarrow> bool" where
  "inv_ready s \<longleftrightarrow> distinct (ready (wld s)) \<and>
     (\<forall>f\<in>rdy s. (\<exists>i. pcs s f = Waiting i) \<or>
        (\<exists>n evs j. pcs s f = AnyBlocked n evs \<and> key_of s n = KeyPlace j \<and> j < length evs))"

text \<open>The notifiers: one without a key is that of a fiber in \<open>waitAny\<close>, which is registered.\<close>

definition any_blocked :: "system \<Rightarrow> bool" where
  "any_blocked s \<longleftrightarrow> (\<forall>f n evs. pcs s f = AnyBlocked n evs \<longrightarrow>
     n < fresh_n s \<and> n \<notin> nlock s \<and> init_of s n = f \<and> (key_of s n \<noteq> NoKey \<longrightarrow> f \<in> rdy s))"

definition any_registering :: "system \<Rightarrow> bool" where
  "any_registering s \<longleftrightarrow> (\<forall>f n ds es. pcs s f = Registering n ds es \<longrightarrow>
     n < fresh_n s \<and> n \<in> nlock s \<and> init_of s n = f \<and> key_of s n = NoKey)"

definition any_cancelling :: "system \<Rightarrow> bool" where
  "any_cancelling s \<longleftrightarrow> (\<forall>f n es r. pcs s f = Cancelling n es r \<longrightarrow> n < fresh_n s \<and> key_of s n \<noteq> NoKey)"

definition any_open :: "system \<Rightarrow> bool" where
  "any_open s \<longleftrightarrow> (\<forall>n. n < fresh_n s \<and> key_of s n = NoKey \<longrightarrow>
     (\<exists>evs. pcs s (init_of s n) = AnyBlocked n evs) \<or> (\<exists>ds es. pcs s (init_of s n) = Registering n ds es))"

definition any_slots :: "system \<Rightarrow> bool" where
  "any_slots s \<longleftrightarrow> (\<forall>n. n < fresh_n s \<and> key_of s n = NoKey \<longrightarrow>
     (\<forall>j<length (slots (pcs s (init_of s n))). (n, KeyPlace j) \<in> set (mn_waiters (evt s (slots (pcs s (init_of s n)) ! j)))))"

definition any_entries :: "system \<Rightarrow> bool" where
  "any_entries s \<longleftrightarrow> (\<forall>i n k. (n, k) \<in> set (mn_waiters (evt s i)) \<longrightarrow> n < fresh_n s \<and>
     (key_of s n = NoKey \<longrightarrow> (\<exists>j. k = KeyPlace j \<and> j < length (slots (pcs s (init_of s n))) \<and> slots (pcs s (init_of s n)) ! j = i)))"

definition inv_any :: "system \<Rightarrow> bool" where
  "inv_any s \<longleftrightarrow> any_blocked s \<and> any_registering s \<and> any_cancelling s \<and> any_open s \<and> any_slots s \<and> any_entries s"

lemmas inv_any_defs = inv_any_def any_blocked_def any_registering_def any_cancelling_def any_open_def
  any_slots_def any_entries_def

definition sys_ok :: "system \<Rightarrow> bool" where
  "sys_ok s \<longleftrightarrow> inv_wait s \<and> inv_ready s \<and> inv_any s"

lemma sys_ok_initial: "initial s \<Longrightarrow> sys_ok s"
proof -
  assume s: "initial s"
  then have "\<exists>auto. evt s i = new_event auto" for i by (simp add: initial_def)
  then have "is_set (evt s i) = False" "ev_waiters (evt s i) = []" "mn_waiters (evt s i) = []" for i
    by (metis new_event_def event.select_convs)+
  then show "sys_ok s" using s by (simp add: sys_ok_def inv_wait_def inv_ready_def inv_any_defs initial_def)
qed

lemma fiberReady_simps [simp]:
  "events (fiberReady f w) = events w" "notifiers (fiberReady f w) = notifiers w"
  "ready (fiberReady f w) = ready w @ [f]"
  by (simp_all add: fiberReady_def)

lemma notifyReady_inv:
  assumes "sys_ok s" "(n, k) \<in> set (mn_waiters (evt s i))" "n \<notin> nlock s" "notifyReady n k (wld s) = (b, w)"
  shows "sys_ok (s\<lparr>wld := w\<rparr>) \<and> events w = events (wld s) \<and> mn_key (notifiers w n) \<noteq> NoKey \<and>
    (\<forall>m. key_of s m \<noteq> NoKey \<longrightarrow> mn_key (notifiers w m) \<noteq> NoKey) \<and>
    (b \<longrightarrow> key_of s n = NoKey \<and> ready w = ready (wld s) @ [init_of s n]) \<and> (\<not> b \<longrightarrow> w = wld s)"
proof (cases "key_of s n = NoKey")
  case False
  then show ?thesis using assms by (auto simp: notifyReady_def Let_def)
next
  case True
  let ?f = "init_of s n"
  have any: "inv_any s" and wait: "inv_wait s" and rd: "inv_ready s" using assms(1) by (simp_all add: sys_ok_def)
  have n: "n < fresh_n s" using any assms(2) unfolding inv_any_defs by blast
  then obtain evs where evs: "pcs s ?f = AnyBlocked n evs"
    using any True assms(3) unfolding inv_any_defs by blast
  obtain j where j: "k = KeyPlace j" "j < length evs"
    using any True assms(2) evs unfolding inv_any_defs by (metis slots.simps(2))
  have nr: "?f \<notin> rdy s"
  proof
    assume "?f \<in> rdy s"
    then show False using rd evs True unfolding inv_ready_def by fastforce
  qed
  define w1 where "w1 = (wld s)\<lparr>notifiers := (notifiers (wld s))(n := (notifiers (wld s) n)\<lparr>mn_key := k\<rparr>), ready := ready (wld s) @ [?f]\<rparr>"
  have w: "b" "w = w1"
    using assms(4) True by (simp_all add: notifyReady_def fiberReady_def w1_def Let_def)
  have w1: "events w1 = events (wld s)" "ready w1 = ready (wld s) @ [?f]"
    "mn_key (notifiers w1 m) = (if m = n then k else key_of s m)" "mn_initiator (notifiers w1 m) = init_of s m" for m
    by (simp_all add: w1_def)
  have "inv_wait (s\<lparr>wld := w1\<rparr>)"
    using wait evs unfolding inv_wait_def by (simp add: w1) (metis pc.distinct)
  moreover have "inv_ready (s\<lparr>wld := w1\<rparr>)"
  proof -
    have "(\<exists>i. pcs s f = Waiting i) \<or>
        (\<exists>m evs j. pcs s f = AnyBlocked m evs \<and> mn_key (notifiers w1 m) = KeyPlace j \<and> j < length evs)"
      if "f \<in> rdy s" for f
    proof -
      from rd that consider i where "pcs s f = Waiting i"
        | m evs' j' where "pcs s f = AnyBlocked m evs'" "key_of s m = KeyPlace j'" "j' < length evs'"
        unfolding inv_ready_def by blast
      then show ?thesis
      proof cases
        case 2
        then have "m \<noteq> n" using True by auto
        then show ?thesis using 2 w1(3) by auto
      qed blast
    qed
    moreover have "mn_key (notifiers w1 n) = KeyPlace j" using w1(3) j by simp
    ultimately show ?thesis using rd evs nr j(2) unfolding inv_ready_def by (auto simp: w1(2))
  qed
  moreover have "inv_any (s\<lparr>wld := w1\<rparr>)"
    using any evs j unfolding inv_any_defs by (simp add: w1) (metis pc.inject)
  ultimately show ?thesis using w w1 j True by (auto simp: sys_ok_def)
qed

text \<open>What a run of notifications does: the keys are set, the notified fibers are ready.\<close>

definition notified :: "system \<Rightarrow> world \<Rightarrow> (nat \<times> rkey) list \<Rightarrow> bool" where
  "notified s w ms \<longleftrightarrow> sys_ok (s\<lparr>wld := w\<rparr>) \<and> events w = events (wld s) \<and>
     (\<forall>(n, k)\<in>set ms. mn_key (notifiers w n) \<noteq> NoKey) \<and>
     (\<forall>m. key_of s m \<noteq> NoKey \<longrightarrow> mn_key (notifiers w m) \<noteq> NoKey) \<and> rdy s \<subseteq> set (ready w)"

lemma notifyReady_notified:
  assumes "sys_ok s" "(n, k) \<in> set (mn_waiters (evt s i))" "n \<notin> nlock s" "notifyReady n k (wld s) = (b, w)"
  shows "notified s w [(n, k)]"
proof -
  note r = notifyReady_inv [OF assms]
  have "rdy s \<subseteq> set (ready w)" using r by (cases b) auto
  then show ?thesis unfolding notified_def using r by simp
qed

lemma notified_trans:
  assumes "notified s w xs" "notified (s\<lparr>wld := w\<rparr>) w' ys"
  shows "notified s w' (xs @ ys)"
proof -
  have "\<forall>(n, k)\<in>set (xs @ ys). mn_key (notifiers w' n) \<noteq> NoKey"
    using assms unfolding notified_def by fastforce
  moreover have "rdy s \<subseteq> set (ready w')" using assms unfolding notified_def by auto
  ultimately show ?thesis using assms unfolding notified_def by simp
qed

lemma notify_all_inv:
  assumes "sys_ok s" "set ms \<subseteq> set (mn_waiters (evt s i))" "\<forall>(n, k)\<in>set ms. n \<notin> nlock s"
  shows "notified s (notify_all ms (wld s)) ms"
  using assms
proof (induction ms arbitrary: s)
  case (Cons x ms)
  obtain n k where x: "x = (n, k)" by (cases x)
  obtain b w where w: "notifyReady n k (wld s) = (b, w)" by (cases "notifyReady n k (wld s)")
  have 1: "notified s w [(n, k)]"
    by (rule notifyReady_notified [OF Cons.prems(1) _ _ w]) (use Cons.prems(2,3) x in auto)
  have "notified (s\<lparr>wld := w\<rparr>) (notify_all ms (wld (s\<lparr>wld := w\<rparr>))) ms"
    by (rule Cons.IH) (use 1 Cons.prems(2,3) x in \<open>auto simp: notified_def\<close>)
  then show ?case using notified_trans [OF 1] x w by simp
qed (simp add: notified_def)

lemma notify_first_inv:
  assumes "sys_ok s" "set ms \<subseteq> set (mn_waiters (evt s i))" "\<forall>(n, k)\<in>set ms. n \<notin> nlock s"
    "notify_first ms (wld s) = (r, w)"
  shows "(r = None \<longrightarrow> notified s w ms \<and> w = wld s) \<and>
    (\<forall>rest. r = Some rest \<longrightarrow> (\<exists>us n k. ms = us @ (n, k) # rest \<and> notified s w (us @ [(n, k)]) \<and>
       key_of s n = NoKey \<and> ready w = ready (wld s) @ [init_of s n]))"
  using assms
proof (induction ms)
  case Nil
  then show ?case by (auto simp: notified_def)
next
  case (Cons x ms)
  obtain n k where x: "x = (n, k)" by (cases x)
  obtain b w1 where w1: "notifyReady n k (wld s) = (b, w1)" by (cases "notifyReady n k (wld s)")
  have nk: "(n, k) \<in> set (mn_waiters (evt s i))" "n \<notin> nlock s" using Cons.prems(2,3) x by auto
  have 1: "notified s w1 [(n, k)]" by (rule notifyReady_notified [OF Cons.prems(1) nk w1])
  show ?case
  proof (cases b)
    case True
    then have r: "r = Some ms" "w = w1" using Cons.prems(4) x w1 by simp_all
    have "x # ms = [] @ (n, k) # ms" "notified s w ([] @ [(n, k)])" using x 1 r(2) by simp_all
    then show ?thesis using notifyReady_inv [OF Cons.prems(1) nk w1] True r by blast
  next
    case False
    have same: "w1 = wld s" using notifyReady_inv [OF Cons.prems(1) nk w1] False by simp
    have nf: "notify_first ms (wld s) = (r, w)" using Cons.prems(4) x w1 False same by simp
    have sub: "set ms \<subseteq> set (mn_waiters (evt s i))" "\<forall>(n, k)\<in>set ms. n \<notin> nlock s" using Cons.prems(2,3) by auto
    note IH = Cons.IH [OF Cons.prems(1) sub nf]
    have more: "notified s w (x # us)" if "notified s w us" for us
      using notified_trans [OF 1, of w us] that same x by simp
    show ?thesis
    proof (cases r)
      case None
      then show ?thesis using IH more [of ms] by blast
    next
      case (Some rest)
      then obtain us m l where u: "ms = us @ (m, l) # rest" "notified s w (us @ [(m, l)])" "key_of s m = NoKey"
        "ready w = ready (wld s) @ [init_of s m]"
        using IH by blast
      then have "x # ms = (x # us) @ (m, l) # rest" "notified s w ((x # us) @ [(m, l)])"
        using more by simp_all
      then show ?thesis using Some u(3,4) by blast
    qed
  qed
qed

text \<open>Registrations whose notifier has its key may go.\<close>

lemma drop_registrations:
  assumes "sys_ok s" "set ms \<subseteq> set (mn_waiters (evt s i))"
    "\<forall>(n, k)\<in>set (mn_waiters (evt s i)) - set ms. key_of s n \<noteq> NoKey"
  shows "sys_ok (s\<lparr>wld := put_event i ((evt s i)\<lparr>mn_waiters := ms\<rparr>) (wld s)\<rparr>)"
proof -
  let ?s = "s\<lparr>wld := put_event i ((evt s i)\<lparr>mn_waiters := ms\<rparr>) (wld s)\<rparr>"
  have any: "inv_any s" using assms(1) by (simp add: sys_ok_def)
  have less: "set (mn_waiters (evt ?s l)) \<subseteq> set (mn_waiters (evt s l))" for l using assms(2) by auto
  have keep: "(n, k) \<in> set (mn_waiters (evt ?s l))" if "(n, k) \<in> set (mn_waiters (evt s l))" "key_of s n = NoKey" for n k l
    using assms(3) that by auto
  have same: "key_of ?s n = key_of s n" "init_of ?s n = init_of s n" "pcs ?s f = pcs s f" "nlock ?s = nlock s"
    "fresh_n ?s = fresh_n s" "rdy ?s = rdy s" for n f by simp_all
  have "inv_any ?s" using any less keep unfolding inv_any_defs same by (meson subsetD)
  moreover have "inv_wait ?s"
    using assms(1,2) by (auto simp: sys_ok_def inv_wait_def)
  ultimately show ?thesis using assms(1) by (simp add: sys_ok_def inv_ready_def)
qed

text \<open>A waiter becomes ready.\<close>

lemma wake_waiter:
  assumes "sys_ok s" "ev_waiters (evt s i) = f # fs"
  shows "sys_ok (s\<lparr>wld := put_event i ((evt s i)\<lparr>ev_waiters := fs\<rparr>) (fiberReady f (wld s))\<rparr>)"
proof -
  let ?s = "s\<lparr>wld := put_event i ((evt s i)\<lparr>ev_waiters := fs\<rparr>) (fiberReady f (wld s))\<rparr>"
  have w: "inv_wait s" "inv_ready s" "inv_any s" using assms(1) by (simp_all add: sys_ok_def)
  have set: "set (ev_waiters (evt s i)) = insert f (set fs)" "f \<notin> set fs" "distinct fs"
    using w(1) assms(2) unfolding inv_wait_def by (simp, metis distinct.simps(2), metis distinct.simps(2))
  have f: "pcs s f = Waiting i" "f \<notin> rdy s" using w(1) set(1) unfolding inv_wait_def by blast+
  have ev: "set (ev_waiters (evt ?s l)) = (if l = i then set fs else set (ev_waiters (evt s l)))"
    "mn_waiters (evt ?s l) = mn_waiters (evt s l)" "is_set (evt ?s l) = is_set (evt s l)" for l
    by (simp_all add: fiberReady_def)
  have rd: "rdy ?s = insert f (rdy s)" "pcs ?s = pcs s" by (auto simp: fiberReady_def)
  have "\<forall>l. is_set (evt ?s l) \<longrightarrow> ev_waiters (evt ?s l) = [] \<and> mn_waiters (evt ?s l) = []"
    using w(1) assms(2) unfolding inv_wait_def by auto
  moreover have "\<forall>l. distinct (ev_waiters (evt ?s l))" using w(1) set(3) unfolding inv_wait_def by simp
  moreover have "\<forall>g l. g \<in> set (ev_waiters (evt ?s l)) \<longrightarrow> pcs ?s g = Waiting l \<and> g \<notin> rdy ?s"
    using w(1) set(1,2) f unfolding inv_wait_def ev rd by (metis insert_iff pc.inject(1))
  moreover have "\<forall>g l. pcs ?s g = Waiting l \<longrightarrow> g \<in> set (ev_waiters (evt ?s l)) \<or> g \<in> rdy ?s"
    using w(1) set(1) unfolding inv_wait_def ev rd by (metis insert_iff)
  ultimately have "inv_wait ?s" unfolding inv_wait_def by blast
  moreover have "inv_ready ?s"
    using w(2) f unfolding inv_ready_def by (auto simp: fiberReady_def)
  moreover have "inv_any ?s"
    using w(3) unfolding inv_any_defs by (simp add: fiberReady_def) blast
  ultimately show ?thesis by (simp add: sys_ok_def)
qed

lemma wake_all_eq: "wake_all fs w = w\<lparr>ready := ready w @ fs\<rparr>"
  by (induction fs arbitrary: w) (simp_all add: fiberReady_def)

lemma wake_all_waiters:
  assumes "sys_ok s" "ev_waiters (evt s i) = fs"
  shows "sys_ok (s\<lparr>wld := put_event i ((evt s i)\<lparr>ev_waiters := []\<rparr>) (wake_all fs (wld s))\<rparr>)"
  using assms
proof (induction fs arbitrary: s)
  case Nil
  then have "(evt s i)\<lparr>ev_waiters := []\<rparr> = evt s i" by simp
  then have eq: "s\<lparr>wld := put_event i ((evt s i)\<lparr>ev_waiters := []\<rparr>) (wake_all [] (wld s))\<rparr> = s"
    by (simp del: fun_upd_apply)
  show ?case unfolding eq by (rule Nil.prems(1))
next
  case (Cons f fs)
  let ?s = "s\<lparr>wld := put_event i ((evt s i)\<lparr>ev_waiters := fs\<rparr>) (fiberReady f (wld s))\<rparr>"
  have "sys_ok ?s" by (rule wake_waiter [OF Cons.prems])
  from Cons.IH [OF this] show ?case by (simp add: wake_all_eq fiberReady_def fun_upd_def cong: if_cong)
qed

lemma flag_event:
  assumes "sys_ok s" "b \<Longrightarrow> ev_waiters (evt s i) = [] \<and> mn_waiters (evt s i) = []"
  shows "sys_ok (s\<lparr>wld := put_event i ((evt s i)\<lparr>is_set := b\<rparr>) (wld s)\<rparr>)"
proof -
  let ?s = "s\<lparr>wld := put_event i ((evt s i)\<lparr>is_set := b\<rparr>) (wld s)\<rparr>"
  have same: "ev_waiters (evt ?s l) = ev_waiters (evt s l)" "mn_waiters (evt ?s l) = mn_waiters (evt s l)"
    "is_set (evt ?s l) = (if l = i then b else is_set (evt s l))" "pcs ?s = pcs s" "ready (wld ?s) = ready (wld s)"
    "notifiers (wld ?s) = notifiers (wld s)" "nlock ?s = nlock s" "fresh_n ?s = fresh_n s" for l by simp_all
  show ?thesis using assms unfolding sys_ok_def inv_wait_def inv_ready_def inv_any_defs same by simp
qed

lemma event_order:
  "e\<lparr>mn_waiters := a, ev_waiters := b, is_set := c\<rparr> = e\<lparr>is_set := c, mn_waiters := a, ev_waiters := b\<rparr>"
    "e\<lparr>mn_waiters := a, is_set := c\<rparr> = e\<lparr>is_set := c, mn_waiters := a\<rparr>" for e :: event
  by (cases e; simp)+

lemma set_manual_ok:
  assumes "sys_ok s" "pcs s f = Running" "\<forall>(n, k)\<in>set (mn_waiters (evt s i)). n \<notin> nlock s"
  obtains w where "set_manual f i (wld s) = Inr w" "sys_ok (s\<lparr>wld := w\<rparr>)" "is_set (events w i)"
    "set (ev_waiters (evt s i)) \<subseteq> set (ready w)" "notified s (notify_all (mn_waiters (evt s i)) (wld s)) (mn_waiters (evt s i))"
    "notifiers w = notifiers (notify_all (mn_waiters (evt s i)) (wld s))"
proof -
  let ?ms = "mn_waiters (evt s i)" and ?fs = "ev_waiters (evt s i)"
  define w1 where "w1 = notify_all ?ms (wld s)"
  have 1: "notified s w1 ?ms" unfolding w1_def by (rule notify_all_inv [OF assms(1) order_refl assms(3)])
  let ?s1 = "s\<lparr>wld := w1\<rparr>"
  have s1: "sys_ok ?s1" "evt ?s1 = evt s" using 1 by (simp_all add: notified_def)
  let ?s2 = "?s1\<lparr>wld := put_event i ((evt ?s1 i)\<lparr>mn_waiters := []\<rparr>) (wld ?s1)\<rparr>"
  have s2: "sys_ok ?s2"
    by (rule drop_registrations [OF s1(1)]) (use 1 s1(2) in \<open>simp_all add: notified_def\<close>)
  let ?s3 = "?s2\<lparr>wld := put_event i ((evt ?s2 i)\<lparr>ev_waiters := []\<rparr>) (wake_all ?fs (wld ?s2))\<rparr>"
  have s3: "sys_ok ?s3" by (rule wake_all_waiters [OF s2]) (use s1(2) in simp)
  let ?s4 = "?s3\<lparr>wld := put_event i ((evt ?s3 i)\<lparr>is_set := True\<rparr>) (wld ?s3)\<rparr>"
  have s4: "sys_ok ?s4" by (rule flag_event [OF s3]) simp
  have "f \<notin> set ?fs" using assms(1,2) unfolding sys_ok_def inv_wait_def by fastforce
  then have "set_manual f i (wld s) = Inr (wld ?s4)"
    using s1(2) by (simp add: set_manual_def w1_def [symmetric] wake_all_eq Let_def event_order)
  moreover have "s\<lparr>wld := wld ?s4\<rparr> = ?s4" by simp
  then have "sys_ok (s\<lparr>wld := wld ?s4\<rparr>)" using s4 by simp
  ultimately show ?thesis using 1 by (intro that [of "wld ?s4"]) (simp_all add: wake_all_eq w1_def)
qed

lemma set_auto_ok:
  assumes "sys_ok s" "\<forall>(n, k)\<in>set (mn_waiters (evt s i)). n \<notin> nlock s" "set_auto i all (wld s) = Inr w"
  shows "sys_ok (s\<lparr>wld := w\<rparr>) \<and>
    ((\<exists>f. f \<in> set (ready w) \<and> f \<notin> rdy s \<and> (f \<in> set (ev_waiters (evt s i)) \<or>
        (\<exists>n k. (n, k) \<in> set (mn_waiters (evt s i)) \<and> key_of s n = NoKey \<and> init_of s n = f))) \<or>
     is_set (events w i) \<and> ev_waiters (evt s i) = [] \<and> (\<forall>(n, k)\<in>set (mn_waiters (evt s i)). key_of s n \<noteq> NoKey))"
proof -
  let ?ms = "mn_waiters (evt s i)" and ?fs = "ev_waiters (evt s i)"
  obtain r w1 where r: "notify_first ?ms (wld s) = (r, w1)" by (cases "notify_first ?ms (wld s)")
  note first = notify_first_inv [OF assms(1) order_refl assms(2) r]
  let ?s1 = "s\<lparr>wld := w1\<rparr>"
  show ?thesis
  proof (cases r)
    case (Some rest)
    then obtain us n k where u: "?ms = us @ (n, k) # rest" "notified s w1 (us @ [(n, k)])" "key_of s n = NoKey"
      "ready w1 = ready (wld s) @ [init_of s n]"
      using first by blast
    have s1: "sys_ok ?s1" "evt ?s1 = evt s" using u(2) by (simp_all add: notified_def)
    have "sys_ok (?s1\<lparr>wld := put_event i ((evt ?s1 i)\<lparr>mn_waiters := rest\<rparr>) (wld ?s1)\<rparr>)"
    proof (rule drop_registrations [OF s1(1)])
      show "set rest \<subseteq> set (mn_waiters (evt ?s1 i))" using s1(2) u(1) by auto
      show "\<forall>(n, k)\<in>set (mn_waiters (evt ?s1 i)) - set rest. key_of ?s1 n \<noteq> NoKey"
        using s1(2) u(1,2) unfolding notified_def by fastforce
    qed
    moreover have w: "w = put_event i ((evt s i)\<lparr>mn_waiters := rest\<rparr>) w1"
      using assms(3) r Some by (simp add: set_auto_def Let_def split: if_splits)
    moreover have "init_of s n \<notin> rdy s"
      using s1(1) u(4) by (auto simp: sys_ok_def inv_ready_def)
    moreover have "(n, k) \<in> set ?ms" using u(1) by simp
    ultimately show ?thesis using s1(2) u(3,4) by auto
  next
    case None
    have 1: "notified s w1 ?ms" "w1 = wld s" using first None by blast+
    have s1: "sys_ok ?s1" "evt ?s1 = evt s" using 1(1) by (simp_all add: notified_def)
    have keys: "\<forall>(n, k)\<in>set ?ms. key_of ?s1 n \<noteq> NoKey" using 1(1) by (simp add: notified_def)
    let ?s2 = "?s1\<lparr>wld := put_event i ((evt ?s1 i)\<lparr>mn_waiters := []\<rparr>) (wld ?s1)\<rparr>"
    have s2: "sys_ok ?s2" by (rule drop_registrations [OF s1(1)]) (use keys s1(2) in simp_all)
    have s2e: "evt ?s2 i = (evt s i)\<lparr>mn_waiters := []\<rparr>" using s1(2) by simp
    show ?thesis
    proof (cases ?fs)
      case Nil
      have "sys_ok (?s2\<lparr>wld := put_event i ((evt ?s2 i)\<lparr>is_set := True\<rparr>) (wld ?s2)\<rparr>)"
        by (rule flag_event [OF s2]) (use s2e Nil in simp)
      moreover have w: "w = put_event i ((evt s i)\<lparr>is_set := True, mn_waiters := []\<rparr>) w1"
        using assms(3) r None Nil by (simp add: set_auto_def Let_def)
      moreover have "\<forall>(n, k)\<in>set ?ms. key_of s n \<noteq> NoKey" using keys 1(2) by simp
      ultimately show ?thesis using s1(2) Nil by (simp add: event_order)
    next
      case (Cons f fs)
      have f: "f \<notin> rdy s" using assms(1) Cons unfolding sys_ok_def inv_wait_def by (metis list.set_intros(1))
      show ?thesis
      proof (cases all)
        case True
        have "sys_ok (?s2\<lparr>wld := put_event i ((evt ?s2 i)\<lparr>ev_waiters := []\<rparr>) (wake_all (f # fs) (wld ?s2))\<rparr>)"
          by (rule wake_all_waiters [OF s2]) (use s2e Cons in simp)
        moreover have w: "w = put_event i ((evt s i)\<lparr>mn_waiters := [], ev_waiters := []\<rparr>) (wake_all (f # fs) w1)"
          using assms(3) r None Cons True by (simp add: set_auto_def Let_def)
        ultimately show ?thesis using s1(2) f Cons by (auto simp: wake_all_eq)
      next
        case False
        have "sys_ok (?s2\<lparr>wld := put_event i ((evt ?s2 i)\<lparr>ev_waiters := fs\<rparr>) (fiberReady f (wld ?s2))\<rparr>)"
          by (rule wake_waiter [OF s2]) (use s2e Cons in simp)
        moreover have w: "w = put_event i ((evt s i)\<lparr>mn_waiters := [], ev_waiters := fs\<rparr>) (fiberReady f w1)"
          using assms(3) r None Cons False by (simp add: set_auto_def Let_def)
        ultimately show ?thesis using s1(2) f Cons by (auto simp: fiberReady_def)
      qed
    qed
  qed
qed

subsection \<open>Every step keeps the invariant\<close>

lemma running_free:
  assumes "sys_ok s" "pcs s f = Running"
  shows "f \<notin> rdy s" "f \<notin> set (ev_waiters (evt s i))" "n < fresh_n s \<Longrightarrow> key_of s n = NoKey \<Longrightarrow> init_of s n \<noteq> f"
proof -
  show "f \<notin> rdy s" using assms unfolding sys_ok_def inv_ready_def by fastforce
  show "f \<notin> set (ev_waiters (evt s i))" using assms unfolding sys_ok_def inv_wait_def by fastforce
  show "init_of s n \<noteq> f" if "n < fresh_n s" "key_of s n = NoKey"
  proof
    assume "init_of s n = f"
    moreover from assms(1) that have "(\<exists>evs. pcs s (init_of s n) = AnyBlocked n evs) \<or> (\<exists>ds es. pcs s (init_of s n) = Registering n ds es)"
      unfolding sys_ok_def inv_any_defs by blast
    ultimately show False using assms(2) by auto
  qed
qed

lemma wait_ok:
  assumes "sys_ok s" "pcs s f = Running" "wait_event f i (wld s) = Inr (b, w)"
  shows "sys_ok (goto f (if b then Waiting i else Running) (s\<lparr>wld := w\<rparr>))"
proof (cases "is_set (evt s i)")
  case True
  then have b: "\<not> b" "w = (if auto_reset (evt s i) then put_event i ((evt s i)\<lparr>is_set := False\<rparr>) (wld s) else wld s)"
    using assms(3) by (auto simp: wait_event_def Let_def split: if_splits)
  have "goto f Running (s\<lparr>wld := w\<rparr>) = s\<lparr>wld := w\<rparr>" using assms(2) by (simp add: fun_upd_idem)
  then show ?thesis using flag_event [OF assms(1), of False i] assms(1) b by simp
next
  case False
  then have b: "b" "w = put_event i ((evt s i)\<lparr>ev_waiters := ev_waiters (evt s i) @ [f]\<rparr>) (wld s)"
    using assms(3) by (auto simp: wait_event_def Let_def split: if_splits)
  let ?s = "goto f (Waiting i) (s\<lparr>wld := w\<rparr>)"
  have s: "inv_wait s" "inv_ready s" "inv_any s" using assms(1) by (simp_all add: sys_ok_def)
  note free = running_free [OF assms(1,2)]
  have "inv_wait ?s" using s(1) free False b(2) assms(2) unfolding inv_wait_def by auto
  moreover have "inv_ready ?s" using s(2) free b(2) unfolding inv_ready_def by auto
  moreover have "inv_any ?s" using s(3) free(3) b(2) assms(2) unfolding inv_any_defs by (auto split: if_splits)
  ultimately show ?thesis using b(1) by (simp add: sys_ok_def)
qed

lemma any_start_ok:
  assumes "sys_ok s" "pcs s f = Running"
  shows "sys_ok (any_start f evs s)"
proof -
  have s: "inv_wait s" "inv_ready s" "inv_any s" using assms(1) by (simp_all add: sys_ok_def)
  note free = running_free [OF assms]
  have new: "pcs s g \<noteq> Registering (fresh_n s) ds es" "pcs s g \<noteq> AnyBlocked (fresh_n s) es"
    "pcs s g \<noteq> Cancelling (fresh_n s) es r" "(fresh_n s, k) \<notin> set (mn_waiters (evt s i))" for g ds es r k i
    using s(3) unfolding inv_any_defs by (meson less_irrefl)+
  have "inv_wait (any_start f evs s)" using s(1) free assms(2) unfolding inv_wait_def any_start_def Let_def by auto
  moreover have "inv_ready (any_start f evs s)"
    using s(2,3) free unfolding inv_ready_def inv_any_defs any_start_def Let_def by fastforce
  moreover have "inv_any (any_start f evs s)"
    using s(3) free(3) assms(2) new unfolding inv_any_defs any_start_def Let_def by (auto simp: less_Suc_eq)
  ultimately show ?thesis by (simp add: sys_ok_def)
qed

lemma busy_free:
  assumes "sys_ok s" "pcs s f = Registering n ds es \<or> pcs s f = Cancelling m cs r"
  shows "f \<notin> rdy s" "f \<notin> set (ev_waiters (evt s i))"
proof -
  show "f \<notin> rdy s" using assms unfolding sys_ok_def inv_ready_def by fastforce
  show "f \<notin> set (ev_waiters (evt s i))" using assms unfolding sys_ok_def inv_wait_def by fastforce
qed

text \<open>A fiber that registers has one open notifier, its own.\<close>

lemma registering_facts:
  assumes "sys_ok s" "pcs s f = Registering n ds es"
  shows "n < fresh_n s" "n \<in> nlock s" "init_of s n = f" "key_of s n = NoKey"
    "m < fresh_n s \<Longrightarrow> key_of s m = NoKey \<Longrightarrow> m \<noteq> n \<Longrightarrow> init_of s m \<noteq> f"
    "pcs s g = Registering m as bs \<Longrightarrow> g \<noteq> f \<Longrightarrow> m \<noteq> n" "pcs s g = AnyBlocked m as \<Longrightarrow> m \<noteq> n"
    "j < length ds \<Longrightarrow> (n, KeyPlace j) \<in> set (mn_waiters (evt s (ds ! j)))"
proof -
  have s: "any_registering s" "any_blocked s" "any_open s" "any_slots s"
    using assms(1) by (simp_all add: sys_ok_def inv_any_def)
  show n: "n < fresh_n s" "n \<in> nlock s" "init_of s n = f" "key_of s n = NoKey"
    using s(1) assms(2) unfolding any_registering_def by blast+
  show "init_of s m \<noteq> f" if m: "m < fresh_n s" "key_of s m = NoKey" "m \<noteq> n"
  proof
    assume "init_of s m = f"
    moreover have "(\<exists>evs. pcs s (init_of s m) = AnyBlocked m evs) \<or> (\<exists>ds es. pcs s (init_of s m) = Registering m ds es)"
      using s(3) m(1,2) unfolding any_open_def by blast
    ultimately show False using assms(2) m(3) by simp
  qed
  show "m \<noteq> n" if "pcs s g = Registering m as bs" "g \<noteq> f"
    using s(1) that n(3) unfolding any_registering_def by blast
  show "m \<noteq> n" if "pcs s g = AnyBlocked m as"
    using s(2) that n(2) unfolding any_blocked_def by blast
  show "(n, KeyPlace j) \<in> set (mn_waiters (evt s (ds ! j)))" if "j < length ds"
  proof -
    have "\<forall>j<length (slots (pcs s (init_of s n))). (n, KeyPlace j) \<in> set (mn_waiters (evt s (slots (pcs s (init_of s n)) ! j)))"
      using s(4) n(1,4) unfolding any_slots_def by blast
    then show ?thesis using n(3) assms(2) that by simp
  qed
qed

lemma register_ok:
  assumes "sys_ok s" "pcs s f = Registering n ds (i # is)" "mnWait i n (KeyPlace (length ds)) (wld s) = (True, w)"
  shows "sys_ok (goto f (Registering n (ds @ [i]) is) (s\<lparr>wld := w\<rparr>))"
proof -
  let ?s = "goto f (Registering n (ds @ [i]) is) (s\<lparr>wld := w\<rparr>)"
  have s: "inv_wait s" "inv_ready s" "any_blocked s" "any_registering s" "any_cancelling s" "any_open s"
    "any_slots s" "any_entries s" using assms(1) by (simp_all add: sys_ok_def inv_any_def)
  note free = busy_free [OF assms(1) disjI1 [OF assms(2)]]
  note n = registering_facts [OF assms(1,2)]
  have w: "\<not> is_set (evt s i)" "w = put_event i ((evt s i)\<lparr>mn_waiters := mn_waiters (evt s i) @ [(n, KeyPlace (length ds))]\<rparr>) (wld s)"
    using assms(3) by (auto simp: mnWait_def Let_def split: if_splits)
  have same: "key_of ?s m = key_of s m" "init_of ?s m = init_of s m" "nlock ?s = nlock s" "fresh_n ?s = fresh_n s"
    "rdy ?s = rdy s" "pcs ?s g = (if g = f then Registering n (ds @ [i]) is else pcs s g)" for m g
    using w(2) by simp_all
  have mn: "set (mn_waiters (evt ?s l)) = set (mn_waiters (evt s l)) \<union> (if l = i then {(n, KeyPlace (length ds))} else {})" for l
    using w(2) by simp
  have "inv_wait ?s" using s(1) free w assms(2) unfolding inv_wait_def by auto
  moreover have "inv_ready ?s" using s(2) free w(2) unfolding inv_ready_def by auto
  moreover have "any_blocked ?s" using s(3) unfolding any_blocked_def same by simp
  moreover have "any_registering ?s" using s(4) n(1-4) unfolding any_registering_def same by simp
  moreover have "any_cancelling ?s" using s(5) unfolding any_cancelling_def same by simp
  moreover have "any_open ?s" unfolding any_open_def same
  proof (intro allI impI)
    fix m assume m: "m < fresh_n s \<and> key_of s m = NoKey"
    show "(\<exists>evs. (if init_of s m = f then Registering n (ds @ [i]) is else pcs s (init_of s m)) = AnyBlocked m evs) \<or>
      (\<exists>ds' es. (if init_of s m = f then Registering n (ds @ [i]) is else pcs s (init_of s m)) = Registering m ds' es)"
      using n(3) n(5) [of m] m s(6) unfolding any_open_def by (cases "m = n") auto
  qed
  moreover have "any_slots ?s" unfolding any_slots_def
  proof (intro allI impI)
    fix m j assume m: "m < fresh_n ?s \<and> key_of ?s m = NoKey" "j < length (slots (pcs ?s (init_of ?s m)))"
    show "(m, KeyPlace j) \<in> set (mn_waiters (evt ?s (slots (pcs ?s (init_of ?s m)) ! j)))"
    proof (cases "m = n")
      case True
      then have "slots (pcs ?s (init_of ?s m)) = ds @ [i]" using n(3) same by simp
      moreover have "j < length ds \<or> j = length ds" using m(2) calculation by auto
      ultimately show ?thesis using n(8) [of j] True unfolding mn by (auto simp: nth_append)
    next
      case False
      then have "init_of s m \<noteq> f" using n(5) m(1) same by simp
      then have "pcs ?s (init_of ?s m) = pcs s (init_of s m)" unfolding same by simp
      moreover have "(m, KeyPlace j) \<in> set (mn_waiters (evt s (slots (pcs s (init_of s m)) ! j)))"
        using s(7) m same(1,4) calculation unfolding any_slots_def by simp
      ultimately show ?thesis unfolding mn by simp
    qed
  qed
  moreover have "any_entries ?s" unfolding any_entries_def
  proof (intro allI impI)
    fix l m k assume e: "(m, k) \<in> set (mn_waiters (evt ?s l))"
    show "m < fresh_n ?s \<and> (key_of ?s m = NoKey \<longrightarrow> (\<exists>j. k = KeyPlace j \<and> j < length (slots (pcs ?s (init_of ?s m))) \<and>
        slots (pcs ?s (init_of ?s m)) ! j = l))"
    proof (cases "(m, k) \<in> set (mn_waiters (evt s l))")
      case True
      then have m: "m < fresh_n s" "key_of s m = NoKey \<Longrightarrow> \<exists>j. k = KeyPlace j \<and> j < length (slots (pcs s (init_of s m))) \<and>
          slots (pcs s (init_of s m)) ! j = l"
        using s(8) unfolding any_entries_def by blast+
      have "j < length (slots (pcs ?s g)) \<and> slots (pcs ?s g) ! j = slots (pcs s g) ! j" if "j < length (slots (pcs s g))" for g j
        using that assms(2) same(6) by (auto simp: nth_append)
      then show ?thesis using m unfolding same(1,2,4) by metis
    next
      case False
      then have "m = n" "k = KeyPlace (length ds)" "l = i" using e unfolding mn by (auto split: if_splits)
      then show ?thesis using n(1,3) same by simp
    qed
  qed
  ultimately show ?thesis by (simp add: sys_ok_def inv_any_def)
qed

lemma found_ok:
  assumes "sys_ok s" "pcs s f = Registering n ds (i # is)" "mnWait i n (KeyPlace (length ds)) (wld s) = (False, w)"
  shows "sys_ok (any_found f n ds i (s\<lparr>wld := w\<rparr>))"
proof -
  have w: "w = (if auto_reset (evt s i) then put_event i ((evt s i)\<lparr>is_set := False\<rparr>) (wld s) else wld s)"
    using assms(3) by (auto simp: mnWait_def Let_def split: if_splits)
  define t where "t = s\<lparr>wld := w\<rparr>"
  have t: "sys_ok t" using flag_event [OF assms(1), of False i] assms(1) w by (simp add: t_def)
  have pt: "pcs t f = Registering n ds (i # is)" using assms(2) by (simp add: t_def)
  have s: "inv_wait t" "inv_ready t" "any_blocked t" "any_registering t" "any_cancelling t" "any_open t"
    "any_slots t" "any_entries t" using t by (simp_all add: sys_ok_def inv_any_def)
  note free = busy_free [OF t disjI1 [OF pt]]
  note n = registering_facts [OF t pt]
  let ?s = "any_found f n ds i t"
  have same: "key_of ?s m = (if m = n then KeyImpl i else key_of t m)" "init_of ?s m = init_of t m"
    "nlock ?s = nlock t - {n}" "fresh_n ?s = fresh_n t" "rdy ?s = rdy t"
    "pcs ?s g = (if g = f then Cancelling n ds (length ds) else pcs t g)" "evt ?s = evt t" for m g
    by (simp_all add: any_found_def Let_def)
  have other: "pcs ?s (init_of ?s m) = pcs t (init_of t m) \<and> key_of t m = NoKey \<and> m \<noteq> n"
    if "m < fresh_n ?s" "key_of ?s m = NoKey" for m
    using that n(5) unfolding same by (auto split: if_splits)
  have "inv_wait ?s" using s(1) free pt unfolding inv_wait_def same by auto
  moreover have "inv_ready ?s" using s(2) free n(7) unfolding inv_ready_def same
    by (simp add: any_found_def Let_def) metis
  moreover have "any_blocked ?s" using s(3) n(7) unfolding any_blocked_def same by simp blast
  moreover have "any_registering ?s" using s(4) n(6) unfolding any_registering_def same by simp blast
  moreover have "any_cancelling ?s" using s(5) n(1) unfolding any_cancelling_def same by simp
  moreover have "any_open ?s" using s(6) other same(4) unfolding any_open_def by metis
  moreover have "any_slots ?s" using s(7) other same(4,7) unfolding any_slots_def by metis
  moreover have "any_entries ?s" using s(8) other same(4,7) unfolding any_entries_def by metis
  ultimately show ?thesis by (simp add: sys_ok_def inv_any_def t_def)
qed

lemma block_ok:
  assumes "sys_ok s" "pcs s f = Registering n ds []"
  shows "sys_ok (any_block f n ds s)"
proof -
  have s: "inv_wait s" "inv_ready s" "any_blocked s" "any_registering s" "any_cancelling s" "any_open s"
    "any_slots s" "any_entries s" using assms(1) by (simp_all add: sys_ok_def inv_any_def)
  note free = busy_free [OF assms(1) disjI1 [OF assms(2)]]
  note n = registering_facts [OF assms]
  let ?s = "any_block f n ds s"
  have same: "wld ?s = wld s" "nlock ?s = nlock s - {n}" "fresh_n ?s = fresh_n s"
    "pcs ?s g = (if g = f then AnyBlocked n ds else pcs s g)" for g
    by (simp_all add: any_block_def)
  have sl: "slots (pcs ?s g) = slots (pcs s g)" for g using assms(2) by (simp add: any_block_def)
  have "inv_wait ?s" using s(1) free assms(2) unfolding inv_wait_def same by auto
  moreover have "inv_ready ?s" using s(2) free unfolding inv_ready_def same by auto
  moreover have "any_blocked ?s" using s(3) n unfolding any_blocked_def same by auto
  moreover have "any_registering ?s" using s(4) n(6) unfolding any_registering_def same by simp blast
  moreover have "any_cancelling ?s" using s(5) unfolding any_cancelling_def same by simp
  moreover have "any_open ?s" unfolding any_open_def same
  proof (intro allI impI)
    fix m assume m: "m < fresh_n s \<and> key_of s m = NoKey"
    show "(\<exists>evs. (if init_of s m = f then AnyBlocked n ds else pcs s (init_of s m)) = AnyBlocked m evs) \<or>
      (\<exists>ds' es. (if init_of s m = f then AnyBlocked n ds else pcs s (init_of s m)) = Registering m ds' es)"
      using n(3) n(5) [of m] m s(6) unfolding any_open_def by (cases "m = n") auto
  qed
  moreover have "any_slots ?s" using s(7) unfolding any_slots_def sl unfolding same by simp
  moreover have "any_entries ?s" using s(8) unfolding any_entries_def sl unfolding same by simp
  ultimately show ?thesis by (simp add: sys_ok_def inv_any_def)
qed

text \<open>Moving on inside \<open>waitAny\<close> after the notifier has its key, and leaving it.\<close>

lemma move_ok:
  assumes "sys_ok s" "pcs s f = Cancelling n es r" "p = Running \<or> p = Cancelling n es' r"
  shows "sys_ok (goto f p s)"
proof -
  have s: "inv_wait s" "inv_ready s" "any_blocked s" "any_registering s" "any_cancelling s" "any_open s"
    "any_slots s" "any_entries s" using assms(1) by (simp_all add: sys_ok_def inv_any_def)
  note free = busy_free [OF assms(1) disjI2 [OF assms(2)]]
  have n: "n < fresh_n s" "key_of s n \<noteq> NoKey" using s(5) assms(2) unfolding any_cancelling_def by blast+
  let ?s = "goto f p s"
  have same: "wld ?s = wld s" "nlock ?s = nlock s" "fresh_n ?s = fresh_n s" "pcs ?s g = (if g = f then p else pcs s g)" for g
    by simp_all
  have sl: "slots (pcs ?s g) = slots (pcs s g)" for g using assms(2,3) by auto
  have p: "p \<noteq> Waiting i" "p \<noteq> AnyBlocked m evs" "p \<noteq> Registering m ds es" for i m evs ds es using assms(3) by auto
  have "inv_wait ?s" using s(1) free p assms(2) unfolding inv_wait_def same by auto
  moreover have "inv_ready ?s" using s(2) free unfolding inv_ready_def same by auto
  moreover have "any_blocked ?s" using s(3) p unfolding any_blocked_def same by simp
  moreover have "any_registering ?s" using s(4) p unfolding any_registering_def same by simp
  moreover have "any_cancelling ?s" using s(5) n assms(3) unfolding any_cancelling_def same by auto
  moreover have "any_open ?s" using s(6) assms(2) unfolding any_open_def same
    by (metis pc.distinct)
  moreover have "any_slots ?s" using s(7) unfolding any_slots_def sl unfolding same by simp
  moreover have "any_entries ?s" using s(8) unfolding any_entries_def sl unfolding same by simp
  ultimately show ?thesis by (simp add: sys_ok_def inv_any_def)
qed

lemma remove_notifier_set:
  "set (remove_notifier n ms) \<subseteq> set ms \<and> (\<forall>(m, k)\<in>set ms - set (remove_notifier n ms). m = n)"
  by (induction n ms rule: remove_notifier.induct) auto

lemma goto_wld: "goto f p (s\<lparr>wld := w\<rparr>) = (goto f p s)\<lparr>wld := w\<rparr>"
  by (rule system.equality) simp_all

lemma cancel_ok:
  assumes "sys_ok s" "pcs s f = Cancelling n (i # is) r"
  shows "sys_ok (goto f (Cancelling n is r) (s\<lparr>wld := mnCancel i n (wld s)\<rparr>))"
proof -
  let ?t = "goto f (Cancelling n is r) s"
  have t: "sys_ok ?t" by (rule move_ok [OF assms, of _ "is"]) simp
  have "any_cancelling s" using assms(1) by (simp add: sys_ok_def inv_any_def)
  then have "key_of s n \<noteq> NoKey" using assms(2) unfolding any_cancelling_def by blast
  then have "sys_ok (?t\<lparr>wld := put_event i ((evt ?t i)\<lparr>mn_waiters := remove_notifier n (mn_waiters (evt ?t i))\<rparr>) (wld ?t)\<rparr>)"
    using remove_notifier_set [of n "mn_waiters (evt s i)"] by (intro drop_registrations [OF t]) fastforce+
  then show ?thesis unfolding goto_wld by (simp add: mnCancel_def Let_def)
qed

text \<open>A fiber taken off the queue.\<close>

lemma resume_ok:
  assumes "sys_ok s" "ready (wld s) = f # fs" "pcs s f = Waiting i"
  shows "sys_ok (goto f Running (s\<lparr>wld := (wld s)\<lparr>ready := fs\<rparr>\<rparr>))"
proof -
  have s: "inv_wait s" "inv_ready s" "any_blocked s" "any_registering s" "any_cancelling s" "any_open s"
    "any_slots s" "any_entries s" using assms(1) by (simp_all add: sys_ok_def inv_any_def)
  let ?s = "goto f Running (s\<lparr>wld := (wld s)\<lparr>ready := fs\<rparr>\<rparr>)"
  have rd: "rdy s = insert f (set fs)" "f \<notin> set fs" "distinct fs"
    using assms(2) s(2) by (simp_all add: inv_ready_def)
  have same: "key_of ?s m = key_of s m" "init_of ?s m = init_of s m" "nlock ?s = nlock s" "fresh_n ?s = fresh_n s"
    "rdy ?s = set fs" "pcs ?s g = (if g = f then Running else pcs s g)" "evt ?s = evt s" for m g
    by simp_all
  have sl: "slots (pcs ?s g) = slots (pcs s g)" for g using assms(3) by simp
  have "inv_wait ?s" using s(1) assms(3) rd unfolding inv_wait_def same by auto
  moreover have "inv_ready ?s" using s(2) rd unfolding inv_ready_def same by auto
  moreover have "any_blocked ?s" using s(3) rd(1) unfolding any_blocked_def same by auto
  moreover have "any_registering ?s" using s(4) unfolding any_registering_def same by simp
  moreover have "any_cancelling ?s" using s(5) unfolding any_cancelling_def same by simp
  moreover have "any_open ?s" using s(6) assms(3) unfolding any_open_def same by (metis pc.distinct)
  moreover have "any_slots ?s" using s(7) unfolding any_slots_def sl unfolding same by simp
  moreover have "any_entries ?s" using s(8) unfolding any_entries_def sl unfolding same by simp
  ultimately show ?thesis by (simp add: sys_ok_def inv_any_def)
qed

lemma resume_any_ok:
  assumes "sys_ok s" "ready (wld s) = f # fs" "pcs s f = AnyBlocked n evs" "key_of s n = KeyPlace j"
  shows "sys_ok (goto f (Cancelling n es r) (s\<lparr>wld := (wld s)\<lparr>ready := fs\<rparr>\<rparr>))"
proof -
  have s: "inv_wait s" "inv_ready s" "any_blocked s" "any_registering s" "any_cancelling s" "any_open s"
    "any_slots s" "any_entries s" using assms(1) by (simp_all add: sys_ok_def inv_any_def)
  let ?s = "goto f (Cancelling n es r) (s\<lparr>wld := (wld s)\<lparr>ready := fs\<rparr>\<rparr>)"
  have rd: "rdy s = insert f (set fs)" "f \<notin> set fs" "distinct fs"
    using assms(2) s(2) by (simp_all add: inv_ready_def)
  have n: "n < fresh_n s" "init_of s n = f" using s(3) assms(3) unfolding any_blocked_def by blast+
  have same: "key_of ?s m = key_of s m" "init_of ?s m = init_of s m" "nlock ?s = nlock s" "fresh_n ?s = fresh_n s"
    "rdy ?s = set fs" "pcs ?s g = (if g = f then Cancelling n es r else pcs s g)" "evt ?s = evt s" for m g
    by simp_all
  have other: "pcs ?s (init_of ?s m) = pcs s (init_of s m)" if m: "m < fresh_n s" "key_of s m = NoKey" for m
  proof -
    have "(\<exists>evs. pcs s (init_of s m) = AnyBlocked m evs) \<or> (\<exists>ds es. pcs s (init_of s m) = Registering m ds es)"
      using s(6) m unfolding any_open_def by blast
    then have "init_of s m \<noteq> f" using assms(3,4) m(2) by auto
    then show ?thesis by (simp add: same)
  qed
  have "inv_wait ?s" using s(1) assms(3) rd unfolding inv_wait_def same by auto
  moreover have "inv_ready ?s" using s(2) rd unfolding inv_ready_def same by auto
  moreover have "any_blocked ?s" using s(3) rd(1) unfolding any_blocked_def same by auto
  moreover have "any_registering ?s" using s(4) unfolding any_registering_def same by simp
  moreover have "any_cancelling ?s" using s(5) n(1) assms(4) unfolding any_cancelling_def same by simp
  moreover have "any_open ?s" using s(6) other same(1,4) unfolding any_open_def by metis
  moreover have "any_slots ?s" using s(7) other same(1,4,7) unfolding any_slots_def by metis
  moreover have "any_entries ?s" using s(8) other same(1,4,7) unfolding any_entries_def by metis
  ultimately show ?thesis by (simp add: sys_ok_def inv_any_def)
qed

lemma later_ok:
  assumes "sys_ok s" "ready (wld s) = f # fs"
  shows "sys_ok (s\<lparr>wld := (wld s)\<lparr>ready := fs @ [f]\<rparr>\<rparr>)"
proof -
  let ?s = "s\<lparr>wld := (wld s)\<lparr>ready := fs @ [f]\<rparr>\<rparr>"
  have "rdy ?s = rdy s" "distinct (ready (wld ?s)) = distinct (ready (wld s))" using assms(2) by auto
  then show ?thesis using assms(1) unfolding sys_ok_def inv_wait_def inv_ready_def inv_any_defs by simp
qed

lemma set_event_ok:
  assumes "sys_ok s" "pcs s f = Running" "\<not> is_set (evt s i)" "\<forall>(n, k)\<in>set (mn_waiters (evt s i)). n \<notin> nlock s"
    "set_event f i all (wld s) = Inr w"
  shows "sys_ok (s\<lparr>wld := w\<rparr>)"
proof (cases "auto_reset (evt s i)")
  case True
  then show ?thesis using set_auto_ok [OF assms(1,4)] assms(3,5) by (simp add: set_event_def)
next
  case False
  then have "set_manual f i (wld s) = Inr w" using assms(3,5) by (simp add: set_event_def)
  then show ?thesis using set_manual_ok [OF assms(1,2,4)] by (metis sum.inject(2))
qed

lemma reset_event_ok:
  assumes "sys_ok s" "reset_event i (wld s) = Inr w"
  shows "sys_ok (s\<lparr>wld := w\<rparr>)"
  using assms flag_event [OF assms(1), of False i]
  by (auto simp: reset_event_def Let_def split: if_splits)

lemma step_ok: "step s s' \<Longrightarrow> sys_ok s \<Longrightarrow> sys_ok s'"
proof (induction rule: step.induct)
  case step_set
  then show ?case by (intro set_event_ok)
next
  case step_reset
  then show ?case by (intro reset_event_ok)
next
  case step_wait
  then show ?case by (intro wait_ok)
next
  case step_any
  then show ?case by (intro any_start_ok)
next
  case step_register
  then show ?case by (intro register_ok)
next
  case step_found
  then show ?case by (intro found_ok)
next
  case step_block
  then show ?case by (intro block_ok)
next
  case step_cancel
  then show ?case by (intro cancel_ok)
next
  case (step_return s f n r)
  then show ?case by (intro move_ok [of s f n "[]" r Running]) simp_all
next
  case step_resume
  then show ?case by (intro resume_ok)
next
  case step_resume_any
  then show ?case by (intro resume_any_ok)
next
  case step_later
  then show ?case by (intro later_ok)
qed

lemma reachable_ok: "reachable s \<Longrightarrow> sys_ok s"
  by (induction rule: reachable.induct) (blast intro: sys_ok_initial step_ok)+

subsection \<open>Who waits for an event\<close>

definition waits_on :: "system \<Rightarrow> nat \<Rightarrow> nat \<Rightarrow> bool" where
  "waits_on s i f \<longleftrightarrow> f \<notin> rdy s \<and>
     (pcs s f = Waiting i \<or> (\<exists>n evs. pcs s f = AnyBlocked n evs \<and> i \<in> set evs))"

definition unlocked :: "system \<Rightarrow> nat \<Rightarrow> bool" where
  "unlocked s i \<longleftrightarrow> (\<forall>(n, k)\<in>set (mn_waiters (evt s i)). n \<notin> nlock s)"

lemma waits_on_registered:
  assumes "sys_ok s" "waits_on s i f"
  shows "f \<in> set (ev_waiters (evt s i)) \<or>
    (\<exists>n k. (n, k) \<in> set (mn_waiters (evt s i)) \<and> key_of s n = NoKey \<and> init_of s n = f)"
proof (cases "pcs s f = Waiting i")
  case True
  then show ?thesis using assms unfolding sys_ok_def inv_wait_def waits_on_def by blast
next
  case False
  then obtain n evs where n: "pcs s f = AnyBlocked n evs" "i \<in> set evs" "f \<notin> rdy s"
    using assms(2) by (auto simp: waits_on_def)
  have s: "any_blocked s" "any_slots s" using assms(1) by (simp_all add: sys_ok_def inv_any_def)
  have k: "n < fresh_n s" "init_of s n = f" "key_of s n = NoKey" using s(1) n(1,3) unfolding any_blocked_def by blast+
  obtain j where j: "j < length evs" "evs ! j = i" using n(2) by (auto simp: in_set_conv_nth)
  have "\<forall>j<length (slots (pcs s (init_of s n))). (n, KeyPlace j) \<in> set (mn_waiters (evt s (slots (pcs s (init_of s n)) ! j)))"
    using s(2) k(1,3) unfolding any_slots_def by blast
  then have "(n, KeyPlace j) \<in> set (mn_waiters (evt s i))" using k(2) n(1) j by auto
  then show ?thesis using k by blast
qed

lemma registered_waits_on:
  assumes "sys_ok s" "unlocked s i" "f \<in> set (ev_waiters (evt s i)) \<or>
    (\<exists>n k. (n, k) \<in> set (mn_waiters (evt s i)) \<and> key_of s n = NoKey \<and> init_of s n = f)"
  shows "waits_on s i f"
  using assms(3)
proof (elim disjE exE conjE)
  assume "f \<in> set (ev_waiters (evt s i))"
  then show ?thesis using assms(1) unfolding sys_ok_def inv_wait_def waits_on_def by blast
next
  fix n k assume n: "(n, k) \<in> set (mn_waiters (evt s i))" "key_of s n = NoKey" "init_of s n = f"
  have s: "any_registering s" "any_open s" "any_entries s" using assms(1) by (simp_all add: sys_ok_def inv_any_def)
  have "n \<notin> nlock s" using assms(2) n(1) by (auto simp: unlocked_def)
  moreover have k: "n < fresh_n s" "\<exists>j. k = KeyPlace j \<and> j < length (slots (pcs s f)) \<and> slots (pcs s f) ! j = i"
    using s(3) n unfolding any_entries_def by blast+
  ultimately obtain evs where evs: "pcs s f = AnyBlocked n evs"
    using s(1,2) n(2,3) unfolding any_open_def any_registering_def by blast
  moreover have "i \<in> set evs" using k(2) evs by auto
  moreover have "f \<notin> rdy s"
  proof
    assume "f \<in> rdy s"
    then show False using assms(1) evs n(2) unfolding sys_ok_def inv_ready_def by fastforce
  qed
  ultimately show ?thesis by (auto simp: waits_on_def)
qed

lemma set_manual_wakes:
  assumes "sys_ok s" "pcs s f = Running" "unlocked s i" "set_manual f i (wld s) = Inr w" "waits_on s i g"
  shows "g \<in> set (ready w)"
proof -
  let ?ms = "mn_waiters (evt s i)"
  obtain v where v: "set_manual f i (wld s) = Inr v" "sys_ok (s\<lparr>wld := v\<rparr>)" "set (ev_waiters (evt s i)) \<subseteq> set (ready v)"
    "notified s (notify_all ?ms (wld s)) ?ms" "notifiers v = notifiers (notify_all ?ms (wld s))"
    by (rule set_manual_ok [OF assms(1,2)]) (use assms(3) in \<open>simp add: unlocked_def\<close>)
  have w: "w = v" using v(1) assms(4) by simp
  from waits_on_registered [OF assms(1,5)] show ?thesis
  proof (elim disjE exE conjE)
    fix n k assume n: "(n, k) \<in> set ?ms" "key_of s n = NoKey" "init_of s n = g"
    have "any_blocked (s\<lparr>wld := v\<rparr>)" "mn_key (notifiers v n) \<noteq> NoKey"
      using v(2,4,5) n(1) by (auto simp: notified_def sys_ok_def inv_any_def)
    moreover have "n \<notin> nlock s" using assms(3) n(1) by (auto simp: unlocked_def)
    moreover have "any_open s" "any_registering s" "any_entries s" using assms(1) by (simp_all add: sys_ok_def inv_any_def)
    ultimately obtain evs where "pcs s g = AnyBlocked n evs"
      using n unfolding any_open_def any_registering_def any_entries_def by blast
    then show ?thesis using \<open>any_blocked (s\<lparr>wld := v\<rparr>)\<close> \<open>mn_key (notifiers v n) \<noteq> NoKey\<close> w
      unfolding any_blocked_def by simp
  qed (use v(3) w in blast)
qed

subsection \<open>Properties\<close>

text \<open>
  C5: no signal is lost, whatever the interleaving of the fibers' steps: a fiber that waits for an
  event that is set, or for any of several one of which is set, is in the queue of ready fibers;
  no fiber is in it twice; the assertions of \<open>reset\<close> hold; and a fiber woken in \<open>waitAny\<close> finds
  the place of an event it asked for.
\<close>

theorem no_lost_wakeup:
  assumes "reachable s"
  shows "(pcs s f = Waiting i \<and> is_set (evt s i) \<longrightarrow> f \<in> rdy s) \<and>
    (pcs s f = AnyBlocked n evs \<and> (\<exists>e\<in>set evs. is_set (evt s e)) \<longrightarrow> f \<in> rdy s) \<and>
    distinct (ready (wld s)) \<and> reset_event i (wld s) \<noteq> Inl EvAssert \<and>
    (pcs s f = AnyBlocked n evs \<and> f \<in> rdy s \<longrightarrow> (\<exists>j<length evs. key_of s n = KeyPlace j))"
proof (intro conjI impI)
  have ok: "sys_ok s" by (rule reachable_ok [OF assms])
  then have w: "inv_wait s" "inv_ready s" "any_blocked s" by (simp_all add: sys_ok_def inv_any_def)
  show "f \<in> rdy s" if "pcs s f = Waiting i \<and> is_set (evt s i)"
    using w(1) that unfolding inv_wait_def by (metis empty_iff list.set(1))
  show "f \<in> rdy s" if a: "pcs s f = AnyBlocked n evs \<and> (\<exists>e\<in>set evs. is_set (evt s e))"
  proof (rule ccontr)
    assume nr: "f \<notin> rdy s"
    obtain e where e: "e \<in> set evs" "is_set (evt s e)" using a by blast
    have "waits_on s e f" using a e(1) nr by (auto simp: waits_on_def)
    from waits_on_registered [OF ok this] show False
      using w(1) e(2) unfolding inv_wait_def by (metis empty_iff list.set(1))
  qed
  show "distinct (ready (wld s))" using w(2) by (simp add: inv_ready_def)
  show "reset_event i (wld s) \<noteq> Inl EvAssert"
    using w(1) unfolding inv_wait_def by (simp add: reset_event_def Let_def)
  show "\<exists>j<length evs. key_of s n = KeyPlace j" if "pcs s f = AnyBlocked n evs \<and> f \<in> rdy s"
    using w(2) that unfolding inv_ready_def by fastforce
qed

definition sample_start :: system where
  "sample_start = \<lparr>wld = \<lparr>events = (\<lambda>i. new_event (i = 0)), notifiers = (\<lambda>n. \<lparr>mn_initiator = 0, mn_key = NoKey\<rparr>), ready = []\<rparr>,
     pcs = (\<lambda>f. Running), nlock = {}, fresh_n = 0\<rparr>"

definition sample_waiting :: system where
  "sample_waiting = goto 1 (Waiting 0)
     (sample_start\<lparr>wld := put_event 0 ((new_event True)\<lparr>ev_waiters := [1]\<rparr>) (wld sample_start)\<rparr>)"

definition sample_registered :: system where
  "sample_registered = goto 1 (Registering 0 [0] [])
     ((any_start 1 [0] sample_start)\<lparr>wld := snd (mnWait 0 0 (KeyPlace 0) (wld (any_start 1 [0] sample_start)))\<rparr>)"

definition sample_any :: system where
  "sample_any = any_block 1 0 [0] sample_registered"

lemma reachable_start: "reachable sample_start"
  by (rule reach_initial) (auto simp: initial_def sample_start_def)

lemma reachable_waiting: "reachable sample_waiting"
proof (rule reach_step [OF reachable_start])
  let ?w = "put_event 0 ((new_event True)\<lparr>ev_waiters := [1]\<rparr>) (wld sample_start)"
  have "wait_event 1 0 (wld sample_start) = Inr (True, ?w)"
    by (simp add: wait_event_def sample_start_def new_event_def Let_def)
  from step_wait [OF _ this] show "step sample_start sample_waiting"
    by (simp add: sample_waiting_def sample_start_def)
qed

lemma reachable_any: "reachable sample_any"
proof -
  let ?s = "any_start 1 [0] sample_start"
  have "reachable ?s" by (rule reach_step [OF reachable_start], rule step_any) (simp add: sample_start_def)
  moreover have "mnWait 0 0 (KeyPlace (length [])) (wld ?s) = (True, snd (mnWait 0 0 (KeyPlace 0) (wld ?s)))"
    by (simp add: mnWait_def any_start_def sample_start_def new_event_def Let_def)
  from step_register [OF _ this, of 1 "[]"] have "step ?s sample_registered"
    by (simp add: sample_registered_def any_start_def sample_start_def Let_def)
  ultimately have "reachable sample_registered" by (rule reach_step)
  moreover have "step sample_registered sample_any"
    unfolding sample_any_def by (rule step_block) (simp add: sample_registered_def)
  ultimately show ?thesis by (rule reach_step)
qed

theorem no_lost_wakeup_witness:
  "pcs sample_waiting 1 = Waiting 0 \<and> distinct (ready (wld sample_waiting)) \<and>
     reset_event 0 (wld sample_waiting) \<noteq> Inl EvAssert"
  using no_lost_wakeup [OF reachable_waiting, of 1 0 0 "[]"] by (simp add: sample_waiting_def)

text \<open>
  Setting an event that is not set wakes those it is for: a manual one becomes set and every
  fiber that waits for it is ready; an automatic one makes a fiber ready that waits for it if
  there is one, and is set if there is none.
\<close>

theorem set_wakes:
  assumes "reachable s" "pcs s f = Running" "\<not> is_set (evt s i)" "unlocked s i" "set_event f i all (wld s) = Inr w"
  shows "if auto_reset (evt s i)
    then if \<exists>g. waits_on s i g then \<exists>g. waits_on s i g \<and> g \<in> set (ready w) else is_set (events w i)
    else is_set (events w i) \<and> (\<forall>g. waits_on s i g \<longrightarrow> g \<in> set (ready w))"
proof -
  have ok: "sys_ok s" by (rule reachable_ok [OF assms(1)])
  have ul: "\<forall>(n, k)\<in>set (mn_waiters (evt s i)). n \<notin> nlock s" using assms(4) by (simp add: unlocked_def)
  show ?thesis
  proof (cases "auto_reset (evt s i)")
    case True
    then have "set_auto i all (wld s) = Inr w" using assms(3,5) by (simp add: set_event_def)
    note auto = conjunct2 [OF set_auto_ok [OF ok ul this]]
    show ?thesis
    proof (cases "\<exists>g. g \<in> set (ready w) \<and> g \<notin> rdy s \<and> (g \<in> set (ev_waiters (evt s i)) \<or>
        (\<exists>n k. (n, k) \<in> set (mn_waiters (evt s i)) \<and> key_of s n = NoKey \<and> init_of s n = g))")
      case t: True
      then show ?thesis using registered_waits_on [OF ok assms(4)] True by (metis (no_types, lifting))
    next
      case False
      then have "is_set (events w i)" "ev_waiters (evt s i) = []" "\<forall>(n, k)\<in>set (mn_waiters (evt s i)). key_of s n \<noteq> NoKey"
        using auto by blast+
      then show ?thesis using waits_on_registered [OF ok] True by fastforce
    qed
  next
    case False
    then have m: "set_manual f i (wld s) = Inr w" using assms(3,5) by (simp add: set_event_def)
    obtain v where "set_manual f i (wld s) = Inr v" "is_set (events v i)" by (rule set_manual_ok [OF ok assms(2) ul])
    then show ?thesis using m False set_manual_wakes [OF ok assms(2,4) m] by simp
  qed
qed

theorem set_wakes_witness:
  "\<exists>w. set_event 2 0 False (wld sample_waiting) = Inr w \<and> (\<exists>g. waits_on sample_waiting 0 g \<and> g \<in> set (ready w))"
proof -
  let ?w = "put_event 0 (new_event True) ((wld sample_waiting)\<lparr>ready := [1]\<rparr>)"
  have "set_event 2 0 False (wld sample_waiting) = Inr ?w"
    by (simp add: set_event_def set_auto_def sample_waiting_def sample_start_def new_event_def fiberReady_def Let_def)
  moreover have "waits_on sample_waiting 0 1"
    by (simp add: waits_on_def sample_waiting_def sample_start_def)
  ultimately show ?thesis
    using set_wakes [OF reachable_waiting, of 2 0 False ?w]
    by (auto simp: sample_waiting_def sample_start_def new_event_def unlocked_def split: if_splits)
qed

text \<open>
  Setting an automatic event with \<open>all\<close> while a fiber waits for it in \<open>waitAny\<close> goes on with an
  iterator that the erasure has invalidated.
\<close>

theorem set_all_invalidates:
  assumes "reachable s" "auto_reset (evt s i)" "\<not> is_set (evt s i)" "unlocked s i"
    "waits_on s i g" "pcs s g = AnyBlocked n evs"
  shows "set_event f i True (wld s) = Inl EvBadIterator"
proof -
  have ok: "sys_ok s" by (rule reachable_ok [OF assms(1)])
  have ul: "\<forall>(n, k)\<in>set (mn_waiters (evt s i)). n \<notin> nlock s" using assms(4) by (simp add: unlocked_def)
  obtain r w where r: "notify_first (mn_waiters (evt s i)) (wld s) = (r, w)"
    by (cases "notify_first (mn_waiters (evt s i)) (wld s)")
  have "g \<notin> set (ev_waiters (evt s i))" using ok assms(6) unfolding sys_ok_def inv_wait_def by fastforce
  then obtain m k where m: "(m, k) \<in> set (mn_waiters (evt s i))" "key_of s m = NoKey"
    using waits_on_registered [OF ok assms(5)] by blast
  have "r \<noteq> None"
  proof
    assume "r = None"
    then have "notified s (wld s) (mn_waiters (evt s i))" using notify_first_inv [OF ok order_refl ul r] by blast
    then show False using m unfolding notified_def by fastforce
  qed
  then show ?thesis using assms(2,3) r by (auto simp: set_event_def set_auto_def Let_def)
qed

theorem set_all_invalidates_witness:
  "set_event 2 0 True (wld sample_any) = Inl EvBadIterator"
proof (rule set_all_invalidates [OF reachable_any])
  show "auto_reset (evt sample_any 0)" "\<not> is_set (evt sample_any 0)" "unlocked sample_any 0"
    "pcs sample_any 1 = AnyBlocked 0 [0]" "waits_on sample_any 0 1"
    by (simp_all add: sample_any_def any_block_def sample_registered_def mnWait_def any_start_def sample_start_def
        new_event_def unlocked_def waits_on_def Let_def)
qed

end
