(* ===== verification/AsyncLocks.thy ===== *)
theory AsyncLocks
  imports Prelude
begin

text \<open>
  The order of the locks in async/impl/event.cpp.  \<open>waitAny\<close> holds the mutex of its notifier while
  it takes those of its events in turn; \<open>set\<close> holds the mutex of its event while it takes those
  of the notifiers registered there.  Here every acquisition is a step of its own.
\<close>

subsection \<open>Threads and locks\<close>

datatype lock = EvLock nat | MnLock nat

text \<open>Where a thread is: before \<open>waitAny\<close> with a notifier and the events, between two of them,
  inside \<open>mnWait\<close>; before \<open>set\<close>, between two notifiers, inside \<open>notifyReady\<close>; or behind.\<close>

datatype lpc = AnyBegin nat "nat list" | AnyAt nat "nat list" | AnyIn nat nat "nat list"
  | SetBegin nat | SetAt nat "nat list" | SetIn nat nat "nat list" | Behind

record lock_system =
  held :: "lock set"
  regs :: "nat \<Rightarrow> nat list"
  lpcs :: "nat \<Rightarrow> lpc"

definition lgoto :: "nat \<Rightarrow> lpc \<Rightarrow> lock set \<Rightarrow> (nat \<Rightarrow> nat list) \<Rightarrow> lock_system \<Rightarrow> lock_system" where
  "lgoto t p h r s = \<lparr>held = h, regs = r, lpcs = (lpcs s)(t := p)\<rparr>"

lemma lgoto_simps [simp]:
  "held (lgoto t p h r s) = h" "regs (lgoto t p h r s) = r" "lpcs (lgoto t p h r s) = (lpcs s)(t := p)"
  by (simp_all add: lgoto_def)

text \<open>\<open>waitAny\<close> on events that are not set, up to its yield.\<close>

inductive any_lstep :: "nat \<Rightarrow> lock_system \<Rightarrow> lock_system \<Rightarrow> bool" where
  any_lock: "lpcs s t = AnyBegin n is \<Longrightarrow> MnLock n \<notin> held s \<Longrightarrow>
     any_lstep t s (lgoto t (AnyAt n is) (insert (MnLock n) (held s)) (regs s) s)"
| any_event: "lpcs s t = AnyAt n (i # is) \<Longrightarrow> EvLock i \<notin> held s \<Longrightarrow>
     any_lstep t s (lgoto t (AnyIn n i is) (insert (EvLock i) (held s)) (regs s) s)"
| any_register: "lpcs s t = AnyIn n i is \<Longrightarrow>
     any_lstep t s (lgoto t (AnyAt n is) (held s - {EvLock i}) ((regs s)(i := regs s i @ [n])) s)"
| any_unlock: "lpcs s t = AnyAt n [] \<Longrightarrow> any_lstep t s (lgoto t Behind (held s - {MnLock n}) (regs s) s)"

text \<open>\<open>set\<close>: a manual event notifies all, an automatic one stops at the first that accepts.\<close>

inductive set_lstep :: "nat \<Rightarrow> lock_system \<Rightarrow> lock_system \<Rightarrow> bool" where
  set_lock: "lpcs s t = SetBegin i \<Longrightarrow> EvLock i \<notin> held s \<Longrightarrow>
     set_lstep t s (lgoto t (SetAt i (regs s i)) (insert (EvLock i) (held s)) (regs s) s)"
| set_notify: "lpcs s t = SetAt i (n # ns) \<Longrightarrow> MnLock n \<notin> held s \<Longrightarrow>
     set_lstep t s (lgoto t (SetIn i n ns) (insert (MnLock n) (held s)) (regs s) s)"
| set_next: "lpcs s t = SetIn i n ns \<Longrightarrow>
     set_lstep t s (lgoto t (SetAt i ns) (held s - {MnLock n}) (regs s) s)"
| set_accepted: "lpcs s t = SetIn i n ns \<Longrightarrow>
     set_lstep t s (lgoto t Behind (held s - {MnLock n, EvLock i}) ((regs s)(i := ns)) s)"
| set_unlock: "lpcs s t = SetAt i [] \<Longrightarrow>
     set_lstep t s (lgoto t Behind (held s - {EvLock i}) ((regs s)(i := [])) s)"

definition lstep :: "lock_system \<Rightarrow> lock_system \<Rightarrow> bool" where
  "lstep s s' \<longleftrightarrow> (\<exists>t. any_lstep t s s' \<or> set_lstep t s s')"

definition linitial :: "lock_system \<Rightarrow> bool" where
  "linitial s \<longleftrightarrow> held s = {} \<and> (\<forall>i. regs s i = []) \<and> finite {t. lpcs s t \<noteq> Behind} \<and>
     (\<forall>t. lpcs s t = Behind \<or> (\<exists>n is. lpcs s t = AnyBegin n is) \<or> (\<exists>i. lpcs s t = SetBegin i)) \<and>
     (\<forall>t u n is js. lpcs s t = AnyBegin n is \<longrightarrow> lpcs s u = AnyBegin n js \<longrightarrow> t = u)"

definition deadlocked :: "lock_system \<Rightarrow> bool" where
  "deadlocked s \<longleftrightarrow> (\<exists>t. lpcs s t \<noteq> Behind) \<and> (\<forall>s'. \<not> lstep s s')"

subsection \<open>Arrays in one order\<close>

text \<open>The notifier of a thread, and the events before it that it still has to visit.\<close>

fun notifier_of :: "lpc \<Rightarrow> nat option" where
  "notifier_of (AnyBegin n is) = Some n"
| "notifier_of (AnyAt n is) = Some n"
| "notifier_of (AnyIn n i is) = Some n"
| "notifier_of p = None"

fun to_visit :: "lpc \<Rightarrow> nat list" where
  "to_visit (AnyBegin n is) = is"
| "to_visit (AnyAt n is) = is"
| "to_visit (AnyIn n i is) = i # is"
| "to_visit p = []"

text \<open>The notifiers a thread in \<open>set\<close> has still to notify, and its event.\<close>

fun to_notify :: "lpc \<Rightarrow> (nat \<times> nat) set" where
  "to_notify (SetAt i ns) = Pair i ` set ns"
| "to_notify (SetIn i n ns) = Pair i ` set (n # ns)"
| "to_notify p = {}"

fun holds :: "lpc \<Rightarrow> lock set" where
  "holds (AnyAt n is) = {MnLock n}"
| "holds (AnyIn n i is) = {MnLock n, EvLock i}"
| "holds (SetAt i ns) = {EvLock i}"
| "holds (SetIn i n ns) = {EvLock i, MnLock n}"
| "holds p = {}"

definition locks_held :: "lock_system \<Rightarrow> bool" where
  "locks_held s \<longleftrightarrow> (\<forall>l\<in>held s. \<exists>t. l \<in> holds (lpcs s t)) \<and>
     (\<forall>t. holds (lpcs s t) \<subseteq> held s) \<and> (\<forall>t u. t \<noteq> u \<longrightarrow> holds (lpcs s t) \<inter> holds (lpcs s u) = {})"

definition own_notifier :: "lock_system \<Rightarrow> bool" where
  "own_notifier s \<longleftrightarrow> (\<forall>t u n. notifier_of (lpcs s t) = Some n \<longrightarrow> notifier_of (lpcs s u) = Some n \<longrightarrow> t = u)"

definition registered :: "lock_system \<Rightarrow> (nat \<times> nat) set" where
  "registered s = {(i, n). n \<in> set (regs s i)} \<union> (\<Union>t. to_notify (lpcs s t))"

text \<open>Every array ascends, and an event where a thread is registered is before those it has to visit.\<close>

definition ascending :: "lock_system \<Rightarrow> bool" where
  "ascending s \<longleftrightarrow> (\<forall>t. sorted_wrt (<) (to_visit (lpcs s t))) \<and>
     (\<forall>t n i j. notifier_of (lpcs s t) = Some n \<longrightarrow> (i, n) \<in> registered s \<longrightarrow> j \<in> set (to_visit (lpcs s t)) \<longrightarrow> i < j)"

definition lock_ok :: "lock_system \<Rightarrow> bool" where
  "lock_ok s \<longleftrightarrow> locks_held s \<and> own_notifier s \<and> ascending s \<and> finite {t. lpcs s t \<noteq> Behind}"

subsection \<open>Preservation\<close>

lemma locks_held_goto:
  assumes "locks_held s" "holds p \<inter> (held s - holds (lpcs s t)) = {}" "h = held s - holds (lpcs s t) \<union> holds p"
  shows "locks_held (lgoto t p h r s)"
proof -
  have "\<exists>u. l \<in> holds (((lpcs s)(t := p)) u)" if "l \<in> h" for l
  proof (cases "l \<in> holds p")
    case True
    then show ?thesis by (intro exI [of _ t]) simp
  next
    case False
    then have l: "l \<in> held s" "l \<notin> holds (lpcs s t)" using that assms(3) by simp_all
    then obtain u where "l \<in> holds (lpcs s u)" using assms(1) unfolding locks_held_def by blast
    moreover have "u \<noteq> t" using calculation l(2) by blast
    ultimately show ?thesis by (intro exI [of _ u]) simp
  qed
  moreover have "holds (((lpcs s)(t := p)) u) \<subseteq> h" for u
    using assms(1,3) unfolding locks_held_def by (cases "u = t") (simp, simp, blast)
  moreover have "holds (((lpcs s)(t := p)) u) \<inter> holds (((lpcs s)(t := p)) v) = {}" if "u \<noteq> v" for u v
  proof -
    have "holds (lpcs s x) \<inter> holds p = {}" if "x \<noteq> t" for x
      using assms(1,2) that unfolding locks_held_def by blast
    moreover have "holds (lpcs s u) \<inter> holds (lpcs s v) = {}"
      using assms(1) that unfolding locks_held_def by blast
    ultimately show ?thesis using that by (simp add: Int_commute)
  qed
  ultimately show ?thesis unfolding locks_held_def lgoto_simps by blast
qed

lemma any_locks_held: "any_lstep t s s' \<Longrightarrow> locks_held s \<Longrightarrow> locks_held s'"
proof (induction rule: any_lstep.induct)
  case (any_lock s t n "is")
  then show ?case by (intro locks_held_goto) auto
next
  case (any_event s t n i "is")
  then have "MnLock n \<in> held s" unfolding locks_held_def by (metis holds.simps(1) insert_subset)
  then show ?case using any_event by (intro locks_held_goto) auto
next
  case (any_register s t n i "is")
  then have "MnLock n \<in> held s" unfolding locks_held_def by (metis holds.simps(2) insert_subset)
  then show ?case using any_register by (intro locks_held_goto) auto
next
  case (any_unlock s t n)
  then show ?case by (intro locks_held_goto) auto
qed

lemma set_locks_held: "set_lstep t s s' \<Longrightarrow> locks_held s \<Longrightarrow> locks_held s'"
proof (induction rule: set_lstep.induct)
  case (set_lock s t i)
  then show ?case by (intro locks_held_goto) auto
next
  case (set_notify s t i n ns)
  then have "EvLock i \<in> held s" unfolding locks_held_def by (metis holds.simps(3) insert_subset)
  then show ?case using set_notify by (intro locks_held_goto) auto
next
  case (set_next s t i n ns)
  then have "EvLock i \<in> held s" unfolding locks_held_def by (metis holds.simps(4) insert_subset)
  then show ?case using set_next by (intro locks_held_goto) auto
next
  case (set_accepted s t i n ns)
  then show ?case by (intro locks_held_goto) auto
next
  case (set_unlock s t i)
  then show ?case by (intro locks_held_goto) auto
qed

lemma own_notifier_goto:
  assumes "own_notifier s" "notifier_of p = notifier_of (lpcs s t) \<or> notifier_of p = None"
  shows "own_notifier (lgoto t p h r s)"
proof -
  have "notifier_of (((lpcs s)(t := p)) u) = Some n \<Longrightarrow> notifier_of (lpcs s u) = Some n" for u n
    using assms(2) by (cases "u = t") auto
  then show ?thesis using assms(1) unfolding own_notifier_def lgoto_simps by blast
qed

lemma lstep_own_notifier: "any_lstep t s s' \<or> set_lstep t s s' \<Longrightarrow> own_notifier s \<Longrightarrow> own_notifier s'"
  by (elim disjE; elim any_lstep.cases set_lstep.cases) (auto intro!: own_notifier_goto)

lemma registered_at: "n \<in> set (regs s i) \<Longrightarrow> (i, n) \<in> registered s" "x \<in> to_notify (lpcs s t) \<Longrightarrow> x \<in> registered s"
  unfolding registered_def by blast+

lemma registered_goto:
  assumes "\<And>i n. n \<in> set (r i) \<Longrightarrow> (i, n) \<in> registered s \<union> A" "to_notify p \<subseteq> registered s"
  shows "registered (lgoto t p h r s) \<subseteq> registered s \<union> A"
proof
  fix x assume "x \<in> registered (lgoto t p h r s)"
  then consider "snd x \<in> set (r (fst x))" | u where "x \<in> to_notify (((lpcs s)(t := p)) u)"
    unfolding registered_def by force
  then show "x \<in> registered s \<union> A"
  proof cases
    case 1
    then show ?thesis using assms(1) [of "snd x" "fst x"] by simp
  next
    case 2
    then show ?thesis using assms(2) registered_at(2) by (cases "u = t") auto
  qed
qed

text \<open>A step of \<open>t\<close> keeps the arrays in order if what it registers is its own notifier, behind which
  it has all it still visits.\<close>

lemma ascending_goto:
  assumes asc: "ascending s" and own: "own_notifier s"
    and r: "\<And>i n. n \<in> set (r i) \<Longrightarrow> (i, n) \<in> registered s \<union> A" "to_notify p \<subseteq> registered s"
    and v: "sorted_wrt (<) (to_visit p)" "set (to_visit p) \<subseteq> set (to_visit (lpcs s t))"
    and n: "notifier_of p = notifier_of (lpcs s t) \<or> notifier_of p = None"
    and A: "\<forall>(i, n)\<in>A. notifier_of (lpcs s t) = Some n \<and> (\<forall>j\<in>set (to_visit p). i < j)"
  shows "ascending (lgoto t p h r s)"
  unfolding ascending_def
proof (intro conjI allI impI)
  fix u show "sorted_wrt (<) (to_visit (lpcs (lgoto t p h r s) u))"
    using asc v(1) unfolding ascending_def by simp
next
  fix u m i j
  assume u: "notifier_of (lpcs (lgoto t p h r s) u) = Some m" and i: "(i, m) \<in> registered (lgoto t p h r s)"
    and j: "j \<in> set (to_visit (lpcs (lgoto t p h r s) u))"
  have u': "notifier_of (lpcs s u) = Some m" "j \<in> set (to_visit (lpcs s u))"
    using u j n v(2) by (auto split: if_splits)
  have "(i, m) \<in> registered s \<union> A" using i registered_goto [OF r] by blast
  then show "i < j"
  proof
    assume "(i, m) \<in> registered s"
    then show ?thesis using asc u' unfolding ascending_def by blast
  next
    assume a: "(i, m) \<in> A"
    then have "u = t" using A u'(1) own unfolding own_notifier_def by blast
    then show ?thesis using a A j by auto
  qed
qed

lemma any_ascending:
  assumes "any_lstep t s s'" "ascending s" "own_notifier s"
  shows "ascending s'"
proof -
  have srt: "sorted_wrt (<) (to_visit (lpcs s t))" using assms(2) unfolding ascending_def by blast
  note keep = ascending_goto [OF assms(2,3), where t = t and A = "{}"]
  from assms(1) show ?thesis
  proof cases
    case (any_lock n "is")
    then show ?thesis using srt by (auto intro!: keep registered_at(1))
  next
    case (any_event n i "is")
    then show ?thesis using srt by (auto intro!: keep registered_at(1))
  next
    case (any_register n i "is")
    then show ?thesis using srt
      by (auto intro!: ascending_goto [OF assms(2,3), where t = t and A = "{(i, n)}"] registered_at(1) split: if_splits)
  next
    case (any_unlock n)
    then show ?thesis by (auto intro!: keep registered_at(1))
  qed
qed

lemma set_ascending:
  assumes "set_lstep t s s'" "ascending s" "own_notifier s"
  shows "ascending s'"
proof -
  note keep = ascending_goto [OF assms(2,3), where t = t and A = "{}"]
  have to: "to_notify (lpcs s t) \<subseteq> registered s" using registered_at(2) by blast
  from assms(1) show ?thesis
    by cases (use to in \<open>auto intro!: keep intro: registered_at(1) simp: image_subset_iff split: if_splits\<close>)
qed

lemma finite_goto: "finite {u. lpcs s u \<noteq> Behind} \<Longrightarrow> finite {u. lpcs (lgoto t p h r s) u \<noteq> Behind}"
  by (rule finite_subset [of _ "insert t {u. lpcs s u \<noteq> Behind}"]) auto

lemma lstep_ok:
  assumes "lstep s s'" "lock_ok s"
  shows "lock_ok s'"
proof -
  from assms(1) obtain t where t: "any_lstep t s s' \<or> set_lstep t s s'" unfolding lstep_def by blast
  then obtain p h r where "s' = lgoto t p h r s" by (elim disjE; elim any_lstep.cases set_lstep.cases) blast+
  then have "finite {u. lpcs s' u \<noteq> Behind}" using assms(2) finite_goto unfolding lock_ok_def by blast
  then show ?thesis
    using t assms(2) any_locks_held set_locks_held lstep_own_notifier any_ascending set_ascending
    unfolding lock_ok_def by blast
qed

subsection \<open>Progress\<close>

lemma any_steps:
  "lpcs s t = AnyBegin n is \<Longrightarrow> MnLock n \<notin> held s \<Longrightarrow> \<exists>s'. lstep s s'"
  "lpcs s t = AnyAt n (i # is) \<Longrightarrow> EvLock i \<notin> held s \<Longrightarrow> \<exists>s'. lstep s s'"
  "lpcs s t = AnyIn n i is \<Longrightarrow> \<exists>s'. lstep s s'"
  "lpcs s t = AnyAt n [] \<Longrightarrow> \<exists>s'. lstep s s'"
  unfolding lstep_def by (blast intro: any_lstep.intros)+

lemma set_steps:
  "lpcs s t = SetBegin i \<Longrightarrow> EvLock i \<notin> held s \<Longrightarrow> \<exists>s'. lstep s s'"
  "lpcs s t = SetAt i (n # ns) \<Longrightarrow> MnLock n \<notin> held s \<Longrightarrow> \<exists>s'. lstep s s'"
  "lpcs s t = SetIn i n ns \<Longrightarrow> \<exists>s'. lstep s s'"
  "lpcs s t = SetAt i [] \<Longrightarrow> \<exists>s'. lstep s s'"
  unfolding lstep_def by (blast intro: set_lstep.intros)+

text \<open>Who has a lock.\<close>

lemma mn_holder:
  assumes "locks_held s" "MnLock n \<in> held s" "\<nexists>s'. lstep s s'"
  obtains u js where "lpcs s u = AnyAt n js"
proof -
  obtain u where "MnLock n \<in> holds (lpcs s u)" using assms(1,2) unfolding locks_held_def by blast
  then show ?thesis using that any_steps(3) set_steps(3) assms(3) by (cases "lpcs s u") auto
qed

lemma ev_holder:
  assumes "locks_held s" "EvLock i \<in> held s" "\<nexists>s'. lstep s s'"
  obtains u n ns where "lpcs s u = SetAt i (n # ns)" "MnLock n \<in> held s"
proof -
  obtain u where u: "EvLock i \<in> holds (lpcs s u)" using assms(1,2) unfolding locks_held_def by blast
  then obtain ns where "lpcs s u = SetAt i ns"
    using any_steps(3) set_steps(3) assms(3) by (cases "lpcs s u") auto
  then show ?thesis using that set_steps(2,4) assms(3) by (cases ns) blast+
qed

text \<open>A thread that is stuck between two events wants one that is later than some other stuck thread's.\<close>

lemma stuck_any_later:
  assumes "lock_ok s" "\<nexists>s'. lstep s s'" "lpcs s t = AnyAt n (i # is)"
  shows "\<exists>u m j js. lpcs s u = AnyAt m (j # js) \<and> i < j"
proof -
  have h: "locks_held s" and asc: "ascending s" using assms(1) unfolding lock_ok_def by blast+
  have "EvLock i \<in> held s" using any_steps(2) assms(2,3) by blast
  then obtain v m ns where v: "lpcs s v = SetAt i (m # ns)" "MnLock m \<in> held s" by (rule ev_holder [OF h _ assms(2)])
  obtain u js where u: "lpcs s u = AnyAt m js" by (rule mn_holder [OF h v(2) assms(2)])
  then obtain j js' where "js = j # js'" using any_steps(4) assms(2) by (cases js) blast+
  moreover have "(i, m) \<in> registered s" using registered_at(2) [of _ s v] v(1) by simp
  ultimately show ?thesis using asc u unfolding ascending_def by (metis list.set_intros(1) notifier_of.simps(2) to_visit.simps(2))
qed

lemma no_stuck_any:
  assumes "lock_ok s" "\<nexists>s'. lstep s s'"
  shows "lpcs s t \<noteq> AnyAt n is"
proof
  assume t: "lpcs s t = AnyAt n is"
  let ?W = "{i. \<exists>u m is. lpcs s u = AnyAt m (i # is)}"
  have "?W \<subseteq> (\<lambda>u. hd (to_visit (lpcs s u))) ` {u. lpcs s u \<noteq> Behind}"
  proof
    fix i assume "i \<in> ?W"
    then obtain u m "is" where "lpcs s u = AnyAt m (i # is)" by blast
    then show "i \<in> (\<lambda>u. hd (to_visit (lpcs s u))) ` {u. lpcs s u \<noteq> Behind}" by (intro image_eqI [of _ _ u]) simp_all
  qed
  then have "finite ?W" using assms(1) finite_surj unfolding lock_ok_def by blast
  moreover have "?W \<noteq> {}" using t any_steps(4) assms(2) by (cases "is") blast+
  ultimately have "Max ?W \<in> ?W" by (rule Max_in)
  then obtain u m "is" where "lpcs s u = AnyAt m (Max ?W # is)" by blast
  from stuck_any_later [OF assms this] obtain j where "j \<in> ?W" "Max ?W < j" by blast
  then show False using Max_ge [OF \<open>finite ?W\<close>] by (meson leD)
qed

lemma lock_ok_progress:
  assumes "lock_ok s" "lpcs s t \<noteq> Behind"
  shows "\<exists>s'. lstep s s'"
proof (rule ccontr)
  assume no: "\<nexists>s'. lstep s s'"
  have h: "locks_held s" using assms(1) unfolding lock_ok_def by blast
  have mn: "MnLock n \<notin> held s" for n using mn_holder [OF h _ no] no_stuck_any [OF assms(1) no] by blast
  then have ev: "EvLock i \<notin> held s" for i using ev_holder [OF h _ no] by blast
  show False
  proof (cases "lpcs s t")
    case (AnyBegin n "is")
    then show ?thesis using any_steps(1) mn no by blast
  next
    case (SetBegin i)
    then show ?thesis using set_steps(1) ev no by blast
  next
    case (SetAt i ns)
    then show ?thesis using set_steps(2,4) mn no by (cases ns) blast+
  qed (use assms(2) no_stuck_any [OF assms(1) no] any_steps(3) set_steps(3) no in blast)+
qed

subsection \<open>Properties\<close>

lemma linitial_ok:
  assumes "linitial s" "\<forall>t n is. lpcs s t = AnyBegin n is \<longrightarrow> sorted_wrt (<) is"
  shows "lock_ok s"
proof -
  have p: "holds (lpcs s t) = {} \<and> to_notify (lpcs s t) = {} \<and> sorted_wrt (<) (to_visit (lpcs s t))" for t
    using assms unfolding linitial_def by (metis holds.simps(5,6,7) to_notify.simps(3,6,7) to_visit.simps(1,5,7,4) sorted_wrt.simps(1))
  have "own_notifier s" using assms(1) unfolding linitial_def own_notifier_def
    by (metis notifier_of.simps(1,4,7) option.inject option.distinct(1))
  moreover have "registered s = {}" using assms(1) p unfolding registered_def linitial_def by auto
  ultimately show ?thesis using p assms(1) unfolding lock_ok_def locks_held_def ascending_def linitial_def by auto
qed

lemma any_rtrancl:
  "lpcs s t = AnyBegin n (i # is) \<Longrightarrow> MnLock n \<notin> held s \<Longrightarrow> EvLock i \<notin> held s \<Longrightarrow>
    lstep\<^sup>*\<^sup>* s (lgoto t (AnyAt n is) (insert (MnLock n) (held s)) ((regs s)(i := regs s i @ [n])) s)"
proof -
  assume a: "lpcs s t = AnyBegin n (i # is)" "MnLock n \<notin> held s" "EvLock i \<notin> held s"
  let ?s1 = "lgoto t (AnyAt n (i # is)) (insert (MnLock n) (held s)) (regs s) s"
  let ?s2 = "lgoto t (AnyIn n i is) (insert (EvLock i) (held ?s1)) (regs ?s1) ?s1"
  let ?s3 = "lgoto t (AnyAt n is) (held ?s2 - {EvLock i}) ((regs ?s2)(i := regs ?s2 i @ [n])) ?s2"
  have "lstep s ?s1" unfolding lstep_def by (intro exI [of _ t] disjI1 any_lock [OF a(1,2)])
  moreover have "lstep ?s1 ?s2" unfolding lstep_def by (intro exI [of _ t] disjI1 any_event) (simp_all add: a(3))
  moreover have "lstep ?s2 ?s3" unfolding lstep_def by (intro exI [of _ t] disjI1 any_register) simp
  ultimately have "lstep\<^sup>*\<^sup>* s ?s3" by (blast intro: rtranclp.rtrancl_into_rtrancl)
  moreover have "insert (EvLock i) (insert (MnLock n) (held s)) - {EvLock i} = insert (MnLock n) (held s)" using a(3) by auto
  then have "?s3 = lgoto t (AnyAt n is) (insert (MnLock n) (held s)) ((regs s)(i := regs s i @ [n])) s"
    by (simp add: lgoto_def)
  ultimately show ?thesis by (simp only:)
qed

definition in_order :: lock_system where
  "in_order = \<lparr>held = {}, regs = (\<lambda>i. []), lpcs = (\<lambda>t. Behind)
     (0 := AnyBegin 10 [1, 2], 1 := AnyBegin 11 [1, 2], 2 := SetBegin 2)\<rparr>"

text \<open>
  Where every array given to \<open>waitAny\<close> lists its events in one ascending order, no interleaving of
  \<open>waitAny\<close> and \<open>set\<close> comes to a deadlock.
\<close>

theorem ordered_waits_progress:
  assumes "linitial s" "\<forall>t n is. lpcs s t = AnyBegin n is \<longrightarrow> sorted_wrt (<) is" "lstep\<^sup>*\<^sup>* s s'"
  shows "\<not> deadlocked s'"
proof -
  from assms(3) have "lock_ok s'"
    by (induction rule: rtranclp_induct) (use linitial_ok [OF assms(1,2)] lstep_ok in blast)+
  then show ?thesis using lock_ok_progress unfolding deadlocked_def by blast
qed

theorem ordered_waits_progress_witness:
  "\<not> deadlocked (lgoto 0 (AnyAt 10 [2]) {MnLock 10} ((\<lambda>i. [])(1 := [10])) in_order)"
proof (rule ordered_waits_progress)
  have "finite {t. lpcs in_order t \<noteq> Behind}"
    by (rule finite_subset [of _ "{0, 1, 2}"]) (auto simp: in_order_def split: if_splits)
  then show "linitial in_order" by (auto simp: linitial_def in_order_def split: if_splits)
  show "\<forall>t n is. lpcs in_order t = AnyBegin n is \<longrightarrow> sorted_wrt (<) is"
    by (auto simp: in_order_def split: if_splits)
  show "lstep\<^sup>*\<^sup>* in_order (lgoto 0 (AnyAt 10 [2]) {MnLock 10} ((\<lambda>i. [])(1 := [10])) in_order)"
    using any_rtrancl [of in_order 0 10 1 "[2]"] by (simp add: in_order_def)
qed

text \<open>A waits for 1 and 2, C for 2 and 1, B sets 1 and D sets 2; B and D call \<open>set\<close> when A and C have
  registered for the first of their events.\<close>

definition crossing :: lock_system where
  "crossing = \<lparr>held = {}, regs = (\<lambda>i. []), lpcs = (\<lambda>t. Behind)
     (0 := AnyBegin 10 [1, 2], 1 := AnyBegin 11 [2, 1], 2 := SetBegin 1, 3 := SetBegin 2)\<rparr>"

definition crossed :: lock_system where
  "crossed = \<lparr>held = {MnLock 10, MnLock 11, EvLock 1, EvLock 2}, regs = (\<lambda>i. [])(1 := [10], 2 := [11]),
     lpcs = (\<lambda>t. Behind)(0 := AnyAt 10 [2], 1 := AnyAt 11 [1], 2 := SetAt 1 [10], 3 := SetAt 2 [11])\<rparr>"

lemma crossed_deadlocked: "deadlocked crossed"
proof -
  have "\<not> any_lstep t crossed s" "\<not> set_lstep t crossed s" for t s
    by (auto simp: crossed_def elim!: any_lstep.cases set_lstep.cases split: if_splits)
  moreover have "lpcs crossed 0 \<noteq> Behind" by (simp add: crossed_def)
  ultimately show ?thesis unfolding deadlocked_def lstep_def by blast
qed

text \<open>
  Without such an order a deadlock is possible: two fibers that wait for the same two events in
  opposite orders and two that set these events.
\<close>

theorem crossed_waits_deadlock: "linitial crossing \<and> (\<exists>s. lstep\<^sup>*\<^sup>* crossing s \<and> deadlocked s)"
proof
  have "finite {t. lpcs crossing t \<noteq> Behind}"
    by (rule finite_subset [of _ "{0, 1, 2, 3}"]) (auto simp: crossing_def split: if_splits)
  then show "linitial crossing" by (auto simp: linitial_def crossing_def split: if_splits)
  let ?s1 = "lgoto 0 (AnyAt 10 [2]) (insert (MnLock 10) (held crossing)) ((regs crossing)(1 := [10])) crossing"
  let ?s2 = "lgoto 1 (AnyAt 11 [1]) (insert (MnLock 11) (held ?s1)) ((regs ?s1)(2 := [11])) ?s1"
  let ?s3 = "lgoto 2 (SetAt 1 [10]) (insert (EvLock 1) (held ?s2)) (regs ?s2) ?s2"
  let ?s4 = "lgoto 3 (SetAt 2 [11]) (insert (EvLock 2) (held ?s3)) (regs ?s3) ?s3"
  have "lstep\<^sup>*\<^sup>* crossing ?s1" using any_rtrancl [of crossing 0 10 1 "[2]"] by (simp add: crossing_def)
  moreover have "lstep\<^sup>*\<^sup>* ?s1 ?s2" using any_rtrancl [of ?s1 1 11 2 "[1]"] by (simp add: crossing_def)
  moreover have "lstep ?s2 ?s3" unfolding lstep_def using set_lock [of ?s2 2 1] by (simp add: crossing_def) blast
  moreover have "lstep ?s3 ?s4" unfolding lstep_def using set_lock [of ?s3 3 2] by (simp add: crossing_def) blast
  ultimately have "lstep\<^sup>*\<^sup>* crossing ?s4" by (meson rtranclp_trans rtranclp.rtrancl_into_rtrancl)
  moreover have "?s4 = crossed"
    by (auto simp: lgoto_def crossing_def crossed_def fun_upd_twist)
  ultimately show "\<exists>s. lstep\<^sup>*\<^sup>* crossing s \<and> deadlocked s" using crossed_deadlocked by metis
qed

end
