(* ===== verification/AsyncMutex.thy ===== *)
theory AsyncMutex
  imports Prelude
begin

text \<open>
  The mutex of the fiber scheduler (async/impl/mutex.cpp): a queue of fibers whose first has the
  lock.  Each operation holds a system mutex, so it is one step; the queue of ready fibers is the
  pool's.
\<close>

subsection \<open>The operations\<close>

datatype mfault = NotLocked | MutexAssert

definition tryLock :: "nat \<Rightarrow> nat list \<Rightarrow> bool \<times> nat list" where
  "tryLock f os = (if os = [] then (True, os @ [f]) else (False, os))"

text \<open>\<open>lock\<close> gives whether the fiber has the lock at once; otherwise it yields.\<close>

definition lock_mutex :: "nat \<Rightarrow> nat list \<Rightarrow> bool \<times> nat list" where
  "lock_mutex f os = (let os' = os @ [f] in (length os' = 1, os'))"

definition isLocked :: "nat list \<Rightarrow> bool" where
  "isLocked os \<longleftrightarrow> os \<noteq> []"

definition unlock_mutex :: "nat list \<Rightarrow> nat list \<Rightarrow> mfault + (nat list \<times> nat list)" where
  "unlock_mutex os rdy = (case os of [] \<Rightarrow> Inl NotLocked
     | _ # os' \<Rightarrow> Inr (os', case os' of [] \<Rightarrow> rdy | f # _ \<Rightarrow> rdy @ [f]))"

definition destroy_mutex :: "nat list \<Rightarrow> nat list \<Rightarrow> mfault + nat list" where
  "destroy_mutex os rdy = (if os \<noteq> [] then Inl MutexAssert else Inr (rdy @ os))"

subsection \<open>Fibers that use one mutex\<close>

text \<open>A fiber is outside, inside, or has called \<open>lock\<close> and yielded.  \<open>unlock\<close> does not look at who
  calls it (the check of the owner is commented out in mutex.cpp), so any running fiber can call
  each of the three operations, whatever it holds; an \<open>unlock\<close> of a free mutex throws and changes
  nothing.  The labels say who does what.\<close>

datatype mpc = Outside | Inside | Blocked

datatype mact = MLock nat | MTry nat | MUnlock nat | MResume nat | MLater

record mutex_system =
  owners :: "nat list"
  mready :: "nat list"
  mpcs :: "nat \<Rightarrow> mpc"

abbreviation mgoto :: "nat \<Rightarrow> mpc \<Rightarrow> mutex_system \<Rightarrow> mutex_system" where
  "mgoto f p s \<equiv> s\<lparr>mpcs := (mpcs s)(f := p)\<rparr>"

inductive mstep :: "mact \<Rightarrow> mutex_system \<Rightarrow> mutex_system \<Rightarrow> bool" where
  mstep_lock: "mpcs s f \<noteq> Blocked \<Longrightarrow> lock_mutex f (owners s) = (b, os) \<Longrightarrow>
     mstep (MLock f) s (mgoto f (if b then Inside else Blocked) (s\<lparr>owners := os\<rparr>))"
| mstep_try: "mpcs s f \<noteq> Blocked \<Longrightarrow> tryLock f (owners s) = (b, os) \<Longrightarrow>
     mstep (MTry f) s (mgoto f (if b then Inside else mpcs s f) (s\<lparr>owners := os\<rparr>))"
| mstep_unlock: "mpcs s f \<noteq> Blocked \<Longrightarrow> unlock_mutex (owners s) (mready s) = Inr (os, rdy) \<Longrightarrow>
     mstep (MUnlock f) s (mgoto f Outside (s\<lparr>owners := os, mready := rdy\<rparr>))"
| mstep_throw: "mpcs s f \<noteq> Blocked \<Longrightarrow> unlock_mutex (owners s) (mready s) = Inl e \<Longrightarrow> mstep (MUnlock f) s s"
| mstep_resume: "mready s = f # fs \<Longrightarrow> mpcs s f = Blocked \<Longrightarrow>
     mstep (MResume f) s (mgoto f Inside (s\<lparr>mready := fs\<rparr>))"
| mstep_later: "mready s = f # fs \<Longrightarrow> mstep MLater s (s\<lparr>mready := fs @ [f]\<rparr>)"

definition minitial :: mutex_system where
  "minitial = \<lparr>owners = [], mready = [], mpcs = (\<lambda>f. Outside)\<rparr>"

text \<open>The states of the runs whose calls keep a discipline \<open>D\<close>.  The \<open>careful\<close> one: who has the lock
  unlocks it and none else does, and a fiber that has it does not ask for it again.\<close>

inductive mreachable :: "(mutex_system \<Rightarrow> mact \<Rightarrow> bool) \<Rightarrow> mutex_system \<Rightarrow> bool"
  for D :: "mutex_system \<Rightarrow> mact \<Rightarrow> bool" where
  mreach_initial: "mreachable D minitial"
| mreach_step: "mreachable D s \<Longrightarrow> D s a \<Longrightarrow> mstep a s s' \<Longrightarrow> mreachable D s'"

definition careful :: "mutex_system \<Rightarrow> mact \<Rightarrow> bool" where
  "careful s a = (case a of MLock f \<Rightarrow> mpcs s f = Outside | MUnlock f \<Rightarrow> mpcs s f = Inside | _ \<Rightarrow> True)"

abbreviation any_call :: "mutex_system \<Rightarrow> mact \<Rightarrow> bool" where
  "any_call \<equiv> \<lambda>s a. True"

definition careful_step :: "mutex_system \<Rightarrow> mutex_system \<Rightarrow> bool" where
  "careful_step s s' \<longleftrightarrow> (\<exists>a. careful s a \<and> mstep a s s')"

inductive_cases mstep_cases: "mstep a s s'"

text \<open>The first of the queue is inside, or about to be; the others have yielded.\<close>

definition mutex_ok :: "mutex_system \<Rightarrow> bool" where
  "mutex_ok s \<longleftrightarrow> distinct (owners s) \<and> (\<forall>f. mpcs s f = Outside \<longleftrightarrow> f \<notin> set (owners s)) \<and>
     (case owners s of [] \<Rightarrow> mready s = []
      | f # fs \<Rightarrow> (mpcs s f = Inside \<and> mready s = [] \<or> mpcs s f = Blocked \<and> mready s = [f]) \<and>
          (\<forall>g\<in>set fs. mpcs s g = Blocked))"

lemma mutex_ok_first:
  "mutex_ok s \<Longrightarrow> mpcs s f = Inside \<Longrightarrow> \<exists>fs. owners s = f # fs \<and> mready s = []"
proof -
  assume ok: "mutex_ok s" and f: "mpcs s f = Inside"
  from ok f have "f \<in> set (owners s)" unfolding mutex_ok_def by (metis mpc.distinct(1))
  then obtain g gs where o: "owners s = g # gs" by (cases "owners s") auto
  with ok f \<open>f \<in> set (owners s)\<close> have "f = g" unfolding mutex_ok_def by force
  with ok f o show ?thesis by (auto simp: mutex_ok_def)
qed

lemma mstep_ok: "mstep a s s' \<Longrightarrow> careful s a \<Longrightarrow> mutex_ok s \<Longrightarrow> mutex_ok s'"
proof (induction rule: mstep.induct)
  case (mstep_lock s f b os)
  then show ?case by (cases "owners s") (auto simp: mutex_ok_def lock_mutex_def careful_def)
next
  case (mstep_try s f b os)
  show ?case
  proof (cases "owners s")
    case Nil
    then show ?thesis using mstep_try by (auto simp: mutex_ok_def tryLock_def)
  next
    case (Cons g gs)
    then have "mgoto f (if b then Inside else mpcs s f) (s\<lparr>owners := os\<rparr>) = s"
      using mstep_try.hyps by (auto simp: tryLock_def fun_upd_idem)
    then show ?thesis using mstep_try.prems by (simp only:)
  qed
next
  case (mstep_unlock s f os rdy)
  then obtain fs where o: "owners s = f # fs" "mready s = []"
    using mutex_ok_first by (fastforce simp: careful_def)
  then have "os = fs" "rdy = (case fs of [] \<Rightarrow> [] | g # _ \<Rightarrow> [g])"
    using mstep_unlock.hyps(2) by (auto simp: unlock_mutex_def split: list.splits)
  then show ?case using mstep_unlock.prems o by (cases fs) (auto simp: mutex_ok_def)
next
  case (mstep_throw s f e)
  then show ?case by simp
next
  case (mstep_resume s f fs)
  then show ?case by (cases "owners s") (auto simp: mutex_ok_def)
next
  case (mstep_later s f fs)
  then have "fs = []" by (cases "owners s") (auto simp: mutex_ok_def)
  then have "s\<lparr>mready := fs @ [f]\<rparr> = s" using mstep_later.hyps by simp
  then show ?case using mstep_later.prems by (simp only:)
qed

lemma careful_step_ok: "careful_step s s' \<Longrightarrow> mutex_ok s \<Longrightarrow> mutex_ok s'"
  unfolding careful_step_def by (blast intro: mstep_ok)

lemma mutex_ok_initial: "mutex_ok minitial"
  by (simp add: minitial_def mutex_ok_def)

lemma mreachable_ok: "mreachable careful s \<Longrightarrow> mutex_ok s"
  by (induction rule: mreachable.induct) (blast intro: mutex_ok_initial mstep_ok)+

text \<open>The first of the queue gets inside.\<close>

lemma first_inside:
  assumes "mutex_ok s" "owners s = u # os"
  shows "\<exists>s1. careful_step\<^sup>*\<^sup>* s s1 \<and> mutex_ok s1 \<and> owners s1 = owners s \<and> mpcs s1 u = Inside \<and> (\<forall>g. g \<noteq> u \<longrightarrow> mpcs s1 g = mpcs s g)"
proof (cases "mpcs s u = Inside")
  case True
  then show ?thesis using assms(1) by blast
next
  case False
  then have u: "mready s = [u]" "mpcs s u = Blocked" using assms by (simp_all add: mutex_ok_def)
  let ?s1 = "mgoto u Inside (s\<lparr>mready := []\<rparr>)"
  have "careful_step s ?s1"
    unfolding careful_step_def by (rule exI, rule conjI [OF _ mstep_resume [OF u]]) (simp add: careful_def)
  moreover have "mutex_ok ?s1" by (rule careful_step_ok [OF calculation assms(1)])
  moreover have "owners ?s1 = owners s" "mpcs ?s1 u = Inside" "\<forall>g. g \<noteq> u \<longrightarrow> mpcs ?s1 g = mpcs s g" by simp_all
  ultimately show ?thesis by blast
qed

text \<open>What the discipline is for: fiber 1 locks, fiber 2 asks for the lock and yields, fiber 3, which
  holds nothing, unlocks, and fiber 2 goes on while fiber 1 is still inside.\<close>

definition alien_unlocked :: mutex_system where
  "alien_unlocked = \<lparr>owners = [2], mready = [], mpcs = (\<lambda>f. Outside)(1 := Inside, 2 := Inside)\<rparr>"

lemma mreachable_lock:
  assumes "mreachable D s" "mpcs s f = Outside" "D s (MLock f)" "lock_mutex f (owners s) = (b, os)"
  shows "mreachable D (mgoto f (if b then Inside else Blocked) (s\<lparr>owners := os\<rparr>))"
  by (rule mreach_step [OF assms(1,3) mstep_lock [OF _ assms(4)]]) (simp add: assms(2))

definition sample_mutex :: mutex_system where
  "sample_mutex = mgoto 2 Blocked ((mgoto 1 Inside (minitial\<lparr>owners := [1]\<rparr>))\<lparr>owners := [1, 2]\<rparr>)"

lemma reachable_sample_mutex:
  assumes "D minitial (MLock 1)" "D (mgoto 1 Inside (minitial\<lparr>owners := [1]\<rparr>)) (MLock 2)"
  shows "mreachable D sample_mutex"
proof -
  have "mreachable D (mgoto 1 Inside (minitial\<lparr>owners := [1]\<rparr>))"
    using mreachable_lock [OF mreach_initial, of 1 D True "[1]"] assms(1) by (simp add: minitial_def lock_mutex_def)
  from mreachable_lock [OF this, of 2 False "[1, 2]"] assms(2) show ?thesis
    by (simp add: minitial_def lock_mutex_def sample_mutex_def)
qed

lemma careful_sample_mutex: "mreachable careful sample_mutex"
  by (rule reachable_sample_mutex) (simp_all add: careful_def minitial_def)

lemma reachable_alien_unlocked: "mreachable any_call alien_unlocked"
proof -
  let ?s = "sample_mutex\<lparr>owners := [2], mready := [2]\<rparr>"
  have "mstep (MUnlock 3) sample_mutex (mgoto 3 Outside ?s)"
    by (rule mstep_unlock) (simp_all add: sample_mutex_def minitial_def unlock_mutex_def)
  from mreach_step [OF reachable_sample_mutex TrueI this]
  have "mreachable any_call (mgoto 3 Outside ?s)" by simp
  from mreach_step [OF this TrueI mstep_resume, of 2 "[]"]
  have "mreachable any_call (mgoto 2 Inside (mgoto 3 Outside ?s\<lparr>mready := []\<rparr>))"
    by (simp add: sample_mutex_def)
  moreover have "mgoto 2 Inside (mgoto 3 Outside ?s\<lparr>mready := []\<rparr>) = alien_unlocked"
    by (auto simp: sample_mutex_def minitial_def alien_unlocked_def fun_upd_def)
  ultimately show ?thesis by (simp only:)
qed

subsection \<open>Properties\<close>

text \<open>
  C18: if only a fiber that is inside unlocks, and none that is inside locks again, then at most
  one fiber is inside, it is the first of those that called \<open>lock\<close>, its \<open>unlock\<close> does not throw,
  and each call adds its fiber at the end of the queue or takes the first one off: the lock is
  granted in the order of the calls.  The code does not check who unlocks, and without the
  discipline two fibers can be inside at once.
\<close>

theorem mutex_exclusion_fifo:
  assumes "mreachable careful s" "careful s a" "mstep a s s'"
  shows "(mpcs s f = Inside \<and> mpcs s g = Inside \<longrightarrow> f = g) \<and>
    (mpcs s f = Inside \<longrightarrow> owners s \<noteq> [] \<and> hd (owners s) = f \<and> unlock_mutex (owners s) (mready s) \<noteq> Inl NotLocked) \<and>
    owners s' = (case a of MLock h \<Rightarrow> owners s @ [h] | MTry h \<Rightarrow> if owners s = [] then [h] else owners s
      | MUnlock h \<Rightarrow> List.tl (owners s) | _ \<Rightarrow> owners s) \<and>
    (\<exists>t x y. mreachable any_call t \<and> mpcs t x = Inside \<and> mpcs t y = Inside \<and> x \<noteq> y)"
proof -
  have ok: "mutex_ok s" by (rule mreachable_ok [OF assms(1)])
  have "owners s' = (case a of MLock h \<Rightarrow> owners s @ [h] | MTry h \<Rightarrow> if owners s = [] then [h] else owners s
      | MUnlock h \<Rightarrow> List.tl (owners s) | _ \<Rightarrow> owners s)"
    using assms(3) by (cases rule: mstep_cases)
      (auto simp: lock_mutex_def tryLock_def unlock_mutex_def Let_def split: if_splits list.splits)
  moreover have "mpcs alien_unlocked 1 = Inside" "mpcs alien_unlocked 2 = Inside" "(1::nat) \<noteq> 2"
    by (simp_all add: alien_unlocked_def)
  moreover have "owners s \<noteq> [] \<Longrightarrow> unlock_mutex (owners s) (mready s) \<noteq> Inl NotLocked"
    by (cases "owners s") (simp_all add: unlock_mutex_def)
  ultimately show ?thesis
    using mutex_ok_first [OF ok, of f] mutex_ok_first [OF ok, of g] reachable_alien_unlocked by fastforce
qed

theorem mutex_exclusion_fifo_witness:
  "mpcs sample_mutex 1 = Inside \<and> hd (owners sample_mutex) = 1 \<and>
   (\<exists>s. mstep (MUnlock 1) sample_mutex s \<and> owners s = List.tl (owners sample_mutex))"
proof -
  let ?s = "mgoto 1 Outside (sample_mutex\<lparr>owners := [2], mready := [2]\<rparr>)"
  have i: "mpcs sample_mutex 1 = Inside" by (simp add: sample_mutex_def)
  then have c: "careful sample_mutex (MUnlock 1)" by (simp add: careful_def)
  have st: "mstep (MUnlock 1) sample_mutex ?s"
    by (rule mstep_unlock) (simp_all add: sample_mutex_def minitial_def unlock_mutex_def)
  then show ?thesis using mutex_exclusion_fifo [OF careful_sample_mutex c st, of 1 1] i
    by (auto intro!: exI [of _ ?s] simp: sample_mutex_def)
qed

text \<open>
  Every fiber that has called \<open>lock\<close> can get in: as long as the fibers inside unlock and the
  ready ones are resumed, it is inside after as many rounds as there are fibers ahead of it.
\<close>

theorem lock_is_granted:
  assumes "mreachable careful s" "mpcs s f = Blocked"
  shows "\<exists>s'. careful_step\<^sup>*\<^sup>* s s' \<and> mpcs s' f = Inside"
proof -
  have "mutex_ok s" by (rule mreachable_ok [OF assms(1)])
  moreover have "f \<in> set (owners s)"
    using \<open>mutex_ok s\<close> assms(2) unfolding mutex_ok_def by (metis mpc.distinct(3))
  then obtain us vs where "owners s = us @ f # vs" by (meson split_list)
  ultimately show ?thesis using assms(2)
  proof (induction us arbitrary: s)
    case Nil
    then have "owners s = f # vs" by simp
    from first_inside [OF Nil.prems(1) this] show ?case by blast
  next
    case (Cons u us)
    then have o: "owners s = u # us @ f # vs" by simp
    from first_inside [OF Cons.prems(1) this] obtain s1 where s1: "careful_step\<^sup>*\<^sup>* s s1" "mutex_ok s1" "owners s1 = owners s"
      "mpcs s1 u = Inside" "\<forall>g. g \<noteq> u \<longrightarrow> mpcs s1 g = mpcs s g" by blast
    have "f \<noteq> u" using Cons.prems(1) o by (auto simp: mutex_ok_def)
    obtain rdy where "unlock_mutex (owners s1) (mready s1) = Inr (us @ f # vs, rdy)"
      using s1(3) o by (simp add: unlock_mutex_def)
    then have "mstep (MUnlock u) s1 (mgoto u Outside (s1\<lparr>owners := us @ f # vs, mready := rdy\<rparr>))"
      by (rule mstep_unlock [rotated]) (simp add: s1(4))
    then have st: "careful_step s1 (mgoto u Outside (s1\<lparr>owners := us @ f # vs, mready := rdy\<rparr>))"
      unfolding careful_step_def using s1(4) by (auto simp: careful_def intro!: exI [of _ "MUnlock u"])
    let ?s2 = "mgoto u Outside (s1\<lparr>owners := us @ f # vs, mready := rdy\<rparr>)"
    have "mutex_ok ?s2" by (rule careful_step_ok [OF st s1(2)])
    moreover have "owners ?s2 = us @ f # vs" "mpcs ?s2 f = Blocked"
      using s1(5) \<open>f \<noteq> u\<close> Cons.prems(3) by simp_all
    ultimately obtain s' where "careful_step\<^sup>*\<^sup>* ?s2 s'" "mpcs s' f = Inside" using Cons.IH by blast
    moreover have "careful_step\<^sup>*\<^sup>* s ?s2" using s1(1) st by (rule rtranclp.rtrancl_into_rtrancl)
    ultimately show ?case by (meson rtranclp_trans)
  qed
qed

theorem lock_is_granted_witness:
  "\<exists>s'. careful_step\<^sup>*\<^sup>* sample_mutex s' \<and> mpcs s' 2 = Inside"
  by (rule lock_is_granted [OF careful_sample_mutex]) (simp add: sample_mutex_def)

end
