(* ===== verification/AsyncWaiter.thy ===== *)
theory AsyncWaiter
  imports Prelude "HOL-Library.Multiset"
begin

text \<open>
  The waiter for several events (include/async/eventWaiter.hpp): it collects events and gives them
  out in the order in which they become ready, each once.  Its arrays are \<open>_customs\<close>, the events of
  the derived type with the place each had, and \<open>_events\<close>, the base objects handed to
  \<open>Event::waitAny\<close>.  What \<open>waitAny\<close> returns is an argument of \<open>wait\<close>: the distance of the ready event
  from the begin of the range.
\<close>

subsection \<open>The waiter\<close>

datatype wfault = NeedWait | NoMore | WaiterRange

type_synonym 'a wresult = "wfault + 'a"

text \<open>The position is a \<open>size_t\<close>; its greatest value stands for a waiter not yet asked.\<close>

definition wrongIndex :: nat where
  "wrongIndex = 2 ^ 64 - 1"

record ('c, 'e) waiter =
  customs :: "('c \<times> nat) list"
  wevents :: "'e list"
  wcurrent :: nat

definition new_waiter :: "('c, 'e) waiter" where
  "new_waiter = \<lparr>customs = [], wevents = [], wcurrent = wrongIndex\<rparr>"

definition add_event :: "('c \<Rightarrow> 'e) \<Rightarrow> 'c \<Rightarrow> ('c, 'e) waiter \<Rightarrow> ('c, 'e) waiter" where
  "add_event base c w = w\<lparr>customs := customs w @ [(c, length (customs w))], wevents := wevents w @ [base c]\<rparr>"

text \<open>The constructors for one to ten events.\<close>

definition waiter_of :: "('c \<Rightarrow> 'e) \<Rightarrow> 'c list \<Rightarrow> ('c, 'e) waiter" where
  "waiter_of base cs = foldl (\<lambda>w c. add_event base c w) new_waiter cs"

definition swap_at :: "nat \<Rightarrow> nat \<Rightarrow> 'a list \<Rightarrow> 'a list" where
  "swap_at i j xs = xs[i := xs ! j, j := xs ! i]"

definition next_current :: "('c, 'e) waiter \<Rightarrow> nat" where
  "next_current w = (if wcurrent w = wrongIndex then 0 else (wcurrent w + 1) mod 2 ^ 64)"

text \<open>\<open>wait\<close>, where \<open>ready\<close> is the place that \<open>waitAny\<close> gives for the range it is handed.\<close>

definition wait_waiter :: "('e list \<Rightarrow> nat) \<Rightarrow> ('c, 'e) waiter \<Rightarrow> bool \<times> ('c, 'e) waiter" where
  "wait_waiter ready w = (let c = next_current w; w' = w\<lparr>wcurrent := c\<rparr> in
     if c \<ge> length (wevents w) then (False, w')
     else let r = ready (drop c (wevents w)) in
       if r \<noteq> 0
       then (True, w'\<lparr>wevents := swap_at c (c + r) (wevents w), customs := swap_at c (c + r) (customs w)\<rparr>)
       else (True, w'))"

definition current_holder :: "('c, 'e) waiter \<Rightarrow> ('c \<times> nat) wresult" where
  "current_holder w =
     (if wcurrent w = wrongIndex then Inl NeedWait
      else if wcurrent w > length (wevents w) then Inl NoMore
      else if wcurrent w < length (customs w) then Inr (customs w ! wcurrent w) else Inl WaiterRange)"

definition current_event :: "('c, 'e) waiter \<Rightarrow> 'c wresult" where
  "current_event w = (case current_holder w of Inl e \<Rightarrow> Inl e | Inr h \<Rightarrow> Inr (fst h))"

definition currentIndex :: "('c, 'e) waiter \<Rightarrow> nat wresult" where
  "currentIndex w = (case current_holder w of Inl e \<Rightarrow> Inl e | Inr h \<Rightarrow> Inr (snd h))"

text \<open>A loop over the waiter, for the answers of \<open>waitAny\<close> in turn: what the waiter gives and the
  event that \<open>waitAny\<close> named.\<close>

fun wait_run :: "('e list \<Rightarrow> nat) list \<Rightarrow> ('c, 'e) waiter \<Rightarrow> (('c \<times> nat) wresult \<times> 'e) list \<times> ('c, 'e) waiter" where
  "wait_run [] w = ([], w)"
| "wait_run (r # rs) w = (let range = drop (next_current w) (wevents w); w' = snd (wait_waiter r w) in
     case wait_run rs w' of (hs, w'') \<Rightarrow> ((current_holder w', range ! r range) # hs, w''))"

subsection \<open>Invariant\<close>

text \<open>The two arrays describe the same events, each original place once.\<close>

definition waiter_ok :: "('c \<Rightarrow> 'e) \<Rightarrow> 'c list \<Rightarrow> ('c, 'e) waiter \<Rightarrow> bool" where
  "waiter_ok base cs w \<longleftrightarrow> wevents w = map (base \<circ> fst) (customs w) \<and> mset (customs w) = mset (zip cs [0..<length cs])"

lemma waiter_ok_length: "waiter_ok base cs w \<Longrightarrow> length (customs w) = length cs \<and> length (wevents w) = length cs"
  unfolding waiter_ok_def using mset_eq_length [of "customs w" "zip cs [0..<length cs]"] by simp

lemma waiter_of_snoc: "waiter_of base (cs @ [c]) = add_event base c (waiter_of base cs)"
  by (simp add: waiter_of_def)

lemma waiter_of: "waiter_of base cs = \<lparr>customs = zip cs [0..<length cs], wevents = map base cs, wcurrent = wrongIndex\<rparr>"
proof (induction cs rule: rev_induct)
  case Nil
  then show ?case by (simp add: waiter_of_def new_waiter_def)
next
  case (snoc c cs)
  then show ?case unfolding waiter_of_snoc by (simp add: add_event_def)
qed

lemma waiter_of_ok: "waiter_ok base cs (waiter_of base cs)"
proof -
  have "map (base \<circ> fst) (zip cs [0..<length cs]) = map base cs" by (subst map_map [symmetric]) simp
  then show ?thesis by (simp add: waiter_of waiter_ok_def)
qed

lemma swap_at_map: "i < length xs \<Longrightarrow> j < length xs \<Longrightarrow> map f (swap_at i j xs) = swap_at i j (map f xs)"
  by (simp add: swap_at_def map_update)

lemma swap_at_mset: "i < length xs \<Longrightarrow> j < length xs \<Longrightarrow> mset (swap_at i j xs) = mset xs"
  by (simp add: swap_at_def mset_swap)

lemma swap_at_length [simp]: "length (swap_at i j xs) = length xs"
  by (simp add: swap_at_def)

lemma swap_at_take: "k \<le> i \<Longrightarrow> k \<le> j \<Longrightarrow> take k (swap_at i j xs) = take k xs"
  by (simp add: swap_at_def)

lemma swap_at_nth: "i < length xs \<Longrightarrow> j < length xs \<Longrightarrow> swap_at i j xs ! i = xs ! j"
  by (cases "i = j") (simp_all add: swap_at_def)

text \<open>The waiter after \<open>k\<close> events were given.\<close>

definition given :: "nat \<Rightarrow> ('c, 'e) waiter \<Rightarrow> bool" where
  "given k w \<longleftrightarrow> next_current w = k"

lemma wait_gives:
  assumes ok: "waiter_ok base cs w" and k: "given k w" "k < length cs" "length cs < 2 ^ 64 - 1"
    and r: "r (drop k (wevents w)) < length cs - k"
  obtains w' where "wait_waiter r w = (True, w')" "waiter_ok base cs w'" "given (Suc k) w'"
    "take k (customs w') = take k (customs w)" "current_holder w' = Inr (customs w' ! k)"
    "wevents w' ! k = drop k (wevents w) ! r (drop k (wevents w))" "wcurrent w' = k"
proof -
  let ?r = "r (drop k (wevents w))"
  let ?w = "w\<lparr>wcurrent := k, wevents := swap_at k (k + ?r) (wevents w), customs := swap_at k (k + ?r) (customs w)\<rparr>"
  have n: "length (customs w) = length cs" "length (wevents w) = length cs" using waiter_ok_length [OF ok] by simp_all
  have lt: "k + ?r < length cs" using r k(2) by simp
  have id: "swap_at k k xs = xs" for xs :: "'z list" by (simp add: swap_at_def)
  have "wait_waiter r w = (True, ?w)"
  proof (cases "?r = 0")
    case True
    then have "?w = w\<lparr>wcurrent := k\<rparr>" by (simp add: id)
    then show ?thesis using k n True by (simp add: wait_waiter_def given_def Let_def)
  next
    case False
    then show ?thesis using k n by (simp add: wait_waiter_def given_def Let_def)
  qed
  moreover have "waiter_ok base cs ?w"
    using ok lt n k(2) by (simp add: waiter_ok_def swap_at_map swap_at_mset)
  moreover have "given (Suc k) ?w" "current_holder ?w = Inr (customs ?w ! k)"
    using k n by (simp_all add: given_def next_current_def wrongIndex_def current_holder_def)
  moreover have "take k (customs ?w) = take k (customs w)" by (simp add: swap_at_take)
  moreover have "wevents ?w ! k = drop k (wevents w) ! ?r" using lt n k(2) by (simp add: swap_at_nth)
  ultimately show ?thesis using that by simp
qed

lemma wait_run_gives:
  assumes "waiter_ok base cs w" "given k w" "k \<le> length cs" "length cs < 2 ^ 64 - 1" "length rs = length cs - k"
    and "\<forall>i < length rs. \<forall>es. length es = length cs - (k + i) \<longrightarrow> (rs ! i) es < length es"
  shows "\<exists>hs w'. wait_run rs w = (map (\<lambda>h. (Inr h, base (fst h))) hs, w') \<and> take k (customs w) @ hs = customs w' \<and>
    waiter_ok base cs w' \<and> given (length cs) w'"
  using assms
proof (induction rs arbitrary: k w)
  case Nil
  then have "k = length cs" by simp
  then show ?case using Nil.prems waiter_ok_length [OF Nil.prems(1)] by simp
next
  case (Cons r rs)
  then have k: "k < length cs" by simp
  have len: "length (drop k (wevents w)) = length cs - k" using waiter_ok_length [OF Cons.prems(1)] by simp
  then have r: "r (drop k (wevents w)) < length cs - k" using Cons.prems(6) by force
  obtain w' where w': "wait_waiter r w = (True, w')" "waiter_ok base cs w'" "given (Suc k) w'"
    "take k (customs w') = take k (customs w)" "current_holder w' = Inr (customs w' ! k)"
    "wevents w' ! k = drop k (wevents w) ! r (drop k (wevents w))" "wcurrent w' = k"
    by (rule wait_gives [where r = r, OF Cons.prems(1,2) k Cons.prems(4) r])
  have rs: "\<forall>i < length rs. \<forall>es. length es = length cs - (Suc k + i) \<longrightarrow> (rs ! i) es < length es"
  proof (intro allI impI)
    fix i and es :: "'b list"
    assume "i < length rs" "length es = length cs - (Suc k + i)"
    then show "(rs ! i) es < length es" using Cons.prems(6)[rule_format, of "Suc i" es] by simp
  qed
  have "\<exists>hs w''. wait_run rs w' = (map (\<lambda>h. (Inr h, base (fst h))) hs, w'') \<and> take (Suc k) (customs w') @ hs = customs w'' \<and>
    waiter_ok base cs w'' \<and> given (length cs) w''"
    using Cons.prems(4,5) k rs by (intro Cons.IH w'(2,3)) simp_all
  then obtain hs w'' where hs: "wait_run rs w' = (map (\<lambda>h. (Inr h, base (fst h))) hs, w'')"
    "take (Suc k) (customs w') @ hs = customs w''" "waiter_ok base cs w''" "given (length cs) w''" by blast
  have "k < length (customs w')" using waiter_ok_length [OF w'(2)] k by simp
  then have "take (Suc k) (customs w') = take k (customs w) @ [customs w' ! k]" "wevents w' ! k = base (fst (customs w' ! k))"
    using w'(2,4) by (simp_all add: take_Suc_conv_app_nth waiter_ok_def)
  then show ?case using hs w' Cons.prems(2)
    by (intro exI [of _ "customs w' ! k # hs"] exI [of _ w'']) (simp add: given_def Let_def)
qed

subsection \<open>Properties\<close>

text \<open>
  C30: a waiter for \<open>n\<close> events gives in \<open>n\<close> calls of \<open>wait\<close> every event exactly once, with the place it was
  added at, and each time the one that \<open>waitAny\<close> named; the call after that answers that there is
  none left.
\<close>

theorem waiter_gives_each_once:
  assumes "length cs < 2 ^ 64 - 1" "length rs = length cs"
    and "\<forall>i < length rs. \<forall>es. length es = length cs - i \<longrightarrow> (rs ! i) es < length es"
  shows "\<exists>hs w. wait_run rs (waiter_of base cs) = (map (\<lambda>h. (Inr h, base (fst h))) hs, w) \<and>
    mset hs = mset (zip cs [0..<length cs]) \<and> fst (wait_waiter r w) = False"
proof -
  have "given 0 (waiter_of base cs)" by (simp add: given_def next_current_def waiter_of)
  from wait_run_gives [OF waiter_of_ok this le0 assms(1), of rs] assms(2,3)
  have "\<exists>hs w. wait_run rs (waiter_of base cs) = (map (\<lambda>h. (Inr h, base (fst h))) hs, w) \<and> hs = customs w \<and>
    waiter_ok base cs w \<and> given (length cs) w" by simp
  then obtain hs w where "wait_run rs (waiter_of base cs) = (map (\<lambda>h. (Inr h, base (fst h))) hs, w)" "hs = customs w"
    "waiter_ok base cs w" "given (length cs) w" by blast
  moreover have "fst (wait_waiter r w) = False"
    using calculation(4) waiter_ok_length [OF calculation(3)] by (simp add: wait_waiter_def given_def Let_def)
  ultimately show ?thesis by (auto simp: waiter_ok_def)
qed

theorem waiter_gives_each_once_witness:
  "\<exists>hs w. wait_run [\<lambda>es. 1, \<lambda>es. 0] (waiter_of id [''a'', ''b'']) = (map (\<lambda>h. (Inr h, fst h)) hs, w) \<and>
    mset hs = {#(''a'', 0), (''b'', 1)#} \<and> fst (wait_waiter (\<lambda>es. 0) w) = False"
proof -
  have z: "zip [''a'', ''b''] [0..<length [''a'', ''b'']] = [(''a'', 0), (''b'', 1)]" by (simp add: upt_rec)
  let ?rs = "[\<lambda>es. 1, \<lambda>es. 0] :: (string list \<Rightarrow> nat) list"
  have "\<forall>i < length ?rs. \<forall>es. length es = length [''a'', ''b''] - i \<longrightarrow> (?rs ! i) es < length es"
    by (simp add: less_Suc_eq)
  from waiter_gives_each_once [OF _ _ this, of id "\<lambda>es. 0"] show ?thesis unfolding z by simp
qed

text \<open>
  Once \<open>wait\<close> has answered that there is no event left, the test of \<open>current\<close> and \<open>currentIndex\<close> for
  this case does not see it: both read one element behind the end of the array.
\<close>

theorem current_after_end:
  assumes "length cs < 2 ^ 64 - 1" "waiter_ok base cs w" "given (length cs) w"
  shows "wait_waiter r w = (False, w\<lparr>wcurrent := length cs\<rparr>) \<and>
    current_event (w\<lparr>wcurrent := length cs\<rparr>) = Inl WaiterRange \<and> currentIndex (w\<lparr>wcurrent := length cs\<rparr>) = Inl WaiterRange"
  using assms waiter_ok_length [OF assms(2)]
  by (simp add: wait_waiter_def given_def Let_def current_event_def currentIndex_def current_holder_def wrongIndex_def)

theorem current_after_end_witness:
  "current_event (snd (wait_waiter (\<lambda>es. 0) (snd (wait_waiter (\<lambda>es. 0) (waiter_of id [7::nat]))))) = Inl WaiterRange"
proof -
  let ?w = "snd (wait_waiter (\<lambda>es. 0) (waiter_of id [7::nat]))"
  have "waiter_ok id [7] ?w" "given (length [7::nat]) ?w"
    by (simp_all add: waiter_of waiter_ok_def given_def next_current_def wrongIndex_def wait_waiter_def Let_def upt_rec)
  from current_after_end [OF _ this, of "\<lambda>es. 0"] show ?thesis by simp
qed

end
