(* ===== verification/AsyncPool.thy ===== *)
theory AsyncPool
  imports Prelude "HOL-Library.Multiset"
begin

text \<open>
  The worker threads and the fiber pool of the scheduler (async/impl/worker.cpp, fiber.cpp,
  service.cpp and fiberPool.hpp).  A worker takes a posted handler from the I/O service and runs
  \<open>Worker::exec\<close>: first the ready fibers, then the queued tasks and its own, each in a fiber, then
  the ready fibers again.  Workers, fibers and tasks are numbers; every access to the pool under
  one of its mutexes, and every \<open>enter\<close> or \<open>leave\<close> of a fiber, is a step of its own, so that the
  workers interleave as the code lets them.
\<close>

subsection \<open>The state\<close>

text \<open>\<open>processReadyFibers\<close> runs at the begin of \<open>exec\<close>, with the task still to run, and at its end.\<close>

datatype phase = First nat | Second

text \<open>Where a worker is.  \<open>Run f p\<close> and \<open>Leaving f p\<close>: the thread is in fiber \<open>f\<close>, or has switched back
  and not yet called \<open>leave\<close>; \<open>p\<close> is where the root fiber goes on.\<close>

datatype wpc =
    Io
  | Drain phase "nat list"
  | Wake phase "nat list" nat
  | Keep phase "nat list"
  | Fetch nat "nat list"
  | GetFiber nat "nat list" "nat option"
  | Create nat "nat list" "nat option"
  | Launch nat "nat list" "nat option" nat
  | Requeue nat "nat list" "nat option"
  | Restore "nat list"
  | Run nat wpc
  | Leaving nat wpc

record pool =
  total :: nat
  idle :: "nat set"
  readyq :: "nat list"
  tasks :: "nat list"
  locked :: "nat set"
  code :: "nat \<Rightarrow> nat option"
  posted :: "nat list"
  sleeping :: "nat set"
  wpcs :: "nat \<Rightarrow> wpc"

abbreviation wgoto :: "nat \<Rightarrow> wpc \<Rightarrow> pool \<Rightarrow> pool" where
  "wgoto w p s \<equiv> s\<lparr>wpcs := (wpcs s)(w := p)\<rparr>"

subsection \<open>The operations\<close>

text \<open>\<open>Service::spawn\<close>: behind queued tasks, or as a handler.\<close>

definition spawn :: "nat \<Rightarrow> pool \<Rightarrow> pool" where
  "spawn t s = (if tasks s \<noteq> [] then s\<lparr>tasks := tasks s @ [t]\<rparr> else s\<lparr>posted := posted s @ [t]\<rparr>)"

definition fiber_enter :: "nat \<Rightarrow> pool \<Rightarrow> bool \<times> pool" where
  "fiber_enter f s = (if f \<in> locked s then (False, s) else (True, s\<lparr>locked := insert f (locked s)\<rparr>))"

definition fiber_leave :: "nat \<Rightarrow> pool \<Rightarrow> pool" where
  "fiber_leave f s = s\<lparr>locked := locked s - {f}\<rparr>"

definition fiber_ready :: "nat \<Rightarrow> pool \<Rightarrow> pool" where
  "fiber_ready f s = s\<lparr>readyq := readyq s @ [f]\<rparr>"

text \<open>The variant \<open>Mutex::unlock\<close> uses in a debug build.\<close>

definition fiber_ready_if_wait :: "nat \<Rightarrow> pool \<Rightarrow> bool \<times> pool" where
  "fiber_ready_if_wait f s = (if f \<in> idle s then (False, s) else (True, fiber_ready f s))"

text \<open>The end of a fiber's task: \<open>fiberProc\<close> drops the code, \<open>fiberExecuted\<close> puts the fiber with the
  idle ones.\<close>

definition fiber_executed :: "nat \<Rightarrow> pool \<Rightarrow> pool" where
  "fiber_executed f s = s\<lparr>code := (code s)(f := None), idle := insert f (idle s)\<rparr>"

text \<open>The steps of \<open>processReadyFibers\<close>: take a ready fiber, activate it, put those back that are
  still locked by another worker.\<close>

definition next_ready :: "phase \<Rightarrow> nat list \<Rightarrow> pool \<Rightarrow> wpc \<times> pool" where
  "next_ready ph na s = (case readyq s of [] \<Rightarrow> (Keep ph na, s) | f # fs \<Rightarrow> (Wake ph na f, s\<lparr>readyq := fs\<rparr>))"

definition wake :: "phase \<Rightarrow> nat list \<Rightarrow> nat \<Rightarrow> pool \<Rightarrow> wpc \<times> pool" where
  "wake ph na f s = (case fiber_enter f s of (b, s') \<Rightarrow> (if b then Run f (Drain ph na) else Drain ph (na @ [f]), s'))"

definition keep :: "phase \<Rightarrow> nat list \<Rightarrow> pool \<Rightarrow> wpc \<times> pool" where
  "keep ph na s = (case ph of First t \<Rightarrow> Fetch t [] | Second \<Rightarrow> if na = [] then Io else Drain Second [],
     s\<lparr>readyq := readyq s @ na\<rparr>)"

text \<open>The steps of the loop in \<open>exec\<close>: take a queued task, find a fiber, execute.\<close>

definition fetch :: "nat \<Rightarrow> nat list \<Rightarrow> pool \<Rightarrow> wpc \<times> pool" where
  "fetch t fna s = (case tasks s of [] \<Rightarrow> (GetFiber t fna None, s)
     | x # xs \<Rightarrow> (GetFiber t fna (Some x), s\<lparr>tasks := xs\<rparr>))"

definition no_idle :: "nat \<Rightarrow> nat \<Rightarrow> nat list \<Rightarrow> nat option \<Rightarrow> pool \<Rightarrow> wpc" where
  "no_idle mx t fna q s = (if total s < mx then Create t fna q else Requeue t fna q)"

definition create :: "nat \<Rightarrow> nat list \<Rightarrow> nat option \<Rightarrow> pool \<Rightarrow> wpc \<times> pool" where
  "create t fna q s = (Launch t fna q (total s), s\<lparr>total := Suc (total s)\<rparr>)"

text \<open>\<open>execute\<close> where the fiber is locked: \<open>continue\<close>, and the task that was taken from the queue is
  a local variable of the loop's body.\<close>

definition launch :: "nat \<Rightarrow> nat list \<Rightarrow> nat option \<Rightarrow> nat \<Rightarrow> pool \<Rightarrow> wpc \<times> pool" where
  "launch t fna q f s = (case fiber_enter f s of (b, s') \<Rightarrow>
     if b then (case q of Some x \<Rightarrow> (Run f (Fetch t fna), s'\<lparr>code := (code s')(f := Some x)\<rparr>)
                | None \<Rightarrow> (Run f (Restore fna), s'\<lparr>code := (code s')(f := Some t)\<rparr>))
     else (Fetch t (fna @ [f]), s'))"

definition requeue :: "nat \<Rightarrow> nat list \<Rightarrow> nat option \<Rightarrow> pool \<Rightarrow> wpc \<times> pool" where
  "requeue t fna q s = (Restore fna,
     s\<lparr>tasks := (case q of Some x \<Rightarrow> x # tasks s | None \<Rightarrow> tasks s) @ [t]\<rparr>)"

definition restore :: "nat list \<Rightarrow> pool \<Rightarrow> wpc \<times> pool" where
  "restore fna s = (Drain Second [], s\<lparr>idle := idle s \<union> set fna\<rparr>)"

subsection \<open>Steps\<close>

datatype plabel = Tau | Spawned nat | Posted nat | Done nat | Lost nat | NoFiber

text \<open>One step of a worker below \<open>n\<close>, for a limit of \<open>mx\<close> fibers, or of the program around.  A fiber that
  runs may spawn a task, yield, go to sleep, wake one that sleeps, or end.\<close>

inductive pstep :: "nat \<Rightarrow> nat \<Rightarrow> plabel \<Rightarrow> pool \<Rightarrow> pool \<Rightarrow> bool" for n mx where
  p_spawn: "pstep n mx (Spawned t) s (spawn t s)"
| p_post: "pstep n mx (Posted t) s (s\<lparr>posted := posted s @ [t]\<rparr>)"
| p_take: "w < n \<Longrightarrow> wpcs s w = Io \<Longrightarrow> posted s = t # ts \<Longrightarrow>
     pstep n mx Tau s (wgoto w (Drain (First t) []) (s\<lparr>posted := ts\<rparr>))"
| p_next: "w < n \<Longrightarrow> wpcs s w = Drain ph na \<Longrightarrow> next_ready ph na s = (p, s') \<Longrightarrow> pstep n mx Tau s (wgoto w p s')"
| p_wake: "w < n \<Longrightarrow> wpcs s w = Wake ph na f \<Longrightarrow> wake ph na f s = (p, s') \<Longrightarrow> pstep n mx Tau s (wgoto w p s')"
| p_keep: "w < n \<Longrightarrow> wpcs s w = Keep ph na \<Longrightarrow> keep ph na s = (p, s') \<Longrightarrow> pstep n mx Tau s (wgoto w p s')"
| p_fetch: "w < n \<Longrightarrow> wpcs s w = Fetch t fna \<Longrightarrow> fetch t fna s = (p, s') \<Longrightarrow> pstep n mx Tau s (wgoto w p s')"
| p_idle: "w < n \<Longrightarrow> wpcs s w = GetFiber t fna q \<Longrightarrow> f \<in> idle s \<Longrightarrow>
     pstep n mx Tau s (wgoto w (Launch t fna q f) (s\<lparr>idle := idle s - {f}\<rparr>))"
| p_none: "w < n \<Longrightarrow> wpcs s w = GetFiber t fna q \<Longrightarrow> idle s = {} \<Longrightarrow> pstep n mx Tau s (wgoto w (no_idle mx t fna q s) s)"
| p_create: "w < n \<Longrightarrow> wpcs s w = Create t fna q \<Longrightarrow> create t fna q s = (p, s') \<Longrightarrow> pstep n mx Tau s (wgoto w p s')"
| p_failed: "w < n \<Longrightarrow> wpcs s w = Create t fna q \<Longrightarrow> pstep n mx NoFiber s (wgoto w (Requeue t fna q) s)"
| p_launch: "w < n \<Longrightarrow> wpcs s w = Launch t fna q f \<Longrightarrow> launch t fna q f s = (p, s') \<Longrightarrow>
     q = None \<or> f \<notin> locked s \<Longrightarrow> pstep n mx Tau s (wgoto w p s')"
| p_drop: "w < n \<Longrightarrow> wpcs s w = Launch t fna (Some x) f \<Longrightarrow> f \<in> locked s \<Longrightarrow> launch t fna (Some x) f s = (p, s') \<Longrightarrow>
     pstep n mx (Lost x) s (wgoto w p s')"
| p_requeue: "w < n \<Longrightarrow> wpcs s w = Requeue t fna q \<Longrightarrow> requeue t fna q s = (p, s') \<Longrightarrow> pstep n mx Tau s (wgoto w p s')"
| p_restore: "w < n \<Longrightarrow> wpcs s w = Restore fna \<Longrightarrow> restore fna s = (p, s') \<Longrightarrow> pstep n mx Tau s (wgoto w p s')"
| p_yield: "w < n \<Longrightarrow> wpcs s w = Run f p \<Longrightarrow> pstep n mx Tau s (wgoto w (Leaving f p) (fiber_ready f s))"
| p_sleep: "w < n \<Longrightarrow> wpcs s w = Run f p \<Longrightarrow> pstep n mx Tau s (wgoto w (Leaving f p) (s\<lparr>sleeping := insert f (sleeping s)\<rparr>))"
| p_signal: "w < n \<Longrightarrow> wpcs s w = Run f p \<Longrightarrow> g \<in> sleeping s \<Longrightarrow>
     pstep n mx Tau s (fiber_ready g (s\<lparr>sleeping := sleeping s - {g}\<rparr>))"
| p_end: "w < n \<Longrightarrow> wpcs s w = Run f p \<Longrightarrow> code s f = Some x \<Longrightarrow>
     pstep n mx (Done x) s (wgoto w (Leaving f p) (fiber_executed f s))"
| p_leave: "w < n \<Longrightarrow> wpcs s w = Leaving f p \<Longrightarrow> pstep n mx Tau s (wgoto w p (fiber_leave f s))"

definition pinitial :: pool where
  "pinitial = \<lparr>total = 0, idle = {}, readyq = [], tasks = [], locked = {}, code = (\<lambda>f. None), posted = [],
     sleeping = {}, wpcs = (\<lambda>w. Io)\<rparr>"

text \<open>A run with the labels of its steps.\<close>

inductive prun :: "nat \<Rightarrow> nat \<Rightarrow> plabel list \<Rightarrow> pool \<Rightarrow> pool \<Rightarrow> bool" for n mx where
  prun_refl: "prun n mx [] s s"
| prun_step: "prun n mx ls s s' \<Longrightarrow> pstep n mx l s' s'' \<Longrightarrow> prun n mx (ls @ [l]) s s''"

subsection \<open>The invariant\<close>

text \<open>What a worker holds: fibers with a task, fibers without, the fiber whose lock it has taken.\<close>

fun busy :: "wpc \<Rightarrow> nat multiset" where
  "busy (Drain ph na) = mset na"
| "busy (Wake ph na f) = add_mset f (mset na)"
| "busy (Keep ph na) = mset na"
| "busy (Run f p) = add_mset f (busy p)"
| "busy (Leaving f p) = busy p"
| "busy p = {#}"

fun spare :: "wpc \<Rightarrow> nat multiset" where
  "spare (Fetch t fna) = mset fna"
| "spare (GetFiber t fna q) = mset fna"
| "spare (Create t fna q) = mset fna"
| "spare (Launch t fna q f) = add_mset f (mset fna)"
| "spare (Requeue t fna q) = mset fna"
| "spare (Restore fna) = mset fna"
| "spare (Run f p) = spare p"
| "spare (Leaving f p) = spare p"
| "spare p = {#}"

fun inside :: "wpc \<Rightarrow> nat multiset" where
  "inside (Run f p) = {#f#}"
| "inside (Leaving f p) = {#f#}"
| "inside p = {#}"

fun root_pc :: "wpc \<Rightarrow> bool" where
  "root_pc (Run f p) = False"
| "root_pc (Leaving f p) = False"
| "root_pc p = True"

fun wf_pc :: "wpc \<Rightarrow> bool" where
  "wf_pc (Run f p) = root_pc p"
| "wf_pc (Leaving f p) = root_pc p"
| "wf_pc p = True"

lemma root_pc_inside [simp]: "root_pc p \<Longrightarrow> inside p = {#} \<and> wf_pc p"
  by (cases p) auto

definition tally :: "(wpc \<Rightarrow> 'b::comm_monoid_add) \<Rightarrow> nat \<Rightarrow> pool \<Rightarrow> 'b" where
  "tally g n s = (\<Sum>w<n. g (wpcs s w))"

text \<open>A fiber with code is at exactly one of: the ready queue, asleep, a worker; one without is idle or
  at a worker; a fiber is locked by the one worker that is inside.\<close>

definition fiber_ok :: "nat \<Rightarrow> pool \<Rightarrow> nat \<Rightarrow> bool" where
  "fiber_ok n s f \<longleftrightarrow>
     count (mset (readyq s)) f + of_bool (f \<in> sleeping s) + count (tally busy n s) f = of_bool (code s f \<noteq> None) \<and>
     of_bool (f \<in> idle s) + count (tally spare n s) f = of_bool (f < total s \<and> code s f = None) \<and>
     count (tally inside n s) f = of_bool (f \<in> locked s) \<and> (total s \<le> f \<longrightarrow> code s f = None)"

definition pool_ok :: "nat \<Rightarrow> pool \<Rightarrow> bool" where
  "pool_ok n s \<longleftrightarrow> (\<forall>w<n. wf_pc (wpcs s w)) \<and> (\<forall>f. fiber_ok n s f)"

lemma tally_goto:
  assumes "w < n" "wpcs s' = wpcs s"
  shows "tally g n (wgoto w p s') + g (wpcs s w) = tally g n s + g p"
proof -
  have "(\<Sum>v\<in>{..<n} - {w}. g (((wpcs s)(w := p)) v)) = (\<Sum>v\<in>{..<n} - {w}. g (wpcs s v))" by (rule sum.cong) auto
  then show ?thesis using assms sum.remove [of "{..<n}" w "\<lambda>v. g (((wpcs s)(w := p)) v)"]
      sum.remove [of "{..<n}" w "\<lambda>v. g (wpcs s v)"] by (simp add: tally_def ac_simps)
qed

lemma tally_same: "wpcs s' = wpcs s \<Longrightarrow> tally g n s' = tally g n s"
  by (simp add: tally_def)

lemma tally_ge: "w < n \<Longrightarrow> count (g (wpcs s w)) f \<le> count (tally g n s) f"
  using sum.remove [of "{..<n}" w "\<lambda>v. g (wpcs s v)"] by (simp add: tally_def)

text \<open>What a worker sees of the invariant.\<close>

lemma pool_ok_local:
  assumes "pool_ok n s" "w < n"
  shows "wf_pc (wpcs s w)"
    "count (mset (readyq s)) f + of_bool (f \<in> sleeping s) + count (busy (wpcs s w)) f \<le> of_bool (code s f \<noteq> None)"
    "of_bool (f \<in> idle s) + count (spare (wpcs s w)) f \<le> of_bool (f < total s \<and> code s f = None)"
    "count (inside (wpcs s w)) f \<le> of_bool (f \<in> locked s)"
proof -
  have ok: "fiber_ok n s f" and wf: "wf_pc (wpcs s w)" using assms unfolding pool_ok_def by blast+
  show "wf_pc (wpcs s w)" by (rule wf)
  show "count (mset (readyq s)) f + of_bool (f \<in> sleeping s) + count (busy (wpcs s w)) f \<le> of_bool (code s f \<noteq> None)"
    using ok tally_ge [OF assms(2), of busy s f] unfolding fiber_ok_def by linarith
  show "of_bool (f \<in> idle s) + count (spare (wpcs s w)) f \<le> of_bool (f < total s \<and> code s f = None)"
    using ok tally_ge [OF assms(2), of spare s f] unfolding fiber_ok_def by linarith
  show "count (inside (wpcs s w)) f \<le> of_bool (f \<in> locked s)"
    using ok tally_ge [OF assms(2), of inside s f] unfolding fiber_ok_def by linarith
qed

text \<open>A step of one worker is judged by what it moves.\<close>

lemma pool_ok_goto:
  assumes "pool_ok n s" "w < n" "wpcs s' = wpcs s" "wf_pc p"
    and "\<And>f. count (mset (readyq s')) f + of_bool (f \<in> sleeping s') + count (busy p) f + of_bool (code s f \<noteq> None) =
      count (mset (readyq s)) f + of_bool (f \<in> sleeping s) + count (busy (wpcs s w)) f + of_bool (code s' f \<noteq> None)"
    and "\<And>f. of_bool (f \<in> idle s') + count (spare p) f + of_bool (f < total s \<and> code s f = None) =
      of_bool (f \<in> idle s) + count (spare (wpcs s w)) f + of_bool (f < total s' \<and> code s' f = None)"
    and "\<And>f. count (inside p) f + of_bool (f \<in> locked s) = count (inside (wpcs s w)) f + of_bool (f \<in> locked s')"
    and "\<And>f. total s' \<le> f \<Longrightarrow> code s' f = None"
  shows "pool_ok n (wgoto w p s')"
proof -
  have "fiber_ok n (wgoto w p s') f" for f
  proof -
    have "fiber_ok n s f" using assms(1) unfolding pool_ok_def by blast
    moreover note assms(5-8)[of f]
    moreover have "count (tally g n (wgoto w p s')) f + count (g (wpcs s w)) f = count (tally g n s) f + count (g p) f" for g
      using tally_goto [OF assms(2,3), of g p] by (metis count_union)
    note this [of busy] this [of spare] this [of inside]
    ultimately show ?thesis unfolding fiber_ok_def by simp
  qed
  moreover have "wf_pc (wpcs (wgoto w p s') v)" if "v < n" for v
    using assms(1,3,4) that unfolding pool_ok_def by simp
  ultimately show ?thesis unfolding pool_ok_def by blast
qed

lemma pool_ok_same:
  assumes "pool_ok n s" "wpcs s' = wpcs s"
    and "\<And>f. count (mset (readyq s')) f + of_bool (f \<in> sleeping s') = count (mset (readyq s)) f + of_bool (f \<in> sleeping s)"
    and "idle s' = idle s" "locked s' = locked s" "code s' = code s" "total s' = total s"
  shows "pool_ok n s'"
proof -
  have "fiber_ok n s' f" for f
  proof -
    have "fiber_ok n s f" using assms(1) unfolding pool_ok_def by blast
    then show ?thesis unfolding fiber_ok_def assms(3)[of f] assms(4-7) tally_same [OF assms(2)] .
  qed
  then show ?thesis using assms(1,2) unfolding pool_ok_def by metis
qed

lemma pool_ok_code: "pool_ok n s \<Longrightarrow> total s \<le> f \<Longrightarrow> code s f = None"
  unfolding pool_ok_def fiber_ok_def by blast

lemma pool_ok_wf: "pool_ok n s \<Longrightarrow> w < n \<Longrightarrow> wf_pc (wpcs s w)"
  unfolding pool_ok_def by blast

text \<open>The fiber a worker has in hand.\<close>

lemma one_of: "0 < (a::nat) \<Longrightarrow> of_bool P + a \<le> of_bool Q \<Longrightarrow> Q \<and> \<not> P \<and> a = 1"
  by (cases P; cases Q) auto

lemma spare_fiber:
  assumes "pool_ok n s" "w < n" "f \<in># spare (wpcs s w)"
  shows "f < total s" "code s f = None" "f \<notin> idle s" "count (spare (wpcs s w)) f = 1"
proof -
  have "0 < count (spare (wpcs s w)) f" using assms(3) by simp
  from one_of [OF this pool_ok_local(3) [OF assms(1,2)]]
  show "f < total s" "code s f = None" "f \<notin> idle s" "count (spare (wpcs s w)) f = 1" by blast+
qed

lemma busy_fiber:
  assumes "pool_ok n s" "w < n" "f \<in># busy (wpcs s w)"
  shows "code s f \<noteq> None" "f < total s" "f \<notin> set (readyq s)" "f \<notin> sleeping s" "f \<notin> idle s"
proof -
  have b: "0 < count (busy (wpcs s w)) f" using assms(3) by simp
  have "of_bool (f \<in> sleeping s) + (count (mset (readyq s)) f + count (busy (wpcs s w)) f) \<le> of_bool (code s f \<noteq> None)"
    using pool_ok_local(2) [OF assms(1,2), of f] by linarith
  from one_of [OF _ this] b
  have c: "code s f \<noteq> None" "f \<notin> sleeping s" "count (mset (readyq s)) f + count (busy (wpcs s w)) f = 1" by linarith+
  then have "count (mset (readyq s)) f = 0" using b by linarith
  with c show "code s f \<noteq> None" "f \<notin> set (readyq s)" "f \<notin> sleeping s" by (auto simp: count_eq_zero_iff)
  then show "f < total s" using pool_ok_code [OF assms(1), of f] by (meson not_le)
  show "f \<notin> idle s" using c(1) pool_ok_local(3) [OF assms(1,2), of f] by (cases "f \<in> idle s") auto
qed

lemma inside_fiber:
  assumes "pool_ok n s" "w < n" "f \<in># inside (wpcs s w)"
  shows "f \<in> locked s"
proof -
  have "0 < count (inside (wpcs s w)) f" using assms(3) by simp
  then have "(0::nat) < of_bool (f \<in> locked s)" using pool_ok_local(4) [OF assms(1,2), of f] by linarith
  then show ?thesis by (cases "f \<in> locked s") simp_all
qed

lemma pstep_ok: "pstep n mx l s s' \<Longrightarrow> pool_ok n s \<Longrightarrow> pool_ok n s'"
proof (induction rule: pstep.induct)
  case (p_spawn t s)
  then show ?case by (rule pool_ok_same) (simp_all add: spawn_def)
next
  case (p_post t s)
  then show ?case by (rule pool_ok_same) simp_all
next
  case (p_take w s t ts)
  show ?case by (rule pool_ok_goto [OF p_take.prems p_take.hyps(1)])
    (simp_all add: p_take.hyps pool_ok_code [OF p_take.prems])
next
  case (p_next w s ph na p s')
  show ?case
    by (rule pool_ok_goto [OF p_next.prems p_next.hyps(1)])
      (use p_next.hyps pool_ok_code [OF p_next.prems] in \<open>auto simp: next_ready_def split: list.splits\<close>)
next
  case (p_wake w s ph na f p s')
  show ?case
    by (rule pool_ok_goto [OF p_wake.prems p_wake.hyps(1)])
      (use p_wake.hyps pool_ok_code [OF p_wake.prems] in \<open>auto simp: wake_def fiber_enter_def split: if_splits\<close>)
next
  case (p_keep w s ph na p s')
  show ?case
    by (rule pool_ok_goto [OF p_keep.prems p_keep.hyps(1)])
      (use p_keep.hyps pool_ok_code [OF p_keep.prems] in \<open>auto simp: keep_def split: phase.splits if_splits\<close>)
next
  case (p_fetch w s t fna p s')
  show ?case
    by (rule pool_ok_goto [OF p_fetch.prems p_fetch.hyps(1)])
      (use p_fetch.hyps pool_ok_code [OF p_fetch.prems] in \<open>auto simp: fetch_def split: list.splits\<close>)
next
  case (p_idle w s t fna q f)
  show ?case
    by (rule pool_ok_goto [OF p_idle.prems p_idle.hyps(1)])
      (use p_idle.hyps pool_ok_code [OF p_idle.prems] in auto)
next
  case (p_none w s t fna q)
  show ?case
    by (rule pool_ok_goto [OF p_none.prems p_none.hyps(1)])
      (use p_none.hyps pool_ok_code [OF p_none.prems] in \<open>auto simp: no_idle_def\<close>)
next
  case (p_create w s t fna q p s')
  show ?case
    by (rule pool_ok_goto [OF p_create.prems p_create.hyps(1)])
      (use p_create.hyps pool_ok_code [OF p_create.prems] in \<open>auto simp: create_def less_Suc_eq\<close>)
next
  case (p_failed w s t fna q)
  show ?case
    by (rule pool_ok_goto [OF p_failed.prems p_failed.hyps(1)])
      (use p_failed.hyps pool_ok_code [OF p_failed.prems] in auto)
next
  case (p_launch w s t fna q f p s')
  have "f \<in># spare (wpcs s w)" using p_launch.hyps(2) by simp
  note sp = spare_fiber [OF p_launch.prems p_launch.hyps(1) this]
  show ?case
    by (rule pool_ok_goto [OF p_launch.prems p_launch.hyps(1)])
      (use p_launch.hyps pool_ok_code [OF p_launch.prems] sp in \<open>auto simp: launch_def fiber_enter_def split: if_splits option.splits\<close>)
next
  case (p_drop w s t fna x f p s')
  show ?case
    by (rule pool_ok_goto [OF p_drop.prems p_drop.hyps(1)])
      (use p_drop.hyps pool_ok_code [OF p_drop.prems] in \<open>auto simp: launch_def fiber_enter_def\<close>)
next
  case (p_requeue w s t fna q p s')
  show ?case
    by (rule pool_ok_goto [OF p_requeue.prems p_requeue.hyps(1)])
      (use p_requeue.hyps pool_ok_code [OF p_requeue.prems] in \<open>auto simp: requeue_def\<close>)
next
  case (p_restore w s fna p s')
  have ret: "f \<notin> idle s \<and> f < total s \<and> code s f = None \<and> count (mset fna) f = 1" if "f \<in> set fna" for f
  proof -
    have "f \<in># spare (wpcs s w)" using p_restore.hyps(2) that by simp
    from spare_fiber [OF p_restore.prems p_restore.hyps(1) this] show ?thesis using p_restore.hyps(2) by simp
  qed
  have un: "of_bool (f \<in> idle s \<union> set fna) = of_bool (f \<in> idle s) + count (mset fna) f" for f
    using ret [of f] by (cases "f \<in> set fna") (auto simp: count_eq_zero_iff)
  have "p = Drain Second []" "s' = s\<lparr>idle := idle s \<union> set fna\<rparr>" using p_restore.hyps(3) by (simp_all add: restore_def)
  then show ?case
    by (intro pool_ok_goto [OF p_restore.prems p_restore.hyps(1)])
      (use p_restore.hyps(2) pool_ok_code [OF p_restore.prems] un in \<open>simp_all del: Un_iff\<close>)
next
  case (p_yield w s f p)
  show ?case
    by (rule pool_ok_goto [OF p_yield.prems p_yield.hyps(1)])
      (use p_yield.hyps pool_ok_code [OF p_yield.prems] pool_ok_wf [OF p_yield.prems p_yield.hyps(1)] in \<open>auto simp: fiber_ready_def\<close>)
next
  case (p_sleep w s f p)
  have "f \<in># busy (wpcs s w)" using p_sleep.hyps(2) by simp
  note bf = busy_fiber [OF p_sleep.prems p_sleep.hyps(1) this]
  show ?case
    by (rule pool_ok_goto [OF p_sleep.prems p_sleep.hyps(1)])
      (use p_sleep.hyps pool_ok_code [OF p_sleep.prems] pool_ok_wf [OF p_sleep.prems p_sleep.hyps(1)] bf in auto)
next
  case (p_signal w s f p g)
  then show ?case by (intro pool_ok_same [OF p_signal.prems]) (auto simp: fiber_ready_def)
next
  case (p_end w s f p x)
  have "f \<in># busy (wpcs s w)" using p_end.hyps(2) by simp
  note bf = busy_fiber [OF p_end.prems p_end.hyps(1) this]
  show ?case
    by (rule pool_ok_goto [OF p_end.prems p_end.hyps(1)])
      (use p_end.hyps pool_ok_code [OF p_end.prems] pool_ok_wf [OF p_end.prems p_end.hyps(1)] bf in \<open>auto simp: fiber_executed_def\<close>)
next
  case (p_leave w s f p)
  have "f \<in># inside (wpcs s w)" using p_leave.hyps(2) by simp
  note inf = inside_fiber [OF p_leave.prems p_leave.hyps(1) this]
  show ?case
    by (rule pool_ok_goto [OF p_leave.prems p_leave.hyps(1)])
      (use p_leave.hyps pool_ok_code [OF p_leave.prems] pool_ok_wf [OF p_leave.prems p_leave.hyps(1)] inf in \<open>auto simp: fiber_leave_def\<close>)
qed

lemma pinitial_ok: "pool_ok n pinitial"
  by (simp add: pool_ok_def fiber_ok_def pinitial_def tally_def)

lemma prun_ok: "prun n mx ls s s' \<Longrightarrow> pool_ok n s \<Longrightarrow> pool_ok n s'"
  by (induction rule: prun.induct) (blast intro: pstep_ok)+

text \<open>Two workers are never inside the same fiber.\<close>

lemma inside_once:
  assumes "pool_ok n s" "v < n" "w < n" "v \<noteq> w" "f \<in># inside (wpcs s v)"
  shows "f \<notin># inside (wpcs s w)"
proof
  assume "f \<in># inside (wpcs s w)"
  then have w: "0 < count (inside (wpcs s w)) f" by simp
  have v: "0 < count (inside (wpcs s v)) f" using assms(5) by simp
  have "tally inside n s = inside (wpcs s w) + (\<Sum>u\<in>{..<n} - {w}. inside (wpcs s u))"
    unfolding tally_def using assms(3) by (intro sum.remove) auto
  also have "(\<Sum>u\<in>{..<n} - {w}. inside (wpcs s u)) = inside (wpcs s v) + (\<Sum>u\<in>{..<n} - {w} - {v}. inside (wpcs s u))"
    using assms(2,4) by (intro sum.remove) auto
  finally have "count (tally inside n s) f = count (inside (wpcs s w)) f +
    (count (inside (wpcs s v)) f + count (\<Sum>u\<in>{..<n} - {w} - {v}. inside (wpcs s u)) f)" by (simp only: count_union)
  then have "1 < count (tally inside n s) f" using v w by linarith
  moreover have "count (tally inside n s) f = of_bool (f \<in> locked s)"
    using assms(1) unfolding pool_ok_def fiber_ok_def by blast
  ultimately show False by (cases "f \<in> locked s") simp_all
qed

lemma ready_fiber:
  assumes "pool_ok n s" "f \<in> set (readyq s)"
  shows "code s f \<noteq> None" "f \<notin> idle s" "count (mset (readyq s)) f = 1"
proof -
  have ok: "fiber_ok n s f" using assms(1) unfolding pool_ok_def by blast
  have r: "0 < count (mset (readyq s)) f" using assms(2) by (simp add: count_eq_zero_iff)
  have "of_bool (f \<in> sleeping s) + count (mset (readyq s)) f \<le> of_bool (code s f \<noteq> None)"
    using ok unfolding fiber_ok_def by linarith
  from one_of [OF r this] show c: "code s f \<noteq> None" "count (mset (readyq s)) f = 1" by blast+
  then show "f \<notin> idle s" using ok unfolding fiber_ok_def by (cases "f \<in> idle s") auto
qed

subsection \<open>An executable scheduler\<close>

text \<open>What moves next: a worker goes on, or a choice of the environment or of a running fiber.\<close>

datatype act = ASpawn nat | APost nat | AGo nat | AIdle nat nat | AFail nat | AYield nat | ASleep nat
  | ASignal nat nat | AEnd nat

fun go :: "nat \<Rightarrow> wpc \<Rightarrow> pool \<Rightarrow> (plabel \<times> wpc \<times> pool) option" where
  "go mx Io s = (case posted s of [] \<Rightarrow> None | t # ts \<Rightarrow> Some (Tau, Drain (First t) [], s\<lparr>posted := ts\<rparr>))"
| "go mx (Drain ph na) s = Some (Tau, next_ready ph na s)"
| "go mx (Wake ph na f) s = Some (Tau, wake ph na f s)"
| "go mx (Keep ph na) s = Some (Tau, keep ph na s)"
| "go mx (Fetch t fna) s = Some (Tau, fetch t fna s)"
| "go mx (GetFiber t fna q) s = (if Set.is_empty (idle s) then Some (Tau, no_idle mx t fna q s, s) else None)"
| "go mx (Create t fna q) s = Some (Tau, create t fna q s)"
| "go mx (Launch t fna q f) s =
     Some (case q of Some x \<Rightarrow> if f \<in> locked s then Lost x else Tau | None \<Rightarrow> Tau, launch t fna q f s)"
| "go mx (Requeue t fna q) s = Some (Tau, requeue t fna q s)"
| "go mx (Restore fna) s = Some (Tau, restore fna s)"
| "go mx (Run f p) s = None"
| "go mx (Leaving f p) s = Some (Tau, p, fiber_leave f s)"

fun do_act :: "nat \<Rightarrow> nat \<Rightarrow> act \<Rightarrow> pool \<Rightarrow> (plabel \<times> pool) option" where
  "do_act n mx (ASpawn t) s = Some (Spawned t, spawn t s)"
| "do_act n mx (APost t) s = Some (Posted t, s\<lparr>posted := posted s @ [t]\<rparr>)"
| "do_act n mx (AGo w) s = (if w < n then case go mx (wpcs s w) s of None \<Rightarrow> None
     | Some (l, p, s') \<Rightarrow> Some (l, wgoto w p s') else None)"
| "do_act n mx (AIdle w f) s = (case wpcs s w of GetFiber t fna q \<Rightarrow> if w < n \<and> f \<in> idle s
     then Some (Tau, wgoto w (Launch t fna q f) (s\<lparr>idle := idle s - {f}\<rparr>)) else None | _ \<Rightarrow> None)"
| "do_act n mx (AFail w) s = (case wpcs s w of Create t fna q \<Rightarrow> if w < n
     then Some (NoFiber, wgoto w (Requeue t fna q) s) else None | _ \<Rightarrow> None)"
| "do_act n mx (AYield w) s = (case wpcs s w of Run f p \<Rightarrow> if w < n
     then Some (Tau, wgoto w (Leaving f p) (fiber_ready f s)) else None | _ \<Rightarrow> None)"
| "do_act n mx (ASleep w) s = (case wpcs s w of Run f p \<Rightarrow> if w < n
     then Some (Tau, wgoto w (Leaving f p) (s\<lparr>sleeping := insert f (sleeping s)\<rparr>)) else None | _ \<Rightarrow> None)"
| "do_act n mx (ASignal w g) s = (case wpcs s w of Run f p \<Rightarrow> if w < n \<and> g \<in> sleeping s
     then Some (Tau, fiber_ready g (s\<lparr>sleeping := sleeping s - {g}\<rparr>)) else None | _ \<Rightarrow> None)"
| "do_act n mx (AEnd w) s = (case wpcs s w of Run f p \<Rightarrow> (case code s f of Some x \<Rightarrow> if w < n
     then Some (Done x, wgoto w (Leaving f p) (fiber_executed f s)) else None | None \<Rightarrow> None) | _ \<Rightarrow> None)"

fun run_acts :: "nat \<Rightarrow> nat \<Rightarrow> act list \<Rightarrow> pool \<Rightarrow> (plabel list \<times> pool) option" where
  "run_acts n mx [] s = Some ([], s)"
| "run_acts n mx (a # as) s = (case do_act n mx a s of None \<Rightarrow> None
     | Some (l, s') \<Rightarrow> (case run_acts n mx as s' of None \<Rightarrow> None | Some (ls, s'') \<Rightarrow> Some (l # ls, s'')))"

lemma go_step:
  assumes "go mx (wpcs s w) s = Some (l, p, s')" "w < n"
  shows "pstep n mx l s (wgoto w p s')"
proof (cases "wpcs s w")
  case (Launch t fna q f)
  then show ?thesis using assms
    by (cases "q = None \<or> f \<notin> locked s") (auto intro: p_launch p_drop split: option.splits if_splits)
qed (use assms in \<open>auto intro: p_take p_next p_wake p_keep p_fetch p_none p_create p_requeue p_restore p_leave
      split: list.splits if_splits\<close>)

lemma do_act_step: "do_act n mx a s = Some (l, s') \<Longrightarrow> pstep n mx l s s'"
  by (cases a) (auto intro: pstep.intros [simplified] pstep.intros go_step split: option.splits if_splits wpc.splits prod.splits)

lemma prun_Cons:
  assumes "pstep n mx l s s'" "prun n mx ls s' s''"
  shows "prun n mx (l # ls) s s''"
  using assms(2,1)
proof (induction rule: prun.induct)
  case (prun_refl s')
  then show ?case using prun_step [OF prun.prun_refl] by fastforce
next
  case (prun_step ls s' t l' t')
  then show ?case using prun.prun_step [of n mx "l # ls" s t l' t'] by simp
qed

lemma run_acts_prun: "run_acts n mx as s = Some (ls, s') \<Longrightarrow> prun n mx ls s s'"
  by (induction "as" arbitrary: s ls) (auto intro: prun_refl prun_Cons do_act_step split: option.splits prod.splits)

subsection \<open>Where the tasks are\<close>

definition opt_mset :: "'a option \<Rightarrow> 'a multiset" where
  "opt_mset q = (case q of None \<Rightarrow> {#} | Some x \<Rightarrow> {#x#})"

lemma opt_mset_simps [simp]: "opt_mset None = {#}" "opt_mset (Some x) = {#x#}"
  by (simp_all add: opt_mset_def)

fun phase_task :: "phase \<Rightarrow> nat multiset" where
  "phase_task (First t) = {#t#}"
| "phase_task Second = {#}"

fun held_tasks :: "wpc \<Rightarrow> nat multiset" where
  "held_tasks Io = {#}"
| "held_tasks (Drain ph na) = phase_task ph"
| "held_tasks (Wake ph na f) = phase_task ph"
| "held_tasks (Keep ph na) = phase_task ph"
| "held_tasks (Fetch t fna) = {#t#}"
| "held_tasks (GetFiber t fna q) = add_mset t (opt_mset q)"
| "held_tasks (Create t fna q) = add_mset t (opt_mset q)"
| "held_tasks (Launch t fna q f) = add_mset t (opt_mset q)"
| "held_tasks (Requeue t fna q) = add_mset t (opt_mset q)"
| "held_tasks (Restore fna) = {#}"
| "held_tasks (Run f p) = held_tasks p"
| "held_tasks (Leaving f p) = held_tasks p"

definition queued :: "pool \<Rightarrow> nat multiset" where
  "queued s = mset (posted s) + mset (tasks s)"

definition in_fibers :: "pool \<Rightarrow> nat multiset" where
  "in_fibers s = (\<Sum>f<total s. opt_mset (code s f))"

text \<open>The tasks that are neither done nor lost.\<close>

definition live_tasks :: "nat \<Rightarrow> pool \<Rightarrow> nat multiset" where
  "live_tasks n s = queued s + tally held_tasks n s + in_fibers s"

fun begun :: "plabel \<Rightarrow> nat multiset" where
  "begun (Spawned t) = {#t#}"
| "begun (Posted t) = {#t#}"
| "begun l = {#}"

fun ended :: "plabel \<Rightarrow> nat multiset" where
  "ended (Done t) = {#t#}"
| "ended l = {#}"

fun dropped :: "plabel \<Rightarrow> nat multiset" where
  "dropped (Lost t) = {#t#}"
| "dropped l = {#}"

lemma in_fibers_upd:
  assumes "f < total s"
  shows "in_fibers (s\<lparr>code := (code s)(f := q)\<rparr>) + opt_mset (code s f) = in_fibers s + opt_mset q"
proof -
  have "(\<Sum>g\<in>{..<total s} - {f}. opt_mset (((code s)(f := q)) g)) = (\<Sum>g\<in>{..<total s} - {f}. opt_mset (code s g))"
    by (rule sum.cong) auto
  then show ?thesis
    using assms sum.remove [of "{..<total s}" f "\<lambda>g. opt_mset (((code s)(f := q)) g)"]
      sum.remove [of "{..<total s}" f "\<lambda>g. opt_mset (code s g)"] by (simp add: in_fibers_def ac_simps)
qed

lemma in_fibers_cong: "total s' = total s \<Longrightarrow> code s' = code s \<Longrightarrow> in_fibers s' = in_fibers s"
  by (simp add: in_fibers_def)

lemma live_goto:
  assumes "w < n" "wpcs s' = wpcs s"
    and "queued s' + held_tasks p + in_fibers s' + (ended l + dropped l) = queued s + held_tasks (wpcs s w) + in_fibers s + begun l"
  shows "live_tasks n (wgoto w p s') + (ended l + dropped l) = live_tasks n s + begun l"
proof -
  have "live_tasks n (wgoto w p s') = queued s' + tally held_tasks n (wgoto w p s') + in_fibers s'"
    by (simp add: live_tasks_def queued_def in_fibers_def)
  then have "live_tasks n (wgoto w p s') + (ended l + dropped l) + held_tasks (wpcs s w) =
      queued s' + in_fibers s' + (ended l + dropped l) + (tally held_tasks n (wgoto w p s') + held_tasks (wpcs s w))"
    by (simp add: ac_simps)
  also have "\<dots> = queued s' + in_fibers s' + (ended l + dropped l) + (tally held_tasks n s + held_tasks p)"
    by (simp only: tally_goto [OF assms(1,2)])
  also have "\<dots> = tally held_tasks n s + (queued s' + held_tasks p + in_fibers s' + (ended l + dropped l))"
    by (simp add: ac_simps)
  also have "\<dots> = live_tasks n s + begun l + held_tasks (wpcs s w)"
    unfolding assms(3) by (simp add: live_tasks_def ac_simps)
  finally show ?thesis by simp
qed

lemma pstep_live: "pstep n mx l s s' \<Longrightarrow> pool_ok n s \<Longrightarrow> live_tasks n s' + (ended l + dropped l) = live_tasks n s + begun l"
proof (induction rule: pstep.induct)
  case (p_spawn t s)
  then show ?case by (simp add: live_tasks_def spawn_def queued_def tally_def in_fibers_def)
next
  case (p_post t s)
  then show ?case by (simp add: live_tasks_def queued_def tally_def in_fibers_def)
next
  case (p_take w s t ts)
  show ?case by (rule live_goto [OF p_take.hyps(1)]) (simp_all add: p_take.hyps queued_def in_fibers_def)
next
  case (p_next w s ph na p s')
  show ?case
    by (rule live_goto [OF p_next.hyps(1)])
      (use p_next.hyps in \<open>auto simp: next_ready_def queued_def in_fibers_def split: list.splits\<close>)
next
  case (p_wake w s ph na f p s')
  show ?case
    by (rule live_goto [OF p_wake.hyps(1)])
      (use p_wake.hyps in \<open>auto simp: wake_def fiber_enter_def queued_def in_fibers_def split: if_splits\<close>)
next
  case (p_keep w s ph na p s')
  show ?case
    by (rule live_goto [OF p_keep.hyps(1)])
      (use p_keep.hyps in \<open>auto simp: keep_def queued_def in_fibers_def split: phase.splits if_splits\<close>)
next
  case (p_fetch w s t fna p s')
  show ?case
    by (rule live_goto [OF p_fetch.hyps(1)])
      (use p_fetch.hyps in \<open>auto simp: fetch_def queued_def in_fibers_def split: list.splits\<close>)
next
  case (p_idle w s t fna q f)
  show ?case by (rule live_goto [OF p_idle.hyps(1)]) (simp_all add: p_idle.hyps queued_def in_fibers_def)
next
  case (p_none w s t fna q)
  show ?case by (rule live_goto [OF p_none.hyps(1)]) (simp_all add: p_none.hyps no_idle_def)
next
  case (p_create w s t fna q p s')
  have "code s (total s) = None" using pool_ok_code [OF p_create.prems] by simp
  then show ?case
    by (intro live_goto [OF p_create.hyps(1)]) (use p_create.hyps in \<open>auto simp: create_def queued_def in_fibers_def\<close>)
next
  case (p_failed w s t fna q)
  show ?case by (rule live_goto [OF p_failed.hyps(1)]) (simp_all add: p_failed.hyps)
next
  case (p_launch w s t fna q f p s')
  have "f \<in># spare (wpcs s w)" using p_launch.hyps(2) by simp
  note sp = spare_fiber [OF p_launch.prems p_launch.hyps(1) this]
  have upd: "in_fibers (s\<lparr>locked := l, code := (code s)(f := Some x)\<rparr>) = add_mset x (in_fibers s)" for l x
    using in_fibers_upd [OF sp(1), of "Some x"] sp(2) by (simp add: in_fibers_def)
  show ?case
    by (rule live_goto [OF p_launch.hyps(1)])
      (use p_launch.hyps upd in \<open>auto simp: launch_def fiber_enter_def queued_def split: if_splits option.splits\<close>)
next
  case (p_drop w s t fna x f p s')
  show ?case
    by (rule live_goto [OF p_drop.hyps(1)]) (use p_drop.hyps in \<open>auto simp: launch_def fiber_enter_def\<close>)
next
  case (p_requeue w s t fna q p s')
  show ?case
    by (rule live_goto [OF p_requeue.hyps(1)])
      (use p_requeue.hyps in \<open>auto simp: requeue_def queued_def in_fibers_def split: option.splits\<close>)
next
  case (p_restore w s fna p s')
  show ?case
    by (rule live_goto [OF p_restore.hyps(1)]) (use p_restore.hyps in \<open>auto simp: restore_def queued_def in_fibers_def\<close>)
next
  case (p_yield w s f p)
  show ?case
    by (rule live_goto [OF p_yield.hyps(1)]) (simp_all add: p_yield.hyps fiber_ready_def queued_def in_fibers_def)
next
  case (p_sleep w s f p)
  show ?case by (rule live_goto [OF p_sleep.hyps(1)]) (simp_all add: p_sleep.hyps queued_def in_fibers_def)
next
  case (p_signal w s f p g)
  then show ?case by (simp add: live_tasks_def fiber_ready_def queued_def tally_def in_fibers_def)
next
  case (p_end w s f p x)
  have "f \<in># busy (wpcs s w)" using p_end.hyps(2) by simp
  note bf = busy_fiber [OF p_end.prems p_end.hyps(1) this]
  have upd: "add_mset x (in_fibers (fiber_executed f s)) = in_fibers s"
    using in_fibers_upd [OF bf(2), of None] p_end.hyps(3) by (simp add: in_fibers_def fiber_executed_def)
  show ?case
    by (rule live_goto [OF p_end.hyps(1)]) (use p_end.hyps upd in \<open>auto simp: queued_def fiber_executed_def\<close>)
next
  case (p_leave w s f p)
  show ?case
    by (rule live_goto [OF p_leave.hyps(1)]) (simp_all add: p_leave.hyps fiber_leave_def queued_def in_fibers_def)
qed

subsection \<open>The number of fibers\<close>

fun creating :: "wpc \<Rightarrow> nat" where
  "creating (Create t fna q) = 1"
| "creating p = 0"

text \<open>The limit is compared under one lock and the new fiber is counted under another.\<close>

definition fibers_bounded :: "nat \<Rightarrow> nat \<Rightarrow> pool \<Rightarrow> bool" where
  "fibers_bounded n mx s \<longleftrightarrow> (total s = 0 \<and> tally creating n s = 0) \<or> total s + tally creating n s < mx + n"

lemma creating_le: "creating p \<le> 1"
  by (cases p) simp_all

lemma tally_creating_le: "tally creating n s \<le> n"
  unfolding tally_def using sum_bounded_above [of "{..<n}" "\<lambda>w. creating (wpcs s w)" 1] creating_le by simp

lemma bounded_goto:
  assumes "fibers_bounded n mx s" "w < n" "wpcs s' = wpcs s"
    and "creating p + total s' = creating (wpcs s w) + total s"
  shows "fibers_bounded n mx (wgoto w p s')"
proof -
  have "tally creating n (wgoto w p s') + creating (wpcs s w) = tally creating n s + creating p"
    by (rule tally_goto [OF assms(2,3)])
  moreover have "total (wgoto w p s') = total s'" by simp
  ultimately show ?thesis using assms(1,4) unfolding fibers_bounded_def by linarith
qed

text \<open>Where a fiber's stack is left the worker goes on at a place that creates nothing.\<close>

fun resume_pc :: "wpc \<Rightarrow> bool" where
  "resume_pc (Run f p) = (creating p = 0)"
| "resume_pc (Leaving f p) = (creating p = 0)"
| "resume_pc p = True"

lemma root_pc_resume: "root_pc p \<Longrightarrow> resume_pc p"
  by (cases p) simp_all

lemma pstep_resume:
  "pstep n mx l s s' \<Longrightarrow> pool_ok n s \<Longrightarrow> \<forall>v<n. resume_pc (wpcs s v) \<Longrightarrow> \<forall>v<n. resume_pc (wpcs s' v)"
proof (induction rule: pstep.induct)
  case (p_leave w s f p)
  have "root_pc p" using pool_ok_wf [OF p_leave.prems(1) p_leave.hyps(1)] p_leave.hyps(2) by simp
  then show ?case using p_leave.prems(2) root_pc_resume by (simp add: fiber_leave_def)
qed (auto simp: spawn_def next_ready_def wake_def fiber_enter_def keep_def fetch_def no_idle_def create_def launch_def requeue_def
    restore_def fiber_ready_def fiber_executed_def split: list.splits phase.splits option.splits if_splits prod.splits)

lemma pstep_bounded:
  "pstep n mx l s s' \<Longrightarrow> \<forall>v<n. resume_pc (wpcs s v) \<Longrightarrow> fibers_bounded n mx s \<Longrightarrow> fibers_bounded n mx s'"
proof (induction rule: pstep.induct)
  case (p_none w s t fna q)
  have t: "tally creating n (wgoto w (no_idle mx t fna q s) s) = tally creating n s + creating (no_idle mx t fna q s)"
    using tally_goto [OF p_none.hyps(1), of s s creating "no_idle mx t fna q s"] p_none.hyps(2) by simp
  show ?case
  proof (cases "total s < mx")
    case True
    then show ?thesis using tally_creating_le [of n "wgoto w (no_idle mx t fna q s) s"]
      by (simp add: fibers_bounded_def)
  next
    case False
    then show ?thesis using t p_none.prems(2) by (simp add: fibers_bounded_def no_idle_def)
  qed
next
  case (p_failed w s t fna q)
  have "tally creating n (wgoto w (Requeue t fna q) s) + 1 = tally creating n s"
    using tally_goto [OF p_failed.hyps(1), of s s creating "Requeue t fna q"] p_failed.hyps(2) by simp
  then show ?case using p_failed.prems(2) unfolding fibers_bounded_def by auto
next
  case (p_spawn t s)
  then show ?case by (simp add: fibers_bounded_def spawn_def tally_def)
next
  case (p_post t s)
  then show ?case by (simp add: fibers_bounded_def tally_def)
next
  case (p_signal w s f p g)
  then show ?case by (simp add: fibers_bounded_def fiber_ready_def tally_def)
next
  case (p_leave w s f p)
  have "creating p = 0" using p_leave.prems(1) p_leave.hyps by (metis resume_pc.simps(2))
  then show ?case by (intro bounded_goto [OF p_leave.prems(2) p_leave.hyps(1)]) (simp_all add: fiber_leave_def p_leave.hyps(2))
qed ((rule bounded_goto, assumption, assumption, (auto simp: next_ready_def wake_def fiber_enter_def keep_def fetch_def
    create_def launch_def requeue_def restore_def fiber_ready_def fiber_executed_def
    split: list.splits phase.splits option.splits if_splits prod.splits)[2])+)

subsection \<open>Properties\<close>

lemma prun_inv:
  assumes "prun n mx ls s s'" "pool_ok n s" "\<forall>v<n. resume_pc (wpcs s v)" "fibers_bounded n mx s"
  shows "pool_ok n s' \<and> (\<forall>v<n. resume_pc (wpcs s' v)) \<and> fibers_bounded n mx s'"
  using assms
proof (induction rule: prun.induct)
  case (prun_step ls s s' l s'')
  then show ?case using pstep_ok pstep_resume pstep_bounded by blast
qed blast

lemma prun_live:
  assumes "prun n mx ls s s'" "pool_ok n s"
  shows "live_tasks n s' + (sum_list (map ended ls) + sum_list (map dropped ls)) = live_tasks n s + sum_list (map begun ls)"
  using assms
proof (induction rule: prun.induct)
  case (prun_step ls s s' l s'')
  have ok: "pool_ok n s'" by (rule prun_ok [OF prun_step.hyps(1) prun_step.prems])
  have "live_tasks n s'' + (sum_list (map ended (ls @ [l])) + sum_list (map dropped (ls @ [l]))) =
      (live_tasks n s'' + (ended l + dropped l)) + (sum_list (map ended ls) + sum_list (map dropped ls))"
    by (simp add: ac_simps)
  also have "\<dots> = (live_tasks n s' + (sum_list (map ended ls) + sum_list (map dropped ls))) + begun l"
    unfolding pstep_live [OF prun_step.hyps(2) ok] by (simp add: ac_simps)
  also have "\<dots> = live_tasks n s + sum_list (map begun (ls @ [l]))"
    unfolding prun_step.IH [OF prun_step.prems] by simp
  finally show ?case .
qed simp

text \<open>Below the limit no task is ever queued, as long as every fiber can be created.\<close>

fun no_queue :: "wpc \<Rightarrow> bool" where
  "no_queue (GetFiber t fna q) = (q = None)"
| "no_queue (Create t fna q) = (q = None)"
| "no_queue (Launch t fna q f) = (q = None)"
| "no_queue (Requeue t fna q) = False"
| "no_queue (Run f p) = no_queue p"
| "no_queue (Leaving f p) = no_queue p"
| "no_queue p = True"

lemma pstep_no_queue:
  "pstep n mx l s s' \<Longrightarrow> tasks s = [] \<Longrightarrow> \<forall>v<n. no_queue (wpcs s v) \<Longrightarrow> total s < mx \<Longrightarrow> l \<noteq> NoFiber \<Longrightarrow>
    tasks s' = [] \<and> (\<forall>v<n. no_queue (wpcs s' v)) \<and> dropped l = {#}"
proof (induction rule: pstep.induct)
  case (p_drop w s t fna x f p s')
  then show ?case by fastforce
next
  case (p_requeue w s t fna q p s')
  then show ?case by fastforce
qed (force simp: spawn_def next_ready_def wake_def fiber_enter_def keep_def fetch_def no_idle_def create_def launch_def fiber_leave_def
    restore_def fiber_ready_def fiber_executed_def split: list.splits phase.splits option.splits if_splits prod.splits)+

lemma pstep_total: "pstep n mx l s s' \<Longrightarrow> total s \<le> total s'"
  by (induction rule: pstep.induct)
    (auto simp: spawn_def next_ready_def wake_def fiber_enter_def keep_def fetch_def create_def launch_def fiber_leave_def requeue_def
      restore_def fiber_ready_def fiber_executed_def split: list.splits phase.splits option.splits if_splits prod.splits)

lemma prun_no_queue:
  assumes "prun n mx ls s s'" "tasks s = []" "\<forall>v<n. no_queue (wpcs s v)" "total s' < mx" "NoFiber \<notin> set ls"
  shows "tasks s' = [] \<and> (\<forall>v<n. no_queue (wpcs s' v)) \<and> sum_list (map dropped ls) = {#}"
  using assms
proof (induction rule: prun.induct)
  case (prun_step ls s s' l s'')
  have t: "total s' < mx" using pstep_total [OF prun_step.hyps(2)] prun_step.prems(3) by simp
  then have "tasks s' = [] \<and> (\<forall>v<n. no_queue (wpcs s' v)) \<and> sum_list (map dropped ls) = {#}"
    using prun_step by simp
  moreover have "l \<noteq> NoFiber" using prun_step.prems(4) by auto
  ultimately show ?case using pstep_no_queue [OF prun_step.hyps(2)] t by simp
qed simp

lemma pinitial_inv: "pool_ok n pinitial \<and> (\<forall>v<n. resume_pc (wpcs pinitial v)) \<and> fibers_bounded n mx pinitial"
  by (simp add: pinitial_ok) (simp add: pinitial_def fibers_bounded_def tally_def)

text \<open>
  C6: in every reachable state a fiber that runs has a task, its lock is taken, no other worker is inside
  it, and it is neither idle nor ready; a fiber about to get a task has none; and no fiber is twice among
  the ready ones or both ready and idle.  These are the assertions of \<open>execute\<close>, \<open>fiberProc\<close>,
  \<open>fiberExecuted\<close> and \<open>fiberReady\<close>.
\<close>

theorem pool_exclusive:
  assumes "prun n mx ls pinitial s" "w < n"
  shows "(\<forall>f p. wpcs s w = Run f p \<longrightarrow> code s f \<noteq> None \<and> f \<in> locked s \<and> f \<notin> idle s \<and> f \<notin> set (readyq s) \<and>
      (\<forall>v<n. v \<noteq> w \<longrightarrow> (\<forall>q. wpcs s v \<noteq> Run f q \<and> wpcs s v \<noteq> Leaving f q))) \<and>
    (\<forall>t fna q f. wpcs s w = Launch t fna q f \<longrightarrow> code s f = None \<and> f < total s) \<and>
    distinct (readyq s) \<and> set (readyq s) \<inter> idle s = {}"
proof (intro conjI allI impI)
  have ok: "pool_ok n s" by (rule prun_ok [OF assms(1) pinitial_ok])
  fix f p assume w: "wpcs s w = Run f p"
  then have b: "f \<in># busy (wpcs s w)" and i: "f \<in># inside (wpcs s w)" by simp_all
  show "code s f \<noteq> None" "f \<notin> idle s" "f \<notin> set (readyq s)" using busy_fiber [OF ok assms(2) b] by blast+
  show "f \<in> locked s" by (rule inside_fiber [OF ok assms(2) i])
  fix v q assume "v < n" "v \<noteq> w"
  from inside_once [OF ok assms(2) this(1) _ i] this(2) have "f \<notin># inside (wpcs s v)" by metis
  then show "wpcs s v \<noteq> Run f q" "wpcs s v \<noteq> Leaving f q" by auto
next
  have ok: "pool_ok n s" by (rule prun_ok [OF assms(1) pinitial_ok])
  fix t fna q f assume "wpcs s w = Launch t fna q f"
  then have "f \<in># spare (wpcs s w)" by simp
  from spare_fiber [OF ok assms(2) this] show "code s f = None" "f < total s" by blast+
next
  have ok: "pool_ok n s" by (rule prun_ok [OF assms(1) pinitial_ok])
  have "\<forall>f. count (mset (readyq s)) f = (if f \<in> set (readyq s) then 1 else 0)"
    using ready_fiber(3) [OF ok] by (auto simp: count_eq_zero_iff)
  then show "distinct (readyq s)" by (simp add: distinct_count_atmost_1)
  show "set (readyq s) \<inter> idle s = {}" using ready_fiber(2) [OF ok] by blast
qed

text \<open>Two workers and one fiber.  Worker 0 runs task 10 in fiber 0, task 11 is queued by worker 1, which
  then takes task 12, and with it task 11 from the queue; fiber 0 ends and is idle again, worker 1
  takes it before worker 0 has left it.\<close>

definition first_run :: "act list" where
  "first_run = [ASpawn 10, ASpawn 11, ASpawn 12] @ replicate 7 (AGo 0)"

definition second_run :: "act list" where
  "second_run = first_run @ replicate 9 (AGo 1) @ replicate 4 (AGo 1)"

definition lossy_run :: "act list" where
  "lossy_run = second_run @ [AEnd 0, AIdle 1 0, AGo 1]"

definition final_run :: "act list" where
  "final_run = lossy_run @ replicate 6 (AGo 1) @ replicate 4 (AGo 0)"

definition race_run :: "act list" where
  "race_run = [ASpawn 10, ASpawn 11] @ replicate 5 (AGo 0) @ replicate 6 (AGo 1) @ [AGo 0]"

lemma run_reaches:
  assumes "map_option g (run_acts n mx as pinitial) = Some y"
  obtains ls s where "prun n mx ls pinitial s" "g (ls, s) = y"
proof -
  obtain ls s where r: "run_acts n mx as pinitial = Some (ls, s)" "y = g (ls, s)" using assms by auto
  show thesis by (rule that [OF run_acts_prun [OF r(1)]]) (simp add: r(2))
qed

theorem pool_exclusive_witness:
  "\<exists>ls s p. prun 2 1 ls pinitial s \<and> wpcs s 0 = Run 0 p \<and> code s 0 = Some 10 \<and> 0 \<in> locked s"
proof -
  have "map_option (\<lambda>(ls, s). (wpcs s 0, code s 0)) (run_acts 2 1 first_run pinitial) = Some (Run 0 (Restore []), Some 10)"
    by code_simp
  then obtain ls s where "prun 2 1 ls pinitial s" "wpcs s 0 = Run 0 (Restore [])" "code s 0 = Some 10"
    by (rule run_reaches) auto
  then show ?thesis using pool_exclusive [of 2 1 ls s 0] by auto
qed

text \<open>
  C29: the pool never has more fibers than the limit plus the number of workers less one.  The limit itself is
  not kept: it is compared under one lock and the fiber is counted under another, so each of the workers
  may create one.
\<close>

theorem fiber_limit:
  assumes "prun n mx ls pinitial s" "0 < n"
  shows "total s < mx + n"
  using prun_inv [OF assms(1)] pinitial_inv [of n mx] assms(2) unfolding fibers_bounded_def by auto

theorem fiber_limit_witness: "\<exists>ls s. prun 2 1 ls pinitial s \<and> 1 < total s \<and> total s < 1 + 2"
proof -
  have "map_option (\<lambda>(ls, s). total s) (run_acts 2 1 race_run pinitial) = Some 2" by code_simp
  then obtain ls s where "prun 2 1 ls pinitial s" "total s = 2" by (rule run_reaches) auto
  then show ?thesis using fiber_limit [of 2 1 ls s] by (intro exI [of _ ls] exI [of _ s]) simp
qed

text \<open>
  C7: tasks are neither invented nor duplicated: whatever was spawned or posted is waiting, held by a worker,
  in a fiber, done, or was dropped in the one step of \<open>exec\<close> that goes on without its task; and below
  the limit of fibers, where each can be created, none is dropped.
\<close>

theorem tasks_accounted:
  assumes "prun n mx ls pinitial s"
  shows "sum_list (map begun ls) = live_tasks n s + sum_list (map ended ls) + sum_list (map dropped ls) \<and>
    (total s < mx \<and> NoFiber \<notin> set ls \<longrightarrow> tasks s = [] \<and> sum_list (map dropped ls) = {#})"
proof
  have "live_tasks n pinitial = {#}"
    by (simp add: live_tasks_def pinitial_def queued_def tally_def in_fibers_def)
  then show "sum_list (map begun ls) = live_tasks n s + sum_list (map ended ls) + sum_list (map dropped ls)"
    using prun_live [OF assms pinitial_ok] by (simp add: add.assoc)
  show "total s < mx \<and> NoFiber \<notin> set ls \<longrightarrow> tasks s = [] \<and> sum_list (map dropped ls) = {#}"
    using prun_no_queue [OF assms] by (simp add: pinitial_def)
qed

theorem tasks_accounted_witness:
  "\<exists>ls s. prun 2 1 ls pinitial s \<and> {#10, 11, 12#} = live_tasks 2 s + {#10#} + {#11#}"
proof -
  have "map_option (\<lambda>(ls, s). (filter (\<lambda>l. l \<noteq> Tau) ls, 0::nat)) (run_acts 2 1 lossy_run pinitial) =
      Some ([Spawned 10, Spawned 11, Spawned 12, Done 10, Lost 11], 0)" by code_simp
  then obtain ls s where r: "prun 2 1 ls pinitial s" "filter (\<lambda>l. l \<noteq> Tau) ls = [Spawned 10, Spawned 11, Spawned 12, Done 10, Lost 11]"
    by (rule run_reaches) auto
  have drop: "sum_list (map g ls) = sum_list (map g (filter (\<lambda>l. l \<noteq> Tau) ls))" if "g Tau = {#}" for g :: "plabel \<Rightarrow> nat multiset"
    using that by (induction ls) auto
  show ?thesis using tasks_accounted [OF r(1)] r(1) drop [of begun] drop [of ended] drop [of dropped] unfolding r(2)
    by (intro exI [of _ ls] exI [of _ s]) simp
qed

text \<open>
  A task that is queued because the fibers are used up can be lost: a worker takes it from the queue together
  with an idle fiber that its last worker has not left yet, \<open>execute\<close> fails, and the loop goes on
  without the task.
\<close>

theorem queued_task_lost:
  "\<exists>ls s. prun 2 1 ls pinitial s \<and> 11 \<in># sum_list (map begun ls) \<and> Lost 11 \<in> set ls \<and> Done 11 \<notin> set ls \<and>
    live_tasks 2 s = {#12#}"
proof -
  have "map_option (\<lambda>(ls, s). (Spawned 11 \<in> set ls, Lost 11 \<in> set ls, Done 11 \<in> set ls, posted s, tasks s, wpcs s 0, wpcs s 1,
      total s, code s 0)) (run_acts 2 1 final_run pinitial) = Some (True, True, False, [], [12], Io, Io, 1, None)" by code_simp
  then obtain ls s where r: "prun 2 1 ls pinitial s" "Spawned 11 \<in> set ls" "Lost 11 \<in> set ls" "Done 11 \<notin> set ls"
    "posted s = []" "tasks s = [12]" "wpcs s 0 = Io" "wpcs s 1 = Io" "total s = 1" "code s 0 = None"
    by (rule run_reaches) auto
  have "11 \<in># sum_list (map begun ls)" using r(2) by (induction ls) auto
  moreover have "live_tasks 2 s = {#12#}"
    using r(5-) by (simp add: live_tasks_def queued_def tally_def in_fibers_def numeral_2_eq_2)
  ultimately show ?thesis using r by blast
qed

text \<open>
  Where every worker has returned to the I/O service, no handler is posted and tasks are queued, the tasks
  stay there: \<open>spawn\<close> only adds to a queue that is not empty, and nobody is told of it, until
  something other than \<open>spawn\<close> posts a handler.
\<close>

theorem queue_starves:
  assumes "prun n mx ls s s'" "\<forall>w<n. wpcs s w = Io" "posted s = []" "tasks s \<noteq> []" "\<forall>t. Posted t \<notin> set ls"
  shows "(\<forall>w<n. wpcs s' w = Io) \<and> posted s' = [] \<and> (\<exists>ts. tasks s' = tasks s @ ts \<and> ls = map Spawned ts)"
  using assms
proof (induction rule: prun.induct)
  case (prun_step ls s s' l s'')
  then obtain ts where h: "\<forall>w<n. wpcs s' w = Io" "posted s' = []" "tasks s' = tasks s @ ts" "ls = map Spawned ts" by auto
  from prun_step.hyps(2) have "\<exists>t. l = Spawned t \<and> s'' = spawn t s'"
    using h(1,2) prun_step.prems(4) by cases auto
  then obtain t where "l = Spawned t" "s'' = s'\<lparr>tasks := tasks s @ ts @ [t]\<rparr>"
    using h(3) prun_step.prems(3) by (auto simp: spawn_def)
  then show ?case using h(1,2,4) by (auto intro: exI [of _ "ts @ [t]"])
qed simp

theorem queue_starves_witness:
  "\<exists>ls s. prun 2 1 ls pinitial s \<and> tasks s = [12] \<and> 0 \<in> idle s \<and>
    (\<forall>ks s'. prun 2 1 ks s s' \<longrightarrow> (\<forall>t. Posted t \<notin> set ks) \<longrightarrow> Done 12 \<notin> set ks)"
proof -
  have "map_option (\<lambda>(ls, s). (posted s, tasks s, wpcs s 0, wpcs s 1, 0 \<in> idle s)) (run_acts 2 1 final_run pinitial) =
      Some ([], [12], Io, Io, True)" by code_simp
  then obtain ls s where r: "prun 2 1 ls pinitial s" "posted s = []" "tasks s = [12]" "wpcs s 0 = Io" "wpcs s 1 = Io" "0 \<in> idle s"
    by (rule run_reaches) auto
  have io: "\<forall>w<2. wpcs s w = Io" using r(4,5) by (simp add: less_2_cases_iff)
  have "Done 12 \<notin> set ks" if "prun 2 1 ks s s'" "\<forall>t. Posted t \<notin> set ks" for ks s'
  proof -
    from queue_starves [OF that(1) io r(2) _ that(2)] r(3) obtain ts where "ks = map Spawned ts" by auto
    then show ?thesis by auto
  qed
  then show ?thesis using r by blast
qed

end
