(* ===== verification/PgCalendar.thy ===== *)
theory PgCalendar
  imports Prelude "HOL-Library.Signed_Division"
begin

text \<open>
  Julian day numbers and times of day (include/utils/julian.hpp), which the PostgreSQL client uses
  to encode and decode dates.  C's division truncates; \<open>j2date\<close> calculates with unsigned 32-bit
  numbers, and the fields of a time are cast to \<open>int\<close>; an overflow of \<open>int\<close> in an
  intermediate result, which C leaves undefined, is not modelled.
\<close>

subsection \<open>The functions\<close>

definition date2j :: "int \<Rightarrow> int \<Rightarrow> int \<Rightarrow> int" where
  "date2j y m d = (let m' = (if m > 2 then m + 1 else m + 13); y' = (if m > 2 then y + 4800 else y + 4799);
     century = y' sdiv 100 in
     y' * 365 - 32167 + (y' sdiv 4 - century + century sdiv 4) + (7834 * m' sdiv 256 + d))"

definition j2date :: "int \<Rightarrow> int \<times> int \<times> int" where
  "j2date jd = (let
     julian = (jd + 32044) mod 2 ^ 32;
     quad = julian div 146097;
     extra = ((julian - quad * 146097) * 4 + 3) mod 2 ^ 32;
     julian = (julian + (60 + quad * 3 + extra div 146097)) mod 2 ^ 32;
     quad = julian div 1461;
     julian = julian - quad * 1461;
     y = julian * 4 div 1461;
     julian = (if y \<noteq> 0 then (julian + 305) mod 365 else (julian + 306) mod 366) + 123;
     year = y + quad * 4 - 4800;
     quad = julian * 2141 div 65536
     in (year, (quad + 10) mod 12 + 1, julian - 7834 * quad div 256))"

definition usecs_per_day :: int where
  "usecs_per_day = 86400000000"

definition epoch_jdate :: int where
  "epoch_jdate = 2451545"

definition time2t :: "int \<Rightarrow> int \<Rightarrow> int \<Rightarrow> int \<Rightarrow> int" where
  "time2t hour mnt sec fsec = ((hour * 60 + mnt) * 60 + sec) * 1000000 + fsec"

definition to_int :: "int \<Rightarrow> int" where
  "to_int x = sint (word_of_int x :: 32 word)"

definition dt2time :: "int \<Rightarrow> int \<times> int \<times> int \<times> int" where
  "dt2time jd = (let
     hour = to_int (jd sdiv 3600000000); time = jd - hour * 3600000000;
     mnt = to_int (time sdiv 60000000); time = time - mnt * 60000000;
     sec = to_int (time sdiv 1000000)
     in (hour, mnt, sec, to_int (time - sec * 1000000)))"

definition tmodulo :: "int \<Rightarrow> int \<Rightarrow> int \<times> int" where
  "tmodulo t u = (let q = t sdiv u in (if q \<noteq> 0 then t - q * u else t, q))"

text \<open>The Gregorian calendar.\<close>

definition leap_year :: "int \<Rightarrow> bool" where
  "leap_year y \<longleftrightarrow> y mod 4 = 0 \<and> (y mod 100 \<noteq> 0 \<or> y mod 400 = 0)"

definition month_days :: "int \<Rightarrow> int \<Rightarrow> int" where
  "month_days y m = (if m = 2 then if leap_year y then 29 else 28
     else if m \<in> {4, 6, 9, 11} then 30 else 31)"

definition valid_date :: "int \<Rightarrow> int \<Rightarrow> int \<Rightarrow> bool" where
  "valid_date y m d \<longleftrightarrow> 1 \<le> m \<and> m \<le> 12 \<and> 1 \<le> d \<and> d \<le> month_days y m"

subsection \<open>Round trips\<close>

lemma sdiv_nonneg: "0 \<le> (a::int) \<Longrightarrow> 0 < b \<Longrightarrow> a sdiv b = a div b"
  by (cases "a = 0") (auto simp: signed_divide_int_def sgn_if)

text \<open>A date counted from the first of March of a year \<open>400 q + 100 c + 4 a + b\<close>, as \<open>doy\<close> days.\<close>

definition march_day :: "int \<Rightarrow> int \<Rightarrow> int \<Rightarrow> int \<Rightarrow> int \<Rightarrow> int" where
  "march_day q c a b doy = 146097 * q + 36524 * c + 1461 * a + 365 * b + doy"

definition march_ok :: "int \<Rightarrow> int \<Rightarrow> int \<Rightarrow> int \<Rightarrow> int \<Rightarrow> bool" where
  "march_ok q c a b doy \<longleftrightarrow> 0 \<le> q \<and> 0 \<le> c \<and> c \<le> 3 \<and> 0 \<le> a \<and> a \<le> 24 \<and> 0 \<le> b \<and> b \<le> 3 \<and> 0 \<le> doy \<and>
     doy \<le> 365 \<and> (doy = 365 \<longrightarrow> b = 3 \<and> (a = 24 \<longrightarrow> c = 3))"

lemma march_century:
  assumes "march_ok q c a b doy"
  shows "march_day q c a b doy div 146097 = q"
    and "((march_day q c a b doy - q * 146097) * 4 + 3) div 146097 = c"
proof -
  let ?E = "1461 * a + 365 * b + doy"
  have E: "0 \<le> ?E" "?E \<le> 36524" "c < 3 \<Longrightarrow> ?E \<le> 36523" using assms unfolding march_ok_def by auto
  have c: "0 \<le> c" "c \<le> 3" using assms unfolding march_ok_def by auto
  have "march_day q c a b doy = 146097 * q + (36524 * c + ?E)" by (simp add: march_day_def)
  moreover have "0 \<le> 36524 * c + ?E" "36524 * c + ?E < 146097" using E c by auto
  ultimately show "march_day q c a b doy div 146097 = q" by (rule int_div_pos_eq)
  have "(march_day q c a b doy - q * 146097) * 4 + 3 = 146097 * c + (4 * ?E + 3 - c)" by (simp add: march_day_def)
  moreover have "0 \<le> 4 * ?E + 3 - c" using E(1) c by presburger
  moreover have "4 * ?E + 3 - c < 146097" using E(2) E(3) c by (cases "c < 3") auto
  ultimately show "((march_day q c a b doy - q * 146097) * 4 + 3) div 146097 = c" by (rule int_div_pos_eq)
qed

text \<open>The year and the day in the year that the second half of \<open>j2date\<close> finds, January being in the next year.\<close>

lemma march_year:
  assumes ok: "march_ok q c a b doy" and
    j: "j = 1461 * (100 * q + 25 * c + a) + (365 * b + doy + 60)" and
    r: "r = j - j div 1461 * 1461" and y: "y = r * 4 div 1461"
  shows "y + j div 1461 * 4 = 400 * q + 100 * c + 4 * a + b + (if doy < 306 then 0 else 1)"
    and "(if y \<noteq> 0 then (r + 305) mod 365 else (r + 306) mod 366) = doy"
proof -
  have b: "b = 0 \<or> b = 1 \<or> b = 2 \<or> b = 3" and d: "0 \<le> doy" "doy \<le> 365" "doy = 365 \<longrightarrow> b = 3"
    using ok unfolding march_ok_def by auto
  have "(y + j div 1461 * 4 = 400 * q + 100 * c + 4 * a + b + (if doy < 306 then 0 else 1)) \<and>
    (if y \<noteq> 0 then (r + 305) mod 365 else (r + 306) mod 366) = doy"
  proof (cases "b = 3 \<and> 306 \<le> doy")
    case True
    have "j = 1461 * (100 * q + 25 * c + a + 1) + (doy - 306)" using j True by simp
    then have q: "j div 1461 = 100 * q + 25 * c + a + 1" by (rule int_div_pos_eq) (use True d in auto)
    then have "r = doy - 306" using r j True by simp
    moreover have "y = 0" unfolding y calculation by (rule int_div_pos_eq [of _ _ _ "(doy - 306) * 4"]) (use True d in auto)
    ultimately show ?thesis using True d q by simp
  next
    case False
    have q: "j div 1461 = 100 * q + 25 * c + a"
      using j by (rule int_div_pos_eq) (use False b d in auto)
    then have r: "r = 365 * b + doy + 60" using r j by simp
    have y: "y = b + (if doy < 306 then 0 else 1)" unfolding y r
      by (rule int_div_pos_eq [of _ _ _ "(365 * b + doy + 60) * 4 - 1461 * (b + (if doy < 306 then 0 else 1))"])
        (use False b d in \<open>auto split: if_splits\<close>)
    have "(r + 305) mod 365 = doy" if "y \<noteq> 0"
    proof -
      have "r + 305 = 365 * (b + 1) + doy" "doy < 365" using r d False by auto
      then show ?thesis using d by simp
    qed
    moreover have "(r + 306) mod 366 = doy" if "y = 0"
    proof -
      have "b = 0" "doy < 306" using that y b by (auto split: if_splits)
      then have "r + 306 = 366 * 1 + doy" "doy < 366" using r by auto
      then show ?thesis using d by simp
    qed
    ultimately show ?thesis using q y by simp
  qed
  then show "y + j div 1461 * 4 = 400 * q + 100 * c + 4 * a + b + (if doy < 306 then 0 else 1)"
    and "(if y \<noteq> 0 then (r + 305) mod 365 else (r + 306) mod 366) = doy" by blast+
qed

text \<open>The month is found from the day of the year.\<close>

lemma march_month:
  assumes "valid_date y m d" and m': "m' = (if m > 2 then m + 1 else m + 13)" and doy: "doy = 7834 * m' div 256 + d - 123"
  shows "0 \<le> doy \<and> doy \<le> 365 \<and> (doy = 365 \<longrightarrow> m = 2 \<and> leap_year y) \<and> (doy < 306 \<longleftrightarrow> m > 2)"
    and "(doy + 123) * 2141 div 65536 = m'" "(m' + 10) mod 12 + 1 = m" "doy + 123 - 7834 * m' div 256 = d"
proof -
  have d: "1 \<le> d" "d \<le> 31" "m = 4 \<or> m = 6 \<or> m = 9 \<or> m = 11 \<Longrightarrow> d \<le> 30"
    "m = 2 \<Longrightarrow> d \<le> 29 \<and> (d = 29 \<longrightarrow> leap_year y)"
    using assms(1) unfolding valid_date_def month_days_def by (auto split: if_splits)
  have m: "m = 1 \<or> m = 2 \<or> m = 3 \<or> m = 4 \<or> m = 5 \<or> m = 6 \<or> m = 7 \<or> m = 8 \<or> m = 9 \<or> m = 10 \<or> m = 11 \<or> m = 12"
    using assms(1) unfolding valid_date_def by presburger
  have "0 \<le> doy \<and> doy \<le> 365 \<and> (doy = 365 \<longrightarrow> m = 2 \<and> leap_year y) \<and> (doy < 306 \<longleftrightarrow> m > 2) \<and> (m' + 10) mod 12 + 1 = m \<and>
    m' * 65536 \<le> (doy + 123) * 2141 \<and> (doy + 123) * 2141 < (m' + 1) * 65536"
    using m by (elim disjE) (use d in \<open>auto simp: m' doy\<close>)
  then have q: "m' * 65536 \<le> (doy + 123) * 2141" "(doy + 123) * 2141 < (m' + 1) * 65536"
    and "0 \<le> doy \<and> doy \<le> 365 \<and> (doy = 365 \<longrightarrow> m = 2 \<and> leap_year y) \<and> (doy < 306 \<longleftrightarrow> m > 2)"
    "(m' + 10) mod 12 + 1 = m" by blast+
  then show "0 \<le> doy \<and> doy \<le> 365 \<and> (doy = 365 \<longrightarrow> m = 2 \<and> leap_year y) \<and> (doy < 306 \<longleftrightarrow> m > 2)"
    "(m' + 10) mod 12 + 1 = m" by blast+
  show "(doy + 123) * 2141 div 65536 = m'"
    by (rule int_div_pos_eq [of _ _ _ "(doy + 123) * 2141 - m' * 65536"]) (use q in auto)
  show "doy + 123 - 7834 * m' div 256 = d" by (simp add: doy)
qed

lemma date2j_march:
  assumes "valid_date y m d" "-4799 \<le> y"
    and y': "y' = (if m > 2 then y + 4800 else y + 4799)" and m': "m' = (if m > 2 then m + 1 else m + 13)"
    and q: "q = y' div 400" and c: "c = y' mod 400 div 100" and a: "a = y' mod 100 div 4" and b: "b = y' mod 4"
    and doy: "doy = 7834 * m' div 256 + d - 123"
  shows "date2j y m d + 32044 = march_day q c a b doy" "march_ok q c a b doy" "y' = 400 * q + 100 * c + 4 * a + b"
proof -
  have y: "0 \<le> y'" using assms(2) y' by simp
  have p: "1 \<le> m" using assms(1) unfolding valid_date_def by simp
  have parts: "y' = 400 * q + y' mod 400" "y' mod 400 = 100 * c + y' mod 100" "y' mod 100 = 4 * a + b"
    unfolding q c a b using mult_div_mod_eq [of 400 y'] mult_div_mod_eq [of 100 "y' mod 400"] mult_div_mod_eq [of 4 "y' mod 100"]
    by (simp_all add: mod_mod_cancel)
  show eq: "y' = 400 * q + 100 * c + 4 * a + b" using parts by linarith
  have r: "0 \<le> q" "0 \<le> c" "c \<le> 3" "0 \<le> a" "a \<le> 24" "0 \<le> b" "b \<le> 3"
    unfolding q c a b using y by auto
  note mm = march_month [OF assms(1) m' doy]
  have "b = 3 \<and> (a = 24 \<longrightarrow> c = 3)" if "doy = 365"
  proof -
    have "m = 2" "leap_year y" using mm(1) that by blast+
    then have "leap_year (y' + 1)" using y' unfolding leap_year_def by (auto simp: algebra_simps) presburger+
    then have l: "(y' + 1) mod 4 = 0" and l2: "(y' + 1) mod 100 \<noteq> 0 \<or> (y' + 1) mod 400 = 0"
      unfolding leap_year_def by simp_all
    have "b = 3" using l unfolding b by presburger
    moreover have "c = 3" if "a = 24"
    proof -
      have "y' + 1 = 400 * q + 100 * (c + 1)" using eq that \<open>b = 3\<close> by simp
      then show ?thesis using l2 r by presburger
    qed
    ultimately show ?thesis by blast
  qed
  then show "march_ok q c a b doy" using r mm(1) unfolding march_ok_def by blast
  have "y' div 100 = 4 * q + c" by (rule int_div_pos_eq [of _ _ _ "4 * a + b"]) (use eq r in auto)
  moreover have "(4 * q + c) div 4 = q" by (rule int_div_pos_eq [of _ _ _ c]) (use r in auto)
  moreover have "y' div 4 = 100 * q + 25 * c + a" by (rule int_div_pos_eq [of _ _ _ b]) (use eq r in auto)
  moreover have "7834 * m' sdiv 256 = 7834 * m' div 256" using p m' by (intro sdiv_nonneg) auto
  moreover have "y' sdiv 100 = y' div 100" "y' sdiv 4 = y' div 4" "(y' div 100) sdiv 4 = y' div 100 div 4"
    using y by (simp_all add: sdiv_nonneg)
  ultimately show "date2j y m d + 32044 = march_day q c a b doy"
    unfolding date2j_def march_day_def m' [symmetric] y' [symmetric] using eq by (simp add: Let_def doy)
qed

text \<open>The number of a date gives the date back.\<close>

lemma j2date_date2j:
  assumes "valid_date y m d" "-4799 \<le> y" "y < 5874898"
  shows "j2date (date2j y m d) = (y, m, d)"
proof -
  define m' where "m' = (if m > 2 then m + 1 else m + 13)"
  define y' where "y' = (if m > 2 then y + 4800 else y + 4799)"
  define q where "q = y' div 400"
  define c where "c = y' mod 400 div 100"
  define a where "a = y' mod 100 div 4"
  define b where "b = y' mod 4"
  define doy where "doy = 7834 * m' div 256 + d - 123"
  note dj = date2j_march [OF assms(1,2) y'_def m'_def q_def c_def a_def b_def doy_def]
  note mm = march_month [OF assms(1) m'_def doy_def]
  let ?D = "march_day q c a b doy"
  have r: "0 \<le> q" "0 \<le> c" "c \<le> 3" "0 \<le> a" "a \<le> 24" "0 \<le> b" "b \<le> 3" "0 \<le> doy" "doy \<le> 365"
    using dj(2) unfolding march_ok_def by blast+
  have "y' < 5879700" using assms(3) unfolding y'_def by auto
  then have q: "q \<le> 14699" unfolding q_def by auto
  then have D: "0 \<le> ?D" "?D < 2 ^ 32 - 100000" unfolding march_day_def using r by auto
  define j where "j = 1461 * (100 * q + 25 * c + a) + (365 * b + doy + 60)"
  have j: "?D + (60 + q * 3 + c) = j" unfolding j_def march_day_def by simp
  have jr: "0 \<le> j" "j < 2 ^ 32" using D q r unfolding j [symmetric] by auto
  have d1: "?D mod 2 ^ 32 = ?D" using D by simp
  have d2: "?D div 146097 = q" "((?D - q * 146097) * 4 + 3) div 146097 = c" by (rule march_century [OF dj(2)])+
  have "((?D - q * 146097) * 4 + 3) mod 2 ^ 32 = (?D - q * 146097) * 4 + 3"
    using r unfolding march_day_def by (intro mod_pos_pos_trivial) auto
  note d3 = this
  define s where "s = j - j div 1461 * 1461"
  define z where "z = s * 4 div 1461"
  note my = march_year [OF dj(2) j_def s_def z_def]
  have "j2date (date2j y m d) = (z + j div 1461 * 4 - 4800, (m' + 10) mod 12 + 1, doy + 123 - 7834 * m' div 256)"
    unfolding j2date_def Let_def dj(1) d1 d2(1) d3 d2(2) j mod_pos_pos_trivial [OF jr] s_def [symmetric] z_def [symmetric] my(2) mm(2) ..
  also have "z + j div 1461 * 4 - 4800 = y"
    using my(1) dj(3) mm(1) unfolding y'_def by (auto split: if_splits)
  finally show ?thesis using mm(3,4) by simp
qed

lemma date2j_epoch: "date2j 2000 1 1 = epoch_jdate"
  by (simp add: date2j_def epoch_jdate_def sdiv_nonneg)

text \<open>A time is the sum of its fields, for negative times too.\<close>

lemma to_int_small: "- (2 ^ 31) \<le> x \<Longrightarrow> x < 2 ^ 31 \<Longrightarrow> to_int x = x"
  by (simp add: to_int_def sint_sbintrunc' signed_take_bit_int_eq_self)

lemma sdiv_bounds:
  assumes "0 < (k :: int)"
  shows "\<bar>a - a sdiv k * k\<bar> < k" "\<bar>a sdiv k\<bar> \<le> \<bar>a\<bar> div k"
proof -
  have "a - a sdiv k * k = a smod k" by (simp add: minus_sdiv_mult_eq_smod)
  then show "\<bar>a - a sdiv k * k\<bar> < k"
    using assms by (simp add: signed_modulo_int_def abs_mult sgn_if)
  show "\<bar>a sdiv k\<bar> \<le> \<bar>a\<bar> div k"
    using assms by (simp add: signed_divide_int_def abs_mult sgn_if pos_imp_zdiv_nonneg_iff)
qed

lemma to_int_sdiv:
  assumes "0 < k" "\<bar>a\<bar> < 2 ^ 31 * k"
  shows "to_int (a sdiv k) = a sdiv k"
proof -
  have "\<bar>a\<bar> div k < 2 ^ 31"
  proof (rule ccontr)
    assume "\<not> \<bar>a\<bar> div k < 2 ^ 31"
    then have "2 ^ 31 * k \<le> \<bar>a\<bar> div k * k" using assms(1) by (intro mult_right_mono) auto
    also have "\<dots> \<le> \<bar>a\<bar>" using div_mult_mod_eq [of "\<bar>a\<bar>" k] pos_mod_sign [OF assms(1), of "\<bar>a\<bar>"] by linarith
    finally show False using assms(2) by simp
  qed
  with sdiv_bounds(2) [OF assms(1), of a] show ?thesis by (intro to_int_small) auto
qed

lemma dt2time_time2t:
  assumes "dt2time t = (h, m, s, f)" "\<bar>t\<bar> < 2 ^ 62"
  shows "time2t h m s f = t"
proof -
  define r where "r = t - t sdiv 3600000000 * 3600000000"
  define q where "q = r - r sdiv 60000000 * 60000000"
  have r: "\<bar>r\<bar> < 3600000000" unfolding r_def by (rule sdiv_bounds) simp
  have q: "\<bar>q\<bar> < 60000000" unfolding q_def by (rule sdiv_bounds) simp
  have u: "\<bar>q - q sdiv 1000000 * 1000000\<bar> < 1000000" by (rule sdiv_bounds) simp
  have "to_int (t sdiv 3600000000) = t sdiv 3600000000" using assms(2) by (intro to_int_sdiv) auto
  moreover have "to_int (r sdiv 60000000) = r sdiv 60000000" using r by (intro to_int_sdiv) auto
  moreover have "to_int (q sdiv 1000000) = q sdiv 1000000" using q by (intro to_int_sdiv) auto
  moreover have "to_int (q - q sdiv 1000000 * 1000000) = q - q sdiv 1000000 * 1000000" using u by (intro to_int_small) auto
  ultimately have "dt2time t = (t sdiv 3600000000, r sdiv 60000000, q sdiv 1000000, q - q sdiv 1000000 * 1000000)"
    unfolding dt2time_def Let_def by (simp flip: r_def q_def)
  then show ?thesis using assms(1) unfolding time2t_def by (auto simp: r_def q_def)
qed

lemma tmodulo_day:
  assumes "tmodulo t u = (r, q)" "0 < u"
  shows "t = q * u + r" "\<bar>r\<bar> < u"
proof -
  have q: "q = t sdiv u" and r: "r = t - q * u" using assms(1) unfolding tmodulo_def by (auto simp: Let_def split: if_splits)
  show "t = q * u + r" using r by simp
  have "r = t smod u" unfolding r q by (simp add: minus_sdiv_mult_eq_smod)
  then show "\<bar>r\<bar> < u"
    using assms(2) by (simp add: signed_modulo_int_def abs_mult sgn_if)
qed

end
