(* ===== verification/PgBind.thy ===== *)
theory PgBind
  imports Endian VariantTypes PgCalendar
begin

text \<open>
  The parameters of a query in PostgreSQL's binary format (pgc/impl/bindData.cpp): for every value of
  a variant the number of the database type, the bytes and their length.  How many elements the
  arrays have, and which values are owned, is part of the model; \<open>new\<close> and \<open>delete\<close> are not.
\<close>

subsection \<open>Parameters\<close>

datatype pfault = PgAssert | PgRange | PgThrow

type_synonym 'a presult = "pfault + 'a"

record param =
  p_typ :: nat
  p_val :: "byte list option"
  p_len :: int
  p_fmt :: nat
  p_own :: bool

definition empty_param :: param where
  "empty_param = \<lparr>p_typ = 0, p_val = None, p_len = 0, p_fmt = 0, p_own = False\<rparr>"

definition resizeArrays :: "nat \<Rightarrow> param list \<Rightarrow> param list" where
  "resizeArrays n ps = take n ps @ replicate (n - length ps) empty_param"

subsection \<open>Values\<close>

text \<open>The database types: an untyped literal for strings, and \<open>None\<close> for what cannot be bound.\<close>

fun bind_oid :: "etype \<Rightarrow> nat option" where
  "bind_oid etString = Some 0"
| "bind_oid etBool = Some 16"
| "bind_oid etFloat = Some 700"
| "bind_oid etDouble = Some 701"
| "bind_oid etInt8 = Some 21"
| "bind_oid etInt16 = Some 21"
| "bind_oid etInt32 = Some 23"
| "bind_oid etInt64 = Some 20"
| "bind_oid etUInt8 = Some 21"
| "bind_oid etUInt16 = Some 21"
| "bind_oid etUInt32 = Some 23"
| "bind_oid etUInt64 = Some 20"
| "bind_oid etTm = Some 1114"
| "bind_oid etDate = Some 1082"
| "bind_oid etDatetime = Some 1114"
| "bind_oid etDateDuration = Some 1186"
| "bind_oid etTimeDuration = Some 1186"
| "bind_oid etDateTimeDuration = Some 1186"
| "bind_oid etBitset8 = Some 1562"
| "bind_oid etBitset16 = Some 1562"
| "bind_oid etBitset32 = Some 1562"
| "bind_oid etBitset64 = Some 1562"
| "bind_oid etBitset128 = Some 1562"
| "bind_oid etBitset256 = Some 1562"
| "bind_oid etBitset512 = Some 1562"
| "bind_oid etVectorChar = Some 17"
| "bind_oid etUuid = Some 2950"
| "bind_oid etChar = Some 18"
| "bind_oid e = None"

fun bind_number :: "host \<Rightarrow> scalar \<Rightarrow> byte list option" where
  "bind_number h (Float x) = Some (mem h (bigEndian32 h x))"
| "bind_number h (Double x) = Some (mem h (bigEndian64 h x))"
| "bind_number h (Int8 x) = Some (mem h (bigEndian16 h (scast x)))"
| "bind_number h (Int16 x) = Some (mem h (bigEndian16 h x))"
| "bind_number h (Int32 x) = Some (mem h (bigEndian32 h x))"
| "bind_number h (Int64 x) = Some (mem h (bigEndian64 h x))"
| "bind_number h (UInt8 x) = Some (mem h (bigEndian16 h (ucast x)))"
| "bind_number h (UInt16 x) = Some (mem h (bigEndian16 h x))"
| "bind_number h (UInt32 x) = Some (mem h (bigEndian32 h x))"
| "bind_number h (UInt64 x) = Some (mem h (bigEndian64 h x))"
| "bind_number h s = None"

text \<open>A time in microseconds: as an integer, or, for a server without integer date-times, as a
  double of seconds, which \<open>seconds\<close> computes.\<close>

definition usecs_bytes :: "host \<Rightarrow> (int \<Rightarrow> u64) \<Rightarrow> bool \<Rightarrow> int \<Rightarrow> byte list" where
  "usecs_bytes h seconds ints t = mem h (bigEndian64 h (if ints then word_of_int t else seconds t))"

definition day_number :: "int \<Rightarrow> int \<Rightarrow> int \<Rightarrow> int" where
  "day_number y m d = date2j y m d - epoch_jdate"

text \<open>\<open>PG_Interval\<close>: the time, the days, the months.\<close>

definition interval_bytes :: "host \<Rightarrow> byte list \<Rightarrow> int \<Rightarrow> byte list" where
  "interval_bytes h time days = time @ mem h (bigEndian32 h (word_of_int (days smod 30))) @
     mem h (bigEndian32 h (word_of_int (days sdiv 30)))"

text \<open>The days of a date since the epoch; \<open>year()\<close> throws on a special date.\<close>

definition date_days :: "platform \<Rightarrow> date \<Rightarrow> int presult" where
  "date_days b d = (case date_ymd b d of None \<Rightarrow> Inl PgThrow
     | Some (y, m, k) \<Rightarrow> Inr (day_number (int y) (int m) (int k)))"

fun bind_time :: "host \<Rightarrow> platform \<Rightarrow> (int \<Rightarrow> u64) \<Rightarrow> bool \<Rightarrow> scalar \<Rightarrow> byte list presult option" where
  "bind_time h b seconds ints (Tm t) = Some (Inr (usecs_bytes h seconds ints
     (time2t (sint (tm_hour t)) (sint (tm_min t)) (sint (tm_sec t)) 0 +
      day_number (sint (tm_year t) + 1900) (sint (tm_mon t) + 1) (sint (tm_mday t)) * usecs_per_day)))"
| "bind_time h b seconds ints (Date d) = Some (case date_days b d of Inl e \<Rightarrow> Inl e
     | Inr n \<Rightarrow> Inr (mem h (bigEndian32 h (word_of_int n))))"
| "bind_time h b seconds ints (Datetime p) = Some (case date_days b (ptime_date b p) of Inl e \<Rightarrow> Inl e
     | Inr n \<Rightarrow> Inr (usecs_bytes h seconds ints (td_usecs b (ptime_tod b p) + n * usecs_per_day)))"
| "bind_time h b seconds ints (DateDuration dd) = Some (Inr (interval_bytes h (mem h (0 :: u64)) (dd_days b dd)))"
| "bind_time h b seconds ints (TimeDuration td) =
     Some (Inr (interval_bytes h (usecs_bytes h seconds ints (td_usecs b td)) 0))"
| "bind_time h b seconds ints (DateTimeDuration dd td) =
     Some (Inr (interval_bytes h (usecs_bytes h seconds ints (td_usecs b td)) (dd_days b dd)))"
| "bind_time h b seconds ints s = None"

text \<open>The bits of a bitset, eight to a byte, the first in the highest position.\<close>

definition bits_byte :: "'w::len word \<Rightarrow> nat \<Rightarrow> byte" where
  "bits_byte bs i =
     (if bit bs (i * 8 + 0) then 0x80 else 0) OR (if bit bs (i * 8 + 1) then 0x40 else 0) OR
     (if bit bs (i * 8 + 2) then 0x20 else 0) OR (if bit bs (i * 8 + 3) then 0x10 else 0) OR
     (if bit bs (i * 8 + 4) then 0x08 else 0) OR (if bit bs (i * 8 + 5) then 0x04 else 0) OR
     (if bit bs (i * 8 + 6) then 0x02 else 0) OR (if bit bs (i * 8 + 7) then 0x01 else 0)"

definition bitset2Bits :: "'w::len word \<Rightarrow> byte list" where
  "bitset2Bits bs = map (bits_byte bs) [0..<LENGTH('w) div 8]"

definition varbit_bytes :: "host \<Rightarrow> 'w::len word \<Rightarrow> byte list" where
  "varbit_bytes h bs = mem h (bigEndian32 h (of_nat LENGTH('w))) @ bitset2Bits bs"

fun bind_bits :: "host \<Rightarrow> scalar \<Rightarrow> byte list option" where
  "bind_bits h (Bitset8 x) = Some (varbit_bytes h x)"
| "bind_bits h (Bitset16 x) = Some (varbit_bytes h x)"
| "bind_bits h (Bitset32 x) = Some (varbit_bytes h x)"
| "bind_bits h (Bitset64 x) = Some (varbit_bytes h x)"
| "bind_bits h (Bitset128 x) = Some (varbit_bytes h x)"
| "bind_bits h (Bitset256 x) = Some (varbit_bytes h x)"
| "bind_bits h (Bitset512 x) = Some (varbit_bytes h x)"
| "bind_bits h s = None"

fun bind_raw :: "scalar \<Rightarrow> byte list option" where
  "bind_raw (String x) = Some (map byte_of x)"
| "bind_raw (Bool x) = Some [of_bool x]"
| "bind_raw (VectorChar x) = Some (map byte_of x)"
| "bind_raw (Uuid u) = Some u"
| "bind_raw (Char c) = Some [byte_of c]"
| "bind_raw s = None"

definition bind_bytes :: "host \<Rightarrow> platform \<Rightarrow> (int \<Rightarrow> u64) \<Rightarrow> bool \<Rightarrow> scalar \<Rightarrow> byte list presult" where
  "bind_bytes h b seconds ints s = (case bind_number h s of Some bs \<Rightarrow> Inr bs | None \<Rightarrow>
     (case bind_time h b seconds ints s of Some r \<Rightarrow> r | None \<Rightarrow>
     (case bind_bits h s of Some bs \<Rightarrow> Inr bs | None \<Rightarrow>
     (case bind_raw s of Some bs \<Rightarrow> Inr bs | None \<Rightarrow> Inr []))))"

text \<open>\<open>bindFiller\<close> gives whether the type can be bound.\<close>

definition bindFiller :: "host \<Rightarrow> platform \<Rightarrow> (int \<Rightarrow> u64) \<Rightarrow> bool \<Rightarrow> variant \<Rightarrow> param \<Rightarrow> (bool \<times> param) presult" where
  "bindFiller h b seconds ints v p =
     (let p = (if isNull v then p\<lparr>p_val := None, p_len := 0, p_own := False\<rparr> else p) in
      case bind_oid (type_of v) of None \<Rightarrow> Inr (False, p)
      | Some t \<Rightarrow> (let p = p\<lparr>p_typ := t, p_fmt := 1\<rparr> in
          case v of VVal (Scalar s) \<Rightarrow> (case bind_bytes h b seconds ints s of Inl e \<Rightarrow> Inl e
            | Inr bs \<Rightarrow>
              Inr (True, p\<lparr>p_val := Some bs, p_len := sint (word_of_nat (length bs) :: u32), p_own := True\<rparr>))
          | _ \<Rightarrow> Inr (True, p)))"

subsection \<open>All parameters of a query\<close>

fun bind_loop :: "host \<Rightarrow> platform \<Rightarrow> (int \<Rightarrow> u64) \<Rightarrow> bool \<Rightarrow> variant list \<Rightarrow> nat \<Rightarrow> param list \<Rightarrow> param list presult" where
  "bind_loop h b seconds ints [] i ps = Inr ps"
| "bind_loop h b seconds ints (v # vs) i ps =
     (if \<not> i < length ps then Inl PgAssert
      else case bindFiller h b seconds ints v (ps ! i) of Inl e \<Rightarrow> Inl e
      | Inr (ok, p) \<Rightarrow> if ok then bind_loop h b seconds ints vs (Suc i) (ps[i := p]) else Inl PgAssert)"

definition bindSeq :: "host \<Rightarrow> platform \<Rightarrow> (int \<Rightarrow> u64) \<Rightarrow> bool \<Rightarrow> variant list \<Rightarrow> param list presult" where
  "bindSeq h b seconds ints vs = bind_loop h b seconds ints vs 0 (resizeArrays (length vs) [])"

definition bindScalar :: "host \<Rightarrow> platform \<Rightarrow> (int \<Rightarrow> u64) \<Rightarrow> bool \<Rightarrow> variant \<Rightarrow> param list presult" where
  "bindScalar h b seconds ints v = (case bindFiller h b seconds ints v empty_param of Inl e \<Rightarrow> Inl e
     | Inr (ok, p) \<Rightarrow> if ok then Inr [p] else Inl PgAssert)"

text \<open>The constructor: a sequence gives one parameter per element, a map is not supported.  A null
  sequence is a reference to an object that is not there.\<close>

fun bind_data :: "host \<Rightarrow> platform \<Rightarrow> (int \<Rightarrow> u64) \<Rightarrow> bool \<Rightarrow> variant \<Rightarrow> param list presult" where
  "bind_data h b seconds ints (VVal (Seq k vs)) = bindSeq h b seconds ints vs"
| "bind_data h b seconds ints (VVal (SMap k m)) = Inl PgAssert"
| "bind_data h b seconds ints (VVal (VMap k m)) = Inl PgAssert"
| "bind_data h b seconds ints (VNull e) =
     (if e \<in> {etVectorVariant, etSetVariant, etMultisetVariant, etDequeVariant, etListVariant} then Inl PgRange
      else if e \<in> {etMapStringVariant, etMapVariantVariant, etMultimapVariantVariant, etMultimapStringVariant}
        then Inl PgAssert
      else bindScalar h b seconds ints (VNull e))"
| "bind_data h b seconds ints v = bindScalar h b seconds ints v"

subsection \<open>The parameters that are sent\<close>

text \<open>A value of a type that can be bound, with a date that has a year if it is one.\<close>

fun date_of_scalar :: "platform \<Rightarrow> scalar \<Rightarrow> date option" where
  "date_of_scalar b (Date d) = Some d"
| "date_of_scalar b (Datetime p) = Some (ptime_date b p)"
| "date_of_scalar b s = None"

definition bindable :: "platform \<Rightarrow> variant \<Rightarrow> bool" where
  "bindable b v \<longleftrightarrow> bind_oid (type_of v) \<noteq> None \<and>
     (\<forall>s. v = VVal (Scalar s) \<longrightarrow> (case date_of_scalar b s of None \<Rightarrow> True | Some d \<Rightarrow> date_ymd b d \<noteq> None))"

text \<open>What the parameter of a value is, without the arrays.\<close>

definition param_of :: "host \<Rightarrow> platform \<Rightarrow> (int \<Rightarrow> u64) \<Rightarrow> bool \<Rightarrow> variant \<Rightarrow> param" where
  "param_of h b seconds ints v = (case bindFiller h b seconds ints v empty_param of Inl e \<Rightarrow> empty_param | Inr (ok, p) \<Rightarrow> p)"

lemma bind_bytes_written:
  "(case date_of_scalar b s of None \<Rightarrow> True | Some d \<Rightarrow> date_ymd b d \<noteq> None) \<Longrightarrow> \<exists>bs. bind_bytes h b seconds ints s = Inr bs"
  by (cases s) (auto simp: bind_bytes_def date_days_def)

lemma bindFiller_empty:
  assumes "bindable b v"
  shows "bindFiller h b seconds ints v empty_param = Inr (True, param_of h b seconds ints v)"
proof (cases "\<exists>s. v = VVal (Scalar s)")
  case True
  then obtain s where v: "v = VVal (Scalar s)" by blast
  obtain bs where "bind_bytes h b seconds ints s = Inr bs"
    using assms bind_bytes_written [where b = b and s = s and h = h and seconds = seconds and ints = ints] unfolding v bindable_def by blast
  then show ?thesis using assms by (auto simp: v param_of_def bindFiller_def bindable_def Let_def)
next
  case False
  then show ?thesis using assms
    by (cases v) (auto simp: param_of_def bindFiller_def bindable_def Let_def split: payload.splits)
qed

lemma bind_loop_prefix:
  "\<forall>v\<in>set vs. bindable b v \<Longrightarrow> bind_loop h b seconds ints vs (length ps) (ps @ replicate (length vs) empty_param) =
     Inr (ps @ map (param_of h b seconds ints) vs)"
proof (induction vs arbitrary: ps)
  case (Cons v vs)
  have "bind_loop h b seconds ints (v # vs) (length ps) (ps @ replicate (length (v # vs)) empty_param) =
      bind_loop h b seconds ints vs (length (ps @ [param_of h b seconds ints v]))
        ((ps @ [param_of h b seconds ints v]) @ replicate (length vs) empty_param)"
    using Cons.prems by (simp add: nth_append bindFiller_empty)
  also have "\<dots> = Inr ((ps @ [param_of h b seconds ints v]) @ map (param_of h b seconds ints) vs)"
    using Cons.prems by (intro Cons.IH) simp
  finally show ?case by simp
qed simp

lemma bindSeq_params:
  "\<forall>v\<in>set vs. bindable b v \<Longrightarrow> bindSeq h b seconds ints vs = Inr (map (param_of h b seconds ints) vs)"
  using bind_loop_prefix [where ps = "[]"] by (simp add: bindSeq_def resizeArrays_def)

end
