(* ===== verification/PgResult.thy ===== *)
theory PgResult
  imports PgBind VariantUuid Containers VariantConvert
begin

text \<open>
  Values from a query result in PostgreSQL's binary format (pgc/impl/result.cpp).  A result is the
  names and type numbers of its columns and, for every row, the bytes of its cells, as libpq keeps
  them; a cell out of range is null.
\<close>

subsection \<open>Reading integers\<close>

text \<open>The first bytes of a value; libpq promises no more than the length of the value.\<close>

definition value_bytes :: "nat \<Rightarrow> byte list \<Rightarrow> byte list presult" where
  "value_bytes n bs = (if length bs < n then Inl PgRange else Inr (take n bs))"

definition read_be16 :: "host \<Rightarrow> byte list \<Rightarrow> u16 presult" where
  "read_be16 h bs = (case value_bytes 2 bs of Inl e \<Rightarrow> Inl e | Inr w \<Rightarrow> Inr (bigEndian16 h (of_mem h w)))"

definition read_be32 :: "host \<Rightarrow> byte list \<Rightarrow> u32 presult" where
  "read_be32 h bs = (case value_bytes 4 bs of Inl e \<Rightarrow> Inl e | Inr w \<Rightarrow> Inr (bigEndian32 h (of_mem h w)))"

definition read_be64 :: "host \<Rightarrow> byte list \<Rightarrow> u64 presult" where
  "read_be64 h bs = (case value_bytes 8 bs of Inl e \<Rightarrow> Inl e | Inr w \<Rightarrow> Inr (bigEndian64 h (of_mem h w)))"

definition map_presult :: "('a \<Rightarrow> 'b) \<Rightarrow> 'a presult \<Rightarrow> 'b presult" where
  "map_presult f r = (case r of Inl e \<Rightarrow> Inl e | Inr x \<Rightarrow> Inr (f x))"

definition bind_presult :: "'a presult \<Rightarrow> ('a \<Rightarrow> 'b presult) \<Rightarrow> 'b presult" where
  "bind_presult r f = (case r of Inl e \<Rightarrow> Inl e | Inr x \<Rightarrow> f x)"

lemma presult_simps [simp]:
  "map_presult f (Inr x) = Inr (f x)" "map_presult f (Inl e) = Inl e"
  "bind_presult (Inr x) g = g x" "bind_presult (Inl e) g = Inl e"
  by (simp_all add: map_presult_def bind_presult_def)

subsection \<open>Numeric\<close>

text \<open>The digits of a base-10000 digit, without leading zeros, in a buffer of seven characters.\<close>

function digit_text :: "int \<Rightarrow> string \<Rightarrow> string" where
  "digit_text d s = (if d = 0 then s else digit_text (d sdiv 10) (char_of (nat ((48 + d smod 10) mod 256)) # s))"
  by pat_completeness auto
termination
proof (relation "measure (\<lambda>(d, s). nat \<bar>d\<bar>)")
  fix d :: int assume "d \<noteq> 0"
  then have "\<bar>d sdiv 10\<bar> < \<bar>d\<bar>"
    by (auto simp: signed_divide_int_def abs_mult)
  then show "((d sdiv 10, s'), d, s) \<in> measure (\<lambda>(d, s). nat \<bar>d\<bar>)" for s s' :: string
    using \<open>d \<noteq> 0\<close> by simp
qed simp

declare digit_text.simps [simp del]

fun numeric_loop :: "int list \<Rightarrow> int \<Rightarrow> string \<Rightarrow> string" where
  "numeric_loop [] weight s = s"
| "numeric_loop (d # ds) weight s = (let s = s @ digit_text d [] in
     if weight \<ge> 0 then numeric_loop ds (weight - 1) (if weight = 0 then s @ ''.'' else s)
     else numeric_loop ds weight s)"

text \<open>Trailing zeros are taken away by a loop that looks for another character and does not stop at the
  begin of the buffer.\<close>

definition strip_zeros :: "string \<Rightarrow> string presult" where
  "strip_zeros s = (if list_all (\<lambda>c. c = CHR ''0'') s then Inl PgRange
     else Inr (rev (dropWhile (\<lambda>c. c = CHR ''0'') (rev s))))"

definition numeric_text :: "int list \<Rightarrow> int \<Rightarrow> bool \<Rightarrow> string presult" where
  "numeric_text ds weight neg = (let s = numeric_loop ds weight (if neg then ''-'' else '''') in
     if 4096 < length s then Inl PgRange else strip_zeros s)"

fun read_digits :: "host \<Rightarrow> nat \<Rightarrow> byte list \<Rightarrow> int list presult" where
  "read_digits h 0 bs = Inr []"
| "read_digits h (Suc n) bs = bind_presult (read_be16 h bs) (\<lambda>d.
     map_presult (\<lambda>ds. sint d # ds) (read_digits h n (drop 2 bs)))"

text \<open>\<open>PG_NumericData\<close>: the number of digits, the weight, the sign, the scale, the digits.  The sign is
  not swapped: it is only compared with zero.\<close>

definition fetch_numeric :: "host \<Rightarrow> byte list \<Rightarrow> scalar presult" where
  "fetch_numeric h bs =
     bind_presult (read_be16 h bs) (\<lambda>nd. bind_presult (read_be16 h (drop 2 bs)) (\<lambda>weight.
     bind_presult (read_be16 h (drop 4 bs)) (\<lambda>sgn. bind_presult (read_be16 h (drop 6 bs)) (\<lambda>dscale.
     bind_presult (read_digits h (nat (sint nd)) (drop 8 bs)) (\<lambda>ds.
       map_presult String (numeric_text ds (sint weight) (sgn \<noteq> 0)))))))"

subsection \<open>Times\<close>

text \<open>What the code takes from outside for dates: Boost's types of the platform, and the seconds of a double.
  \<open>greg_date\<close> is the constructor of a date; its year is an \<open>unsigned short\<close>.\<close>

definition greg_date :: "platform \<Rightarrow> int \<Rightarrow> int \<Rightarrow> int \<Rightarrow> date presult" where
  "greg_date b y m d = (case date_make b (nat (y mod 65536)) (nat (m mod 65536)) (nat (d mod 65536)) of
     None \<Rightarrow> Inl PgThrow | Some x \<Rightarrow> Inr x)"

definition duration_of :: "platform \<Rightarrow> int \<Rightarrow> tduration" where
  "duration_of b t = (case dt2time t of (hour, mnt, sec, fsec) \<Rightarrow> td_make b (time2t hour mnt sec fsec))"

definition usecs_of :: "(u64 \<Rightarrow> int) \<Rightarrow> bool \<Rightarrow> u64 \<Rightarrow> int" where
  "usecs_of usecs ints w = (if ints then sint w else usecs w)"

definition fetch_timestamp :: "host \<Rightarrow> platform \<Rightarrow> (u64 \<Rightarrow> int) \<Rightarrow> bool \<Rightarrow> byte list \<Rightarrow> scalar presult" where
  "fetch_timestamp h b usecs ints bs = bind_presult (read_be64 h bs) (\<lambda>w.
     let (time, date) = tmodulo (usecs_of usecs ints w) usecs_per_day;
         (time, date) = (if time < 0 then (time + usecs_per_day, date - 1) else (time, date));
         (y, m, d) = j2date (sint (word_of_int (date + epoch_jdate) :: u32))
     in map_presult (\<lambda>x. Datetime (ptime_make b x (duration_of b time))) (greg_date b y m d))"

definition fetch_interval :: "host \<Rightarrow> platform \<Rightarrow> (u64 \<Rightarrow> int) \<Rightarrow> bool \<Rightarrow> byte list \<Rightarrow> scalar presult" where
  "fetch_interval h b usecs ints bs = bind_presult (value_bytes 16 bs) (\<lambda>bs.
     bind_presult (read_be64 h bs) (\<lambda>time. bind_presult (read_be32 h (drop 8 bs)) (\<lambda>day.
     bind_presult (read_be32 h (drop 12 bs)) (\<lambda>month.
       Inr (DateTimeDuration (dd_make b (uint (day + month * 30))) (duration_of b (usecs_of usecs ints time)))))))"

definition fetch_date :: "host \<Rightarrow> platform \<Rightarrow> byte list \<Rightarrow> scalar presult" where
  "fetch_date h b bs = bind_presult (read_be32 h bs) (\<lambda>w.
     let (y, m, d) = j2date (sint (word_of_int (sint w + epoch_jdate) :: u32)) in map_presult Date (greg_date b y m d))"

definition fetch_time :: "host \<Rightarrow> platform \<Rightarrow> (u64 \<Rightarrow> int) \<Rightarrow> bool \<Rightarrow> byte list \<Rightarrow> scalar presult" where
  "fetch_time h b usecs ints bs = map_presult (\<lambda>w. TimeDuration (duration_of b (usecs_of usecs ints w))) (read_be64 h bs)"

subsection \<open>Bits\<close>

text \<open>The bits up to the length are set or reset from the value, those behind are reset.\<close>

definition set_to :: "'w::len word \<Rightarrow> nat \<Rightarrow> bool \<Rightarrow> 'w word" where
  "set_to w i x = (if x then set_bit i w else unset_bit i w)"

definition bits2Bitset :: "nat \<Rightarrow> byte list \<Rightarrow> 'w::len word" where
  "bits2Bitset amount bs = (let n = min amount LENGTH('w);
     w = fold (\<lambda>i w. set_to w i (bs ! (i div 8) AND drop_bit (i mod 8) 0x80 \<noteq> 0)) [0..<n] 0 in
     fold (\<lambda>i w. set_to w i False) [n..<LENGTH('w)] w)"

text \<open>A length above the range of \<open>int\<close> leaves the bitset as it was.\<close>

fun old_bitset512 :: "variant \<Rightarrow> 512 word" where
  "old_bitset512 (VVal (Scalar (Bitset512 x))) = x"
| "old_bitset512 v = 0"

definition fetch_bits :: "host \<Rightarrow> variant \<Rightarrow> byte list \<Rightarrow> scalar presult" where
  "fetch_bits h old bs = bind_presult (read_be32 h bs) (\<lambda>w. let amount = unat w; vb = drop 4 bs in
     if 2 ^ 31 \<le> amount then Inr (Bitset512 (old_bitset512 old))
     else if 8 * length vb < min amount 512 then Inl PgRange
     else Inr (if amount \<le> 8 then Bitset8 (bits2Bitset amount vb)
       else if amount \<le> 16 then Bitset16 (bits2Bitset amount vb)
       else if amount \<le> 32 then Bitset32 (bits2Bitset amount vb)
       else if amount \<le> 64 then Bitset64 (bits2Bitset amount vb)
       else if amount \<le> 128 then Bitset128 (bits2Bitset amount vb)
       else if amount \<le> 256 then Bitset256 (bits2Bitset amount vb)
       else Bitset512 (bits2Bitset amount vb)))"

subsection \<open>One cell\<close>

record pg_result =
  pg_cols :: "(string \<times> nat) list"
  pg_rows :: "byte list option list list"

definition cols :: "pg_result \<Rightarrow> nat" where
  "cols r = length (pg_cols r)"

definition rows :: "pg_result \<Rightarrow> nat" where
  "rows r = length (pg_rows r)"

definition cell_value :: "pg_result \<Rightarrow> nat \<Rightarrow> nat \<Rightarrow> byte list option" where
  "cell_value r col row = (if row < rows r \<and> col < length (pg_rows r ! row) then pg_rows r ! row ! col else None)"

text \<open>\<open>PQfnumber\<close> answers -1 for an unknown name, here as a \<open>size_t\<close>.\<close>

definition colIdx :: "pg_result \<Rightarrow> string \<Rightarrow> nat" where
  "colIdx r name = (let ns = map fst (pg_cols r); i = length (takeWhile (\<lambda>n. n \<noteq> name) ns) in
     if i < length ns then i else 2 ^ 64 - 1)"

fun oid_type :: "nat \<Rightarrow> etype" where
  "oid_type oid =
     (if oid = 21 then etInt16 else if oid = 23 then etInt32 else if oid = 20 then etInt64
      else if oid = 1700 then etString else if oid = 700 then etFloat else if oid = 701 then etDouble
      else if oid = 790 then etInt64 else if oid = 1043 \<or> oid = 1042 \<or> oid = 25 then etString
      else if oid = 17 then etVectorChar else if oid = 1114 \<or> oid = 1184 then etDatetime
      else if oid = 1186 then etDateTimeDuration else if oid = 1082 then etDate
      else if oid = 1083 \<or> oid = 1266 then etTimeDuration else if oid = 16 then etBool
      else if oid = 1560 \<or> oid = 1562 then etBitset8 else if oid = 26 then etInt32
      else if oid = 2950 then etUuid else if oid = 18 then etChar else etVoid)"

definition colType :: "pg_result \<Rightarrow> nat \<Rightarrow> etype" where
  "colType r col = (if cols r \<le> col then etUnknown else oid_type (snd (pg_cols r ! col)))"

fun old_uuid :: "platform \<Rightarrow> variant \<Rightarrow> byte list" where
  "old_uuid b (VVal (Scalar (Uuid u))) = u"
| "old_uuid b v = uuid_garbage b"

definition fetch_uuid :: "host \<Rightarrow> platform \<Rightarrow> variant \<Rightarrow> byte list \<Rightarrow> scalar presult" where
  "fetch_uuid h b old bs = Inr (Uuid (fix_fields h (take 16 bs @ drop (length bs) (old_uuid b old))))"

text \<open>The value of a cell that is not null: \<open>None\<close> for a type the code does not know.\<close>

definition fetch_value :: "host \<Rightarrow> platform \<Rightarrow> (u64 \<Rightarrow> int) \<Rightarrow> bool \<Rightarrow> nat \<Rightarrow> variant \<Rightarrow> byte list \<Rightarrow> scalar presult option" where
  "fetch_value h b usecs ints oid old bs =
     (if oid = 21 then Some (map_presult Int16 (read_be16 h bs))
      else if oid = 23 then Some (map_presult Int32 (read_be32 h bs))
      else if oid = 20 then Some (map_presult Int64 (read_be64 h bs))
      else if oid = 1700 then Some (fetch_numeric h bs)
      else if oid = 700 then Some (map_presult Float (read_be32 h bs))
      else if oid = 701 then Some (map_presult Double (read_be64 h bs))
      else if oid = 790 then Some (map_presult Int64 (read_be64 h bs))
      else if oid = 705 \<or> oid = 1043 \<or> oid = 1042 \<or> oid = 25 then Some (Inr (String (map char_at bs)))
      else if oid = 17 then Some (Inr (VectorChar (map char_at bs)))
      else if oid = 1114 \<or> oid = 1184 then Some (fetch_timestamp h b usecs ints bs)
      else if oid = 1186 then Some (fetch_interval h b usecs ints bs)
      else if oid = 1082 then Some (fetch_date h b bs)
      else if oid = 1083 \<or> oid = 1266 then Some (fetch_time h b usecs ints bs)
      else if oid = 16 then Some (map_presult (\<lambda>w. Bool (w ! 0 \<noteq> 0)) (value_bytes 1 bs))
      else if oid = 1560 \<or> oid = 1562 then Some (fetch_bits h old bs)
      else if oid = 26 then Some (map_presult UInt32 (read_be32 h bs))
      else if oid = 2950 then Some (fetch_uuid h b old bs)
      else if oid = 18 then Some (map_presult (\<lambda>w. Char (char_at (w ! 0))) (value_bytes 1 bs))
      else None)"

text \<open>\<open>fetch\<close> gives whether it succeeded and the destination after it.\<close>

definition fetch_cell :: "host \<Rightarrow> platform \<Rightarrow> (u64 \<Rightarrow> int) \<Rightarrow> bool \<Rightarrow> pg_result \<Rightarrow> nat \<Rightarrow> nat \<Rightarrow> variant \<Rightarrow> (bool \<times> variant) presult" where
  "fetch_cell h b usecs ints r col row v =
     (if cols r \<le> col then Inr (False, v)
      else case cell_value r col row of
        None \<Rightarrow> Inr (True, VNull (colType r col))
      | Some bs \<Rightarrow> (case fetch_value h b usecs ints (snd (pg_cols r ! col)) v bs of
            None \<Rightarrow> Inr (False, v)
          | Some x \<Rightarrow> map_presult (\<lambda>s. (True, VVal (Scalar s))) x))"

subsection \<open>Rows and columns\<close>

text \<open>The loops fill the elements of a container in place and stop at the first failure.\<close>

definition resize_variants :: "nat \<Rightarrow> variant list \<Rightarrow> variant list" where
  "resize_variants n vs = take n vs @ replicate (n - length vs) (VNull etVoid)"

fun fill_loop :: "('i \<Rightarrow> variant \<Rightarrow> (bool \<times> variant) presult) \<Rightarrow> 'i list \<Rightarrow> variant list \<Rightarrow> (bool \<times> variant list) presult" where
  "fill_loop f (i # is) (v # vs) = bind_presult (f i v) (\<lambda>(ok, v').
     if ok then map_presult (\<lambda>(ok', vs'). (ok', v' # vs')) (fill_loop f is vs) else Inr (False, v' # vs))"
| "fill_loop f is vs = Inr (True, vs)"

text \<open>What \<open>as<T>(true)\<close> finds in the variant: its own sequence, or a new one.\<close>

fun as_seq :: "seqkind \<Rightarrow> variant \<Rightarrow> variant list" where
  "as_seq k (VVal (Seq k' vs)) = (if k = k' then vs else [])"
| "as_seq k v = []"

definition fetchRowList :: "host \<Rightarrow> platform \<Rightarrow> (u64 \<Rightarrow> int) \<Rightarrow> bool \<Rightarrow> pg_result \<Rightarrow> nat list \<Rightarrow> nat \<Rightarrow> seqkind \<Rightarrow> variant \<Rightarrow> (bool \<times> variant) presult" where
  "fetchRowList h b usecs ints r cs row k v =
     map_presult (\<lambda>(ok, vs). (ok, VVal (Seq k vs)))
       (fill_loop (\<lambda>c v. if \<not> c < cols r then Inl PgAssert else fetch_cell h b usecs ints r c row v) cs (resize_variants (length cs) (as_seq k v)))"

definition row_range :: "pg_result \<Rightarrow> nat \<Rightarrow> nat \<Rightarrow> nat list" where
  "row_range r lo hi = [lo..<(if rows r < hi then rows r else hi)]"

definition fetchRowsList :: "host \<Rightarrow> platform \<Rightarrow> (u64 \<Rightarrow> int) \<Rightarrow> bool \<Rightarrow> pg_result \<Rightarrow> nat list \<Rightarrow> nat \<Rightarrow> nat \<Rightarrow> seqkind \<Rightarrow> variant \<Rightarrow> (bool \<times> variant) presult" where
  "fetchRowsList h b usecs ints r cs lo hi k v = (let rs = row_range r lo hi in
     if rs = [] then Inr (True, VVal (Seq k []))
     else map_presult (\<lambda>(ok, vs). (ok, VVal (Seq k vs)))
       (fill_loop (\<lambda>row. fetchRowList h b usecs ints r cs row k) rs (resize_variants (length rs) (as_seq k v))))"

definition fetchColumn :: "host \<Rightarrow> platform \<Rightarrow> (u64 \<Rightarrow> int) \<Rightarrow> bool \<Rightarrow> pg_result \<Rightarrow> nat \<Rightarrow> nat \<Rightarrow> nat \<Rightarrow> seqkind \<Rightarrow> variant \<Rightarrow> (bool \<times> variant) presult" where
  "fetchColumn h b usecs ints r col lo hi k v = (let rs = row_range r lo hi in
     if rs = [] then Inr (True, VVal (Seq k []))
     else map_presult (\<lambda>(ok, vs). (ok, VVal (Seq k vs)))
       (fill_loop (\<lambda>row. fetch_cell h b usecs ints r col row) rs (resize_variants (length rs) (as_seq k v))))"

text \<open>The container is the one the variant holds, or a deque.\<close>

fun dst_kind :: "variant \<Rightarrow> seqkind presult" where
  "dst_kind (VVal (Seq k vs)) = Inr (if k = DequeK \<or> k = ListK \<or> k = VectorK then k else DequeK)"
| "dst_kind (VNull e) = (if e = etDequeVariant \<or> e = etListVariant \<or> e = etVectorVariant then Inl PgRange else Inr DequeK)"
| "dst_kind v = Inr DequeK"

definition fetch_into :: "(seqkind \<Rightarrow> variant \<Rightarrow> (bool \<times> variant) presult) \<Rightarrow> variant \<Rightarrow> (bool \<times> variant) presult" where
  "fetch_into f v = bind_presult (dst_kind v) (\<lambda>k. f k v)"

text \<open>A row as a map from the names of the columns.\<close>

definition map_put :: "string \<Rightarrow> variant \<Rightarrow> (string \<times> variant) list \<Rightarrow> (string \<times> variant) list" where
  "map_put k v m = (let i = lower_bound string_less fst k m in
     case find_key string_less fst k m of Some _ \<Rightarrow> m[i := (k, v)] | None \<Rightarrow> insert_at i (k, v) m)"

definition map_elem :: "string \<Rightarrow> (string \<times> variant) list \<Rightarrow> variant" where
  "map_elem k m = (case find_key string_less fst k m of Some e \<Rightarrow> snd e | None \<Rightarrow> VNull etVoid)"

fun row_map_loop :: "host \<Rightarrow> platform \<Rightarrow> (u64 \<Rightarrow> int) \<Rightarrow> bool \<Rightarrow> pg_result \<Rightarrow> nat list \<Rightarrow> nat \<Rightarrow> (string \<times> variant) list \<Rightarrow> (bool \<times> (string \<times> variant) list) presult" where
  "row_map_loop h b usecs ints r [] row m = Inr (True, m)"
| "row_map_loop h b usecs ints r (c # cs) row m = (if \<not> c < cols r then Inl PgAssert else let k = fst (pg_cols r ! c) in
     bind_presult (fetch_cell h b usecs ints r c row (map_elem k m)) (\<lambda>(ok, v).
       if ok then row_map_loop h b usecs ints r cs row (map_put k v m) else Inr (False, map_put k v m)))"

definition fetchRowMap :: "host \<Rightarrow> platform \<Rightarrow> (u64 \<Rightarrow> int) \<Rightarrow> bool \<Rightarrow> pg_result \<Rightarrow> nat list \<Rightarrow> nat \<Rightarrow> variant \<Rightarrow> (bool \<times> variant) presult" where
  "fetchRowMap h b usecs ints r cs row v =
     map_presult (\<lambda>(ok, m). (ok, VVal (SMap MapK m))) (row_map_loop h b usecs ints r cs row [])"

definition fetchRowsMap :: "host \<Rightarrow> platform \<Rightarrow> (u64 \<Rightarrow> int) \<Rightarrow> bool \<Rightarrow> pg_result \<Rightarrow> nat list \<Rightarrow> nat \<Rightarrow> nat \<Rightarrow> seqkind \<Rightarrow> variant \<Rightarrow> (bool \<times> variant) presult" where
  "fetchRowsMap h b usecs ints r cs lo hi k v = (let rs = row_range r lo hi in
     if rs = [] then Inr (True, VVal (Seq k []))
     else map_presult (\<lambda>(ok, vs). (ok, VVal (Seq k vs)))
       (fill_loop (\<lambda>row. fetchRowMap h b usecs ints r cs row) rs (resize_variants (length rs) (as_seq k v))))"

text \<open>The operations of a result; without a list of columns all of them are fetched.\<close>

definition all_cols :: "pg_result \<Rightarrow> nat list" where
  "all_cols r = [0..<cols r]"

definition fetch_row_list :: "host \<Rightarrow> platform \<Rightarrow> (u64 \<Rightarrow> int) \<Rightarrow> bool \<Rightarrow> pg_result \<Rightarrow> nat \<Rightarrow> variant \<Rightarrow> (bool \<times> variant) presult" where
  "fetch_row_list h b usecs ints r row v = fetch_into (fetchRowList h b usecs ints r (all_cols r) row) v"

definition fetch_row_map :: "host \<Rightarrow> platform \<Rightarrow> (u64 \<Rightarrow> int) \<Rightarrow> bool \<Rightarrow> pg_result \<Rightarrow> nat \<Rightarrow> variant \<Rightarrow> (bool \<times> variant) presult" where
  "fetch_row_map h b usecs ints r row v = fetchRowMap h b usecs ints r (all_cols r) row v"

definition fetch_rows_list :: "host \<Rightarrow> platform \<Rightarrow> (u64 \<Rightarrow> int) \<Rightarrow> bool \<Rightarrow> pg_result \<Rightarrow> nat \<Rightarrow> nat \<Rightarrow> variant \<Rightarrow> (bool \<times> variant) presult" where
  "fetch_rows_list h b usecs ints r lo hi v = fetch_into (fetchRowsList h b usecs ints r (all_cols r) lo hi) v"

definition fetch_rows_map :: "host \<Rightarrow> platform \<Rightarrow> (u64 \<Rightarrow> int) \<Rightarrow> bool \<Rightarrow> pg_result \<Rightarrow> nat \<Rightarrow> nat \<Rightarrow> variant \<Rightarrow> (bool \<times> variant) presult" where
  "fetch_rows_map h b usecs ints r lo hi v = fetch_into (fetchRowsMap h b usecs ints r (all_cols r) lo hi) v"

definition fetch_row_list_of :: "host \<Rightarrow> platform \<Rightarrow> (u64 \<Rightarrow> int) \<Rightarrow> bool \<Rightarrow> pg_result \<Rightarrow> nat list \<Rightarrow> nat \<Rightarrow> variant \<Rightarrow> (bool \<times> variant) presult" where
  "fetch_row_list_of h b usecs ints r cs row v = fetch_into (fetchRowList h b usecs ints r cs row) v"

definition fetch_row_map_of :: "host \<Rightarrow> platform \<Rightarrow> (u64 \<Rightarrow> int) \<Rightarrow> bool \<Rightarrow> pg_result \<Rightarrow> nat list \<Rightarrow> nat \<Rightarrow> variant \<Rightarrow> (bool \<times> variant) presult" where
  "fetch_row_map_of h b usecs ints r cs row v = fetchRowMap h b usecs ints r cs row v"

definition fetch_rows_list_of :: "host \<Rightarrow> platform \<Rightarrow> (u64 \<Rightarrow> int) \<Rightarrow> bool \<Rightarrow> pg_result \<Rightarrow> nat list \<Rightarrow> nat \<Rightarrow> nat \<Rightarrow> variant \<Rightarrow> (bool \<times> variant) presult" where
  "fetch_rows_list_of h b usecs ints r cs lo hi v = fetch_into (fetchRowsList h b usecs ints r cs lo hi) v"

definition fetch_rows_map_of :: "host \<Rightarrow> platform \<Rightarrow> (u64 \<Rightarrow> int) \<Rightarrow> bool \<Rightarrow> pg_result \<Rightarrow> nat list \<Rightarrow> nat \<Rightarrow> nat \<Rightarrow> variant \<Rightarrow> (bool \<times> variant) presult" where
  "fetch_rows_map_of h b usecs ints r cs lo hi v = fetch_into (fetchRowsMap h b usecs ints r cs lo hi) v"

definition fetch_column :: "host \<Rightarrow> platform \<Rightarrow> (u64 \<Rightarrow> int) \<Rightarrow> bool \<Rightarrow> pg_result \<Rightarrow> nat \<Rightarrow> nat \<Rightarrow> nat \<Rightarrow> variant \<Rightarrow> (bool \<times> variant) presult" where
  "fetch_column h b usecs ints r col lo hi v = fetch_into (fetchColumn h b usecs ints r col lo hi) v"

text \<open>A cell converted; \<open>fetchString\<close> makes a string from the null pointer when it fails.\<close>

definition fetch_as ::
  "nat \<Rightarrow> convlib \<Rightarrow> platform \<Rightarrow> host \<Rightarrow> (nat \<Rightarrow> variant option) \<Rightarrow> (u64 \<Rightarrow> int) \<Rightarrow> bool \<Rightarrow> pg_result \<Rightarrow> etype \<Rightarrow>
     payload \<Rightarrow> payload presult \<Rightarrow> nat \<Rightarrow> nat \<Rightarrow> payload cresult presult" where
  "fetch_as n L b h H usecs ints r e init fail col row =
     bind_presult (fetch_cell h b usecs ints r col row (VVal init)) (\<lambda>(ok, v).
       if ok then Inr (to_value n L b h H e v) else map_presult Inr fail)"

definition fetchInt32 ::
  "nat \<Rightarrow> convlib \<Rightarrow> platform \<Rightarrow> host \<Rightarrow> (nat \<Rightarrow> variant option) \<Rightarrow> (u64 \<Rightarrow> int) \<Rightarrow> bool \<Rightarrow> pg_result \<Rightarrow> nat \<Rightarrow> nat \<Rightarrow>
     payload cresult presult" where
  "fetchInt32 n L b h H usecs ints r = fetch_as n L b h H usecs ints r etInt32 (Scalar (Int32 0)) (Inr (Scalar (Int32 0)))"

definition fetchUInt32 ::
  "nat \<Rightarrow> convlib \<Rightarrow> platform \<Rightarrow> host \<Rightarrow> (nat \<Rightarrow> variant option) \<Rightarrow> (u64 \<Rightarrow> int) \<Rightarrow> bool \<Rightarrow> pg_result \<Rightarrow> nat \<Rightarrow> nat \<Rightarrow>
     payload cresult presult" where
  "fetchUInt32 n L b h H usecs ints r = fetch_as n L b h H usecs ints r etUInt32 (Scalar (UInt32 0)) (Inr (Scalar (UInt32 0)))"

definition fetchString ::
  "nat \<Rightarrow> convlib \<Rightarrow> platform \<Rightarrow> host \<Rightarrow> (nat \<Rightarrow> variant option) \<Rightarrow> (u64 \<Rightarrow> int) \<Rightarrow> bool \<Rightarrow> pg_result \<Rightarrow> nat \<Rightarrow> nat \<Rightarrow>
     payload cresult presult" where
  "fetchString n L b h H usecs ints r = fetch_as n L b h H usecs ints r etString (Scalar (String [])) (Inl PgRange)"

end
