(* ===== verification/PgRoundtrip.thy ===== *)
theory PgRoundtrip
  imports PgResult
begin

text \<open>
  What a value becomes when it is sent as a parameter and read back from a column of the type it was
  bound with, and what the rows of a result become.
\<close>

subsection \<open>Bits\<close>

lemma bit_set_to: "bit (set_to (w :: 'w::len word) i x) j \<longleftrightarrow> j < LENGTH('w) \<and> (if i = j then x else bit w j)"
  by (auto simp: set_to_def bit_simps dest: bit_imp_le_length)

lemma bit_fold_set_to:
  "distinct is \<Longrightarrow> bit (fold (\<lambda>i w. set_to w i (f i)) is (w :: 'w::len word)) j \<longleftrightarrow>
     j < LENGTH('w) \<and> (if j \<in> set is then f j else bit w j)"
  by (induction "is" arbitrary: w) (auto simp: bit_set_to dest: bit_imp_le_length)

lemma less_8_cases:
  assumes "(j :: nat) < 8"
  obtains "j = 0" | "j = 1" | "j = 2" | "j = 3" | "j = 4" | "j = 5" | "j = 6" | "j = 7"
  using assms by linarith

lemma byte_test:
  assumes "j < 8"
  shows "(w :: byte) AND drop_bit j 0x80 \<noteq> 0 \<longleftrightarrow> bit w (7 - j)"
proof -
  have "drop_bit j (0x80 :: byte) = 2 ^ (7 - j)"
    using assms by (cases rule: less_8_cases) simp_all
  then show ?thesis by (simp add: and_exp_eq_0_iff_not_bit)
qed

lemma bit_if_exp: "k < 8 \<Longrightarrow> bit (if p then 2 ^ k else (0 :: byte)) n = (p \<and> n = k)"
  by (auto simp: bit_exp_iff)

lemma byte_powers:
  "(2 :: byte) ^ 7 = 0x80" "(2 :: byte) ^ 6 = 0x40" "(2 :: byte) ^ 5 = 0x20" "(2 :: byte) ^ 4 = 0x10" "(2 :: byte) ^ 3 = 0x08" "(2 :: byte) ^ 2 = 0x04" "(2 :: byte) ^ 1 = 0x02" "(2 :: byte) ^ 0 = 0x01"
  by simp_all

lemma bit_if_byte:
  "bit (if p then 0x80 else (0 :: byte)) n = (p \<and> n = 7)"
  "bit (if p then 0x40 else (0 :: byte)) n = (p \<and> n = 6)"
  "bit (if p then 0x20 else (0 :: byte)) n = (p \<and> n = 5)"
  "bit (if p then 0x10 else (0 :: byte)) n = (p \<and> n = 4)"
  "bit (if p then 0x08 else (0 :: byte)) n = (p \<and> n = 3)"
  "bit (if p then 0x04 else (0 :: byte)) n = (p \<and> n = 2)"
  "bit (if p then 0x02 else (0 :: byte)) n = (p \<and> n = 1)"
  "bit (if p then 0x01 else (0 :: byte)) n = (p \<and> n = 0)"
  by (rule bit_if_exp [of 7, unfolded byte_powers], simp,
    rule bit_if_exp [of 6, unfolded byte_powers], simp,
    rule bit_if_exp [of 5, unfolded byte_powers], simp,
    rule bit_if_exp [of 4, unfolded byte_powers], simp,
    rule bit_if_exp [of 3, unfolded byte_powers], simp,
    rule bit_if_exp [of 2, unfolded byte_powers], simp,
    rule bit_if_exp [of 1, unfolded byte_powers], simp,
    rule bit_if_exp [of 0, unfolded byte_powers], simp)

lemma bit_bits_byte:
  assumes "j < 8"
  shows "bit (bits_byte (bs :: 'w::len word) i) (7 - j) \<longleftrightarrow> bit bs (i * 8 + j)"
  using assms by (cases rule: less_8_cases) (simp_all only: bits_byte_def bit_or_iff bit_if_byte, simp_all)

lemma bits2Bitset_bitset2Bits:
  assumes "LENGTH('w::len) mod 8 = 0"
  shows "bits2Bitset LENGTH('w) (bitset2Bits (bs :: 'w word) @ rest) = bs"
proof (rule bit_word_eqI)
  fix n assume n: "n < LENGTH('w)"
  then have k: "n div 8 < LENGTH('w) div 8" using assms by auto
  have "(bits_byte bs (n div 8) AND drop_bit (n mod 8) 0x80 \<noteq> 0) = bit bs n"
    by (simp add: byte_test bit_bits_byte)
  then show "bit (bits2Bitset LENGTH('w) (bitset2Bits bs @ rest) :: 'w word) n = bit bs n"
    using n k by (simp add: bits2Bitset_def Let_def bit_fold_set_to nth_append bitset2Bits_def)
qed

lemma length_bitset2Bits [simp]: "length (bitset2Bits (bs :: 'w::len word)) = LENGTH('w) div 8"
  by (simp add: bitset2Bits_def)

subsection \<open>Scalars\<close>

lemma bigEndian_twice [simp]:
  "bigEndian16 h (bigEndian16 h v) = v" "bigEndian32 h (bigEndian32 h w) = w" "bigEndian64 h (bigEndian64 h x) = x"
  by (cases h; simp add: bigEndian16_def bigEndian32_def bigEndian64_def call_of_le le_bytes_of_le of_le_le_bytes)+

lemma read_bound [simp]:
  "read_be16 h (mem h (bigEndian16 h v) @ bs) = Inr v"
  "read_be32 h (mem h (bigEndian32 h w) @ bs) = Inr w"
  "read_be64 h (mem h (bigEndian64 h x) @ bs) = Inr x"
  by (simp_all add: read_be16_def read_be32_def read_be64_def value_bytes_def of_mem_mem)

lemma read_bound_end [simp]:
  "read_be16 h (mem h (bigEndian16 h v)) = Inr v"
  "read_be32 h (mem h (bigEndian32 h w)) = Inr w"
  "read_be64 h (mem h (bigEndian64 h x)) = Inr x"
  using read_bound [where bs = "[]"] by simp_all

text \<open>What the database returns for a scalar from a column of the scalar's type: the smallest integers widened,
  unsigned integers as signed ones, a string as text.  The numbers are the database's for \<open>text\<close>, \<open>float4\<close>,
  \<open>float8\<close>, \<open>int2\<close>, \<open>int4\<close>, \<open>int8\<close>, \<open>bytea\<close>, \<open>bool\<close>, \<open>char\<close> and \<open>varbit\<close>.\<close>

fun returned :: "scalar \<Rightarrow> (nat \<times> scalar) option" where
  "returned (String x) = Some (25, String x)"
| "returned (Float x) = Some (700, Float x)"
| "returned (Double x) = Some (701, Double x)"
| "returned (Int8 x) = Some (21, Int16 (scast x))"
| "returned (Int16 x) = Some (21, Int16 x)"
| "returned (Int32 x) = Some (23, Int32 x)"
| "returned (Int64 x) = Some (20, Int64 x)"
| "returned (UInt8 x) = Some (21, Int16 (ucast x))"
| "returned (UInt16 x) = Some (21, Int16 x)"
| "returned (UInt32 x) = Some (23, Int32 x)"
| "returned (UInt64 x) = Some (20, Int64 x)"
| "returned (VectorChar x) = Some (17, VectorChar x)"
| "returned (Bool x) = Some (16, Bool x)"
| "returned (Char x) = Some (18, Char x)"
| "returned (Bitset8 x) = Some (1562, Bitset8 x)"
| "returned (Bitset16 x) = Some (1562, Bitset16 x)"
| "returned (Bitset32 x) = Some (1562, Bitset32 x)"
| "returned (Bitset64 x) = Some (1562, Bitset64 x)"
| "returned (Bitset128 x) = Some (1562, Bitset128 x)"
| "returned (Bitset256 x) = Some (1562, Bitset256 x)"
| "returned (Bitset512 x) = Some (1562, Bitset512 x)"
| "returned s = None"

lemma bind_bytes_simps:
  "bind_bytes h b seconds ints (String x) = Inr (map byte_of x)"
  "bind_bytes h b seconds ints (Bool y) = Inr [of_bool y]"
  "bind_bytes h b seconds ints (Char c) = Inr [byte_of c]"
  "bind_bytes h b seconds ints (VectorChar x) = Inr (map byte_of x)"
  "bind_bytes h b seconds ints (Uuid u) = Inr u"
  by (simp_all add: bind_bytes_def)

lemma fetch_bits_bound:
  "fetch_bits h old (varbit_bytes h x8) = Inr (Bitset8 x8)"
  "fetch_bits h old (varbit_bytes h x16) = Inr (Bitset16 x16)"
  "fetch_bits h old (varbit_bytes h x32) = Inr (Bitset32 x32)"
  "fetch_bits h old (varbit_bytes h x64) = Inr (Bitset64 x64)"
  "fetch_bits h old (varbit_bytes h x128) = Inr (Bitset128 x128)"
  "fetch_bits h old (varbit_bytes h x256) = Inr (Bitset256 x256)"
  "fetch_bits h old (varbit_bytes h x512) = Inr (Bitset512 x512)"
  using bits2Bitset_bitset2Bits [where rest = "[]" and bs = x8] bits2Bitset_bitset2Bits [where rest = "[]" and bs = x16]
    bits2Bitset_bitset2Bits [where rest = "[]" and bs = x32] bits2Bitset_bitset2Bits [where rest = "[]" and bs = x64]
    bits2Bitset_bitset2Bits [where rest = "[]" and bs = x128] bits2Bitset_bitset2Bits [where rest = "[]" and bs = x256]
    bits2Bitset_bitset2Bits [where rest = "[]" and bs = x512]
  by (simp_all add: fetch_bits_def varbit_bytes_def Let_def)

lemma bind_oid_returned: "returned s = Some (oid, s') \<Longrightarrow> bind_oid (scalar_type s) = Some (if oid = 25 then 0 else oid)"
  by (cases s) auto

lemma bind_bytes_returned:
  assumes "returned s = Some (oid, s')"
  shows "\<exists>bs. bind_bytes h b seconds ints' s = Inr bs \<and> fetch_value h b usecs ints oid old bs = Some (Inr s')"
proof -
  have "date_of_scalar b s = None" using assms by (cases s) auto
  then obtain bs where bs: "bind_bytes h b seconds ints' s = Inr bs"
    using bind_bytes_written [where b = b and s = s and h = h and seconds = seconds and ints = ints'] by auto
  then have "fetch_value h b usecs ints oid old bs = Some (Inr s')"
    using assms by (cases s; clarsimp simp: bind_bytes_def; simp add: fetch_value_def fetch_bits_bound value_bytes_def)
  with bs show ?thesis by blast
qed

lemma sint_length: "n < 2 ^ 31 \<Longrightarrow> sint (word_of_nat n :: u32) = int n"
  by (simp add: signed_of_nat signed_take_bit_int_eq_self)

text \<open>
  C24: a number, a string, a byte vector, a boolean, a character or a bitset is bound as a binary
  parameter of the database's type for it (a string as an untyped literal, 0, that the server takes as
  text) with all its bytes, and those bytes are read back from a column of that type with the same
  value, on either byte order; the narrowest integers come back widened and the unsigned ones as the
  signed number of the same bits.
\<close>

theorem stored_value_returns:
  assumes "returned s = Some (oid, s')"
  shows "\<exists>q bs. bindFiller h b seconds ints' (VVal (Scalar s)) p = Inr (True, q) \<and>
    p_typ q = (if oid = 25 then 0 else oid) \<and> p_fmt q = 1 \<and> p_val q = Some bs \<and>
    (length bs < 2 ^ 31 \<longrightarrow> p_len q = int (length bs)) \<and>
    fetch_value h b usecs ints oid old bs = Some (Inr s')"
proof -
  obtain bs where bs: "bind_bytes h b seconds ints' s = Inr bs" "fetch_value h b usecs ints oid old bs = Some (Inr s')"
    using bind_bytes_returned [OF assms] by blast
  let ?q = "p\<lparr>p_typ := if oid = 25 then 0 else oid, p_fmt := 1, p_val := Some bs,
    p_len := sint (word_of_nat (length bs) :: u32), p_own := True\<rparr>"
  have "bindFiller h b seconds ints' (VVal (Scalar s)) p = Inr (True, ?q)"
    by (simp add: bindFiller_def Let_def bind_oid_returned [OF assms] bs(1))
  then show ?thesis using bs(2) sint_length [of "length bs"] by (intro exI [of _ ?q] exI [of _ bs]) simp
qed

theorem stored_value_returns_witness:
  "\<exists>q bs. bindFiller BigHost sample_platform (\<lambda>t. 0) True (VVal (Scalar (Int8 (- 3)))) empty_param = Inr (True, q) \<and>
     p_typ q = 21 \<and> p_val q = Some bs \<and>
     fetch_value BigHost sample_platform (\<lambda>w. 0) True 21 (VNull etVoid) bs = Some (Inr (Int16 (- 3)))"
  using stored_value_returns [of "Int8 (- 3)" 21 "Int16 (- 3)" BigHost sample_platform "\<lambda>t. 0" True empty_param
      "\<lambda>w. 0" True "VNull etVoid"] by auto

subsection \<open>Dates and times\<close>

lemma date2j_bounds:
  assumes "valid_date y m d" "0 \<le> y" "y < 10000"
  shows "- 32044 \<le> date2j y m d" "date2j y m d < 6000000"
proof -
  define y' where "y' = (if m > 2 then y + 4800 else y + 4799)"
  have y: "-4799 \<le> y" "y' < 14800" using assms unfolding y'_def by auto
  note dj = date2j_march [OF assms(1) y(1) y'_def refl refl refl refl refl refl]
  define q c a e doy where "q = y' div 400" "c = y' mod 400 div 100" "a = y' mod 100 div 4" "e = y' mod 4"
    and "doy = 7834 * (if 2 < m then m + 1 else m + 13) div 256 + d - 123"
  note defs = this [symmetric]
  have q: "q \<le> 36" using y(2) defs(1) by auto
  have ok: "march_ok q c a e doy" using dj(2) unfolding defs .
  have eq: "date2j y m d + 32044 = march_day q c a e doy" using dj(1) unfolding defs .
  have r: "0 \<le> q" "0 \<le> c" "c \<le> 3" "0 \<le> a" "a \<le> 24" "0 \<le> e" "e \<le> 3" "0 \<le> doy" "doy \<le> 365"
    using ok unfolding march_ok_def by blast+
  show "- 32044 \<le> date2j y m d" "date2j y m d < 6000000"
    using eq q r unfolding march_day_def by linarith+
qed

lemma sint_small: "- (2 ^ 31) \<le> t \<Longrightarrow> t < 2 ^ 31 \<Longrightarrow> sint (word_of_int t :: u32) = t"
  by (simp add: sint_sbintrunc' signed_take_bit_int_eq_self)

lemma sint_small64: "- (2 ^ 63) \<le> t \<Longrightarrow> t < 2 ^ 63 \<Longrightarrow> sint (word_of_int t :: u64) = t"
  by (simp add: sint_sbintrunc' signed_take_bit_int_eq_self)

text \<open>Boost makes the date of a year, a month and a day that it gave.\<close>

definition date_law :: "platform \<Rightarrow> date \<Rightarrow> bool" where
  "date_law b d \<longleftrightarrow> (case date_ymd b d of None \<Rightarrow> False | Some (y, m, k) \<Rightarrow>
     date_make b y m k = Some d \<and> valid_date (int y) (int m) (int k) \<and> y < 10000)"

lemma greg_date_law:
  assumes "date_law b d"
  obtains y m k where "date_days b d = Inr (day_number (int y) (int m) (int k))"
    "greg_date b (int y) (int m) (int k) = Inr d" "valid_date (int y) (int m) (int k)" "y < 10000"
proof -
  obtain y m k where ymd: "date_ymd b d = Some (y, m, k)" and mk: "date_make b y m k = Some d"
    and v: "valid_date (int y) (int m) (int k)" "y < 10000"
    using assms unfolding date_law_def by (auto split: option.splits)
  have "k \<le> 31" "m \<le> 12" using v unfolding valid_date_def month_days_def by (auto split: if_splits)
  then have "greg_date b (int y) (int m) (int k) = Inr d"
    using mk v(2) unfolding greg_date_def by (simp add: nat_mod_as_int)
  then show thesis using that [of y m k] v ymd by (simp add: date_days_def)
qed

text \<open>A time of day, and a time point as the number of its day and its time.\<close>

definition tod_law :: "platform \<Rightarrow> tduration \<Rightarrow> bool" where
  "tod_law b t \<longleftrightarrow> td_make b (td_usecs b t) = t"

lemma duration_of_law: "tod_law b t \<Longrightarrow> \<bar>td_usecs b t\<bar> < 2 ^ 62 \<Longrightarrow> duration_of b (td_usecs b t) = t"
  using dt2time_time2t unfolding duration_of_def tod_law_def by (auto split: prod.splits)

text \<open>The division truncates; the correction makes it the quotient and the remainder of a day.\<close>

lemma day_split:
  assumes "0 \<le> t" "t < usecs_per_day"
  shows "(case tmodulo (t + k * usecs_per_day) usecs_per_day of (time, date) \<Rightarrow>
     if time < 0 then (time + usecs_per_day, date - 1) else (time, date)) = (t, k)"
proof -
  obtain r q where rq: "tmodulo (t + k * usecs_per_day) usecs_per_day = (r, q)" by fastforce
  have "0 < usecs_per_day" by (simp add: usecs_per_day_def)
  note d = tmodulo_day [OF rq this]
  have eq: "t - r = (q - k) * usecs_per_day" using d(1) by (simp add: algebra_simps)
  have b: "- usecs_per_day < t - r" "t - r < 2 * usecs_per_day" using d(2) assms by auto
  have "- 1 < q - k" "q - k < 2"
    using b unfolding eq using mult_less_cancel_right [of "-1" usecs_per_day "q - k"]
      mult_less_cancel_right [of "q - k" usecs_per_day 2] by (auto simp: usecs_per_day_def)
  then consider "q = k" | "q = k + 1" by linarith
  then show ?thesis
  proof cases
    case 1
    then have "r = t" using eq by simp
    then show ?thesis using rq 1 assms by simp
  next
    case 2
    then have "r = t - usecs_per_day" using eq by simp
    then show ?thesis using rq 2 assms by simp
  qed
qed

text \<open>
  A date that is bound is read back as the same date: the Julian day number, relative to the
  epoch of the database, loses nothing for the years of the Gregorian calendar of the date library.
\<close>

theorem date_returns:
  assumes "date_law b d"
  shows "\<exists>bs. bind_bytes h b seconds ints' (Date d) = Inr bs \<and>
    fetch_value h b usecs ints 1082 old bs = Some (Inr (Date d))"
proof -
  obtain y m k where ymd: "date_days b d = Inr (day_number (int y) (int m) (int k))"
    and l: "greg_date b (int y) (int m) (int k) = Inr d" "valid_date (int y) (int m) (int k)" "y < 10000"
    using greg_date_law [OF assms] .
  note db = date2j_bounds [OF l(2)]
  have "sint (word_of_int (day_number (int y) (int m) (int k)) :: u32) = day_number (int y) (int m) (int k)"
    using db l(3) by (intro sint_small) (auto simp: day_number_def epoch_jdate_def)
  moreover have "sint (word_of_int (date2j (int y) (int m) (int k)) :: u32) = date2j (int y) (int m) (int k)"
    using db l(3) by (intro sint_small) auto
  ultimately show ?thesis
    using l j2date_date2j [OF l(2)]
    by (simp add: fetch_value_def bind_bytes_def ymd fetch_date_def day_number_def)
qed

theorem date_returns_witness:
  "\<exists>bs. bind_bytes LittleHost sample_platform (\<lambda>t. 0) True (Date 20240229) = Inr bs \<and>
     fetch_value LittleHost sample_platform (\<lambda>w. 0) True 1082 (VNull etVoid) bs = Some (Inr (Date 20240229))"
  by (rule date_returns) (simp add: date_law_def sample_platform_def valid_date_def month_days_def leap_year_def)

text \<open>
  C32: a time point that is bound is read back as the same time point, before and after the epoch
  of the database, when both sides use integer date-times.
\<close>

theorem timestamp_returns:
  assumes "date_law b (ptime_date b p)" "tod_law b (ptime_tod b p)" "ptime_make b (ptime_date b p) (ptime_tod b p) = p"
    and "0 \<le> td_usecs b (ptime_tod b p)" "td_usecs b (ptime_tod b p) < usecs_per_day"
  shows "\<exists>bs. bind_bytes h b seconds True (Datetime p) = Inr bs \<and>
    fetch_value h b usecs True 1114 old bs = Some (Inr (Datetime p))"
proof -
  obtain y m k where ymd: "date_days b (ptime_date b p) = Inr (day_number (int y) (int m) (int k))"
    and l: "greg_date b (int y) (int m) (int k) = Inr (ptime_date b p)" "valid_date (int y) (int m) (int k)" "y < 10000"
    using greg_date_law [OF assms(1)] .
  note db = date2j_bounds [OF l(2)]
  let ?n = "day_number (int y) (int m) (int k)"
  let ?t = "td_usecs b (ptime_tod b p)"
  have "\<bar>?n\<bar> < 10000000" using db l(3) unfolding day_number_def epoch_jdate_def by auto
  then have "\<bar>?n * usecs_per_day\<bar> < 2 ^ 62" unfolding usecs_per_day_def abs_mult by simp
  then have w: "sint (word_of_int (?t + ?n * usecs_per_day) :: u64) = ?t + ?n * usecs_per_day"
    using assms(4,5) by (intro sint_small64) (auto simp: usecs_per_day_def)
  have d: "sint (word_of_int (?n + epoch_jdate) :: u32) = date2j (int y) (int m) (int k)"
    using db l(3) unfolding day_number_def by (simp add: sint_small)
  obtain time date where td: "tmodulo (?t + ?n * usecs_per_day) usecs_per_day = (time, date)" by fastforce
  have tod: "duration_of b ?t = ptime_tod b p"
    using assms(4,5) by (intro duration_of_law [OF assms(2)]) (simp add: usecs_per_day_def)
  have s: "(if time < 0 then (time + usecs_per_day, date - 1) else (time, date)) = (?t, ?n)"
    using day_split [OF assms(4,5), of ?n] unfolding td by simp
  show ?thesis
    using l(1) l(3) j2date_date2j [OF l(2)] assms(3)
    by (simp add: fetch_value_def bind_bytes_def ymd fetch_timestamp_def usecs_of_def usecs_bytes_def
        w td s d tod del: of_int_add of_int_mult)
qed


theorem timestamp_returns_witness:
  "let p = 19991231 * 86400000000 + 86399999999 in
   \<exists>bs. bind_bytes LittleHost sample_platform (\<lambda>t. 0) True (Datetime p) = Inr bs \<and>
     fetch_value LittleHost sample_platform (\<lambda>w. 0) True 1114 (VNull etVoid) bs = Some (Inr (Datetime p))"
  unfolding Let_def
  by (rule timestamp_returns)
    (simp_all add: date_law_def tod_law_def sample_platform_def valid_date_def month_days_def usecs_per_day_def)

text \<open>
  A UUID is sent byte by byte but read with its first three fields swapped by
  \<open>fixEndian\<close>, so a stored UUID comes back as another one on a little-endian machine.
\<close>

theorem uuid_returns_swapped:
  assumes "length u = 16" "length (old_uuid b old) = 16"
  shows "bind_bytes h b seconds ints' (Uuid u) = Inr u \<and>
    fetch_value h b usecs ints 2950 old u = Some (Inr (Uuid (fix_fields h u)))"
  using assms by (simp add: fetch_value_def fetch_uuid_def bind_bytes_simps)

theorem uuid_returns_swapped_witness:
  "fetch_value LittleHost sample_platform (\<lambda>w. 0) True 2950 (VNull etVoid) (map word_of_nat [0..<16]) =
   Some (Inr (Uuid [3, 2, 1, 0, 5, 4, 7, 6, 8, 9, 10, 11, 12, 13, 14, 15]))"
proof -
  have "fix_fields LittleHost (map word_of_nat [0..<16]) = [3, 2, 1, 0, 5, 4, 7, 6, 8, 9, 10, 11, 12, 13, 14, 15]"
    by (simp add: upt_rec fix_fields_def call_of_le le_bytes_of_le del: of_le.simps)
  then show ?thesis
    using uuid_returns_swapped [of "map word_of_nat [0..<16]" sample_platform "VNull etVoid" LittleHost "\<lambda>t. 0" True "\<lambda>w. 0" True]
    by (simp add: sample_platform_def)
qed

lemma drop_mem [simp]:
  "drop 4 (mem h (w :: u32) @ bs) = bs" "drop 8 (mem h (x :: u64) @ bs) = bs" "drop 12 (mem h x @ mem h w @ bs) = bs"
  by (simp_all add: drop_append)

text \<open>
  A number of days that is bound is read back modulo \<open>2^32\<close>: the months and days of
  the interval are combined with unsigned 32-bit arithmetic, so a negative duration comes back as a huge
  positive one.
\<close>

theorem interval_returns:
  "\<exists>bs. bind_bytes h b seconds ints' (DateDuration dd) = Inr bs \<and> fetch_value h b usecs ints 1186 old bs =
     Some (Inr (DateTimeDuration (dd_make b (dd_days b dd mod 2 ^ 32)) (duration_of b (if ints then 0 else usecs 0))))"
proof -
  let ?n = "dd_days b dd"
  have z: "mem h (0 :: u64) = mem h (bigEndian64 h 0)"
    by (cases h) (simp_all add: bigEndian64_def call64_def Let_def le_bytes_def upt_rec)
  have "?n = ?n smod 30 + ?n sdiv 30 * 30" by (simp add: minus_sdiv_mult_eq_smod [symmetric])
  then have "word_of_int (?n smod 30) + word_of_int (?n sdiv 30) * 30 = (word_of_int ?n :: u32)"
    by (metis of_int_add of_int_mult of_int_numeral)
  then have d: "uint (word_of_int (?n smod 30) + word_of_int (?n sdiv 30) * 30 :: u32) = ?n mod 2 ^ 32"
    by (simp add: uint_word_of_int_eq take_bit_eq_mod)
  have bs: "bind_bytes h b seconds ints' (DateDuration dd) = Inr (mem h (bigEndian64 h 0) @
      mem h (bigEndian32 h (word_of_int (?n smod 30))) @ mem h (bigEndian32 h (word_of_int (?n sdiv 30))))"
    by (simp add: bind_bytes_def interval_bytes_def z)
  show ?thesis
    by (simp add: bs fetch_value_def fetch_interval_def value_bytes_def d usecs_of_def)
qed

lemma presult_InrE:
  assumes "map_presult f r = Inr y"
  obtains x where "r = Inr x" "y = f x"
  using assms by (auto simp: map_presult_def split: sum.splits)

lemma bind_presult_InrE:
  assumes "bind_presult r f = Inr y"
  obtains x where "r = Inr x" "f x = Inr y"
  using assms by (auto simp: bind_presult_def split: sum.splits)

lemma fetch_types:
  "fetch_numeric h bs = Inr s \<Longrightarrow> scalar_type s = etString"
  "fetch_timestamp h b usecs ints bs = Inr s \<Longrightarrow> scalar_type s = etDatetime"
  "fetch_interval h b usecs ints bs = Inr s \<Longrightarrow> scalar_type s = etDateTimeDuration"
  "fetch_date h b bs = Inr s \<Longrightarrow> scalar_type s = etDate"
  "fetch_time h b usecs ints bs = Inr s \<Longrightarrow> scalar_type s = etTimeDuration"
  "fetch_uuid h b old bs = Inr s \<Longrightarrow> scalar_type s = etUuid"
  "fetch_bits h old bs = Inr s \<Longrightarrow> scalar_type s \<in>
     {etBitset8, etBitset16, etBitset32, etBitset64, etBitset128, etBitset256, etBitset512}"
        apply (auto simp: fetch_numeric_def elim!: bind_presult_InrE presult_InrE)[1]
       apply (auto simp: fetch_timestamp_def elim!: bind_presult_InrE presult_InrE split: prod.splits)[1]
      apply (auto simp: fetch_interval_def elim!: bind_presult_InrE presult_InrE)[1]
     apply (auto simp: fetch_date_def elim!: bind_presult_InrE presult_InrE split: prod.splits)[1]
    apply (auto simp: fetch_time_def elim!: presult_InrE)[1]
   apply (auto simp: fetch_uuid_def)[1]
  apply (auto simp: fetch_bits_def Let_def elim!: bind_presult_InrE split: if_splits)[1]
  done

lemma option_if_SomeE:
  assumes "(if c then Some x else y) = Some z"
  obtains "c" "x = z" | "\<not> c" "y = Some z"
  using assms by (auto split: if_splits)

text \<open>
  C26: a value that is read has the type that \<open>colType\<close> promises for its column, except for
  object ids (unsigned, promised signed), untyped values (promised void) and bit strings (promised as
  \<open>Bitset8\<close> but as wide as needed).
\<close>

theorem fetched_type:
  assumes "fetch_value h b usecs ints oid old bs = Some (Inr s)"
  shows "scalar_type s = oid_type oid \<or> oid = 26 \<and> scalar_type s = etUInt32 \<or> oid = 705 \<and> scalar_type s = etString \<or>
    oid \<in> {1560, 1562} \<and> scalar_type s \<in> {etBitset8, etBitset16, etBitset32, etBitset64, etBitset128, etBitset256, etBitset512}"
  using assms unfolding fetch_value_def
  by (elim option_if_SomeE) (auto dest: fetch_types elim!: presult_InrE)

theorem fetched_type_witness:
  "fetch_value LittleHost sample_platform (\<lambda>w. 0) True 26 (VNull etVoid)
       (mem LittleHost (bigEndian32 LittleHost 258)) = Some (Inr (UInt32 258)) \<and>
   oid_type 26 = etInt32 \<and> scalar_type (UInt32 258) = etUInt32"
proof -
  have v: "fetch_value LittleHost sample_platform (\<lambda>w. 0) True 26 (VNull etVoid)
       (mem LittleHost (bigEndian32 LittleHost 258)) = Some (Inr (UInt32 258))"
    using read_bound_end(2) [of LittleHost 258] by (simp add: fetch_value_def)
  show ?thesis using v fetched_type [OF v] by simp
qed

subsection \<open>Numeric values\<close>

text \<open>What the server sends for a positive number: its digits in base 10000, the weight of the first, the scale.\<close>

definition numeric_value :: "host \<Rightarrow> u16 list \<Rightarrow> u16 \<Rightarrow> byte list" where
  "numeric_value h ds weight = mem h (bigEndian16 h (word_of_nat (length ds))) @ mem h (bigEndian16 h weight) @
     mem h (bigEndian16 h 0) @ mem h (bigEndian16 h 0) @ concat (map (\<lambda>d. mem h (bigEndian16 h d)) ds)"

lemma drop_mem16 [simp]:
  "drop 2 (mem h (a :: u16) @ bs) = bs" "drop 4 (mem h (a :: u16) @ mem h (c :: u16) @ bs) = bs"
  "drop 6 (mem h (a :: u16) @ mem h (c :: u16) @ mem h (d :: u16) @ bs) = bs"
  "drop 8 (mem h (a :: u16) @ mem h (c :: u16) @ mem h (d :: u16) @ mem h (e :: u16) @ bs) = bs"
  by simp_all

lemma read_digits_value:
  "read_digits h (length ds) (concat (map (\<lambda>d. mem h (bigEndian16 h d)) ds)) = Inr (map sint ds)"
  by (induction ds) simp_all

lemma fetch_numeric_value:
  assumes "length ds < 2 ^ 15"
  shows "fetch_numeric h (numeric_value h ds weight) = map_presult String (numeric_text (map sint ds) (sint weight) False)"
proof -
  have "sint (word_of_nat (length ds) :: u16) = int (length ds)"
    using assms by (simp add: signed_of_nat signed_take_bit_int_eq_self)
  then show ?thesis
    by (simp add: fetch_numeric_def numeric_value_def read_digits_value)
qed

text \<open>
  The digits of a numeric value in base 10000 are printed without their leading zeros
  and without the zero digits the server omits, so 10005, 15, 70000 and 0.0007 are read as \<open>15.\<close>,
  \<open>15.\<close>, \<open>7\<close> and \<open>7\<close>; the number zero reads before the buffer.
\<close>

theorem numeric_digits_lost:
  "fetch_value h b usecs ints 1700 old (numeric_value h [1, 5] 1) = Some (Inr (String ''15.'')) \<and>
   fetch_value h b usecs ints 1700 old (numeric_value h [15] 0) = Some (Inr (String ''15.'')) \<and>
   fetch_value h b usecs ints 1700 old (numeric_value h [7] 1) = Some (Inr (String ''7'')) \<and>
   fetch_value h b usecs ints 1700 old (numeric_value h [7] (- 1)) = Some (Inr (String ''7'')) \<and>
   fetch_value h b usecs ints 1700 old (numeric_value h [] 0) = Some (Inl PgRange)"
  by (simp add: fetch_value_def fetch_numeric_value numeric_text_def strip_zeros_def digit_text.simps signed_divide_int_def
      signed_modulo_int_def char_of_def bit_0)

subsection \<open>Rows\<close>

lemma length_resize_variants [simp]: "length (resize_variants n vs) = n"
  by (simp add: resize_variants_def)

lemma fill_loop_all:
  "length vs = length is \<Longrightarrow> \<forall>i\<in>set is. \<forall>v. f i v = Inr (True, w i) \<Longrightarrow> fill_loop f is vs = Inr (True, map w is)"
proof (induction "is" arbitrary: vs)
  case (Cons i "is")
  then show ?case by (cases vs) simp_all
qed simp

lemma fetchRowList_all:
  assumes "\<forall>c\<in>set cs. c < cols r" "\<forall>c\<in>set cs. \<forall>v. fetch_cell h b usecs ints r c row v = Inr (True, w c)"
  shows "fetchRowList h b usecs ints r cs row k v = Inr (True, VVal (Seq k (map w cs)))"
  unfolding fetchRowList_def using assms by (subst fill_loop_all [where w = w]) simp_all

text \<open>
  C25: where every requested cell can be read, with a value that does not depend on the place it is
  read into, the rows from \<open>lo\<close> up to \<open>hi\<close> are clipped to the rows of the result and
  \<open>fetchRowsList\<close> gives one sequence per row with the value of every requested column in order.
  The sequences are of the kind of the variant that is filled, and a deque for a variant that holds
  no sequence; a null sequence is refused.
\<close>

theorem fetched_rows:
  assumes "\<forall>c\<in>set cs. c < cols r"
    and "\<forall>row\<in>set (row_range r lo hi). \<forall>c\<in>set cs. \<forall>v. fetch_cell h b usecs ints r c row v = Inr (True, w c row)"
  shows "fetchRowsList h b usecs ints r cs lo hi k v =
      Inr (True, VVal (Seq k (map (\<lambda>row. VVal (Seq k (map (\<lambda>c. w c row) cs))) [lo..<min hi (rows r)]))) \<and>
    fetch_rows_list_of h b usecs ints r cs lo hi v = (case v of
        VVal (Seq k' vs) \<Rightarrow> (let d = if k' = ListK \<or> k' = VectorK then k' else DequeK in
          Inr (True, VVal (Seq d (map (\<lambda>row. VVal (Seq d (map (\<lambda>c. w c row) cs))) [lo..<min hi (rows r)]))))
      | VNull e \<Rightarrow> if e = etDequeVariant \<or> e = etListVariant \<or> e = etVectorVariant then Inl PgRange
          else Inr (True, VVal (Seq DequeK (map (\<lambda>row. VVal (Seq DequeK (map (\<lambda>c. w c row) cs))) [lo..<min hi (rows r)])))
      | _ \<Rightarrow> Inr (True, VVal (Seq DequeK (map (\<lambda>row. VVal (Seq DequeK (map (\<lambda>c. w c row) cs))) [lo..<min hi (rows r)]))))"
proof -
  have rr: "row_range r lo hi = [lo..<min hi (rows r)]" by (auto simp: row_range_def min_def)
  have list: "fetchRowsList h b usecs ints r cs lo hi k v =
      Inr (True, VVal (Seq k (map (\<lambda>row. VVal (Seq k (map (\<lambda>c. w c row) cs))) [lo..<min hi (rows r)])))" for k v
  proof (cases "row_range r lo hi = []")
    case False
    then show ?thesis using assms unfolding fetchRowsList_def Let_def rr
      by (subst fill_loop_all [where w = "\<lambda>row. VVal (Seq k (map (\<lambda>c. w c row) cs))"]) (simp_all add: fetchRowList_all)
  qed (simp add: fetchRowsList_def rr)
  then show ?thesis
    by (cases v rule: dst_kind.cases)
      (simp_all add: fetch_rows_list_of_def fetch_into_def bind_presult_def Let_def)
qed

definition sample_result :: pg_result where
  "sample_result = \<lparr>pg_cols = [(''name'', 25), (''flag'', 16)],
     pg_rows = [[Some [104], Some [1]], [Some [105], None], [Some [106, 107], Some [0]]]\<rparr>"

theorem fetched_rows_witness:
  "fetchRowsList LittleHost sample_platform (\<lambda>w. 0) True sample_result [0, 1] 1 9 DequeK (VNull etVoid) =
     Inr (True, VVal (Seq DequeK
       [VVal (Seq DequeK [VVal (Scalar (String ''i'')), VNull etBool]),
        VVal (Seq DequeK [VVal (Scalar (String ''jk'')), VVal (Scalar (Bool False))])]))"
proof -
  let ?w = "\<lambda>c row. if c = 0 then VVal (Scalar (String (if row = 1 then ''i'' else ''jk'')))
      else if row = 1 then VNull etBool else VVal (Scalar (Bool False))"
  have c: "\<forall>c\<in>set [0, 1]. c < cols sample_result" by (simp add: sample_result_def cols_def)
  have rr: "row_range sample_result 1 9 = [1, 2]" by (simp add: row_range_def sample_result_def rows_def upt_rec)
  have f: "\<forall>row\<in>set (row_range sample_result 1 9). \<forall>c\<in>set [0, 1]. \<forall>v.
      fetch_cell LittleHost sample_platform (\<lambda>w. 0) True sample_result c row v = Inr (True, ?w c row)"
    unfolding rr by (simp add: fetch_cell_def sample_result_def cols_def rows_def cell_value_def colType_def
        fetch_value_def value_bytes_def char_at_def char_of_def bit_0)
  show ?thesis
    using fetched_rows [OF c f, of DequeK "VNull etVoid"] by (simp add: sample_result_def rows_def upt_rec)
qed

text \<open>\<open>fetch\<close> fails, and leaves the destination, for a column out of range or a value of an unknown type.\<close>

definition known_oids :: "nat set" where
  "known_oids = {21, 23, 20, 1700, 700, 701, 790, 705, 1043, 1042, 25, 17, 1114, 1184, 1186, 1082, 1083, 1266, 16,
     1560, 1562, 26, 2950, 18}"

text \<open>
  Reading a cell fails exactly for a column out of range or for a value, not null, of a type
  the client does not know, and leaves the destination as it was.
\<close>

theorem fetch_fails_iff:
  "fetch_cell h b usecs ints r col row v = Inr (False, v') \<longleftrightarrow>
     v' = v \<and> (cols r \<le> col \<or> cell_value r col row \<noteq> None \<and> snd (pg_cols r ! col) \<notin> known_oids)"
proof -
  have known: "fetch_value h b usecs ints oid old bs = None \<longleftrightarrow> oid \<notin> known_oids" for oid old bs
    by (simp add: fetch_value_def known_oids_def)
  show ?thesis
  proof (cases "cols r \<le> col \<or> cell_value r col row = None")
    case False
    then obtain bs where "cell_value r col row = Some bs" by blast
    note c = False this
    show ?thesis
    proof (cases "fetch_value h b usecs ints (snd (pg_cols r ! col)) v bs")
      case None
      with known have "snd (pg_cols r ! col) \<notin> known_oids" by blast
      with None c show ?thesis by (auto simp: fetch_cell_def)
    next
      case (Some x)
      then have "fetch_value h b usecs ints (snd (pg_cols r ! col)) v bs \<noteq> None" by simp
      then have "snd (pg_cols r ! col) \<in> known_oids" by (simp only: known not_not)
      with Some c show ?thesis by (auto simp: fetch_cell_def elim: presult_InrE)
    qed
  qed (auto simp: fetch_cell_def)
qed


end
