(* ===== verification/PgDb.thy ===== *)
theory PgDb
  imports Prelude "HOL-Library.Multiset"
begin

text \<open>
  The pool of connections (pgc/impl/db.cpp).  Every section under the mutex \<open>_mtx\<close> is one step; the
  fibers the code spawns are counted until they run.  A connection is its address, by which
  \<open>std::set\<close> orders; what \<open>libpq\<close> answers and when a connection breaks is free.
\<close>

subsection \<open>State\<close>

type_synonym conn = nat

text \<open>The three sets in the order of their elements, the futures that wait, the limit and the timer; the
  spawned \<open>balanceConnections\<close> and \<open>makeConnection\<close>; the answers to the futures and the calls of the two
  callbacks so far; the connections whose status is not OK and the closed ones.\<close>

record db =
  max_conns :: nat
  starting :: "conn list"
  ready_conns :: "conn list"
  working :: "conn list"
  waiters :: "nat list"
  rebalance :: bool
  balances :: nat
  makes :: nat
  answers :: "(nat \<times> conn option) list"
  notices :: "(bool \<times> nat) list"
  broken :: "conn set"
  closed :: "conn list"

definition new_db :: "nat \<Rightarrow> db" where
  "new_db n = \<lparr>max_conns = n, starting = [], ready_conns = [], working = [], waiters = [], rebalance = False,
     balances = 0, makes = 0, answers = [], notices = [], broken = {}, closed = []\<rparr>"

subsection \<open>Operations\<close>

definition lost_notice :: "db \<Rightarrow> db" where
  "lost_notice d = d\<lparr>notices := notices d @ [(False, length (ready_conns d) + length (working d))]\<rparr>"

fun close_extra :: "conn list \<Rightarrow> db \<Rightarrow> db" where
  "close_extra [] d = d\<lparr>ready_conns := []\<rparr>"
| "close_extra (c # cs) d =
     (if length (c # cs) + length (working d) + length (starting d) > max_conns d
      then close_extra cs (lost_notice (d\<lparr>ready_conns := cs, closed := c # closed d\<rparr>))
      else d\<lparr>ready_conns := c # cs\<rparr>)"

fun serve :: "nat list \<Rightarrow> db \<Rightarrow> db" where
  "serve [] d = d\<lparr>waiters := []\<rparr>"
| "serve (w # ws) d = (case ready_conns d of
     c # cs \<Rightarrow> serve ws (d\<lparr>answers := answers d @ [(w, Some c)], working := insort c (working d), ready_conns := cs\<rparr>)
   | [] \<Rightarrow>
       if max_conns d = 0 then d\<lparr>answers := answers d @ map (\<lambda>w. (w, None)) (w # ws), waiters := []\<rparr>
       else d\<lparr>waiters := w # ws,
         makes := (if starting d = [] \<and> length (ready_conns d) + length (working d) < max_conns d
                   then Suc (makes d) else makes d)\<rparr>)"

definition balanceConnections :: "db \<Rightarrow> db" where
  "balanceConnections d = (let d = close_extra (ready_conns d) d in serve (waiters d) d)"

text \<open>\<open>started\<close> is the answer of \<open>PQconnectStart\<close>: the new connection.\<close>

definition makeConnection :: "conn option \<Rightarrow> db \<Rightarrow> db" where
  "makeConnection started d =
     (if starting d \<noteq> [] then d
      else case started of Some c \<Rightarrow> d\<lparr>starting := insort c (starting d)\<rparr> | None \<Rightarrow> d\<lparr>rebalance := True\<rparr>)"

definition spawn_balance :: "db \<Rightarrow> db" where
  "spawn_balance d = d\<lparr>balances := Suc (balances d)\<rparr>"

definition poll_ok :: "conn \<Rightarrow> db \<Rightarrow> db" where
  "poll_ok c d = (let d = d\<lparr>starting := remove1 c (starting d), ready_conns := insort c (ready_conns d)\<rparr> in
     spawn_balance (d\<lparr>notices := notices d @ [(True, length (ready_conns d) + length (working d))]\<rparr>))"

definition poll_bad :: "conn \<Rightarrow> db \<Rightarrow> db" where
  "poll_bad c d = (let d = d\<lparr>starting := remove1 c (starting d)\<rparr> in
     if max_conns d = 0 then spawn_balance d else d\<lparr>rebalance := True\<rparr>)"

text \<open>\<open>onRebalanceTimer\<close> and \<open>unwork\<close> go on with \<open>balanceConnections\<close> under the mutex taken again.\<close>

definition onRebalanceTimer :: "db \<Rightarrow> db" where
  "onRebalanceTimer d = spawn_balance (d\<lparr>rebalance := False\<rparr>)"

definition unwork :: "conn \<Rightarrow> db \<Rightarrow> db" where
  "unwork c d =
     (if c \<notin> broken d
      then spawn_balance (d\<lparr>working := remove1 c (working d), ready_conns := insort c (ready_conns d)\<rparr>)
      else spawn_balance (lost_notice (d\<lparr>working := remove1 c (working d)\<rparr>)))"

definition allocConnection :: "nat \<Rightarrow> db \<Rightarrow> db" where
  "allocConnection w d = (case ready_conns d of
     c # cs \<Rightarrow> if c \<notin> broken d
       then d\<lparr>answers := answers d @ [(w, Some c)], working := insort c (working d), ready_conns := cs\<rparr>
       else spawn_balance (d\<lparr>waiters := waiters d @ [w]\<rparr>)
   | [] \<Rightarrow> spawn_balance (d\<lparr>waiters := waiters d @ [w]\<rparr>))"

text \<open>\<open>reset\<close>: the beginning, and one round of its loop, which ends when no connection is left.\<close>

definition reset_begin :: "db \<Rightarrow> db" where
  "reset_begin d = (if max_conns d = 0 then d
     else d\<lparr>max_conns := 0, waiters := [], answers := answers d @ map (\<lambda>w. (w, None)) (waiters d)\<rparr>)"

definition reset_round :: "db \<Rightarrow> bool \<times> db" where
  "reset_round d = (let d = d\<lparr>closed := rev (ready_conns d) @ closed d, ready_conns := []\<rparr> in
     (starting d = [] \<and> working d = [], d))"

subsection \<open>Steps\<close>

definition known_conns :: "db \<Rightarrow> conn list" where
  "known_conns d = starting d @ ready_conns d @ working d @ closed d"

definition known_futures :: "db \<Rightarrow> nat list" where
  "known_futures d = waiters d @ map fst (answers d)"

inductive dstep :: "db \<Rightarrow> db \<Rightarrow> bool" where
  d_balance: "0 < balances d \<Longrightarrow> dstep d (balanceConnections (d\<lparr>balances := balances d - 1\<rparr>))"
| d_make: "0 < makes d \<Longrightarrow> (\<And>c. started = Some c \<Longrightarrow> c \<notin> set (known_conns d)) \<Longrightarrow>
    dstep d (makeConnection started (d\<lparr>makes := makes d - 1\<rparr>))"
| d_ok: "c \<in> set (starting d) \<Longrightarrow> dstep d (poll_ok c d)"
| d_bad: "c \<in> set (starting d) \<Longrightarrow> dstep d (poll_bad c d)"
| d_timer: "rebalance d \<Longrightarrow> dstep d (onRebalanceTimer d)"
| d_unwork: "c \<in> set (working d) \<Longrightarrow> dstep d (unwork c d)"
| d_alloc: "w \<notin> set (known_futures d) \<Longrightarrow> dstep d (allocConnection w d)"
| d_break: "dstep d (d\<lparr>broken := insert c (broken d)\<rparr>)"
| d_reset: "dstep d (reset_begin d)"
| d_round: "max_conns d = 0 \<Longrightarrow> dstep d (snd (reset_round d))"

inductive db_reach :: "nat \<Rightarrow> db \<Rightarrow> bool" for n where
  db_new: "db_reach n (new_db n)"
| db_step: "db_reach n d \<Longrightarrow> dstep d e \<Longrightarrow> db_reach n e"

subsection \<open>What every operation keeps\<close>

text \<open>A connection is in one place only, a future too.\<close>

definition db_ok :: "db \<Rightarrow> bool" where
  "db_ok d \<longleftrightarrow> distinct (known_conns d) \<and> distinct (known_futures d) \<and>
     sorted (starting d) \<and> sorted (ready_conns d) \<and> sorted (working d) \<and> length (starting d) \<le> 1"

text \<open>Somebody will look at the futures that wait.\<close>

definition attended :: "db \<Rightarrow> bool" where
  "attended d \<longleftrightarrow> waiters d = [] \<or> 0 < balances d \<or> 0 < makes d \<or> starting d \<noteq> [] \<or> rebalance d \<or> working d \<noteq> []"

lemmas db_defs = db_ok_def known_conns_def known_futures_def

lemma lost_notice_simps [simp]:
  "starting (lost_notice d) = starting d" "ready_conns (lost_notice d) = ready_conns d"
  "working (lost_notice d) = working d" "waiters (lost_notice d) = waiters d" "answers (lost_notice d) = answers d"
  "closed (lost_notice d) = closed d" "max_conns (lost_notice d) = max_conns d" "balances (lost_notice d) = balances d"
  "makes (lost_notice d) = makes d" "rebalance (lost_notice d) = rebalance d" "broken (lost_notice d) = broken d"
  by (simp_all add: lost_notice_def)

lemma close_extra_simps [simp]:
  "starting (close_extra cs d) = starting d" "working (close_extra cs d) = working d"
  "waiters (close_extra cs d) = waiters d" "answers (close_extra cs d) = answers d"
  "max_conns (close_extra cs d) = max_conns d" "balances (close_extra cs d) = balances d"
  "makes (close_extra cs d) = makes d" "rebalance (close_extra cs d) = rebalance d" "broken (close_extra cs d) = broken d"
  by (induction cs d rule: close_extra.induct) simp_all

lemma close_extra_ok:
  "db_ok (d\<lparr>ready_conns := cs\<rparr>) \<Longrightarrow> db_ok (close_extra cs d)"
proof (induction cs d rule: close_extra.induct)
  case (2 c cs d)
  then have "db_ok ((lost_notice (d\<lparr>ready_conns := cs, closed := c # closed d\<rparr>))\<lparr>ready_conns := cs\<rparr>)"
    by (auto simp: db_defs)
  with 2 show ?case by simp
qed simp

lemma close_extra_limit:
  "ready_conns (close_extra cs d) = [] \<or>
     length (ready_conns (close_extra cs d)) + length (working d) + length (starting d) \<le> max_conns d"
  by (induction cs d rule: close_extra.induct) auto

lemma serve_ok:
  "db_ok (d\<lparr>waiters := ws\<rparr>) \<Longrightarrow> db_ok (serve ws d)"
proof (induction ws d rule: serve.induct)
  case (2 w ws d)
  show ?case
  proof (cases "ready_conns d")
    case Nil
    with "2.prems" show ?thesis by (auto simp: db_defs comp_def)
  next
    case (Cons c cs)
    let ?e = "d\<lparr>answers := answers d @ [(w, Some c)], working := insort c (working d), ready_conns := cs\<rparr>"
    have "db_ok (?e\<lparr>waiters := ws\<rparr>)"
      using "2.prems" Cons by (auto simp: db_defs distinct_insort sorted_insort set_insort_key)
    with "2.IH" [OF Cons] Cons show ?thesis by simp
  qed
qed simp

lemma serve_attended:
  "attended (serve ws d)"
proof (induction ws d rule: serve.induct)
  case (2 w ws d)
  then show ?case by (cases "ready_conns d") (auto simp: attended_def)
qed (simp add: attended_def)

lemma balance_ok: "db_ok d \<Longrightarrow> db_ok (balanceConnections d)"
  unfolding balanceConnections_def Let_def
  by (rule serve_ok) (use close_extra_ok [of "ready_conns d" d] in \<open>simp add: db_defs\<close>)

lemma balance_attended: "attended (balanceConnections d)"
  unfolding balanceConnections_def Let_def by (rule serve_attended)

lemma makeConnection_keeps:
  assumes "db_ok d" "attended d" "0 < makes d" "\<And>c. started = Some c \<Longrightarrow> c \<notin> set (known_conns d)"
  shows "db_ok (makeConnection started (d\<lparr>makes := makes d - 1\<rparr>))"
    and "attended (makeConnection started (d\<lparr>makes := makes d - 1\<rparr>))"
  using assms by (auto simp: makeConnection_def db_defs attended_def split: option.splits)

lemma spawn_balance_keeps:
  "db_ok d \<Longrightarrow> db_ok (spawn_balance d)" "attended (spawn_balance d)"
  by (auto simp: spawn_balance_def db_defs attended_def)

lemma poll_ok_keeps:
  assumes "db_ok d" "c \<in> set (starting d)"
  shows "db_ok (poll_ok c d)" "attended (poll_ok c d)"
  using assms by (auto simp: poll_ok_def Let_def db_defs spawn_balance_def attended_def distinct_insort set_insort_key
      sorted_insort sorted_remove1 length_remove1)

lemma poll_bad_keeps:
  assumes "db_ok d" "c \<in> set (starting d)"
  shows "db_ok (poll_bad c d)" "attended (poll_bad c d)"
  using assms by (auto simp: poll_bad_def Let_def db_defs spawn_balance_def attended_def sorted_remove1 length_remove1
      dest: notin_set_remove1)

lemma unwork_keeps:
  assumes "db_ok d" "c \<in> set (working d)"
  shows "db_ok (unwork c d)" "attended (unwork c d)"
  using assms by (auto simp: unwork_def Let_def db_defs spawn_balance_def attended_def distinct_insort set_insort_key
      sorted_insort sorted_remove1 dest: notin_set_remove1)

lemma allocConnection_keeps:
  assumes "db_ok d" "attended d" "w \<notin> set (known_futures d)"
  shows "db_ok (allocConnection w d)" "attended (allocConnection w d)"
  using assms by (auto simp: allocConnection_def db_defs spawn_balance_def attended_def distinct_insort set_insort_key
      sorted_insort split: list.splits)

lemma reset_keeps:
  assumes "db_ok d" "attended d"
  shows "db_ok (reset_begin d)" "attended (reset_begin d)" "db_ok (snd (reset_round d))" "attended (snd (reset_round d))"
  using assms by (auto simp: reset_begin_def reset_round_def Let_def db_defs attended_def comp_def)

lemma dstep_keeps:
  assumes "dstep d e" "db_ok d" "attended d"
  shows "db_ok e \<and> attended e"
  using assms
proof cases
  case d_balance
  then show ?thesis using assms(2) balance_ok balance_attended by (auto simp: db_defs)
next
  case (d_make started)
  then show ?thesis using makeConnection_keeps [OF assms(2,3)] by auto
next
  case d_timer
  then show ?thesis using assms(2) spawn_balance_keeps unfolding onRebalanceTimer_def by (auto simp: db_defs)
next
  case (d_break c)
  then show ?thesis using assms(2,3) by (auto simp: db_defs attended_def)
qed (use assms poll_ok_keeps poll_bad_keeps unwork_keeps allocConnection_keeps reset_keeps in auto)

lemma db_reach_ok: "db_reach n d \<Longrightarrow> db_ok d \<and> attended d"
proof (induction rule: db_reach.induct)
  case db_new
  show ?case by (simp add: db_defs attended_def new_db_def)
next
  case (db_step d e)
  then show ?case using dstep_keeps by blast
qed

text \<open>Single steps for concrete runs.\<close>

definition balance_now :: "db \<Rightarrow> db" where
  "balance_now d = balanceConnections (d\<lparr>balances := balances d - 1\<rparr>)"

definition make_now :: "conn \<Rightarrow> db \<Rightarrow> db" where
  "make_now c d = makeConnection (Some c) (d\<lparr>makes := makes d - 1\<rparr>)"

lemma reach_moves:
  "db_reach n d \<Longrightarrow> 0 < balances d \<Longrightarrow> db_reach n (balance_now d)"
  "db_reach n d \<Longrightarrow> 0 < makes d \<Longrightarrow> c \<notin> set (known_conns d) \<Longrightarrow> db_reach n (make_now c d)"
  "db_reach n d \<Longrightarrow> c \<in> set (starting d) \<Longrightarrow> db_reach n (poll_ok c d)"
  "db_reach n d \<Longrightarrow> w \<notin> set (known_futures d) \<Longrightarrow> db_reach n (allocConnection w d)"
  using db_step d_balance d_make [where started = "Some c"] d_ok d_alloc
  unfolding balance_now_def make_now_def by blast+

subsection \<open>Properties\<close>

text \<open>
  C16: in every reachable state of the pool at most one connection is being connected, and a connection is
  in one place only, being connected, ready, with one user or closed, so no connection is handed to a second user before the first gave it back; and
  every future that was asked for waits or was answered, once.
\<close>

theorem pool_connection_once:
  assumes "db_reach n d"
  shows "distinct (starting d @ ready_conns d @ working d @ closed d) \<and> distinct (waiters d @ map fst (answers d)) \<and>
    length (starting d) \<le> 1"
  using db_reach_ok [OF assms] by (simp add: db_defs)

theorem pool_connection_once_witness:
  "let d = balance_now (poll_ok 7 (make_now 7 (balance_now (allocConnection 0 (new_db 1))))) in
     working d = [7] \<and> answers d = [(0, Some 7)] \<and>
     distinct (starting d @ ready_conns d @ working d @ closed d) \<and> distinct (waiters d @ map fst (answers d)) \<and>
     length (starting d) \<le> 1"
proof -
  note run = allocConnection_def spawn_balance_def balance_now_def balanceConnections_def make_now_def
    makeConnection_def poll_ok_def new_db_def known_conns_def known_futures_def Let_def
  have "db_reach 1 (balance_now (poll_ok 7 (make_now 7 (balance_now (allocConnection 0 (new_db 1))))))"
    by (rule reach_moves(1), rule reach_moves(3), rule reach_moves(2), rule reach_moves(1), rule reach_moves(4), rule db_new)
      (simp_all add: run)
  from pool_connection_once [OF this] show ?thesis unfolding Let_def by (simp add: run)
qed

text \<open>
  C17: whenever somebody waits for a connection, something will look after it: a spawned balancing, a
  spawned or running connecting, the timer, or a user who has to give a connection back.
\<close>

theorem waiter_attended:
  assumes "db_reach n d" "waiters d \<noteq> []"
  shows "0 < balances d \<or> 0 < makes d \<or> starting d \<noteq> [] \<or> rebalance d \<or> working d \<noteq> []"
  using db_reach_ok [OF assms(1)] assms(2) by (simp add: attended_def)

theorem waiter_attended_witness:
  "let d = allocConnection 0 (new_db 1) in waiters d = [0] \<and>
     (0 < balances d \<or> 0 < makes d \<or> starting d \<noteq> [] \<or> rebalance d \<or> working d \<noteq> [])"
proof -
  have "db_reach 1 (allocConnection 0 (new_db 1))"
    by (rule reach_moves(4), rule db_new) (simp add: new_db_def known_futures_def)
  moreover have "waiters (allocConnection 0 (new_db 1)) = [0]"
    by (simp add: allocConnection_def new_db_def spawn_balance_def)
  ultimately show ?thesis using waiter_attended [of 1 "allocConnection 0 (new_db 1)"] unfolding Let_def by simp
qed

text \<open>Balancing serves the waiters while there are ready connections, and nobody waits at a limit of zero.\<close>

lemma serve_served:
  "waiters (serve ws d) = [] \<or> ready_conns (serve ws d) = [] \<and> max_conns d \<noteq> 0"
  by (induction ws d rule: serve.induct) (auto split: list.splits)

text \<open>
  The limit is not kept.  With a limit of one, two futures that are asked for before any balancing
  has run make the pool spawn two connections; the second looks only whether another is being connected, so
  after the first is connected and handed out the second is too: two connections are at work.
\<close>

theorem pool_limit_exceeded:
  "\<exists>d. db_reach 1 d \<and> max_conns d = 1 \<and> length (working d) = 2"
proof -
  note run = allocConnection_def spawn_balance_def balance_now_def balanceConnections_def make_now_def
    makeConnection_def poll_ok_def new_db_def known_conns_def known_futures_def Let_def
  let ?d1 = "balance_now (balance_now (allocConnection 1 (allocConnection 0 (new_db 1))))"
  have "db_reach 1 (balance_now (allocConnection 1 (allocConnection 0 (new_db 1))))"
    by (rule reach_moves(1), rule reach_moves(4), rule reach_moves(4), rule db_new) (simp_all add: run)
  then have d1: "db_reach 1 ?d1" by (rule reach_moves(1)) (simp add: run)
  have "db_reach 1 (poll_ok 7 (make_now 7 ?d1))"
    by (rule reach_moves(3), rule reach_moves(2), rule d1) (simp_all add: run)
  then have d2: "db_reach 1 (balance_now (poll_ok 7 (make_now 7 ?d1)))" (is "db_reach 1 ?d2")
    by (rule reach_moves(1)) (simp add: run)
  have d3: "db_reach 1 (poll_ok 8 (make_now 8 ?d2))"
    by (rule reach_moves(3), rule reach_moves(2), rule d2) (simp_all add: run)
  have "db_reach 1 (allocConnection 2 (poll_ok 8 (make_now 8 ?d2)))"
    by (rule reach_moves(4), rule d3) (simp add: run)
  moreover have "max_conns (allocConnection 2 (poll_ok 8 (make_now 8 ?d2))) = 1 \<and>
      length (working (allocConnection 2 (poll_ok 8 (make_now 8 ?d2)))) = 2"
    by (simp add: run)
  ultimately show ?thesis by blast
qed

end
