(* ===== verification/PgQueue.thy ===== *)
theory PgQueue
  imports Prelude
begin

text \<open>
  The queue of requests of a connection (\<open>pushRequest\<close> and \<open>processRequest_f\<close> of
  pgc/impl/connectionHolder.cpp).  Every section under \<open>_mtx\<close>, the taking and giving back of
  \<open>_mtxProcess\<close> and the run of a request are single steps of any number of fibers; a request is known by
  its number, and its run gives its future one result.
\<close>

subsection \<open>State\<close>

text \<open>The fiber in \<open>processRequest_f\<close> that holds \<open>_mtxProcess\<close>: none, in the loop, with a request, or
  leaving.\<close>

datatype phase = Idle | Looping | Running nat | Leaving

record holder =
  requests :: "nat list"
  spawned :: nat
  phase :: phase
  results :: "(nat \<times> bool) list"
  lost :: bool
  pushed :: "nat list"

definition new_holder :: holder where
  "new_holder = \<lparr>requests = [], spawned = 0, phase = Idle, results = [], lost = False, pushed = []\<rparr>"

subsection \<open>Operations\<close>

definition pushRequest :: "nat \<Rightarrow> holder \<Rightarrow> holder" where
  "pushRequest r q = (let q = q\<lparr>requests := requests q @ [r], pushed := pushed q @ [r]\<rparr> in
     if length (requests q) < 2 then q\<lparr>spawned := Suc (spawned q)\<rparr> else q)"

definition lock_process :: "holder \<Rightarrow> holder" where
  "lock_process q = q\<lparr>spawned := spawned q - 1, phase := Looping\<rparr>"

text \<open>The section under \<open>_mtx\<close>: leave, give every request an error, or take the first request.\<close>

definition take_request :: "holder \<Rightarrow> holder" where
  "take_request q = (case requests q of
     [] \<Rightarrow> q\<lparr>phase := Leaving\<rparr>
   | r # rs \<Rightarrow>
       if lost q then q\<lparr>results := results q @ map (\<lambda>r. (r, False)) (r # rs), requests := [], phase := Leaving\<rparr>
       else q\<lparr>requests := rs, phase := Running r\<rparr>)"

definition run_request :: "nat \<Rightarrow> bool \<Rightarrow> holder \<Rightarrow> holder" where
  "run_request r ok q = q\<lparr>results := results q @ [(r, ok)], phase := Looping\<rparr>"

definition unlock_process :: "holder \<Rightarrow> holder" where
  "unlock_process q = q\<lparr>phase := Idle\<rparr>"

subsection \<open>Steps\<close>

text \<open>
  The steps of the fibers; and the steps of the surroundings, which push requests and break the connection.
  The run of a request waits for the server and need not return: \<open>A\<close> says which requests' runs do.
\<close>

inductive work_step :: "(nat \<Rightarrow> bool) \<Rightarrow> holder \<Rightarrow> holder \<Rightarrow> bool" for A :: "nat \<Rightarrow> bool" where
  q_lock: "0 < spawned q \<Longrightarrow> phase q = Idle \<Longrightarrow> work_step A q (lock_process q)"
| q_take: "phase q = Looping \<Longrightarrow> work_step A q (take_request q)"
| q_run: "phase q = Running r \<Longrightarrow> A r \<Longrightarrow> work_step A q (run_request r ok q)"
| q_unlock: "phase q = Leaving \<Longrightarrow> work_step A q (unlock_process q)"

inductive_cases work_stepE: "work_step A q q'"

inductive any_step :: "(nat \<Rightarrow> bool) \<Rightarrow> holder \<Rightarrow> holder \<Rightarrow> bool" for A :: "nat \<Rightarrow> bool" where
  any_work: "work_step A q q' \<Longrightarrow> any_step A q q'"
| any_push: "r \<notin> set (pushed q) \<Longrightarrow> any_step A q (pushRequest r q)"
| any_break: "any_step A q (q\<lparr>lost := True\<rparr>)"

inductive queue_reach :: "(nat \<Rightarrow> bool) \<Rightarrow> holder \<Rightarrow> bool" for A :: "nat \<Rightarrow> bool" where
  q_new: "queue_reach A new_holder"
| q_next: "queue_reach A q \<Longrightarrow> any_step A q q' \<Longrightarrow> queue_reach A q'"

inductive work_run :: "(nat \<Rightarrow> bool) \<Rightarrow> holder \<Rightarrow> holder \<Rightarrow> bool" for A :: "nat \<Rightarrow> bool" where
  run_none: "work_run A q q"
| run_step: "work_step A q q' \<Longrightarrow> work_run A q' q'' \<Longrightarrow> work_run A q q''"

subsection \<open>The invariant\<close>

fun in_work :: "phase \<Rightarrow> nat list" where
  "in_work (Running r) = [r]"
| "in_work p = []"

definition in_order :: "holder \<Rightarrow> bool" where
  "in_order q \<longleftrightarrow> pushed q = map fst (results q) @ in_work (phase q) @ requests q"

definition served :: "holder \<Rightarrow> bool" where
  "served q \<longleftrightarrow> (requests q \<noteq> [] \<longrightarrow> 0 < spawned q \<or> phase q = Looping \<or> in_work (phase q) \<noteq> [])"

definition queue_ok :: "holder \<Rightarrow> bool" where
  "queue_ok q \<longleftrightarrow> in_order q \<and> served q \<and> distinct (pushed q)"

lemmas work_defs = lock_process_def take_request_def run_request_def unlock_process_def

lemma work_step_pushed: "work_step A q q' \<Longrightarrow> pushed q' = pushed q"
  by (erule work_stepE) (auto simp: work_defs split: list.splits)

lemma work_step_order: "work_step A q q' \<Longrightarrow> in_order q \<Longrightarrow> in_order q'"
  by (erule work_stepE) (auto simp: in_order_def work_defs comp_def split: list.splits)

lemma work_step_served: "work_step A q q' \<Longrightarrow> served q \<Longrightarrow> served q'"
  by (erule work_stepE) (auto simp: served_def work_defs split: list.splits)

lemma work_step_ok: "work_step A q q' \<Longrightarrow> queue_ok q \<Longrightarrow> queue_ok q'"
  unfolding queue_ok_def using work_step_pushed work_step_order work_step_served by metis

lemma push_ok:
  assumes "queue_ok q" "r \<notin> set (pushed q)"
  shows "queue_ok (pushRequest r q)"
proof -
  have "pushed (pushRequest r q) = pushed q @ [r]" by (simp add: pushRequest_def Let_def)
  moreover have "in_order (pushRequest r q)" using assms by (simp add: queue_ok_def in_order_def pushRequest_def Let_def)
  moreover have "served (pushRequest r q)"
    using assms by (cases "requests q") (auto simp: queue_ok_def served_def pushRequest_def Let_def)
  ultimately show ?thesis using assms unfolding queue_ok_def by simp
qed

lemma break_keeps: "in_order (q\<lparr>lost := True\<rparr>) = in_order q" "served (q\<lparr>lost := True\<rparr>) = served q"
  by (simp_all add: in_order_def served_def)

lemma any_step_ok: "any_step A q q' \<Longrightarrow> queue_ok q \<Longrightarrow> queue_ok q'"
proof (induction rule: any_step.induct)
  case (any_break q)
  have "distinct (pushed (q\<lparr>lost := True\<rparr>)) = distinct (pushed q)" by simp
  with any_break show ?case unfolding queue_ok_def by (metis break_keeps)
qed (auto intro: work_step_ok push_ok)

lemma queue_reach_ok: "queue_reach A q \<Longrightarrow> queue_ok q"
proof (induction rule: queue_reach.induct)
  case q_new
  show ?case by (simp add: queue_ok_def in_order_def served_def new_holder_def)
qed (rule any_step_ok)

subsection \<open>Progress\<close>

text \<open>Every step of the fibers takes the queue nearer to its end.\<close>

fun phase_rank :: "phase \<Rightarrow> nat" where
  "phase_rank Idle = 0"
| "phase_rank Leaving = 1"
| "phase_rank Looping = 2"
| "phase_rank (Running r) = 3"

definition queue_rank :: "holder \<Rightarrow> nat" where
  "queue_rank q = 3 * length (requests q) + 4 * spawned q + phase_rank (phase q)"

lemma work_step_rank: "work_step A q q' \<Longrightarrow> queue_rank q' < queue_rank q"
  by (erule work_stepE)
    (auto simp: queue_rank_def work_defs split: list.splits)

lemma work_can_step:
  assumes "queue_ok q" "\<forall>r\<in>set (pushed q). A r" "\<not> (phase q = Idle \<and> spawned q = 0)"
  obtains q' where "work_step A q q'"
proof (cases "phase q")
  case (Running r)
  then have "r \<in> set (pushed q)" using assms(1) by (simp add: queue_ok_def in_order_def)
  with q_run [OF Running] assms(2) that show thesis by blast
qed (use assms(3) that q_lock [of q A] q_take [of q A] q_unlock [of q A] in auto)

lemma work_ends:
  "queue_ok q \<Longrightarrow> \<forall>r\<in>set (pushed q). A r \<Longrightarrow>
   \<exists>q'. work_run A q q' \<and> phase q' = Idle \<and> spawned q' = 0 \<and> queue_ok q' \<and> pushed q' = pushed q"
proof (induction q rule: measure_induct_rule [where f = queue_rank])
  case (less q)
  show ?case
  proof (cases "phase q = Idle \<and> spawned q = 0")
    case True
    with less.prems show ?thesis using run_none by blast
  next
    case False
    with less.prems obtain q' where s: "work_step A q q'" by (rule work_can_step)
    then obtain q'' where "work_run A q' q''" "phase q'' = Idle" "spawned q'' = 0" "queue_ok q''" "pushed q'' = pushed q'"
      using less.IH [OF work_step_rank [OF s]] work_step_ok [OF s less.prems(1)] work_step_pushed [OF s] less.prems(2)
      by auto
    then show ?thesis using run_step [OF s] work_step_pushed [OF s] by auto
  qed
qed

text \<open>Behind a request whose run never returns nothing moves, whatever the surroundings do.\<close>

lemma stuck_step:
  "any_step A q q' \<Longrightarrow> phase q = Running r \<Longrightarrow> \<not> A r \<Longrightarrow> phase q' = Running r \<and> results q' = results q"
  by (erule any_step.cases) (auto simp: pushRequest_def Let_def elim!: work_stepE)

lemma stuck_for_ever:
  "(any_step A)\<^sup>*\<^sup>* q q' \<Longrightarrow> phase q = Running r \<Longrightarrow> \<not> A r \<Longrightarrow> phase q' = Running r \<and> results q' = results q"
  by (induction rule: rtranclp_induct) (auto dest: stuck_step)

subsection \<open>Properties\<close>

text \<open>
  C14: in every reachable state of a connection the requests that were pushed are, in their order, those
  that have a result, the one that is run and those that wait; so a request has at most one result, results come
  in the order of the requests, and no request is forgotten: while one waits, a fiber is in the loop or will be.
\<close>

theorem requests_in_order:
  assumes "queue_reach A q"
  shows "pushed q = map fst (results q) @ in_work (phase q) @ requests q \<and> distinct (pushed q) \<and>
    (requests q \<noteq> [] \<longrightarrow> 0 < spawned q \<or> phase q = Looping \<or> in_work (phase q) \<noteq> [])"
  using queue_reach_ok [OF assms] unfolding queue_ok_def in_order_def served_def by blast

theorem requests_in_order_witness:
  "let q = take_request (lock_process (pushRequest 5 (pushRequest 4 new_holder))) in phase q = Running 4 \<and> spawned q = 0 \<and>
     pushed q = map fst (results q) @ in_work (phase q) @ requests q \<and> distinct (pushed q) \<and>
     (requests q \<noteq> [] \<longrightarrow> 0 < spawned q \<or> phase q = Looping \<or> in_work (phase q) \<noteq> [])"
proof -
  note run = pushRequest_def new_holder_def work_defs Let_def
  let ?A = "\<lambda>r. r = 4"
  have "queue_reach ?A (pushRequest 5 (pushRequest 4 new_holder))"
    by (rule q_next [OF q_next [OF q_new any_push] any_push]) (simp_all add: run)
  then have "queue_reach ?A (lock_process (pushRequest 5 (pushRequest 4 new_holder)))"
    by (rule q_next) (intro any_work q_lock, simp_all add: run)
  then have "queue_reach ?A (take_request (lock_process (pushRequest 5 (pushRequest 4 new_holder))))"
    by (rule q_next) (intro any_work q_take, simp add: run)
  note ok = requests_in_order [OF this]
  moreover have "phase (take_request (lock_process (pushRequest 5 (pushRequest 4 new_holder)))) = Running 4"
    "spawned (take_request (lock_process (pushRequest 5 (pushRequest 4 new_holder)))) = 0"
    by (simp_all add: run)
  ultimately show ?thesis unfolding Let_def by blast
qed

text \<open>
  C15: if the runs of all requests that were pushed return, then in a reachable state every step of the fibers
  lowers \<open>queue_rank\<close>, and there is a step until all fibers have left; then every request that was ever pushed has
  its result: every run of the fibers without further requests ends, with all requests answered.  But no time
  limit guards a run: when the run of a request never returns, the requests behind it never get a result, whatever
  is pushed later and even if the connection breaks.
\<close>

theorem requests_answered:
  assumes "queue_reach A q"
  shows "((\<forall>r\<in>set (pushed q). A r) \<longrightarrow>
      (\<exists>q'. work_run A q q' \<and> phase q' = Idle \<and> spawned q' = 0 \<and> map fst (results q') = pushed q) \<and>
      (\<forall>q'. work_step A q q' \<longrightarrow> queue_rank q' < queue_rank q) \<and>
      ((\<exists>q'. work_step A q q') \<or> phase q = Idle \<and> spawned q = 0 \<and> map fst (results q) = pushed q)) \<and>
    (\<forall>r q'. phase q = Running r \<and> \<not> A r \<and> (any_step A)\<^sup>*\<^sup>* q q' \<longrightarrow>
      phase q' = Running r \<and> results q' = results q \<and> (\<forall>p\<in>set (requests q). p \<notin> fst ` set (results q')))"
    (is "(?all \<longrightarrow> ?ends) \<and> ?stuck")
proof -
  have ok: "queue_ok q" by (rule queue_reach_ok [OF assms])
  have fin: "map fst (results p) = pushed p" if "queue_ok p" "phase p = Idle" "spawned p = 0" for p
    using that unfolding queue_ok_def in_order_def served_def by auto
  have ends: ?ends if all: ?all
  proof -
    obtain q' where q': "work_run A q q'" "phase q' = Idle" "spawned q' = 0" "queue_ok q'" "pushed q' = pushed q"
      using work_ends [OF ok all] by blast
    have "(\<exists>q'. work_step A q q') \<or> phase q = Idle \<and> spawned q = 0" using work_can_step [OF ok all] by metis
    then show ?thesis using q' fin [OF ok] fin [OF q'(4)] work_step_rank by metis
  qed
  have "p \<notin> fst ` set (results q)" if "p \<in> set (requests q)" for p
  proof -
    have "distinct (map fst (results q) @ in_work (phase q) @ requests q)"
      using ok unfolding queue_ok_def in_order_def by metis
    then show ?thesis using that by (fastforce simp: image_iff)
  qed
  then have ?stuck using stuck_for_ever [of A q] by metis
  with ends show ?thesis by blast
qed

theorem requests_answered_witness:
  "\<exists>q'. work_run (\<lambda>r. True) (pushRequest 4 new_holder) q' \<and> phase q' = Idle \<and> map fst (results q') = [4]"
proof -
  have "queue_reach (\<lambda>r. True) (pushRequest 4 new_holder)"
    by (rule q_next [OF q_new any_push]) (simp add: new_holder_def)
  from requests_answered [OF this] show ?thesis by (auto simp: pushRequest_def new_holder_def)
qed

end
