(* ===== verification/PgPrepared.thy ===== *)
theory PgPrepared
  imports PgBind
begin

text \<open>
  The prepared statements of a connection (pgc/impl/connectionHolder.cpp): the container indexed by
  statement, by the time of the last use and by the time of creation, the dialogue that prepares a statement
  and executes it, and the clearing at the end of a user's work.  The server is a parameter.
\<close>

subsection \<open>The server\<close>

text \<open>What the connection sends, and how the result of a command looks: a status and, for an error, the
  code.  A broken connection gives an error without code.\<close>

datatype command = Query string | Prepare string string | ExecPrepared string

datatype reply = ROk | RTuples | RError string

record 's pgserver =
  srv_exec :: "command \<Rightarrow> 's \<Rightarrow> reply \<times> 's"
  srv_trans :: "'s \<Rightarrow> bool"
  srv_alive :: "'s \<Rightarrow> bool"

subsection \<open>The container\<close>

record prep =
  ps_stm :: nat
  ps_prid :: string
  ps_access :: int
  ps_create :: int
  ps_seq :: nat

text \<open>The statements in the order of the access index, the time at which the work began, the numbers of
  insertions and of random identifiers so far, and the server.\<close>

record 's pconn =
  preps :: "prep list"
  now_time :: "int option"
  inserted :: nat
  drawn :: nat
  server :: 's

definition clock :: "'s pconn \<Rightarrow> int" where
  "clock st = (case now_time st of Some t \<Rightarrow> t | None \<Rightarrow> 0)"

text \<open>The ordered index of \<open>multi_index\<close> links an element behind those with an equal key, and leaves a
  modified element where it is when the order allows it.\<close>

fun link_access :: "prep \<Rightarrow> prep list \<Rightarrow> prep list" where
  "link_access x [] = [x]"
| "link_access x (y # ys) = (if ps_access x < ps_access y then x # y # ys else y # link_access x ys)"

definition touch :: "nat \<Rightarrow> int \<Rightarrow> prep list \<Rightarrow> prep list" where
  "touch i t ps = (let x = (ps ! i)\<lparr>ps_access := t\<rparr> in
     if (i = 0 \<or> ps_access (ps ! (i - 1)) \<le> t) \<and> (length ps \<le> Suc i \<or> t \<le> ps_access (ps ! Suc i)) then ps[i := x]
     else link_access x (take i ps @ drop (Suc i) ps))"

definition stm_pos :: "nat \<Rightarrow> prep list \<Rightarrow> nat" where
  "stm_pos p ps = length (takeWhile (\<lambda>e. ps_stm e \<noteq> p) ps)"

definition hasPrepared :: "nat \<Rightarrow> 's pconn \<Rightarrow> bool" where
  "hasPrepared p st \<longleftrightarrow> stm_pos p (preps st) < length (preps st)"

definition insert_prep :: "(nat \<Rightarrow> string) \<Rightarrow> nat \<Rightarrow> 's pconn \<Rightarrow> 's pconn" where
  "insert_prep gen p st = st\<lparr>
     preps := link_access \<lparr>ps_stm = p, ps_prid = gen (drawn st), ps_access = clock st, ps_create = clock st,
       ps_seq = inserted st\<rparr> (preps st), inserted := Suc (inserted st), drawn := Suc (drawn st)\<rparr>"

definition getPrid :: "(nat \<Rightarrow> string) \<Rightarrow> nat \<Rightarrow> 's pconn \<Rightarrow> string \<times> 's pconn" where
  "getPrid gen p st = (let i = stm_pos p (preps st) in
     if i < length (preps st)
     then (ps_prid (preps st ! i), st\<lparr>preps := touch i (clock st) (preps st)\<rparr>)
     else (gen (drawn st), insert_prep gen p st))"

definition genPrid :: "(nat \<Rightarrow> string) \<Rightarrow> nat \<Rightarrow> 's pconn \<Rightarrow> 's pconn" where
  "genPrid gen p st = (let i = stm_pos p (preps st) in
     if i < length (preps st)
     then st\<lparr>preps := (preps st)[i := (preps st ! i)\<lparr>ps_prid := gen (drawn st)\<rparr>], drawn := Suc (drawn st)\<rparr>
     else insert_prep gen p st)"

definition delPrepared :: "nat \<Rightarrow> 's pconn \<Rightarrow> 's pconn presult" where
  "delPrepared p st = (let i = stm_pos p (preps st) in
     if i < length (preps st) then Inr (st\<lparr>preps := take i (preps st) @ drop (Suc i) (preps st)\<rparr>) else Inl PgAssert)"

subsection \<open>Preparing and executing\<close>

definition run_cmd :: "'s pgserver \<Rightarrow> command \<Rightarrow> 's pconn \<Rightarrow> reply \<times> 's pconn" where
  "run_cmd S c st = (case srv_exec S c (server st) of (r, s) \<Rightarrow> (r, st\<lparr>server := s\<rparr>))"

text \<open>A failed command forgets the statement; the result is then an error.\<close>

definition give_up :: "nat \<Rightarrow> 's pconn \<Rightarrow> (bool \<times> 's pconn) presult" where
  "give_up p st = (case delPrepared p st of Inl e \<Rightarrow> Inl e | Inr st \<Rightarrow> Inr (False, st))"

definition savepoint :: "'s pgserver \<Rightarrow> (nat \<Rightarrow> string) \<Rightarrow> bool \<Rightarrow> nat \<Rightarrow> 's pconn \<Rightarrow> (bool \<times> 's pconn) presult" where
  "savepoint S gen tr p st =
     (if \<not> tr then Inr (True, st)
      else case getPrid gen p st of (prid, st) \<Rightarrow>
        (case run_cmd S (Query (''SAVEPOINT pgcp'' @ prid)) st of (r, st) \<Rightarrow>
          if r \<noteq> ROk then give_up p st else Inr (True, st)))"

text \<open>A new identifier after a duplicate, in a transaction only.\<close>

definition rename_stm :: "'s pgserver \<Rightarrow> (nat \<Rightarrow> string) \<Rightarrow> bool \<Rightarrow> nat \<Rightarrow> 's pconn \<Rightarrow> (bool \<times> 's pconn) presult" where
  "rename_stm S gen tr p st =
     (if \<not> tr then Inr (True, st)
      else case getPrid gen p st of (old, st) \<Rightarrow>
        (case run_cmd S (Query (''ROLLBACK TO SAVEPOINT pgcp'' @ old)) (genPrid gen p st) of (r, st) \<Rightarrow>
          if r \<noteq> ROk then give_up p st else Inr (True, st)))"

text \<open>The loop, with a bound on its rounds: \<open>None\<close> when they are used up.\<close>

fun prepare_loop ::
  "nat \<Rightarrow> 's pgserver \<Rightarrow> (nat \<Rightarrow> string) \<Rightarrow> bool \<Rightarrow> nat \<Rightarrow> string \<Rightarrow> 's pconn \<Rightarrow> (bool \<times> 's pconn) presult option" where
  "prepare_loop 0 S gen tr p sql st = None"
| "prepare_loop (Suc n) S gen tr p sql st = (case savepoint S gen tr p st of
     Inl e \<Rightarrow> Some (Inl e)
   | Inr (False, st) \<Rightarrow> Some (Inr (False, st))
   | Inr (True, st) \<Rightarrow> (case getPrid gen p st of (prid, st) \<Rightarrow>
       (case run_cmd S (Prepare prid sql) st of (r, st) \<Rightarrow>
         if r = ROk then Some (Inr (True, st))
         else if r = RError ''42P05'' then (case rename_stm S gen tr p st of
             Inl e \<Rightarrow> Some (Inl e)
           | Inr (False, st) \<Rightarrow> Some (Inr (False, st))
           | Inr (True, st) \<Rightarrow> prepare_loop n S gen tr p sql st)
         else Some (give_up p st))))"

definition release :: "'s pgserver \<Rightarrow> (nat \<Rightarrow> string) \<Rightarrow> bool \<Rightarrow> nat \<Rightarrow> 's pconn \<Rightarrow> (bool \<times> 's pconn) presult" where
  "release S gen tr p st =
     (if \<not> tr then Inr (True, st)
      else case getPrid gen p st of (prid, st) \<Rightarrow>
        (case run_cmd S (Query (''RELEASE SAVEPOINT pgcp'' @ prid)) st of (r, st) \<Rightarrow>
          if r \<noteq> ROk then give_up p st else Inr (True, st)))"

definition exec_prepared :: "'s pgserver \<Rightarrow> (nat \<Rightarrow> string) \<Rightarrow> nat \<Rightarrow> 's pconn \<Rightarrow> reply \<times> 's pconn" where
  "exec_prepared S gen p st = (case getPrid gen p st of (prid, st) \<Rightarrow> run_cmd S (ExecPrepared prid) st)"

definition processQueryWithPrepare ::
  "nat \<Rightarrow> 's pgserver \<Rightarrow> (nat \<Rightarrow> string) \<Rightarrow> nat \<Rightarrow> string \<Rightarrow> 's pconn \<Rightarrow> (reply \<times> 's pconn) presult option" where
  "processQueryWithPrepare n S gen p sql st =
     (if \<not> srv_alive S (server st) then Some (Inr (RError '''', st))
      else let tr = srv_trans S (server st) in case prepare_loop n S gen tr p sql st of
        None \<Rightarrow> None
      | Some (Inl e) \<Rightarrow> Some (Inl e)
      | Some (Inr (False, st)) \<Rightarrow> Some (Inr (RError '''', st))
      | Some (Inr (True, st)) \<Rightarrow> (case release S gen tr p st of
          Inl e \<Rightarrow> Some (Inl e)
        | Inr (False, st) \<Rightarrow> Some (Inr (RError '''', st))
        | Inr (True, st) \<Rightarrow> Some (Inr (exec_prepared S gen p st))))"

definition runQueryWithPrepare ::
  "nat \<Rightarrow> 's pgserver \<Rightarrow> (nat \<Rightarrow> string) \<Rightarrow> nat \<Rightarrow> string \<Rightarrow> 's pconn \<Rightarrow> (reply \<times> 's pconn) presult option" where
  "runQueryWithPrepare n S gen p sql st =
     (if now_time st = None then Some (Inl PgAssert)
      else if hasPrepared p st then Some (Inr (exec_prepared S gen p st))
      else processQueryWithPrepare n S gen p sql st)"

subsection \<open>The end of the work\<close>

definition deallocateOne :: "'s pgserver \<Rightarrow> string \<Rightarrow> 's pconn \<Rightarrow> bool \<times> 's pconn" where
  "deallocateOne S prid st = (case run_cmd S (Query (''DEALLOCATE '' @ prid)) st of (r, st) \<Rightarrow>
     if r = ROk \<or> r = RError ''26000'' then (True, st) else (False, st\<lparr>preps := []\<rparr>))"

definition max_preps :: nat where
  "max_preps = 1000"

definition prep_timeout :: int where
  "prep_timeout = 1000 * 60 * 60"

text \<open>The statements above the number, from the begin of the access index.\<close>

fun evict_many :: "'s pgserver \<Rightarrow> prep list \<Rightarrow> 's pconn \<Rightarrow> bool \<times> 's pconn" where
  "evict_many S [] st = (True, st\<lparr>preps := []\<rparr>)"
| "evict_many S (e # es) st =
     (if length (e # es) > max_preps then (case deallocateOne S (ps_prid e) st of
         (False, st) \<Rightarrow> (False, st)
       | (True, st) \<Rightarrow> evict_many S es st)
      else (True, st\<lparr>preps := e # es\<rparr>))"

text \<open>The begin of the index of creation times, in which equal times are in the order of insertion.\<close>

definition older :: "prep \<Rightarrow> prep \<Rightarrow> bool" where
  "older x y \<longleftrightarrow> ps_create x < ps_create y \<or> ps_create x = ps_create y \<and> ps_seq x < ps_seq y"

fun oldest :: "prep \<Rightarrow> prep list \<Rightarrow> prep" where
  "oldest x [] = x"
| "oldest x (y # ys) = oldest (if older y x then y else x) ys"

lemma oldest_in: "oldest x ys \<in> insert x (set ys)"
  by (induction x ys rule: oldest.induct) auto

function evict_old :: "'s pgserver \<Rightarrow> int \<Rightarrow> prep list \<Rightarrow> 's pconn \<Rightarrow> bool \<times> 's pconn" where
  "evict_old S bound [] st = (True, st\<lparr>preps := []\<rparr>)"
| "evict_old S bound (e # es) st = (let x = oldest e es in
     if bound > ps_create x then (case deallocateOne S (ps_prid x) st of
         (False, st) \<Rightarrow> (False, st)
       | (True, st) \<Rightarrow> evict_old S bound (remove1 x (e # es)) st)
     else (True, st\<lparr>preps := e # es\<rparr>))"
  by pat_completeness auto
termination
proof (relation "measure (\<lambda>(S, bound, ps, st). length ps)")
  fix S :: "'s pgserver" and bound e es and st st' :: "'s pconn" and x r
  assume "x = oldest e es"
  then have "x \<in> set (e # es)" using oldest_in [of e es] by auto
  then show "((S, bound, remove1 x (e # es), st'), S, bound, e # es, st) \<in> measure (\<lambda>(S, bound, ps, st). length ps)"
    by (auto simp: length_remove1 dest: length_pos_if_in_set)
qed simp

definition runEndWork :: "'s pgserver \<Rightarrow> 's pconn \<Rightarrow> (reply \<times> 's pconn) presult" where
  "runEndWork S st = (case now_time st of None \<Rightarrow> Inl PgAssert | Some t \<Rightarrow>
     (case evict_many S (preps st) st of
        (False, st) \<Rightarrow> Inr (RError '''', st)
      | (True, st) \<Rightarrow> (case evict_old S (t - prep_timeout) (preps st) st of
          (False, st) \<Rightarrow> Inr (RError '''', st)
        | (True, st) \<Rightarrow> Inr (ROk, st\<lparr>now_time := None\<rparr>))))"

definition beginWork :: "int \<Rightarrow> 's pconn \<Rightarrow> 's pconn presult" where
  "beginWork t st = (if now_time st = None then Inr (st\<lparr>now_time := Some t\<rparr>) else Inl PgAssert)"

text \<open>\<open>endWork\<close>: an open transaction is rolled back first.\<close>

definition endWork :: "'s pgserver \<Rightarrow> 's pconn \<Rightarrow> (reply \<times> 's pconn) presult" where
  "endWork S st = runEndWork S (if srv_trans S (server st) then snd (run_cmd S (Query ''ROLLBACK'') st) else st)"

subsection \<open>The order of the container\<close>

lemma set_link_access [simp]: "set (link_access x ys) = insert x (set ys)"
  by (induction ys) auto

lemma mset_link_access: "length (link_access x ys) = Suc (length ys)"
  by (induction ys) auto

lemma sorted_link_access:
  "sorted (map ps_access ys) \<Longrightarrow> sorted (map ps_access (link_access x ys))"
proof (induction ys)
  case (Cons y ys)
  then show ?case by (cases ys) (auto split: if_splits)
qed simp

lemma distinct_link_access:
  "distinct (map f (link_access x ys)) \<longleftrightarrow> f x \<notin> f ` set ys \<and> distinct (map f ys)"
  by (induction ys) auto

text \<open>The container: every statement once, in the order of the last use.\<close>

definition preps_ok :: "prep list \<Rightarrow> bool" where
  "preps_ok ps \<longleftrightarrow> sorted (map ps_access ps) \<and> distinct (map ps_stm ps)"

lemma stm_pos_found:
  "stm_pos p ps < length ps \<Longrightarrow> ps_stm (ps ! stm_pos p ps) = p"
  unfolding stm_pos_def using nth_length_takeWhile by blast

lemma stm_pos_missing: "\<not> stm_pos p ps < length ps \<Longrightarrow> p \<notin> ps_stm ` set ps"
proof -
  assume "\<not> stm_pos p ps < length ps"
  then have "takeWhile (\<lambda>e. ps_stm e \<noteq> p) ps = ps"
    unfolding stm_pos_def by (metis length_takeWhile_le not_less_iff_gr_or_eq le_less takeWhile_eq_take take_all)
  then show ?thesis by (auto simp: takeWhile_eq_all_conv)
qed

lemma stm_pos_iff: "stm_pos p ps < length ps \<longleftrightarrow> p \<in> ps_stm ` set ps"
proof
  assume "stm_pos p ps < length ps"
  then show "p \<in> ps_stm ` set ps" using stm_pos_found [of p ps] nth_mem by (metis image_eqI)
qed (use stm_pos_missing in blast)

lemma distinct_pos:
  assumes "distinct (map f ps)" "i < length ps" "e \<in> set ps" "f e = f (ps ! i)"
  shows "e = ps ! i"
  using assms by (metis distinct_map inj_on_eq_iff nth_mem)

lemma set_without:
  assumes "distinct ps" "i < length ps"
  shows "set (take i ps @ drop (Suc i) ps) = set ps - {ps ! i}"
proof -
  have "ps = take i ps @ ps ! i # drop (Suc i) ps" using assms(2) by (rule id_take_nth_drop)
  moreover have "distinct (take i ps @ ps ! i # drop (Suc i) ps)" using assms(1) calculation by metis
  ultimately show ?thesis by (metis (no_types, lifting) Diff_insert_absorb Un_insert_right distinct.simps(2) distinct_append
        disjoint_insert(1) list.simps(15) set_append UnE Un_iff)
qed

lemma sorted_update:
  assumes "sorted xs" "i < length xs" "i = 0 \<or> xs ! (i - 1) \<le> t" "length xs \<le> Suc i \<or> t \<le> xs ! Suc i"
  shows "sorted (xs[i := t])"
  unfolding sorted_iff_nth_Suc
proof (intro allI impI)
  fix j assume j: "Suc j < length (xs[i := t])"
  then have "xs ! j \<le> xs ! Suc j" using assms(1) unfolding sorted_iff_nth_Suc by simp
  then show "xs[i := t] ! j \<le> xs[i := t] ! Suc j"
    using j assms(2-4) by (cases "j = i"; cases "Suc j = i") auto
qed

lemma touch_ok:
  assumes "preps_ok ps" "i < length ps"
  shows "preps_ok (touch i t ps)" "set (touch i t ps) = insert ((ps ! i)\<lparr>ps_access := t\<rparr>) (set ps - {ps ! i})"
proof -
  let ?x = "(ps ! i)\<lparr>ps_access := t\<rparr>"
  have d: "distinct (map ps_stm ps)" "distinct ps" and s: "sorted (map ps_access ps)"
    using assms(1) unfolding preps_ok_def by (auto simp: distinct_map)
  have rest: "set (take i ps @ drop (Suc i) ps) = set ps - {ps ! i}" by (rule set_without [OF d(2) assms(2)])
  have parts: "ps = take i ps @ ps ! i # drop (Suc i) ps" using assms(2) by (rule id_take_nth_drop)
  have dp: "distinct (map ps_stm (take i ps @ ps ! i # drop (Suc i) ps))"
    and sp: "sorted (map ps_access (take i ps @ ps ! i # drop (Suc i) ps))"
    unfolding parts [symmetric] by (rule d(1), rule s)
  have d': "distinct (map ps_stm (take i ps @ drop (Suc i) ps))" "ps_stm (ps ! i) \<notin> ps_stm ` set (take i ps @ drop (Suc i) ps)"
    using dp by auto
  have s': "sorted (map ps_access (take i ps @ drop (Suc i) ps))"
    using sp by (auto simp: sorted_append)
  have "preps_ok (touch i t ps) \<and> set (touch i t ps) = insert ?x (set ps - {ps ! i})"
  proof (cases "(i = 0 \<or> ps_access (ps ! (i - 1)) \<le> t) \<and> (length ps \<le> Suc i \<or> t \<le> ps_access (ps ! Suc i))")
    case True
    then have t: "touch i t ps = ps[i := ?x]" by (simp add: touch_def Let_def)
    have "i = 0 \<or> map ps_access ps ! (i - 1) \<le> t" using True assms(2) by auto
    moreover have "length (map ps_access ps) \<le> Suc i \<or> t \<le> map ps_access ps ! Suc i"
      using True by (cases "length ps \<le> Suc i") auto
    ultimately have "sorted ((map ps_access ps)[i := t])"
      using assms(2) by (intro sorted_update [OF s]) simp_all
    moreover have "map ps_stm (ps[i := ?x]) = map ps_stm ps"
      using assms(2) by (simp add: map_update list_update_same_conv)
    moreover have "set (ps[i := ?x]) = insert ?x (set ps - {ps ! i})"
      using assms(2) d(2) rest by (simp add: upd_conv_take_nth_drop)
    ultimately show ?thesis unfolding t preps_ok_def using d(1) by (simp add: map_update)
  next
    case False
    then have t: "touch i t ps = link_access ?x (take i ps @ drop (Suc i) ps)"
      unfolding touch_def Let_def by (rule if_not_P)
    show ?thesis unfolding t preps_ok_def
      using d' sorted_link_access [OF s', of ?x] rest by (simp only: distinct_link_access set_link_access) simp
  qed
  then show "preps_ok (touch i t ps)" "set (touch i t ps) = insert ?x (set ps - {ps ! i})" by simp_all
qed

text \<open>The identifier of a statement.\<close>

definition prid_of :: "prep list \<Rightarrow> nat \<Rightarrow> string option" where
  "prid_of ps p = (if stm_pos p ps < length ps then Some (ps_prid (ps ! stm_pos p ps)) else None)"

lemma prid_of_iff:
  assumes "distinct (map ps_stm ps)"
  shows "prid_of ps p = Some x \<longleftrightarrow> (\<exists>e\<in>set ps. ps_stm e = p \<and> ps_prid e = x)"
proof
  assume "prid_of ps p = Some x"
  then have "stm_pos p ps < length ps" "ps_prid (ps ! stm_pos p ps) = x" by (auto simp: prid_of_def split: if_splits)
  then show "\<exists>e\<in>set ps. ps_stm e = p \<and> ps_prid e = x" using stm_pos_found nth_mem by blast
next
  assume "\<exists>e\<in>set ps. ps_stm e = p \<and> ps_prid e = x"
  then obtain e where e: "e \<in> set ps" "ps_stm e = p" "ps_prid e = x" by blast
  then have l: "stm_pos p ps < length ps" unfolding stm_pos_iff by blast
  then have "e = ps ! stm_pos p ps" using distinct_pos [OF assms l e(1)] e(2) stm_pos_found [OF l] by simp
  then show "prid_of ps p = Some x" using e l by (simp add: prid_of_def)
qed

lemma getPrid_found:
  assumes "preps_ok (preps st)" "prid_of (preps st) p = Some x" "getPrid gen p st = (y, st')"
  shows "y = x" "preps_ok (preps st')" "prid_of (preps st') p = Some x" "server st' = server st" "drawn st' = drawn st"
    "now_time st' = now_time st"
proof -
  let ?i = "stm_pos p (preps st)"
  have l: "?i < length (preps st)" and x: "ps_prid (preps st ! ?i) = x"
    using assms(2) by (auto simp: prid_of_def split: if_splits)
  then have st': "y = x" "st' = st\<lparr>preps := touch ?i (clock st) (preps st)\<rparr>"
    using assms(3) by (auto simp: getPrid_def Let_def)
  note t = touch_ok [OF assms(1) l, of "clock st"]
  show "y = x" "preps_ok (preps st')" "server st' = server st" "drawn st' = drawn st" "now_time st' = now_time st"
    using st' t(1) by simp_all
  have "prid_of (touch ?i (clock st) (preps st)) p = Some x"
    unfolding prid_of_iff [OF t(1) [unfolded preps_ok_def, THEN conjunct2]] t(2) using x stm_pos_found [OF l] by simp
  then show "prid_of (preps st') p = Some x" using st' by simp
qed

lemma insert_prep_ok:
  assumes "preps_ok (preps st)" "prid_of (preps st) p = None"
  shows "preps_ok (preps (insert_prep gen p st))" "prid_of (preps (insert_prep gen p st)) p = Some (gen (drawn st))"
    "server (insert_prep gen p st) = server st" "drawn (insert_prep gen p st) = Suc (drawn st)"
    "now_time (insert_prep gen p st) = now_time st"
proof -
  have "p \<notin> ps_stm ` set (preps st)" using assms(2) stm_pos_iff unfolding prid_of_def by (metis option.distinct(1))
  then show ok: "preps_ok (preps (insert_prep gen p st))"
    using assms(1) unfolding preps_ok_def insert_prep_def by (simp add: distinct_link_access sorted_link_access)
  show "prid_of (preps (insert_prep gen p st)) p = Some (gen (drawn st))"
    unfolding prid_of_iff [OF ok [unfolded preps_ok_def, THEN conjunct2]] by (simp add: insert_prep_def)
qed (simp_all add: insert_prep_def)

lemma genPrid_found:
  assumes "preps_ok (preps st)" "prid_of (preps st) p = Some x"
  shows "preps_ok (preps (genPrid gen p st))" "prid_of (preps (genPrid gen p st)) p = Some (gen (drawn st))"
    "server (genPrid gen p st) = server st" "drawn (genPrid gen p st) = Suc (drawn st)"
    "now_time (genPrid gen p st) = now_time st"
proof -
  let ?i = "stm_pos p (preps st)"
  have l: "?i < length (preps st)" using assms(2) by (auto simp: prid_of_def split: if_splits)
  have g: "genPrid gen p st = st\<lparr>preps := (preps st)[?i := (preps st ! ?i)\<lparr>ps_prid := gen (drawn st)\<rparr>], drawn := Suc (drawn st)\<rparr>"
    using l by (simp add: genPrid_def Let_def)
  have m: "map ps_stm ((preps st)[?i := (preps st ! ?i)\<lparr>ps_prid := gen (drawn st)\<rparr>]) = map ps_stm (preps st)"
    "map ps_access ((preps st)[?i := (preps st ! ?i)\<lparr>ps_prid := gen (drawn st)\<rparr>]) = map ps_access (preps st)"
    using l by (simp_all add: map_update list_update_same_conv)
  then show ok: "preps_ok (preps (genPrid gen p st))" using assms(1) unfolding g preps_ok_def by simp
  let ?e = "(preps st ! ?i)\<lparr>ps_prid := gen (drawn st)\<rparr>"
  have "?e \<in> set (preps (genPrid gen p st))" unfolding g by (simp add: set_update_memI [OF l])
  moreover have "ps_stm ?e = p" "ps_prid ?e = gen (drawn st)" using stm_pos_found [OF l] by simp_all
  ultimately show "prid_of (preps (genPrid gen p st)) p = Some (gen (drawn st))"
    unfolding prid_of_iff [OF ok [unfolded preps_ok_def, THEN conjunct2]] by blast
  show "server (genPrid gen p st) = server st" "drawn (genPrid gen p st) = Suc (drawn st)"
    "now_time (genPrid gen p st) = now_time st" by (simp_all add: g)
qed


subsection \<open>Clearing\<close>

text \<open>Only the removal matters: what the server is and how often it was asked does not.\<close>

lemma deallocateOne_simps:
  assumes "deallocateOne S prid st = (ok, st')"
  shows "now_time st' = now_time st" "drawn st' = drawn st" "ok \<Longrightarrow> preps st' = preps st" "\<not> ok \<Longrightarrow> preps st' = []"
  using assms by (auto simp: deallocateOne_def run_cmd_def split: prod.splits if_splits)

lemma evict_many_drop:
  "evict_many S ps st = (True, st') \<Longrightarrow> preps st' = drop (length ps - max_preps) ps \<and> now_time st' = now_time st"
proof (induction S ps st rule: evict_many.induct)
  case (2 S e es st)
  show ?case
  proof (cases "length (e # es) > max_preps")
    case True
    obtain ok st1 where d: "deallocateOne S (ps_prid e) st = (ok, st1)" by fastforce
    with "2.prems" True have ok: "ok = True" by (cases ok) simp_all
    have "evict_many S es st1 = (True, st')" using "2.prems" True d ok by simp
    with "2.IH" [OF True d [symmetric]] ok have "preps st' = drop (length es - max_preps) es \<and> now_time st' = now_time st1"
      by simp
    moreover have "length (e # es) - max_preps = Suc (length es - max_preps)" using True by simp
    ultimately show ?thesis using deallocateOne_simps(1) [OF d] by simp
  qed (use "2.prems" in auto)
qed auto

lemma filter_remove1: "\<not> P x \<Longrightarrow> filter P (remove1 x xs) = filter P xs"
  by (induction xs) auto

lemma oldest_least: "y \<in> insert x (set ys) \<Longrightarrow> ps_create (oldest x ys) \<le> ps_create y"
proof (induction x ys arbitrary: y rule: oldest.induct)
  case (2 x z zs)
  let ?m = "if older z x then z else x"
  have "ps_create ?m \<le> ps_create x" "ps_create ?m \<le> ps_create z" by (auto simp: older_def)
  moreover have "ps_create (oldest ?m zs) \<le> ps_create ?m" using "2.IH" [of ?m] by simp
  ultimately show ?case using "2.prems" "2.IH" [of y] by auto
qed simp

lemma evict_old_filter:
  "evict_old S bound ps st = (True, st') \<Longrightarrow>
     preps st' = filter (\<lambda>e. bound \<le> ps_create e) ps \<and> now_time st' = now_time st"
proof (induction S bound ps st rule: evict_old.induct)
  case (2 S bound e es st)
  let ?x = "oldest e es"
  show ?case
  proof (cases "bound > ps_create ?x")
    case True
    obtain ok st1 where d: "deallocateOne S (ps_prid ?x) st = (ok, st1)" by fastforce
    with "2.prems" True have ok: "ok = True" by (cases ok) (simp_all add: Let_def)
    have "evict_old S bound (remove1 ?x (e # es)) st1 = (True, st')"
      using "2.prems" True d ok by (simp add: Let_def)
    with "2.IH" [OF refl True d [symmetric]] ok
    have "preps st' = filter (\<lambda>e. bound \<le> ps_create e) (remove1 ?x (e # es)) \<and> now_time st' = now_time st1" by simp
    then show ?thesis using filter_remove1 [of "\<lambda>e. bound \<le> ps_create e" ?x "e # es"] True deallocateOne_simps(1) [OF d] by auto
  next
    case False
    then have "\<forall>y\<in>set (e # es). bound \<le> ps_create y" using oldest_least [of _ e es] by fastforce
    then have "filter (\<lambda>e. bound \<le> ps_create e) (e # es) = e # es" by (simp only: filter_True)
    then show ?thesis using "2.prems" False by (auto simp: Let_def)
  qed
qed auto

text \<open>
  What a session of the server is between two commands: no transaction, or one, with the names of its
  savepoints, the latest first, and perhaps aborted by an error.
\<close>

datatype txn = NoTrans | InTrans "string list" | InError "string list"

text \<open>
  A server for concrete runs: its state is the transaction and the prepared statements.
\<close>

definition sample_query :: "string \<Rightarrow> txn \<Rightarrow> reply \<times> txn" where
  "sample_query q t =
     (if take 10 q = ''SAVEPOINT '' then (case t of
          InTrans sps \<Rightarrow> (ROk, InTrans (drop 10 q # sps)) | _ \<Rightarrow> (RError ''25P01'', t))
      else if take 22 q = ''ROLLBACK TO SAVEPOINT '' then (case t of
          InError (x # sps) \<Rightarrow> if x = drop 22 q then (ROk, InTrans (x # sps)) else (RError ''3B001'', t)
        | _ \<Rightarrow> (RError ''25P01'', t))
      else if take 18 q = ''RELEASE SAVEPOINT '' then (case t of
          InTrans (x # sps) \<Rightarrow> if x = drop 18 q then (ROk, InTrans sps) else (RError ''3B001'', InError (x # sps))
        | _ \<Rightarrow> (RError ''25P01'', t))
      else (ROk, t))"

definition sample_exec :: "command \<Rightarrow> txn \<times> (string \<Rightarrow> string option) \<Rightarrow> reply \<times> txn \<times> (string \<Rightarrow> string option)" where
  "sample_exec c s = (case s of (t, m) \<Rightarrow> (case c of
     Query q \<Rightarrow> (case sample_query q t of (r, t) \<Rightarrow> (r, t, m))
   | Prepare x sql \<Rightarrow> (case t of
        InError sps \<Rightarrow> (RError ''25P02'', t, m)
      | InTrans sps \<Rightarrow> if m x = None then (ROk, t, m(x \<mapsto> sql)) else (RError ''42P05'', InError sps, m)
      | NoTrans \<Rightarrow> if m x = None then (ROk, t, m(x \<mapsto> sql)) else (RError ''42P05'', t, m))
   | ExecPrepared x \<Rightarrow> (if m x = None then RError ''26000'' else RTuples, t, m)))"

definition sample_server :: "(txn \<times> (string \<Rightarrow> string option)) pgserver" where
  "sample_server = \<lparr>srv_exec = sample_exec, srv_trans = (\<lambda>s. fst s \<noteq> NoTrans), srv_alive = (\<lambda>s. True)\<rparr>"

definition sample_conn :: "bool \<Rightarrow> (txn \<times> (string \<Rightarrow> string option)) pconn" where
  "sample_conn tr = \<lparr>preps = [\<lparr>ps_stm = 1, ps_prid = ''x'', ps_access = 3000000, ps_create = 100, ps_seq = 0\<rparr>,
     \<lparr>ps_stm = 2, ps_prid = ''y'', ps_access = 4000000, ps_create = 4000000, ps_seq = 1\<rparr>],
     now_time = Some 4000000, inserted = 2, drawn = 0,
     server = (if tr then InTrans [] else NoTrans, [''a'' \<mapsto> ''SELECT 0''])\<rparr>"

definition sample_gen :: "nat \<Rightarrow> string" where
  "sample_gen n = (if n = 0 then ''a'' else ''b'')"

lemma sample_conn_ok: "preps_ok (preps (sample_conn tr))" "\<not> hasPrepared 3 (sample_conn tr)"
  "now_time (sample_conn tr) = Some 4000000" "server (sample_conn tr) = (if tr then InTrans [] else NoTrans, [''a'' \<mapsto> ''SELECT 0''])" "drawn (sample_conn tr) = 0"
  by (simp_all add: sample_conn_def preps_ok_def hasPrepared_def stm_pos_def)

text \<open>
  C27: when the end of a user's work succeeds, exactly the statements remain that are among the last 1000 of
  the access index and were created at most an hour before the work began; the index is in the order of the last
  use, so those used least recently go first; and a new work can begin.  The limit of an hour is one of age: the
  declaration of \<open>_timeout\<close> calls it a limit of inactivity, but a statement used a moment ago goes too.
\<close>

theorem end_work_keeps:
  assumes "runEndWork S st = Inr (ROk, st')" "now_time st = Some t" "preps_ok (preps st)"
  shows "preps st' = filter (\<lambda>e. t - 3600000 \<le> ps_create e) (drop (length (preps st) - 1000) (preps st)) \<and>
    length (preps st') \<le> 1000 \<and> preps_ok (preps st') \<and> now_time st' = None \<and>
    (\<forall>e\<in>set (take (length (preps st) - 1000) (preps st)). \<forall>k\<in>set (preps st'). ps_access e \<le> ps_access k)"
proof -
  obtain ok st1 where m: "evict_many S (preps st) st = (ok, st1)" by fastforce
  with assms(1,2) have "ok = True" by (cases ok) (simp_all add: runEndWork_def)
  note m = m [unfolded this]
  obtain ok st2 where o: "evict_old S (t - prep_timeout) (preps st1) st1 = (ok, st2)" by fastforce
  with assms(1,2) m have "ok = True" by (cases ok) (simp_all add: runEndWork_def)
  note o = o [unfolded this]
  have st': "st' = st2\<lparr>now_time := None\<rparr>" using assms(1,2) m o by (simp add: runEndWork_def)
  let ?n = "length (preps st) - 1000"
  let ?rest = "drop ?n (preps st)"
  have p: "preps st' = filter (\<lambda>e. t - 3600000 \<le> ps_create e) ?rest"
    using evict_many_drop [OF m] evict_old_filter [OF o] st' by (simp add: max_preps_def prep_timeout_def)
  have len: "length (preps st') \<le> 1000"
    unfolding p by (rule order_trans [OF length_filter_le]) simp
  have s: "sorted (map ps_access (take ?n (preps st) @ ?rest))" and d: "distinct (map ps_stm (preps st))"
    using assms(3) unfolding preps_ok_def append_take_drop_id by simp_all
  have "\<forall>e\<in>set (take ?n (preps st)). \<forall>k\<in>set ?rest. ps_access e \<le> ps_access k"
    using s unfolding map_append sorted_append by simp
  moreover have "preps_ok (preps st')"
    using assms(3) unfolding p preps_ok_def
    by (auto simp: distinct_map_filter drop_map [symmetric] intro: sorted_filter sorted_wrt_drop)
  ultimately show ?thesis using p len st' by auto
qed


theorem end_work_keeps_witness:
  "\<exists>st'. runEndWork sample_server (sample_conn False) = Inr (ROk, st') \<and> map ps_stm (preps st') = [2] \<and>
     length (preps st') \<le> 1000 \<and> now_time st' = None"
proof -
  have "\<exists>st'. runEndWork sample_server (sample_conn False) = Inr (ROk, st')"
    by (simp add: runEndWork_def sample_conn_def max_preps_def prep_timeout_def older_def deallocateOne_def run_cmd_def
        sample_server_def sample_exec_def sample_query_def)
  then obtain st' where e: "runEndWork sample_server (sample_conn False) = Inr (ROk, st')" by blast
  show ?thesis using e end_work_keeps [OF e sample_conn_ok(3,1)] by (auto simp: sample_conn_def)
qed

subsection \<open>Preparing\<close>

text \<open>The state in which a statement has an identifier and so many have been drawn.\<close>

definition has_prid :: "nat \<Rightarrow> string \<Rightarrow> nat \<Rightarrow> 's pconn \<Rightarrow> bool" where
  "has_prid p x d st \<longleftrightarrow> preps_ok (preps st) \<and> prid_of (preps st) p = Some x \<and> drawn st = d"

lemma getPrid_has:
  "has_prid p x d st \<Longrightarrow> \<exists>st'. getPrid gen p st = (x, st') \<and> has_prid p x d st' \<and> server st' = server st"
  using getPrid_found [of st p x gen] unfolding has_prid_def by (cases "getPrid gen p st") auto

lemma getPrid_new:
  assumes "preps_ok (preps st)" "prid_of (preps st) p = None"
  shows "\<exists>st'. getPrid gen p st = (gen (drawn st), st') \<and> has_prid p (gen (drawn st)) (Suc (drawn st)) st'"
proof -
  have "\<not> stm_pos p (preps st) < length (preps st)" using assms(2) by (simp add: prid_of_def split: if_splits)
  then have "getPrid gen p st = (gen (drawn st), insert_prep gen p st)" by (simp add: getPrid_def Let_def)
  then show ?thesis using insert_prep_ok [OF assms] unfolding has_prid_def by blast
qed

lemma run_cmd_has:
  assumes "has_prid p x d st"
  shows "\<exists>st'. run_cmd S c st = (fst (srv_exec S c (server st)), st') \<and> has_prid p x d st'"
  using assms unfolding has_prid_def run_cmd_def by (auto split: prod.splits)

lemma genPrid_has: "has_prid p x d st \<Longrightarrow> has_prid p (gen d) (Suc d) (genPrid gen p st)"
  using genPrid_found [of st p x gen] unfolding has_prid_def by blast

lemma run_cmd_exec:
  "srv_exec S c (server st) = (r, s') \<Longrightarrow> run_cmd S c st = (r, st\<lparr>server := s'\<rparr>)"
  by (simp add: run_cmd_def)

lemma has_prid_server [simp]: "has_prid p x d (st\<lparr>server := s'\<rparr>) = has_prid p x d st"
  by (simp add: has_prid_def)

text \<open>
  What PostgreSQL documents of a connection that does not break, for the identifiers in \<open>N\<close> and a valid
  statement \<open>sql\<close>: \<open>view\<close> is the transaction of a session and \<open>has\<close> its prepared statements.  A
  savepoint can be set in a transaction; preparing under a name in use is an error, which aborts the transaction;
  a roll back to the latest savepoint ends the abort, and a release drops it; prepared statements outlive
  roll backs.  Nothing is said of the execution.
\<close>

definition sp_name :: "string \<Rightarrow> string" where
  "sp_name x = ''pgcp'' @ x"

definition pg_documented ::
  "'s pgserver \<Rightarrow> ('s \<Rightarrow> txn) \<Rightarrow> ('s \<Rightarrow> string \<Rightarrow> string option) \<Rightarrow> string set \<Rightarrow> string \<Rightarrow> bool" where
  "pg_documented S view has N sql \<longleftrightarrow>
     (\<forall>s. srv_trans S s \<longleftrightarrow> view s \<noteq> NoTrans) \<and>
     (\<forall>s sps. \<forall>x\<in>N. view s = InTrans sps \<longrightarrow>
        (\<exists>s'. srv_exec S (Query (''SAVEPOINT pgcp'' @ x)) s = (ROk, s') \<and>
           view s' = InTrans (sp_name x # sps) \<and> has s' = has s)) \<and>
     (\<forall>s sps. \<forall>x\<in>N. view s = InError (sp_name x # sps) \<longrightarrow>
        (\<exists>s'. srv_exec S (Query (''ROLLBACK TO SAVEPOINT pgcp'' @ x)) s = (ROk, s') \<and>
           view s' = InTrans (sp_name x # sps) \<and> has s' = has s)) \<and>
     (\<forall>s sps. \<forall>x\<in>N. view s = InTrans (sp_name x # sps) \<longrightarrow>
        (\<exists>s'. srv_exec S (Query (''RELEASE SAVEPOINT pgcp'' @ x)) s = (ROk, s') \<and>
           view s' = InTrans sps \<and> has s' = has s)) \<and>
     (\<forall>s. \<forall>x\<in>N. has s x = None \<and> (\<forall>sps. view s \<noteq> InError sps) \<longrightarrow>
        (\<exists>s'. srv_exec S (Prepare x sql) s = (ROk, s') \<and> view s' = view s \<and> has s' = (has s)(x \<mapsto> sql))) \<and>
     (\<forall>s. \<forall>x\<in>N. has s x \<noteq> None \<and> (\<forall>sps. view s \<noteq> InError sps) \<longrightarrow>
        (\<exists>s'. srv_exec S (Prepare x sql) s = (RError ''42P05'', s') \<and> has s' = has s \<and>
           view s' = (case view s of InTrans sps \<Rightarrow> InError sps | t \<Rightarrow> t)))"

lemma documented:
  assumes "pg_documented S view has N sql" "x \<in> N"
  shows "srv_trans S s \<longleftrightarrow> view s \<noteq> NoTrans"
    and "view s = InTrans sps \<Longrightarrow> \<exists>s'. srv_exec S (Query (''SAVEPOINT pgcp'' @ x)) s = (ROk, s') \<and>
      view s' = InTrans (sp_name x # sps) \<and> has s' = has s"
    and "view s = InError (sp_name x # sps) \<Longrightarrow> \<exists>s'. srv_exec S (Query (''ROLLBACK TO SAVEPOINT pgcp'' @ x)) s = (ROk, s') \<and>
      view s' = InTrans (sp_name x # sps) \<and> has s' = has s"
    and "view s = InTrans (sp_name x # sps) \<Longrightarrow> \<exists>s'. srv_exec S (Query (''RELEASE SAVEPOINT pgcp'' @ x)) s = (ROk, s') \<and>
      view s' = InTrans sps \<and> has s' = has s"
    and "has s x = None \<Longrightarrow> view s = InTrans sps \<Longrightarrow> \<exists>s'. srv_exec S (Prepare x sql) s = (ROk, s') \<and>
      view s' = InTrans sps \<and> has s' = (has s)(x \<mapsto> sql)"
    and "has s x \<noteq> None \<Longrightarrow> view s = InTrans sps \<Longrightarrow> \<exists>s'. srv_exec S (Prepare x sql) s = (RError ''42P05'', s') \<and>
      view s' = InError sps \<and> has s' = has s"
    and "has s x \<noteq> None \<Longrightarrow> view s = NoTrans \<Longrightarrow> \<exists>s'. srv_exec S (Prepare x sql) s = (RError ''42P05'', s') \<and>
      view s' = NoTrans \<and> has s' = has s"
proof -
  note doc = assms(1) [unfolded pg_documented_def]
  show "srv_trans S s \<longleftrightarrow> view s \<noteq> NoTrans" using doc by blast
  show "\<exists>s'. srv_exec S (Query (''SAVEPOINT pgcp'' @ x)) s = (ROk, s') \<and>
      view s' = InTrans (sp_name x # sps) \<and> has s' = has s" if "view s = InTrans sps"
    using doc [THEN conjunct2, THEN conjunct1] assms(2) that by blast
  show "\<exists>s'. srv_exec S (Query (''ROLLBACK TO SAVEPOINT pgcp'' @ x)) s = (ROk, s') \<and>
      view s' = InTrans (sp_name x # sps) \<and> has s' = has s" if "view s = InError (sp_name x # sps)"
    using doc [THEN conjunct2, THEN conjunct2, THEN conjunct1] assms(2) that by blast
  show "\<exists>s'. srv_exec S (Query (''RELEASE SAVEPOINT pgcp'' @ x)) s = (ROk, s') \<and>
      view s' = InTrans sps \<and> has s' = has s" if "view s = InTrans (sp_name x # sps)"
    using doc [THEN conjunct2, THEN conjunct2, THEN conjunct2, THEN conjunct1] assms(2) that by blast
  note new = doc [THEN conjunct2, THEN conjunct2, THEN conjunct2, THEN conjunct2, THEN conjunct1, rule_format, OF assms(2)]
  note dup = doc [THEN conjunct2, THEN conjunct2, THEN conjunct2, THEN conjunct2, THEN conjunct2, rule_format, OF assms(2)]
  show "\<exists>s'. srv_exec S (Prepare x sql) s = (ROk, s') \<and> view s' = InTrans sps \<and> has s' = (has s)(x \<mapsto> sql)"
    if "has s x = None" "view s = InTrans sps"
    using new [of s] that by auto
  show "\<exists>s'. srv_exec S (Prepare x sql) s = (RError ''42P05'', s') \<and> view s' = InError sps \<and> has s' = has s"
    if "has s x \<noteq> None" "view s = InTrans sps"
    using dup [of s] that by auto
  show "\<exists>s'. srv_exec S (Prepare x sql) s = (RError ''42P05'', s') \<and> view s' = NoTrans \<and> has s' = has s"
    if "has s x \<noteq> None" "view s = NoTrans"
    using dup [of s] that by auto
qed

text \<open>The statement has the identifier \<open>x\<close>, and the session is in the transaction \<open>v\<close> with the statements \<open>m\<close>.\<close>

definition stands ::
  "('s \<Rightarrow> txn) \<Rightarrow> ('s \<Rightarrow> string \<Rightarrow> string option) \<Rightarrow> nat \<Rightarrow> string \<Rightarrow> nat \<Rightarrow> txn \<Rightarrow> (string \<Rightarrow> string option) \<Rightarrow> 's pconn \<Rightarrow> bool" where
  "stands view has p x d v m st \<longleftrightarrow> has_prid p x d st \<and> view (server st) = v \<and> has (server st) = m"

lemma getPrid_stands:
  "stands view has p x d v m st \<Longrightarrow> \<exists>st'. getPrid gen p st = (x, st') \<and> stands view has p x d v m st'"
  using getPrid_has [of p x d st gen] unfolding stands_def by auto

lemma run_cmd_stands:
  assumes "stands view has p x d v m st" "\<exists>s'. srv_exec S c (server st) = (r, s') \<and> view s' = v' \<and> has s' = m'"
  shows "\<exists>st'. run_cmd S c st = (r, st') \<and> stands view has p x d v' m' st'"
  using assms run_cmd_exec [of S c st r] by (auto simp: stands_def)

lemma savepoint_stands:
  assumes "pg_documented S view has N sql" "x \<in> N" "getPrid gen p st = (x, st1)"
    and "stands view has p x d (InTrans sps) m st1"
  shows "\<exists>st'. savepoint S gen True p st = Inr (True, st') \<and> stands view has p x d (InTrans (sp_name x # sps)) m st'"
proof -
  have "\<exists>st'. run_cmd S (Query (''SAVEPOINT pgcp'' @ x)) st1 = (ROk, st') \<and>
      stands view has p x d (InTrans (sp_name x # sps)) m st'"
    using assms(4) documented(2) [OF assms(1,2), of "server st1" sps] by (intro run_cmd_stands) (auto simp: stands_def)
  then show ?thesis using assms(3) by (auto simp: savepoint_def)
qed

lemma release_stands:
  assumes "pg_documented S view has N sql" "x \<in> N" "stands view has p x d (InTrans (sp_name x # sps)) m st"
  shows "\<exists>st'. release S gen True p st = Inr (True, st') \<and> stands view has p x d (InTrans sps) m st'"
proof -
  obtain st1 where g: "getPrid gen p st = (x, st1)" "stands view has p x d (InTrans (sp_name x # sps)) m st1"
    using getPrid_stands [OF assms(3)] by blast
  have "\<exists>st'. run_cmd S (Query (''RELEASE SAVEPOINT pgcp'' @ x)) st1 = (ROk, st') \<and> stands view has p x d (InTrans sps) m st'"
    using g(2) documented(4) [OF assms(1,2), of "server st1" sps] by (intro run_cmd_stands) (auto simp: stands_def)
  then show ?thesis using g(1) by (auto simp: release_def)
qed

lemma rename_stands:
  assumes "pg_documented S view has N sql" "x \<in> N" "stands view has p x d (InError (sp_name x # sps)) m st"
  shows "\<exists>st'. rename_stm S gen True p st = Inr (True, st') \<and>
    stands view has p (gen d) (Suc d) (InTrans (sp_name x # sps)) m st'"
proof -
  obtain st1 where g: "getPrid gen p st = (x, st1)" "stands view has p x d (InError (sp_name x # sps)) m st1"
    using getPrid_stands [OF assms(3)] by blast
  have n: "stands view has p (gen d) (Suc d) (InError (sp_name x # sps)) m (genPrid gen p st1)"
    using g(2) genPrid_has [of p x d st1 gen] genPrid_found(3) [of st1 p x gen] by (auto simp: stands_def has_prid_def)
  have "\<exists>st'. run_cmd S (Query (''ROLLBACK TO SAVEPOINT pgcp'' @ x)) (genPrid gen p st1) = (ROk, st') \<and>
      stands view has p (gen d) (Suc d) (InTrans (sp_name x # sps)) m st'"
    using n documented(3) [OF assms(1,2), of "server (genPrid gen p st1)" sps]
    by (intro run_cmd_stands) (auto simp: stands_def)
  then show ?thesis using g(1) by (auto simp: rename_stm_def)
qed

lemma prepare_round:
  assumes doc: "pg_documented S view has N sql" and x: "x \<in> N" "getPrid gen p st = (x, st1)"
    and st: "stands view has p x d (InTrans sps) m st1"
  shows "m x = None \<Longrightarrow> \<exists>st'. prepare_loop (Suc n) S gen True p sql st = Some (Inr (True, st')) \<and>
      stands view has p x d (InTrans (sp_name x # sps)) (m(x \<mapsto> sql)) st'"
    and "m x \<noteq> None \<Longrightarrow> \<exists>st'. prepare_loop (Suc n) S gen True p sql st = prepare_loop n S gen True p sql st' \<and>
      stands view has p (gen d) (Suc d) (InTrans (sp_name x # sps)) m st'"
proof -
  obtain st2 where s: "savepoint S gen True p st = Inr (True, st2)" "stands view has p x d (InTrans (sp_name x # sps)) m st2"
    using savepoint_stands [OF doc x st] by blast
  obtain st3 where g: "getPrid gen p st2 = (x, st3)" "stands view has p x d (InTrans (sp_name x # sps)) m st3"
    using getPrid_stands [OF s(2)] by blast
  show "\<exists>st'. prepare_loop (Suc n) S gen True p sql st = Some (Inr (True, st')) \<and>
      stands view has p x d (InTrans (sp_name x # sps)) (m(x \<mapsto> sql)) st'" if "m x = None"
  proof -
    have "\<exists>st'. run_cmd S (Prepare x sql) st3 = (ROk, st') \<and>
        stands view has p x d (InTrans (sp_name x # sps)) (m(x \<mapsto> sql)) st'"
      using g(2) that documented(5) [OF doc x(1), of "server st3"] by (intro run_cmd_stands) (auto simp: stands_def)
    then show ?thesis using s(1) g(1) by auto
  qed
  show "\<exists>st'. prepare_loop (Suc n) S gen True p sql st = prepare_loop n S gen True p sql st' \<and>
      stands view has p (gen d) (Suc d) (InTrans (sp_name x # sps)) m st'" if "m x \<noteq> None"
  proof -
    have "\<exists>st'. run_cmd S (Prepare x sql) st3 = (RError ''42P05'', st') \<and>
        stands view has p x d (InError (sp_name x # sps)) m st'"
      using g(2) that documented(6) [OF doc x(1), of "server st3"] by (intro run_cmd_stands) (auto simp: stands_def)
    then obtain st4 where r: "run_cmd S (Prepare x sql) st3 = (RError ''42P05'', st4)"
      "stands view has p x d (InError (sp_name x # sps)) m st4" by blast
    obtain st5 where "rename_stm S gen True p st4 = Inr (True, st5)"
      "stands view has p (gen d) (Suc d) (InTrans (sp_name x # sps)) m st5"
      using rename_stands [OF doc x(1) r(2)] by blast
    then show ?thesis using s(1) g(1) r(1) by auto
  qed
qed

text \<open>The savepoints of the first identifiers drawn, which stay open.\<close>

definition left_open :: "(nat \<Rightarrow> string) \<Rightarrow> nat \<Rightarrow> nat \<Rightarrow> string list" where
  "left_open gen d j = rev (map (\<lambda>i. sp_name (gen i)) [d..<d + j])"

lemma left_open_simps:
  "left_open gen d 0 = []" "left_open gen d (Suc j) = left_open gen (Suc d) j @ [sp_name (gen d)]"
  by (simp_all add: left_open_def upt_conv_Cons del: upt_Suc)

lemma prepare_loop_returns:
  assumes doc: "pg_documented S view has (range gen) sql"
  shows "getPrid gen p st = (gen d, st1) \<Longrightarrow> stands view has p (gen d) (Suc d) (InTrans sps) m st1 \<Longrightarrow>
    m (gen (d + k)) = None \<Longrightarrow>
    \<exists>j\<le>k. \<exists>st'. (\<forall>i<j. m (gen (d + i)) \<noteq> None) \<and> m (gen (d + j)) = None \<and>
      prepare_loop (Suc k) S gen True p sql st = Some (Inr (True, st')) \<and>
      stands view has p (gen (d + j)) (Suc (d + j)) (InTrans (sp_name (gen (d + j)) # left_open gen d j @ sps))
        (m(gen (d + j) \<mapsto> sql)) st'"
proof (induction k arbitrary: st d st1 sps)
  case 0
  then have n: "m (gen d) = None" by simp
  from prepare_round(1) [OF doc rangeI 0(1,2) n, of 0] show ?case
    using n by (auto simp only: left_open_simps add_0_right append_Nil le_zero_eq simp_thms not_less0)
next
  case (Suc k)
  show ?case
  proof (cases "m (gen d) = None")
    case True
    from prepare_round(1) [OF doc rangeI Suc.prems(1,2) this, of "Suc k"] True show ?thesis
      by (intro exI [of _ "0::nat"]) (simp only: left_open_simps add_0_right append_Nil simp_thms not_less0 zero_le)
  next
    case False
    then obtain st2 where l: "prepare_loop (Suc (Suc k)) S gen True p sql st = prepare_loop (Suc k) S gen True p sql st2"
      and st2: "stands view has p (gen (Suc d)) (Suc (Suc d)) (InTrans (sp_name (gen d) # sps)) m st2"
      using prepare_round(2) [OF doc rangeI Suc.prems(1,2), of "Suc k"] by blast
    obtain st3 where g: "getPrid gen p st2 = (gen (Suc d), st3)"
      "stands view has p (gen (Suc d)) (Suc (Suc d)) (InTrans (sp_name (gen d) # sps)) m st3"
      using getPrid_stands [OF st2] by blast
    have "m (gen (Suc d + k)) = None" using Suc.prems(3) by simp
    from Suc.IH [OF g this] obtain j st' where j: "j \<le> k" "\<forall>i<j. m (gen (Suc d + i)) \<noteq> None" "m (gen (Suc d + j)) = None"
      "prepare_loop (Suc k) S gen True p sql st2 = Some (Inr (True, st'))"
      "stands view has p (gen (Suc d + j)) (Suc (Suc d + j))
        (InTrans (sp_name (gen (Suc d + j)) # left_open gen (Suc d) j @ sp_name (gen d) # sps)) (m(gen (Suc d + j) \<mapsto> sql)) st'"
      by blast
    have d: "Suc d + j = d + Suc j" "left_open gen (Suc d) j @ sp_name (gen d) # sps = left_open gen d (Suc j) @ sps"
      by (simp_all add: left_open_simps)
    have "\<forall>i<Suc j. m (gen (d + i)) \<noteq> None" using j(2) False by (auto simp: less_Suc_eq_0_disj)
    with j(1) j(3-5) [unfolded d] show ?thesis unfolding l
      by (intro exI [of _ "Suc j"] exI [of _ st'] conjI) (simp_all only: Suc_le_mono)
  qed
qed

text \<open>
  C28: in a transaction on a connection that does not break, preparing draws identifiers until one comes that the
  server does not use, the \<open>j\<close>-th, and takes one round for each.  Then the statement is prepared on the server
  under that identifier and no other, the container remembers it, the transaction goes on, with the savepoints of
  the identifiers that were in use still open, and the result is what the server replies to the execution of that
  identifier.
\<close>

theorem prepare_in_transaction_returns:
  assumes "pg_documented S view has (range gen) sql" "has (server st) (gen (drawn st + k)) = None"
    and "preps_ok (preps st)" "\<not> hasPrepared p st" "now_time st = Some t" "srv_alive S (server st)"
    and "view (server st) = InTrans sps"
  shows "\<exists>j\<le>k. \<exists>r st' s1. let x = gen (drawn st + j) in
    (\<forall>i<j. has (server st) (gen (drawn st + i)) \<noteq> None) \<and> has (server st) x = None \<and>
    has s1 = (has (server st))(x \<mapsto> sql) \<and> view s1 = InTrans (left_open gen (drawn st) j @ sps) \<and>
    srv_exec S (ExecPrepared x) s1 = (r, server st') \<and>
    runQueryWithPrepare (Suc k) S gen p sql st = Some (Inr (r, st')) \<and>
    prid_of (preps st') p = Some x \<and> preps_ok (preps st') \<and> drawn st' = Suc (drawn st + j)"
proof -
  let ?d = "drawn st"
  have "prid_of (preps st) p = None" using assms(4) by (simp add: prid_of_def hasPrepared_def)
  then have g: "getPrid gen p st = (gen ?d, insert_prep gen p st)"
    by (auto simp: prid_of_def getPrid_def Let_def split: if_splits)
  have "stands view has p (gen ?d) (Suc ?d) (InTrans sps) (has (server st)) (insert_prep gen p st)"
    using insert_prep_ok [OF assms(3) \<open>prid_of (preps st) p = None\<close>, of gen] assms(7) by (simp add: stands_def has_prid_def)
  from prepare_loop_returns [OF assms(1) g this assms(2)] obtain j st1 where j: "j \<le> k"
    "\<forall>i<j. has (server st) (gen (?d + i)) \<noteq> None" "has (server st) (gen (?d + j)) = None"
    and l: "prepare_loop (Suc k) S gen True p sql st = Some (Inr (True, st1))"
      "stands view has p (gen (?d + j)) (Suc (?d + j)) (InTrans (sp_name (gen (?d + j)) # left_open gen ?d j @ sps))
        ((has (server st))(gen (?d + j) \<mapsto> sql)) st1" by blast
  let ?x = "gen (?d + j)" and ?v = "InTrans (left_open gen ?d j @ sps)" and ?m = "(has (server st))(gen (?d + j) \<mapsto> sql)"
  obtain st2 where r: "release S gen True p st1 = Inr (True, st2)" "stands view has p ?x (Suc (?d + j)) ?v ?m st2"
    using release_stands [OF assms(1) rangeI l(2)] by blast
  obtain st3 where x: "getPrid gen p st2 = (?x, st3)" "stands view has p ?x (Suc (?d + j)) ?v ?m st3"
    using getPrid_stands [OF r(2)] by blast
  obtain q s4 where e: "srv_exec S (ExecPrepared ?x) (server st3) = (q, s4)" by fastforce
  have "exec_prepared S gen p st2 = (q, st3\<lparr>server := s4\<rparr>)" using x(1) e by (simp add: exec_prepared_def run_cmd_def)
  moreover have "srv_trans S (server st)" using documented(1) [OF assms(1) rangeI] assms(7) by simp
  ultimately have "runQueryWithPrepare (Suc k) S gen p sql st = Some (Inr (q, st3\<lparr>server := s4\<rparr>))"
    using assms(4-6) l(1) r(1) by (simp add: runQueryWithPrepare_def processQueryWithPrepare_def)
  then show ?thesis
    using j e x(2) by (intro exI [of _ j] exI [of _ q] exI [of _ "st3\<lparr>server := s4\<rparr>"] exI [of _ "server st3"] conjI)
      (simp_all add: Let_def stands_def has_prid_def)
qed

lemma sample_documented: "pg_documented sample_server fst snd N sql"
  by (auto simp: pg_documented_def sample_server_def sample_exec_def sample_query_def sp_name_def split: txn.splits)

theorem prepare_in_transaction_returns_witness:
  "\<exists>st'. runQueryWithPrepare 2 sample_server sample_gen 3 ''SELECT 1'' (sample_conn True) = Some (Inr (RTuples, st')) \<and>
     prid_of (preps st') 3 = Some ''b''"
proof -
  have h: "snd (server (sample_conn True)) (sample_gen (drawn (sample_conn True) + 1)) = None"
    by (simp add: sample_conn_ok sample_gen_def)
  have s: "srv_alive sample_server (server (sample_conn True))" "fst (server (sample_conn True)) = InTrans []"
    by (simp_all add: sample_conn_ok sample_server_def)
  obtain j r st' s1 where j: "j \<le> 1"
    and run: "let x = sample_gen (drawn (sample_conn True) + j) in
      (\<forall>i<j. snd (server (sample_conn True)) (sample_gen (drawn (sample_conn True) + i)) \<noteq> None) \<and>
      snd (server (sample_conn True)) x = None \<and>
      snd s1 = (snd (server (sample_conn True)))(x \<mapsto> ''SELECT 1'') \<and>
      fst s1 = InTrans (left_open sample_gen (drawn (sample_conn True)) j @ []) \<and>
      srv_exec sample_server (ExecPrepared x) s1 = (r, server st') \<and>
      runQueryWithPrepare (Suc 1) sample_server sample_gen 3 ''SELECT 1'' (sample_conn True) = Some (Inr (r, st')) \<and>
      prid_of (preps st') 3 = Some x \<and> preps_ok (preps st') \<and> drawn st' = Suc (drawn (sample_conn True) + j)"
    using prepare_in_transaction_returns [where gen = sample_gen and k = 1, OF sample_documented h sample_conn_ok(1,2,3) s]
    by blast
  have "j = 1" using run j by (cases j) (auto simp: Let_def sample_conn_ok sample_gen_def)
  obtain t m where s1: "s1 = (t, m)" by fastforce
  have "r = RTuples" using run by (auto simp: Let_def s1 sample_server_def sample_exec_def split: if_splits)
  then show ?thesis using run unfolding \<open>j = 1\<close> numeral_2_eq_2 One_nat_def Let_def
    by (auto simp: sample_conn_ok sample_gen_def)
qed

text \<open>
  Outside a transaction the same identifier is tried again after the server has said that it is in use:
  if the first one drawn is in use, preparing never ends, whatever the bound.
\<close>

theorem prepare_never_returns:
  assumes "pg_documented S view has (range gen) sql" "has (server st) (gen (drawn st)) \<noteq> None"
    and "preps_ok (preps st)" "\<not> hasPrepared p st"
    and "now_time st = Some t" "srv_alive S (server st)" "view (server st) = NoTrans"
  shows "runQueryWithPrepare n S gen p sql st = None"
proof -
  let ?x = "gen (drawn st)" and ?m = "has (server st)"
  have again: "prepare_loop n S gen False p sql s = None"
    if "getPrid gen p s = (?x, s1)" "stands view has p ?x d NoTrans ?m s1" for n s s1 d
    using that
  proof (induction n arbitrary: s s1)
    case (Suc n)
    have "\<exists>s2. run_cmd S (Prepare ?x sql) s1 = (RError ''42P05'', s2) \<and> stands view has p ?x d NoTrans ?m s2"
      using Suc.prems(2) assms(2) documented(7) [OF assms(1) rangeI, of "server s1"]
      by (intro run_cmd_stands) (auto simp: stands_def)
    then obtain s2 where c: "run_cmd S (Prepare ?x sql) s1 = (RError ''42P05'', s2)" "stands view has p ?x d NoTrans ?m s2"
      by blast
    obtain s3 where g: "getPrid gen p s2 = (?x, s3)" "stands view has p ?x d NoTrans ?m s3"
      using getPrid_stands [OF c(2)] by blast
    have "prepare_loop (Suc n) S gen False p sql s = prepare_loop n S gen False p sql s2"
      using Suc.prems(1) c(1) by (simp add: savepoint_def rename_stm_def)
    also have "\<dots> = None" by (rule Suc.IH [OF g])
    finally show ?case .
  qed simp
  have n: "prid_of (preps st) p = None" using assms(4) by (simp add: prid_of_def hasPrepared_def)
  then have g: "getPrid gen p st = (?x, insert_prep gen p st)"
    by (auto simp: prid_of_def getPrid_def Let_def split: if_splits)
  have "stands view has p ?x (Suc (drawn st)) NoTrans ?m (insert_prep gen p st)"
    using insert_prep_ok [OF assms(3) n, of gen] assms(7) by (simp add: stands_def has_prid_def)
  from again [OF g this] have "prepare_loop n S gen False p sql st = None" .
  moreover have "\<not> srv_trans S (server st)" using documented(1) [OF assms(1) rangeI] assms(7) by simp
  ultimately show ?thesis using assms(4-6) by (simp add: runQueryWithPrepare_def processQueryWithPrepare_def)
qed

theorem prepare_never_returns_witness:
  "runQueryWithPrepare 100 sample_server sample_gen 3 ''SELECT 1'' (sample_conn False) = None"
  by (rule prepare_never_returns [OF sample_documented _ sample_conn_ok(1,2,3)])
    (simp_all add: sample_conn_ok sample_gen_def sample_server_def)

end
