(* ===== verification/HttpDate.thy ===== *)
theory HttpDate
  imports HttpHeaders Numerals VariantTypes PgCalendar
begin

text \<open>
  The values of headers: what is written (http/headerValue_generators.cpp) and the parser of dates
  (http/headerValue_parsers.cpp).  Spirit's number parser and generator and the C library's
  \<open>gmtime_r\<close> and \<open>timegm\<close> are parameters.
\<close>

subsection \<open>Numbers\<close>

text \<open>\<open>uint_\<close> of Spirit: the parser gives the number and the rest, the generator the digits.\<close>

record uintlib =
  ul_parse :: "string \<Rightarrow> (nat \<times> string) option"
  ul_gen :: "nat \<Rightarrow> string"

fun dec_value :: "nat \<Rightarrow> string \<Rightarrow> nat" where
  "dec_value n [] = n"
| "dec_value n (c # cs) = dec_value (10 * n + digit_val c) cs"

text \<open>What the documentation says of them, for \<open>unsigned\<close> of 32 bits.\<close>

definition uint_law :: "uintlib \<Rightarrow> bool" where
  "uint_law U \<longleftrightarrow>
     (\<forall>s. ul_parse U s = (let ds = takeWhile is_digit s in
        if ds = [] \<or> 2 ^ 32 \<le> dec_value 0 ds then None else Some (dec_value 0 ds, dropWhile is_digit s))) \<and>
     (\<forall>n < 2 ^ 32. ul_gen U n \<noteq> [] \<and> list_all is_digit (ul_gen U n) \<and> dec_value 0 (ul_gen U n) = n)"

subsection \<open>What is written\<close>

definition connection_text :: "econnection \<Rightarrow> string option" where
  "connection_text v = (case v of EcClose \<Rightarrow> Some ''Close'' | EcKeepAlive \<Rightarrow> Some ''Keep-Alive'' | EcUnknown \<Rightarrow> None)"

text \<open>The terms of the flags that are set, with commas between; identity when there is none.\<close>

definition add_term :: "bool \<Rightarrow> string \<Rightarrow> bool \<times> string \<Rightarrow> bool \<times> string" where
  "add_term on term st = (case st of (first, out) \<Rightarrow>
     if on then (False, out @ (if first then '''' else '', '') @ term) else st)"

definition add_identity :: "bool \<Rightarrow> bool \<times> string \<Rightarrow> bool \<times> string" where
  "add_identity on st = add_term (fst st \<or> on) ''identity'' st"

definition te_text :: "flags \<Rightarrow> string" where
  "te_text v = snd (add_identity (v AND ete_identity \<noteq> 0) (add_term (v AND ete_compress \<noteq> 0) ''compress''
     (add_term (v AND ete_deflate \<noteq> 0) ''deflate'' (add_term (v AND ete_gzip \<noteq> 0) ''gzip''
       (add_term (v AND ete_chunked \<noteq> 0) ''chunked'' (True, ''''))))))"

definition ce_text :: "flags \<Rightarrow> string" where
  "ce_text v = snd (add_identity (v AND ece_identity \<noteq> 0) (add_term (v AND ece_compress \<noteq> 0) ''compress''
     (add_term (v AND ece_deflate \<noteq> 0) ''deflate'' (add_term (v AND ece_gzip \<noteq> 0) ''gzip'' (True, '''')))))"

text \<open>Dates: the names of the days and the months, and numbers of two digits.\<close>

definition wkdays :: "string list" where
  "wkdays = [''Sun'', ''Mon'', ''Tue'', ''Wed'', ''Thu'', ''Fri'', ''Sat'']"

definition months :: "string list" where
  "months = [''Jan'', ''Feb'', ''Mar'', ''Apr'', ''May'', ''Jun'', ''Jul'', ''Aug'', ''Sep'', ''Oct'', ''Nov'', ''Dec'']"

definition weekdays :: "string list" where
  "weekdays = [''Sunday'', ''Monday'', ''Tuesday'', ''Wednesday'', ''Thursday'', ''Friday'', ''Saturday'']"

definition symbol :: "string list \<Rightarrow> 32 word \<Rightarrow> string option" where
  "symbol tab w = (if 0 \<le> sint w \<and> nat (sint w) < length tab then Some (tab ! nat (sint w)) else None)"

definition right_align2 :: "string \<Rightarrow> string" where
  "right_align2 s = replicate (2 - length s) (CHR ''0'') @ s"

text \<open>\<open>None\<close> where a symbol is missing: the assertion on the result of \<open>generate\<close>.\<close>

definition date_text :: "uintlib \<Rightarrow> (int \<Rightarrow> tm) \<Rightarrow> int \<Rightarrow> string option" where
  "date_text U gmtime v = (let stm = gmtime v in
     case symbol wkdays (tm_wday stm) of None \<Rightarrow> None | Some wd \<Rightarrow>
     (case symbol months (tm_mon stm) of None \<Rightarrow> None | Some mn \<Rightarrow>
       Some (wd @ '', '' @ right_align2 (ul_gen U (unat (tm_mday stm))) @ '' '' @ mn @ '' '' @
         ul_gen U (unat (tm_year stm + 1900)) @ '' '' @ right_align2 (ul_gen U (unat (tm_hour stm))) @ '':'' @
         right_align2 (ul_gen U (unat (tm_min stm))) @ '':'' @ right_align2 (ul_gen U (unat (tm_sec stm))) @ '' GMT'')))"

subsection \<open>The parser of dates\<close>

text \<open>A rule reads a front part of the text and sets fields of \<open>stm\<close> as it goes, also when it fails later.\<close>

type_synonym rule = "tm \<Rightarrow> string \<Rightarrow> tm \<times> string option"

definition seq :: "rule \<Rightarrow> rule \<Rightarrow> rule" where
  "seq p q = (\<lambda>t s. case p t s of (t, None) \<Rightarrow> (t, None) | (t, Some s) \<Rightarrow> q t s)"

definition alt :: "rule \<Rightarrow> rule \<Rightarrow> rule" where
  "alt p q = (\<lambda>t s. case p t s of (t, Some s) \<Rightarrow> (t, Some s) | (t, None) \<Rightarrow> q t s)"

fun rules :: "rule list \<Rightarrow> rule" where
  "rules [] = (\<lambda>t s. (t, Some s))"
| "rules (p # ps) = seq p (rules ps)"

definition lit :: "string \<Rightarrow> rule" where
  "lit l = (\<lambda>t s. (t, if starts l s then Some (drop (length l) s) else None))"

definition blanks :: rule where
  "blanks = (\<lambda>t s. (t, if starts '' '' s then Some (dropWhile (\<lambda>c. c = CHR '' '') s) else None))"

definition number :: "uintlib \<Rightarrow> (32 word \<Rightarrow> tm \<Rightarrow> tm) \<Rightarrow> rule" where
  "number U f = (\<lambda>t s. case ul_parse U s of None \<Rightarrow> (t, None) | Some (n, r) \<Rightarrow> (f (word_of_nat n) t, Some r))"

fun find_symbol :: "string list \<Rightarrow> nat \<Rightarrow> string \<Rightarrow> (nat \<times> string) option" where
  "find_symbol [] i s = None"
| "find_symbol (n # ns) i s = (if starts n s then Some (i, drop (length n) s) else find_symbol ns (Suc i) s)"

definition sym :: "string list \<Rightarrow> (32 word \<Rightarrow> tm \<Rightarrow> tm) \<Rightarrow> rule" where
  "sym tab f = (\<lambda>t s. case find_symbol tab 0 s of None \<Rightarrow> (t, None) | Some (i, r) \<Rightarrow> (f (word_of_nat i) t, Some r))"

definition set_wday :: "32 word \<Rightarrow> tm \<Rightarrow> tm" where "set_wday w t = t\<lparr>tm_wday := w\<rparr>"
definition set_mday :: "32 word \<Rightarrow> tm \<Rightarrow> tm" where "set_mday w t = t\<lparr>tm_mday := w\<rparr>"
definition set_mon :: "32 word \<Rightarrow> tm \<Rightarrow> tm" where "set_mon w t = t\<lparr>tm_mon := w\<rparr>"
definition set_year :: "32 word \<Rightarrow> 32 word \<Rightarrow> tm \<Rightarrow> tm" where "set_year d w t = t\<lparr>tm_year := w + d\<rparr>"
definition set_hour :: "32 word \<Rightarrow> tm \<Rightarrow> tm" where "set_hour w t = t\<lparr>tm_hour := w\<rparr>"
definition set_min :: "32 word \<Rightarrow> tm \<Rightarrow> tm" where "set_min w t = t\<lparr>tm_min := w\<rparr>"
definition set_sec :: "32 word \<Rightarrow> tm \<Rightarrow> tm" where "set_sec w t = t\<lparr>tm_sec := w\<rparr>"

definition time_rule :: "uintlib \<Rightarrow> rule" where
  "time_rule U = rules [number U set_hour, lit '':'', number U set_min, lit '':'', number U set_sec]"

definition rfc1123 :: "uintlib \<Rightarrow> rule" where
  "rfc1123 U = rules [sym wkdays set_wday, lit '','', blanks, number U set_mday, blanks, sym months set_mon, blanks,
     number U (set_year (- 1900)), blanks, time_rule U, lit '' GMT'']"

definition rfc850 :: "uintlib \<Rightarrow> rule" where
  "rfc850 U = rules [sym weekdays set_wday, lit '','', blanks, number U set_mday, lit ''-'', sym months set_mon, lit ''-'',
     number U (set_year 100), blanks, time_rule U, lit '' GMT'']"

definition asctime_rule :: "uintlib \<Rightarrow> rule" where
  "asctime_rule U = rules [sym weekdays set_wday, blanks, sym months set_mon, blanks, number U set_mday, blanks, time_rule U,
     blanks, number U (set_year (- 1900))]"

definition zero_tm :: tm where
  "zero_tm = \<lparr>tm_sec = 0, tm_min = 0, tm_hour = 0, tm_mday = 0, tm_mon = 0, tm_year = 0, tm_wday = 0, tm_yday = 0, tm_isdst = 0\<rparr>"

definition parse_date :: "uintlib \<Rightarrow> (tm \<Rightarrow> int) \<Rightarrow> string \<Rightarrow> int option" where
  "parse_date U timegm s = (case alt (rfc1123 U) (alt (rfc850 U) (asctime_rule U)) zero_tm s of
     (t, None) \<Rightarrow> None | (t, Some r) \<Rightarrow> Some (timegm t))"

subsection \<open>Round trip\<close>

lemma is_digit_dash [simp]: "\<not> is_digit (CHR '' '')" "\<not> is_digit (CHR '':'')" "\<not> is_digit (CHR '','')" "\<not> is_digit (CHR ''-'')"
  by (simp_all add: is_digit_def)

lemma is_digit_0 [simp]: "is_digit (CHR ''0'')"
  by (simp add: is_digit_def)

lemma dec_value_pad: "dec_value 0 (replicate k (CHR ''0'') @ s) = dec_value 0 s"
  by (induction k) (simp_all add: digit_val_def)

text \<open>A printed number, with zeros in front, in front of something that is no digit.\<close>

definition stops :: "string \<Rightarrow> bool" where
  "stops s \<longleftrightarrow> s = [] \<or> \<not> is_digit (hd s)"

lemma number_printed:
  assumes "uint_law U" "stops r"
  shows "number U f t (ul_gen U (unat w) @ r) = (f w t, Some r)"
    and "number U f t (right_align2 (ul_gen U (unat w)) @ r) = (f w t, Some r)"
proof -
  have n: "unat w < 2 ^ 32" using unsigned_less [of w, where 'a = nat] by simp
  have parse: "ul_parse U (replicate k (CHR ''0'') @ ul_gen U (unat w) @ r) = Some (unat w, r)" for k
  proof -
    let ?d = "replicate k (CHR ''0'') @ ul_gen U (unat w)"
    have d: "list_all is_digit ?d" "?d \<noteq> []" "dec_value 0 ?d = unat w"
      using assms(1) n unfolding uint_law_def by (auto simp: dec_value_pad list_all_iff)
    have "takeWhile is_digit (?d @ r) = ?d" "dropWhile is_digit (?d @ r) = r"
      using d(1) assms(2) by (auto simp: list_all_iff stops_def takeWhile_append dropWhile_append takeWhile_eq_Nil_iff dropWhile_eq_self_iff)
    then show ?thesis using assms(1) d n unfolding uint_law_def by (simp add: Let_def)
  qed
  show "number U f t (ul_gen U (unat w) @ r) = (f w t, Some r)"
    using parse [of 0] by (simp add: number_def)
  show "number U f t (right_align2 (ul_gen U (unat w)) @ r) = (f w t, Some r)"
    using parse by (simp add: number_def right_align2_def)
qed

lemma stops_simps [simp]: "stops (CHR '' '' # s)" "stops (CHR '':'' # s)" "stops []"
  by (simp_all add: stops_def)

lemma symbol_range:
  assumes "symbol tab w = Some n" "length tab \<le> 12"
  obtains i where "i < length tab" "n = tab ! i" "w = word_of_nat i"
proof -
  have w: "0 \<le> sint w" "nat (sint w) < length tab" "n = tab ! nat (sint w)"
    using assms(1) unfolding symbol_def by (auto split: if_splits)
  have "word_of_nat (nat (sint w)) = w" using w(1) by simp
  then show ?thesis using that [of "nat (sint w)"] w by simp
qed

text \<open>No name of a table begins with another one before it.\<close>

lemma find_symbol_at:
  "i < length tab \<Longrightarrow> (\<forall>j < i. \<not> starts (tab ! j) (tab ! i @ r)) \<Longrightarrow>
     find_symbol tab k (tab ! i @ r) = Some (k + i, r)"
proof (induction tab arbitrary: i k)
  case (Cons n ns)
  show ?case
  proof (cases i)
    case 0
    then show ?thesis by (simp add: starts_def)
  next
    case (Suc j)
    have "\<not> starts n (ns ! j @ r)" using Cons.prems(2) Suc by (metis nth_Cons_0 nth_Cons_Suc zero_less_Suc)
    moreover have "\<forall>l < j. \<not> starts (ns ! l) (ns ! j @ r)" using Cons.prems(2) Suc by (metis Suc_mono nth_Cons_Suc)
    ultimately show ?thesis using Cons.IH [of j "Suc k"] Cons.prems(1) Suc by simp
  qed
qed simp

lemma starts_same_length: "length n = length m \<Longrightarrow> starts n (m @ r) \<longleftrightarrow> n = m"
  by (auto simp: starts_def)

lemma sym_three:
  assumes "distinct tab" "\<forall>n\<in>set tab. length n = 3" "i < length tab"
  shows "sym tab f t (tab ! i @ r) = (f (word_of_nat i) t, Some r)"
proof -
  have "\<not> starts (tab ! j) (tab ! i @ r)" if "j < i" for j
    using assms that by (simp add: starts_same_length nth_eq_iff_index_eq)
  then show ?thesis using find_symbol_at [of i tab r 0] assms(3) by (simp add: sym_def)
qed

lemma tables_three: "distinct wkdays" "\<forall>n\<in>set wkdays. length n = 3" "distinct months" "\<forall>n\<in>set months. length n = 3"
  by (simp_all add: wkdays_def months_def)

lemma sym_symbol:
  assumes "symbol tab w = Some n" "distinct tab" "\<forall>n\<in>set tab. length n = 3" "length tab \<le> 12"
  shows "sym tab f t (n @ r) = (f w t, Some r)"
  using symbol_range [OF assms(1,4)] sym_three [OF assms(2,3)] by metis

lemma blanks_one: "hd (s @ ''x'') \<noteq> CHR '' '' \<Longrightarrow> blanks t (CHR '' '' # s) = (t, Some s)"
  by (cases s) (auto simp: blanks_def starts_def)

lemma lit_append: "lit l t (l @ s) = (t, Some s)"
  by (simp add: lit_def starts_def)

lemma seq_some: "p t s = (t', Some s') \<Longrightarrow> seq p q t s = q t' s'"
  by (simp add: seq_def)

text \<open>The calendar of the C library, for one time: \<open>timegm\<close> ignores the day of the week and of the year.\<close>

definition calendar_law :: "(int \<Rightarrow> tm) \<Rightarrow> (tm \<Rightarrow> int) \<Rightarrow> int \<Rightarrow> bool" where
  "calendar_law gmtime timegm v \<longleftrightarrow> 0 \<le> sint (tm_wday (gmtime v)) \<and> sint (tm_wday (gmtime v)) < 7 \<and>
     0 \<le> sint (tm_mon (gmtime v)) \<and> sint (tm_mon (gmtime v)) < 12 \<and> tm_isdst (gmtime v) = 0 \<and>
     (\<forall>wd yd. timegm ((gmtime v)\<lparr>tm_wday := wd, tm_yday := yd\<rparr>) = v)"

lemma printed_digits:
  assumes "uint_law U"
  shows "blanks t (CHR '' '' # ul_gen U (unat (w :: 32 word)) @ r) = (t, Some (ul_gen U (unat w) @ r))"
    and "blanks t (CHR '' '' # right_align2 (ul_gen U (unat (w :: 32 word))) @ r) = (t, Some (right_align2 (ul_gen U (unat w)) @ r))"
proof -
  have n: "unat w < 2 ^ 32" using unsigned_less [of w, where 'a = nat] by simp
  then have d: "ul_gen U (unat w) \<noteq> []" "list_all is_digit (ul_gen U (unat w))"
    using assms unfolding uint_law_def by blast+
  then have "hd (ul_gen U (unat w)) \<noteq> CHR '' ''" by (cases "ul_gen U (unat w)") auto
  then show "blanks t (CHR '' '' # ul_gen U (unat w) @ r) = (t, Some (ul_gen U (unat w) @ r))"
    using d(1) by (intro blanks_one) simp
  have "right_align2 (ul_gen U (unat w)) \<noteq> []" "list_all is_digit (right_align2 (ul_gen U (unat w)))"
    using d by (auto simp: right_align2_def list_all_iff)
  then have "hd (right_align2 (ul_gen U (unat w))) \<noteq> CHR '' ''" "right_align2 (ul_gen U (unat w)) \<noteq> []"
    by (cases "right_align2 (ul_gen U (unat w))"; auto)+
  then show "blanks t (CHR '' '' # right_align2 (ul_gen U (unat w)) @ r) = (t, Some (right_align2 (ul_gen U (unat w)) @ r))"
    by (intro blanks_one) simp
qed

lemma blanks_month: "symbol months w = Some n \<Longrightarrow> blanks t (CHR '' '' # n @ r) = (t, Some (n @ r))"
proof -
  assume "symbol months w = Some n"
  then have "n \<in> set months" by (auto simp: symbol_def split: if_splits)
  then have "n \<noteq> []" "hd n \<noteq> CHR '' ''" by (auto simp: months_def)
  then show ?thesis by (intro blanks_one) simp
qed

lemmas rule_steps = sym_symbol number_printed printed_digits blanks_month lit_append

lemma time_rule_text:
  assumes "uint_law U" "stops r"
  shows "time_rule U t (right_align2 (ul_gen U (unat h)) @ '':'' @ right_align2 (ul_gen U (unat m)) @ '':'' @
      right_align2 (ul_gen U (unat s)) @ r) = (set_sec s (set_min m (set_hour h t)), Some r)"
  using assms lit_append [of "'':''"] unfolding time_rule_def rules.simps seq_def
  by (simp add: number_printed)

lemma rfc1123_text:
  assumes "uint_law U" "symbol wkdays wd = Some wn" "symbol months mo = Some mn"
  shows "rfc1123 U t (wn @ '', '' @ right_align2 (ul_gen U (unat md)) @ '' '' @ mn @ '' '' @
      ul_gen U (unat y) @ '' '' @ right_align2 (ul_gen U (unat h)) @ '':'' @
      right_align2 (ul_gen U (unat m)) @ '':'' @ right_align2 (ul_gen U (unat s)) @ '' GMT'' @ r) =
    (set_sec s (set_min m (set_hour h (set_year (- 1900) y (set_mon mo (set_mday md (set_wday wd t)))))), Some r)"
proof -
  note L = lit_append [of "'',''"] lit_append [of "'' GMT''"]
  note S = sym_symbol [OF assms(2) tables_three(1,2)] sym_symbol [OF assms(3) tables_three(3,4)]
  have len: "length wkdays \<le> 12" "length months \<le> 12" by (simp_all add: wkdays_def months_def)
  show ?thesis
    using assms(1) L S len time_rule_text [OF assms(1), of "'' GMT'' @ r"] unfolding rfc1123_def rules.simps seq_def
    by (simp add: number_printed printed_digits blanks_month [OF assms(3)])
qed

subsection \<open>Properties\<close>

text \<open>A number library and the Gregorian calendar from 1970 on.\<close>

definition dec_text :: "nat \<Rightarrow> string" where
  "dec_text n = (if n = 0 then ''0'' else decs n)"

definition sample_uint :: uintlib where
  "sample_uint = \<lparr>ul_parse = (\<lambda>s. let ds = takeWhile is_digit s in
     if ds = [] \<or> 2 ^ 32 \<le> dec_value 0 ds then None else Some (dec_value 0 ds, dropWhile is_digit s)),
     ul_gen = dec_text\<rparr>"

definition civil_tm :: "int \<Rightarrow> tm" where
  "civil_tm v = (let days = v div 86400; s = v mod 86400 in case j2date (days + 2440588) of (y, m, d) \<Rightarrow>
     \<lparr>tm_sec = word_of_int (s mod 60), tm_min = word_of_int (s div 60 mod 60), tm_hour = word_of_int (s div 3600),
      tm_mday = word_of_int d, tm_mon = word_of_int (m - 1), tm_year = word_of_int (y - 1900),
      tm_wday = word_of_int ((days + 4) mod 7), tm_yday = word_of_int (date2j y m d - date2j y 1 1), tm_isdst = 0\<rparr>)"

definition civil_time :: "tm \<Rightarrow> int" where
  "civil_time t = (date2j (sint (tm_year t) + 1900) (sint (tm_mon t) + 1) (sint (tm_mday t)) - 2440588) * 86400 +
     sint (tm_hour t) * 3600 + sint (tm_min t) * 60 + sint (tm_sec t)"

lemma dec_value_append: "dec_value n (xs @ ys) = dec_value (dec_value n xs) ys"
  by (induction n xs rule: dec_value.induct) simp_all

lemma decs_printed: "list_all is_digit (decs n) \<and> dec_value 0 (decs n) = n"
proof (induction n rule: decs.induct)
  case (1 n)
  then show ?case
    by (cases "n = 0") (auto simp: decs_pos dec_value_append is_digit_char_of digit_val_char_of)
qed

lemma sample_uint_law: "uint_law sample_uint"
  using decs_printed by (auto simp: uint_law_def sample_uint_def dec_text_def digit_val_def)

lemma sample_day: "j2date 2449663 = (1994, 11, 6)" "date2j 1994 11 6 = 2449663" "date2j 1994 1 1 = 2449354"
  by code_simp+

lemma sample_date: "civil_tm 784111777 = \<lparr>tm_sec = 37, tm_min = 49, tm_hour = 8, tm_mday = 6, tm_mon = 10,
    tm_year = 94, tm_wday = 0, tm_yday = 309, tm_isdst = 0\<rparr>"
  by (simp add: civil_tm_def sample_day)

lemma sample_calendar: "calendar_law civil_tm civil_time 784111777"
  by (simp add: calendar_law_def sample_date civil_time_def sample_day)

text \<open>
  C31: the date in a header.  What the generator prints for a time, behind which anything may follow, is
  read back by the parser as that time, for any calendar of the C library.
\<close>

theorem date_roundtrip:
  assumes "uint_law U" "calendar_law gmtime timegm v"
  shows "\<exists>s. date_text U gmtime v = Some s \<and> (\<forall>r. parse_date U timegm (s @ r) = Some v)"
proof -
  let ?t = "gmtime v"
  have "nat (sint (tm_wday ?t)) < 7" "nat (sint (tm_mon ?t)) < 12" "0 \<le> sint (tm_wday ?t)" "0 \<le> sint (tm_mon ?t)"
    using assms(2) unfolding calendar_law_def by auto
  then obtain wn mn where s: "symbol wkdays (tm_wday ?t) = Some wn" "symbol months (tm_mon ?t) = Some mn"
    by (simp add: symbol_def wkdays_def months_def)
  have t: "set_sec (tm_sec ?t) (set_min (tm_min ?t) (set_hour (tm_hour ?t) (set_year (- 1900) (tm_year ?t + 1900)
      (set_mon (tm_mon ?t) (set_mday (tm_mday ?t) (set_wday (tm_wday ?t) zero_tm)))))) =
      ?t\<lparr>tm_yday := 0\<rparr>"
    using assms(2) unfolding calendar_law_def
    by (simp add: set_sec_def set_min_def set_hour_def set_year_def set_mon_def set_mday_def set_wday_def zero_tm_def)
  have "timegm (?t\<lparr>tm_wday := tm_wday ?t, tm_yday := 0\<rparr>) = v" using assms(2) unfolding calendar_law_def by blast
  then have "timegm (?t\<lparr>tm_yday := 0\<rparr>) = v" by simp
  then show ?thesis
    using rfc1123_text [OF assms(1) s, of zero_tm]
    by (simp add: date_text_def s parse_date_def alt_def t Let_def)
qed


theorem date_roundtrip_witness:
  "\<exists>s. date_text sample_uint civil_tm 784111777 = Some s \<and> (\<forall>r. parse_date sample_uint civil_time (s @ r) = Some 784111777)"
  by (rule date_roundtrip [OF sample_uint_law sample_calendar])

text \<open>
  Dates in the format of \<open>asctime\<close>.  The grammar in the comment begins with a short name of the day;
  the rule expects the long one, so no such date is read.
\<close>

theorem asctime_rejected:
  assumes "n \<in> set wkdays"
  shows "parse_date U timegm (n @ '' '' @ r) = None"
proof -
  have "find_symbol weekdays 0 (n @ '' '' @ r) = None"
    using assms by (auto simp: wkdays_def weekdays_def starts_def)
  then have "\<And>t. sym weekdays f t (n @ '' '' @ r) = (t, None)" for f by (simp add: sym_def)
  moreover have "\<exists>t'. sym wkdays set_wday t (n @ '' '' @ r) = (t', Some ('' '' @ r))" for t
    using sym_three [OF tables_three(1,2)] assms by (metis in_set_conv_nth)
  then obtain t' where "sym wkdays set_wday zero_tm (n @ '' '' @ r) = (t', Some ('' '' @ r))" by blast
  then have "\<exists>t'. rfc1123 U zero_tm (n @ '' '' @ r) = (t', None)"
    by (auto simp: rfc1123_def seq_def lit_def starts_def)
  ultimately show ?thesis by (auto simp: parse_date_def alt_def rfc850_def asctime_rule_def seq_def)
qed

theorem asctime_rejected_witness:
  "parse_date sample_uint civil_time ''Sun Nov  6 08:49:37 1994'' = None"
  using asctime_rejected [of "''Sun''" sample_uint civil_time "''Nov  6 08:49:37 1994''"] by (simp add: wkdays_def)

end
