(* ===== verification/HttpZlib.thy ===== *)
theory HttpZlib
  imports HttpChunked HttpHeaders "HOL-Library.Sublist"
begin

text \<open>
  The compressing encoder and the expanding decoder of a body (http/impl/contentEncoderZlib.cpp,
  http/impl/contentDecoderZlib.cpp): loops that hand packets to zlib, collect its output in buffers of
  \<open>_granula\<close> bytes and push the buffers on.  zlib is a parameter: the state of a \<open>z_stream\<close> and
  one call of \<open>deflate\<close> or \<open>inflate\<close>, which takes the input and the room for output and gives a status, the
  number of bytes taken and the bytes written.
\<close>

subsection \<open>zlib\<close>

datatype zstatus = ZOk | ZBufError | ZStreamEnd | ZOther

record 'z zlib =
  z_deflateInit :: "flags \<Rightarrow> int \<Rightarrow> 'z option"
  z_deflate :: "bool \<Rightarrow> 'z \<Rightarrow> string \<Rightarrow> nat \<Rightarrow> zstatus \<times> nat \<times> string \<times> 'z"
  z_inflateInit :: "flags \<Rightarrow> 'z option"
  z_inflate :: "bool \<Rightarrow> 'z \<Rightarrow> string \<Rightarrow> nat \<Rightarrow> zstatus \<times> nat \<times> string \<times> 'z"

definition ece_unknown :: flags where "ece_unknown = 0"

subsection \<open>The output buffer\<close>

text \<open>\<open>_output\<close> and \<open>_outputOffset\<close>.\<close>

record zbuf =
  zb_data :: "string option"
  zb_size :: nat
  zb_off :: nat

definition zb_none :: zbuf where
  "zb_none = \<lparr>zb_data = None, zb_size = 0, zb_off = 0\<rparr>"

definition zb_ensure :: "nat \<Rightarrow> zbuf \<Rightarrow> zbuf hresult" where
  "zb_ensure g b = (case zb_data b of Some _ \<Rightarrow> Inr b
     | None \<Rightarrow> if zb_off b \<noteq> 0 then Inl AssertFailed
               else Inr (b\<lparr>zb_data := Some (replicate g (CHR 0x00)), zb_size := g\<rparr>))"

text \<open>\<open>avail_out\<close> and \<open>avail_in\<close> have 32 bits.\<close>

definition zb_avail :: "zbuf \<Rightarrow> nat" where
  "zb_avail b = (zb_size b - zb_off b) mod 2 ^ 32"

definition zb_write :: "string \<Rightarrow> zbuf \<Rightarrow> zbuf" where
  "zb_write s b = b\<lparr>zb_data := map_option (\<lambda>d. take (zb_off b) d @ s @ drop (zb_off b + length s) d) (zb_data b),
     zb_off := zb_size b - (zb_avail b - length s)\<rparr>"

definition zb_full :: "string \<Rightarrow> zbuf \<Rightarrow> bool" where
  "zb_full s b \<longleftrightarrow> zb_avail b = length s"

definition zb_cut :: "zbuf \<Rightarrow> zbuf" where
  "zb_cut b = b\<lparr>zb_size := zb_off b\<rparr>"

definition zb_packet :: "zbuf \<Rightarrow> packet" where
  "zb_packet b = \<lparr>p_data = (case zb_data b of Some d \<Rightarrow> d | None \<Rightarrow> []), p_size = zb_size b\<rparr>"

definition z_input :: "packet \<Rightarrow> nat \<Rightarrow> string" where
  "z_input p off = take ((p_size p - off) mod 2 ^ 32) (payload_of p off)"

subsection \<open>The encoder\<close>

record ('z, 'u) zenc =
  ze_up :: 'u
  ze_coding :: flags
  ze_stream :: "'z option"
  ze_out :: zbuf

definition ze_new :: "'z zlib \<Rightarrow> flags \<Rightarrow> int \<Rightarrow> 'u \<Rightarrow> ('z, 'u) zenc hresult" where
  "ze_new Z c level u =
     (if c = ece_unknown \<or> c = ece_identity then Inr \<lparr>ze_up = u, ze_coding = c, ze_stream = None, ze_out = zb_none\<rparr>
      else if c = ece_deflate \<or> c = ece_gzip then
        (case z_deflateInit Z c level of
           Some z \<Rightarrow> Inr \<lparr>ze_up = u, ze_coding = c, ze_stream = Some z, ze_out = zb_none\<rparr>
         | None \<Rightarrow> Inr \<lparr>ze_up = u, ze_coding = ece_unknown, ze_stream = None, ze_out = zb_none\<rparr>)
      else if c = ece_compress then Inl AssertFailed
      else Inr \<lparr>ze_up = u, ze_coding = ece_unknown, ze_stream = None, ze_out = zb_none\<rparr>)"

text \<open>Push the output on and go on without a buffer.\<close>

definition ze_send :: "'u encoder \<Rightarrow> ('z, 'u) zenc \<Rightarrow> (ecode \<times> ('z, 'u) zenc) hresult" where
  "ze_send U e = if_ok (d_push U (ze_up e) (zb_packet (ze_out e)) 0)
     (\<lambda>ec u. Inr (ec, e\<lparr>ze_up := u\<rparr>)) (\<lambda>u. Inr (NoError, e\<lparr>ze_up := u, ze_out := zb_none\<rparr>))"

text \<open>The loop of \<open>push\<close>.  A full buffer, or no progress, sends the output.\<close>

fun ze_loop :: "nat \<Rightarrow> 'z zlib \<Rightarrow> 'u encoder \<Rightarrow> nat \<Rightarrow> 'z \<Rightarrow> string \<Rightarrow> ('z, 'u) zenc \<Rightarrow> (ecode \<times> ('z, 'u) zenc) hresult" where
  "ze_loop 0 Z U g z inp e = Inl NoReturn"
| "ze_loop (Suc n) Z U g z inp e =
     (if inp = [] then Inr (NoError, e\<lparr>ze_stream := Some z\<rparr>)
      else hbind (zb_ensure g (ze_out e)) (\<lambda>b.
        case z_deflate Z False z inp (zb_avail b) of (st, k, out, z') \<Rightarrow>
          let e' = e\<lparr>ze_stream := Some z', ze_out := zb_write out b\<rparr> in
          if st = ZOk \<and> \<not> zb_full out b then ze_loop n Z U g z' (drop k inp) e'
          else if st = ZOk \<or> st = ZBufError then
            (if zb_off (ze_out e') = 0 then Inl AssertFailed
             else if_ok (ze_send U (e'\<lparr>ze_out := zb_cut (ze_out e')\<rparr>)) (\<lambda>ec e. Inr (ec, e))
               (\<lambda>e. ze_loop n Z U g z' (drop k inp) e))
          else Inr (UnexpectedError, e')))"

definition ze_push :: "nat \<Rightarrow> 'z zlib \<Rightarrow> 'u encoder \<Rightarrow> nat \<Rightarrow> ('z, 'u) zenc \<Rightarrow> packet \<Rightarrow> nat \<Rightarrow> (ecode \<times> ('z, 'u) zenc) hresult" where
  "ze_push n Z U g e p off =
     (if ze_coding e = ece_unknown \<or> ze_coding e = ece_identity then
        hbind (d_push U (ze_up e) p off) (\<lambda>(ec, u). Inr (ec, e\<lparr>ze_up := u\<rparr>))
      else if ze_coding e = ece_deflate \<or> ze_coding e = ece_gzip then
        (case ze_stream e of None \<Rightarrow> Inl NullDeref | Some z \<Rightarrow> ze_loop n Z U g z (z_input p off) e)
      else Inl AssertFailed)"

text \<open>The loop of \<open>flush\<close>.\<close>

fun ze_finish :: "nat \<Rightarrow> 'z zlib \<Rightarrow> 'u encoder \<Rightarrow> nat \<Rightarrow> 'z \<Rightarrow> ('z, 'u) zenc \<Rightarrow> (ecode \<times> ('z, 'u) zenc) hresult" where
  "ze_finish 0 Z U g z e = Inl NoReturn"
| "ze_finish (Suc n) Z U g z e =
     hbind (zb_ensure g (ze_out e)) (\<lambda>b.
       case z_deflate Z True z [] (zb_avail b) of (st, k, out, z') \<Rightarrow>
         let e' = e\<lparr>ze_stream := Some z', ze_out := zb_cut (zb_write out b)\<rparr> in
         if st = ZOk \<or> st = ZBufError then
           if_ok (ze_send U e') (\<lambda>ec e. Inr (ec, e)) (\<lambda>e. ze_finish n Z U g z' e)
         else if st = ZStreamEnd then
           if_ok (if zb_size (ze_out e') \<noteq> 0 then ze_send U e' else Inr (NoError, e'\<lparr>ze_out := zb_none\<rparr>)) (\<lambda>ec e. Inr (ec, e))
             (\<lambda>e. hbind (d_flush U (ze_up e)) (\<lambda>(ec, u). Inr (ec, e\<lparr>ze_up := u\<rparr>)))
         else Inr (NotImplemented, e\<lparr>ze_stream := Some z', ze_out := zb_write out b\<rparr>))"

definition ze_flush :: "nat \<Rightarrow> 'z zlib \<Rightarrow> 'u encoder \<Rightarrow> nat \<Rightarrow> ('z, 'u) zenc \<Rightarrow> (ecode \<times> ('z, 'u) zenc) hresult" where
  "ze_flush n Z U g e =
     (if ze_coding e = ece_unknown \<or> ze_coding e = ece_identity then
        hbind (d_flush U (ze_up e)) (\<lambda>(ec, u). Inr (ec, e\<lparr>ze_up := u\<rparr>))
      else if ze_coding e = ece_deflate \<or> ze_coding e = ece_gzip then
        (case ze_stream e of None \<Rightarrow> Inl NullDeref | Some z \<Rightarrow> ze_finish n Z U g z e)
      else Inl AssertFailed)"

subsection \<open>The decoder\<close>

record ('z, 'u) zdec =
  zd_up :: 'u
  zd_coding :: flags
  zd_stream :: "'z option"
  zd_out :: zbuf
  zd_end :: bool

definition zd_new :: "'z zlib \<Rightarrow> flags \<Rightarrow> 'u \<Rightarrow> ('z, 'u) zdec hresult" where
  "zd_new Z c u =
     (if c = ece_unknown \<or> c = ece_identity then
        Inr \<lparr>zd_up = u, zd_coding = c, zd_stream = None, zd_out = zb_none, zd_end = False\<rparr>
      else if c = ece_deflate \<or> c = ece_gzip then
        (case z_inflateInit Z c of
           Some z \<Rightarrow> Inr \<lparr>zd_up = u, zd_coding = c, zd_stream = Some z, zd_out = zb_none, zd_end = False\<rparr>
         | None \<Rightarrow> Inr \<lparr>zd_up = u, zd_coding = ece_unknown, zd_stream = None, zd_out = zb_none, zd_end = False\<rparr>)
      else if c = ece_compress then Inl AssertFailed
      else Inr \<lparr>zd_up = u, zd_coding = ece_unknown, zd_stream = None, zd_out = zb_none, zd_end = False\<rparr>)"

text \<open>Push the output on, if there is any.\<close>

definition zd_send :: "'u decoder \<Rightarrow> ('z, 'u) zdec \<Rightarrow> (ecode \<times> ('z, 'u) zdec) hresult" where
  "zd_send U e =
     (if zb_size (zd_out e) = 0 then Inr (NoError, e\<lparr>zd_out := zb_none\<rparr>)
      else if_ok (d_push U (zd_up e) (zb_packet (zd_out e)) 0)
        (\<lambda>ec u. Inr (ec, e\<lparr>zd_up := u\<rparr>)) (\<lambda>u. Inr (NoError, e\<lparr>zd_up := u, zd_out := zb_none\<rparr>)))"

fun zd_loop :: "nat \<Rightarrow> 'z zlib \<Rightarrow> 'u decoder \<Rightarrow> nat \<Rightarrow> 'z \<Rightarrow> string \<Rightarrow> ('z, 'u) zdec \<Rightarrow> (ecode \<times> ('z, 'u) zdec) hresult" where
  "zd_loop 0 Z U g z inp e = Inl NoReturn"
| "zd_loop (Suc n) Z U g z inp e =
     (if zd_end e \<or> inp = [] then Inr (NoError, e\<lparr>zd_stream := Some z\<rparr>)
      else hbind (zb_ensure g (zd_out e)) (\<lambda>b.
        case z_inflate Z False z inp (zb_avail b) of (st, k, out, z') \<Rightarrow>
          let e' = e\<lparr>zd_stream := Some z', zd_out := zb_cut (zb_write out b), zd_end := (st = ZStreamEnd)\<rparr> in
          if st = ZOk then zd_loop n Z U g z' (drop k inp) e'
          else if st = ZStreamEnd \<or> st = ZBufError then
            if_ok (zd_send U e') (\<lambda>ec e. Inr (ec, e)) (\<lambda>e. zd_loop n Z U g z' (drop k inp) e)
          else Inr (BadZlibStream, e'\<lparr>zd_out := zb_write out b\<rparr>)))"

definition zd_push :: "nat \<Rightarrow> 'z zlib \<Rightarrow> 'u decoder \<Rightarrow> nat \<Rightarrow> ('z, 'u) zdec \<Rightarrow> packet \<Rightarrow> nat \<Rightarrow> (ecode \<times> ('z, 'u) zdec) hresult" where
  "zd_push n Z U g e p off =
     (if zd_coding e = ece_unknown \<or> zd_coding e = ece_identity then
        hbind (d_push U (zd_up e) p off) (\<lambda>(ec, u). Inr (ec, e\<lparr>zd_up := u\<rparr>))
      else if zd_coding e = ece_deflate \<or> zd_coding e = ece_gzip then
        (case zd_stream e of None \<Rightarrow> Inl NullDeref | Some z \<Rightarrow> zd_loop n Z U g z (z_input p off) e)
      else Inl AssertFailed)"

text \<open>The loop of \<open>flush\<close>: without output from a buffer there is no more to come.\<close>

fun zd_finish :: "nat \<Rightarrow> 'z zlib \<Rightarrow> 'u decoder \<Rightarrow> nat \<Rightarrow> 'z \<Rightarrow> ('z, 'u) zdec \<Rightarrow> (ecode \<times> ('z, 'u) zdec) hresult" where
  "zd_finish 0 Z U g z e = Inl NoReturn"
| "zd_finish (Suc n) Z U g z e =
     (if zd_end e then hbind (d_flush U (zd_up e)) (\<lambda>(ec, u). Inr (ec, e\<lparr>zd_up := u\<rparr>))
      else hbind (zb_ensure g (zd_out e)) (\<lambda>b.
        case z_inflate Z True z [] (zb_avail b) of (st, k, out, z') \<Rightarrow>
          let e' = e\<lparr>zd_stream := Some z', zd_out := zb_cut (zb_write out b), zd_end := (st = ZStreamEnd)\<rparr> in
          if st = ZOk \<or> st = ZBufError then
            if_ok (zd_send U (if zb_size (zd_out e') = 0 then e'\<lparr>zd_end := True\<rparr> else e')) (\<lambda>ec e. Inr (ec, e))
              (\<lambda>e. zd_finish n Z U g z' e)
          else if st = ZStreamEnd then
            if_ok (zd_send U e') (\<lambda>ec e. Inr (ec, e))
              (\<lambda>e. hbind (d_flush U (zd_up e)) (\<lambda>(ec, u). Inr (ec, e\<lparr>zd_up := u\<rparr>)))
          else Inr (BadZlibStream, e'\<lparr>zd_out := zb_write out b\<rparr>)))"

definition zd_flush :: "nat \<Rightarrow> 'z zlib \<Rightarrow> 'u decoder \<Rightarrow> nat \<Rightarrow> ('z, 'u) zdec \<Rightarrow> (ecode \<times> ('z, 'u) zdec) hresult" where
  "zd_flush n Z U g e =
     (if zd_coding e = ece_unknown \<or> zd_coding e = ece_identity then
        hbind (d_flush U (zd_up e)) (\<lambda>(ec, u). Inr (ec, e\<lparr>zd_up := u\<rparr>))
      else if zd_coding e = ece_deflate \<or> zd_coding e = ece_gzip then
        (case zd_stream e of None \<Rightarrow> Inl NullDeref | Some z \<Rightarrow> zd_finish n Z U g z e)
      else Inl AssertFailed)"

definition zlib_encoder :: "nat \<Rightarrow> 'z zlib \<Rightarrow> 'u encoder \<Rightarrow> nat \<Rightarrow> ('z, 'u) zenc encoder" where
  "zlib_encoder n Z U g = \<lparr>d_push = ze_push n Z U g, d_flush = ze_flush n Z U g\<rparr>"

definition zlib_decoder :: "nat \<Rightarrow> 'z zlib \<Rightarrow> 'u decoder \<Rightarrow> nat \<Rightarrow> ('z, 'u) zdec decoder" where
  "zlib_decoder n Z U g = \<lparr>d_push = zd_push n Z U g, d_flush = zd_flush n Z U g\<rparr>"

subsection \<open>What zlib promises\<close>

text \<open>
  \<open>holds x d\<close>: \<open>x\<close> is a compressed stream of \<open>d\<close>.  \<open>view\<close> gives what a stream that is not ended has taken and
  given, and for a compressor whether its end has been asked for, after which it gets no more input.  \<open>deflate\<close> goes on until the input is empty or the output is full; it ends the stream on request, when
  all output is written; the output is bounded.  \<open>inflate\<close> makes progress if it has input and room, says
  \<open>ZBufError\<close> if it makes none, and ends with the last byte of the stream, the checksum.
\<close>

fun deflate_call :: "(string \<Rightarrow> string \<Rightarrow> bool) \<Rightarrow> ('z \<Rightarrow> (string \<times> string \<times> bool) option) \<Rightarrow> (nat \<Rightarrow> nat) \<Rightarrow>
    string \<Rightarrow> string \<Rightarrow> bool \<Rightarrow> string \<Rightarrow> nat \<Rightarrow> zstatus \<times> nat \<times> string \<times> 'z \<Rightarrow> bool" where
  "deflate_call holds view bound i q fin inp n (st, k, out, z) \<longleftrightarrow>
     k \<le> length inp \<and> length out \<le> n \<and> length (q @ out) \<le> bound (length i + k) \<and>
     (if st = ZStreamEnd then fin \<and> k = length inp \<and> holds (q @ out) (i @ inp)
      else (st = ZOk \<or> st = ZBufError) \<and> view z = Some (i @ take k inp, q @ out, fin) \<and>
        (length out = n \<or> \<not> fin \<and> k = length inp) \<and> (\<not> fin \<and> st = ZBufError \<longrightarrow> k = 0 \<and> out = []))"

definition deflate_law :: "'z zlib \<Rightarrow> (string \<Rightarrow> string \<Rightarrow> bool) \<Rightarrow> ('z \<Rightarrow> (string \<times> string \<times> bool) option) \<Rightarrow> (nat \<Rightarrow> nat) \<Rightarrow> flags \<Rightarrow> int \<Rightarrow> bool" where
  "deflate_law Z holds view bound c level \<longleftrightarrow> mono bound \<and>
     (\<exists>z. z_deflateInit Z c level = Some z \<and> view z = Some ([], [], False)) \<and>
     (\<forall>z i q f fin inp n. view z = Some (i, q, f) \<longrightarrow> 0 < n \<longrightarrow> (f \<longrightarrow> fin \<and> inp = []) \<longrightarrow>
        deflate_call holds view bound i q fin inp n (z_deflate Z fin z inp n))"

fun inflate_call :: "('z \<Rightarrow> (string \<times> string) option) \<Rightarrow> string \<Rightarrow> string \<Rightarrow> string \<Rightarrow> string \<Rightarrow> string \<Rightarrow> nat \<Rightarrow>
    zstatus \<times> nat \<times> string \<times> 'z \<Rightarrow> bool" where
  "inflate_call view x d i q inp n (st, k, out, z) \<longleftrightarrow>
     k \<le> length inp \<and> length out \<le> n \<and> prefix (i @ take k inp) x \<and> prefix (q @ out) d \<and>
     (if st = ZStreamEnd then i @ take k inp = x \<and> q @ out = d
      else i @ take k inp \<noteq> x \<and> view z = Some (i @ take k inp, q @ out) \<and>
        (if st = ZOk then k \<noteq> 0 \<or> out \<noteq> [] else st = ZBufError \<and> k = 0 \<and> out = []) \<and>
        (0 < n \<and> inp \<noteq> [] \<longrightarrow> k \<noteq> 0 \<or> out \<noteq> []))"

definition inflate_law :: "'z zlib \<Rightarrow> (string \<Rightarrow> string \<Rightarrow> bool) \<Rightarrow> ('z \<Rightarrow> (string \<times> string) option) \<Rightarrow> flags \<Rightarrow> bool" where
  "inflate_law Z holds view c \<longleftrightarrow> (\<forall>d. \<not> holds [] d) \<and>
     (\<exists>z. z_inflateInit Z c = Some z \<and> view z = Some ([], [])) \<and>
     (\<forall>x d z i q inp n. holds x d \<longrightarrow> view z = Some (i, q) \<longrightarrow> prefix i x \<longrightarrow> i \<noteq> x \<longrightarrow> prefix q d \<longrightarrow>
        prefix (i @ inp) x \<or> prefix x (i @ inp) \<longrightarrow> inflate_call view x d i q inp n (z_inflate Z False z inp n))"

subsection \<open>Buffers\<close>

definition zb_text :: "zbuf \<Rightarrow> string" where
  "zb_text b = (case zb_data b of None \<Rightarrow> [] | Some d \<Rightarrow> take (zb_off b) d)"

text \<open>A buffer with \<open>m\<close> bytes of room.\<close>

definition zb_ready :: "nat \<Rightarrow> nat \<Rightarrow> zbuf \<Rightarrow> bool" where
  "zb_ready g m b \<longleftrightarrow> (\<exists>d. zb_data b = Some d \<and> length d = g) \<and> zb_size b \<le> g \<and> zb_off b + m = zb_size b \<and> g < 2 ^ 32"

lemma zb_avail_ready: "zb_ready g m b \<Longrightarrow> zb_avail b = m"
  by (auto simp: zb_ready_def zb_avail_def)

lemma zb_ensure_none: "g < 2 ^ 32 \<Longrightarrow> \<exists>b. zb_ensure g zb_none = Inr b \<and> zb_ready g g b \<and> zb_text b = []"
  by (auto simp: zb_ensure_def zb_none_def zb_ready_def zb_text_def)

lemma zb_ensure_ready: "zb_ready g m b \<Longrightarrow> zb_ensure g b = Inr b"
  by (auto simp: zb_ensure_def zb_ready_def)

lemma zb_text_none [simp]: "zb_text zb_none = []"
  by (simp add: zb_text_def zb_none_def)

lemma zb_write_ready:
  assumes "zb_ready g m b" "length s \<le> m"
  shows "zb_ready g (m - length s) (zb_write s b)" "zb_text (zb_write s b) = zb_text b @ s"
    "zb_full s b \<longleftrightarrow> length s = m" "zb_off (zb_write s b) = zb_off b + length s"
proof -
  obtain d where d: "zb_data b = Some d" "length d = g" "zb_size b \<le> g" "zb_off b + m = zb_size b" "g < 2 ^ 32"
    using assms(1) unfolding zb_ready_def by blast
  have a: "zb_avail b = m" using zb_avail_ready [OF assms(1)] .
  show off: "zb_off (zb_write s b) = zb_off b + length s" using d assms(2) by (simp add: zb_write_def a)
  show "zb_ready g (m - length s) (zb_write s b)"
    using d assms(2) off by (auto simp: zb_ready_def zb_write_def a)
  have "length (take (zb_off b) d) = zb_off b" using d by simp
  then show "zb_text (zb_write s b) = zb_text b @ s"
    using d off by (simp add: zb_text_def zb_write_def)
  show "zb_full s b \<longleftrightarrow> length s = m" by (auto simp: zb_full_def a)
qed

lemma zb_cut_ready:
  assumes "zb_ready g m b"
  shows "zb_ready g 0 (zb_cut b)" "zb_text (zb_cut b) = zb_text b" "zb_size (zb_cut b) = zb_off b"
    "zb_off (zb_cut b) = zb_off b"
  using assms by (auto simp: zb_ready_def zb_cut_def zb_text_def)

lemma zb_packet_ready:
  assumes "zb_ready g 0 b" "zb_off b \<noteq> 0"
  shows "packet_ok (zb_packet b) 0" "payload_of (zb_packet b) 0 = zb_text b"
  using assms by (auto simp: zb_ready_def zb_packet_def packet_ok_def payload_of_def zb_text_def)

lemma length_zb_text: "zb_ready g m b \<Longrightarrow> length (zb_text b) = zb_off b"
  by (auto simp: zb_ready_def zb_text_def)

lemma z_input_all: "p_size p < 2 ^ 32 \<Longrightarrow> packet_ok p 0 \<Longrightarrow> z_input p 0 = payload_of p 0"
  by (simp add: z_input_def payload_of_def)

lemma ece_codings: "ece_deflate \<noteq> ece_unknown" "ece_deflate \<noteq> ece_identity" "ece_gzip \<noteq> ece_unknown" "ece_gzip \<noteq> ece_identity"
    "ece_unknown \<noteq> ece_deflate" "ece_identity \<noteq> ece_deflate" "ece_unknown \<noteq> ece_gzip" "ece_identity \<noteq> ece_gzip"
  by (simp_all add: ece_deflate_def ece_unknown_def ece_identity_def ece_gzip_def)

subsection \<open>The encoder follows the stream\<close>

text \<open>An output buffer between two calls of \<open>deflate\<close>: none, or one with room.\<close>

definition ze_buf :: "nat \<Rightarrow> zbuf \<Rightarrow> bool" where
  "ze_buf g b \<longleftrightarrow> b = zb_none \<or> (\<exists>m. 0 < m \<and> zb_ready g m b)"

lemma ze_buf_ensure:
  assumes "ze_buf g b" "0 < g" "g < 2 ^ 32"
  obtains b' m where "zb_ensure g b = Inr b'" "0 < m" "zb_ready g m b'" "zb_text b' = zb_text b"
proof (cases "b = zb_none")
  case True
  then show ?thesis using zb_ensure_none [OF assms(3)] assms(2) that by auto
next
  case False
  then obtain m where "0 < m" "zb_ready g m b" using assms(1) unfolding ze_buf_def by blast
  then show ?thesis using zb_ensure_ready that by blast
qed

lemma deflate_step:
  assumes "deflate_law Z holds view bound c level" "view z = Some (i, q, f)" "0 < n" "f \<longrightarrow> fin \<and> inp = []"
    "z_deflate Z fin z inp n = (st, k, out, z')"
  shows "k \<le> length inp" "length out \<le> n" "length (q @ out) \<le> bound (length i + k)"
    "st = ZStreamEnd \<Longrightarrow> fin \<and> k = length inp \<and> holds (q @ out) (i @ inp)"
    "st \<noteq> ZStreamEnd \<Longrightarrow> (st = ZOk \<or> st = ZBufError) \<and> view z' = Some (i @ take k inp, q @ out, fin) \<and>
       (length out = n \<or> \<not> fin \<and> k = length inp) \<and> (\<not> fin \<and> st = ZBufError \<longrightarrow> k = 0 \<and> out = [])"
proof -
  have "deflate_call holds view bound i q fin inp n (st, k, out, z')"
    using assms(1-4) unfolding assms(5) [symmetric] deflate_law_def by blast
  then have L: "k \<le> length inp \<and> length out \<le> n \<and> length (q @ out) \<le> bound (length i + k) \<and>
     (if st = ZStreamEnd then fin \<and> k = length inp \<and> holds (q @ out) (i @ inp)
      else (st = ZOk \<or> st = ZBufError) \<and> view z' = Some (i @ take k inp, q @ out, fin) \<and>
        (length out = n \<or> \<not> fin \<and> k = length inp) \<and> (\<not> fin \<and> st = ZBufError \<longrightarrow> k = 0 \<and> out = []))"
    unfolding deflate_call.simps .
  then show "k \<le> length inp" "length out \<le> n" "length (q @ out) \<le> bound (length i + k)" by blast+
  show "st = ZStreamEnd \<Longrightarrow> fin \<and> k = length inp \<and> holds (q @ out) (i @ inp)" using L by presburger
  show "st \<noteq> ZStreamEnd \<Longrightarrow> (st = ZOk \<or> st = ZBufError) \<and> view z' = Some (i @ take k inp, q @ out, fin) \<and>
       (length out = n \<or> \<not> fin \<and> k = length inp) \<and> (\<not> fin \<and> st = ZBufError \<longrightarrow> k = 0 \<and> out = [])"
    using L by presburger
qed

lemma view_bound:
  assumes "deflate_law Z holds view bound c level" "view z = Some (i, q, f)"
  shows "length q \<le> bound (length i)"
proof -
  obtain st k out z' where d: "z_deflate Z f z [] 1 = (st, k, out, z')" by (metis prod_cases4)
  have "k \<le> length ([] :: string)" "length (q @ out) \<le> bound (length i + k)"
    using deflate_step [OF assms _ _ d] by simp_all
  then show ?thesis by simp
qed

context content_sink
begin

text \<open>\<open>c0\<close> is what was upstream before, \<open>q\<close> what the stream has given.\<close>

definition ze_ok :: "nat \<Rightarrow> string \<Rightarrow> string \<Rightarrow> ('z, 's) zenc \<Rightarrow> bool" where
  "ze_ok g c0 q e \<longleftrightarrow> inv (ze_up e) \<and> ze_buf g (ze_out e) \<and> content (ze_up e) @ zb_text (ze_out e) = c0 @ q"

lemma ze_send_ok:
  assumes "inv (ze_up e)" "zb_ready g 0 (ze_out e)" "zb_off (ze_out e) \<noteq> 0"
    "content (ze_up e) @ zb_text (ze_out e) = c0 @ q"
  obtains u where "ze_send D e = Inr (NoError, e\<lparr>ze_up := u, ze_out := zb_none\<rparr>)" "inv u" "content u = c0 @ q"
  using push_sink [OF assms(1) zb_packet_ready(1) [OF assms(2,3)]] zb_packet_ready(2) [OF assms(2,3)] assms(4) that
  by (auto simp: ze_send_def)

lemma ze_loop_ok:
  assumes "deflate_law Z holds view bound c level" "0 < g" "g < 2 ^ 32"
  shows "view z = Some (i, q, False) \<Longrightarrow> ze_ok g c0 q e \<Longrightarrow> 0 < n \<Longrightarrow>
    (inp \<noteq> [] \<longrightarrow> bound (length i + length inp) + 2 \<le> n + length q) \<Longrightarrow>
    \<exists>z' q' e'. ze_loop n Z D g z inp e = Inr (NoError, e') \<and> ze_stream e' = Some z' \<and> ze_coding e' = ze_coding e \<and>
      view z' = Some (i @ inp, q', False) \<and> ze_ok g c0 q' e'"
proof (induction n arbitrary: z i q inp e)
  case (Suc n)
  show ?case
  proof (cases "inp = []")
    case True
    then show ?thesis using Suc.prems by (auto simp: ze_ok_def)
  next
    case False
    have ok: "inv (ze_up e)" "ze_buf g (ze_out e)" "content (ze_up e) @ zb_text (ze_out e) = c0 @ q"
      using Suc.prems(2) unfolding ze_ok_def by auto
    obtain b m where b: "zb_ensure g (ze_out e) = Inr b" "0 < m" "zb_ready g m b" "zb_text b = zb_text (ze_out e)"
      using ze_buf_ensure [OF ok(2) assms(2,3)] .
    obtain st k out z' where d: "z_deflate Z False z inp m = (st, k, out, z')" by (metis prod_cases4)
    note law = deflate_step [OF assms(1) Suc.prems(1) b(2) _ d]
    have st: "st = ZOk" "view z' = Some (i @ take k inp, q @ out, False)" "length out = m \<or> k = length inp"
      using law(4,5) b(2) False by (cases "st = ZStreamEnd"; auto)+
    note w = zb_write_ready [OF b(3) law(2)]
    have total: "length (i @ take k inp) + length (drop k inp) = length i + length inp" "(i @ take k inp) @ drop k inp = i @ inp"
      using law(1) by simp_all
    have "length (q @ out) \<le> bound (length i + length inp)"
      using law(1,3) assms(1) unfolding deflate_law_def mono_def by (meson add_left_mono order_trans)
    then have n: "0 < n" using Suc.prems(4) False by simp
    have grow: "0 < length out" if "drop k inp \<noteq> []" using st(3) b(2) that by auto
    then have fuel: "drop k inp \<noteq> [] \<longrightarrow> bound (length (i @ take k inp) + length (drop k inp)) + 2 \<le> n + length (q @ out)"
    proof (intro impI)
      assume "drop k inp \<noteq> []"
      then have "0 < length out" by (rule grow)
      moreover have "bound (length i + length inp) + 2 \<le> Suc n + length q" using Suc.prems(4) False by blast
      ultimately show "bound (length (i @ take k inp) + length (drop k inp)) + 2 \<le> n + length (q @ out)"
        unfolding total(1) length_append [of q out] by linarith
    qed
    have go_on: "\<exists>z'' q'' e''. ze_loop n Z D g z' (drop k inp) e' = Inr (NoError, e'') \<and> ze_stream e'' = Some z'' \<and>
        ze_coding e'' = ze_coding e' \<and> view z'' = Some (i @ inp, q'', False) \<and> ze_ok g c0 q'' e''"
      if "ze_ok g c0 (q @ out) e'" for e'
      using Suc.IH [OF st(2) that n fuel] unfolding total(2) .
    let ?e = "e\<lparr>ze_stream := Some z', ze_out := zb_write out b\<rparr>"
    have sink: "content (ze_up ?e) @ zb_text (ze_out ?e) = c0 @ q @ out"
      using ok(3) w(2) b(4) by simp
    show ?thesis
    proof (cases "length out = m")
      case False
      then have "0 < m - length out" using law(2) by simp
      then have "ze_buf g (zb_write out b)" using w(1) unfolding ze_buf_def by blast
      then have "ze_ok g c0 (q @ out) ?e" using ok(1) sink unfolding ze_ok_def by simp
      then show ?thesis using go_on [of ?e] \<open>inp \<noteq> []\<close> b(1) d zb_avail_ready [OF b(3)] st(1) w(3) False by (simp add: Let_def)
    next
      case True
      let ?f = "?e\<lparr>ze_out := zb_cut (ze_out ?e)\<rparr>"
      note c = zb_cut_ready [OF w(1)]
      have "zb_off (ze_out ?e) \<noteq> 0" using w(4) True b(2) by simp
      moreover have "content (ze_up ?f) @ zb_text (ze_out ?f) = c0 @ q @ out" using sink c(2) by simp
      ultimately obtain u where u: "ze_send D ?f = Inr (NoError, ?f\<lparr>ze_up := u, ze_out := zb_none\<rparr>)" "inv u" "content u = c0 @ q @ out"
        using ze_send_ok [of ?f g c0 "q @ out"] ok(1) c(1,4) by auto
      then have "ze_ok g c0 (q @ out) (?f\<lparr>ze_up := u, ze_out := zb_none\<rparr>)" by (simp add: ze_ok_def ze_buf_def)
      then show ?thesis
        using go_on [of "?f\<lparr>ze_up := u, ze_out := zb_none\<rparr>"] \<open>inp \<noteq> []\<close> b(1) d zb_avail_ready [OF b(3)] st(1) w(3) True u(1) \<open>zb_off (ze_out ?e) \<noteq> 0\<close>
        by (simp add: Let_def)
    qed
  qed
qed simp

lemma ze_finish_ok:
  assumes "deflate_law Z holds view bound c level" "0 < g" "g < 2 ^ 32"
  shows "view z = Some (i, q, f) \<Longrightarrow> ze_ok g c0 q e \<Longrightarrow> bound (length i) + 1 \<le> n + length q \<Longrightarrow>
    \<exists>x e'. ze_finish n Z D g z e = Inr (NoError, e') \<and> holds x i \<and> inv (ze_up e') \<and> content (ze_up e') = c0 @ x"
proof (induction n arbitrary: z q f e)
  case 0
  then show ?case using view_bound [OF assms(1) 0(1)] by simp
next
  case (Suc n)
  have ok: "inv (ze_up e)" "ze_buf g (ze_out e)" "content (ze_up e) @ zb_text (ze_out e) = c0 @ q"
    using Suc.prems(2) unfolding ze_ok_def by auto
  obtain b m where b: "zb_ensure g (ze_out e) = Inr b" "0 < m" "zb_ready g m b" "zb_text b = zb_text (ze_out e)"
    using ze_buf_ensure [OF ok(2) assms(2,3)] .
  obtain st k out z' where d: "z_deflate Z True z [] m = (st, k, out, z')" by (metis prod_cases4)
  note law = deflate_step [OF assms(1) Suc.prems(1) b(2) _ d]
  note w = zb_write_ready [OF b(3) law(2)]
  note cut = zb_cut_ready [OF w(1)]
  let ?f = "e\<lparr>ze_stream := Some z', ze_out := zb_cut (zb_write out b)\<rparr>"
  have sink: "content (ze_up ?f) @ zb_text (ze_out ?f) = c0 @ q @ out"
    using ok(3) w(2) b(4) cut(2) by simp
  have send: "\<exists>u. ze_send D ?f = Inr (NoError, ?f\<lparr>ze_up := u, ze_out := zb_none\<rparr>) \<and> inv u \<and> content u = c0 @ q @ out"
    if "zb_off (zb_write out b) \<noteq> 0"
    using ze_send_ok [of ?f g c0 "q @ out"] ok(1) cut(1,4) that sink by auto
  show ?case
  proof (cases "st = ZStreamEnd")
    case True
    then have "holds (q @ out) i" using law(4) by simp
    moreover have "\<exists>u. (if zb_size (ze_out ?f) \<noteq> 0 then ze_send D ?f else Inr (NoError, ?f\<lparr>ze_out := zb_none\<rparr>)) =
        Inr (NoError, ?f\<lparr>ze_up := u, ze_out := zb_none\<rparr>) \<and> inv u \<and> content u = c0 @ q @ out"
    proof (cases "zb_off (zb_write out b) = 0")
      case True
      then have "zb_text (ze_out ?f) = []" using cut(1,2,4) length_zb_text [OF w(1)] by simp
      then show ?thesis using True sink ok(1) cut(3) by (intro exI [of _ "ze_up e"]) simp
    next
      case False
      then show ?thesis using send cut(3) by simp
    qed
    then obtain u where u: "(if zb_size (ze_out ?f) \<noteq> 0 then ze_send D ?f else Inr (NoError, ?f\<lparr>ze_out := zb_none\<rparr>)) =
        Inr (NoError, ?f\<lparr>ze_up := u, ze_out := zb_none\<rparr>)" "inv u" "content u = c0 @ q @ out" by blast
    obtain u' where "d_flush D u = Inr (NoError, u')" "inv u'" "content u' = content u"
      using flush_sink [OF u(2)] by blast
    ultimately show ?thesis using b(1) d zb_avail_ready [OF b(3)] True u by (simp add: Let_def)
  next
    case False
    then have st: "st = ZOk \<or> st = ZBufError" "view z' = Some (i, q @ out, True)" "length out = m" using law(5) by simp_all
    obtain u where u: "ze_send D ?f = Inr (NoError, ?f\<lparr>ze_up := u, ze_out := zb_none\<rparr>)" "inv u" "content u = c0 @ q @ out"
      using send w(4) st(3) b(2) by auto
    then have "ze_ok g c0 (q @ out) (?f\<lparr>ze_up := u, ze_out := zb_none\<rparr>)" by (simp add: ze_ok_def ze_buf_def)
    moreover have "bound (length i) + 1 \<le> n + length (q @ out)"
      using Suc.prems(3) st(3) b(2) unfolding length_append [of q out] by linarith
    ultimately show ?thesis using Suc.IH [OF st(2)] b(1) d zb_avail_ready [OF b(3)] st(1) u(1) by (simp add: Let_def)
  qed
qed

text \<open>Every packet pushed, then the end.\<close>

lemma ze_pushes_ok:
  assumes "deflate_law Z holds view bound c level" "0 < g" "g < 2 ^ 32"
  shows "ze_coding e = ece_deflate \<or> ze_coding e = ece_gzip \<Longrightarrow> ze_stream e = Some z \<Longrightarrow> view z = Some (i, q, False) \<Longrightarrow>
    ze_ok g c0 q e \<Longrightarrow> \<forall>p\<in>set ps. packet_ok p 0 \<and> p_size p < 2 ^ 32 \<Longrightarrow>
    bound (length i + length (all_bytes ps)) + 2 \<le> n \<Longrightarrow>
    \<exists>e' z' q'. push_chunks (zlib_encoder n Z D g) e (map (\<lambda>p. (p, 0)) ps) = Inr (NoError, e') \<and>
      (ze_coding e' = ece_deflate \<or> ze_coding e' = ece_gzip) \<and> ze_stream e' = Some z' \<and>
      view z' = Some (i @ all_bytes ps, q', False) \<and> ze_ok g c0 q' e'"
proof (induction ps arbitrary: e z i q)
  case Nil
  then show ?case by (simp add: all_bytes_def)
next
  case (Cons p ps)
  let ?inp = "payload_of p 0"
  have p: "z_input p 0 = ?inp" using Cons.prems(5) by (simp add: z_input_all)
  have all: "all_bytes (p # ps) = ?inp @ all_bytes ps" by (simp add: all_bytes_def)
  have "bound (length i + length ?inp) \<le> bound (length i + length (all_bytes (p # ps)))"
    using assms(1) unfolding deflate_law_def mono_def all by simp
  then have fuel: "?inp \<noteq> [] \<longrightarrow> bound (length i + length ?inp) + 2 \<le> n + length q" "0 < n"
    using Cons.prems(6) by auto
  obtain z1 q1 e1 where e1: "ze_loop n Z D g z ?inp e = Inr (NoError, e1)" "ze_stream e1 = Some z1"
    "ze_coding e1 = ze_coding e" "view z1 = Some (i @ ?inp, q1, False)" "ze_ok g c0 q1 e1"
    using ze_loop_ok [OF assms Cons.prems(3,4) fuel(2,1)] by blast
  have "d_push (zlib_encoder n Z D g) e p 0 = Inr (NoError, e1)"
    using Cons.prems(1,2) e1(1) p by (auto simp: zlib_encoder_def ze_push_def ece_codings)
  moreover have "bound (length (i @ ?inp) + length (all_bytes ps)) + 2 \<le> n" using Cons.prems(6) by (simp add: all add.assoc)
  then obtain e' z' q' where "push_chunks (zlib_encoder n Z D g) e1 (map (\<lambda>p. (p, 0)) ps) = Inr (NoError, e')"
    "ze_coding e' = ece_deflate \<or> ze_coding e' = ece_gzip" "ze_stream e' = Some z'"
    "view z' = Some ((i @ ?inp) @ all_bytes ps, q', False)" "ze_ok g c0 q' e'"
    using Cons.IH [OF _ e1(2,4,5)] Cons.prems(1,5) e1(3) by auto
  ultimately show ?case by (auto simp: all)
qed

lemma zlib_encodes:
  assumes "deflate_law Z holds view bound c level" "c = ece_deflate \<or> c = ece_gzip" "0 < g" "g < 2 ^ 32" "inv u"
    "\<forall>p\<in>set ps. packet_ok p 0 \<and> p_size p < 2 ^ 32" "bound (length (all_bytes ps)) + 2 \<le> n"
  obtains e0 e1 e2 x where "ze_new Z c level u = Inr e0"
    "push_chunks (zlib_encoder n Z D g) e0 (map (\<lambda>p. (p, 0)) ps) = Inr (NoError, e1)"
    "d_flush (zlib_encoder n Z D g) e1 = Inr (NoError, e2)" "holds x (all_bytes ps)" "inv (ze_up e2)"
    "content (ze_up e2) = content u @ x"
proof -
  obtain z where z: "z_deflateInit Z c level = Some z" "view z = Some ([], [], False)"
    using assms(1) unfolding deflate_law_def by blast
  define e0 where "e0 = \<lparr>ze_up = u, ze_coding = c, ze_stream = Some z, ze_out = zb_none\<rparr>"
  have new: "ze_new Z c level u = Inr e0" using assms(2) z(1) by (auto simp: ze_new_def e0_def ece_codings)
  have ok: "ze_ok g (content u) [] e0" using assms(5) by (simp add: ze_ok_def ze_buf_def e0_def)
  obtain e1 z1 q1 where e1: "push_chunks (zlib_encoder n Z D g) e0 (map (\<lambda>p. (p, 0)) ps) = Inr (NoError, e1)"
    "ze_coding e1 = ece_deflate \<or> ze_coding e1 = ece_gzip" "ze_stream e1 = Some z1"
    "view z1 = Some (all_bytes ps, q1, False)" "ze_ok g (content u) q1 e1"
    using ze_pushes_ok [OF assms(1,3,4) _ _ z(2) ok assms(6), of n] assms(2,7) by (fastforce simp: e0_def)
  obtain x e2 where e2: "ze_finish n Z D g z1 e1 = Inr (NoError, e2)" "holds x (all_bytes ps)" "inv (ze_up e2)"
    "content (ze_up e2) = content u @ x"
    using ze_finish_ok [OF assms(1,3,4) e1(4,5), of n] assms(7) by auto
  have "d_flush (zlib_encoder n Z D g) e1 = Inr (NoError, e2)"
    using e1(2,3) e2(1) by (auto simp: zlib_encoder_def ze_flush_def ece_codings)
  then show ?thesis using that new e1(1) e2(2-4) by blast
qed

end

subsection \<open>The decoder follows the stream\<close>

lemma inflate_step:
  assumes "inflate_law Z holds view c" "holds x d" "view z = Some (i, q)" "prefix i x" "i \<noteq> x" "prefix q d"
    "prefix (i @ inp) x \<or> prefix x (i @ inp)" "z_inflate Z False z inp n = (st, k, out, z')"
  shows "k \<le> length inp" "length out \<le> n" "prefix (i @ take k inp) x" "prefix (q @ out) d"
    "st = ZStreamEnd \<Longrightarrow> i @ take k inp = x \<and> q @ out = d"
    "st \<noteq> ZStreamEnd \<Longrightarrow> i @ take k inp \<noteq> x \<and> view z' = Some (i @ take k inp, q @ out) \<and>
        (if st = ZOk then k \<noteq> 0 \<or> out \<noteq> [] else st = ZBufError \<and> k = 0 \<and> out = []) \<and>
        (0 < n \<and> inp \<noteq> [] \<longrightarrow> k \<noteq> 0 \<or> out \<noteq> [])"
proof -
  have "inflate_call view x d i q inp n (st, k, out, z')"
    using assms(1-7) unfolding assms(8) [symmetric] inflate_law_def by blast
  then have L: "k \<le> length inp \<and> length out \<le> n \<and> prefix (i @ take k inp) x \<and> prefix (q @ out) d \<and>
     (if st = ZStreamEnd then i @ take k inp = x \<and> q @ out = d
      else i @ take k inp \<noteq> x \<and> view z' = Some (i @ take k inp, q @ out) \<and>
        (if st = ZOk then k \<noteq> 0 \<or> out \<noteq> [] else st = ZBufError \<and> k = 0 \<and> out = []) \<and>
        (0 < n \<and> inp \<noteq> [] \<longrightarrow> k \<noteq> 0 \<or> out \<noteq> []))"
    unfolding inflate_call.simps .
  then show "k \<le> length inp" "length out \<le> n" "prefix (i @ take k inp) x" "prefix (q @ out) d" by blast+
  show "st = ZStreamEnd \<Longrightarrow> i @ take k inp = x \<and> q @ out = d" using L by presburger
  assume "st \<noteq> ZStreamEnd"
  with L show "i @ take k inp \<noteq> x \<and> view z' = Some (i @ take k inp, q @ out) \<and>
        (if st = ZOk then k \<noteq> 0 \<or> out \<noteq> [] else st = ZBufError \<and> k = 0 \<and> out = []) \<and>
        (0 < n \<and> inp \<noteq> [] \<longrightarrow> k \<noteq> 0 \<or> out \<noteq> [])"
    unfolding if_not_P [OF \<open>st \<noteq> ZStreamEnd\<close>] by blast
qed

text \<open>An output buffer between two calls of \<open>inflate\<close>: none, or one cut to what it holds.\<close>

definition zd_buf :: "nat \<Rightarrow> zbuf \<Rightarrow> bool" where
  "zd_buf g b \<longleftrightarrow> b = zb_none \<or> zb_ready g 0 b"

lemma zd_buf_ensure:
  assumes "zd_buf g b" "0 < g" "g < 2 ^ 32"
  obtains b' m where "zb_ensure g b = Inr b'" "zb_ready g m b'" "zb_text b' = zb_text b" "b = zb_none \<longrightarrow> 0 < m"
proof (cases "b = zb_none")
  case True
  then show ?thesis using zb_ensure_none [OF assms(3)] assms(2) that by auto
next
  case False
  then show ?thesis using assms(1) zb_ensure_ready that unfolding zd_buf_def by blast
qed

lemma prefix_less: "prefix i x \<Longrightarrow> i \<noteq> x \<Longrightarrow> length i < length x"
  by (metis prefix_length_le prefix_order.eq_iff not_equal_is_parallel le_neq_implies_less prefix_def append_eq_conv_conj take_all_iff order_refl)

context content_sink
begin

definition zd_ok :: "nat \<Rightarrow> string \<Rightarrow> string \<Rightarrow> ('z, 's) zdec \<Rightarrow> bool" where
  "zd_ok g c0 q e \<longleftrightarrow> inv (zd_up e) \<and> zd_buf g (zd_out e) \<and> content (zd_up e) @ zb_text (zd_out e) = c0 @ q"

lemma zd_send_ok:
  assumes "inv (zd_up e)" "zb_ready g 0 (zd_out e)" "content (zd_up e) @ zb_text (zd_out e) = c0 @ q"
  obtains u where "zd_send D e = Inr (NoError, e\<lparr>zd_up := u, zd_out := zb_none\<rparr>)" "inv u" "content u = c0 @ q"
proof (cases "zb_size (zd_out e) = 0")
  case True
  then have "zb_text (zd_out e) = []" using length_zb_text [OF assms(2)] assms(2) by (simp add: zb_ready_def)
  then show ?thesis using that [of "zd_up e"] assms True by (simp add: zd_send_def)
next
  case False
  then have "zb_off (zd_out e) \<noteq> 0" using assms(2) by (simp add: zb_ready_def)
  then show ?thesis
    using push_sink [OF assms(1) zb_packet_ready(1) [OF assms(2)]] zb_packet_ready(2) [OF assms(2)] assms(3) False that
    by (auto simp: zd_send_def)
qed

text \<open>A round with progress; one without it gives up a buffer.\<close>

lemma fuel_step:
  "2 * (x + d) + a + 2 \<le> Suc n + 2 * (i + q) \<Longrightarrow> b \<le> 1 \<Longrightarrow> 0 < s \<Longrightarrow> l = i + q + s \<Longrightarrow> 2 * (x + d) + b + 2 \<le> n + 2 * (l :: nat)"
  by presburger

text \<open>The decoder has given everything, or it has taken \<open>i\<close>.\<close>

definition zd_done :: "string \<Rightarrow> ('z, 's) zdec \<Rightarrow> bool" where
  "zd_done c e \<longleftrightarrow> zd_end e \<and> inv (zd_up e) \<and> content (zd_up e) = c \<and> zd_stream e \<noteq> None"

definition zd_live :: "('z \<Rightarrow> (string \<times> string) option) \<Rightarrow> nat \<Rightarrow> string \<Rightarrow> string \<Rightarrow> string \<Rightarrow> ('z, 's) zdec \<Rightarrow> bool" where
  "zd_live view g c0 d i e \<longleftrightarrow> \<not> zd_end e \<and>
     (\<exists>z q. zd_stream e = Some z \<and> view z = Some (i, q) \<and> prefix q d \<and> zd_ok g c0 q e)"

lemma zd_loop_ok:
  assumes "inflate_law Z holds view c" "holds x d" "0 < g" "g < 2 ^ 32"
  shows "view z = Some (i, q) \<Longrightarrow> zd_ok g c0 q e \<Longrightarrow> \<not> zd_end e \<Longrightarrow> prefix i x \<Longrightarrow> i \<noteq> x \<Longrightarrow> prefix q d \<Longrightarrow>
    prefix (i @ inp) x \<or> prefix x (i @ inp) \<Longrightarrow>
    2 * (length x + length d) + (if zd_out e = zb_none then 0 else 1) + 2 \<le> n + 2 * (length i + length q) \<Longrightarrow>
    \<exists>e'. zd_loop n Z D g z inp e = Inr (NoError, e') \<and> zd_coding e' = zd_coding e \<and>
      (if prefix x (i @ inp) then zd_done (c0 @ d) e' else zd_live view g c0 d (i @ inp) e')"
proof (induction n arbitrary: z i q inp e)
  case 0
  then have "length i < length x" "length q \<le> length d" using prefix_less prefix_length_le by blast+
  then show ?case using 0(8) by simp
next
  case (Suc n)
  have bound: "length i < length x" "length q \<le> length d" using Suc.prems(4-6) prefix_less prefix_length_le by blast+
  show ?case
  proof (cases "inp = []")
    case True
    have "\<not> prefix x i" using Suc.prems(4,5) prefix_order.antisym by blast
    then show ?thesis using True Suc.prems(1-3,6) by (auto simp: zd_live_def zd_ok_def)
  next
    case False
    have ok: "inv (zd_up e)" "zd_buf g (zd_out e)" "content (zd_up e) @ zb_text (zd_out e) = c0 @ q"
      using Suc.prems(2) unfolding zd_ok_def by auto
    obtain b m where b: "zb_ensure g (zd_out e) = Inr b" "zb_ready g m b" "zb_text b = zb_text (zd_out e)"
      "zd_out e = zb_none \<longrightarrow> 0 < m" using zd_buf_ensure [OF ok(2) assms(3,4)] .
    obtain st k out z' where d: "z_inflate Z False z inp m = (st, k, out, z')" by (metis prod_cases4)
    note law = inflate_step [OF assms(1,2) Suc.prems(1,4,5,6,7) d]
    note w = zb_write_ready [OF b(2) law(2)]
    note cut = zb_cut_ready [OF w(1)]
    let ?f = "e\<lparr>zd_stream := Some z', zd_out := zb_cut (zb_write out b), zd_end := (st = ZStreamEnd)\<rparr>"
    have sink: "content (zd_up ?f) @ zb_text (zd_out ?f) = c0 @ q @ out"
      using ok(3) w(2) b(3) cut(2) by simp
    obtain u where u: "zd_send D ?f = Inr (NoError, ?f\<lparr>zd_up := u, zd_out := zb_none\<rparr>)" "inv u" "content u = c0 @ q @ out"
      using zd_send_ok [of ?f g c0 "q @ out"] ok(1) cut(1) sink by auto
    have total: "(i @ take k inp) @ drop k inp = i @ inp" by simp
    show ?thesis
    proof (cases "st = ZStreamEnd")
      case True
      then have "prefix x (i @ inp)" "q @ out = d" using law(5) by (metis append.assoc append_take_drop_id prefixI, blast)
      moreover have "0 < n" using Suc.prems(8) bound by (simp split: if_splits)
      then have "zd_loop n Z D g z' (drop k inp) (?f\<lparr>zd_up := u, zd_out := zb_none\<rparr>) =
          Inr (NoError, ?f\<lparr>zd_up := u, zd_out := zb_none, zd_stream := Some z'\<rparr>)"
        using True by (cases n) simp_all
      ultimately show ?thesis
        using False Suc.prems(3) b(1) d zb_avail_ready [OF b(2)] u True
        by (simp add: Let_def zd_done_def)
    next
      case live: False
      note s = law(6) [OF live]
      have step: "prefix (i @ take k inp) x" "i @ take k inp \<noteq> x" "prefix (q @ out) d"
        "prefix ((i @ take k inp) @ drop k inp) x \<or> prefix x ((i @ take k inp) @ drop k inp)"
        using law(3,4) s Suc.prems(7) unfolding total by blast+
      have grown: "length (i @ take k inp) + length (q @ out) = length i + length q + (k + length out)"
        using law(1) by simp
      show ?thesis
      proof (cases "st = ZOk")
        case True
        then have "zd_ok g c0 (q @ out) ?f" using ok(1) cut(1) sink by (simp add: zd_ok_def zd_buf_def)
        moreover have "(if zd_out ?f = zb_none then 0 else 1 :: nat) \<le> 1" "0 < k + length out" using s True by auto
        then have "2 * (length x + length d) + (if zd_out ?f = zb_none then 0 else 1) + 2 \<le>
            n + 2 * (length (i @ take k inp) + length (q @ out))"
          by (rule fuel_step [OF Suc.prems(8) _ _ grown])
        ultimately have "\<exists>e'. zd_loop n Z D g z' (drop k inp) ?f = Inr (NoError, e') \<and> zd_coding e' = zd_coding ?f \<and>
          (if prefix x (i @ inp) then zd_done (c0 @ d) e' else zd_live view g c0 d (i @ inp) e')"
          using Suc.IH [OF _ _ _ step(1-4), of z' ?f] s live unfolding total by simp
        then show ?thesis using False Suc.prems(3) b(1) d zb_avail_ready [OF b(2)] True by (simp add: Let_def)
      next
        case buf: False
        then have st: "st = ZBufError" "k = 0" "out = []" using s by auto
        then have "zd_out e \<noteq> zb_none" using s b(4) False by auto
        then have "2 * (length x + length d) + (if zd_out (?f\<lparr>zd_up := u, zd_out := zb_none\<rparr>) = zb_none then 0 else 1) + 2 \<le>
            n + 2 * (length (i @ take k inp) + length (q @ out))"
          using Suc.prems(8) unfolding grown by (simp split: if_splits)
        moreover have "zd_ok g c0 (q @ out) (?f\<lparr>zd_up := u, zd_out := zb_none\<rparr>)" using u by (simp add: zd_ok_def zd_buf_def)
        ultimately have "\<exists>e'. zd_loop n Z D g z' (drop k inp) (?f\<lparr>zd_up := u, zd_out := zb_none\<rparr>) = Inr (NoError, e') \<and>
          zd_coding e' = zd_coding ?f \<and>
          (if prefix x (i @ inp) then zd_done (c0 @ d) e' else zd_live view g c0 d (i @ inp) e')"
          using Suc.IH [OF _ _ _ step(1-4), of z' "?f\<lparr>zd_up := u, zd_out := zb_none\<rparr>"] s live unfolding total by simp
        then show ?thesis
          using False Suc.prems(3) b(1) d zb_avail_ready [OF b(2)] st(1) u(1) by (simp add: Let_def)
      qed
    qed
  qed
qed

lemma zd_end_push:
  assumes "zd_done c e" "zd_coding e = ece_deflate \<or> zd_coding e = ece_gzip" "0 < n"
  shows "\<exists>e'. d_push (zlib_decoder n Z D g) e p off = Inr (NoError, e') \<and> zd_done c e' \<and>
     (zd_coding e' = ece_deflate \<or> zd_coding e' = ece_gzip)"
proof -
  obtain z where z: "zd_stream e = Some z" "zd_end e" using assms(1) by (auto simp: zd_done_def)
  have "zd_loop n Z D g z (z_input p off) e = Inr (NoError, e\<lparr>zd_stream := Some z\<rparr>)"
    using z(2) assms(3) by (cases n) simp_all
  then show ?thesis
    using assms z by (auto simp: zlib_decoder_def zd_push_def zd_done_def ece_codings)
qed

lemma zd_pushes_ok:
  assumes "inflate_law Z holds view c" "holds x d" "0 < g" "g < 2 ^ 32" "2 * (length x + length d) + 3 \<le> n"
  shows "zd_coding e = ece_deflate \<or> zd_coding e = ece_gzip \<Longrightarrow> \<forall>p\<in>set ps. packet_ok p 0 \<and> p_size p < 2 ^ 32 \<Longrightarrow>
    zd_done (c0 @ d) e \<or> zd_live view g c0 d i e \<and> prefix i x \<and> i \<noteq> x \<and> prefix x (i @ all_bytes ps) \<Longrightarrow>
    \<exists>e'. push_chunks (zlib_decoder n Z D g) e (map (\<lambda>p. (p, 0)) ps) = Inr (NoError, e') \<and> zd_done (c0 @ d) e' \<and>
      (zd_coding e' = ece_deflate \<or> zd_coding e' = ece_gzip)"
proof (induction ps arbitrary: e i)
  case Nil
  have "\<not> (prefix i x \<and> i \<noteq> x \<and> prefix x i)" using prefix_order.antisym by blast
  then show ?case using Nil by (auto simp: all_bytes_def)
next
  case (Cons p ps)
  let ?inp = "payload_of p 0"
  have n: "0 < n" using assms(5) by simp
  have all: "all_bytes (p # ps) = ?inp @ all_bytes ps" by (simp add: all_bytes_def)
  have "\<exists>e1. d_push (zlib_decoder n Z D g) e p 0 = Inr (NoError, e1) \<and> (zd_coding e1 = ece_deflate \<or> zd_coding e1 = ece_gzip) \<and>
    (zd_done (c0 @ d) e1 \<or> zd_live view g c0 d (i @ ?inp) e1 \<and> prefix (i @ ?inp) x \<and> i @ ?inp \<noteq> x \<and> prefix x ((i @ ?inp) @ all_bytes ps))"
  proof (cases "zd_done (c0 @ d) e")
    case True
    then show ?thesis using zd_end_push [OF True Cons.prems(1) n, of Z g p 0] by blast
  next
    case False
    then obtain z q where l: "\<not> zd_end e" "zd_stream e = Some z" "view z = Some (i, q)" "prefix q d" "zd_ok g c0 q e"
      "prefix i x" "i \<noteq> x" "prefix x (i @ all_bytes (p # ps))"
      using Cons.prems(3) by (auto simp: zd_live_def)
    have cmp: "prefix (i @ ?inp) x \<or> prefix x (i @ ?inp)"
      using l(8) unfolding all by (metis append.assoc prefixI prefix_same_cases)
    have "2 * (length x + length d) + (if zd_out e = zb_none then 0 else 1) + 2 \<le> n + 2 * (length i + length q)"
      using assms(5) by simp
    then obtain e1 where e1: "zd_loop n Z D g z ?inp e = Inr (NoError, e1)" "zd_coding e1 = zd_coding e"
      "if prefix x (i @ ?inp) then zd_done (c0 @ d) e1 else zd_live view g c0 d (i @ ?inp) e1"
      using zd_loop_ok [OF assms(1-4) l(3,5,1,6,7,4) cmp] by blast
    have "z_input p 0 = ?inp" using Cons.prems(2) by (simp add: z_input_all)
    then have "d_push (zlib_decoder n Z D g) e p 0 = Inr (NoError, e1)"
      using Cons.prems(1) l(2) e1(1) by (auto simp: zlib_decoder_def zd_push_def ece_codings)
    moreover have "prefix x ((i @ ?inp) @ all_bytes ps)" using l(8) by (simp add: all)
    moreover have "\<not> prefix x (i @ ?inp) \<Longrightarrow> prefix (i @ ?inp) x \<and> i @ ?inp \<noteq> x" using cmp by auto
    ultimately show ?thesis using e1(2,3) Cons.prems(1) by (cases "prefix x (i @ ?inp)") auto
  qed
  then obtain e1 where e1: "d_push (zlib_decoder n Z D g) e p 0 = Inr (NoError, e1)"
    "zd_coding e1 = ece_deflate \<or> zd_coding e1 = ece_gzip"
    "zd_done (c0 @ d) e1 \<or> zd_live view g c0 d (i @ ?inp) e1 \<and> prefix (i @ ?inp) x \<and> i @ ?inp \<noteq> x \<and>
       prefix x ((i @ ?inp) @ all_bytes ps)" by blast
  then show ?case using Cons.IH [OF e1(2) _ e1(3)] Cons.prems(2) by auto
qed

lemma zlib_decodes:
  assumes "inflate_law Z holds view c" "holds x d" "c = ece_deflate \<or> c = ece_gzip" "0 < g" "g < 2 ^ 32" "inv u"
    "\<forall>p\<in>set ps. packet_ok p 0 \<and> p_size p < 2 ^ 32" "prefix x (all_bytes ps)" "2 * (length x + length d) + 3 \<le> n"
  obtains e0 e1 e2 where "zd_new Z c u = Inr e0"
    "push_chunks (zlib_decoder n Z D g) e0 (map (\<lambda>p. (p, 0)) ps) = Inr (NoError, e1)"
    "d_flush (zlib_decoder n Z D g) e1 = Inr (NoError, e2)" "inv (zd_up e2)" "content (zd_up e2) = content u @ d"
proof -
  obtain z where z: "z_inflateInit Z c = Some z" "view z = Some ([], [])" "x \<noteq> []"
    using assms(1,2) unfolding inflate_law_def by metis
  define e0 where "e0 = \<lparr>zd_up = u, zd_coding = c, zd_stream = Some z, zd_out = zb_none, zd_end = False\<rparr>"
  have new: "zd_new Z c u = Inr e0" using assms(3) z(1) by (auto simp: zd_new_def e0_def ece_codings)
  have "zd_live view g (content u) d [] e0"
    using assms(6) z(2) by (simp add: zd_live_def zd_ok_def zd_buf_def e0_def)
  then obtain e1 where e1: "push_chunks (zlib_decoder n Z D g) e0 (map (\<lambda>p. (p, 0)) ps) = Inr (NoError, e1)"
    "zd_done (content u @ d) e1" "zd_coding e1 = ece_deflate \<or> zd_coding e1 = ece_gzip"
    using zd_pushes_ok [OF assms(1,2,4,5,9) _ assms(7), of e0 "content u" "[]"] assms(3,8) z(3) by (auto simp: e0_def)
  obtain z1 where z1: "zd_stream e1 = Some z1" "zd_end e1" "inv (zd_up e1)" "content (zd_up e1) = content u @ d"
    using e1(2) by (auto simp: zd_done_def)
  obtain u2 where u2: "d_flush D (zd_up e1) = Inr (NoError, u2)" "inv u2" "content u2 = content (zd_up e1)"
    using flush_sink [OF z1(3)] by blast
  have "zd_finish n Z D g z1 e1 = Inr (NoError, e1\<lparr>zd_up := u2\<rparr>)"
    using z1(2) u2(1) assms(9) by (cases n) simp_all
  then have "d_flush (zlib_decoder n Z D g) e1 = Inr (NoError, e1\<lparr>zd_up := u2\<rparr>)"
    using e1(3) z1(1) by (auto simp: zlib_decoder_def zd_flush_def ece_codings)
  then show ?thesis using that [OF new e1(1)] u2 z1(4) by simp
qed

end

subsection \<open>An instance of zlib\<close>

text \<open>A format in which every character follows a one and the stream ends with a zero.  The state is the input
  and the output so far and, for the compressor, whether the stream has been ended.\<close>

definition mark :: char where "mark = CHR 0x01"
definition stop :: char where "stop = CHR 0x00"

definition marked :: "string \<Rightarrow> string" where
  "marked s = concat (map (\<lambda>c. [mark, c]) s)"

definition toy_holds :: "string \<Rightarrow> string \<Rightarrow> bool" where
  "toy_holds x d \<longleftrightarrow> x = marked d @ [stop]"

record toy =
  toy_in :: string
  toy_out :: string
  toy_ended :: bool

definition toy_deflate :: "bool \<Rightarrow> toy \<Rightarrow> string \<Rightarrow> nat \<Rightarrow> zstatus \<times> nat \<times> string \<times> toy" where
  "toy_deflate fin z inp n = (let
     i = toy_in z @ inp; ended = (toy_ended z \<or> fin);
     out = take n (drop (length (toy_out z)) (marked i @ (if ended then [stop] else [])));
     z' = \<lparr>toy_in = i, toy_out = toy_out z @ out, toy_ended = ended\<rparr>
     in (if fin \<and> toy_out z' = marked i @ [stop] then ZStreamEnd else ZOk, length inp, out, z'))"

fun toy_read :: "bool \<Rightarrow> string \<Rightarrow> nat \<Rightarrow> bool \<times> nat \<times> string" where
  "toy_read m [] n = (False, 0, [])"
| "toy_read False (c # cs) n = (if c = mark then (case toy_read True cs n of (e, k, out) \<Rightarrow> (e, Suc k, out)) else (True, 1, []))"
| "toy_read True (c # cs) n = (case n of 0 \<Rightarrow> (False, 0, [])
     | Suc n' \<Rightarrow> (case toy_read False cs n' of (e, k, out) \<Rightarrow> (e, Suc k, c # out)))"

definition toy_inflate :: "bool \<Rightarrow> toy \<Rightarrow> string \<Rightarrow> nat \<Rightarrow> zstatus \<times> nat \<times> string \<times> toy" where
  "toy_inflate fin z inp n = (case toy_read (toy_ended z) inp n of (e, k, out) \<Rightarrow>
     (if e then ZStreamEnd else if k = 0 \<and> out = [] then ZBufError else ZOk, k, out,
      \<lparr>toy_in = toy_in z @ take k inp, toy_out = toy_out z @ out,
       toy_ended = (toy_in z @ take k inp = marked (toy_out z @ out) @ [mark])\<rparr>))"

definition toy_zlib :: "toy zlib" where
  "toy_zlib = \<lparr>z_deflateInit = (\<lambda>c l. Some \<lparr>toy_in = [], toy_out = [], toy_ended = False\<rparr>), z_deflate = toy_deflate,
     z_inflateInit = (\<lambda>c. Some \<lparr>toy_in = [], toy_out = [], toy_ended = False\<rparr>), z_inflate = toy_inflate\<rparr>"

definition toy_deflating :: "toy \<Rightarrow> (string \<times> string \<times> bool) option" where
  "toy_deflating z = (if prefix (toy_out z) (marked (toy_in z) @ (if toy_ended z then [stop] else []))
     then Some (toy_in z, toy_out z, toy_ended z) else None)"

definition toy_inflating :: "toy \<Rightarrow> (string \<times> string) option" where
  "toy_inflating z = (if toy_in z = marked (toy_out z) @ (if toy_ended z then [mark] else [])
     then Some (toy_in z, toy_out z) else None)"

lemma marked_simps [simp]: "marked [] = []" "marked (c # s) = mark # c # marked s" "marked (s @ t) = marked s @ marked t"
  by (simp_all add: marked_def)

lemma length_marked [simp]: "length (marked s) = 2 * length s"
  by (induction s) simp_all

lemma mark_stop [simp]: "mark \<noteq> stop" "stop \<noteq> mark"
  by (simp_all add: mark_def stop_def)

lemma toy_deflate_call:
  assumes "toy_deflating z = Some (i, q, f)" "0 < n" "f \<longrightarrow> fin \<and> inp = []"
  shows "deflate_call toy_holds toy_deflating (\<lambda>m. 2 * m + 1) i q fin inp n (toy_deflate fin z inp n)"
proof -
  have z: "toy_in z = i" "toy_out z = q" "toy_ended z = f" "prefix q (marked i @ (if f then [stop] else []))"
    using assms(1) by (auto simp: toy_deflating_def split: if_splits)
  define w where "w = marked (i @ inp) @ (if fin then [stop] else [])"
  have f: "(f \<or> fin) = fin" using assms(3) by auto
  have q: "prefix q w" using z(4) assms(3) by (auto simp: w_def prefix_def split: if_splits)
  then have w: "q @ drop (length q) w = w" by (auto simp: prefix_def)
  let ?o = "take n (drop (length q) w)"
  have o: "prefix (q @ ?o) w" using w take_is_prefix by (metis same_prefix_prefix)
  then have "length (q @ ?o) \<le> length w" by (rule prefix_length_le)
  moreover have "length w \<le> 2 * (length i + length inp) + 1" by (simp add: w_def)
  ultimately have bound: "length (q @ ?o) \<le> 2 * (length i + length inp) + 1" by linarith
  have room: "q @ ?o \<noteq> w \<Longrightarrow> length ?o = n"
    by (metis take_all_iff w length_take min_def nle_le)
  have r: "toy_deflate fin z inp n = (if fin \<and> q @ ?o = marked (i @ inp) @ [stop] then ZStreamEnd else ZOk, length inp, ?o,
      \<lparr>toy_in = i @ inp, toy_out = q @ ?o, toy_ended = fin\<rparr>)"
    by (simp only: toy_deflate_def Let_def z f w_def toy.simps)
  show ?thesis
  proof (cases "fin \<and> q @ ?o = marked (i @ inp) @ [stop]")
    case True
    then show ?thesis unfolding r using bound by (simp add: toy_holds_def)
  next
    case False
    have "toy_deflating \<lparr>toy_in = i @ inp, toy_out = q @ ?o, toy_ended = fin\<rparr> = Some (i @ inp, q @ ?o, fin)"
      using o unfolding toy_deflating_def w_def by simp
    moreover have "fin \<Longrightarrow> length ?o = n" using room False by (simp add: w_def)
    ultimately show ?thesis unfolding r if_not_P [OF False] deflate_call.simps using bound by auto
  qed
qed

definition half :: "bool \<Rightarrow> string" where
  "half m = (if m then [mark] else [])"

lemma half_simps [simp]: "half True = [mark]" "half False = []" "length (half m) \<le> 1"
  by (simp_all add: half_def)

lemma toy_read_spec:
  "toy_read m inp n = (e, k, out) \<Longrightarrow> k \<le> length inp \<and> length out \<le> n \<and> (0 < n \<and> inp \<noteq> [] \<longrightarrow> 0 < k) \<and>
     (if e then \<exists>c. c \<noteq> mark \<and> half m @ take k inp = marked out @ [c]
      else \<exists>m'. half m @ take k inp = marked out @ half m')"
proof (induction m inp n arbitrary: e k out rule: toy_read.induct)
  case (1 m n)
  then show ?case by (auto intro: exI [of _ m])
next
  case (2 c cs n)
  show ?case
  proof (cases "c = mark")
    case True
    obtain e1 k1 o1 where r: "toy_read True cs n = (e1, k1, o1)" by (metis prod_cases3)
    then have "e = e1" "k = Suc k1" "out = o1" using "2.prems" True by simp_all
    then show ?thesis using "2.IH" [OF True r] True by (cases e1) simp_all
  next
    case False
    then have "e" "k = 1" "out = []" using "2.prems" by simp_all
    then show ?thesis using False by simp
  qed
next
  case (3 c cs n)
  show ?case
  proof (cases n)
    case 0
    then have "\<not> e" "k = 0" "out = []" using "3.prems" by simp_all
    then show ?thesis using 0 by (simp add: exI [of _ True])
  next
    case (Suc n')
    obtain e1 k1 o1 where r: "toy_read False cs n' = (e1, k1, o1)" by (metis prod_cases3)
    then have "e = e1" "k = Suc k1" "out = c # o1" using "3.prems" Suc by simp_all
    then show ?thesis using "3.IH" [OF Suc r] Suc by (cases e1) simp_all
  qed
qed

lemma marked_stop_prefix: "prefix (marked d @ [stop]) (marked s @ t) \<Longrightarrow> length t \<le> 1 \<Longrightarrow> s = d \<and> t = [stop]"
proof (induction d arbitrary: s)
  case Nil
  then show ?case by (cases s; cases t) auto
next
  case (Cons c d)
  then show ?case by (cases s; cases t) auto
qed

lemma marked_prefix:
  "prefix (marked s @ t) (marked d @ [stop]) \<Longrightarrow> prefix s d \<and> (\<forall>c. t = [c] \<longrightarrow> c \<noteq> mark \<longrightarrow> s = d \<and> c = stop)"
proof (induction s arbitrary: d)
  case Nil
  then show ?case by (cases d) auto
next
  case (Cons c s)
  then show ?case by (cases d) auto
qed

lemma toy_inflate_call:
  assumes "toy_holds x d" "toy_inflating z = Some (i, q)" "prefix i x" "i \<noteq> x" "prefix (i @ inp) x \<or> prefix x (i @ inp)"
  shows "inflate_call toy_inflating x d i q inp n (toy_inflate False z inp n)"
proof -
  have z: "toy_in z = i" "toy_out z = q" "i = marked q @ half (toy_ended z)"
    using assms(2) by (auto simp: toy_inflating_def half_def split: if_splits)
  obtain e k out where r: "toy_read (toy_ended z) inp n = (e, k, out)" by (metis prod_cases3)
  note spec = toy_read_spec [OF r]
  let ?i = "i @ take k inp"
  obtain t where t: "?i = marked (q @ out) @ t" "length t \<le> 1" "if e then \<exists>c. c \<noteq> mark \<and> t = [c] else \<exists>m. t = half m"
  proof (cases e)
    case True
    then obtain c where "c \<noteq> mark" "half (toy_ended z) @ take k inp = marked out @ [c]" using spec by auto
    then show ?thesis using True z(3) that [of "[c]"] by simp
  next
    case False
    then obtain m where "half (toy_ended z) @ take k inp = marked out @ half m" using spec by auto
    then show ?thesis using False z(3) that [of "half m"] half_simps(3) [of m] by auto
  qed
  have x: "x = marked d @ [stop]" using assms(1) by (simp add: toy_holds_def)
  have sub: "prefix ?i (i @ inp)" by (simp add: take_is_prefix)
  have i: "prefix ?i x"
  proof (rule ccontr)
    assume n: "\<not> prefix ?i x"
    then have "prefix x ?i" using assms(5) sub by (metis prefix_order.trans prefix_same_cases)
    then have "?i = x" using marked_stop_prefix [OF _ t(2), of d "q @ out"] unfolding t(1) x by auto
    then show False using n by simp
  qed
  have pre: "prefix (q @ out) d" "\<And>c. t = [c] \<Longrightarrow> c \<noteq> mark \<Longrightarrow> q @ out = d \<and> c = stop"
    using marked_prefix [of "q @ out" t d] i unfolding t(1) x by blast+
  show ?thesis
  proof (cases e)
    case True
    then obtain c where "c \<noteq> mark" "t = [c]" using t(3) by auto
    then have "q @ out = d" "?i = x" using pre(2) t(1) x by auto
    then show ?thesis using r True z spec i pre(1) by (simp add: toy_inflate_def)
  next
    case False
    then obtain m where m: "t = half m" using t(3) by auto
    have "?i \<noteq> x"
    proof
      assume "?i = x"
      then have "t = [stop]" using marked_stop_prefix [OF _ t(2), of d "q @ out"] unfolding t(1) x by simp
      then show False using m by (simp add: half_def split: if_splits)
    qed
    moreover have "(?i = marked (q @ out) @ [mark]) = m" using t(1) m by (simp add: half_def)
    then have "toy_inflating \<lparr>toy_in = ?i, toy_out = q @ out, toy_ended = (?i = marked (q @ out) @ [mark])\<rparr> = Some (?i, q @ out)"
      using t(1) m by (simp add: toy_inflating_def half_def)
    ultimately show ?thesis using r False z(1,2) spec i pre(1) by (auto simp: toy_inflate_def)
  qed
qed

lemma toy_laws:
  "deflate_law toy_zlib toy_holds toy_deflating (\<lambda>m. 2 * m + 1) c level"
  "inflate_law toy_zlib toy_holds toy_inflating c"
proof -
  have new: "toy_deflating \<lparr>toy_in = [], toy_out = [], toy_ended = False\<rparr> = Some ([], [], False)"
    "toy_inflating \<lparr>toy_in = [], toy_out = [], toy_ended = False\<rparr> = Some ([], [])" "\<not> toy_holds [] d" for d
    by (simp_all add: toy_deflating_def toy_inflating_def toy_holds_def)
  have ops: "z_deflateInit toy_zlib c level = Some \<lparr>toy_in = [], toy_out = [], toy_ended = False\<rparr>"
    "z_inflateInit toy_zlib c = Some \<lparr>toy_in = [], toy_out = [], toy_ended = False\<rparr>"
    "z_deflate toy_zlib = toy_deflate" "z_inflate toy_zlib = toy_inflate" by (simp_all add: toy_zlib_def)
  have "mono (\<lambda>m. 2 * m + 1 :: nat)" by (simp add: mono_def)
  then show "deflate_law toy_zlib toy_holds toy_deflating (\<lambda>m. 2 * m + 1) c level"
    unfolding deflate_law_def ops using new(1) toy_deflate_call by blast
  show "inflate_law toy_zlib toy_holds toy_inflating c"
    unfolding inflate_law_def ops using new(2,3) toy_inflate_call by blast
qed

subsection \<open>Properties\<close>

text \<open>
  C10: compressed bodies.  Whatever the packets of a body, the encoder writes one compressed stream of their bytes,
  however small its buffers; and however that stream is cut into packets, and whatever follows it, the decoder gives
  its accumulator exactly those bytes.  All loops return: their rounds are bounded by the lengths.
\<close>

theorem zlib_roundtrip:
  assumes "deflate_law Z holds dview bound c level" "inflate_law Z holds iview c" "c = ece_deflate \<or> c = ece_gzip"
    "0 < g" "g < 2 ^ 32" "0 < g'" "g' < 2 ^ 32" "writer_ok w" "acc_ok a"
    "\<forall>p\<in>set ps. packet_ok p 0 \<and> p_size p < 2 ^ 32" "bound (length (all_bytes ps)) + 2 \<le> n"
  shows "\<exists>e0 e1 e2 x. ze_new Z c level w = Inr e0 \<and>
    push_chunks (zlib_encoder n Z (writer_encoder open_send gw) g) e0 (map (\<lambda>p. (p, 0)) ps) = Inr (NoError, e1) \<and>
    d_flush (zlib_encoder n Z (writer_encoder open_send gw) g) e1 = Inr (NoError, e2) \<and>
    written (ze_up e2) = written w @ x \<and>
    (\<forall>qs T m. (\<forall>p\<in>set qs. packet_ok p 0 \<and> p_size p < 2 ^ 32) \<and> all_bytes qs = x @ T \<and>
       2 * (length x + length (all_bytes ps)) + 3 \<le> m \<longrightarrow>
       (\<exists>f0 f1 f2. zd_new Z c a = Inr f0 \<and>
         push_chunks (zlib_decoder m Z acc_decoder g') f0 (map (\<lambda>p. (p, 0)) qs) = Inr (NoError, f1) \<and>
         d_flush (zlib_decoder m Z acc_decoder g') f1 = Inr (NoError, f2) \<and>
         acc_content (zd_up f2) = acc_content a @ all_bytes ps))"
proof -
  obtain e0 e1 e2 x where e: "ze_new Z c level w = Inr e0"
    "push_chunks (zlib_encoder n Z (writer_encoder open_send gw) g) e0 (map (\<lambda>p. (p, 0)) ps) = Inr (NoError, e1)"
    "d_flush (zlib_encoder n Z (writer_encoder open_send gw) g) e1 = Inr (NoError, e2)" "holds x (all_bytes ps)"
    "written (ze_up e2) = written w @ x"
    by (rule writer_sink.zlib_encodes [OF assms(1,3,4,5,8,10,11)])
  have "\<exists>f0 f1 f2. zd_new Z c a = Inr f0 \<and>
         push_chunks (zlib_decoder m Z acc_decoder g') f0 (map (\<lambda>p. (p, 0)) qs) = Inr (NoError, f1) \<and>
         d_flush (zlib_decoder m Z acc_decoder g') f1 = Inr (NoError, f2) \<and>
         acc_content (zd_up f2) = acc_content a @ all_bytes ps"
    if "(\<forall>p\<in>set qs. packet_ok p 0 \<and> p_size p < 2 ^ 32) \<and> all_bytes qs = x @ T \<and>
       2 * (length x + length (all_bytes ps)) + 3 \<le> m" for qs T m
  proof -
    have "\<forall>p\<in>set qs. packet_ok p 0 \<and> p_size p < 2 ^ 32" "prefix x (all_bytes qs)"
      "2 * (length x + length (all_bytes ps)) + 3 \<le> m" using that by auto
    then obtain f0 f1 f2 where "zd_new Z c a = Inr f0"
      "push_chunks (zlib_decoder m Z acc_decoder g') f0 (map (\<lambda>p. (p, 0)) qs) = Inr (NoError, f1)"
      "d_flush (zlib_decoder m Z acc_decoder g') f1 = Inr (NoError, f2)" "acc_content (zd_up f2) = acc_content a @ all_bytes ps"
      by (rule acc_sink.zlib_decodes [OF assms(2) e(4) assms(3,6,7,9)])
    then show ?thesis by (intro exI conjI)
  qed
  then show ?thesis by (intro exI [of _ e0] exI [of _ e1] exI [of _ e2] exI [of _ x] conjI e allI impI)
qed

theorem zlib_roundtrip_witness:
  "\<exists>e0 e1 e2 x. ze_new toy_zlib ece_gzip 5 (\<lparr>w_channel = [], w_buffers = [], w_packets = [], w_size = 0\<rparr>) = Inr e0 \<and>
    push_chunks (zlib_encoder 20 toy_zlib (writer_encoder open_send 8) 3) e0 (map (\<lambda>p. (p, 0)) [initPacket ''ab'', initPacket ''c'']) =
      Inr (NoError, e1) \<and>
    d_flush (zlib_encoder 20 toy_zlib (writer_encoder open_send 8) 3) e1 = Inr (NoError, e2) \<and>
    written (ze_up e2) = [] @ x \<and>
    (\<forall>qs T m. (\<forall>p\<in>set qs. packet_ok p 0 \<and> p_size p < 2 ^ 32) \<and> all_bytes qs = x @ T \<and> 2 * (length x + 3) + 3 \<le> m \<longrightarrow>
       (\<exists>f0 f1 f2. zd_new toy_zlib ece_gzip empty_acc = Inr f0 \<and>
         push_chunks (zlib_decoder m toy_zlib acc_decoder 2) f0 (map (\<lambda>p. (p, 0)) qs) = Inr (NoError, f1) \<and>
         d_flush (zlib_decoder m toy_zlib acc_decoder 2) f1 = Inr (NoError, f2) \<and>
         acc_content (zd_up f2) = ''abc''))"
proof -
  let ?w = "\<lparr>w_channel = [], w_buffers = [], w_packets = [], w_size = 0\<rparr> :: string writer"
  let ?ps = "[initPacket ''ab'', initPacket ''c'']"
  have 1: "ece_gzip = ece_deflate \<or> ece_gzip = ece_gzip" "(0 :: nat) < 3" "(3 :: nat) < 2 ^ 32" "(0 :: nat) < 2" "(2 :: nat) < 2 ^ 32" by simp_all
  have 2: "writer_ok ?w" "written ?w = []" by (simp_all add: writer_ok_def written_def)
  have 3: "\<forall>p\<in>set ?ps. packet_ok p 0 \<and> p_size p < 2 ^ 32" by (simp add: initPacket_def packet_ok_def)
  have 4: "all_bytes ?ps = ''abc''" by (simp add: all_bytes_def initPacket_def payload_of_def)
  have 5: "2 * length (all_bytes ?ps) + 1 + 2 \<le> (20 :: nat)" "length (all_bytes ?ps) = 3" unfolding 4 by simp_all
  show ?thesis
    using zlib_roundtrip [OF toy_laws 1 2(1) acc_ok_empty 3 5(1), of 5 8]
    unfolding 2(2) acc_content_empty append_Nil 4 5(2) [unfolded 4] .
qed

end
