(* ===== verification/HttpOutput.thy ===== *)
theory HttpOutput
  imports HttpZlib HttpDate HttpMessageBody
begin

text \<open>
  An HTTP message that is written (http/impl/outputMessage.cpp): the first line, the headers and the body go
  through one buffer of \<open>_granula\<close> bytes into a chain of content encoders, which ends in the writer to the
  channel; behind the head, filters for the chunked coding and for compression are put in front of it.

  The chain is the list of its filters, the outermost first, and the writer; \<open>chain_enc\<close> puts the
  encoders together, one on the other.  A packet pushed shares its array with the buffer that is written on;
  the bytes written later lie behind the packet's size, so the model copies the array.
  \<open>writeSystemHeaders\<close> is virtual and an argument of the operations that may call it.
\<close>

subsection \<open>The buffer\<close>

text \<open>\<open>_buffer\<close>, \<open>_writeBegin\<close> and \<open>_writePosition\<close> over the state of the encoder; \<open>_writeEnd\<close> is the end of
  the array.\<close>

record 'u obuf =
  ob_data :: "string option"
  ob_begin :: nat
  ob_pos :: nat
  ob_up :: 'u

definition bufferEnsure :: "nat \<Rightarrow> 'u obuf \<Rightarrow> 'u obuf" where
  "bufferEnsure g b = (case ob_data b of Some _ \<Rightarrow> b
     | None \<Rightarrow> b\<lparr>ob_data := Some (replicate g (CHR 0x00)), ob_begin := 0, ob_pos := 0\<rparr>)"

definition bufferFlush :: "'u encoder \<Rightarrow> 'u obuf \<Rightarrow> (ecode \<times> 'u obuf) hresult" where
  "bufferFlush U b = (case ob_data b of None \<Rightarrow> Inl AssertFailed
     | Some d \<Rightarrow>
         if ob_pos b < ob_begin b then Inl AssertFailed
         else if_ok (if ob_begin b < ob_pos b then d_push U (ob_up b) \<lparr>p_data = d, p_size = ob_pos b\<rparr> (ob_begin b)
                     else Inr (NoError, ob_up b))
           (\<lambda>ec u. Inr (ec, b\<lparr>ob_up := u\<rparr>))
           (\<lambda>u. Inr (NoError, if ob_pos b = length d then b\<lparr>ob_up := u, ob_data := None, ob_begin := 0, ob_pos := 0\<rparr>
                              else b\<lparr>ob_up := u, ob_begin := ob_pos b\<rparr>)))"

definition bufferNext :: "'u encoder \<Rightarrow> nat \<Rightarrow> 'u obuf \<Rightarrow> (ecode \<times> 'u obuf) hresult" where
  "bufferNext U g b = if_ok (bufferFlush U b) (\<lambda>ec b. Inr (ec, b)) (\<lambda>b. Inr (NoError, bufferEnsure g b))"

text \<open>How many bytes there is room for, and writing them.\<close>

definition bufferGet :: "nat \<Rightarrow> nat \<Rightarrow> 'u obuf \<Rightarrow> nat \<times> 'u obuf" where
  "bufferGet g n b = (let b' = bufferEnsure g b; avail = (case ob_data b' of Some d \<Rightarrow> length d | None \<Rightarrow> 0) - ob_pos b' in
     (if avail < n then avail else n, b'))"

definition memcpy_at :: "string \<Rightarrow> 'u obuf \<Rightarrow> 'u obuf" where
  "memcpy_at s b = b\<lparr>ob_data := map_option (\<lambda>d. take (ob_pos b) d @ s @ drop (ob_pos b + length s) d) (ob_data b)\<rparr>"

definition bufferInc :: "'u encoder \<Rightarrow> nat \<Rightarrow> nat \<Rightarrow> 'u obuf \<Rightarrow> (ecode \<times> 'u obuf) hresult" where
  "bufferInc U g n b = (case ob_data b of None \<Rightarrow> Inl AssertFailed
     | Some d \<Rightarrow> let b' = b\<lparr>ob_pos := ob_pos b + n\<rparr> in
         if length d < ob_pos b' then Inl AssertFailed
         else if ob_pos b' = length d then bufferNext U g b' else Inr (NoError, b'))"

function ob_write :: "'u encoder \<Rightarrow> nat \<Rightarrow> string \<Rightarrow> 'u obuf \<Rightarrow> (ecode \<times> 'u obuf) hresult" where
  "ob_write U g s b =
     (if s = [] then Inr (NoError, b)
      else (case bufferGet g (length s) b of (n, b1) \<Rightarrow>
        if n = 0 then Inl AssertFailed
        else if_ok (bufferInc U g n (memcpy_at (take n s) b1)) (\<lambda>ec b. Inr (ec, b)) (\<lambda>b. ob_write U g (drop n s) b)))"
  by auto
termination by (relation "measure (\<lambda>(U, g, s, b). length s)") auto

declare ob_write.simps [simp del]

text \<open>The output iterator: \<open>iteratorDereference\<close> gives the place at the position, \<open>iteratorIncrement\<close> moves on; the
  error code of the increment is lost in the iterator facade.\<close>

definition iter_put :: "'u encoder \<Rightarrow> nat \<Rightarrow> char \<Rightarrow> 'u obuf \<Rightarrow> 'u obuf hresult" where
  "iter_put U g c b = (case ob_data b of None \<Rightarrow> Inl NullDeref
     | Some d \<Rightarrow>
         if length d \<le> ob_pos b then Inl BadIterator
         else (let b' = b\<lparr>ob_data := Some (d[ob_pos b := c]), ob_pos := ob_pos b + 1\<rparr> in
           if ob_pos b' = length d then hbind (bufferNext U g b') (\<lambda>(ec, b). Inr b) else Inr b'))"

fun iter_text :: "'u encoder \<Rightarrow> nat \<Rightarrow> string \<Rightarrow> 'u obuf \<Rightarrow> 'u obuf hresult" where
  "iter_text U g [] b = Inr b"
| "iter_text U g (c # s) b = hbind (iter_put U g c b) (iter_text U g s)"

subsection \<open>The chain of encoders\<close>

datatype 'z filt = FChunked "(packet \<times> nat) list" nat | FZlib flags "'z option" zbuf

type_synonym ('ch, 'z) filters = "'z filt list \<times> 'ch writer"

text \<open>The channel, the size of buffers, the number libraries and zlib with the rounds its loops are given.\<close>

record ('ch, 'z) oenv =
  oe_send :: "'ch \<Rightarrow> string list \<Rightarrow> packet list \<Rightarrow> ecode \<times> 'ch"
  oe_granula :: nat
  oe_hex :: spirit
  oe_dec :: "nat \<Rightarrow> string"
  oe_zlib :: "'z zlib"
  oe_rounds :: nat

definition on_writer :: "('ch writer \<Rightarrow> (ecode \<times> 'ch writer) hresult) \<Rightarrow> ('ch, 'z) filters \<Rightarrow> (ecode \<times> ('ch, 'z) filters) hresult" where
  "on_writer f c = hbind (f (snd c)) (\<lambda>(ec, w). Inr (ec, (fst c, w)))"

definition on_filter :: "(('ch, 'z) filters chunk_encoder \<Rightarrow> (ecode \<times> ('ch, 'z) filters chunk_encoder) hresult) \<Rightarrow>
    (('z, ('ch, 'z) filters) zenc \<Rightarrow> (ecode \<times> ('z, ('ch, 'z) filters) zenc) hresult) \<Rightarrow>
    ('ch, 'z) filters \<Rightarrow> (ecode \<times> ('ch, 'z) filters) hresult" where
  "on_filter f h c = (case fst c of [] \<Rightarrow> Inl NullDeref
     | FChunked cs n # fs \<Rightarrow> hbind (f \<lparr>ce_up = (fs, snd c), ce_chunks = cs, ce_size = n\<rparr>)
         (\<lambda>(ec, e). Inr (ec, (FChunked (ce_chunks e) (ce_size e) # fst (ce_up e), snd (ce_up e))))
     | FZlib k st b # fs \<Rightarrow> hbind (h \<lparr>ze_up = (fs, snd c), ze_coding = k, ze_stream = st, ze_out = b\<rparr>)
         (\<lambda>(ec, e). Inr (ec, (FZlib (ze_coding e) (ze_stream e) (ze_out e) # fst (ze_up e), snd (ze_up e)))))"

primrec chain_enc :: "('ch, 'z) oenv \<Rightarrow> nat \<Rightarrow> ('ch, 'z) filters encoder" where
  "chain_enc E 0 =
     \<lparr>d_push = (\<lambda>c p off. on_writer (\<lambda>w. w_push (oe_send E) (oe_granula E) w p off) c),
      d_flush = (\<lambda>c. on_writer (w_flush (oe_send E)) c)\<rparr>"
| "chain_enc E (Suc n) =
     \<lparr>d_push = (\<lambda>c p off. on_filter (\<lambda>e. ce_push (oe_hex E) (chain_enc E n) (oe_granula E) e p off)
        (\<lambda>e. ze_push (oe_rounds E) (oe_zlib E) (chain_enc E n) (oe_granula E) e p off) c),
      d_flush = (\<lambda>c. on_filter (ce_flush (oe_hex E) (chain_enc E n))
        (ze_flush (oe_rounds E) (oe_zlib E) (chain_enc E n) (oe_granula E)) c)\<rparr>"

subsection \<open>The message\<close>

datatype omode = OmFirstLine | OmHeaders | OmBody

definition unknown_length :: u64 where
  "unknown_length = - 1"

record ('ch, 'z) omsg =
  om_mode :: omode
  om_buf :: "('ch, 'z) filters obuf"
  om_version :: "u16 \<times> u16"
  om_length :: u64
  om_chunked :: bool
  om_keep :: econnection
  om_coding :: flags
  om_level :: int

definition new_output :: "'ch \<Rightarrow> ('ch, 'z) omsg" where
  "new_output ch = \<lparr>om_mode = OmFirstLine,
     om_buf = \<lparr>ob_data = None, ob_begin = 0, ob_pos = 0,
       ob_up = ([], \<lparr>w_channel = ch, w_buffers = [], w_packets = [], w_size = 0\<rparr>)\<rparr>,
     om_version = (0, 0), om_length = unknown_length, om_chunked = False, om_keep = EcUnknown,
     om_coding = ece_identity, om_level = 0\<rparr>"

definition setContentLength :: "u64 \<Rightarrow> ('ch, 'z) omsg \<Rightarrow> ('ch, 'z) omsg" where
  "setContentLength n o1 = o1\<lparr>om_length := n\<rparr>"

definition setContentCompress :: "int \<Rightarrow> ('ch, 'z) omsg \<Rightarrow> ('ch, 'z) omsg" where
  "setContentCompress l o1 = o1\<lparr>om_level := l\<rparr>"

definition setKeepAlive :: "bool \<Rightarrow> ('ch, 'z) omsg \<Rightarrow> ('ch, 'z) omsg" where
  "setKeepAlive k o1 = o1\<lparr>om_keep := (if k then EcKeepAlive else EcClose)\<rparr>"

definition setChunked :: "bool \<Rightarrow> ('ch, 'z) omsg \<Rightarrow> ('ch, 'z) omsg" where
  "setChunked c o1 = o1\<lparr>om_chunked := c\<rparr>"

definition setContentEncoding :: "flags \<Rightarrow> ('ch, 'z) omsg \<Rightarrow> ('ch, 'z) omsg" where
  "setContentEncoding c o1 = o1\<lparr>om_coding := c\<rparr>"

text \<open>Operations of the buffer with the chain as it is.\<close>

definition om_enc :: "('ch, 'z) oenv \<Rightarrow> ('ch, 'z) omsg \<Rightarrow> ('ch, 'z) filters encoder" where
  "om_enc E m = chain_enc E (length (fst (ob_up (om_buf m))))"

definition om_on :: "(('ch, 'z) filters obuf \<Rightarrow> (ecode \<times> ('ch, 'z) filters obuf) hresult) \<Rightarrow> ('ch, 'z) omsg \<Rightarrow>
    (ecode \<times> ('ch, 'z) omsg) hresult" where
  "om_on f m = hbind (f (om_buf m)) (\<lambda>(ec, b). Inr (ec, m\<lparr>om_buf := b\<rparr>))"

definition om_write :: "('ch, 'z) oenv \<Rightarrow> string \<Rightarrow> ('ch, 'z) omsg \<Rightarrow> (ecode \<times> ('ch, 'z) omsg) hresult" where
  "om_write E s m = om_on (ob_write (om_enc E m) (oe_granula E) s) m"

definition om_flush :: "('ch, 'z) oenv \<Rightarrow> ('ch, 'z) omsg \<Rightarrow> (ecode \<times> ('ch, 'z) omsg) hresult" where
  "om_flush E m = om_on (bufferFlush (om_enc E m)) m"

text \<open>\<open>if((ec = ...)) return ec;\<close> with the message as it is then.\<close>

definition om_then :: "(ecode \<times> 'm) hresult \<Rightarrow> ('m \<Rightarrow> (ecode \<times> 'm) hresult) \<Rightarrow> (ecode \<times> 'm) hresult" where
  "om_then r f = if_ok r (\<lambda>ec m. Inr (ec, m)) f"

lemma om_then_simps [simp]:
  "om_then (Inl f) k = Inl f" "om_then (Inr (NoError, m)) k = k m" "ec \<noteq> NoError \<Longrightarrow> om_then (Inr (ec, m)) k = Inr (ec, m)"
  by (simp_all add: om_then_def)

subsection \<open>Modes\<close>

definition ensure_firstLine :: "('ch, 'z) omsg \<Rightarrow> (ecode \<times> ('ch, 'z) omsg) hresult" where
  "ensure_firstLine m = (if om_mode m = OmFirstLine then Inr (NoError, m) else Inl AssertFailed)"

definition ensure_headers :: "('ch, 'z) oenv \<Rightarrow> ('ch, 'z) omsg \<Rightarrow> (ecode \<times> ('ch, 'z) omsg) hresult" where
  "ensure_headers E m = (case om_mode m of
       OmHeaders \<Rightarrow> Inr (NoError, m)
     | OmFirstLine \<Rightarrow> om_then (om_write E crlf m) (\<lambda>m. Inr (NoError, m\<lparr>om_mode := OmHeaders\<rparr>))
     | OmBody \<Rightarrow> Inl AssertFailed)"

text \<open>\<open>setupBodyFilters\<close>.\<close>

definition add_chunked :: "('ch, 'z) omsg \<Rightarrow> ('ch, 'z) omsg" where
  "add_chunked m = (if om_chunked m
     then m\<lparr>om_buf := (om_buf m)\<lparr>ob_up := (FChunked [] 0 # fst (ob_up (om_buf m)), snd (ob_up (om_buf m)))\<rparr>\<rparr> else m)"

definition setupBodyFilters :: "('ch, 'z) oenv \<Rightarrow> ('ch, 'z) omsg \<Rightarrow> (ecode \<times> ('ch, 'z) omsg) hresult" where
  "setupBodyFilters E m = (let m = add_chunked m in
     if om_coding m = ece_identity then Inr (NoError, m)
     else if om_coding m \<noteq> ece_gzip \<and> om_coding m \<noteq> ece_deflate then Inl AssertFailed
     else hbind (ze_new (oe_zlib E) (om_coding m) (om_level m) (ob_up (om_buf m))) (\<lambda>e.
       Inr (NoError, m\<lparr>om_buf := (om_buf m)\<lparr>ob_up :=
         (FZlib (ze_coding e) (ze_stream e) (ze_out e) # fst (ze_up e), snd (ze_up e))\<rparr>\<rparr>)))"

type_synonym ('ch, 'z) step = "('ch, 'z) omsg \<Rightarrow> (ecode \<times> ('ch, 'z) omsg) hresult"

definition enter_body :: "('ch, 'z) oenv \<Rightarrow> ('ch, 'z) step \<Rightarrow> ('ch, 'z) step" where
  "enter_body E system m = om_then (system m) (\<lambda>m. om_then (om_write E crlf m) (\<lambda>m. om_then (om_flush E m) (\<lambda>m.
     om_then (setupBodyFilters E m) (\<lambda>m. Inr (NoError, m\<lparr>om_mode := OmBody\<rparr>)))))"

definition ensure_body :: "('ch, 'z) oenv \<Rightarrow> ('ch, 'z) step \<Rightarrow> ('ch, 'z) step" where
  "ensure_body E system m = (case om_mode m of
       OmBody \<Rightarrow> Inr (NoError, m)
     | OmFirstLine \<Rightarrow> om_then (om_write E crlf m) (\<lambda>m. enter_body E system (m\<lparr>om_mode := OmHeaders\<rparr>))
     | OmHeaders \<Rightarrow> enter_body E system m)"

subsection \<open>What is written\<close>

definition om_firstLine :: "('ch, 'z) oenv \<Rightarrow> string \<Rightarrow> ('ch, 'z) step" where
  "om_firstLine E s m = om_then (ensure_firstLine m) (om_write E s)"

definition om_header_line :: "('ch, 'z) oenv \<Rightarrow> string \<Rightarrow> ('ch, 'z) step" where
  "om_header_line E s m = om_then (ensure_headers E m) (\<lambda>m. om_then (om_write E s m) (om_write E crlf))"

definition om_header :: "('ch, 'z) oenv \<Rightarrow> string \<Rightarrow> string \<Rightarrow> ('ch, 'z) step" where
  "om_header E name value m = om_then (ensure_headers E m) (\<lambda>m. om_then (om_write E name m) (\<lambda>m.
     om_then (om_write E '': '' m) (\<lambda>m. om_then (om_write E value m) (om_write E crlf))))"

text \<open>The iterators: the mode, then a buffer to write into.\<close>

definition om_iterator :: "('ch, 'z) oenv \<Rightarrow> ('ch, 'z) omsg \<Rightarrow> ('ch, 'z) omsg" where
  "om_iterator E m = m\<lparr>om_buf := bufferEnsure (oe_granula E) (om_buf m)\<rparr>"

definition om_firstLineIterator :: "('ch, 'z) oenv \<Rightarrow> ('ch, 'z) omsg \<Rightarrow> ('ch, 'z) omsg hresult" where
  "om_firstLineIterator E m = hbind (ensure_firstLine m) (\<lambda>(ec, m). Inr (om_iterator E m))"

definition om_headersIterator :: "('ch, 'z) oenv \<Rightarrow> ('ch, 'z) omsg \<Rightarrow> ('ch, 'z) omsg hresult" where
  "om_headersIterator E m = hbind (ensure_headers E m) (\<lambda>(ec, m). if ec \<noteq> NoError then Inl AssertFailed else Inr (om_iterator E m))"

definition om_bodyIterator :: "('ch, 'z) oenv \<Rightarrow> ('ch, 'z) step \<Rightarrow> ('ch, 'z) omsg \<Rightarrow> ('ch, 'z) omsg hresult" where
  "om_bodyIterator E system m = hbind (ensure_body E system m) (\<lambda>(ec, m). if ec \<noteq> NoError then Inl AssertFailed else Inr (om_iterator E m))"

definition om_firstLineFlush :: "('ch, 'z) oenv \<Rightarrow> ('ch, 'z) step" where
  "om_firstLineFlush E = ensure_headers E"

definition om_headersFlush :: "('ch, 'z) oenv \<Rightarrow> ('ch, 'z) step \<Rightarrow> ('ch, 'z) step" where
  "om_headersFlush E system = ensure_body E system"

text \<open>Text generated through an iterator.\<close>

definition om_generate :: "('ch, 'z) oenv \<Rightarrow> string \<Rightarrow> ('ch, 'z) omsg \<Rightarrow> ('ch, 'z) omsg hresult" where
  "om_generate E s m = hbind (iter_text (om_enc E m) (oe_granula E) s (om_buf m)) (\<lambda>b. Inr (m\<lparr>om_buf := b\<rparr>))"

text \<open>A header whose value is generated through an iterator; without a text the generator's assertion fails.\<close>

definition om_header_value :: "('ch, 'z) oenv \<Rightarrow> string \<Rightarrow> string option \<Rightarrow> ('ch, 'z) step" where
  "om_header_value E name value m = hbind (om_headersIterator E m) (\<lambda>m.
     om_then (om_write E name m) (\<lambda>m. om_then (om_write E '': '' m) (\<lambda>m.
       case value of None \<Rightarrow> Inl AssertFailed
       | Some v \<Rightarrow> hbind (om_generate E v m) (om_write E crlf))))"

definition om_body :: "('ch, 'z) oenv \<Rightarrow> ('ch, 'z) step \<Rightarrow> string \<Rightarrow> ('ch, 'z) step" where
  "om_body E system s m = om_then (ensure_body E system m) (om_write E s)"

definition om_bodyFlush :: "('ch, 'z) oenv \<Rightarrow> ('ch, 'z) step \<Rightarrow> ('ch, 'z) step" where
  "om_bodyFlush E system m = om_then (ensure_body E system m) (\<lambda>m. om_then (om_flush E m) (\<lambda>m.
     om_then (hbind (d_flush (om_enc E m) (ob_up (om_buf m))) (\<lambda>(ec, u). Inr (ec, m\<lparr>om_buf := (om_buf m)\<lparr>ob_up := u\<rparr>\<rparr>)))
       (\<lambda>m. Inr (NoError, m\<lparr>om_mode := OmFirstLine\<rparr>))))"

subsection \<open>The headers of the system\<close>

definition set_framing :: "('ch, 'z) omsg \<Rightarrow> ('ch, 'z) omsg" where
  "set_framing m = (let m =
     (if om_length m \<noteq> unknown_length then
        (if om_length m \<noteq> 0 then
           (if om_level m \<noteq> 0 then
              (if om_coding m \<noteq> ece_identity then
                 m\<lparr>om_length := unknown_length,
                   om_keep := (if \<not> om_chunked m \<and> om_keep m = EcKeepAlive then EcClose else om_keep m)\<rparr>
               else m\<lparr>om_chunked := False\<rparr>)
            else m\<lparr>om_coding := ece_identity\<rparr>)
         else m\<lparr>om_coding := ece_identity, om_chunked := False\<rparr>)
      else m\<lparr>om_keep := (if \<not> om_chunked m \<and> om_keep m = EcKeepAlive then EcClose else om_keep m)\<rparr>)
     in if om_chunked m \<and> om_length m \<noteq> unknown_length then m\<lparr>om_chunked := False\<rparr> else m)"

definition system_header :: "('ch, 'z) oenv \<Rightarrow> bool \<Rightarrow> string \<Rightarrow> string option \<Rightarrow> ('ch, 'z) step" where
  "system_header E c name v m = (if c then om_header_value E name v m else Inr (NoError, m))"

definition om_system :: "('ch, 'z) oenv \<Rightarrow> ('ch, 'z) step" where
  "om_system E m = (let f = set_framing m in
     om_then (system_header E (om_length f \<noteq> unknown_length) ''Content-Length'' (Some (oe_dec E (unat (om_length f)))) f) (\<lambda>m.
     om_then (system_header E (om_chunked f) ''Transfer-Encoding'' (Some (te_text ete_chunked)) m) (\<lambda>m.
     om_then (system_header E (om_coding f \<noteq> ece_identity) ''Content-Encoding'' (Some (ce_text (om_coding f))) m) (\<lambda>m.
       system_header E (om_keep f \<noteq> EcUnknown) ''Connection'' (connection_text (om_keep f)) m))))"

subsection \<open>Where text goes\<close>

text \<open>
  \<open>R s t\<close>: the state \<open>s\<close> stands for the text \<open>t\<close>; a packet pushed appends its bytes.  A content sink is one, and
  so is an encoder whose state does not determine what it has been given.
\<close>

locale text_sink =
  fixes D :: "'s encoder"
    and R :: "'s \<Rightarrow> string \<Rightarrow> bool"
    and room :: nat
  assumes push_text: "R s t \<Longrightarrow> packet_ok p off \<Longrightarrow> p_size p \<le> room \<Longrightarrow>
      \<exists>s'. d_push D s p off = Inr (NoError, s') \<and> R s' (t @ payload_of p off)"

definition ob_slice :: "string \<Rightarrow> 'u obuf \<Rightarrow> string" where
  "ob_slice d b = drop (ob_begin b) (take (ob_pos b) d)"

text \<open>The buffer with a text: what has been pushed, and what waits in the array, which has room.\<close>

definition ob_ok :: "('u \<Rightarrow> string \<Rightarrow> bool) \<Rightarrow> nat \<Rightarrow> 'u obuf \<Rightarrow> string \<Rightarrow> bool" where
  "ob_ok R g b t \<longleftrightarrow> (case ob_data b of None \<Rightarrow> R (ob_up b) t
     | Some d \<Rightarrow> length d = g \<and> ob_begin b \<le> ob_pos b \<and> ob_pos b < g \<and> (\<exists>u. R (ob_up b) u \<and> t = u @ ob_slice d b))"

definition ob_ready :: "('u \<Rightarrow> string \<Rightarrow> bool) \<Rightarrow> nat \<Rightarrow> 'u obuf \<Rightarrow> string \<Rightarrow> bool" where
  "ob_ready R g b t \<longleftrightarrow> ob_ok R g b t \<and> ob_data b \<noteq> None"

lemma ob_ensure_ready: "ob_ok R g b t \<Longrightarrow> 0 < g \<Longrightarrow> ob_ready R g (bufferEnsure g b) t"
  by (auto simp: ob_ready_def ob_ok_def bufferEnsure_def ob_slice_def split: option.splits)

context text_sink
begin

lemma flush_text:
  assumes "ob_data b = Some d" "length d = g" "ob_begin b \<le> ob_pos b" "ob_pos b \<le> g" "g \<le> room" "R (ob_up b) u"
  obtains b' where "bufferFlush D b = Inr (NoError, b')" "R (ob_up b') (u @ ob_slice d b)"
    "ob_data b' = (if ob_pos b = g then None else Some d)" "ob_begin b' = ob_pos b'"
    "ob_pos b' = (if ob_pos b = g then 0 else ob_pos b)"
proof (cases "ob_begin b = ob_pos b")
  case True
  then have "ob_slice d b = []" by (simp add: ob_slice_def)
  then show ?thesis using that True assms by (simp add: bufferFlush_def)
next
  case False
  let ?p = "\<lparr>p_data = d, p_size = ob_pos b\<rparr>"
  have "packet_ok ?p (ob_begin b)" "p_size ?p \<le> room" "payload_of ?p (ob_begin b) = ob_slice d b"
    using False assms(2-5) by (simp_all add: packet_ok_def payload_of_def ob_slice_def)
  then obtain u' where "d_push D (ob_up b) ?p (ob_begin b) = Inr (NoError, u')" "R u' (u @ ob_slice d b)"
    using push_text [OF assms(6), of ?p "ob_begin b"] by auto
  then show ?thesis using that False assms(1-4) by (simp add: bufferFlush_def)
qed

lemma next_text:
  assumes "ob_data b = Some d" "length d = g" "ob_begin b \<le> ob_pos b" "ob_pos b = g" "g \<le> room" "0 < g" "R (ob_up b) u"
  obtains b' where "bufferNext D g b = Inr (NoError, b')" "ob_ready R g b' (u @ ob_slice d b)"
proof -
  obtain b1 where b1: "bufferFlush D b = Inr (NoError, b1)" "R (ob_up b1) (u @ ob_slice d b)" "ob_data b1 = None"
    using flush_text [OF assms(1-3) _ assms(5,7)] assms(4) by auto
  then have "ob_ok R g b1 (u @ ob_slice d b)" by (simp add: ob_ok_def)
  then have "ob_ready R g (bufferEnsure g b1) (u @ ob_slice d b)" by (rule ob_ensure_ready [OF _ assms(6)])
  then show ?thesis using that b1(1) by (simp add: bufferNext_def)
qed

text \<open>Bytes put at the position, which is then moved on.\<close>

lemma put_text:
  assumes "ob_ready R g b t" "g \<le> room" "length s \<le> g - ob_pos b" "s \<noteq> []"
  obtains b' where "bufferInc D g (length s) (memcpy_at s b) = Inr (NoError, b')" "ob_ready R g b' (t @ s)"
proof -
  obtain d u where d: "ob_data b = Some d" "length d = g" "ob_begin b \<le> ob_pos b" "ob_pos b < g" "R (ob_up b) u" "t = u @ ob_slice d b"
    using assms(1) by (auto simp: ob_ready_def ob_ok_def)
  define d' where "d' = take (ob_pos b) d @ s @ drop (ob_pos b + length s) d"
  let ?b = "b\<lparr>ob_data := Some d', ob_pos := ob_pos b + length s\<rparr>"
  have b: "ob_data ?b = Some d'" "length d' = g" "ob_begin ?b \<le> ob_pos ?b" "ob_pos ?b \<le> g" "R (ob_up ?b) u"
    using d(2-5) assms(3) by (simp_all add: d'_def)
  have slice: "ob_slice d' ?b = ob_slice d b @ s" using d(2-4) by (simp add: ob_slice_def d'_def)
  have "memcpy_at s b = b\<lparr>ob_data := Some d'\<rparr>" using d(1) by (simp add: memcpy_at_def d'_def)
  then have inc: "bufferInc D g (length s) (memcpy_at s b) = (if ob_pos ?b = g then bufferNext D g ?b else Inr (NoError, ?b))"
    using b(2,4) by (simp add: bufferInc_def)
  show ?thesis
  proof (cases "ob_pos ?b = g")
    case True
    have "0 < g" using d(4) by simp
    then obtain b' where "bufferNext D g ?b = Inr (NoError, b')" "ob_ready R g b' (u @ ob_slice d' ?b)"
      using next_text [OF b(1-3) True assms(2) _ b(5)] by auto
    then show ?thesis using that True inc slice d(6) by simp
  next
    case False
    then have "ob_ready R g ?b (t @ s)" using b slice d(6) by (auto simp: ob_ready_def ob_ok_def)
    then show ?thesis using that False inc by simp
  qed
qed

lemma write_text:
  "ob_ok R g b t \<Longrightarrow> g \<le> room \<Longrightarrow> 0 < g \<Longrightarrow>
     \<exists>b'. ob_write D g s b = Inr (NoError, b') \<and> ob_ok R g b' (t @ s) \<and> (s \<noteq> [] \<or> ob_data b \<noteq> None \<longrightarrow> ob_data b' \<noteq> None)"
proof (induction s arbitrary: b t rule: length_induct)
  case (1 s)
  show ?case
  proof (cases "s = []")
    case True
    then show ?thesis using 1(2) by (intro exI [of _ b]) (simp add: ob_write.simps [of D g "[]" b])
  next
    case False
    let ?b = "bufferEnsure g b"
    have r: "ob_ready R g ?b t" using ob_ensure_ready [OF 1(2,4)] .
    then obtain d where d: "ob_data ?b = Some d" "length d = g" "ob_pos ?b < g" by (auto simp: ob_ready_def ob_ok_def)
    define n where "n = (if g - ob_pos ?b < length s then g - ob_pos ?b else length s)"
    have n: "bufferGet g (length s) b = (n, ?b)" "0 < n" "n \<le> length s" "length (take n s) \<le> g - ob_pos ?b" "take n s \<noteq> []"
      "length (take n s) = n"
      using d False by (auto simp: bufferGet_def n_def Let_def)
    obtain b' where b': "bufferInc D g n (memcpy_at (take n s) ?b) = Inr (NoError, b')" "ob_ready R g b' (t @ take n s)"
      using put_text [OF r 1(3) n(4,5)] n(6) by auto
    have "length (drop n s) < length s" using n(2) False by simp
    then obtain b2 where "ob_write D g (drop n s) b' = Inr (NoError, b2)" "ob_ok R g b2 ((t @ take n s) @ drop n s)"
      "ob_data b2 \<noteq> None"
      using 1(1) [rule_format, of "drop n s" b' "t @ take n s"] 1(3,4) b'(2) by (auto simp: ob_ready_def)
    then show ?thesis using False n(1,2) b'(1) by (simp add: ob_write.simps [of D g s b])
  qed
qed

lemma iter_put_text:
  assumes "ob_ready R g b t" "g \<le> room"
  shows "\<exists>b'. iter_put D g c b = Inr b' \<and> ob_ready R g b' (t @ [c])"
proof -
  obtain d where d: "ob_data b = Some d" "length d = g" "ob_pos b < g" using assms(1) by (auto simp: ob_ready_def ob_ok_def)
  have eq: "memcpy_at [c] b = b\<lparr>ob_data := Some (d[ob_pos b := c])\<rparr>"
    using d by (simp add: memcpy_at_def upd_conv_take_nth_drop)
  obtain b' where "bufferInc D g 1 (memcpy_at [c] b) = Inr (NoError, b')" "ob_ready R g b' (t @ [c])"
    using put_text [OF assms, where s = "[c]"] d(3) by (metis One_nat_def Suc_leI length_Cons list.size(3) not_Cons_self2 zero_less_diff)
  then show ?thesis using d unfolding eq by (auto simp: bufferInc_def iter_put_def Let_def split: if_splits)
qed

lemma iter_text_text:
  "ob_ready R g b t \<Longrightarrow> g \<le> room \<Longrightarrow> \<exists>b'. iter_text D g s b = Inr b' \<and> ob_ready R g b' (t @ s)"
proof (induction s arbitrary: b t)
  case (Cons c s)
  obtain b1 where b1: "iter_put D g c b = Inr b1" "ob_ready R g b1 (t @ [c])" using iter_put_text [OF Cons.prems] by blast
  then show ?case using Cons.IH [OF b1(2) Cons.prems(2)] by simp
qed simp

end

text \<open>A message whose chain has \<open>k\<close> filters.\<close>

locale message_sink = text_sink "chain_enc E k" R "oe_granula E"
  for E :: "('ch, 'z) oenv" and k :: nat and R :: "('ch, 'z) filters \<Rightarrow> string \<Rightarrow> bool" +
  assumes depth: "R c t \<Longrightarrow> length (fst c) = k"
    and granula: "R c t \<Longrightarrow> 0 < oe_granula E"

definition system_line :: "bool \<Rightarrow> string \<Rightarrow> string option \<Rightarrow> string list" where
  "system_line c name v = (if c then [name @ '': '' @ (case v of Some s \<Rightarrow> s | None \<Rightarrow> [])] else [])"

definition system_lines :: "('ch, 'z) oenv \<Rightarrow> ('ch, 'z) omsg \<Rightarrow> string list" where
  "system_lines E f =
     system_line (om_length f \<noteq> unknown_length) ''Content-Length'' (Some (oe_dec E (unat (om_length f)))) @
     system_line (om_chunked f) ''Transfer-Encoding'' (Some (te_text ete_chunked)) @
     system_line (om_coding f \<noteq> ece_identity) ''Content-Encoding'' (Some (ce_text (om_coding f))) @
     system_line (om_keep f \<noteq> EcUnknown) ''Connection'' (connection_text (om_keep f))"

lemma lines_text_append: "lines_text (xs @ ys) = lines_text xs @ lines_text ys"
  by (induction xs) simp_all

lemma set_framing_keeps [simp]: "om_buf (set_framing m) = om_buf m" "om_mode (set_framing m) = om_mode m"
  by (simp_all add: set_framing_def Let_def)

context message_sink
begin

definition om_ok :: "('ch, 'z) omsg \<Rightarrow> string \<Rightarrow> bool" where
  "om_ok m t \<longleftrightarrow> ob_ok R (oe_granula E) (om_buf m) t"

definition om_ready :: "('ch, 'z) omsg \<Rightarrow> string \<Rightarrow> bool" where
  "om_ready m t \<longleftrightarrow> ob_ready R (oe_granula E) (om_buf m) t"

lemma om_ready_ok: "om_ready m t \<Longrightarrow> om_ok m t"
  by (simp add: om_ready_def om_ok_def ob_ready_def)

lemma om_ok_facts:
  assumes "om_ok m t"
  shows "om_enc E m = chain_enc E k" "0 < oe_granula E"
proof -
  obtain u where "R (ob_up (om_buf m)) u"
    using assms unfolding om_ok_def ob_ok_def by (cases "ob_data (om_buf m)") auto
  then show "om_enc E m = chain_enc E k" "0 < oe_granula E" using depth granula by (auto simp: om_enc_def)
qed

lemma write_msg:
  assumes "om_ok m t"
  obtains b where "om_write E s m = Inr (NoError, m\<lparr>om_buf := b\<rparr>)" "om_ok (m\<lparr>om_buf := b\<rparr>) (t @ s)"
    "s \<noteq> [] \<longrightarrow> om_ready (m\<lparr>om_buf := b\<rparr>) (t @ s)"
proof -
  obtain b where b: "ob_write (chain_enc E k) (oe_granula E) s (om_buf m) = Inr (NoError, b)" "ob_ok R (oe_granula E) b (t @ s)"
    "s \<noteq> [] \<longrightarrow> ob_data b \<noteq> None"
    using write_text [OF assms [unfolded om_ok_def] order_refl om_ok_facts(2) [OF assms], of s] by blast
  then show ?thesis using that [of b] om_ok_facts(1) [OF assms]
    by (simp add: om_write_def om_on_def om_ok_def om_ready_def ob_ready_def)
qed

lemma crlf_msg:
  assumes "om_ok m t"
  obtains b where "om_write E crlf m = Inr (NoError, m\<lparr>om_buf := b\<rparr>)" "om_ready (m\<lparr>om_buf := b\<rparr>) (t @ crlf)"
  using write_msg [OF assms, of crlf] that by (auto simp: crlf_def)

lemma header_line_msg:
  assumes "om_mode m = OmHeaders" "om_ok m t"
  obtains b where "om_header_line E l m = Inr (NoError, m\<lparr>om_buf := b\<rparr>)" "om_ready (m\<lparr>om_buf := b\<rparr>) (t @ l @ crlf)"
proof -
  obtain b1 where b1: "om_write E l m = Inr (NoError, m\<lparr>om_buf := b1\<rparr>)" "om_ok (m\<lparr>om_buf := b1\<rparr>) (t @ l)"
    using write_msg [OF assms(2)] .
  obtain b2 where "om_write E crlf (m\<lparr>om_buf := b1\<rparr>) = Inr (NoError, m\<lparr>om_buf := b1, om_buf := b2\<rparr>)"
    "om_ready (m\<lparr>om_buf := b1, om_buf := b2\<rparr>) ((t @ l) @ crlf)" using crlf_msg [OF b1(2)] .
  then show ?thesis using that [of b2] b1(1) assms(1) by (simp add: om_header_line_def ensure_headers_def)
qed

lemma header_msg:
  assumes "om_mode m = OmHeaders" "om_ok m t"
  obtains b where "om_header E name v m = Inr (NoError, m\<lparr>om_buf := b\<rparr>)"
    "om_ready (m\<lparr>om_buf := b\<rparr>) (t @ (name @ '': '' @ v) @ crlf)"
proof -
  obtain b1 where b1: "om_write E name m = Inr (NoError, m\<lparr>om_buf := b1\<rparr>)" "om_ok (m\<lparr>om_buf := b1\<rparr>) (t @ name)"
    using write_msg [OF assms(2)] .
  obtain b2 where b2: "om_write E '': '' (m\<lparr>om_buf := b1\<rparr>) = Inr (NoError, m\<lparr>om_buf := b2\<rparr>)"
    "om_ok (m\<lparr>om_buf := b2\<rparr>) ((t @ name) @ '': '')" using write_msg [OF b1(2), of "'': ''"] by auto
  obtain b3 where b3: "om_write E v (m\<lparr>om_buf := b2\<rparr>) = Inr (NoError, m\<lparr>om_buf := b3\<rparr>)"
    "om_ok (m\<lparr>om_buf := b3\<rparr>) (((t @ name) @ '': '') @ v)" using write_msg [OF b2(2), of v] by auto
  obtain b4 where "om_write E crlf (m\<lparr>om_buf := b3\<rparr>) = Inr (NoError, m\<lparr>om_buf := b4\<rparr>)"
    "om_ready (m\<lparr>om_buf := b4\<rparr>) ((((t @ name) @ '': '') @ v) @ crlf)" using crlf_msg [OF b3(2)] by auto
  then show ?thesis using that [of b4] b1(1) b2(1) b3(1) assms(1) by (simp add: om_header_def ensure_headers_def)
qed

lemma header_value_msg:
  assumes "om_mode m = OmHeaders" "om_ok m t"
  obtains b where "om_header_value E name (Some v) m = Inr (NoError, m\<lparr>om_buf := b\<rparr>)"
    "om_ready (m\<lparr>om_buf := b\<rparr>) (t @ (name @ '': '' @ v) @ crlf)"
proof -
  let ?m = "m\<lparr>om_buf := bufferEnsure (oe_granula E) (om_buf m)\<rparr>"
  have m: "om_ready ?m t"
    using ob_ensure_ready [OF assms(2) [unfolded om_ok_def] om_ok_facts(2) [OF assms(2)]] by (simp add: om_ready_def)
  obtain b1 where b1: "om_write E name ?m = Inr (NoError, m\<lparr>om_buf := b1\<rparr>)" "om_ok (m\<lparr>om_buf := b1\<rparr>) (t @ name)"
    using write_msg [OF om_ready_ok [OF m], of name] by auto
  obtain b2 where b2: "om_write E '': '' (m\<lparr>om_buf := b1\<rparr>) = Inr (NoError, m\<lparr>om_buf := b2\<rparr>)"
    "om_ready (m\<lparr>om_buf := b2\<rparr>) ((t @ name) @ '': '')" using write_msg [OF b1(2), of "'': ''"] by auto
  obtain b3 where b3: "iter_text (chain_enc E k) (oe_granula E) v b2 = Inr b3"
    "om_ok (m\<lparr>om_buf := b3\<rparr>) (((t @ name) @ '': '') @ v)"
    using iter_text_text [of "oe_granula E" b2] b2(2) by (fastforce simp: om_ready_def om_ok_def ob_ready_def)
  obtain b4 where "om_write E crlf (m\<lparr>om_buf := b3\<rparr>) = Inr (NoError, m\<lparr>om_buf := b4\<rparr>)"
    "om_ready (m\<lparr>om_buf := b4\<rparr>) ((((t @ name) @ '': '') @ v) @ crlf)" using crlf_msg [OF b3(2)] by auto
  moreover have "om_enc E (m\<lparr>om_buf := b2\<rparr>) = chain_enc E k" using om_ok_facts(1) [OF om_ready_ok [OF b2(2)]] .
  ultimately show ?thesis
    using that [of b4] b1(1) b2(1) b3(1) assms(1) by (simp add: om_header_value_def om_headersIterator_def om_iterator_def om_generate_def ensure_headers_def)
qed

text \<open>One of the headers of the system, or none.\<close>

lemma system_header_msg:
  assumes "om_mode m = OmHeaders" "om_ok m t" "c \<longrightarrow> v \<noteq> None"
  obtains b where "system_header E c name v m = Inr (NoError, m\<lparr>om_buf := b\<rparr>)"
    "om_ok (m\<lparr>om_buf := b\<rparr>) (t @ lines_text (system_line c name v))"
proof (cases c)
  case True
  then obtain s where v: "v = Some s" using assms(3) by auto
  obtain b where "om_header_value E name (Some s) m = Inr (NoError, m\<lparr>om_buf := b\<rparr>)"
    "om_ready (m\<lparr>om_buf := b\<rparr>) (t @ (name @ '': '' @ s) @ crlf)" using header_value_msg [OF assms(1,2)] .
  then show ?thesis using True v that [of b] om_ready_ok [of "m\<lparr>om_buf := b\<rparr>"] by (simp add: system_header_def system_line_def)
next
  case False
  have "m\<lparr>om_buf := om_buf m\<rparr> = m" by simp
  then show ?thesis using False assms(2) that [of "om_buf m"] by (simp add: system_header_def system_line_def)
qed

lemma system_msg:
  assumes "om_mode m = OmHeaders" "om_ok m t"
  obtains b where "om_system E m = Inr (NoError, (set_framing m)\<lparr>om_buf := b\<rparr>)"
    "om_ok ((set_framing m)\<lparr>om_buf := b\<rparr>) (t @ lines_text (system_lines E (set_framing m)))"
proof -
  define f where "f = set_framing m"
  have f: "om_mode f = OmHeaders" "om_ok f t" using assms by (simp_all add: f_def om_ok_def)
  have mode: "om_mode (f\<lparr>om_buf := b\<rparr>) = OmHeaders" for b using f(1) by simp
  have two: "f\<lparr>om_buf := b, om_buf := b'\<rparr> = f\<lparr>om_buf := b'\<rparr>" for b b' by simp
  define cl where "cl = Some (oe_dec E (unat (om_length f)))"
  define te where "te = Some (te_text ete_chunked)"
  define ce where "ce = Some (ce_text (om_coding f))"
  define co where "co = connection_text (om_keep f)"
  have co: "om_keep f \<noteq> EcUnknown \<longrightarrow> co \<noteq> None" unfolding co_def by (cases "om_keep f") (simp_all add: connection_text_def)
  have some: "om_length f \<noteq> unknown_length \<longrightarrow> cl \<noteq> None" "om_chunked f \<longrightarrow> te \<noteq> None" "om_coding f \<noteq> ece_identity \<longrightarrow> ce \<noteq> None"
    by (simp_all add: cl_def te_def ce_def)
  define l1 where "l1 = system_line (om_length f \<noteq> unknown_length) ''Content-Length'' cl"
  define l2 where "l2 = system_line (om_chunked f) ''Transfer-Encoding'' te"
  define l3 where "l3 = system_line (om_coding f \<noteq> ece_identity) ''Content-Encoding'' ce"
  define l4 where "l4 = system_line (om_keep f \<noteq> EcUnknown) ''Connection'' co"
  obtain b1 where b1: "system_header E (om_length f \<noteq> unknown_length) ''Content-Length'' cl f = Inr (NoError, f\<lparr>om_buf := b1\<rparr>)"
    "om_ok (f\<lparr>om_buf := b1\<rparr>) (t @ lines_text l1)"
    unfolding l1_def by (rule system_header_msg [OF f some(1)])
  obtain b2 where b2: "system_header E (om_chunked f) ''Transfer-Encoding'' te (f\<lparr>om_buf := b1\<rparr>) = Inr (NoError, f\<lparr>om_buf := b2\<rparr>)"
    "om_ok (f\<lparr>om_buf := b2\<rparr>) ((t @ lines_text l1) @ lines_text l2)"
    unfolding l2_def by (rule system_header_msg [OF mode b1(2) some(2), unfolded two])
  obtain b3 where b3: "system_header E (om_coding f \<noteq> ece_identity) ''Content-Encoding'' ce (f\<lparr>om_buf := b2\<rparr>) = Inr (NoError, f\<lparr>om_buf := b3\<rparr>)"
    "om_ok (f\<lparr>om_buf := b3\<rparr>) (((t @ lines_text l1) @ lines_text l2) @ lines_text l3)"
    unfolding l3_def by (rule system_header_msg [OF mode b2(2) some(3), unfolded two])
  obtain b4 where b4: "system_header E (om_keep f \<noteq> EcUnknown) ''Connection'' co (f\<lparr>om_buf := b3\<rparr>) = Inr (NoError, f\<lparr>om_buf := b4\<rparr>)"
    "om_ok (f\<lparr>om_buf := b4\<rparr>) ((((t @ lines_text l1) @ lines_text l2) @ lines_text l3) @ lines_text l4)"
    unfolding l4_def by (rule system_header_msg [OF mode b3(2) co, unfolded two])
  have "om_system E m = Inr (NoError, f\<lparr>om_buf := b4\<rparr>)"
    unfolding om_system_def Let_def f_def [symmetric] cl_def [symmetric] te_def [symmetric] ce_def [symmetric] co_def [symmetric]
    by (simp only: b1(1) b2(1) b3(1) b4(1) om_then_simps)
  moreover have "system_lines E f = l1 @ l2 @ l3 @ l4"
    unfolding system_lines_def l1_def l2_def l3_def l4_def cl_def te_def ce_def co_def by (rule refl)
  then have "om_ok (f\<lparr>om_buf := b4\<rparr>) (t @ lines_text (system_lines E f))" using b4(2) by (simp only: lines_text_append append_assoc)
  ultimately show ?thesis unfolding f_def by (rule that)
qed

lemma flush_msg:
  assumes "om_ready m t"
  obtains b d where "om_flush E m = Inr (NoError, m\<lparr>om_buf := b\<rparr>)" "R (ob_up b) t" "ob_data b = Some d" "length d = oe_granula E"
    "ob_begin b = ob_pos b" "ob_pos b < oe_granula E"
proof -
  obtain d u where d: "ob_data (om_buf m) = Some d" "length d = oe_granula E" "ob_begin (om_buf m) \<le> ob_pos (om_buf m)"
    "ob_pos (om_buf m) < oe_granula E" "R (ob_up (om_buf m)) u" "t = u @ ob_slice d (om_buf m)"
    using assms by (auto simp: om_ready_def ob_ready_def ob_ok_def)
  obtain b where "bufferFlush (chain_enc E k) (om_buf m) = Inr (NoError, b)" "R (ob_up b) t" "ob_data b = Some d"
    "ob_begin b = ob_pos b" "ob_pos b = ob_pos (om_buf m)"
    using flush_text [OF d(1-3) _ order_refl d(5)] d(4,6) by auto
  then show ?thesis using that d(2,4) om_ok_facts(1) [OF om_ready_ok [OF assms]] by (simp add: om_flush_def om_on_def)
qed

end


subsection \<open>The phases of a message\<close>

context message_sink
begin

text \<open>In front of the body: \<open>t\<close> is the text with the first line ended.\<close>

definition at_head :: "('ch, 'z) omsg \<Rightarrow> string \<Rightarrow> bool" where
  "at_head m t \<longleftrightarrow> om_mode m = OmHeaders \<and> om_ok m t \<or> om_mode m = OmFirstLine \<and> (\<exists>t'. t = t' @ crlf \<and> om_ok m t')"

lemma headers_msg:
  assumes "at_head m t"
  obtains m1 b where "ensure_headers E m = Inr (NoError, m1)" "m1 = m\<lparr>om_buf := b, om_mode := OmHeaders\<rparr>" "om_ok m1 t"
    "\<And>sys. ensure_body E sys m = enter_body E sys m1"
proof (cases "om_mode m")
  case OmFirstLine
  then obtain t' where t: "t = t' @ crlf" "om_ok m t'" using assms by (auto simp: at_head_def)
  obtain b where b: "om_write E crlf m = Inr (NoError, m\<lparr>om_buf := b\<rparr>)" "om_ready (m\<lparr>om_buf := b\<rparr>) (t' @ crlf)"
    using crlf_msg [OF t(2)] .
  show ?thesis
    by (rule that [of "m\<lparr>om_buf := b, om_mode := OmHeaders\<rparr>" b])
       (use b OmFirstLine t(1) in \<open>simp_all add: ensure_headers_def ensure_body_def om_ok_def om_ready_def ob_ready_def\<close>)
next
  case OmHeaders
  have "m\<lparr>om_buf := om_buf m, om_mode := OmHeaders\<rparr> = m" using OmHeaders by simp
  then show ?thesis using OmHeaders assms that [of m "om_buf m"] by (auto simp: ensure_headers_def ensure_body_def at_head_def)
next
  case OmBody
  then show ?thesis using assms by (simp add: at_head_def)
qed

lemma first_line_msg:
  assumes "om_mode m = OmFirstLine" "om_ok m t"
  obtains b where "om_firstLine E s m = Inr (NoError, m\<lparr>om_buf := b\<rparr>)" "at_head (m\<lparr>om_buf := b\<rparr>) (t @ s @ crlf)"
proof -
  obtain b where "om_write E s m = Inr (NoError, m\<lparr>om_buf := b\<rparr>)" "om_ok (m\<lparr>om_buf := b\<rparr>) (t @ s)"
    using write_msg [OF assms(2)] .
  then show ?thesis using that [of b] assms(1) by (simp add: om_firstLine_def ensure_firstLine_def at_head_def)
qed

lemma head_line_msg:
  assumes "at_head m t"
  obtains m1 b where "om_header_line E l m = Inr (NoError, m1)" "m1 = m\<lparr>om_buf := b, om_mode := OmHeaders\<rparr>"
    "at_head m1 (t @ l @ crlf)"
proof -
  obtain m1 b where m1: "ensure_headers E m = Inr (NoError, m1)" "m1 = m\<lparr>om_buf := b, om_mode := OmHeaders\<rparr>" "om_ok m1 t"
    using headers_msg [OF assms] .
  then have mode: "om_mode m1 = OmHeaders" by simp
  obtain b2 where b2: "om_header_line E l m1 = Inr (NoError, m1\<lparr>om_buf := b2\<rparr>)" "om_ready (m1\<lparr>om_buf := b2\<rparr>) (t @ l @ crlf)"
    using header_line_msg [OF mode m1(3)] .
  have "om_header_line E l m = om_header_line E l m1"
    using m1(1) mode by (simp add: om_header_line_def ensure_headers_def [of E m1])
  then show ?thesis using that [of "m1\<lparr>om_buf := b2\<rparr>" b2] b2 mode m1(2) om_ready_ok [OF b2(2)] by (simp add: at_head_def)
qed

end

text \<open>One step for each text.\<close>

fun om_each :: "(string \<Rightarrow> ('ch, 'z) step) \<Rightarrow> string list \<Rightarrow> ('ch, 'z) step" where
  "om_each f [] m = Inr (NoError, m)"
| "om_each f (s # ss) m = om_then (f s m) (om_each f ss)"

context message_sink
begin

lemma head_lines_msg:
  "at_head m t \<Longrightarrow> \<exists>m1 b md. om_each (om_header_line E) ls m = Inr (NoError, m1) \<and> m1 = m\<lparr>om_buf := b, om_mode := md\<rparr> \<and>
     at_head m1 (t @ lines_text ls)"
proof (induction ls arbitrary: m t)
  case Nil
  then show ?case by (intro exI [of _ m] exI [of _ "om_buf m"] exI [of _ "om_mode m"]) simp
next
  case (Cons l ls)
  obtain m1 b where m1: "om_header_line E l m = Inr (NoError, m1)" "m1 = m\<lparr>om_buf := b, om_mode := OmHeaders\<rparr>"
    "at_head m1 (t @ l @ crlf)" using head_line_msg [OF Cons.prems] .
  obtain m2 b2 md where "om_each (om_header_line E) ls m1 = Inr (NoError, m2)" "m2 = m1\<lparr>om_buf := b2, om_mode := md\<rparr>"
    "at_head m2 ((t @ l @ crlf) @ lines_text ls)" using Cons.IH [OF m1(3)] by blast
  then show ?case using m1(1,2) by (intro exI [of _ m2] exI [of _ b2] exI [of _ md]) simp
qed

text \<open>The body, once the head has been written.\<close>

lemma body_msg:
  assumes "om_mode m = OmBody" "om_ready m t"
  obtains b where "om_body E sys s m = Inr (NoError, m\<lparr>om_buf := b\<rparr>)" "om_ready (m\<lparr>om_buf := b\<rparr>) (t @ s)"
proof -
  note ok = om_ready_ok [OF assms(2)]
  obtain b where b: "ob_write (chain_enc E k) (oe_granula E) s (om_buf m) = Inr (NoError, b)" "ob_ok R (oe_granula E) b (t @ s)"
    "ob_data b \<noteq> None"
    using write_text [OF ok [unfolded om_ok_def] order_refl om_ok_facts(2) [OF ok], of s] assms(2)
    by (auto simp: om_ready_def ob_ready_def)
  then show ?thesis using that [of b] om_ok_facts(1) [OF ok] assms(1)
    by (simp add: om_body_def ensure_body_def om_write_def om_on_def om_ready_def ob_ready_def)
qed

lemma pieces_msg:
  "om_mode m = OmBody \<Longrightarrow> om_ready m t \<Longrightarrow>
     \<exists>b. om_each (om_body E sys) bs m = Inr (NoError, m\<lparr>om_buf := b\<rparr>) \<and> om_ready (m\<lparr>om_buf := b\<rparr>) (t @ concat bs)"
proof (induction bs arbitrary: m t)
  case Nil
  then show ?case by (intro exI [of _ "om_buf m"]) simp
next
  case (Cons s bs)
  obtain b where b: "om_body E sys s m = Inr (NoError, m\<lparr>om_buf := b\<rparr>)" "om_ready (m\<lparr>om_buf := b\<rparr>) (t @ s)"
    using body_msg [OF Cons.prems] .
  then show ?case using Cons.IH [of "m\<lparr>om_buf := b\<rparr>" "t @ s"] Cons.prems(1) by simp
qed

text \<open>The body ended: everything is in the chain, which is flushed.\<close>

lemma body_flush_msg:
  assumes "om_mode m = OmBody" "om_ready m t"
    and fl: "\<And>c. R c t \<Longrightarrow> \<exists>c'. d_flush (chain_enc E k) c = Inr (NoError, c') \<and> P c'"
  shows "\<exists>b. om_bodyFlush E sys m = Inr (NoError, m\<lparr>om_buf := b, om_mode := OmFirstLine\<rparr>) \<and> P (ob_up b)"
proof -
  obtain b d where b: "om_flush E m = Inr (NoError, m\<lparr>om_buf := b\<rparr>)" "R (ob_up b) t" using flush_msg [OF assms(2)] .
  obtain c' where "d_flush (chain_enc E k) (ob_up b) = Inr (NoError, c')" "P c'" using fl [OF b(2)] by blast
  moreover have "om_enc E (m\<lparr>om_buf := b\<rparr>) = chain_enc E k" using depth [OF b(2)] by (simp add: om_enc_def)
  ultimately show ?thesis using assms(1) b(1)
    by (intro exI [of _ "b\<lparr>ob_up := c'\<rparr>"]) (simp add: om_bodyFlush_def ensure_body_def)
qed

end

text \<open>The writes of the body and its end, with the head ended first.\<close>

lemma body_entered:
  assumes "ensure_body E sys m = Inr (NoError, m1)" "om_mode m1 = OmBody"
  shows "om_then (om_each (om_body E sys) bs m) (om_bodyFlush E sys) = om_then (om_each (om_body E sys) bs m1) (om_bodyFlush E sys)"
proof (cases bs)
  case Nil
  then show ?thesis using assms by (simp add: om_bodyFlush_def [of E sys m] om_bodyFlush_def [of E sys m1] ensure_body_def [of E sys m1])
next
  case (Cons s ss)
  have "om_body E sys s m = om_body E sys s m1" using assms by (simp add: om_body_def ensure_body_def [of E sys m1])
  then show ?thesis using Cons by simp
qed


subsection \<open>An open channel\<close>

definition open_env :: "spirit \<Rightarrow> (nat \<Rightarrow> string) \<Rightarrow> 'z zlib \<Rightarrow> nat \<Rightarrow> nat \<Rightarrow> (string, 'z) oenv" where
  "open_env H D Z n g = \<lparr>oe_send = open_send, oe_granula = g, oe_hex = H, oe_dec = D, oe_zlib = Z, oe_rounds = n\<rparr>"

lemma open_env_size: "oe_granula (open_env H D Z n g) = g"
  by (simp add: open_env_def)

definition open_chain :: "(string, 'z) filters \<Rightarrow> bool" where
  "open_chain c \<longleftrightarrow> fst c = [] \<and> writer_ok (snd c)"

definition chain_text :: "(string, 'z) filters \<Rightarrow> string" where
  "chain_text c = written (snd c)"

lemma open_push:
  assumes "open_chain c" "packet_ok p off"
  shows "\<exists>c'. d_push (chain_enc (open_env H D Z n g) 0) c p off = Inr (NoError, c') \<and> open_chain c' \<and>
    chain_text c' = chain_text c @ payload_of p off"
proof -
  obtain w where "w_push open_send g (snd c) p off = Inr (NoError, w)" "writer_ok w"
    "written w = written (snd c) @ payload_of p off"
    using w_push_ok [OF _ assms(2)] assms(1) by (auto simp: open_chain_def)
  then show ?thesis using assms(1) by (simp add: open_env_def on_writer_def open_chain_def chain_text_def)
qed

text \<open>The flush sends all that has been written.\<close>

lemma open_flush:
  assumes "open_chain c"
  shows "\<exists>c'. d_flush (chain_enc (open_env H D Z n g) 0) c = Inr (NoError, c') \<and> open_chain c' \<and>
    chain_text c' = chain_text c \<and> w_channel (snd c') = chain_text c"
  using assms
  by (auto simp: open_env_def on_writer_def open_chain_def chain_text_def w_flush_def open_send_def writer_ok_def written_def)

interpretation chain0: content_sink "chain_enc (open_env H D Z n g) 0" open_chain chain_text for H D and Z :: "'z zlib" and n g
proof unfold_locales
  fix c :: "(string, 'z) filters" and p off
  assume "open_chain c" "packet_ok p off"
  then show "\<exists>s'. d_push (chain_enc (open_env H D Z n g) 0) c p off = Inr (NoError, s') \<and> open_chain s' \<and>
      chain_text s' = chain_text c @ payload_of p off" by (rule open_push)
next
  fix c :: "(string, 'z) filters"
  assume "open_chain c"
  then show "\<exists>s'. d_flush (chain_enc (open_env H D Z n g) 0) c = Inr (NoError, s') \<and> open_chain s' \<and> chain_text s' = chain_text c"
    using open_flush by blast
qed

text \<open>Without a filter: the text of the channel.\<close>

definition plain_to :: "nat \<Rightarrow> (string, 'z) filters \<Rightarrow> string \<Rightarrow> bool" where
  "plain_to g c t \<longleftrightarrow> 0 < g \<and> open_chain c \<and> chain_text c = t"

interpretation plain: message_sink "open_env H D Z n g" 0 "plain_to g" for H D and Z :: "'z zlib" and n g
proof unfold_locales
  fix c :: "(string, 'z) filters" and p off t
  assume "plain_to g c t" "packet_ok p off"
  then show "\<exists>s'. d_push (chain_enc (open_env H D Z n g) 0) c p off = Inr (NoError, s') \<and> plain_to g s' (t @ payload_of p off)"
    using open_push [of c p off H D Z n g] by (auto simp: plain_to_def)
qed (simp_all add: plain_to_def open_chain_def open_env_def)

text \<open>With the chunked coding: \<open>t0\<close> and chunks of a part of the text, of which the rest waits.\<close>

definition chunked_to :: "spirit \<Rightarrow> nat \<Rightarrow> string \<Rightarrow> (string, 'z) filters \<Rightarrow> string \<Rightarrow> bool" where
  "chunked_to H g t0 c t \<longleftrightarrow> spirit_hex H \<and> 0 < g \<and> g < 2 ^ 63 \<and> (\<exists>cs m w gs. c = ([FChunked cs m], w) \<and>
     (let e = \<lparr>ce_up = ([] :: 'z filt list, w), ce_chunks = cs, ce_size = m\<rparr> in
       writer_ok w \<and> ce_ok e \<and> length (pending e) < g \<and> (\<forall>x\<in>set gs. x \<noteq> []) \<and>
       written w = t0 @ concat (map (chunk_of H) gs) \<and> concat gs @ pending e = t))"

interpretation chunked: message_sink "open_env H D Z n g" "Suc 0" "chunked_to H g t0" for H D and Z :: "'z zlib" and n g t0
proof unfold_locales
  fix c :: "(string, 'z) filters" and p off t
  assume "chunked_to H g t0 c t" and p: "packet_ok p off" "p_size p \<le> oe_granula (open_env H D Z n g)"
  then obtain cs m w gs where c: "c = ([FChunked cs m], w)" "spirit_hex H" "0 < g" "g < 2 ^ 63" "\<forall>x\<in>set gs. x \<noteq> []" "writer_ok w"
    "written w = t0 @ concat (map (chunk_of H) gs)"
    and e: "ce_ok \<lparr>ce_up = ([] :: 'z filt list, w), ce_chunks = cs, ce_size = m\<rparr>"
    "length (pending \<lparr>ce_up = ([] :: 'z filt list, w), ce_chunks = cs, ce_size = m\<rparr>) < g"
    "concat gs @ pending \<lparr>ce_up = ([] :: 'z filt list, w), ce_chunks = cs, ce_size = m\<rparr> = t"
    unfolding chunked_to_def Let_def by blast
  let ?e = "\<lparr>ce_up = ([] :: 'z filt list, w), ce_chunks = cs, ce_size = m\<rparr>"
  have len: "length (payload_of p off) \<le> g" using length_payload_of [OF p(1)] p(2) by (simp add: open_env_def)
  then have "length (pending ?e @ payload_of p off) < 2 ^ 64" using e(2) c(4) by simp
  moreover have "open_chain (ce_up ?e)" using c(6) by (simp add: open_chain_def)
  ultimately obtain e' where e': "ce_push H (chain_enc (open_env H D Z n g) 0) g ?e p off = Inr (NoError, e')"
    "open_chain (ce_up e')" "ce_ok e'"
    "chain_text (ce_up e') = chain_text (ce_up ?e) \<and> pending e' = pending ?e @ payload_of p off \<and> length (pending e') < g \<or>
      chain_text (ce_up e') = chain_text (ce_up ?e) @ chunk_of H (pending ?e @ payload_of p off) \<and> pending e' = []"
    using chain0.ce_push_ok [where c = ?e and H = H and p = p and off = off and g = g and D = D and Z = Z and n = n and ga = g]
      c(2) e(1) p(1) by blast
  have ne: "payload_of p off \<noteq> []" using p(1) by (auto simp: packet_ok_def payload_of_def)
  obtain w' where up: "ce_up e' = ([], w')" "writer_ok w'" using e'(2) by (cases "ce_up e'") (simp add: open_chain_def)
  then have e'': "e' = \<lparr>ce_up = ([], w'), ce_chunks = ce_chunks e', ce_size = ce_size e'\<rparr>" by (cases e') simp
  have step: "d_push (chain_enc (open_env H D Z n g) (Suc 0)) c p off = Inr (NoError, ([FChunked (ce_chunks e') (ce_size e')], w'))"
    using e'(1) up(1) by (simp add: c(1) on_filter_def open_env_def)
  have "\<exists>gs'. (\<forall>x\<in>set gs'. x \<noteq> []) \<and> written w' = t0 @ concat (map (chunk_of H) gs') \<and> concat gs' @ pending e' = t @ payload_of p off \<and>
      length (pending e') < g"
    using e'(4)
  proof
    assume "chain_text (ce_up e') = chain_text (ce_up ?e) \<and> pending e' = pending ?e @ payload_of p off \<and> length (pending e') < g"
    moreover from this have "length (pending e') < g" by blast
    ultimately show ?thesis using c(5,7) e(3) up(1)
      by (intro exI [of _ gs] conjI) (simp_all add: chain_text_def del: length_append)
  next
    assume "chain_text (ce_up e') = chain_text (ce_up ?e) @ chunk_of H (pending ?e @ payload_of p off) \<and> pending e' = []"
    then show ?thesis using c(3,5,7) e(3) up(1) ne
      by (intro exI [of _ "gs @ [pending ?e @ payload_of p off]"]) (auto simp: chain_text_def)
  qed
  then obtain gs' where gs: "\<forall>x\<in>set gs'. x \<noteq> []" "written w' = t0 @ concat (map (chunk_of H) gs')"
    "concat gs' @ pending e' = t @ payload_of p off" "length (pending e') < g" by blast
  have "chunked_to H g t0 ([FChunked (ce_chunks e') (ce_size e')] :: 'z filt list, w') (t @ payload_of p off)"
    unfolding chunked_to_def Let_def
    by (intro conjI c(2-4) exI [of _ "ce_chunks e'"] exI [of _ "ce_size e'"] exI [of _ w'] exI [of _ gs'] refl gs(1,2) up(2))
       (simp_all only: e'' [symmetric] e'(3) gs(3,4))
  then show "\<exists>s'. d_push (chain_enc (open_env H D Z n g) (Suc 0)) c p off = Inr (NoError, s') \<and> chunked_to H g t0 s' (t @ payload_of p off)"
    using step by blast
qed (auto simp: chunked_to_def open_env_def)


subsection \<open>A message sent\<close>

definition send_message :: "('ch, 'z) oenv \<Rightarrow> string \<Rightarrow> string list \<Rightarrow> string list \<Rightarrow> ('ch, 'z) step" where
  "send_message E fl ls bs m = om_then (om_firstLine E fl m) (\<lambda>m. om_then (om_each (om_header_line E) ls m) (\<lambda>m.
     om_then (om_each (om_body E (om_system E)) bs m) (om_bodyFlush E (om_system E))))"

lemma set_framing_buf [simp]: "set_framing (m\<lparr>om_buf := b\<rparr>) = (set_framing m)\<lparr>om_buf := b\<rparr>"
  "set_framing (m\<lparr>om_mode := md\<rparr>) = (set_framing m)\<lparr>om_mode := md\<rparr>"
  by (simp_all add: set_framing_def Let_def)

lemma system_lines_buf [simp]: "system_lines E (f\<lparr>om_buf := b\<rparr>) = system_lines E f"
  "system_lines E (f\<lparr>om_mode := md\<rparr>) = system_lines E f"
  by (simp_all add: system_lines_def)

text \<open>The chunked encoder takes over from the writer with nothing of its own.\<close>

lemma chunked_starts:
  assumes "spirit_hex H" "g < 2 ^ 63" "plain_to g c t"
  shows "chunked_to H g t (FChunked [] 0 # fst c, snd c) []"
proof -
  obtain w where c: "c = ([], w)" "writer_ok w" "written w = t" "0 < g"
    using assms(3) by (cases c) (auto simp: plain_to_def open_chain_def chain_text_def)
  show ?thesis
    unfolding chunked_to_def Let_def using assms(1,2) c
    by (intro conjI exI [of _ "[]"] exI [of _ 0] exI [of _ w]) (simp_all add: ce_ok_def pending_def)
qed

text \<open>A \<open>writeSystemHeaders\<close> that writes the lines \<open>L\<close> and leaves \<open>f\<close>, apart from the buffer, for the message \<open>m\<close> in front of its body.\<close>

definition system_step :: "(string, 'z) oenv \<Rightarrow> (string, 'z) step \<Rightarrow> (string, 'z) omsg \<Rightarrow> (string, 'z) omsg \<Rightarrow> string list \<Rightarrow> bool" where
  "system_step E sys m f L \<longleftrightarrow> (\<forall>b t. message_sink.om_ok E (plain_to (oe_granula E)) (m\<lparr>om_buf := b, om_mode := OmHeaders\<rparr>) t \<longrightarrow>
     (\<exists>b'. sys (m\<lparr>om_buf := b, om_mode := OmHeaders\<rparr>) = Inr (NoError, f\<lparr>om_buf := b'\<rparr>) \<and>
       message_sink.om_ok E (plain_to (oe_granula E)) (f\<lparr>om_buf := b'\<rparr>) (t @ lines_text L)))"

lemma om_system_step:
  "system_step (open_env H D Z n g) (om_system (open_env H D Z n g)) m ((set_framing m)\<lparr>om_mode := OmHeaders\<rparr>)
     (system_lines (open_env H D Z n g) (set_framing m))"
  unfolding system_step_def open_env_size
proof (intro allI impI)
  let ?E = "open_env H D Z n g"
  fix b t
  assume m: "plain.om_ok H D Z n g (m\<lparr>om_buf := b, om_mode := OmHeaders\<rparr>) t"
  obtain b' where "om_system ?E (m\<lparr>om_buf := b, om_mode := OmHeaders\<rparr>) =
      Inr (NoError, (set_framing (m\<lparr>om_buf := b, om_mode := OmHeaders\<rparr>))\<lparr>om_buf := b'\<rparr>)"
    "plain.om_ok H D Z n g ((set_framing (m\<lparr>om_buf := b, om_mode := OmHeaders\<rparr>))\<lparr>om_buf := b'\<rparr>)
      (t @ lines_text (system_lines ?E (set_framing (m\<lparr>om_buf := b, om_mode := OmHeaders\<rparr>))))"
    by (rule plain.system_msg [OF _ m]) simp
  then show "\<exists>b'. om_system ?E (m\<lparr>om_buf := b, om_mode := OmHeaders\<rparr>) = Inr (NoError, (set_framing m)\<lparr>om_mode := OmHeaders\<rparr>\<lparr>om_buf := b'\<rparr>) \<and>
      plain.om_ok H D Z n g ((set_framing m)\<lparr>om_mode := OmHeaders\<rparr>\<lparr>om_buf := b'\<rparr>) (t @ lines_text (system_lines ?E (set_framing m)))"
    by auto
qed

lemma enter_open:
  fixes m :: "(string, 'z) omsg"
  assumes "plain.om_ok H D Z n g (m\<lparr>om_buf := b0, om_mode := OmHeaders\<rparr>) t" "system_step (open_env H D Z n g) sys m f L"
    "om_coding f = ece_identity" "spirit_hex H" "g < 2 ^ 63"
  obtains m1 b where "enter_body (open_env H D Z n g) sys (m\<lparr>om_buf := b0, om_mode := OmHeaders\<rparr>) = Inr (NoError, m1)"
    "m1 = f\<lparr>om_buf := b, om_mode := OmBody\<rparr>"
    "if om_chunked f then chunked.om_ready H D Z n g (t @ lines_text L @ crlf) m1 []
     else plain.om_ready H D Z n g m1 (t @ lines_text L @ crlf)"
proof -
  let ?E = "open_env H D Z n g"
  define t1 where "t1 = t @ lines_text L @ crlf"
  obtain b1 where b1: "sys (m\<lparr>om_buf := b0, om_mode := OmHeaders\<rparr>) = Inr (NoError, f\<lparr>om_buf := b1\<rparr>)"
    "plain.om_ok H D Z n g (f\<lparr>om_buf := b1\<rparr>) (t @ lines_text L)"
    using assms(2) [unfolded system_step_def open_env_size, rule_format, OF assms(1)] by blast
  obtain b2 where "om_write ?E crlf (f\<lparr>om_buf := b1\<rparr>) = Inr (NoError, f\<lparr>om_buf := b1, om_buf := b2\<rparr>)"
    "plain.om_ready H D Z n g (f\<lparr>om_buf := b1, om_buf := b2\<rparr>) ((t @ lines_text L) @ crlf)"
    by (rule plain.crlf_msg [OF b1(2)])
  then have b2: "om_write ?E crlf (f\<lparr>om_buf := b1\<rparr>) = Inr (NoError, f\<lparr>om_buf := b2\<rparr>)"
    "plain.om_ready H D Z n g (f\<lparr>om_buf := b2\<rparr>) t1" by (simp_all add: t1_def)
  obtain b d where "om_flush ?E (f\<lparr>om_buf := b2\<rparr>) = Inr (NoError, f\<lparr>om_buf := b2, om_buf := b\<rparr>)" "plain_to g (ob_up b) t1"
    "ob_data b = Some d" "length d = oe_granula ?E" "ob_begin b = ob_pos b" "ob_pos b < oe_granula ?E"
    by (rule plain.flush_msg [OF b2(2)])
  then have b: "om_flush ?E (f\<lparr>om_buf := b2\<rparr>) = Inr (NoError, f\<lparr>om_buf := b\<rparr>)" "plain_to g (ob_up b) t1"
    "ob_data b = Some d" "length d = g" "ob_begin b = ob_pos b" "ob_pos b < g" by (simp_all add: open_env_def)
  define m1 where "m1 = add_chunked (f\<lparr>om_buf := b\<rparr>)\<lparr>om_mode := OmBody\<rparr>"
  have "setupBodyFilters ?E (f\<lparr>om_buf := b\<rparr>) = Inr (NoError, add_chunked (f\<lparr>om_buf := b\<rparr>))"
    using assms(3) by (simp add: setupBodyFilters_def add_chunked_def)
  then have "enter_body ?E sys (m\<lparr>om_buf := b0, om_mode := OmHeaders\<rparr>) = Inr (NoError, m1)"
    by (simp only: enter_body_def b1(1) b2(1) b(1) om_then_simps m1_def)
  moreover have "m1 = f\<lparr>om_buf := om_buf m1, om_mode := OmBody\<rparr>" by (simp add: m1_def add_chunked_def)
  moreover have "plain.om_ready H D Z n g m1 t1" if "\<not> om_chunked f"
    using that b(2-6)
    by (simp add: m1_def add_chunked_def plain.om_ready_def ob_ready_def ob_ok_def ob_slice_def open_env_size)
  moreover have "chunked.om_ready H D Z n g t1 m1 []" if "om_chunked f"
    using that b(3-6) chunked_starts [OF assms(4,5) b(2)]
    by (simp add: m1_def add_chunked_def chunked.om_ready_def ob_ready_def ob_ok_def ob_slice_def open_env_size)
  ultimately show ?thesis unfolding t1_def by (intro that [of m1 "om_buf m1"]) simp_all
qed

text \<open>The end of a body that has been written in chunks.\<close>

lemma chunked_flush:
  fixes c :: "(string, 'z) filters"
  assumes "chunked_to H g t0 c t"
  shows "\<exists>c'. d_flush (chain_enc (open_env H D Z n g) (Suc 0)) c = Inr (NoError, c') \<and> length (fst c') = 1 \<and> (\<exists>gs. (\<forall>x\<in>set gs. x \<noteq> []) \<and> concat gs = t \<and>
     w_channel (snd c') = t0 @ concat (map (chunk_of H) gs) @ CHR ''0'' # crlf @ crlf)"
proof -
  obtain cs m w gs where c: "c = ([FChunked cs m], w)" "spirit_hex H" "g < 2 ^ 63" "\<forall>x\<in>set gs. x \<noteq> []" "writer_ok w"
    "written w = t0 @ concat (map (chunk_of H) gs)"
    and e: "ce_ok \<lparr>ce_up = ([] :: 'z filt list, w), ce_chunks = cs, ce_size = m\<rparr>"
    "length (pending \<lparr>ce_up = ([] :: 'z filt list, w), ce_chunks = cs, ce_size = m\<rparr>) < g"
    "concat gs @ pending \<lparr>ce_up = ([] :: 'z filt list, w), ce_chunks = cs, ce_size = m\<rparr> = t"
    using assms unfolding chunked_to_def Let_def by blast
  let ?e = "\<lparr>ce_up = ([] :: 'z filt list, w), ce_chunks = cs, ce_size = m\<rparr>"
  let ?U = "chain_enc (open_env H D Z n g) 0"
  have e0: "open_chain (ce_up ?e)" "length (pending ?e) < 2 ^ 64" using c(3,5) e(2) by (simp_all add: open_chain_def)
  obtain e' where e': "push2Upstream H ?U True ?e = Inr (NoError, e')" "open_chain (ce_up e')"
    "chain_text (ce_up e') = chain_text (ce_up ?e) @ (if pending ?e = [] then [] else chunk_of H (pending ?e)) @ CHR ''0'' # crlf @ crlf"
    using chain0.push2Upstream_ok [OF c(2) e0(1) e(1) e0(2), of H D Z n g True, unfolded if_P [OF TrueI]] by blast
  obtain u where u: "d_flush ?U (ce_up e') = Inr (NoError, u)" "w_channel (snd u) = chain_text (ce_up e')" "fst u = []"
    using open_flush [OF e'(2)] unfolding open_chain_def by blast
  define gs' where "gs' = gs @ (if pending ?e = [] then [] else [pending ?e])"
  have "(\<forall>x\<in>set gs'. x \<noteq> []) \<and> concat gs' = t \<and> w_channel (snd u) = t0 @ concat (map (chunk_of H) gs') @ CHR ''0'' # crlf @ crlf"
    using c(4,6) e(3) e'(3) u(2) by (cases "pending ?e = []") (simp_all add: gs'_def chain_text_def)
  moreover have "d_flush (chain_enc (open_env H D Z n g) (Suc 0)) c =
      Inr (NoError, (FChunked (ce_chunks e') (ce_size e') # fst u, snd u))"
    using e'(1) u(1) by (simp add: c(1) on_filter_def ce_flush_def open_env_def)
  ultimately show ?thesis by (intro exI [of _ "(FChunked (ce_chunks e') (ce_size e') # fst u, snd u)"]) (use u(3) in auto)
qed


text \<open>The body of a message: the end of the head, what the headers of the system are, and the body in its coding.\<close>

definition body_wire :: "spirit \<Rightarrow> bool \<Rightarrow> string list \<Rightarrow> string" where
  "body_wire H c gs = (if c then concat (map (chunk_of H) gs) @ CHR ''0'' # crlf @ crlf else concat gs)"

lemma written_body:
  fixes m :: "(string, 'z) omsg"
  assumes "plain.at_head H D Z n g m t" "system_step (open_env H D Z n g) sys m f L"
    "om_coding f = ece_identity" "spirit_hex H" "g < 2 ^ 63"
  shows "\<exists>b gs. om_then (om_each (om_body (open_env H D Z n g) sys) bs m) (om_bodyFlush (open_env H D Z n g) sys) =
       Inr (NoError, f\<lparr>om_buf := b, om_mode := OmFirstLine\<rparr>) \<and> (\<forall>x\<in>set gs. x \<noteq> []) \<and> concat gs = concat bs \<and>
     w_channel (snd (ob_up b)) = t @ lines_text L @ crlf @ body_wire H (om_chunked f) gs \<and>
     length (fst (ob_up b)) = (if om_chunked f then 1 else 0)"
proof -
  let ?E = "open_env H D Z n g"
  obtain b3 where m3: "plain.om_ok H D Z n g (m\<lparr>om_buf := b3, om_mode := OmHeaders\<rparr>) t"
    "\<And>sys. ensure_body ?E sys m = enter_body ?E sys (m\<lparr>om_buf := b3, om_mode := OmHeaders\<rparr>)"
    by (rule plain.headers_msg [OF assms(1)]) blast
  define t1 where "t1 = t @ lines_text L @ crlf"
  obtain m4 b4 where m4: "enter_body ?E sys (m\<lparr>om_buf := b3, om_mode := OmHeaders\<rparr>) = Inr (NoError, m4)"
    "m4 = f\<lparr>om_buf := b4, om_mode := OmBody\<rparr>"
    "if om_chunked f then chunked.om_ready H D Z n g (t @ lines_text L @ crlf) m4 [] else plain.om_ready H D Z n g m4 (t @ lines_text L @ crlf)"
    by (rule enter_open [OF m3(1) assms(2-5)])
  have mode: "om_mode m4 = OmBody" "om_mode (m4\<lparr>om_buf := b\<rparr>) = OmBody" for b by (simp_all add: m4(2))
  have f: "m4\<lparr>om_buf := b, om_buf := b', om_mode := OmFirstLine\<rparr> = f\<lparr>om_buf := b', om_mode := OmFirstLine\<rparr>" for b b' by (simp add: m4(2))
  have send: "om_then (om_each (om_body ?E sys) bs m) (om_bodyFlush ?E sys) = om_then (om_each (om_body ?E sys) bs m4) (om_bodyFlush ?E sys)"
    by (rule body_entered [OF m3(2) [of sys, unfolded m4(1)] mode(1)])
  show ?thesis
  proof (cases "om_chunked f")
    case False
    obtain b where b: "om_each (om_body ?E sys) bs m4 = Inr (NoError, m4\<lparr>om_buf := b\<rparr>)"
      "plain.om_ready H D Z n g (m4\<lparr>om_buf := b\<rparr>) (t1 @ concat bs)"
      using plain.pieces_msg [OF mode(1) m4(3) [unfolded if_not_P [OF False], folded t1_def]] by blast
    let ?P = "\<lambda>c. w_channel (snd c) = t1 @ concat bs \<and> length (fst c) = 0"
    have "\<exists>c'. d_flush (chain_enc ?E 0) c = Inr (NoError, c') \<and> ?P c'" if "plain_to g c (t1 @ concat bs)" for c
      using that open_flush [of c H D Z n g] by (auto simp: plain_to_def open_chain_def)
    then obtain b' where "om_bodyFlush ?E sys (m4\<lparr>om_buf := b\<rparr>) = Inr (NoError, m4\<lparr>om_buf := b, om_buf := b', om_mode := OmFirstLine\<rparr>)"
      "?P (ob_up b')"
      using plain.body_flush_msg [OF mode(2) b(2), of ?P sys] by blast
    moreover have "\<forall>x\<in>set (List.filter (\<lambda>x. x \<noteq> []) bs). x \<noteq> []" by simp
    moreover have "concat (List.filter (\<lambda>x. x \<noteq> []) bs) = concat bs" by (induction bs) simp_all
    ultimately show ?thesis unfolding send b(1) om_then_simps f using False
      by (intro exI [of _ b'] exI [of _ "List.filter (\<lambda>x. x \<noteq> []) bs"]) (simp add: t1_def body_wire_def)
  next
    case True
    obtain b where b: "om_each (om_body ?E sys) bs m4 = Inr (NoError, m4\<lparr>om_buf := b\<rparr>)"
      "chunked.om_ready H D Z n g t1 (m4\<lparr>om_buf := b\<rparr>) ([] @ concat bs)"
      using chunked.pieces_msg [OF mode(1) m4(3) [unfolded if_P [OF True], folded t1_def]] by blast
    let ?P = "\<lambda>c. length (fst c) = 1 \<and> (\<exists>gs. (\<forall>x\<in>set gs. x \<noteq> []) \<and> concat gs = concat bs \<and>
      w_channel (snd c) = t1 @ concat (map (chunk_of H) gs) @ CHR ''0'' # crlf @ crlf)"
    have "\<exists>c'. d_flush (chain_enc ?E (Suc 0)) c = Inr (NoError, c') \<and> ?P c'" if "chunked_to H g t1 c ([] @ concat bs)" for c
      using chunked_flush [OF that, of D Z n] by simp
    then obtain b' where "om_bodyFlush ?E sys (m4\<lparr>om_buf := b\<rparr>) = Inr (NoError, m4\<lparr>om_buf := b, om_buf := b', om_mode := OmFirstLine\<rparr>)"
      "?P (ob_up b')"
      using chunked.body_flush_msg [OF mode(2) b(2), of ?P sys] by blast
    then show ?thesis unfolding send b(1) om_then_simps f using True by (auto simp: t1_def body_wire_def)
  qed
qed

lemma new_message_ok:
  fixes m :: "(string, 'z) omsg"
  shows "0 < g \<Longrightarrow> om_buf m = om_buf (new_output ch) \<Longrightarrow> plain.om_ok H D Z n g m ch"
  by (simp add: plain.om_ok_def ob_ok_def new_output_def plain_to_def open_chain_def chain_text_def writer_ok_def written_def)

lemma system_step_cong: "system_step E sys m f L \<Longrightarrow> system_step E sys (m\<lparr>om_buf := b, om_mode := md\<rparr>) f L"
  by (simp add: system_step_def)

lemma written_message:
  fixes m :: "(string, 'z) omsg"
  assumes "spirit_hex H" "0 < g" "g < 2 ^ 63" "om_mode m = OmFirstLine" "om_buf m = om_buf (new_output ch)"
    "om_coding (set_framing m) = ece_identity"
  shows "\<exists>m' gs. send_message (open_env H D Z n g) fl ls bs m = Inr (NoError, m') \<and> (\<forall>x\<in>set gs. x \<noteq> []) \<and> concat gs = concat bs \<and>
     w_channel (snd (ob_up (om_buf m'))) =
       ch @ fl @ crlf @ lines_text (ls @ system_lines (open_env H D Z n g) (set_framing m)) @ crlf @
       body_wire H (om_chunked (set_framing m)) gs \<and>
     om_mode m' = OmFirstLine \<and> length (fst (ob_up (om_buf m'))) = (if om_chunked (set_framing m) then 1 else 0)"
proof -
  let ?E = "open_env H D Z n g"
  obtain b1 where m1: "om_firstLine ?E fl m = Inr (NoError, m\<lparr>om_buf := b1\<rparr>)"
    "plain.at_head H D Z n g (m\<lparr>om_buf := b1\<rparr>) (ch @ fl @ crlf)"
    by (rule plain.first_line_msg [OF assms(4) new_message_ok [OF assms(2,5)]])
  obtain m2 b2 md where m2: "om_each (om_header_line ?E) ls (m\<lparr>om_buf := b1\<rparr>) = Inr (NoError, m2)"
    "m2 = m\<lparr>om_buf := b1, om_buf := b2, om_mode := md\<rparr>" "plain.at_head H D Z n g m2 ((ch @ fl @ crlf) @ lines_text ls)"
    using plain.head_lines_msg [OF m1(2)] by blast
  have m2': "m2 = m\<lparr>om_buf := b2, om_mode := md\<rparr>" by (simp add: m2(2))
  have "system_step ?E (om_system ?E) m2 ((set_framing m)\<lparr>om_mode := OmHeaders\<rparr>) (system_lines ?E (set_framing m))"
    unfolding m2' by (rule system_step_cong [OF om_system_step])
  from written_body [OF m2(3) this _ assms(1,3), of bs] assms(6)
  obtain b gs where "om_then (om_each (om_body ?E (om_system ?E)) bs m2) (om_bodyFlush ?E (om_system ?E)) =
       Inr (NoError, (set_framing m)\<lparr>om_mode := OmHeaders, om_buf := b, om_mode := OmFirstLine\<rparr>)" "\<forall>x\<in>set gs. x \<noteq> []" "concat gs = concat bs"
     "w_channel (snd (ob_up b)) = ((ch @ fl @ crlf) @ lines_text ls) @ lines_text (system_lines ?E (set_framing m)) @ crlf @
       body_wire H (om_chunked (set_framing m)) gs"
     "length (fst (ob_up b)) = (if om_chunked (set_framing m) then 1 else 0)" by auto
  then show ?thesis unfolding send_message_def m1(1) m2(1) om_then_simps
    by (intro exI [of _ "(set_framing m)\<lparr>om_mode := OmHeaders, om_buf := b, om_mode := OmFirstLine\<rparr>"] exI [of _ gs])
       (simp add: lines_text_append)
qed

subsection \<open>What the reader makes of it\<close>

text \<open>What the documentation of the decimal parser and generator says of a number written and read again.\<close>

definition decimal_pair :: "hvlib \<Rightarrow> (nat \<Rightarrow> string) \<Rightarrow> bool" where
  "decimal_pair V D \<longleftrightarrow> (\<forall>n < 2 ^ 64. D n \<noteq> [] \<and> list_all is_digit (D n) \<and> dec_uint V (D n) = Some (n, []))"

definition framing_names :: "string list" where
  "framing_names = [''Content-Length'', ''Transfer-Encoding'', ''Content-Encoding'', ''Connection'']"

definition other_header :: "(u64 \<Rightarrow> char \<Rightarrow> u64) \<Rightarrow> string \<Rightarrow> bool" where
  "other_header hc l \<longleftrightarrow> header_line l \<and> hn_key hc (line_name l) \<notin> instance_key ` set framing_names"

lemma framing_keys:
  "instance_key ''Content-Length'' = 8585966014584251309" "instance_key ''Transfer-Encoding'' = 7629069804527614141"
  "instance_key ''Content-Encoding'' = 15521839383146106557" "instance_key ''Connection'' = 14223089350449657875"
  by code_simp+

lemma framing_hn_key: "boost_hash hc \<Longrightarrow> hn_key hc s = instance_key s"
proof -
  have "to_lower = mpl_lower" by (intro ext) (simp add: to_lower_def mpl_lower_def)
  then show "boost_hash hc \<Longrightarrow> hn_key hc s = instance_key s" by (simp add: hn_key_hash instance_key_def)
qed

text \<open>A header line of the system.\<close>

lemma named_line:
  assumes "CHR '':'' \<notin> set name" "v \<noteq> []" "\<not> is_space (hd v)"
  shows "line_name (name @ '': '' @ v) = name" "line_value (name @ '': '' @ v) = v"
proof -
  have "takeWhile (\<lambda>c. c \<noteq> CHR '':'') (name @ '': '' @ v) = name" using assms(1) by (induction name) auto
  then show n: "line_name (name @ '': '' @ v) = name" by (simp add: line_name_def)
  have "dropWhile is_space v = v" using assms(2,3) by (cases v) auto
  then show "line_value (name @ '': '' @ v) = v" unfolding line_value_def n by (simp add: is_space_def)
qed

lemma field_others: "list_all (other_header hc) ls \<Longrightarrow> name \<in> set framing_names \<Longrightarrow> field hc (ls @ ss) name = field hc ss name"
  by (induction ls) (auto simp: field_def other_header_def)

definition value_ok :: "string option \<Rightarrow> bool" where
  "value_ok v \<longleftrightarrow> (\<exists>s. v = Some s \<and> s \<noteq> [] \<and> \<not> is_space (hd s) \<and> no_cr s)"

lemma field_system_line:
  assumes "boost_hash hc" "name \<in> set framing_names" "c \<longrightarrow> value_ok v"
  shows "field hc (system_line c name v @ ss) name' = (if c \<and> instance_key name = instance_key name' then v else field hc ss name')"
    "list_all header_line (system_line c name v)"
proof -
  have name: "CHR '':'' \<notin> set name" "no_cr name" using assms(2) by (auto simp: framing_names_def no_cr_def)
  show "field hc (system_line c name v @ ss) name' = (if c \<and> instance_key name = instance_key name' then v else field hc ss name')"
    using named_line [OF name(1)] framing_hn_key [OF assms(1)] assms(3) by (cases c) (auto simp: field_def system_line_def value_ok_def)
  show "list_all header_line (system_line c name v)"
    using name(2) assms(3) by (auto simp: system_line_def value_ok_def header_line_def no_cr_def)
qed

lemma chunked_text: "te_text ete_chunked = ''chunked''" by code_simp

lemma parse_chunked: "parse_te V ''chunked'' = Some ete_chunked"
  by (simp add: parse_te_def parse_coding_def coding_items.simps coding_item_def te_table_def starts_def skip_def item_weight_def expect_def)


lemma digits_ok:
  assumes "s \<noteq> []" "list_all is_digit s"
  shows "value_ok (Some s)"
proof -
  have "\<not> is_space c \<and> c \<noteq> CHR 0x0D" if "is_digit c" for c using that by (auto simp: is_digit_def is_space_def Let_def)
  then show ?thesis using assms by (cases s) (auto simp: value_ok_def no_cr_def list_all_iff)
qed

text \<open>The headers of a message sent, as they are found.\<close>

lemma sent_fields:
  fixes f :: "(string, 'z) omsg"
  assumes "boost_hash hc" "list_all (other_header hc) ls" "decimal_pair V D" "om_coding f = ece_identity"
    and L_def: "L = ls @ system_lines (open_env H D Z n g) f"
  shows "field hc L ''Content-Encoding'' = None"
    "field hc L ''Content-Length'' = (if om_length f \<noteq> unknown_length then Some (D (unat (om_length f))) else None)"
    "field hc L ''Transfer-Encoding'' = (if om_chunked f then Some ''chunked'' else None)"
    "list_all header_line L"
proof -
  let ?co = "connection_text (om_keep f)" and ?cl = "Some (D (unat (om_length f)))"
  have "unat (om_length f) < 2 ^ 64" using unsigned_less [of "om_length f", where 'a = nat] by simp
  then have cl: "value_ok ?cl" using digits_ok assms(3) by (auto simp: decimal_pair_def)
  have te: "value_ok (Some ''chunked'')" by (simp add: value_ok_def is_space_def no_cr_def)
  have co: "om_keep f \<noteq> EcUnknown \<longrightarrow> value_ok ?co"
    by (cases "om_keep f") (simp_all add: connection_text_def value_ok_def is_space_def no_cr_def)
  have names: "''Content-Length'' \<in> set framing_names" "''Transfer-Encoding'' \<in> set framing_names" "''Connection'' \<in> set framing_names"
    "''Content-Encoding'' \<in> set framing_names"
    by (simp_all add: framing_names_def)
  have sys: "system_lines (open_env H D Z n g) f = system_line (om_length f \<noteq> unknown_length) ''Content-Length'' ?cl @
      system_line (om_chunked f) ''Transfer-Encoding'' (Some ''chunked'') @ system_line (om_keep f \<noteq> EcUnknown) ''Connection'' ?co @ []"
    using assms(4) by (simp add: system_lines_def chunked_text open_env_def system_line_def)
  have nil: "field hc [] x = None" for x by (simp add: field_def)
  note step = field_system_line(1) [OF assms(1) names(1), of "om_length f \<noteq> unknown_length" ?cl]
    field_system_line(1) [OF assms(1) names(2), of "om_chunked f" "Some ''chunked''"]
    field_system_line(1) [OF assms(1) names(3) co]
  show "field hc L ''Content-Encoding'' = None"
    unfolding L_def field_others [OF assms(2) names(4)] sys using step cl te by (simp add: framing_keys nil del: append_Nil2)
  show "field hc L ''Content-Length'' = (if om_length f \<noteq> unknown_length then Some (D (unat (om_length f))) else None)"
    unfolding L_def field_others [OF assms(2) names(1)] sys using step cl te by (simp add: framing_keys nil del: append_Nil2)
  show "field hc L ''Transfer-Encoding'' = (if om_chunked f then Some ''chunked'' else None)"
    unfolding L_def field_others [OF assms(2) names(2)] sys using step cl te by (simp add: framing_keys nil del: append_Nil2)
  have "list_all header_line ls" using assms(2) by (auto simp: list_all_iff other_header_def)
  then show "list_all header_line L"
    unfolding L_def sys using field_system_line(2) [OF assms(1)] names cl te co by simp
qed

lemma framing_exclusive: "om_chunked (set_framing m) \<Longrightarrow> om_length (set_framing m) = unknown_length"
  by (simp add: set_framing_def Let_def split: if_splits)


text \<open>The body on the wire, and the decision of the reader.\<close>

lemma sent_framing:
  fixes m :: "(string, 'z) omsg"
  assumes "boost_hash hc" "list_all (other_header hc) ls" "decimal_pair V D" "om_coding (set_framing m) = ece_identity"
    and L: "L = ls @ system_lines (open_env H D Z n g) (set_framing m)"
  shows "om_chunked (set_framing m) \<Longrightarrow> framing V junk ver (field hc L ''Content-Encoding'') (field hc L ''Content-Length'')
       (field hc L ''Transfer-Encoding'') (field hc L ''Connection'') = Some (PlainBody, ChunkedBody EsCaption 0)"
    "om_length (set_framing m) \<noteq> unknown_length \<Longrightarrow> framing V junk ver (field hc L ''Content-Encoding'') (field hc L ''Content-Length'')
       (field hc L ''Transfer-Encoding'') (field hc L ''Connection'') = Some (PlainBody, SizedBody (unat (om_length (set_framing m))))"
proof -
  note fields = sent_fields [OF assms(1-4) L]
  have "unat (om_length (set_framing m)) < 2 ^ 64" using unsigned_less [of "om_length (set_framing m)", where 'a = nat] by simp
  then have dec: "parse_unsigned V (D (unat (om_length (set_framing m)))) = Some (unat (om_length (set_framing m)))"
    using assms(3) by (simp add: decimal_pair_def parse_unsigned_def)
  show "framing V junk ver (field hc L ''Content-Encoding'') (field hc L ''Content-Length'')
       (field hc L ''Transfer-Encoding'') (field hc L ''Connection'') = Some (PlainBody, ChunkedBody EsCaption 0)"
    if "om_chunked (set_framing m)"
    using that framing_exclusive [OF that] by (simp add: framing_def fields(1-3) content_coding_def parse_chunked ete_chunked_def)
  show "framing V junk ver (field hc L ''Content-Encoding'') (field hc L ''Content-Length'')
       (field hc L ''Transfer-Encoding'') (field hc L ''Connection'') = Some (PlainBody, SizedBody (unat (om_length (set_framing m))))"
    if "om_length (set_framing m) \<noteq> unknown_length"
    using that by (simp add: framing_def fields(1-3) content_coding_def dec)
qed

lemma last_drop_payload:
  assumes "packet_ok p 0" "drop q (all_bytes (ps @ [p])) \<noteq> []" "last (payload_of p 0) \<noteq> CHR 0x0D"
  shows "last (drop q (all_bytes (ps @ [p]))) \<noteq> CHR 0x0D"
proof -
  have "payload_of p 0 \<noteq> []" using assms(1) by (auto simp: packet_ok_def payload_of_def)
  then have "last (all_bytes (ps @ [p])) = last (payload_of p 0)" by (simp add: all_bytes_def)
  moreover have "q < length (all_bytes (ps @ [p]))" using assms(2) by (simp only: drop_eq_Nil not_le)
  ultimately show ?thesis using assms(3) by (simp only: last_drop not_False_eq_True)
qed

subsection \<open>Properties\<close>


text \<open>
  C2: what is sent is read.  A message written with other headers of its own and a framing that is known, the length of the body
  or the chunked coding, and received over any division into packets one of which holds the whole empty line that ends the head, and none of which
  ends in a carriage return: the reader gets the body that was written, whatever its pieces and the buffers on both sides, and
  what follows the message is kept for the next.
\<close>

theorem sent_message_is_read:
  fixes m :: "(string, 'z) omsg"
  assumes "spirit_hex H" "0 < g" "g < 2 ^ 63" "om_mode m = OmFirstLine" "om_buf m = om_buf (new_output [])"
    "om_coding (set_framing m) = ece_identity" "boost_hash hc" "decimal_pair V D" "no_cr fl" "list_all (other_header hc) ls"
    "length (concat bs) < 2 ^ 64"
    "om_chunked (set_framing m) \<or> om_length (set_framing m) = of_nat (length (concat bs)) \<and> om_length (set_framing m) \<noteq> unknown_length"
    "hd_text = fl @ crlf @ lines_text (ls @ system_lines (open_env H D Z n g) (set_framing m))"
  shows "\<exists>m'. send_message (open_env H D Z n g) fl ls bs m = Inr (NoError, m') \<and>
    (\<forall>ps1 p ps2 T. (\<forall>q\<in>set (ps1 @ p # ps2). packet_ok q 0 \<and> last (payload_of q 0) \<noteq> CHR 0x0D) \<longrightarrow>
       all_bytes (ps1 @ p # ps2) = w_channel (snd (ob_up (om_buf m'))) @ T \<longrightarrow>
       length (all_bytes ps1) \<le> length hd_text \<longrightarrow> length (hd_text @ crlf) \<le> length (all_bytes (ps1 @ [p])) \<longrightarrow>
       (\<exists>r r' b. readBody plain_decoder H V junk hc fin (new_message (ps1 @ p # ps2)) = Inr (NoError, r) \<and>
          m_body_acc r = Some b \<and> seg_text b (m_body r) = Inr (concat bs) \<and>
          reinit r = Inr r' \<and> acc_content (m_acc r') @ all_bytes (m_in r') = T))"
proof -
  let ?f = "set_framing m"
  define L where "L = ls @ system_lines (open_env H D Z n g) ?f"
  define X where "X = body_wire H (om_chunked ?f)"
  obtain m' gs where w: "send_message (open_env H D Z n g) fl ls bs m = Inr (NoError, m')" "\<forall>x\<in>set gs. x \<noteq> []"
    "concat gs = concat bs" "w_channel (snd (ob_up (om_buf m'))) = fl @ crlf @ lines_text L @ crlf @ X gs"
    using written_message [OF assms(1-6), of D Z n fl ls bs] unfolding L_def X_def by auto
  have lines: "list_all header_line L" using sent_fields(4) [OF assms(7,10,8,6) L_def] .
  have "\<exists>r r' b. readBody plain_decoder H V junk hc fin (new_message (ps1 @ p # ps2)) = Inr (NoError, r) \<and>
        m_body_acc r = Some b \<and> seg_text b (m_body r) = Inr (concat bs) \<and>
        reinit r = Inr r' \<and> acc_content (m_acc r') @ all_bytes (m_in r') = T"
    if ps: "\<forall>q\<in>set (ps1 @ p # ps2). packet_ok q 0 \<and> last (payload_of q 0) \<noteq> CHR 0x0D"
      "all_bytes (ps1 @ p # ps2) = w_channel (snd (ob_up (om_buf m'))) @ T"
      "length (all_bytes ps1) \<le> length hd_text" "length (hd_text @ crlf) \<le> length (all_bytes (ps1 @ [p]))" for ps1 p ps2 T
  proof -
    let ?s = "drop (length (fl @ crlf @ lines_text L @ crlf)) (all_bytes (ps1 @ [p]))"
    have hd: "length (all_bytes ps1) \<le> length (fl @ crlf @ lines_text L)"
      "length (fl @ crlf @ lines_text L @ crlf) \<le> length (all_bytes (ps1 @ [p]))"
      using ps(3,4) unfolding assms(13) L_def by simp_all
    have all: "all_bytes (ps1 @ p # ps2) = fl @ crlf @ lines_text L @ crlf @ (X gs @ T)" using ps(2) w(4) by simp
    have ok: "\<forall>q\<in>set (ps1 @ p # ps2). packet_ok q 0" using ps(1) by blast
    have "all_bytes (ps1 @ [p]) @ all_bytes ps2 = (fl @ crlf @ lines_text L @ crlf) @ (X gs @ T)"
      using all by (simp add: all_bytes_def)
    then have rest: "?s @ all_bytes ps2 = X gs @ T" using hd(2)
      by (metis append_eq_append_conv_if append_eq_conv_conj drop_append length_append diff_is_0_eq drop_0)
    have "?s = [] \<or> last ?s \<noteq> CHR 0x0D" using last_drop_payload ps(1) by auto
    then have chunked: "body_text H fin (ChunkedBody EsCaption 0) ?s ps2 (concat bs) T" if "om_chunked ?f"
      using that rest ps(1) chunks_wire [OF assms(1) w(2), of T] w(3) assms(1,11) by (auto simp: expects_def X_def body_wire_def)
    have sized: "body_text H fin (SizedBody (length (concat bs))) ?s ps2 (concat bs) T" if "\<not> om_chunked ?f"
      using that rest w(3) by (simp add: X_def body_wire_def)
    show ?thesis
    proof (cases "om_chunked ?f")
      case True
      show ?thesis by (rule whole_message [OF ok assms(9) lines refl all hd sent_framing(1) [OF assms(7,10,8,6) L_def True] chunked [OF True]])
    next
      case False
      then have len: "unat (om_length ?f) = length (concat bs)" "om_length ?f \<noteq> unknown_length"
        using assms(11,12) by (auto simp: unsigned_of_nat take_bit_nat_eq_self)
      show ?thesis
        by (rule whole_message [OF ok assms(9) lines refl all hd sent_framing(2) [OF assms(7,10,8,6) L_def len(2), unfolded len(1)] sized [OF False]])
    qed
  qed
  then show ?thesis using w(1) by blast
qed


text \<open>
  The framing of a message sent is one a reader understands.  After the decision in \<open>writeSystemHeaders\<close> the length and the chunked
  coding are never both announced, a content coding never goes with a length, which would be that of the body before it, and
  the connection is only kept when the end of the body can be found: by its length or by the last chunk.
\<close>

theorem framing_consistent:
  "\<not> (om_chunked (set_framing m) \<and> om_length (set_framing m) \<noteq> unknown_length) \<and>
   (om_coding (set_framing m) \<noteq> ece_identity \<longrightarrow> om_length (set_framing m) = unknown_length) \<and>
   (om_keep (set_framing m) = EcKeepAlive \<longrightarrow> om_chunked (set_framing m) \<or> om_length (set_framing m) \<noteq> unknown_length)"
  by (intro conjI) (simp_all add: set_framing_def Let_def split: if_splits)

text \<open>A message with a length that is to be compressed on a connection that is kept.\<close>

definition sample_out :: "bool \<Rightarrow> (string, toy) omsg" where
  "sample_out c = (new_output [])\<lparr>om_length := 5, om_level := 6, om_coding := ece_gzip, om_keep := EcKeepAlive, om_chunked := c\<rparr>"

theorem framing_consistent_witness:
  "om_length (set_framing (sample_out True)) = unknown_length \<and> om_chunked (set_framing (sample_out True))"
proof -
  let ?f = "set_framing (sample_out True)"
  have "om_coding ?f \<noteq> ece_identity" "om_keep ?f = EcKeepAlive"
    by (simp_all add: set_framing_def sample_out_def new_output_def Let_def unknown_length_def ece_gzip_def ece_identity_def)
  then show ?thesis using framing_consistent [of "sample_out True"] by blast
qed

text \<open>A message of five bytes in two pieces, with a buffer of two bytes, in the chunked coding.\<close>

definition sample_decimal :: hvlib where
  "sample_decimal = \<lparr>dec_uint = (\<lambda>s. let ds = takeWhile is_digit s in
     if ds = [] \<or> 2 ^ 64 \<le> dec_value 0 ds then None else Some (dec_value 0 ds, dropWhile is_digit s)), dec_positive = (\<lambda>s. None)\<rparr>"

lemma sample_decimal_pair: "decimal_pair sample_decimal dec_text"
proof -
  have "list_all is_digit (dec_text n) \<and> dec_value 0 (dec_text n) = n" for n
    using decs_printed [of n] by (auto simp: dec_text_def is_digit_def digit_val_def)
  moreover have "dec_text n \<noteq> []" for n by (cases "n = 0") (simp_all add: dec_text_def decs_pos)
  ultimately show ?thesis
    by (simp add: decimal_pair_def sample_decimal_def Let_def takeWhile_eq_all_conv [THEN iffD2] list_all_iff dropWhile_eq_Nil_conv [THEN iffD2])
qed

definition sample_chunked :: "(string, toy) omsg" where
  "sample_chunked = (new_output [])\<lparr>om_chunked := True\<rparr>"

lemma sample_chunked_framing: "set_framing sample_chunked = sample_chunked"
  by (simp add: set_framing_def sample_chunked_def new_output_def Let_def)

lemma sample_chunked_facts: "om_mode sample_chunked = OmFirstLine" "om_buf sample_chunked = om_buf (new_output [])"
  "om_coding (set_framing sample_chunked) = ece_identity" "om_chunked (set_framing sample_chunked)"
  "system_lines (open_env H D Z n g) (set_framing sample_chunked) = [''Transfer-Encoding: chunked'']"
  unfolding sample_chunked_framing
  by (simp_all add: sample_chunked_def new_output_def system_lines_def system_line_def chunked_text open_env_def)


theorem sent_message_is_read_witness:
  "\<exists>m' r r' b. send_message (open_env sample_spirit dec_text toy_zlib 0 2) ''GET /'' [] [''abc'', ''de''] sample_chunked = Inr (NoError, m') \<and>
    readBody plain_decoder sample_spirit sample_decimal EcUnknown sample_hash EndOfFile
      (new_message [packet_of (w_channel (snd (ob_up (om_buf m'))) @ ''X'')]) = Inr (NoError, r) \<and>
    m_body_acc r = Some b \<and> seg_text b (m_body r) = Inr ''abcde'' \<and>
    reinit r = Inr r' \<and> acc_content (m_acc r') @ all_bytes (m_in r') = ''X''"
proof -
  have hash: "boost_hash sample_hash" by (simp add: boost_hash_def sample_hash_def)
  define ht where "ht = ''GET /'' @ crlf @ lines_text ([] @ system_lines (open_env sample_spirit dec_text toy_zlib 0 2) (set_framing sample_chunked))"
  obtain m' where m': "send_message (open_env sample_spirit dec_text toy_zlib 0 2) ''GET /'' [] [''abc'', ''de''] sample_chunked = Inr (NoError, m')"
    "\<And>ps1 p ps2 T. (\<forall>q\<in>set (ps1 @ p # ps2). packet_ok q 0 \<and> last (payload_of q 0) \<noteq> CHR 0x0D) \<Longrightarrow>
       all_bytes (ps1 @ p # ps2) = w_channel (snd (ob_up (om_buf m'))) @ T \<Longrightarrow>
       length (all_bytes ps1) \<le> length ht \<Longrightarrow> length (ht @ crlf) \<le> length (all_bytes (ps1 @ [p])) \<Longrightarrow>
       (\<exists>r r' b. readBody plain_decoder sample_spirit sample_decimal EcUnknown sample_hash EndOfFile (new_message (ps1 @ p # ps2)) = Inr (NoError, r) \<and>
          m_body_acc r = Some b \<and> seg_text b (m_body r) = Inr (concat [''abc'', ''de'']) \<and>
          reinit r = Inr r' \<and> acc_content (m_acc r') @ all_bytes (m_in r') = T)"
    using sent_message_is_read [OF sample_spirit_hex _ _ sample_chunked_facts(1-3) hash sample_decimal_pair _ _ _ disjI1 [OF sample_chunked_facts(4)] ht_def,
        where junk = EcUnknown and fin = EndOfFile and bs = "[''abc'', ''de'']"]
    by (auto simp: no_cr_def)
  obtain X where "w_channel (snd (ob_up (om_buf m'))) = ht @ crlf @ X"
    using written_message [OF sample_spirit_hex _ _ sample_chunked_facts(1-3), of 2 dec_text toy_zlib 0 "''GET /''" "[]" "[''abc'', ''de'']"] m'(1)
    unfolding ht_def by auto
  then show ?thesis using m'(1) m'(2) [of "[]" "packet_of (w_channel (snd (ob_up (om_buf m'))) @ ''X'')" "[]" "''X''"]
    by (auto simp: all_bytes_def)
qed

end
