(* ===== verification/HttpLines.thy ===== *)
theory HttpLines
  imports HttpOutput
begin

text \<open>
  The first lines of requests and responses: the client writes a request line (http/client/impl/request.cpp) and
  parses a status line (http/client/impl/response.cpp), the server parses the request line
  (http/server/impl/request.cpp) and writes the status line (http/server/impl/response.cpp).  Spirit's number parser
  and generator are the parameter \<open>U\<close>.  The segments the parser leaves in the request are the texts of the first line.
\<close>

subsection \<open>Methods and status codes\<close>

datatype hmethod = EmUnknown | EmOptions | EmGet | EmPost | EmHead | EmTrace | EmPut | EmDelete | EmConnect

definition methods :: "(string \<times> hmethod) list" where
  "methods = [(''OPTIONS'', EmOptions), (''GET'', EmGet), (''POST'', EmPost), (''HEAD'', EmHead), (''TRACE'', EmTrace),
     (''PUT'', EmPut), (''DELETE'', EmDelete), (''CONNECT'', EmConnect)]"

text \<open>The numbers of the status codes; the one named 307 has the number 306.\<close>

definition esc_307 :: nat where
  "esc_307 = 306"

definition reasonPhrase :: "nat \<Rightarrow> string option" where
  "reasonPhrase n = map_of [(100, ''Continue''), (101, ''Switching Protocols''), (200, ''OK''), (201, ''Created''), (202, ''Accepted''),
     (203, ''Non-Authoritative Information''), (204, ''No Content''), (205, ''Reset Content''), (206, ''Partial Content''),
     (300, ''Multiple Choices''), (301, ''Moved Permanently''), (302, ''Found''), (303, ''See Other''), (304, ''Not Modified''),
     (305, ''Use Proxy''), (esc_307, ''Temporary Redirect''), (400, ''Bad Request''), (401, ''Unauthorized''),
     (402, ''Payment Required''), (403, ''Forbidden''), (404, ''Not Found''), (405, ''Method Not Allowed''), (406, ''Not Acceptable''),
     (407, ''Proxy Authentication Required''), (408, ''Request Timeout''), (409, ''Conflict''), (410, ''Gone''), (411, ''Length Required''),
     (412, ''Precondition Failed''), (413, ''Request Entity Too Large''), (414, ''Request-URI Too Long''), (415, ''Unsupported Media Type''),
     (416, ''Requested Range Not Satisfiable''), (417, ''Expectation Failed''), (500, ''Internal Server Error''), (501, ''Not Implemented''),
     (502, ''Bad Gateway''), (503, ''Service Unavailable''), (504, ''Gateway Timeout''), (505, ''HTTP Version Not Supported'')] n"

subsection \<open>The lines written\<close>

text \<open>\<open>client::impl::Request::firstLine\<close>; an unknown method is \<open>bad_value\<close>.\<close>

definition method_text :: "hmethod \<Rightarrow> string option" where
  "method_text e = (case e of EmUnknown \<Rightarrow> None | EmOptions \<Rightarrow> Some ''OPTIONS '' | EmGet \<Rightarrow> Some ''GET '' | EmPost \<Rightarrow> Some ''POST ''
     | EmHead \<Rightarrow> Some ''HEAD '' | EmTrace \<Rightarrow> Some ''TRACE '' | EmPut \<Rightarrow> Some ''PUT '' | EmDelete \<Rightarrow> Some ''DELETE ''
     | EmConnect \<Rightarrow> Some ''CONNECT '')"

definition version_text :: "uintlib \<Rightarrow> u16 \<times> u16 \<Rightarrow> string" where
  "version_text U v = ul_gen U (unat (fst v)) @ ''.'' @ ul_gen U (unat (snd v))"

definition client_firstLine :: "('ch, 'z) oenv \<Rightarrow> uintlib \<Rightarrow> hmethod \<Rightarrow> string \<Rightarrow> u16 \<times> u16 \<Rightarrow> ('ch, 'z) step" where
  "client_firstLine E U e path v m = hbind (om_firstLineIterator E m) (\<lambda>m.
     case method_text e of None \<Rightarrow> Inr (BadValue, m)
     | Some t \<Rightarrow> om_then (om_write E t m) (\<lambda>m. om_then (om_write E path m) (\<lambda>m. om_then (om_write E '' HTTP/'' m) (\<lambda>m.
         hbind (om_generate E (version_text U v) m) (\<lambda>m. Inr (NoError, m))))))"

text \<open>\<open>server::impl::Response::firstLine\<close>; a status that is not declared fails the assertion of \<open>reasonPhrase\<close>.\<close>

definition status_text :: "uintlib \<Rightarrow> u16 \<times> u16 \<Rightarrow> nat \<Rightarrow> string option" where
  "status_text U v n = map_option (\<lambda>r. ''HTTP/'' @ version_text U v @ '' '' @ ul_gen U n @ '' '' @ r) (reasonPhrase n)"

definition server_firstLine :: "('ch, 'z) oenv \<Rightarrow> uintlib \<Rightarrow> nat \<Rightarrow> ('ch, 'z) step" where
  "server_firstLine E U n m = hbind (om_firstLineIterator E m) (\<lambda>m.
     case status_text U (om_version m) n of None \<Rightarrow> Inl AssertFailed
     | Some t \<Rightarrow> hbind (om_generate E t m) (\<lambda>m. Inr (NoError, m)))"

definition server_firstLine_version :: "('ch, 'z) oenv \<Rightarrow> uintlib \<Rightarrow> u16 \<times> u16 \<Rightarrow> nat \<Rightarrow> ('ch, 'z) step" where
  "server_firstLine_version E U v n m = server_firstLine E U n (m\<lparr>om_version := v\<rparr>)"

subsection \<open>The request line parsed\<close>

record reqline =
  rq_method_e :: hmethod
  rq_method :: string
  rq_version :: string
  rq_uri :: string
  rq_path :: string
  rq_query :: string
  rq_ver :: "u16 \<times> u16"

definition no_reqline :: reqline where
  "no_reqline = \<lparr>rq_method_e = EmUnknown, rq_method = [], rq_version = [], rq_uri = [], rq_path = [], rq_query = [], rq_ver = (0, 0)\<rparr>"

fun find_method :: "(string \<times> hmethod) list \<Rightarrow> string \<Rightarrow> (hmethod \<times> nat) option" where
  "find_method [] s = None"
| "find_method ((n, e) # tab) s = (if starts n s then Some (e, length n) else find_method tab s)"

definition is_alpha :: "char \<Rightarrow> bool" where
  "is_alpha c \<longleftrightarrow> is_upper c \<or> (let n = of_char c :: nat in 97 \<le> n \<and> n \<le> 122)"

definition one_digit_of :: "string \<Rightarrow> (u16 \<times> string) option" where
  "one_digit_of s = (case s of [] \<Rightarrow> None | c # r \<Rightarrow> if is_digit c then Some (of_nat (digit_val c), r) else None)"

text \<open>\<open>digit >> '.' >> digit\<close>: the numbers are set as soon as they are read.\<close>

definition version_digits :: "u16 \<times> u16 \<Rightarrow> string \<Rightarrow> (u16 \<times> u16) \<times> string option" where
  "version_digits v s = (case one_digit_of s of None \<Rightarrow> (v, None)
     | Some (h, r) \<Rightarrow> (case expect (CHR ''.'') r of None \<Rightarrow> ((h, snd v), None)
       | Some r \<Rightarrow> (case one_digit_of r of None \<Rightarrow> ((h, snd v), None) | Some (l, r) \<Rightarrow> ((h, l), Some r))))"

definition after_lit :: "string \<Rightarrow> string \<Rightarrow> string option" where
  "after_lit p s = (if starts p s then Some (drop (length p) s) else None)"

text \<open>The segment \<open>uri\<close> is what the outer \<open>raw\<close> has matched, which begins in front of the method.\<close>

definition request_line :: "reqline \<Rightarrow> string \<Rightarrow> reqline \<times> bool" where
  "request_line q s =
     (case (case find_method methods s of Some x \<Rightarrow> x | None \<Rightarrow> (EmUnknown, length (takeWhile is_alpha s))) of (e, n) \<Rightarrow>
      let q1 = q\<lparr>rq_method_e := e, rq_method := take n s\<rparr> in
      case expect (CHR '' '') (drop n s) of None \<Rightarrow> (q1, False)
      | Some s2 \<Rightarrow>
        let p = takeWhile (\<lambda>c. c \<noteq> CHR '' '' \<and> c \<noteq> CHR ''?'') s2;
            s3 = drop (length p) s2;
            (qs, s4) = (case expect (CHR ''?'') s3 of Some r \<Rightarrow> (takeWhile (\<lambda>c. c \<noteq> CHR '' '') r, dropWhile (\<lambda>c. c \<noteq> CHR '' '') r)
                        | None \<Rightarrow> ([], s3));
            q2 = q1\<lparr>rq_path := p, rq_query := qs, rq_uri := take (length s - length s4) s\<rparr> in
        (case after_lit '' HTTP/'' s4 of None \<Rightarrow> (q2, False)
         | Some s5 \<Rightarrow> (case version_digits (rq_ver q2) s5 of
             (v, None) \<Rightarrow> (q2\<lparr>rq_ver := v\<rparr>, False)
           | (v, Some r) \<Rightarrow> (q2\<lparr>rq_ver := v, rq_version := take (length s5 - length r) s5\<rparr>, r = []))))"

text \<open>\<open>client::impl::Response::readFirstLine\<close>: what follows the status is not looked at.\<close>

definition response_line :: "uintlib \<Rightarrow> (u16 \<times> u16) \<times> nat \<Rightarrow> string \<Rightarrow> ((u16 \<times> u16) \<times> nat) \<times> bool" where
  "response_line U st s = (case after_lit ''HTTP/'' s of None \<Rightarrow> (st, False)
     | Some s1 \<Rightarrow> (case version_digits (fst st) s1 of
         (v, None) \<Rightarrow> ((v, snd st), False)
       | (v, Some r) \<Rightarrow> (case expect (CHR '' '') r of None \<Rightarrow> ((v, snd st), False)
         | Some r \<Rightarrow> (case ul_parse U r of None \<Rightarrow> ((v, snd st), False) | Some (n, _) \<Rightarrow> ((v, n), True)))))"

subsection \<open>Lemmas\<close>

text \<open>A number below ten is written as one digit.\<close>

definition one_digit :: "uintlib \<Rightarrow> bool" where
  "one_digit U \<longleftrightarrow> (\<forall>n < 10. \<exists>c. ul_gen U n = [c])"

lemma one_digit_gen:
  assumes "uint_law U" "one_digit U" "n < 10"
  obtains c where "ul_gen U n = [c]" "is_digit c" "digit_val c = n"
proof -
  obtain c where c: "ul_gen U n = [c]" using assms(2,3) by (auto simp: one_digit_def)
  have "list_all is_digit (ul_gen U n)" "dec_value 0 (ul_gen U n) = n" using assms(1,3) by (auto simp: uint_law_def)
  then show ?thesis using c that by simp
qed

lemma version_parsed:
  assumes "uint_law U" "one_digit U" "unat (fst v) < 10" "unat (snd v) < 10"
  shows "version_digits w (version_text U v @ r) = (v, Some r)" "length (version_text U v) = 3"
proof -
  obtain c where c: "ul_gen U (unat (fst v)) = [c]" "is_digit c" "digit_val c = unat (fst v)" using one_digit_gen [OF assms(1-3)] .
  obtain d where d: "ul_gen U (unat (snd v)) = [d]" "is_digit d" "digit_val d = unat (snd v)" using one_digit_gen [OF assms(1,2,4)] .
  show "version_digits w (version_text U v @ r) = (v, Some r)"
    using c d by (simp add: version_digits_def version_text_def one_digit_of_def expect_def)
  show "length (version_text U v) = 3" using c(1) d(1) by (simp add: version_text_def)
qed

lemma method_found:
  assumes "method_text e = Some t"
  obtains n where "t = n @ '' ''" "find_method methods (t @ r) = Some (e, length n)"
proof -
  have "t = butlast t @ '' '' \<and> find_method methods (t @ r) = Some (e, length (butlast t))"
    using assms by (cases e) (auto simp: method_text_def methods_def starts_def)
  then show ?thesis using that by blast
qed


lemma take_no_space: "CHR '' '' \<notin> set path \<Longrightarrow> takeWhile (\<lambda>c. c \<noteq> CHR '' '') (path @ CHR '' '' # r) = path"
  "CHR '' '' \<notin> set path \<Longrightarrow> dropWhile (\<lambda>c. c \<noteq> CHR '' '') (path @ CHR '' '' # r) = CHR '' '' # r"
  by (induction path) auto

text \<open>The path up to the question mark and the query behind it.\<close>

definition path_part :: "string \<Rightarrow> string" where
  "path_part p = takeWhile (\<lambda>c. c \<noteq> CHR ''?'') p"

definition query_part :: "string \<Rightarrow> string" where
  "query_part p = drop 1 (dropWhile (\<lambda>c. c \<noteq> CHR ''?'') p)"

lemma path_split:
  assumes "CHR '' '' \<notin> set p"
  shows "takeWhile (\<lambda>c. c \<noteq> CHR '' '' \<and> c \<noteq> CHR ''?'') (p @ CHR '' '' # r) = path_part p"
    "drop (length (path_part p)) (p @ CHR '' '' # r) =
       (if CHR ''?'' \<in> set p then CHR ''?'' # query_part p @ CHR '' '' # r else CHR '' '' # r)"
    "CHR '' '' \<notin> set (query_part p)"
proof -
  show "takeWhile (\<lambda>c. c \<noteq> CHR '' '' \<and> c \<noteq> CHR ''?'') (p @ CHR '' '' # r) = path_part p"
    using assms by (induction p) (auto simp: path_part_def)
  show "drop (length (path_part p)) (p @ CHR '' '' # r) =
       (if CHR ''?'' \<in> set p then CHR ''?'' # query_part p @ CHR '' '' # r else CHR '' '' # r)"
    by (induction p) (auto simp: path_part_def query_part_def)
  show "CHR '' '' \<notin> set (query_part p)"
    using assms by (auto simp: query_part_def dest: in_set_dropD set_dropWhileD)
qed

definition method_name :: "hmethod \<Rightarrow> string" where
  "method_name e = (case method_text e of Some t \<Rightarrow> butlast t | None \<Rightarrow> [])"

text \<open>What the server has of a request line.\<close>

definition reqline_of :: "uintlib \<Rightarrow> hmethod \<Rightarrow> string \<Rightarrow> u16 \<times> u16 \<Rightarrow> reqline" where
  "reqline_of U e path v = \<lparr>rq_method_e = e, rq_method = method_name e, rq_version = version_text U v,
     rq_uri = method_name e @ '' '' @ path, rq_path = path_part path, rq_query = query_part path, rq_ver = v\<rparr>"

lemma request_line_ok:
  assumes "uint_law U" "one_digit U" "unat (fst v) < 10" "unat (snd v) < 10" "method_text e = Some t" "CHR '' '' \<notin> set path"
  shows "request_line q (t @ path @ '' HTTP/'' @ version_text U v) = (reqline_of U e path v, True)"
proof -
  let ?rest = "'' HTTP/'' @ version_text U v"
  obtain n where n: "t = n @ '' ''" "find_method methods (t @ path @ ?rest) = Some (e, length n)"
    by (rule method_found [OF assms(5)])
  have name: "method_name e = n" using n(1) assms(5) by (simp add: method_name_def)
  have sp: "expect (CHR '' '') (drop (length n) (t @ path @ ?rest)) = Some (path @ ?rest)" by (simp add: n(1) expect_def)
  have rest: "path @ ?rest = path @ CHR '' '' # ''HTTP/'' @ version_text U v" by simp
  have s4: "(case expect (CHR ''?'') (drop (length (path_part path)) (path @ ?rest)) of
      Some r \<Rightarrow> (takeWhile (\<lambda>c. c \<noteq> CHR '' '') r, dropWhile (\<lambda>c. c \<noteq> CHR '' '') r)
    | None \<Rightarrow> ([], drop (length (path_part path)) (path @ ?rest))) = (query_part path, ?rest)"
  proof (cases "CHR ''?'' \<in> set path")
    case True
    then show ?thesis unfolding rest path_split(2) [OF assms(6)]
      by (simp add: expect_def take_no_space [OF path_split(3) [OF assms(6)]])
  next
    case False
    then have dw: "dropWhile (\<lambda>c. c \<noteq> CHR ''?'') path = []" by auto
    have "query_part path = []" unfolding query_part_def dw by simp
    then show ?thesis unfolding rest path_split(2) [OF assms(6)] using False by (simp add: expect_def)
  qed
  have tw: "takeWhile (\<lambda>c. c \<noteq> CHR '' '' \<and> c \<noteq> CHR ''?'') (path @ ?rest) = path_part path"
    unfolding rest by (rule path_split(1) [OF assms(6)])
  have lit: "after_lit '' HTTP/'' ?rest = Some (version_text U v @ [])" by (simp add: after_lit_def starts_def)
  have uri: "take (length (t @ path @ ?rest) - length ?rest) (t @ path @ ?rest) = n @ '' '' @ path" by (simp add: n(1))
  show ?thesis
    unfolding request_line_def n(2) option.case prod.case Let_def sp tw s4 lit
      version_parsed(1) [OF assms(1-4)] uri
    by (simp add: reqline_of_def name n(1))
qed

lemma status_line_ok:
  assumes "uint_law U" "one_digit U" "unat (fst v) < 10" "unat (snd v) < 10" "n < 2 ^ 32" "status_text U v n = Some t"
  shows "response_line U st t = ((v, n), True)"
proof -
  obtain r where t: "t = ''HTTP/'' @ version_text U v @ '' '' @ ul_gen U n @ '' '' @ r" using assms(6) by (auto simp: status_text_def)
  have lit: "after_lit ''HTTP/'' t = Some (version_text U v @ CHR '' '' # ul_gen U n @ '' '' @ r)" by (simp add: t after_lit_def starts_def)
  have g: "ul_gen U n \<noteq> []" "\<forall>c\<in>set (ul_gen U n). is_digit c" "dec_value 0 (ul_gen U n) = n"
    using assms(1,5) by (auto simp: uint_law_def list_all_iff)
  have sp: "\<not> is_digit (CHR '' '')" by (simp add: is_digit_def)
  have "takeWhile is_digit (ul_gen U n @ '' '' @ r) = ul_gen U n" "dropWhile is_digit (ul_gen U n @ '' '' @ r) = '' '' @ r"
    using g(2) sp by (simp_all add: takeWhile_append2 dropWhile_append2)
  then have "ul_parse U (ul_gen U n @ '' '' @ r) = Some (n, '' '' @ r)" using assms(1,5) g by (simp add: uint_law_def Let_def)
  then show ?thesis by (simp add: response_line_def lit version_parsed [OF assms(1-4)] expect_def)
qed


subsection \<open>The lines in a message\<close>

context message_sink
begin

lemma first_iterator_msg:
  assumes "om_mode m = OmFirstLine" "om_ok m t"
  shows "om_firstLineIterator E m = Inr (om_iterator E m)" "om_ready (om_iterator E m) t"
  using ob_ensure_ready [OF assms(2) [unfolded om_ok_def] om_ok_facts(2) [OF assms(2)]] assms(1)
  by (simp_all add: om_firstLineIterator_def ensure_firstLine_def om_iterator_def om_ready_def)

lemma generate_msg:
  assumes "om_ready m t"
  obtains b where "om_generate E s m = Inr (m\<lparr>om_buf := b\<rparr>)" "om_ready (m\<lparr>om_buf := b\<rparr>) (t @ s)"
proof -
  obtain b where "iter_text (chain_enc E k) (oe_granula E) s (om_buf m) = Inr b" "ob_ready R (oe_granula E) b (t @ s)"
    using iter_text_text [of "oe_granula E" "om_buf m" t s] assms by (auto simp: om_ready_def)
  then show ?thesis using that [of b] om_ok_facts(1) [OF om_ready_ok [OF assms]] by (simp add: om_generate_def om_ready_def)
qed

lemma ready_write_msg:
  assumes "om_ready m t"
  obtains b where "om_write E s m = Inr (NoError, m\<lparr>om_buf := b\<rparr>)" "om_ready (m\<lparr>om_buf := b\<rparr>) (t @ s)"
proof (cases "s = []")
  case True
  have "m\<lparr>om_buf := om_buf m\<rparr> = m" by simp
  then show ?thesis using that [of "om_buf m"] assms True by (simp add: om_write_def om_on_def ob_write.simps [of _ _ "[]"])
next
  case False
  then show ?thesis using write_msg [OF om_ready_ok [OF assms], of s] that by auto
qed

lemma at_head_ready: "om_mode m = OmFirstLine \<Longrightarrow> om_ready m t \<Longrightarrow> at_head m (t @ crlf)"
  using om_ready_ok by (auto simp: at_head_def)

lemma client_line_msg:
  assumes "om_mode m = OmFirstLine" "om_ok m t" "method_text e = Some mt"
  obtains b where "client_firstLine E U e path v m = Inr (NoError, m\<lparr>om_buf := b\<rparr>)"
    "at_head (m\<lparr>om_buf := b\<rparr>) (t @ (mt @ path @ '' HTTP/'' @ version_text U v) @ crlf)"
proof -
  note it = first_iterator_msg [OF assms(1,2)]
  let ?m = "om_iterator E m"
  have m: "?m\<lparr>om_buf := b\<rparr> = m\<lparr>om_buf := b\<rparr>" for b by (simp add: om_iterator_def)
  obtain b1 where b1: "om_write E mt ?m = Inr (NoError, ?m\<lparr>om_buf := b1\<rparr>)" "om_ready (?m\<lparr>om_buf := b1\<rparr>) (t @ mt)"
    using ready_write_msg [OF it(2)] .
  obtain b2 where b2: "om_write E path (m\<lparr>om_buf := b1\<rparr>) = Inr (NoError, m\<lparr>om_buf := b2\<rparr>)" "om_ready (m\<lparr>om_buf := b2\<rparr>) ((t @ mt) @ path)"
    using ready_write_msg [OF b1(2) [unfolded m], of path] by auto
  obtain b3 where b3: "om_write E '' HTTP/'' (m\<lparr>om_buf := b2\<rparr>) = Inr (NoError, m\<lparr>om_buf := b3\<rparr>)"
    "om_ready (m\<lparr>om_buf := b3\<rparr>) (((t @ mt) @ path) @ '' HTTP/'')" using ready_write_msg [OF b2(2), of "'' HTTP/''"] by auto
  obtain b4 where b4: "om_generate E (version_text U v) (m\<lparr>om_buf := b3\<rparr>) = Inr (m\<lparr>om_buf := b4\<rparr>)"
    "om_ready (m\<lparr>om_buf := b4\<rparr>) ((((t @ mt) @ path) @ '' HTTP/'') @ version_text U v)" using generate_msg [OF b3(2), of "version_text U v"] by auto
  have "client_firstLine E U e path v m = Inr (NoError, m\<lparr>om_buf := b4\<rparr>)"
    unfolding client_firstLine_def it(1) assms(3) hbind_simps option.case b1(1) m b2(1) b3(1) b4(1) om_then_simps ..
  then show ?thesis using that [of b4] at_head_ready [OF _ b4(2)] assms(1) by simp
qed

lemma server_line_msg:
  assumes "om_mode m = OmFirstLine" "om_ok m t" "status_text U (om_version m) n = Some s"
  obtains b where "server_firstLine E U n m = Inr (NoError, m\<lparr>om_buf := b\<rparr>)" "at_head (m\<lparr>om_buf := b\<rparr>) (t @ s @ crlf)"
proof -
  note it = first_iterator_msg [OF assms(1,2)]
  let ?m = "om_iterator E m"
  have m: "?m\<lparr>om_buf := b\<rparr> = m\<lparr>om_buf := b\<rparr>" for b by (simp add: om_iterator_def)
  have v: "om_version ?m = om_version m" by (simp add: om_iterator_def)
  obtain b where b: "om_generate E s ?m = Inr (?m\<lparr>om_buf := b\<rparr>)" "om_ready (?m\<lparr>om_buf := b\<rparr>) (t @ s)"
    using generate_msg [OF it(2)] .
  have "server_firstLine E U n m = Inr (NoError, m\<lparr>om_buf := b\<rparr>)"
    unfolding server_firstLine_def it(1) hbind_simps v assms(3) option.case b(1) m ..
  then show ?thesis using that [of b] at_head_ready [OF _ b(2) [unfolded m]] assms(1) by simp
qed

end

subsection \<open>Properties\<close>

text \<open>
  C33: the request line the client writes is the one the server reads: the method, the path, the query and the version come back,
  for any method the client can write and any target without a blank.  (The segment \<open>uri\<close> comes back with the method in front of it.)
\<close>

theorem request_line_roundtrip:
  assumes "uint_law U" "one_digit U" "unat (fst v) < 10" "unat (snd v) < 10" "method_text e = Some t" "CHR '' '' \<notin> set path"
  shows "request_line q (t @ path @ '' HTTP/'' @ version_text U v) =
     (\<lparr>rq_method_e = e, rq_method = butlast t, rq_version = version_text U v, rq_uri = t @ path,
       rq_path = path_part path, rq_query = query_part path, rq_ver = v\<rparr>, True)"
proof -
  obtain n where "t = n @ '' ''" by (rule method_found [OF assms(5), of "[]"])
  then show ?thesis using request_line_ok [OF assms, of q] assms(5) by (simp add: reqline_of_def method_name_def)
qed

lemma sample_one_digit: "one_digit sample_uint"
proof -
  have "\<exists>c. decs n = [c]" if "0 < n" "n < 10" for n :: nat using that by (subst decs.simps) (simp add: decs.simps [of 0])
  then show ?thesis by (auto simp: one_digit_def sample_uint_def dec_text_def)
qed

theorem request_line_roundtrip_witness:
  "request_line no_reqline (''GET '' @ ''/a?b=c'' @ '' HTTP/'' @ version_text sample_uint (1, 1)) =
     (\<lparr>rq_method_e = EmGet, rq_method = ''GET'', rq_version = version_text sample_uint (1, 1), rq_uri = ''GET /a?b=c'',
       rq_path = ''/a'', rq_query = ''b=c'', rq_ver = (1, 1)\<rparr>, True)"
  using request_line_roundtrip [OF sample_uint_law sample_one_digit, of "(1, 1)" EmGet "''GET ''" "''/a?b=c''" no_reqline]
  by (simp add: method_text_def path_part_def query_part_def)

text \<open>
  The status line the server writes is the one the client reads: the version and the status come back for every declared status.
\<close>

theorem status_line_roundtrip:
  assumes "uint_law U" "one_digit U" "unat (fst v) < 10" "unat (snd v) < 10" "n < 2 ^ 32" "status_text U v n = Some t"
  shows "response_line U st t = ((v, n), True)"
  by (rule status_line_ok [OF assms])

theorem status_line_roundtrip_witness:
  "response_line sample_uint ((0, 0), 0) (''HTTP/'' @ version_text sample_uint (1, 1) @ '' '' @ ul_gen sample_uint 404 @ '' Not Found'') =
     (((1, 1), 404), True)"
  by (rule status_line_roundtrip [OF sample_uint_law sample_one_digit]) (simp_all add: status_text_def reasonPhrase_def esc_307_def)

text \<open>
  An unknown method is only accepted when it does not begin like a known one.  The parser tries the known methods first and does not
  come back from one: \<open>GETS / HTTP/1.1\<close> is a bad message, while \<open>SPOT / HTTP/1.1\<close> is read as a request with an unknown method.
\<close>

theorem method_prefix_refused:
  assumes "method_text e = Some t" "c \<noteq> CHR '' ''"
  shows "request_line q (butlast t @ c # r) = (q\<lparr>rq_method_e := e, rq_method := butlast t\<rparr>, False)"
proof -
  have "find_method methods (butlast t @ c # r) = Some (e, length (butlast t))"
    using assms(1) by (cases e) (auto simp: method_text_def methods_def starts_def)
  then show ?thesis using assms(2) by (simp add: request_line_def expect_def)
qed

theorem method_prefix_refused_witness:
  "request_line no_reqline ''GETS / HTTP/1.1'' = (no_reqline\<lparr>rq_method_e := EmGet, rq_method := ''GET''\<rparr>, False) \<and>
   snd (request_line no_reqline ''SPOT / HTTP/1.1'')"
proof -
  have "request_line no_reqline ''GETS / HTTP/1.1'' = (no_reqline\<lparr>rq_method_e := EmGet, rq_method := ''GET''\<rparr>, False)"
    using method_prefix_refused [of EmGet "''GET ''" "CHR ''S''" no_reqline "'' / HTTP/1.1''"] by (simp add: method_text_def)
  moreover have "snd (request_line no_reqline ''SPOT / HTTP/1.1'')" by code_simp
  ultimately show ?thesis by blast
qed

end
