(* ===== verification/HttpServer.thy ===== *)
theory HttpServer
  imports HttpLines
begin

text \<open>
  The server's side of a connection (http/server/impl/response.cpp, http/impl/server.cpp): what a response takes over from the
  request before its headers are written, what happens after its body, and what the server does with a request by its method.
  The texts of the request's headers, the date and the handler of \<open>GET\<close> are arguments.
\<close>

subsection \<open>What the request asks for\<close>

definition server_keep :: "u16 \<times> u16 \<Rightarrow> string option \<Rightarrow> econnection \<Rightarrow> econnection" where
  "server_keep v co old = (case Option.bind co parse_connection of
       None \<Rightarrow> if \<not> version_less v (1, 1) then EcKeepAlive else old
     | Some k \<Rightarrow> k)"

definition server_chunked :: "hvlib \<Rightarrow> u16 \<times> u16 \<Rightarrow> string option \<Rightarrow> bool \<Rightarrow> bool" where
  "server_chunked V v te old = (case Option.bind te (parse_te V) of
       None \<Rightarrow> if \<not> version_less v (1, 1) then True else old
     | Some e \<Rightarrow> e AND ete_chunked \<noteq> 0)"

definition server_coding :: "hvlib \<Rightarrow> string option \<Rightarrow> flags" where
  "server_coding V ae = (case Option.bind ae (parse_ce V) of
       None \<Rightarrow> ece_identity
     | Some e \<Rightarrow> if e AND ece_deflate \<noteq> 0 then ece_deflate else if e AND ece_gzip \<noteq> 0 then ece_gzip else ece_identity)"

text \<open>The headers of the request that are looked at: \<open>Connection\<close>, \<open>TE\<close> and \<open>Accept-Encoding\<close>.\<close>

record asked =
  ask_connection :: "string option"
  ask_te :: "string option"
  ask_encoding :: "string option"

definition server_framing :: "hvlib \<Rightarrow> asked \<Rightarrow> ('ch, 'z) omsg \<Rightarrow> ('ch, 'z) omsg" where
  "server_framing V a m = m\<lparr>om_keep := server_keep (om_version m) (ask_connection a) (om_keep m),
     om_chunked := server_chunked V (om_version m) (ask_te a) (om_chunked m), om_coding := server_coding V (ask_encoding a)\<rparr>"

definition server_system :: "('ch, 'z) oenv \<Rightarrow> hvlib \<Rightarrow> asked \<Rightarrow> string option \<Rightarrow> ('ch, 'z) step" where
  "server_system E V a date m = om_then (om_header_value E ''Date'' date (server_framing V a m)) (\<lambda>m.
     om_then (om_header E ''Server'' ''haws'' m) (om_system E))"

subsection \<open>The response\<close>

definition new_response :: "'ch \<Rightarrow> u16 \<times> u16 \<Rightarrow> ('ch, 'z) omsg" where
  "new_response ch v = (new_output ch)\<lparr>om_version := v\<rparr>"

text \<open>After the body the request is made ready for the next one and handed to the server again, or the channel is closed.\<close>

datatype afterwards = NextRequest | ChannelClosed

definition server_bodyFlush :: "('ch, 'z) oenv \<Rightarrow> ('ch, 'z) step \<Rightarrow> ('ch, 'z) omsg \<Rightarrow> (ecode \<times> ('ch, 'z) omsg \<times> afterwards option) hresult" where
  "server_bodyFlush E sys m = hbind (om_bodyFlush E sys m) (\<lambda>(ec, m).
     if ec \<noteq> NoError then Inr (ec, m, None)
     else Inr (NoError, m, Some (if om_keep m = EcKeepAlive then NextRequest else ChannelClosed)))"

definition then_flush :: "('ch, 'z) oenv \<Rightarrow> ('ch, 'z) step \<Rightarrow> (ecode \<times> ('ch, 'z) omsg) hresult \<Rightarrow> (ecode \<times> ('ch, 'z) omsg \<times> afterwards option) hresult" where
  "then_flush E sys r = hbind r (\<lambda>(ec, m). if ec \<noteq> NoError then Inr (ec, m, None) else server_bodyFlush E sys m)"

subsection \<open>A request\<close>

text \<open>\<open>onRequest_f\<close> once the first line and the headers are read; \<open>body\<close> is the error code of \<open>readBody\<close>, which is only called for the
  methods that are refused, \<open>OPTIONS\<close> apart; \<open>get\<close> is what the handlers do.\<close>

definition refuse_method :: "('ch, 'z) oenv \<Rightarrow> uintlib \<Rightarrow> ('ch, 'z) step \<Rightarrow> ('ch, 'z) omsg \<Rightarrow> (ecode \<times> ('ch, 'z) omsg \<times> afterwards option) hresult" where
  "refuse_method E U sys m = then_flush E sys (om_then (server_firstLine E U 405 m)
     (om_header_value E ''Connection'' (connection_text EcClose)))"

definition answer_options :: "('ch, 'z) oenv \<Rightarrow> uintlib \<Rightarrow> ('ch, 'z) step \<Rightarrow> ('ch, 'z) omsg \<Rightarrow> (ecode \<times> ('ch, 'z) omsg \<times> afterwards option) hresult" where
  "answer_options E U sys m = then_flush E sys (om_then (server_firstLine E U 405 m) (om_header_line E ''Allow: GET''))"

definition on_request :: "('ch, 'z) oenv \<Rightarrow> uintlib \<Rightarrow> ('ch, 'z) step \<Rightarrow> hmethod \<Rightarrow> (unit \<Rightarrow> ecode) \<Rightarrow>
    (('ch, 'z) omsg \<Rightarrow> (ecode \<times> ('ch, 'z) omsg \<times> afterwards option) hresult) \<Rightarrow> ('ch, 'z) omsg \<Rightarrow>
    (ecode \<times> ('ch, 'z) omsg \<times> afterwards option) hresult" where
  "on_request E U sys e body get m = (case e of
       EmOptions \<Rightarrow> answer_options E U sys m
     | EmGet \<Rightarrow> get m
     | _ \<Rightarrow> if body () \<noteq> NoError then Inr (body (), m, None) else refuse_method E U sys m)"

subsection \<open>What the response holds\<close>

lemma server_framing_buf: "server_framing V a (m\<lparr>om_buf := b, om_mode := md\<rparr>) = (server_framing V a m)\<lparr>om_buf := b, om_mode := md\<rparr>"
  by (simp add: server_framing_def)

definition server_lines :: "('ch, 'z) oenv \<Rightarrow> string \<Rightarrow> ('ch, 'z) omsg \<Rightarrow> string list" where
  "server_lines E d f = [''Date: '' @ d, ''Server: haws''] @ system_lines E f"

lemma server_system_step:
  "system_step (open_env H D Z n g) (server_system (open_env H D Z n g) V a (Some d)) m
     ((set_framing (server_framing V a m))\<lparr>om_mode := OmHeaders\<rparr>)
     (server_lines (open_env H D Z n g) d (set_framing (server_framing V a m)))"
  unfolding system_step_def open_env_size
proof (intro allI impI)
  let ?E = "open_env H D Z n g" and ?f = "server_framing V a m"
  fix b t
  assume m: "plain.om_ok H D Z n g (m\<lparr>om_buf := b, om_mode := OmHeaders\<rparr>) t"
  have ok: "plain.om_ok H D Z n g (?f\<lparr>om_buf := b, om_mode := OmHeaders\<rparr>) t" using m by (simp add: plain.om_ok_def)
  have mode: "om_mode (?f\<lparr>om_buf := b, om_mode := OmHeaders\<rparr>) = OmHeaders" for b by simp
  obtain b1 where b1: "om_header_value ?E ''Date'' (Some d) (?f\<lparr>om_buf := b, om_mode := OmHeaders\<rparr>) =
      Inr (NoError, ?f\<lparr>om_buf := b, om_mode := OmHeaders\<rparr>\<lparr>om_buf := b1\<rparr>)"
    "plain.om_ready H D Z n g (?f\<lparr>om_buf := b, om_mode := OmHeaders\<rparr>\<lparr>om_buf := b1\<rparr>) (t @ (''Date'' @ '': '' @ d) @ crlf)"
    by (rule plain.header_value_msg [OF mode ok])
  have e1: "?f\<lparr>om_buf := b, om_mode := OmHeaders\<rparr>\<lparr>om_buf := b1\<rparr> = ?f\<lparr>om_buf := b1, om_mode := OmHeaders\<rparr>" for b b1 by simp
  obtain b2 where b2: "om_header ?E ''Server'' ''haws'' (?f\<lparr>om_buf := b1, om_mode := OmHeaders\<rparr>) =
      Inr (NoError, ?f\<lparr>om_buf := b1, om_mode := OmHeaders\<rparr>\<lparr>om_buf := b2\<rparr>)"
    "plain.om_ready H D Z n g (?f\<lparr>om_buf := b1, om_mode := OmHeaders\<rparr>\<lparr>om_buf := b2\<rparr>)
       ((t @ (''Date'' @ '': '' @ d) @ crlf) @ (''Server'' @ '': '' @ ''haws'') @ crlf)"
    by (rule plain.header_msg [OF mode plain.om_ready_ok [OF b1(2) [unfolded e1]]])
  obtain b3 where b3: "om_system ?E (?f\<lparr>om_buf := b2, om_mode := OmHeaders\<rparr>) =
      Inr (NoError, (set_framing (?f\<lparr>om_buf := b2, om_mode := OmHeaders\<rparr>))\<lparr>om_buf := b3\<rparr>)"
    "plain.om_ok H D Z n g ((set_framing (?f\<lparr>om_buf := b2, om_mode := OmHeaders\<rparr>))\<lparr>om_buf := b3\<rparr>)
      (((t @ (''Date'' @ '': '' @ d) @ crlf) @ (''Server'' @ '': '' @ ''haws'') @ crlf) @
        lines_text (system_lines ?E (set_framing (?f\<lparr>om_buf := b2, om_mode := OmHeaders\<rparr>))))"
    by (rule plain.system_msg [OF mode plain.om_ready_ok [OF b2(2) [unfolded e1]]])
  have "server_system ?E V a (Some d) (m\<lparr>om_buf := b, om_mode := OmHeaders\<rparr>) =
      Inr (NoError, (set_framing ?f)\<lparr>om_mode := OmHeaders\<rparr>\<lparr>om_buf := b3\<rparr>)"
    unfolding server_system_def server_framing_buf b1(1) e1 om_then_simps b2(1) b3(1) by simp
  moreover have "plain.om_ok H D Z n g ((set_framing ?f)\<lparr>om_mode := OmHeaders\<rparr>\<lparr>om_buf := b3\<rparr>)
      (t @ lines_text (server_lines ?E d (set_framing ?f)))"
    using b3(2) by (simp add: server_lines_def)
  ultimately show "\<exists>b'. server_system ?E V a (Some d) (m\<lparr>om_buf := b, om_mode := OmHeaders\<rparr>) =
        Inr (NoError, (set_framing ?f)\<lparr>om_mode := OmHeaders\<rparr>\<lparr>om_buf := b'\<rparr>) \<and>
      plain.om_ok H D Z n g ((set_framing ?f)\<lparr>om_mode := OmHeaders\<rparr>\<lparr>om_buf := b'\<rparr>)
        (t @ lines_text (server_lines ?E d (set_framing ?f)))"
    by blast
qed


context message_sink
begin

lemma head_value_msg:
  assumes "at_head m t"
  obtains m1 b where "om_header_value E name (Some v) m = Inr (NoError, m1)" "m1 = m\<lparr>om_buf := b, om_mode := OmHeaders\<rparr>"
    "at_head m1 (t @ (name @ '': '' @ v) @ crlf)"
proof -
  obtain m1 b where m1: "ensure_headers E m = Inr (NoError, m1)" "m1 = m\<lparr>om_buf := b, om_mode := OmHeaders\<rparr>" "om_ok m1 t"
    using headers_msg [OF assms] .
  then have mode: "om_mode m1 = OmHeaders" by simp
  obtain b2 where b2: "om_header_value E name (Some v) m1 = Inr (NoError, m1\<lparr>om_buf := b2\<rparr>)"
    "om_ready (m1\<lparr>om_buf := b2\<rparr>) (t @ (name @ '': '' @ v) @ crlf)"
    using header_value_msg [OF mode m1(3)] .
  have "om_header_value E name (Some v) m = om_header_value E name (Some v) m1"
    using m1(1) mode by (simp add: om_header_value_def om_headersIterator_def ensure_headers_def [of E m1])
  then show ?thesis using that [of "m1\<lparr>om_buf := b2\<rparr>" b2] b2 mode m1(2) om_ready_ok [OF b2(2)] by (simp add: at_head_def)
qed

end

text \<open>A response: its status, headers of the handler, and the body in pieces.\<close>

definition server_send :: "('ch, 'z) oenv \<Rightarrow> uintlib \<Rightarrow> ('ch, 'z) step \<Rightarrow> nat \<Rightarrow> string list \<Rightarrow> string list \<Rightarrow> ('ch, 'z) omsg \<Rightarrow>
    (ecode \<times> ('ch, 'z) omsg \<times> afterwards option) hresult" where
  "server_send E U sys n ls bs m = then_flush E sys (om_then (server_firstLine E U n m) (\<lambda>m.
     om_then (om_each (om_header_line E) ls m) (om_each (om_body E sys) bs)))"

definition after_flush :: "('ch, 'z) omsg \<Rightarrow> afterwards" where
  "after_flush m = (if om_keep m = EcKeepAlive then NextRequest else ChannelClosed)"

lemma then_flush_ok:
  assumes "om_then r (om_bodyFlush E sys) = Inr (NoError, m)"
  shows "then_flush E sys r = Inr (NoError, m, Some (after_flush m))"
proof (cases r)
  case (Inl e)
  then show ?thesis using assms by simp
next
  case (Inr x)
  obtain ec m1 where x: "x = (ec, m1)" by (cases x)
  have "ec = NoError" using assms Inr x by (cases "ec = NoError") simp_all
  then show ?thesis using assms Inr x by (simp add: then_flush_def server_bodyFlush_def after_flush_def)
qed

text \<open>What follows the status line and the headers of a response.\<close>

lemma response_rest:
  fixes m :: "(string, 'z) omsg"
  assumes "plain.at_head H D Z n g m t" "om_coding (set_framing (server_framing V a m)) = ece_identity" "spirit_hex H" "g < 2 ^ 63"
  obtains m' gs where "om_then (om_each (om_body (open_env H D Z n g) (server_system (open_env H D Z n g) V a (Some d))) bs m)
      (om_bodyFlush (open_env H D Z n g) (server_system (open_env H D Z n g) V a (Some d))) = Inr (NoError, m')"
    "\<forall>x\<in>set gs. x \<noteq> []" "concat gs = concat bs" "om_keep m' = om_keep (set_framing (server_framing V a m))"
    "w_channel (snd (ob_up (om_buf m'))) = t @ lines_text (server_lines (open_env H D Z n g) d (set_framing (server_framing V a m))) @ crlf @
       body_wire H (om_chunked (set_framing (server_framing V a m))) gs"
  using written_body [OF assms(1) server_system_step _ assms(3,4), of V a d bs] assms(2) that by fastforce

lemma response_written:
  fixes m :: "(string, 'z) omsg"
  assumes "spirit_hex H" "0 < g" "g < 2 ^ 63" "om_mode m = OmFirstLine" "om_buf m = om_buf (new_output ch)"
    "status_text U (om_version m) s = Some st" "om_coding (set_framing (server_framing V a m)) = ece_identity"
  shows "\<exists>m' gs. server_send (open_env H D Z n g) U (server_system (open_env H D Z n g) V a (Some d)) s ls bs m =
      Inr (NoError, m', Some (after_flush (set_framing (server_framing V a m)))) \<and> (\<forall>x\<in>set gs. x \<noteq> []) \<and> concat gs = concat bs \<and>
    w_channel (snd (ob_up (om_buf m'))) = ch @ st @ crlf @
      lines_text (ls @ server_lines (open_env H D Z n g) d (set_framing (server_framing V a m))) @ crlf @
      body_wire H (om_chunked (set_framing (server_framing V a m))) gs"
proof -
  let ?E = "open_env H D Z n g" and ?f = "set_framing (server_framing V a m)"
  obtain b1 where m1: "server_firstLine ?E U s m = Inr (NoError, m\<lparr>om_buf := b1\<rparr>)"
    "plain.at_head H D Z n g (m\<lparr>om_buf := b1\<rparr>) (ch @ st @ crlf)"
    by (rule plain.server_line_msg [OF assms(4) new_message_ok [OF assms(2,5)] assms(6)])
  obtain m2 b2 md where m2: "om_each (om_header_line ?E) ls (m\<lparr>om_buf := b1\<rparr>) = Inr (NoError, m2)"
    "m2 = m\<lparr>om_buf := b1, om_buf := b2, om_mode := md\<rparr>" "plain.at_head H D Z n g m2 ((ch @ st @ crlf) @ lines_text ls)"
    using plain.head_lines_msg [OF m1(2)] by blast
  have m2': "m2 = m\<lparr>om_buf := b2, om_mode := md\<rparr>" by (simp add: m2(2))
  have f: "set_framing (server_framing V a m2) = ?f\<lparr>om_buf := b2, om_mode := md\<rparr>" unfolding m2' server_framing_buf by simp
  have lines: "server_lines ?E d (?f\<lparr>om_buf := b2, om_mode := md\<rparr>) = server_lines ?E d ?f" by (simp add: server_lines_def)
  have coding: "om_coding (set_framing (server_framing V a m2)) = ece_identity" using assms(7) by (simp add: f)
  obtain m' gs where m': "om_then (om_each (om_body ?E (server_system ?E V a (Some d))) bs m2) (om_bodyFlush ?E (server_system ?E V a (Some d))) =
      Inr (NoError, m')" "\<forall>x\<in>set gs. x \<noteq> []" "concat gs = concat bs" "om_keep m' = om_keep (set_framing (server_framing V a m2))"
    "w_channel (snd (ob_up (om_buf m'))) = ((ch @ st @ crlf) @ lines_text ls) @ lines_text (server_lines ?E d (set_framing (server_framing V a m2))) @ crlf @
       body_wire H (om_chunked (set_framing (server_framing V a m2))) gs"
    by (rule response_rest [OF m2(3) coding assms(1,3)])
  have keep: "after_flush m' = after_flush ?f" using m'(4) by (simp add: f after_flush_def)
  have "server_send ?E U (server_system ?E V a (Some d)) s ls bs m = Inr (NoError, m', Some (after_flush m'))"
    unfolding server_send_def m1(1) m2(1) om_then_simps by (rule then_flush_ok [OF m'(1)])
  moreover have "w_channel (snd (ob_up (om_buf m'))) = ch @ st @ crlf @ lines_text (ls @ server_lines ?E d ?f) @ crlf @ body_wire H (om_chunked ?f) gs"
    using m'(5) by (simp add: f lines lines_text_append)
  ultimately show ?thesis using m'(2,3) keep by auto
qed


lemma refused_written:
  fixes m :: "(string, 'z) omsg"
  assumes "spirit_hex H" "0 < g" "g < 2 ^ 63" "om_mode m = OmFirstLine" "om_buf m = om_buf (new_output ch)"
    "status_text U (om_version m) 405 = Some st" "om_coding (set_framing (server_framing V a m)) = ece_identity"
  shows "\<exists>m'. refuse_method (open_env H D Z n g) U (server_system (open_env H D Z n g) V a (Some d)) m =
      Inr (NoError, m', Some (after_flush (set_framing (server_framing V a m)))) \<and>
    w_channel (snd (ob_up (om_buf m'))) = ch @ st @ crlf @
      lines_text (''Connection: Close'' # server_lines (open_env H D Z n g) d (set_framing (server_framing V a m))) @ crlf @
      body_wire H (om_chunked (set_framing (server_framing V a m))) []"
proof -
  let ?E = "open_env H D Z n g" and ?f = "set_framing (server_framing V a m)"
  let ?sys = "server_system ?E V a (Some d)"
  obtain b1 where m1: "server_firstLine ?E U 405 m = Inr (NoError, m\<lparr>om_buf := b1\<rparr>)"
    "plain.at_head H D Z n g (m\<lparr>om_buf := b1\<rparr>) (ch @ st @ crlf)"
    by (rule plain.server_line_msg [OF assms(4) new_message_ok [OF assms(2,5)] assms(6)])
  obtain m2 b2 where m2: "om_header_value ?E ''Connection'' (Some ''Close'') (m\<lparr>om_buf := b1\<rparr>) = Inr (NoError, m2)"
    "m2 = m\<lparr>om_buf := b1, om_buf := b2, om_mode := OmHeaders\<rparr>"
    "plain.at_head H D Z n g m2 ((ch @ st @ crlf) @ (''Connection'' @ '': '' @ ''Close'') @ crlf)"
    by (rule plain.head_value_msg [OF m1(2)])
  have m2': "m2 = m\<lparr>om_buf := b2, om_mode := OmHeaders\<rparr>" by (simp add: m2(2))
  have f: "set_framing (server_framing V a m2) = ?f\<lparr>om_buf := b2, om_mode := OmHeaders\<rparr>" unfolding m2' server_framing_buf by simp
  have lines: "server_lines ?E d (?f\<lparr>om_buf := b2, om_mode := OmHeaders\<rparr>) = server_lines ?E d ?f" by (simp add: server_lines_def)
  have coding: "om_coding (set_framing (server_framing V a m2)) = ece_identity" using assms(7) by (simp add: f)
  obtain m' gs where m': "om_then (om_each (om_body ?E ?sys) [] m2) (om_bodyFlush ?E ?sys) =
      Inr (NoError, m')" "\<forall>x\<in>set gs. x \<noteq> []" "concat gs = concat []" "om_keep m' = om_keep (set_framing (server_framing V a m2))"
    "w_channel (snd (ob_up (om_buf m'))) = ((ch @ st @ crlf) @ (''Connection'' @ '': '' @ ''Close'') @ crlf) @
       lines_text (server_lines ?E d (set_framing (server_framing V a m2))) @ crlf @
       body_wire H (om_chunked (set_framing (server_framing V a m2))) gs"
    by (rule response_rest [OF m2(3) coding assms(1,3)])
  have gs: "gs = []" using m'(2,3) by (cases gs) auto
  have keep: "after_flush m' = after_flush ?f" using m'(4) by (simp add: f after_flush_def)
  have close: "connection_text EcClose = Some ''Close''" by (simp add: connection_text_def)
  have fl: "om_then (Inr (NoError, m2)) (om_bodyFlush ?E ?sys) = Inr (NoError, m')" using m'(1) by simp
  have "refuse_method ?E U ?sys m = Inr (NoError, m', Some (after_flush m'))"
    unfolding refuse_method_def m1(1) om_then_simps close m2(1) by (rule then_flush_ok [OF fl])
  then show ?thesis using m'(5) keep by (simp add: f lines gs)
qed

subsection \<open>Properties\<close>

text \<open>
  C13: a response of the server.  Whatever the request asks for, when no content coding comes out of it the channel has the status line, the headers
  of the handler, the date, the name of the server, the headers of the framing, and the body.  The connection goes on to the next
  request exactly when the \<open>Connection\<close> header that the framing itself writes is \<open>Keep-Alive\<close>, whatever one the handler wrote, and then the
  end of the body can be found: it has a length or the last chunk.
\<close>

theorem response_is_sent:
  fixes m :: "(string, 'z) omsg"
  assumes "spirit_hex H" "0 < g" "g < 2 ^ 63" "om_mode m = OmFirstLine" "om_buf m = om_buf (new_output ch)"
    "status_text U (om_version m) s = Some st" "om_coding (set_framing (server_framing V a m)) = ece_identity"
    "f = set_framing (server_framing V a m)"
  shows "\<exists>m' gs out. server_send (open_env H D Z n g) U (server_system (open_env H D Z n g) V a (Some d)) s ls bs m =
      Inr (NoError, m', Some out) \<and> (\<forall>x\<in>set gs. x \<noteq> []) \<and> concat gs = concat bs \<and>
    w_channel (snd (ob_up (om_buf m'))) = ch @ st @ crlf @
      lines_text (ls @ [''Date: '' @ d, ''Server: haws''] @ system_lines (open_env H D Z n g) f) @ crlf @ body_wire H (om_chunked f) gs \<and>
    (out = NextRequest \<longleftrightarrow> ''Connection: Keep-Alive'' \<in> set (system_lines (open_env H D Z n g) f)) \<and>
    (out = NextRequest \<longrightarrow> om_chunked f \<or> om_length f \<noteq> unknown_length)"
proof -
  let ?E = "open_env H D Z n g"
  have keep: "om_keep f = EcKeepAlive \<longleftrightarrow> ''Connection: Keep-Alive'' \<in> set (system_lines ?E f)"
    by (cases "om_keep f") (auto simp: system_lines_def system_line_def connection_text_def)
  have "om_keep f = EcKeepAlive \<longrightarrow> om_chunked f \<or> om_length f \<noteq> unknown_length"
    unfolding assms(8) by (simp add: set_framing_def Let_def split: if_splits)
  moreover obtain m' gs where "server_send ?E U (server_system ?E V a (Some d)) s ls bs m = Inr (NoError, m', Some (after_flush f))"
    "\<forall>x\<in>set gs. x \<noteq> []" "concat gs = concat bs"
    "w_channel (snd (ob_up (om_buf m'))) = ch @ st @ crlf @ lines_text (ls @ server_lines ?E d f) @ crlf @ body_wire H (om_chunked f) gs"
    using response_written [OF assms(1-7), of D Z n d ls bs] unfolding assms(8) by blast
  moreover have "after_flush f = NextRequest \<longleftrightarrow> om_keep f = EcKeepAlive" by (simp add: after_flush_def)
  ultimately show ?thesis using keep
    by (intro exI [of _ m'] exI [of _ gs] exI [of _ "after_flush f"]) (simp add: server_lines_def)
qed

lemma sample_request: "set_framing (server_framing sample_decimal \<lparr>ask_connection = None, ask_te = None, ask_encoding = None\<rparr>
     (new_response '''' (1, 1) :: (string, toy) omsg)) =
     (new_response '''' (1, 1))\<lparr>om_keep := EcKeepAlive, om_chunked := True, om_coding := ece_identity\<rparr>"
proof -
  have "\<not> version_less (1, 1) (1, 1)" by (simp add: version_less_def)
  then show ?thesis
    by (simp add: server_framing_def server_keep_def server_chunked_def server_coding_def new_response_def new_output_def set_framing_def Let_def)
qed

lemma sample_status: "status_text sample_uint (om_version (new_response '''' (1, 1) :: (string, toy) omsg)) 405 =
    Some (''HTTP/'' @ version_text sample_uint (1, 1) @ '' '' @ ul_gen sample_uint 405 @ '' Method Not Allowed'')"
  by (simp add: status_text_def reasonPhrase_def esc_307_def new_response_def)

lemma sample_response: "om_mode (new_response '''' (1, 1) :: (string, toy) omsg) = OmFirstLine"
  "om_buf (new_response '''' (1, 1) :: (string, toy) omsg) = om_buf (new_output '''')"
  by (simp_all add: new_response_def new_output_def)

theorem response_is_sent_witness:
  "\<exists>m' gs. server_send (open_env sample_spirit dec_text toy_zlib 0 2) sample_uint
      (server_system (open_env sample_spirit dec_text toy_zlib 0 2) sample_decimal \<lparr>ask_connection = None, ask_te = None, ask_encoding = None\<rparr> (Some ''D''))
      405 [] [''abc''] (new_response '''' (1, 1)) = Inr (NoError, m', Some NextRequest) \<and> (\<forall>x\<in>set gs. x \<noteq> []) \<and> concat gs = ''abc''"
proof -
  let ?f = "set_framing (server_framing sample_decimal \<lparr>ask_connection = None, ask_te = None, ask_encoding = None\<rparr>
     (new_response '''' (1, 1) :: (string, toy) omsg))"
  have "om_coding ?f = ece_identity" by (simp add: sample_request)
  from response_is_sent [OF sample_spirit_hex _ _ sample_response sample_status this refl, of 2 dec_text toy_zlib 0 "''D''" "[]" "[''abc'']"]
  show ?thesis unfolding sample_request
    by (auto simp: system_lines_def system_line_def connection_text_def new_response_def)
qed

text \<open>
  A refused method.  To a request of HTTP 1.1 with a method that is not served the server answers 405 with the header \<open>Connection: Close\<close>, but
  writes \<open>Connection: Keep-Alive\<close> behind it and goes on with the next request of the connection.
\<close>

theorem refused_method_kept:
  fixes m :: "(string, 'z) omsg"
  assumes "spirit_hex H" "0 < g" "g < 2 ^ 63" "m = new_response ch v" "\<not> version_less v (1, 1)" "e \<noteq> EmOptions" "e \<noteq> EmGet" "body () = NoError"
    "status_text U v 405 = Some st"
  shows "\<exists>m'. on_request (open_env H D Z n g) U (server_system (open_env H D Z n g) V
        \<lparr>ask_connection = None, ask_te = None, ask_encoding = None\<rparr> (Some d)) e body get m = Inr (NoError, m', Some NextRequest) \<and>
    w_channel (snd (ob_up (om_buf m'))) = ch @ st @ crlf @
      lines_text [''Connection: Close'', ''Date: '' @ d, ''Server: haws'', ''Transfer-Encoding: chunked'', ''Connection: Keep-Alive''] @ crlf @
      CHR ''0'' # crlf @ crlf"
proof -
  let ?a = "\<lparr>ask_connection = None, ask_te = None, ask_encoding = None\<rparr>"
  have f: "set_framing (server_framing V ?a m) = m\<lparr>om_keep := EcKeepAlive, om_chunked := True, om_coding := ece_identity\<rparr>"
    using assms(4,5)
    by (simp add: server_framing_def server_keep_def server_chunked_def server_coding_def new_response_def new_output_def set_framing_def Let_def)
  have m: "om_mode m = OmFirstLine" "om_buf m = om_buf (new_output ch)" "om_version m = v" "om_length m = unknown_length"
    using assms(4) by (simp_all add: new_response_def new_output_def)
  have "status_text U (om_version m) 405 = Some st" "om_coding (set_framing (server_framing V ?a m)) = ece_identity" using assms(9) m(3) f by simp_all
  then obtain m' where "refuse_method (open_env H D Z n g) U (server_system (open_env H D Z n g) V ?a (Some d)) m =
      Inr (NoError, m', Some (after_flush (set_framing (server_framing V ?a m))))"
    "w_channel (snd (ob_up (om_buf m'))) = ch @ st @ crlf @
      lines_text (''Connection: Close'' # server_lines (open_env H D Z n g) d (set_framing (server_framing V ?a m))) @ crlf @
      body_wire H (om_chunked (set_framing (server_framing V ?a m))) []"
    using refused_written [OF assms(1-3) m(1,2)] by blast
  moreover have "on_request (open_env H D Z n g) U (server_system (open_env H D Z n g) V ?a (Some d)) e body get m =
      refuse_method (open_env H D Z n g) U (server_system (open_env H D Z n g) V ?a (Some d)) m"
    using assms(6-8) by (cases e) (simp_all add: on_request_def)
  ultimately show ?thesis
    by (simp add: f after_flush_def server_lines_def system_lines_def system_line_def m(4) chunked_text connection_text_def body_wire_def)
qed

theorem refused_method_kept_witness:
  "\<exists>m'. on_request (open_env sample_spirit dec_text toy_zlib 0 2) sample_uint (server_system (open_env sample_spirit dec_text toy_zlib 0 2)
        sample_decimal \<lparr>ask_connection = None, ask_te = None, ask_encoding = None\<rparr> (Some ''D'')) EmPost (\<lambda>u. NoError) (\<lambda>m. Inl NoReturn)
        (new_response '''' (1, 1)) = Inr (NoError, m', Some NextRequest)"
proof -
  have "\<not> version_less (1, 1) (1, 1)" by (simp add: version_less_def)
  from refused_method_kept [OF sample_spirit_hex _ _ refl this, where e = EmPost and body = "\<lambda>u. NoError" and U = sample_uint and g = 2 and D = dec_text and Z = toy_zlib and n = 0
      and V = sample_decimal and d = "''D''" and get = "\<lambda>m. Inl NoReturn" and ch = "[]"]
  show ?thesis by (auto simp: status_text_def reasonPhrase_def esc_307_def)
qed


text \<open>
  A body nobody reads.  For a \<open>GET\<close> or \<open>OPTIONS\<close> request neither the server nor its handler of files reads a body.  When it has answered and goes on with the connection, everything
  behind the head is kept as the beginning of the next request, the body that the head has announced included.
\<close>

theorem unread_body_is_next:
  assumes "\<forall>p\<in>set ps. packet_ok p 0" "no_cr fl" "list_all header_line ls" "ps = ps1 @ p # ps2"
    "all_bytes ps = fl @ crlf @ lines_text ls @ crlf @ R"
    "length (all_bytes ps1) \<le> length (fl @ crlf @ lines_text ls)"
    "length (fl @ crlf @ lines_text ls @ crlf) \<le> length (all_bytes (ps1 @ [p]))"
  shows "\<exists>m m'. readHeaders hc fin (new_message ps) = Inr (NoError, m) \<and> head_read hc m fl ls \<and> reinit m = Inr m' \<and>
    m_mode m' = EmFirstLine \<and> acc_content (m_acc m') @ all_bytes (m_in m') = R"
proof -
  define Q where "Q = length fl + 2 + length (lines_text ls) + 2"
  obtain c where c: "readHeaders hc fin (new_message ps) =
      Inr (NoError, head_message hc ps c ps2 fl ls (seek (chain c) (Q - 2)))" "received_to (new_message ps) (ps1 @ [p]) ps2 c Q"
    by (rule read_head_ok [OF assms(1-5) Q_def, where hc = hc and fin = fin]) (use assms(6,7) in \<open>simp_all add: Q_def\<close>)
  let ?m = "head_message hc ps c ps2 fl ls (seek (chain c) (Q - 2))"
  have h: "head_read hc ?m fl ls" "at_text ?m Q R" using head_message_read [OF c(2) assms(3,5) Q_def assms(1)] by blast+
  then have a: "acc_ok (m_acc ?m)" "chain (m_acc ?m) \<noteq> []" "Q \<le> length (acc_content (m_acc ?m))" "m_pos ?m = seek (chain (m_acc ?m)) Q"
    "drop Q (acc_content (m_acc ?m)) @ all_bytes (m_in ?m) = R"
    by (simp_all add: at_text_def)
  obtain c' where "dropFront (m_acc ?m) (seek (chain (m_acc ?m)) Q) = Inr c'" "acc_content c' = drop Q (acc_content (m_acc ?m))"
    using dropFront_ok [OF a(1)] a(2,3) by blast
  then have "\<exists>m'. reinit ?m = Inr m' \<and> m_mode m' = EmFirstLine \<and> acc_content (m_acc m') @ all_bytes (m_in m') = R"
    using a(4,5) by (simp add: reinit_def)
  then show ?thesis using c(1) h(1) by blast
qed

theorem unread_body_is_next_witness:
  "\<exists>m m'. readHeaders sample_hash EndOfFile (new_message [packet_of (''GET / HTTP/1.1'' @ crlf @ ''content-length: 3'' @ crlf @ crlf @ ''abcGET'')]) =
      Inr (NoError, m) \<and> reinit m = Inr m' \<and> m_mode m' = EmFirstLine \<and> acc_content (m_acc m') @ all_bytes (m_in m') = ''abcGET''"
proof -
  let ?ps = "[packet_of (''GET / HTTP/1.1'' @ crlf @ ''content-length: 3'' @ crlf @ crlf @ ''abcGET'')]"
  have "\<forall>p\<in>set ?ps. packet_ok p 0" "no_cr ''GET / HTTP/1.1''" "list_all header_line [''content-length: 3'']" "?ps = [] @ hd ?ps # []"
    "all_bytes ?ps = ''GET / HTTP/1.1'' @ crlf @ lines_text [''content-length: 3''] @ crlf @ ''abcGET''"
    by (simp_all add: no_cr_def header_line_def)
  from unread_body_is_next [OF this, where hc = sample_hash and fin = EndOfFile] show ?thesis by (auto simp: crlf_def)
qed

end
