(* ===== verification/HttpFiles.thy ===== *)
theory HttpFiles
  imports HttpServer
begin

text \<open>
  The handler that serves files (http/server/impl/handlerFs.cpp): \<open>onRequest\<close> and the information about extensions.  The file system and
  \<open>boost::filesystem\<close> are parameters; the configuration is what \<open>loadConf\<close> has read.
\<close>

subsection \<open>Parameters and state\<close>

record fstat =
  st_regular :: bool
  st_mtime :: int
  st_size :: nat
  st_ino :: nat

text \<open>The elements of a path and its extension, the root with a path behind it, the system calls, and the generator of hexadecimal numbers.\<close>

record files =
  fs_elements :: "string \<Rightarrow> string list"
  fs_extension :: "string \<Rightarrow> string"
  fs_join :: "string \<Rightarrow> string"
  fs_stat :: "string \<Rightarrow> fstat option"
  fs_open :: "string \<Rightarrow> int"
  fs_read :: "int \<Rightarrow> nat \<Rightarrow> nat \<Rightarrow> string"
  fs_hex :: "int \<Rightarrow> string"

record extinfo =
  x_mime :: string
  x_level :: int
  x_minSize :: nat

definition new_extinfo :: extinfo where
  "new_extinfo = \<lparr>x_mime = ''application/octet-stream'', x_level = 1, x_minSize = 128\<rparr>"

record handler =
  h_etag :: bool
  h_modified :: bool
  h_default :: extinfo
  h_infos :: "string \<rightharpoonup> extinfo"

definition getExtInfo :: "handler \<Rightarrow> string \<Rightarrow> extinfo" where
  "getExtInfo h ext = (case h_infos h ext of Some x \<Rightarrow> x | None \<Rightarrow> h_default h)"

subsection \<open>Answers without a body\<close>

definition answer_empty :: "('ch, 'z) oenv \<Rightarrow> uintlib \<Rightarrow> ('ch, 'z) step \<Rightarrow> nat \<Rightarrow> ('ch, 'z) omsg \<Rightarrow> (ecode \<times> ('ch, 'z) omsg \<times> afterwards option) hresult" where
  "answer_empty E U sys n m = then_flush E sys (om_then (server_firstLine E U n m) (\<lambda>m. Inr (NoError, setContentLength 0 m)))"

definition notFound :: "('ch, 'z) oenv \<Rightarrow> uintlib \<Rightarrow> ('ch, 'z) step \<Rightarrow> ('ch, 'z) omsg \<Rightarrow> (ecode \<times> ('ch, 'z) omsg \<times> afterwards option) hresult" where
  "notFound E U sys = answer_empty E U sys 404"

definition notModified :: "('ch, 'z) oenv \<Rightarrow> uintlib \<Rightarrow> ('ch, 'z) step \<Rightarrow> ('ch, 'z) omsg \<Rightarrow> (ecode \<times> ('ch, 'z) omsg \<times> afterwards option) hresult" where
  "notModified E U sys = answer_empty E U sys 304"

subsection \<open>The file\<close>

text \<open>The loop that reads into the buffer; the number of bytes read is not looked at, and an error only ends the loop.\<close>

function file_body :: "'u encoder \<Rightarrow> nat \<Rightarrow> (nat \<Rightarrow> nat \<Rightarrow> string) \<Rightarrow> nat \<Rightarrow> nat \<Rightarrow> 'u obuf \<Rightarrow> 'u obuf hresult" where
  "file_body D g rd pos n b =
     (if n = 0 then Inr b
      else (case bufferGet g n b of (k, b1) \<Rightarrow>
        if k = 0 then Inl AssertFailed
        else hbind (bufferInc D g k (memcpy_at (rd pos k) b1)) (\<lambda>(ec, b2).
          if ec \<noteq> NoError then Inr b2 else file_body D g rd (pos + k) (n - k) b2)))"
  by auto
termination by (relation "measure (\<lambda>(D, g, rd, pos, n, b). n)") auto

declare file_body.simps [simp del]

definition file_send :: "('ch, 'z) oenv \<Rightarrow> ('ch, 'z) step \<Rightarrow> (nat \<Rightarrow> nat \<Rightarrow> string) \<Rightarrow> nat \<Rightarrow> ('ch, 'z) step" where
  "file_send E sys rd n m = hbind (om_bodyIterator E sys m) (\<lambda>m.
     hbind (file_body (om_enc E m) (oe_granula E) rd 0 n (om_buf m)) (\<lambda>b. Inr (NoError, m\<lparr>om_buf := b\<rparr>)))"

text \<open>The headers that decide whether the file is sent again.\<close>

record asked_file =
  ask_none_match :: "string option"
  ask_since :: "string option"

definition etag_text :: "files \<Rightarrow> fstat \<Rightarrow> string" where
  "etag_text F st = ''\"'' @ fs_hex F (st_mtime st) @ ''-'' @ fs_hex F (int (st_size st)) @ ''-'' @ fs_hex F (int (st_ino st)) @ ''\"''"

definition not_modified :: "files \<Rightarrow> handler \<Rightarrow> uintlib \<Rightarrow> (tm \<Rightarrow> int) \<Rightarrow> asked_file \<Rightarrow> fstat \<Rightarrow> bool" where
  "not_modified F h U timegm q st \<longleftrightarrow> h_etag h \<and> ask_none_match q = Some (etag_text F st) \<or>
     h_modified h \<and> (case Option.bind (ask_since q) (parse_date U timegm) of None \<Rightarrow> False | Some v \<Rightarrow> st_mtime st \<le> v)"

definition compress_level :: "extinfo \<Rightarrow> nat \<Rightarrow> int" where
  "compress_level x n = (if 0 < x_level x \<and> n \<noteq> 0 \<and> x_minSize x \<le> n then x_level x else 0)"

text \<open>The headers of a file.\<close>

definition file_head :: "('ch, 'z) oenv \<Rightarrow> uintlib \<Rightarrow> handler \<Rightarrow> string \<Rightarrow> string \<Rightarrow> string option \<Rightarrow> ('ch, 'z) step" where
  "file_head E U h mime etag modified m = om_then (server_firstLine E U 200 m) (\<lambda>m.
     om_then (om_header E ''Content-Type'' mime m) (\<lambda>m.
     om_then (if h_etag h then om_header E ''ETag'' etag m else Inr (NoError, m)) (\<lambda>m.
       if h_modified h then om_header_value E ''Last-Modified'' modified m else Inr (NoError, m))))"

text \<open>\<open>onRequest\<close>.  The result of \<open>open\<close> is compared with null; a failed one is \<open>-1\<close>.\<close>

definition onRequest :: "('ch, 'z) oenv \<Rightarrow> uintlib \<Rightarrow> (int \<Rightarrow> tm) \<Rightarrow> (tm \<Rightarrow> int) \<Rightarrow> ('ch, 'z) step \<Rightarrow> files \<Rightarrow> handler \<Rightarrow> string \<Rightarrow> asked_file \<Rightarrow>
    ('ch, 'z) omsg \<Rightarrow> (ecode \<times> ('ch, 'z) omsg \<times> afterwards option) hresult" where
  "onRequest E U gmtime timegm sys F h path q m =
     (if ''..'' \<in> set (fs_elements F path) then notFound E U sys m
      else (case fs_stat F (fs_join F path) of
        None \<Rightarrow> notFound E U sys m
      | Some st \<Rightarrow>
          if \<not> st_regular st then notFound E U sys m
          else if not_modified F h U timegm q st then notModified E U sys m
          else (let fd = (if st_size st \<noteq> 0 then fs_open F (fs_join F path) else - 1) in
            if st_size st \<noteq> 0 \<and> fd = 0 then notFound E U sys m
            else (let x = getExtInfo h (fs_extension F path) in
              hbind (file_head E U h (x_mime x) (etag_text F st) (date_text U gmtime (st_mtime st)) m) (\<lambda>(ec, m).
                if ec \<noteq> NoError then Inr (ec, m, None)
                else let m = setContentCompress (compress_level x (st_size st)) (setContentLength (of_nat (st_size st)) m) in
                  then_flush E sys (if 0 \<le> fd then file_send E sys (fs_read F fd) (st_size st) m else Inr (NoError, m)))))))"

subsection \<open>What is sent\<close>

text \<open>The loop writes the content of the file, when \<open>read\<close> gives it.\<close>

lemma file_body_writes:
  "(\<And>p k. rd p k = take k (drop p c)) \<Longrightarrow> s = drop pos c \<Longrightarrow> ob_write D g s b = Inr (NoError, b') \<Longrightarrow>
     file_body D g rd pos (length s) b = Inr b'"
proof (induction s arbitrary: b pos rule: length_induct)
  case (1 s)
  show ?case
  proof (cases "s = []")
    case True
    then show ?thesis using 1(4) by (simp add: file_body.simps ob_write.simps [of D g "[]"])
  next
    case False
    obtain k b1 where k: "bufferGet g (length s) b = (k, b1)" by (cases "bufferGet g (length s) b")
    have w: "ob_write D g s b = (if k = 0 then Inl AssertFailed
        else if_ok (bufferInc D g k (memcpy_at (take k s) b1)) (\<lambda>ec b. Inr (ec, b)) (ob_write D g (drop k s)))"
      using False k by (simp add: ob_write.simps [of D g s b])
    then have k0: "0 < k" using 1(4) by (cases "k = 0") auto
    obtain ec b2 where i: "bufferInc D g k (memcpy_at (take k s) b1) = Inr (ec, b2)"
      using w 1(4) k0 by (cases "bufferInc D g k (memcpy_at (take k s) b1)") (auto simp: if_ok_def)
    have ec: "ec = NoError" "ob_write D g (drop k s) b2 = Inr (NoError, b')"
      using w 1(4) k0 i by (auto simp: if_ok_def split: if_splits)
    have rd: "rd pos k = take k s" using 1(2,3) by simp
    have "length (drop k s) < length s" using k0 False by simp
    moreover have "drop k s = drop (pos + k) c" using 1(3) by (simp add: add.commute)
    ultimately have "file_body D g rd (pos + k) (length (drop k s)) b2 = Inr b'" using 1(1) 1(2) ec(2) by blast
    then show ?thesis using False k k0 i ec(1) rd by (simp add: file_body.simps [of D g rd pos "length s"])
  qed
qed


context message_sink
begin

lemma head_header_msg:
  assumes "at_head m t"
  obtains m1 b where "om_header E name v m = Inr (NoError, m1)" "m1 = m\<lparr>om_buf := b, om_mode := OmHeaders\<rparr>"
    "at_head m1 (t @ (name @ '': '' @ v) @ crlf)"
proof -
  obtain m1 b where m1: "ensure_headers E m = Inr (NoError, m1)" "m1 = m\<lparr>om_buf := b, om_mode := OmHeaders\<rparr>" "om_ok m1 t"
    using headers_msg [OF assms] .
  then have mode: "om_mode m1 = OmHeaders" by simp
  obtain b2 where b2: "om_header E name v m1 = Inr (NoError, m1\<lparr>om_buf := b2\<rparr>)"
    "om_ready (m1\<lparr>om_buf := b2\<rparr>) (t @ (name @ '': '' @ v) @ crlf)"
    using header_msg [OF mode m1(3)] .
  have "om_header E name v m = om_header E name v m1"
    using m1(1) mode by (simp add: om_header_def ensure_headers_def [of E m1])
  then show ?thesis using that [of "m1\<lparr>om_buf := b2\<rparr>" b2] b2 mode m1(2) om_ready_ok [OF b2(2)] by (simp add: at_head_def)
qed

text \<open>A file sent once the body has begun.\<close>

lemma file_send_msg:
  assumes "om_mode m = OmBody" "om_ready m t" "\<And>p k. rd p k = take k (drop p s)"
  shows "file_send E sys rd (length s) m = om_body E sys s m"
proof -
  note ok = om_ready_ok [OF assms(2)]
  obtain b where b: "ob_write (chain_enc E k) (oe_granula E) s (om_buf m) = Inr (NoError, b)"
    using write_text [OF ok [unfolded om_ok_def] order_refl om_ok_facts(2) [OF ok], of s] by blast
  have "file_body (chain_enc E k) (oe_granula E) rd 0 (length s) (om_buf m) = Inr b"
    by (rule file_body_writes [OF assms(3) _ b]) simp
  moreover have "om_iterator E m = m"
    using assms(2) by (auto simp: om_iterator_def om_ready_def ob_ready_def bufferEnsure_def)
  ultimately show ?thesis using assms(1) b om_ok_facts(1) [OF ok]
    by (simp add: file_send_def om_bodyIterator_def om_body_def ensure_body_def om_write_def om_on_def)
qed

end

lemma file_send_entered:
  assumes "ensure_body E sys m = Inr (NoError, m1)" "om_mode m1 = OmBody"
  shows "file_send E sys rd n m = file_send E sys rd n m1" "om_body E sys s m = om_body E sys s m1"
  using assms by (simp_all add: file_send_def om_bodyIterator_def om_body_def ensure_body_def [of E sys m1])

lemma file_send_written:
  fixes m :: "(string, 'z) omsg"
  assumes "plain.at_head H D Z n g m t" "system_step (open_env H D Z n g) sys m f L" "om_coding f = ece_identity" "spirit_hex H" "g < 2 ^ 63"
    "\<And>p k. rd p k = take k (drop p s)"
  shows "file_send (open_env H D Z n g) sys rd (length s) m = om_each (om_body (open_env H D Z n g) sys) [s] m"
proof -
  let ?E = "open_env H D Z n g"
  obtain b3 where m3: "plain.om_ok H D Z n g (m\<lparr>om_buf := b3, om_mode := OmHeaders\<rparr>) t"
    "\<And>sys. ensure_body ?E sys m = enter_body ?E sys (m\<lparr>om_buf := b3, om_mode := OmHeaders\<rparr>)"
    by (rule plain.headers_msg [OF assms(1)]) blast
  obtain m4 b4 where m4: "enter_body ?E sys (m\<lparr>om_buf := b3, om_mode := OmHeaders\<rparr>) = Inr (NoError, m4)"
    "m4 = f\<lparr>om_buf := b4, om_mode := OmBody\<rparr>"
    "if om_chunked f then chunked.om_ready H D Z n g (t @ lines_text L @ crlf) m4 [] else plain.om_ready H D Z n g m4 (t @ lines_text L @ crlf)"
    by (rule enter_open [OF m3(1) assms(2-5)])
  have mode: "om_mode m4 = OmBody" by (simp add: m4(2))
  have e: "ensure_body ?E sys m = Inr (NoError, m4)" using m3(2) m4(1) by simp
  have "file_send ?E sys rd (length s) m4 = om_body ?E sys s m4"
  proof (cases "om_chunked f")
    case True
    show ?thesis by (rule chunked.file_send_msg [OF mode m4(3) [unfolded if_P [OF True]] assms(6)])
  next
    case False
    show ?thesis by (rule plain.file_send_msg [OF mode m4(3) [unfolded if_not_P [OF False]] assms(6)])
  qed
  then have eq: "file_send ?E sys rd (length s) m = om_body ?E sys s m" using file_send_entered [OF e mode] by simp
  have one: "om_then r (\<lambda>m. Inr (NoError, m)) = r" for r :: "(ecode \<times> (string, 'z) omsg) hresult"
    by (cases r) (auto simp: om_then_def if_ok_def)
  have "om_each (om_body ?E sys) [] = (\<lambda>m. Inr (NoError, m))" by (rule ext) simp
  then have "om_each (om_body ?E sys) [s] m = om_then (om_body ?E sys s m) (\<lambda>m. Inr (NoError, m))" by simp
  then show ?thesis by (simp only: eq one)
qed

text \<open>The head of a file.\<close>

definition file_lines :: "handler \<Rightarrow> string \<Rightarrow> string \<Rightarrow> string \<Rightarrow> string list" where
  "file_lines h mime etag modified = [''Content-Type: '' @ mime] @ (if h_etag h then [''ETag: '' @ etag] else []) @
     (if h_modified h then [''Last-Modified: '' @ modified] else [])"

lemma file_head_written:
  fixes m :: "(string, 'z) omsg"
  assumes "0 < g" "om_mode m = OmFirstLine" "om_buf m = om_buf (new_output ch)" "status_text U (om_version m) 200 = Some st"
  obtains m1 b where "file_head (open_env H D Z n g) U h mime etag (Some lm) m = Inr (NoError, m1)"
    "m1 = m\<lparr>om_buf := b, om_mode := OmHeaders\<rparr>"
    "plain.at_head H D Z n g m1 (ch @ st @ crlf @ lines_text (file_lines h mime etag lm))"
proof -
  let ?E = "open_env H D Z n g"
  obtain b1 where m1: "server_firstLine ?E U 200 m = Inr (NoError, m\<lparr>om_buf := b1\<rparr>)"
    "plain.at_head H D Z n g (m\<lparr>om_buf := b1\<rparr>) (ch @ st @ crlf)"
    by (rule plain.server_line_msg [OF assms(2) new_message_ok [OF assms(1,3)] assms(4)])
  obtain m2 b2 where m2: "om_header ?E ''Content-Type'' mime (m\<lparr>om_buf := b1\<rparr>) = Inr (NoError, m2)"
    "m2 = m\<lparr>om_buf := b1\<rparr>\<lparr>om_buf := b2, om_mode := OmHeaders\<rparr>"
    "plain.at_head H D Z n g m2 ((ch @ st @ crlf) @ (''Content-Type'' @ '': '' @ mime) @ crlf)"
    by (rule plain.head_header_msg [OF m1(2)])
  define t2 where "t2 = ch @ st @ crlf @ lines_text [''Content-Type: '' @ mime]"
  have t2: "plain.at_head H D Z n g m2 t2" using m2(3) by (simp add: t2_def)
  obtain m3 b3 where m3: "(if h_etag h then om_header ?E ''ETag'' etag m2 else Inr (NoError, m2)) = Inr (NoError, m3)"
    "m3 = m\<lparr>om_buf := b3, om_mode := OmHeaders\<rparr>"
    "plain.at_head H D Z n g m3 (t2 @ lines_text (if h_etag h then [''ETag: '' @ etag] else []))"
  proof (cases "h_etag h")
    case True
    obtain m3 b3 where "om_header ?E ''ETag'' etag m2 = Inr (NoError, m3)" "m3 = m2\<lparr>om_buf := b3, om_mode := OmHeaders\<rparr>"
      "plain.at_head H D Z n g m3 (t2 @ (''ETag'' @ '': '' @ etag) @ crlf)" by (rule plain.head_header_msg [OF t2])
    then show ?thesis using that [of m3 b3] True m2(2) by simp
  next
    case False
    then show ?thesis using that [of m2 b2] t2 m2(2) by simp
  qed
  obtain m4 b4 where m4: "(if h_modified h then om_header_value ?E ''Last-Modified'' (Some lm) m3 else Inr (NoError, m3)) = Inr (NoError, m4)"
    "m4 = m\<lparr>om_buf := b4, om_mode := OmHeaders\<rparr>"
    "plain.at_head H D Z n g m4 ((t2 @ lines_text (if h_etag h then [''ETag: '' @ etag] else [])) @
       lines_text (if h_modified h then [''Last-Modified: '' @ lm] else []))"
  proof (cases "h_modified h")
    case True
    obtain m4 b4 where "om_header_value ?E ''Last-Modified'' (Some lm) m3 = Inr (NoError, m4)" "m4 = m3\<lparr>om_buf := b4, om_mode := OmHeaders\<rparr>"
      "plain.at_head H D Z n g m4 ((t2 @ lines_text (if h_etag h then [''ETag: '' @ etag] else [])) @ (''Last-Modified'' @ '': '' @ lm) @ crlf)"
      by (rule plain.head_value_msg [OF m3(3)])
    then show ?thesis using that [of m4 b4] True m3(2) by simp
  next
    case False
    then show ?thesis using that [of m3 b3] m3(2,3) by simp
  qed
  have "file_head ?E U h mime etag (Some lm) m = Inr (NoError, m4)"
    unfolding file_head_def m1(1) om_then_simps m2(1) m3(1) m4(1) ..
  then show ?thesis using that m4(2,3) by (simp add: file_lines_def t2_def lines_text_append)
qed


text \<open>The framing of a response with a length that is not compressed.\<close>

lemma known_length:
  assumes "n < 2 ^ 64 - 1"
  shows "unat (of_nat n :: u64) = n" "(of_nat n :: u64) \<noteq> unknown_length"
proof -
  show u: "unat (of_nat n :: u64) = n" using assms by (simp add: unsigned_of_nat take_bit_nat_eq_self)
  have "unat (unknown_length :: u64) = 2 ^ 64 - 1"
    by (simp add: unknown_length_def unsigned_minus_1_eq_mask mask_eq_exp_minus_1)
  then show "(of_nat n :: u64) \<noteq> unknown_length" using u assms by auto
qed

lemma sized_framing:
  assumes "n \<noteq> 0" "n < 2 ^ 64 - 1" "lv = 0 \<or> server_coding V (ask_encoding a) = ece_identity" "om_mode m = OmHeaders" "om_keep m = EcUnknown"
  shows "set_framing (server_framing V a (setContentCompress lv (setContentLength (of_nat n) m))) =
    m\<lparr>om_length := of_nat n, om_level := lv, om_keep := server_keep (om_version m) (ask_connection a) EcUnknown, om_chunked := False,
      om_coding := ece_identity\<rparr>"
proof -
  have n: "(of_nat n :: u64) \<noteq> unknown_length" "(of_nat n :: u64) \<noteq> 0"
    using known_length [OF assms(2)] assms(1) by (simp, metis unsigned_0)
  show ?thesis using n assms(3,5)
    by (cases "lv = 0"; cases "server_chunked V (om_version m) (ask_te a) (om_chunked m)")
       (simp_all add: set_framing_def server_framing_def setContentCompress_def setContentLength_def Let_def)
qed

text \<open>The answer with a file: what the loop sends is the file when it has been opened, and nothing when it has not.\<close>

definition served_lines :: "(nat \<Rightarrow> string) \<Rightarrow> handler \<Rightarrow> string \<Rightarrow> string \<Rightarrow> string \<Rightarrow> string \<Rightarrow> nat \<Rightarrow> econnection \<Rightarrow> string list" where
  "served_lines D h mime etag lm d n k = file_lines h mime etag lm @ [''Date: '' @ d, ''Server: haws'', ''Content-Length: '' @ D n] @
     system_line (k \<noteq> EcUnknown) ''Connection'' (connection_text k)"

lemma file_written:
  fixes m :: "(string, 'z) omsg"
  assumes "spirit_hex H" "0 < g" "g < 2 ^ 63" "m = new_response ch v" "status_text U v 200 = Some st"
    "''..'' \<notin> set (fs_elements F path)" "fs_stat F (fs_join F path) = Some s" "st_regular s" "\<not> not_modified F h U timegm q s"
    "0 < st_size s" "st_size s < 2 ^ 64 - 1" "fs_open F (fs_join F path) = fd" "fd \<noteq> 0" "date_text U gmtime (st_mtime s) = Some lm"
    "0 \<le> fd \<Longrightarrow> \<forall>p k. fs_read F fd p k = take k (drop p c)" "0 \<le> fd \<Longrightarrow> length c = st_size s"
    "compress_level x (st_size s) = 0 \<or> server_coding V (ask_encoding a) = ece_identity" "x = getExtInfo h (fs_extension F path)"
    "k = server_keep v (ask_connection a) EcUnknown"
  shows "\<exists>m'. onRequest (open_env H D Z n g) U gmtime timegm (server_system (open_env H D Z n g) V a (Some d)) F h path q m =
      Inr (NoError, m', Some (if k = EcKeepAlive then NextRequest else ChannelClosed)) \<and>
    w_channel (snd (ob_up (om_buf m'))) = ch @ st @ crlf @
      lines_text (served_lines D h (x_mime x) (etag_text F s) lm d (st_size s) k) @ crlf @ (if 0 \<le> fd then c else [])"
proof -
  let ?E = "open_env H D Z n g" and ?sys = "server_system (open_env H D Z n g) V a (Some d)"
  let ?bs = "if 0 \<le> fd then [c] else []"
  have m: "om_mode m = OmFirstLine" "om_buf m = om_buf (new_output ch)" "om_version m = v" "om_keep m = EcUnknown"
    using assms(4) by (simp_all add: new_response_def new_output_def)
  obtain m1 b where m1: "file_head ?E U h (x_mime x) (etag_text F s) (Some lm) m = Inr (NoError, m1)"
    "m1 = m\<lparr>om_buf := b, om_mode := OmHeaders\<rparr>"
    "plain.at_head H D Z n g m1 (ch @ st @ crlf @ lines_text (file_lines h (x_mime x) (etag_text F s) lm))"
    by (rule file_head_written [OF assms(2) m(1,2)]) (use assms(5) m(3) in simp)
  define m2 where "m2 = setContentCompress (compress_level x (st_size s)) (setContentLength (of_nat (st_size s)) m1)"
  have head: "plain.at_head H D Z n g m2 (ch @ st @ crlf @ lines_text (file_lines h (x_mime x) (etag_text F s) lm))"
    using m1(3) by (simp add: m2_def setContentCompress_def setContentLength_def plain.at_head_def plain.om_ok_def)
  have f: "set_framing (server_framing V a m2) = m1\<lparr>om_length := of_nat (st_size s), om_level := compress_level x (st_size s), om_keep := k,
      om_chunked := False, om_coding := ece_identity\<rparr>"
    unfolding m2_def assms(19) using sized_framing [of "st_size s" "compress_level x (st_size s)" V a m1] assms(10,11,17) m1(2) m(3,4) by simp
  have coding: "om_coding (set_framing (server_framing V a m2)) = ece_identity" by (simp add: f)
  obtain m' gs where m': "om_then (om_each (om_body ?E ?sys) ?bs m2) (om_bodyFlush ?E ?sys) = Inr (NoError, m')"
    "\<forall>y\<in>set gs. y \<noteq> []" "concat gs = concat ?bs" "om_keep m' = om_keep (set_framing (server_framing V a m2))"
    "w_channel (snd (ob_up (om_buf m'))) = (ch @ st @ crlf @ lines_text (file_lines h (x_mime x) (etag_text F s) lm)) @
       lines_text (server_lines ?E d (set_framing (server_framing V a m2))) @ crlf @
       body_wire H (om_chunked (set_framing (server_framing V a m2))) gs"
    by (rule response_rest [OF head coding assms(1,3)])
  have "(if 0 \<le> fd then file_send ?E ?sys (fs_read F fd) (st_size s) m2 else Inr (NoError, m2)) = om_each (om_body ?E ?sys) ?bs m2"
  proof (cases "0 \<le> fd")
    case True
    have rd: "\<And>p j. fs_read F fd p j = take j (drop p c)" using assms(15) True by blast
    have "file_send ?E ?sys (fs_read F fd) (length c) m2 = om_each (om_body ?E ?sys) [c] m2"
      by (rule file_send_written [OF head server_system_step _ assms(1,3) rd]) (use coding in simp)
    then show ?thesis using True assms(16) by simp
  qed simp
  then have fl: "om_then (if 0 \<le> fd then file_send ?E ?sys (fs_read F fd) (st_size s) m2 else Inr (NoError, m2)) (om_bodyFlush ?E ?sys) =
      Inr (NoError, m')" using m'(1) by simp
  have "onRequest ?E U gmtime timegm ?sys F h path q m =
      then_flush ?E ?sys (if 0 \<le> fd then file_send ?E ?sys (fs_read F fd) (st_size s) m2 else Inr (NoError, m2))"
    using assms(6-10,12-14) m1(1) by (simp add: onRequest_def assms(18) [symmetric] m2_def)
  also have "\<dots> = Inr (NoError, m', Some (after_flush m'))" by (rule then_flush_ok [OF fl])
  also have "after_flush m' = (if k = EcKeepAlive then NextRequest else ChannelClosed)" using m'(4) by (simp add: f after_flush_def)
  finally have "onRequest ?E U gmtime timegm ?sys F h path q m = Inr (NoError, m', Some (if k = EcKeepAlive then NextRequest else ChannelClosed))" .
  moreover note known_length [OF assms(11)]
  moreover have "concat gs = (if 0 \<le> fd then c else [])" using m'(3) by simp
  ultimately show ?thesis using m'(5)
    by (simp add: f server_lines_def system_lines_def served_lines_def lines_text_append body_wire_def system_line_def open_env_def)
qed


lemma empty_written:
  fixes m :: "(string, 'z) omsg"
  assumes "spirit_hex H" "0 < g" "g < 2 ^ 63" "m = new_response ch v" "status_text U v n0 = Some st"
    "k = server_keep v (ask_connection a) EcUnknown"
  shows "\<exists>m'. answer_empty (open_env H D Z n g) U (server_system (open_env H D Z n g) V a (Some d)) n0 m =
      Inr (NoError, m', Some (if k = EcKeepAlive then NextRequest else ChannelClosed)) \<and>
    w_channel (snd (ob_up (om_buf m'))) = ch @ st @ crlf @ lines_text ([''Date: '' @ d, ''Server: haws'', ''Content-Length: '' @ D 0] @
      system_line (k \<noteq> EcUnknown) ''Connection'' (connection_text k)) @ crlf"
proof -
  let ?E = "open_env H D Z n g" and ?sys = "server_system (open_env H D Z n g) V a (Some d)"
  have m: "om_mode m = OmFirstLine" "om_buf m = om_buf (new_output ch)" "om_version m = v" "om_keep m = EcUnknown"
    using assms(4) by (simp_all add: new_response_def new_output_def)
  obtain b where b: "server_firstLine ?E U n0 m = Inr (NoError, m\<lparr>om_buf := b\<rparr>)" "plain.at_head H D Z n g (m\<lparr>om_buf := b\<rparr>) (ch @ st @ crlf)"
    by (rule plain.server_line_msg [OF m(1) new_message_ok [OF assms(2) m(2)]]) (use assms(5) m(3) in simp)
  define m2 where "m2 = setContentLength 0 (m\<lparr>om_buf := b\<rparr>)"
  have head: "plain.at_head H D Z n g m2 (ch @ st @ crlf)"
    using b(2) by (simp add: m2_def setContentLength_def plain.at_head_def plain.om_ok_def)
  have z: "(0 :: u64) \<noteq> unknown_length" using known_length(2) [of 0] by simp
  then have f: "set_framing (server_framing V a m2) = m\<lparr>om_buf := b, om_length := 0, om_keep := k, om_chunked := False, om_coding := ece_identity\<rparr>"
    using assms(6) m(3,4)
    by (cases "server_chunked V v (ask_te a) (om_chunked m)") (simp_all add: m2_def set_framing_def server_framing_def setContentLength_def Let_def)
  have coding: "om_coding (set_framing (server_framing V a m2)) = ece_identity" by (simp add: f)
  obtain m' gs where m': "om_then (om_each (om_body ?E ?sys) [] m2) (om_bodyFlush ?E ?sys) = Inr (NoError, m')"
    "\<forall>y\<in>set gs. y \<noteq> []" "concat gs = concat []" "om_keep m' = om_keep (set_framing (server_framing V a m2))"
    "w_channel (snd (ob_up (om_buf m'))) = (ch @ st @ crlf) @ lines_text (server_lines ?E d (set_framing (server_framing V a m2))) @ crlf @
       body_wire H (om_chunked (set_framing (server_framing V a m2))) gs"
    by (rule response_rest [OF head coding assms(1,3)])
  have fl: "om_then (Inr (NoError, m2)) (om_bodyFlush ?E ?sys) = Inr (NoError, m')" using m'(1) by simp
  have "answer_empty ?E U ?sys n0 m = Inr (NoError, m', Some (after_flush m'))"
    unfolding answer_empty_def b(1) om_then_simps m2_def [symmetric] by (rule then_flush_ok [OF fl])
  moreover have "concat gs = []" using m'(3) by simp
  ultimately show ?thesis using m'(4,5) z
    by (simp add: f after_flush_def server_lines_def system_lines_def body_wire_def system_line_def open_env_def)
qed

subsection \<open>Properties\<close>

text \<open>
  C11: a file is served as it is.  To a request for a path without an element \<open>..\<close> that is a regular file, not empty, not known to the client
  and that can be opened, the answer is 200 with the type of its extension, its length, and its content, whatever the buffer, if no
  compression is chosen: the configuration asks for none of a file of this type and size, or the client takes none.
\<close>

theorem file_is_served:
  fixes m :: "(string, 'z) omsg"
  assumes "spirit_hex H" "0 < g" "g < 2 ^ 63" "m = new_response ch v" "status_text U v 200 = Some st"
    "''..'' \<notin> set (fs_elements F path)" "fs_stat F (fs_join F path) = Some s" "st_regular s" "\<not> not_modified F h U timegm q s"
    "0 < st_size s" "st_size s < 2 ^ 64 - 1" "fs_open F (fs_join F path) = fd" "0 < fd" "date_text U gmtime (st_mtime s) = Some lm"
    "\<forall>p k. fs_read F fd p k = take k (drop p c)" "length c = st_size s"
    "compress_level (getExtInfo h (fs_extension F path)) (st_size s) = 0 \<or> server_coding V (ask_encoding a) = ece_identity"
    "k = server_keep v (ask_connection a) EcUnknown"
  shows "\<exists>m'. onRequest (open_env H D Z n g) U gmtime timegm (server_system (open_env H D Z n g) V a (Some d)) F h path q m =
      Inr (NoError, m', Some (if k = EcKeepAlive then NextRequest else ChannelClosed)) \<and>
    w_channel (snd (ob_up (om_buf m'))) = ch @ st @ crlf @
      lines_text (served_lines D h (x_mime (getExtInfo h (fs_extension F path))) (etag_text F s) lm d (st_size s) k) @ crlf @ c"
  using file_written [OF assms(1-12) _ assms(14) _ _ assms(17) refl assms(18), of c] assms(13,15,16) by auto


text \<open>
  C34: nothing outside the root is looked at.  A path with an element \<open>..\<close> is answered with 404 whatever the file system is, and so is a path to nothing or
  to something that is no regular file; the answer has the length zero and no body.
\<close>

theorem outside_is_refused:
  fixes m :: "(string, 'z) omsg"
  assumes "spirit_hex H" "0 < g" "g < 2 ^ 63" "m = new_response ch v" "status_text U v 404 = Some st"
    "''..'' \<in> set (fs_elements F path) \<or> (case fs_stat F (fs_join F path) of None \<Rightarrow> True | Some s \<Rightarrow> \<not> st_regular s)"
    "k = server_keep v (ask_connection a) EcUnknown"
  shows "\<exists>m'. onRequest (open_env H D Z n g) U gmtime timegm (server_system (open_env H D Z n g) V a (Some d)) F h path q m =
      Inr (NoError, m', Some (if k = EcKeepAlive then NextRequest else ChannelClosed)) \<and>
    w_channel (snd (ob_up (om_buf m'))) = ch @ st @ crlf @ lines_text ([''Date: '' @ d, ''Server: haws'', ''Content-Length: '' @ D 0] @
      system_line (k \<noteq> EcUnknown) ''Connection'' (connection_text k)) @ crlf"
proof -
  have "onRequest (open_env H D Z n g) U gmtime timegm (server_system (open_env H D Z n g) V a (Some d)) F h path q m =
      answer_empty (open_env H D Z n g) U (server_system (open_env H D Z n g) V a (Some d)) 404 m"
    using assms(6) by (auto simp: onRequest_def notFound_def split: option.splits)
  then show ?thesis using empty_written [OF assms(1-5,7)] by simp
qed

text \<open>A file system with one file of three bytes, which can be opened or not.\<close>

definition sample_files :: "int \<Rightarrow> files" where
  "sample_files fd = \<lparr>fs_elements = (\<lambda>p. [p]), fs_extension = (\<lambda>p. []), fs_join = (\<lambda>p. ''/r'' @ p),
     fs_stat = (\<lambda>p. if p = ''/r/a'' then Some \<lparr>st_regular = True, st_mtime = 784111777, st_size = 3, st_ino = 1\<rparr> else None),
     fs_open = (\<lambda>p. fd), fs_read = (\<lambda>fd p k. take k (drop p ''abc'')), fs_hex = (\<lambda>n. [])\<rparr>"

definition sample_handler :: handler where
  "sample_handler = \<lparr>h_etag = False, h_modified = True, h_default = new_extinfo, h_infos = Map.empty\<rparr>"

lemma sample_date_text: "date_text sample_uint civil_tm 784111777 = Some ''Sun, 06 Nov 1994 08:49:37 GMT''"
  unfolding date_text_def sample_date by code_simp

abbreviation sample_asked :: asked where
  "sample_asked \<equiv> \<lparr>ask_connection = None, ask_te = None, ask_encoding = None\<rparr>"

abbreviation sample_env :: "(string, toy) oenv" where
  "sample_env \<equiv> open_env sample_spirit dec_text toy_zlib 0 2"

lemma sample_keep: "EcKeepAlive = server_keep (1, 1) (ask_connection sample_asked) EcUnknown"
  by (simp add: server_keep_def version_less_def)

definition sample_stat :: fstat where
  "sample_stat = \<lparr>st_regular = True, st_mtime = 784111777, st_size = 3, st_ino = 1\<rparr>"

definition sample_ask :: asked_file where
  "sample_ask = \<lparr>ask_none_match = None, ask_since = None\<rparr>"

lemma sample_file:
  "''..'' \<notin> set (fs_elements (sample_files fd) ''/a'')" "fs_stat (sample_files fd) (fs_join (sample_files fd) ''/a'') = Some sample_stat"
  "st_regular sample_stat" "\<not> not_modified (sample_files fd) sample_handler U timegm sample_ask sample_stat"
  "0 < st_size sample_stat" "st_size sample_stat < 2 ^ 64 - 1" "fs_open (sample_files fd) p = fd"
  "date_text sample_uint civil_tm (st_mtime sample_stat) = Some ''Sun, 06 Nov 1994 08:49:37 GMT''"
  "\<forall>p k. fs_read (sample_files fd) fd p k = take k (drop p ''abc'')" "length ''abc'' = st_size sample_stat"
  "compress_level (getExtInfo sample_handler e) (st_size sample_stat) = 0"
  "x_mime (getExtInfo sample_handler e) = ''application/octet-stream''"
  by (simp_all add: sample_files_def sample_stat_def sample_ask_def sample_handler_def not_modified_def sample_date_text compress_level_def
      getExtInfo_def new_extinfo_def)

lemma sample_ok: "status_text sample_uint (1, 1) 200 = Some (''HTTP/'' @ version_text sample_uint (1, 1) @ '' '' @ ul_gen sample_uint 200 @ '' OK'')"
  "\<exists>st. status_text sample_uint (1, 1) 404 = Some st"
  by (simp_all add: status_text_def reasonPhrase_def esc_307_def)

theorem file_is_served_witness:
  "\<exists>m'. onRequest sample_env sample_uint civil_tm civil_time (server_system sample_env sample_decimal sample_asked (Some ''D''))
      (sample_files 3) sample_handler ''/a'' sample_ask (new_response '''' (1, 1)) = Inr (NoError, m', Some NextRequest) \<and>
    w_channel (snd (ob_up (om_buf m'))) = ''HTTP/'' @ version_text sample_uint (1, 1) @ '' '' @ ul_gen sample_uint 200 @ '' OK'' @ crlf @
      lines_text (served_lines dec_text sample_handler ''application/octet-stream'' (etag_text (sample_files 3) sample_stat)
        ''Sun, 06 Nov 1994 08:49:37 GMT'' ''D'' (st_size sample_stat) EcKeepAlive) @ crlf @ ''abc''"
  using file_is_served [OF sample_spirit_hex _ _ refl sample_ok(1) sample_file(1-7) _ sample_file(8-10) disjI1 [OF sample_file(11)] sample_keep,
      where g = 2 and ch = "[]" and D = dec_text and Z = toy_zlib and n = 0 and V = sample_decimal and d = "''D''" and timegm = civil_time]
  by (simp add: sample_file(12))


theorem outside_is_refused_witness:
  "\<exists>m'. onRequest sample_env sample_uint civil_tm civil_time (server_system sample_env sample_decimal sample_asked (Some ''D''))
      (sample_files 3) sample_handler ''..'' sample_ask (new_response '''' (1, 1)) = Inr (NoError, m', Some NextRequest)"
proof -
  obtain st where st: "status_text sample_uint (1, 1) 404 = Some st" using sample_ok(2) by blast
  have "''..'' \<in> set (fs_elements (sample_files 3) ''..'')" by (simp add: sample_files_def)
  from outside_is_refused [OF sample_spirit_hex _ _ refl st disjI1 [OF this] sample_keep, where g = 2 and ch = "[]" and D = dec_text and
      Z = toy_zlib and n = 0 and V = sample_decimal and d = "''D''" and gmtime = civil_tm and timegm = civil_time and h = sample_handler and q = sample_ask]
  show ?thesis by auto
qed

end
