(* ===== verification/HttpClient.thy ===== *)
theory HttpClient
  imports HttpFiles
begin

text \<open>
  The client (http/impl/client.cpp, http/client/impl/request.cpp): an URL is taken apart, the channel is connected, and the request is written with the
  headers of the client.  What \<open>connect\<close> gives, the error code, the channel and the port, is an argument.
\<close>

subsection \<open>URLs\<close>

record url_parts =
  up_host :: string
  up_service :: string
  up_ssl :: bool
  up_path :: string

text \<open>The optional scheme: the flags \<open>schemaHttp\<close> and \<open>schemaHttps\<close>, which stay set when the rest of the scheme is not there, and where the host begins.\<close>

definition url_scheme :: "string \<Rightarrow> bool \<times> bool \<times> string" where
  "url_scheme s = (case after_lit ''http'' s of None \<Rightarrow> (False, False, s)
     | Some r \<Rightarrow> (case (case expect (CHR ''s'') r of Some r' \<Rightarrow> (True, r') | None \<Rightarrow> (False, r)) of (https, r1) \<Rightarrow>
         (\<not> https, https, (case after_lit ''://'' r1 of Some r2 \<Rightarrow> r2 | None \<Rightarrow> s))))"

definition host_char :: "char \<Rightarrow> bool" where
  "host_char c \<longleftrightarrow> c \<notin> set '':/?#''"

definition url_port :: "string \<Rightarrow> string \<times> string" where
  "url_port s = (case expect (CHR '':'') s of None \<Rightarrow> ([], s)
     | Some r \<Rightarrow> if takeWhile is_digit r = [] then ([], s) else (takeWhile is_digit r, dropWhile is_digit r))"

text \<open>\<open>parseUrl\<close>; what follows the path is not looked at.\<close>

definition parseUrl :: "string \<Rightarrow> url_parts option" where
  "parseUrl url = (case url_scheme url of (http, https, s) \<Rightarrow>
     let host = takeWhile host_char s in
     if host = [] then None
     else (case url_port (dropWhile host_char s) of (port, s1) \<Rightarrow>
       let path = takeWhile (\<lambda>c. c \<noteq> CHR ''#'') s1;
           service = (if port = [] then (if https then ''443'' else ''80'') else port) in
       Some \<lparr>up_host = host, up_service = service, up_ssl = https \<or> \<not> http \<and> service = ''443'',
             up_path = (if path = [] then ''/'' else path)\<rparr>))"

subsection \<open>Requests\<close>

definition new_request :: "'ch \<Rightarrow> ('ch, 'z) omsg" where
  "new_request ch = (new_output ch)\<lparr>om_version := (1, 1)\<rparr>"

text \<open>The host of the header, with the port unless it is the one of the scheme.\<close>

definition header_host :: "string \<Rightarrow> u16 \<Rightarrow> bool \<Rightarrow> string option" where
  "header_host host port ssl = (if port \<noteq> 80 \<and> \<not> ssl \<or> port \<noteq> 443 \<and> ssl then map_option (\<lambda>t. host @ CHR '':'' # t) (ntoa_ushort port) else Some host)"

definition client_system :: "('ch, 'z) oenv \<Rightarrow> string \<Rightarrow> ('ch, 'z) step" where
  "client_system E host m = om_then (om_header E ''Host'' host m) (\<lambda>m.
     om_then (if version_less (om_version m) (1, 1) then om_header E ''TE'' ''chunked'' m else Inr (NoError, m)) (\<lambda>m.
     om_then (om_header E ''Accept-Encoding'' ''deflate, gzip'' m) (\<lambda>m.
     om_then (om_header E ''User-Agent'' ''hawc'' m) (om_system E))))"

text \<open>What the connector gives.\<close>

record 'ch connected =
  cn_error :: ecode
  cn_channel :: 'ch
  cn_port :: u16

text \<open>\<open>connect\<close> and \<open>connectGet\<close>: the request and the host of its header, or the error code.\<close>

definition connectGet :: "('ch, 'z) oenv \<Rightarrow> uintlib \<Rightarrow> (string \<Rightarrow> string \<Rightarrow> bool \<Rightarrow> 'ch connected) \<Rightarrow> string \<Rightarrow> u16 \<times> u16 \<Rightarrow>
    (ecode + (ecode \<times> string \<times> ('ch, 'z) omsg)) hresult" where
  "connectGet E U connect url v = (case parseUrl url of None \<Rightarrow> Inr (Inl BadUrl)
     | Some u \<Rightarrow> (let c = connect (up_host u) (up_service u) (up_ssl u) in
         if cn_error c \<noteq> NoError then Inr (Inl (cn_error c))
         else (case header_host (up_host u) (cn_port c) (up_ssl u) of None \<Rightarrow> Inl BadIterator
           | Some host \<Rightarrow> hbind (client_firstLine E U EmGet (up_path u) v (new_request (cn_channel c))) (\<lambda>(ec, m). Inr (Inr (ec, host, m))))))"

definition client_get :: "('ch, 'z) oenv \<Rightarrow> uintlib \<Rightarrow> (string \<Rightarrow> string \<Rightarrow> bool \<Rightarrow> 'ch connected) \<Rightarrow> string \<Rightarrow> u16 \<times> u16 \<Rightarrow>
    (ecode + (ecode \<times> ('ch, 'z) omsg)) hresult" where
  "client_get E U connect url v = hbind (connectGet E U connect url v) (\<lambda>r. case r of
       Inl ec \<Rightarrow> Inr (Inl ec)
     | Inr (ec, host, m) \<Rightarrow> if ec \<noteq> NoError then Inr (Inl ec) else hbind (om_bodyFlush E (client_system E host) m) (\<lambda>r. Inr (Inr r)))"

subsection \<open>What is parsed\<close>

text \<open>An URL of its parts.\<close>

definition url_text :: "string \<Rightarrow> string \<Rightarrow> string \<Rightarrow> string \<Rightarrow> string \<Rightarrow> string" where
  "url_text scheme host port path frag = scheme @ host @ (if port = [] then [] else '':'' @ port) @ path @ (if frag = [] then [] else ''#'' @ frag)"

lemma url_rest:
  assumes "host \<noteq> []" "list_all host_char host" "list_all is_digit port" "path = [] \<or> hd path = CHR ''/''" "CHR ''#'' \<notin> set path"
    "s = host @ (if port = [] then [] else '':'' @ port) @ path @ (if frag = [] then [] else ''#'' @ frag)"
  shows "takeWhile host_char s = host" "url_port (dropWhile host_char s) = (port, path @ (if frag = [] then [] else ''#'' @ frag))"
    "takeWhile (\<lambda>c. c \<noteq> CHR ''#'') (path @ (if frag = [] then [] else ''#'' @ frag)) = path"
proof -
  let ?fr = "if frag = [] then [] else ''#'' @ frag"
  let ?t = "(if port = [] then [] else '':'' @ port) @ path @ ?fr"
  have path: "path = [] \<or> (\<exists>p. path = CHR ''/'' # p)" using assms(4) by (cases path) auto
  have t: "takeWhile host_char ?t = []" "dropWhile host_char ?t = ?t"
    using path by (auto simp: host_char_def)
  have h: "\<And>c. c \<in> set host \<Longrightarrow> host_char c" using assms(2) by (simp add: list_all_iff)
  show "takeWhile host_char s = host" unfolding assms(6) using h t(1) by (simp add: takeWhile_append2)
  have d: "dropWhile host_char s = ?t" unfolding assms(6) using h t(2) by (simp add: dropWhile_append2)
  have nd: "\<not> is_digit (CHR ''/'')" "\<not> is_digit (CHR ''#'')" by (simp_all add: is_digit_def)
  have pd: "\<And>c. c \<in> set port \<Longrightarrow> is_digit c" using assms(3) by (simp add: list_all_iff)
  have pt: "takeWhile is_digit (path @ ?fr) = []" "dropWhile is_digit (path @ ?fr) = path @ ?fr" using path nd by auto
  show "url_port (dropWhile host_char s) = (port, path @ ?fr)"
  proof (cases "port = []")
    case True
    have "expect (CHR '':'') (path @ ?fr) = None" using path by (auto simp: expect_def)
    then show ?thesis unfolding d url_port_def using True by simp
  next
    case False
    have "takeWhile is_digit (port @ path @ ?fr) = port" "dropWhile is_digit (port @ path @ ?fr) = path @ ?fr"
      using pd pt by (simp_all add: takeWhile_append2 dropWhile_append2)
    then show ?thesis unfolding d url_port_def using False by (simp add: expect_def)
  qed
  have "\<And>c. c \<in> set path \<Longrightarrow> c \<noteq> CHR ''#''" using assms(5) by auto
  then show "takeWhile (\<lambda>c. c \<noteq> CHR ''#'') (path @ ?fr) = path" by (simp add: takeWhile_append2)
qed


definition url_of :: "string \<Rightarrow> string \<Rightarrow> string \<Rightarrow> string \<Rightarrow> bool \<Rightarrow> url_parts" where
  "url_of host port path dflt ssl = \<lparr>up_host = host, up_service = (if port = [] then dflt else port), up_ssl = ssl,
     up_path = (if path = [] then ''/'' else path)\<rparr>"

lemma parse_after_scheme:
  assumes "host \<noteq> []" "list_all host_char host" "list_all is_digit port" "path = [] \<or> hd path = CHR ''/''" "CHR ''#'' \<notin> set path"
    "url_scheme url = (http, https, host @ (if port = [] then [] else '':'' @ port) @ path @ (if frag = [] then [] else ''#'' @ frag))"
  shows "parseUrl url = Some (url_of host port path (if https then ''443'' else ''80'')
    (https \<or> \<not> http \<and> (if port = [] then (if https then ''443'' else ''80'') else port) = ''443''))"
  using url_rest [OF assms(1-5) refl, of frag] assms(1) by (simp add: parseUrl_def assms(6) url_of_def)

lemma host_no_scheme:
  assumes "list_all host_char host" "x = host @ (if port = [] then [] else '':'' @ port) @ path @ f" "path = [] \<or> hd path = CHR ''/''" "host = a @ h"
    "list_all is_digit port" "f = [] \<or> hd f = CHR ''#''"
  shows "after_lit ''://'' (drop (length a) x) = None"
proof -
  have x: "drop (length a) x = h @ (if port = [] then [] else '':'' @ port) @ path @ f" using assms(2,4) by simp
  have nd: "\<not> is_digit (CHR ''/'')" by (simp add: is_digit_def)
  show ?thesis
  proof (cases h)
    case Nil
    then show ?thesis unfolding x using assms(3,5,6) nd
      by (cases port; cases path; cases f) (auto simp: after_lit_def starts_def)
  next
    case (Cons c cs)
    then have "c \<noteq> CHR '':''" using assms(1,4) by (auto simp: host_char_def)
    then show ?thesis unfolding x by (simp add: Cons after_lit_def starts_def)
  qed
qed

subsection \<open>What is written\<close>

definition client_lines :: "('ch, 'z) oenv \<Rightarrow> string \<Rightarrow> ('ch, 'z) omsg \<Rightarrow> string list" where
  "client_lines E host f = [''Host: '' @ host] @ (if version_less (om_version f) (1, 1) then [''TE: chunked''] else []) @
     [''Accept-Encoding: deflate, gzip'', ''User-Agent: hawc''] @ system_lines E (set_framing f)"

lemma client_system_step:
  "system_step (open_env H D Z n g) (client_system (open_env H D Z n g) host) m ((set_framing m)\<lparr>om_mode := OmHeaders\<rparr>)
     (client_lines (open_env H D Z n g) host m)"
  unfolding system_step_def open_env_size
proof (intro allI impI)
  let ?E = "open_env H D Z n g"
  let ?m = "\<lambda>b. m\<lparr>om_buf := b, om_mode := OmHeaders\<rparr>"
  fix b t
  assume m: "plain.om_ok H D Z n g (?m b) t"
  have mode: "om_mode (?m b) = OmHeaders" for b by simp
  have e: "(?m b)\<lparr>om_buf := b'\<rparr> = ?m b'" for b b' by simp
  have v: "om_version (?m b) = om_version m" for b by simp
  obtain b1 where b1: "om_header ?E ''Host'' host (?m b) = Inr (NoError, (?m b)\<lparr>om_buf := b1\<rparr>)"
    "plain.om_ready H D Z n g ((?m b)\<lparr>om_buf := b1\<rparr>) (t @ (''Host'' @ '': '' @ host) @ crlf)"
    by (rule plain.header_msg [OF mode m])
  define t1 where "t1 = t @ lines_text [''Host: '' @ host]"
  have ok1: "plain.om_ok H D Z n g (?m b1) t1" using plain.om_ready_ok [OF b1(2)] by (simp add: e t1_def)
  obtain b2 where b2: "(if version_less (om_version m) (1, 1) then om_header ?E ''TE'' ''chunked'' (?m b1) else Inr (NoError, ?m b1)) = Inr (NoError, ?m b2)"
    "plain.om_ok H D Z n g (?m b2) (t1 @ lines_text (if version_less (om_version m) (1, 1) then [''TE: chunked''] else []))"
  proof (cases "version_less (om_version m) (1, 1)")
    case True
    obtain b2 where "om_header ?E ''TE'' ''chunked'' (?m b1) = Inr (NoError, (?m b1)\<lparr>om_buf := b2\<rparr>)"
      "plain.om_ready H D Z n g ((?m b1)\<lparr>om_buf := b2\<rparr>) (t1 @ (''TE'' @ '': '' @ ''chunked'') @ crlf)"
      by (rule plain.header_msg [OF mode ok1])
    then show ?thesis using that [of b2] True plain.om_ready_ok [of H D Z n g "?m b2"] by (simp only: e if_P) simp
  next
    case False
    then show ?thesis using that [of b1] ok1 by simp
  qed
  define t2 where "t2 = t1 @ lines_text (if version_less (om_version m) (1, 1) then [''TE: chunked''] else [])"
  have ok2: "plain.om_ok H D Z n g (?m b2) t2" using b2(2) by (simp only: t2_def)
  obtain b3 where b3: "om_header ?E ''Accept-Encoding'' ''deflate, gzip'' (?m b2) = Inr (NoError, (?m b2)\<lparr>om_buf := b3\<rparr>)"
    "plain.om_ready H D Z n g ((?m b2)\<lparr>om_buf := b3\<rparr>) (t2 @ (''Accept-Encoding'' @ '': '' @ ''deflate, gzip'') @ crlf)"
    by (rule plain.header_msg [OF mode ok2])
  obtain b4 where b4: "om_header ?E ''User-Agent'' ''hawc'' (?m b3) = Inr (NoError, (?m b3)\<lparr>om_buf := b4\<rparr>)"
    "plain.om_ready H D Z n g ((?m b3)\<lparr>om_buf := b4\<rparr>)
      ((t2 @ (''Accept-Encoding'' @ '': '' @ ''deflate, gzip'') @ crlf) @ (''User-Agent'' @ '': '' @ ''hawc'') @ crlf)"
    by (rule plain.header_msg [OF mode plain.om_ready_ok [OF b3(2), unfolded e]])
  obtain b5 where b5: "om_system ?E (?m b4) = Inr (NoError, (set_framing (?m b4))\<lparr>om_buf := b5\<rparr>)"
    "plain.om_ok H D Z n g ((set_framing (?m b4))\<lparr>om_buf := b5\<rparr>)
      (((t2 @ (''Accept-Encoding'' @ '': '' @ ''deflate, gzip'') @ crlf) @ (''User-Agent'' @ '': '' @ ''hawc'') @ crlf) @
       lines_text (system_lines ?E (set_framing (?m b4))))"
    by (rule plain.system_msg [OF mode plain.om_ready_ok [OF b4(2), unfolded e]])
  have "client_system ?E host (?m b) = Inr (NoError, (set_framing m)\<lparr>om_mode := OmHeaders\<rparr>\<lparr>om_buf := b5\<rparr>)"
    unfolding client_system_def b1(1) e om_then_simps v b2(1) b3(1) b4(1) b5(1) by simp
  moreover have "plain.om_ok H D Z n g ((set_framing m)\<lparr>om_mode := OmHeaders\<rparr>\<lparr>om_buf := b5\<rparr>) (t @ lines_text (client_lines ?E host m))"
    using b5(2) by (simp add: client_lines_def t1_def t2_def lines_text_append)
  ultimately show "\<exists>b'. client_system ?E host (?m b) = Inr (NoError, (set_framing m)\<lparr>om_mode := OmHeaders\<rparr>\<lparr>om_buf := b'\<rparr>) \<and>
      plain.om_ok H D Z n g ((set_framing m)\<lparr>om_mode := OmHeaders\<rparr>\<lparr>om_buf := b'\<rparr>) (t @ lines_text (client_lines ?E host m))"
    by blast
qed


lemma header_host_ok:
  obtains host where "header_host h p ssl = Some host" "no_cr h \<Longrightarrow> no_cr host"
proof (cases "p \<noteq> 80 \<and> \<not> ssl \<or> p \<noteq> 443 \<and> ssl")
  case True
  have "nat (uint p) < 10 ^ 7" using unsigned_less [of p, where 'a = nat] by simp
  then have "ntoa_ushort p = Some (dec_text (nat (uint p)))"
    by (cases "p = 0") (simp_all add: ntoa_ushort_def untoa_eq dec_text_def unsigned_eq_0_iff)
  moreover have "no_cr (dec_text k)" for k
    using decs_printed [of k] by (auto simp: dec_text_def no_cr_def list_all_iff is_digit_def)
  ultimately show ?thesis using that [of "h @ CHR '':'' # dec_text (nat (uint p))"] True by (simp add: header_host_def no_cr_def)
next
  case False
  then show ?thesis using that [of h] by (auto simp: header_host_def)
qed

lemma get_written:
  assumes "spirit_hex H" "0 < g" "g < 2 ^ 63" "parseUrl url = Some u" "c = connect (up_host u) (up_service u) (up_ssl u)"
    "cn_error c = NoError" "header_host (up_host u) (cn_port c) (up_ssl u) = Some host"
  shows "\<exists>m'. client_get (open_env H D Z n g) U connect url v = Inr (Inr (NoError, m')) \<and>
    w_channel (snd (ob_up (om_buf m'))) = cn_channel c @ (''GET '' @ up_path u @ '' HTTP/'' @ version_text U v) @ crlf @
      lines_text [''Host: '' @ host, ''Accept-Encoding: deflate, gzip'', ''User-Agent: hawc''] @ crlf"
proof -
  let ?E = "open_env H D Z n g"
  let ?m = "new_request (cn_channel c) :: (string, 'b) omsg"
  have m: "om_mode ?m = OmFirstLine" "om_buf ?m = om_buf (new_output (cn_channel c))" by (simp_all add: new_request_def new_output_def)
  have mt: "method_text EmGet = Some ''GET ''" by (simp add: method_text_def)
  obtain b1 where b1: "client_firstLine ?E U EmGet (up_path u) v ?m = Inr (NoError, ?m\<lparr>om_buf := b1\<rparr>)"
    "plain.at_head H D Z n g (?m\<lparr>om_buf := b1\<rparr>) (cn_channel c @ (''GET '' @ up_path u @ '' HTTP/'' @ version_text U v) @ crlf)"
    by (rule plain.client_line_msg [OF m(1) new_message_ok [OF assms(2) m(2)] mt])
  have f: "set_framing ?m = ?m" by (simp add: set_framing_def new_request_def new_output_def Let_def)
  have fb: "set_framing (?m\<lparr>om_buf := b1\<rparr>) = ?m\<lparr>om_buf := b1\<rparr>" by (simp add: f)
  have facts: "om_coding ?m = ece_identity" "om_chunked ?m = False" "\<not> version_less (om_version ?m) (1, 1)" "system_lines ?E ?m = []"
    by (simp_all add: new_request_def new_output_def version_less_def system_lines_def system_line_def)
  have lines: "client_lines ?E host (?m\<lparr>om_buf := b1\<rparr>) = [''Host: '' @ host, ''Accept-Encoding: deflate, gzip'', ''User-Agent: hawc'']"
    using facts(3,4) by (simp add: client_lines_def f)
  let ?f = "(set_framing (?m\<lparr>om_buf := b1\<rparr>))\<lparr>om_mode := OmHeaders\<rparr>"
  have coding: "om_coding ?f = ece_identity" "om_chunked ?f = False" unfolding fb using facts(1,2) by simp_all
  obtain b gs where b: "om_then (om_each (om_body ?E (client_system ?E host)) [] (?m\<lparr>om_buf := b1\<rparr>)) (om_bodyFlush ?E (client_system ?E host)) =
      Inr (NoError, ?f\<lparr>om_buf := b, om_mode := OmFirstLine\<rparr>)" "\<forall>x\<in>set gs. x \<noteq> []" "concat gs = concat []"
    "w_channel (snd (ob_up b)) = (cn_channel c @ (''GET '' @ up_path u @ '' HTTP/'' @ version_text U v) @ crlf) @
       lines_text (client_lines ?E host (?m\<lparr>om_buf := b1\<rparr>)) @ crlf @ body_wire H False gs"
    using written_body [OF b1(2) client_system_step coding(1) assms(1,3), of host "[]"] unfolding coding(2) by blast
  have "concat gs = []" using b(3) by simp
  then have "w_channel (snd (ob_up b)) = cn_channel c @ (''GET '' @ up_path u @ '' HTTP/'' @ version_text U v) @ crlf @
      lines_text [''Host: '' @ host, ''Accept-Encoding: deflate, gzip'', ''User-Agent: hawc''] @ crlf"
    using b(4) unfolding lines body_wire_def by simp
  moreover have "client_get ?E U connect url v =
      Inr (Inr (NoError, ?f\<lparr>om_buf := b, om_mode := OmFirstLine\<rparr>))"
    using assms(4,6,7) b1(1) b(1) by (simp add: client_get_def connectGet_def assms(5) [symmetric] Let_def)
  ultimately show ?thesis by auto
qed

subsection \<open>Properties\<close>

text \<open>
  C35: an URL is taken apart as it is put together.  For the schemes http and https, and for none when the host does not begin like a scheme, the host, the
  port or the one of the scheme, and the path come back; the fragment is dropped.
\<close>

theorem url_parsed:
  assumes "host \<noteq> []" "list_all host_char host" "list_all is_digit port" "path = [] \<or> hd path = CHR ''/''" "CHR ''#'' \<notin> set path"
    "scheme \<in> {''http://'', ''https://''} \<or> scheme = [] \<and> \<not> starts ''http'' (url_text [] host port path frag)"
    "dflt = (if scheme = ''https://'' then ''443'' else ''80'')"
  shows "parseUrl (url_text scheme host port path frag) = Some \<lparr>up_host = host, up_service = (if port = [] then dflt else port),
     up_ssl = (scheme = ''https://'' \<or> scheme = [] \<and> port = ''443''), up_path = (if path = [] then ''/'' else path)\<rparr>"
proof -
  let ?s = "host @ (if port = [] then [] else '':'' @ port) @ path @ (if frag = [] then [] else ''#'' @ frag)"
  have t: "url_text scheme host port path frag = scheme @ ?s" by (simp add: url_text_def)
  have sch: "url_scheme (scheme @ ?s) = (scheme = ''http://'', scheme = ''https://'', ?s)"
  proof -
    consider "scheme = ''http://''" | "scheme = ''https://''" | "scheme = []" "\<not> starts ''http'' ?s"
      using assms(6) by (auto simp: url_text_def)
    then show ?thesis
    proof cases
      case 3
      then show ?thesis by (simp add: url_scheme_def after_lit_def)
    qed (simp_all add: url_scheme_def after_lit_def starts_def expect_def)
  qed
  show ?thesis unfolding t parse_after_scheme [OF assms(1-5) sch] using assms(6,7) by (auto simp: url_of_def)
qed

theorem url_parsed_witness:
  "parseUrl ''https://h.org:8443/a?b#c'' = Some \<lparr>up_host = ''h.org'', up_service = ''8443'', up_ssl = True, up_path = ''/a?b''\<rparr>"
  using url_parsed [of "''h.org''" "''8443''" "''/a?b''" "''https://''" "''c''" "''443''"]
  by (simp add: url_text_def host_char_def is_digit_def)

text \<open>
  A host that begins like a scheme.  Without a scheme, a host whose name begins with \<open>https\<close> sets the flag of that scheme, which stays when \<open>://\<close> is not found:
  the client connects to port 443 and uses SSL.
\<close>

theorem host_taken_for_scheme:
  assumes "host = ''https'' @ h" "list_all host_char host" "path = [] \<or> hd path = CHR ''/''" "CHR ''#'' \<notin> set path"
  shows "parseUrl (host @ path) = Some \<lparr>up_host = host, up_service = ''443'', up_ssl = True, up_path = (if path = [] then ''/'' else path)\<rparr>"
proof -
  have "after_lit ''://'' (drop (length ''https'') (host @ path)) = None"
    by (rule host_no_scheme [OF assms(2) _ assms(3) assms(1), where port = "[]" and f = "[]"]) simp_all
  then have "url_scheme (host @ path) = (False, True, host @ path)"
    using assms(1) by (simp add: url_scheme_def after_lit_def starts_def expect_def)
  then show ?thesis using parse_after_scheme [of host "[]" path "host @ path" False True "[]"] assms by (simp add: url_of_def)
qed

theorem host_taken_for_scheme_witness:
  "parseUrl ''httpserver.org/x'' = Some \<lparr>up_host = ''httpserver.org'', up_service = ''443'', up_ssl = True, up_path = ''/x''\<rparr>"
  using host_taken_for_scheme [of "''httpserver.org''" "''erver.org''" "''/x''"] by (simp add: host_char_def)


lemma parse_chars:
  assumes "parseUrl url = Some u" "c \<notin> set url" "c \<noteq> CHR ''/''"
  shows "c \<notin> set (up_host u)" "c \<notin> set (up_path u)"
proof -
  have ex: "c \<in> set x" if "expect d x = Some r" "c \<in> set r" for d x r c
    using that by (auto simp: expect_def split: list.splits if_splits)
  obtain a b s where s: "url_scheme url = (a, b, s)" by (cases "url_scheme url")
  have "set s \<subseteq> set url"
  proof -
    have al: "c \<in> set x" if "after_lit p x = Some r" "c \<in> set r" for p x r c
      using that by (auto simp: after_lit_def split: if_splits dest: in_set_dropD)
    show ?thesis using s by (auto simp: url_scheme_def split: option.splits dest: al ex)
  qed
  then have cs: "c \<notin> set s" using assms(2) by blast
  obtain port s1 where p: "url_port (dropWhile host_char s) = (port, s1)" by (cases "url_port (dropWhile host_char s)")
  have "set s1 \<subseteq> set (dropWhile host_char s)"
    using p by (auto simp: url_port_def split: option.splits if_splits dest: set_dropWhileD ex)
  then have cs1: "c \<notin> set s1" using cs by (auto dest: set_dropWhileD)
  have "up_host u = takeWhile host_char s" "up_path u = (let path = takeWhile (\<lambda>c. c \<noteq> CHR ''#'') s1 in if path = [] then ''/'' else path)"
    using assms(1) by (auto simp: parseUrl_def s p Let_def split: if_splits)
  then show "c \<notin> set (up_host u)" "c \<notin> set (up_path u)" using cs cs1 assms(3) by (auto simp: Let_def dest: set_takeWhileD)
qed

text \<open>
  C12: what the client asks for is what the server is asked.  For an URL without blanks and carriage returns, when the connection is made, \<open>get\<close> sends one
  request without a body; when it arrives in packets one of which holds the whole empty line that ends its head, the server reads the headers of the client and
  a request line with the method \<open>GET\<close>, the path and the query of the URL and the version.
\<close>

theorem get_is_served:
  assumes "spirit_hex H" "0 < g" "g < 2 ^ 63" "uint_law U" "one_digit U" "unat (fst v) < 10" "unat (snd v) < 10"
    "parseUrl url = Some u" "CHR '' '' \<notin> set url" "no_cr url" "cn_error (connect (up_host u) (up_service u) (up_ssl u)) = NoError"
    "cn_channel (connect (up_host u) (up_service u) (up_ssl u)) = []"
  shows "\<exists>m' host fl. client_get (open_env H D Z n g) U connect url v = Inr (Inr (NoError, m')) \<and>
    header_host (up_host u) (cn_port (connect (up_host u) (up_service u) (up_ssl u))) (up_ssl u) = Some host \<and>
    request_line q fl = (\<lparr>rq_method_e = EmGet, rq_method = ''GET'', rq_version = version_text U v, rq_uri = ''GET '' @ up_path u,
      rq_path = path_part (up_path u), rq_query = query_part (up_path u), rq_ver = v\<rparr>, True) \<and>
    (\<forall>ps1 p ps2 T. (\<forall>x\<in>set (ps1 @ p # ps2). packet_ok x 0) \<longrightarrow> all_bytes (ps1 @ p # ps2) = w_channel (snd (ob_up (om_buf m'))) @ T \<longrightarrow>
       length (all_bytes ps1) + 2 \<le> length (w_channel (snd (ob_up (om_buf m')))) \<longrightarrow>
       length (w_channel (snd (ob_up (om_buf m')))) \<le> length (all_bytes (ps1 @ [p])) \<longrightarrow>
       (\<exists>r. readHeaders hc fin (new_message (ps1 @ p # ps2)) = Inr (NoError, r) \<and>
          head_read hc r fl [''Host: '' @ host, ''Accept-Encoding: deflate, gzip'', ''User-Agent: hawc'']))"
proof -
  define c where "c = connect (up_host u) (up_service u) (up_ssl u)"
  note con = assms(11,12) [folded c_def]
  obtain host where host: "header_host (up_host u) (cn_port c) (up_ssl u) = Some host" "no_cr (up_host u) \<Longrightarrow> no_cr host"
    using header_host_ok [of "up_host u" "cn_port c" "up_ssl u"] by blast
  define fl where "fl = ''GET '' @ up_path u @ '' HTTP/'' @ version_text U v"
  define ls where "ls = [''Host: '' @ host, ''Accept-Encoding: deflate, gzip'', ''User-Agent: hawc'']"
  obtain m' where m': "client_get (open_env H D Z n g) U connect url v = Inr (Inr (NoError, m'))"
    "w_channel (snd (ob_up (om_buf m'))) = fl @ crlf @ lines_text ls @ crlf"
    using get_written [where connect = connect, OF assms(1-3,8) c_def con(1) host(1), of D Z n U v] unfolding con(2) fl_def ls_def append_Nil append_assoc by blast
  have nosp: "CHR '' '' \<notin> set (up_path u)" using parse_chars(2) [OF assms(8,9)] by simp
  have mt: "method_text EmGet = Some ''GET ''" by (simp add: method_text_def)
  have line: "request_line q fl = (reqline_of U EmGet (up_path u) v, True)"
    unfolding fl_def by (rule request_line_ok [OF assms(4-7) mt nosp])
  have "no_cr (up_host u)" "no_cr (up_path u)" using parse_chars [OF assms(8), of "CHR 0x0D"] assms(10) by (simp_all add: no_cr_def)
  moreover have "no_cr (version_text U v)"
  proof -
    obtain c1 where c1: "ul_gen U (unat (fst v)) = [c1]" "is_digit c1" using one_digit_gen [OF assms(4-6)] by blast
    obtain c2 where c2: "ul_gen U (unat (snd v)) = [c2]" "is_digit c2" using one_digit_gen [OF assms(4,5,7)] by blast
    then show ?thesis using c1 by (auto simp: version_text_def no_cr_def is_digit_def)
  qed
  ultimately have fl: "no_cr fl" and hd: "list_all header_line ls" using host(2)
    by (auto simp: fl_def ls_def no_cr_def header_line_def)
  define Q where "Q = length fl + 2 + length (lines_text ls) + 2"
  have len: "length (w_channel (snd (ob_up (om_buf m')))) = Q" by (simp add: m'(2) Q_def)
  have "\<exists>r. readHeaders hc fin (new_message (ps1 @ p # ps2)) = Inr (NoError, r) \<and> head_read hc r fl ls"
    if ps: "\<forall>x\<in>set (ps1 @ p # ps2). packet_ok x 0" "all_bytes (ps1 @ p # ps2) = w_channel (snd (ob_up (om_buf m'))) @ T"
      "length (all_bytes ps1) + 2 \<le> length (w_channel (snd (ob_up (om_buf m'))))"
      "length (w_channel (snd (ob_up (om_buf m')))) \<le> length (all_bytes (ps1 @ [p]))" for ps1 p ps2 T
  proof -
    have all: "all_bytes (ps1 @ p # ps2) = fl @ crlf @ lines_text ls @ crlf @ T" using ps(2) by (simp add: m'(2))
    obtain d where d: "readHeaders hc fin (new_message (ps1 @ p # ps2)) =
        Inr (NoError, head_message hc (ps1 @ p # ps2) d ps2 fl ls (seek (chain d) (Q - 2)))"
      "received_to (new_message (ps1 @ p # ps2)) (ps1 @ [p]) ps2 d Q"
      by (rule read_head_ok [OF ps(1) fl hd refl all Q_def, where hc = hc and fin = fin]) (use ps(3,4) len in simp_all)
    then show ?thesis using head_message_read [OF d(2) hd all Q_def ps(1)] by blast
  qed
  moreover have "method_name EmGet = ''GET''" by (simp add: method_name_def method_text_def)
  ultimately show ?thesis using m'(1) host(1) line unfolding c_def ls_def
    by (intro exI [of _ m'] exI [of _ host] exI [of _ fl]) (simp add: reqline_of_def)
qed

theorem get_is_served_witness:
  "\<exists>m' host fl. client_get (open_env sample_spirit dec_text toy_zlib 0 2) sample_uint
      (\<lambda>h s ssl. \<lparr>cn_error = NoError, cn_channel = [], cn_port = 80\<rparr>) ''http://h/a?b'' (1, 1) = Inr (Inr (NoError, m')) \<and>
    header_host ''h'' 80 False = Some host \<and>
    request_line no_reqline fl = (\<lparr>rq_method_e = EmGet, rq_method = ''GET'', rq_version = version_text sample_uint (1, 1), rq_uri = ''GET /a?b'',
      rq_path = ''/a'', rq_query = ''b'', rq_ver = (1, 1)\<rparr>, True)"
proof -
  have u: "parseUrl ''http://h/a?b'' = Some \<lparr>up_host = ''h'', up_service = ''80'', up_ssl = False, up_path = ''/a?b''\<rparr>" by code_simp
  from get_is_served [OF sample_spirit_hex _ _ sample_uint_law sample_one_digit _ _ u, where g = 2 and v = "(1, 1)" and D = dec_text and Z = toy_zlib and
      n = 0 and q = no_reqline and connect = "\<lambda>h s ssl. \<lparr>cn_error = NoError, cn_channel = [], cn_port = 80\<rparr>" and hc = sample_hash and fin = EndOfFile]
  show ?thesis by (auto simp: no_cr_def path_part_def query_part_def)
qed

end
