(* ===== verification/Spec2Isabelle.thy ===== *)
theory Spec2Isabelle
  imports Prelude Endian Numerals VariantOrder Containers VariantConvert VariantAccess VariantSerial VariantRead VariantRoundtrip HttpBuffer HttpExtract HttpChunked HttpHeaders HttpMessage HttpMessageRead HttpMessageBody AsyncEvent AsyncLocks AsyncMutex AsyncWaiter AsyncPool PgCalendar PgBind PgResult PgRoundtrip PgDb PgQueue PgPrepared HttpDate HttpZlib HttpOutput HttpLines HttpServer HttpFiles HttpClient
begin

text \<open>
  A verification library for adel, a search engine in C++: the parts of its own core logic that do
  not sit behind an operating system or a third-party library, translated function by function, and
  the theorems that make them correct.  File names are relative to \<^verbatim>\<open>src/\<close>.

  \<^bold>\<open>The program.\<close>  \<open>utils\<close> holds variants, values of forty types with conversions, an order and a binary
  form.  \<open>async\<close> runs fibers on worker threads; a fiber that has to wait for an event or a mutex gives
  its thread away.  \<open>net\<close> reads and writes packets, \<open>http\<close> builds messages from them and back, \<open>pgc\<close> is
  a client of PostgreSQL over libpq; both run in fibers and exchange variants.  \<open>scom\<close>, \<open>spider\<close> and
  \<open>entry\<close> put the application together.

  \<^bold>\<open>Theories and code.\<close>
  \<^item> \<open>Prelude\<close>: machine types, collections of facts, bytes and characters, and the locale
    \<open>data_refinement\<close> of components that refine an abstract data type.
  \<^item> \<open>Endian\<close> (\<^verbatim>\<open>include/utils/fixEndian.hpp\<close>), \<open>Numerals\<close> (\<^verbatim>\<open>aton.hpp\<close>, \<^verbatim>\<open>xton.hpp\<close>, \<^verbatim>\<open>ntoa.hpp\<close>): objects are
    the bytes they occupy on a host of either byte order; the buffers of the printers have the code's
    sizes.
  \<^item> \<open>VariantTypes\<close>, \<open>VariantState\<close> (\<^verbatim>\<open>include/utils/variant.hpp\<close>, \<^verbatim>\<open>src/utils/variantImpl.hpp\<close>): the payload of
    a variant is a datatype with the C++ types as constructors; a cell is the signed type field with the
    object that lives in the storage, and constructing over an object, or destroying none, is an error.
    \<open>VariantOrder\<close> has \<open>less\<close> and \<open>equal\<close>, \<open>Containers\<close> the ordered containers, \<open>VariantConvert\<close>,
    \<open>VariantUuid\<close> and \<open>VariantAccess\<close> the conversion matrix (\<^verbatim>\<open>src/utils/variantConvertMatrix.hpp\<close>), and
    \<open>VariantSerial\<close>, \<open>VariantRead\<close> and \<open>VariantRoundtrip\<close> the binary form
    (\<^verbatim>\<open>src/utils/variantSerialization.cpp\<close>).
  \<^item> \<open>HttpBuffer\<close> (\<^verbatim>\<open>src/http/inputMessage.cpp\<close>, \<^verbatim>\<open>impl/inputMessageBuffer.cpp\<close>,
    \<^verbatim>\<open>impl/contentDecoderAccumuler.cpp\<close>): the chain of buffers with the raw pointers between them as
    addresses, iterators into it, and the accumulator.  \<open>HttpExtract\<close> and \<open>HttpChunked\<close>: body extractors
    (\<^verbatim>\<open>impl/bodyExtractor*.cpp\<close>), the chunked encoder and the writer (\<^verbatim>\<open>impl/contentEncoder*.cpp\<close>);
    the locale \<open>content_sink\<close> is the contract of everything bytes are pushed into, and is interpreted
    for the accumulator and the writer.  \<open>HttpHeaders\<close>: header names and values.  \<open>HttpMessage\<close>,
    \<open>HttpMessageRead\<close>, \<open>HttpMessageBody\<close> (\<^verbatim>\<open>impl/inputMessage.cpp\<close>): the message read from packets.
  \<^item> \<open>HttpDate\<close> (\<^verbatim>\<open>src/http/headerValue_generators.cpp\<close>, \<^verbatim>\<open>headerValue_parsers.cpp\<close>): dates and the texts of
    headers.  \<open>HttpZlib\<close> (\<^verbatim>\<open>impl/contentEncoderZlib.cpp\<close>, \<^verbatim>\<open>impl/contentDecoderZlib.cpp\<close>): the loops around zlib.
    \<open>HttpOutput\<close> (\<^verbatim>\<open>impl/outputMessage.cpp\<close>): the message written, its buffer, modes, framing and the
    chain of encoders; the locales \<open>text_sink\<close> and \<open>message_sink\<close> say what a chain owes to the message and
    are interpreted for the plain and the chunked chain.  \<open>HttpLines\<close> (\<^verbatim>\<open>server/impl/request.cpp\<close>,
    \<^verbatim>\<open>client/impl/request.cpp\<close>, \<^verbatim>\<open>client/impl/response.cpp\<close>): first lines.  \<open>HttpServer\<close>
    (\<^verbatim>\<open>server/impl/response.cpp\<close>, \<^verbatim>\<open>impl/server.cpp\<close>), \<open>HttpFiles\<close> (\<^verbatim>\<open>server/impl/handlerFs.cpp\<close>) and
    \<open>HttpClient\<close> (\<^verbatim>\<open>impl/client.cpp\<close>): the response to a request, the handler of files, and the client.
  \<^item> \<open>AsyncEvent\<close>, \<open>AsyncLocks\<close>, \<open>AsyncMutex\<close>, \<open>AsyncWaiter\<close>, \<open>AsyncPool\<close> (\<^verbatim>\<open>src/async/impl/*.cpp\<close>,
    \<^verbatim>\<open>include/async/eventWaiter.hpp\<close>): events, the order of their locks, mutexes, the waiter for several
    events, and the workers with their fibers.
  \<^item> \<open>PgCalendar\<close> (\<^verbatim>\<open>include/utils/julian.hpp\<close>), \<open>PgBind\<close> (\<^verbatim>\<open>src/pgc/impl/bindData.cpp\<close>), \<open>PgResult\<close>
    (\<^verbatim>\<open>src/pgc/impl/result.cpp\<close>), \<open>PgRoundtrip\<close>: parameters of queries and values of results.  \<open>PgDb\<close>
    (\<^verbatim>\<open>src/pgc/impl/db.cpp\<close>): the pool of connections; \<open>PgQueue\<close> and \<open>PgPrepared\<close>
    (\<^verbatim>\<open>src/pgc/impl/connectionHolder.cpp\<close>): requests and prepared statements of one connection.

  \<^bold>\<open>How state and operations correspond.\<close>  Objects are records with the members as fields, class
  hierarchies with virtual operations are records of functions or datatypes, error codes and failed
  assertions are values: \<open>hresult\<close>, \<open>cresult\<close>, \<open>rresult\<close>, \<open>presult\<close> are sums whose left side is a failed
  assertion, a null pointer, an access out of range or an uninitialised read.  Assertions are checked,
  as in a debug build.  Integers have their width.  A channel is the packets it delivers and the error
  behind them.  The fiber scheduler, the pool of connections and the request queue are step relations of
  any number of fibers, one step per section under a mutex; reachability is by rule induction, and the
  invariants are over all interleavings.

  \<^bold>\<open>What the lemmas show.\<close>
  \<^item> Data: byte order and numbers round-trip; the life cycle of a variant refines a value with a type;
    \<open>less\<close> is a strict weak order without NaN and \<open>not_a_date_time\<close>; serialization succeeds exactly without
    pointers and without special dates, which throw, and reading gives the value back, but for sets, which
    come back reversed.
  \<^item> HTTP: the accumulator refines a list of bytes; each extractor gives its decoder the body and
    nothing else; what the chunked encoder writes is decoded by the chunked extractor; the head of a
    message, and a whole message, are read for every way the bytes are cut into packets, given that one
    packet holds the whole empty line behind the head and, for a chunked body, that none ends in a
    carriage return.
  \<^item> HTTP written: a message arrives as its lines, its framing and its body for every size of the buffer, and the
    reader of \<open>HttpMessageBody\<close> gives the body back; what zlib compresses is expanded again for every cut of the
    stream; request and status lines, dates and URLs round-trip; a response says whether the connection goes on;
    the handler serves the content of the file asked for and nothing outside its root; what the client asks
    for is what the server is asked.
  \<^item> Fibers: a set event leaves no waiter behind; a mutex is exclusive and first in, first out, as
    long as only the fiber inside unlocks it, which the code does not check; a worker
    pool runs each fiber on one thread at a time and accounts for every task, except for the two ways
    in which a task is lost.
  \<^item> PostgreSQL: what is bound is fetched again, rows are mapped in full, a connection is in one place, a
    waiter for a connection is attended to, requests are answered in their order as long as the run of each
    returns, and preparing a statement ends inside a transaction of a server that does as documented.

  \<^bold>\<open>Bounds and fuel.\<close>  Loops with a bound that the code does not have: \<open>tok_loop\<close> and \<open>seg_loop\<close> take one
  step of an iterator in each round, and get the number of bytes of the message, which is all an
  iterator can move; \<open>header_loop\<close> gets \<open>line_bound\<close>, the bytes at hand and to come, as every header takes a
  byte; the conversions between nested variants recur to a depth of which \<open>VariantAccess.conversion_depth\<close>
  shows that more changes nothing; \<open>prepare_loop\<close> is shown to return with few rounds in a transaction
  and, outside, to return with no number of them; the loops around zlib get a number of rounds, of which
  enough are shown to give the result; \<open>oe_rounds\<close> is that number for the encoders of a message.  The other loops are structural or have a measure.

  \<^bold>\<open>Parameters.\<close>  Code that is not in the repository is an argument: Boost's calendar, \<open>lexical_cast\<close>,
  checksum and hash, Spirit's numbers, zlib, libpq and the database server, the file system and the paths of
  \<open>boost::filesystem\<close>, \<open>gmtime\<close> and \<open>timegm\<close>, and what the connector gives.  The properties that need
  something of it say so in a hypothesis that states its documentation, and a witness has an instance.

  \<^bold>\<open>Not modelled.\<close>  Context switches, timers and the I/O loop of \<open>async\<close>; the sockets, TLS and name
  resolution of \<open>net\<close>; the acceptors,
  options and starting of the HTTP server and the configuration of its file handler; the
  dialogue with libpq's sockets; \<open>scom\<close>, \<open>spider\<close> and \<open>entry\<close>, whose logic is in SQL statements and calls to
  the parts above and to htmlcxx; logging, options and dumps of \<open>utils\<close>; and the libraries that are
  copies of other projects (htmlcxx, utf8proc, sqlitepp).  The coverage of files is in the manifest.
\<close>

end
